(* ===== verification/Prelude.thy ===== *)
theory Prelude
  imports Main "HOL-Library.Word"
begin

text \<open>
  Shared vocabulary of the development: the status codes that every function of
  the framework returns (\<^verbatim>\<open>include/defines.h\<close> and Linux \<^verbatim>\<open>errno.h\<close>), the
  predicates \<^verbatim>\<open>ERROR\<close> and \<^verbatim>\<open>SUCCEEDED\<close>, the ways a C++ call can fail to
  return, and generic lemmas on lists that several components use.

  A function of the source returns a \<^verbatim>\<open>gint32\<close>; the model keeps it as an
  \<open>int\<close> with the exact value, so that a comparison of two codes computes.
\<close>

section \<open>Status codes\<close>

type_synonym gint32 = int

abbreviation (input) STATUS_SUCCESS :: gint32 where "STATUS_SUCCESS \<equiv> 0"
abbreviation (input) STATUS_PENDING :: gint32 where "STATUS_PENDING \<equiv> 65537"
abbreviation (input) STATUS_MORE_PROCESS_NEEDED :: gint32 where "STATUS_MORE_PROCESS_NEEDED \<equiv> 65538"
abbreviation (input) ERROR_FAIL :: gint32 where "ERROR_FAIL \<equiv> -2147483647"
abbreviation (input) ERROR_STATE :: gint32 where "ERROR_STATE \<equiv> -2147418109"
abbreviation (input) ERROR_FALSE :: gint32 where "ERROR_FALSE \<equiv> -2147418105"
abbreviation (input) ERROR_REPEAT :: gint32 where "ERROR_REPEAT \<equiv> -2147418104"
abbreviation (input) ERROR_QUEUE_FULL :: gint32 where "ERROR_QUEUE_FULL \<equiv> -2147418098"

abbreviation (input) EPERM :: gint32 where "EPERM \<equiv> 1"
abbreviation (input) ENOENT :: gint32 where "ENOENT \<equiv> 2"
abbreviation (input) EINTR :: gint32 where "EINTR \<equiv> 4"
abbreviation (input) E2BIG :: gint32 where "E2BIG \<equiv> 7"
abbreviation (input) EAGAIN :: gint32 where "EAGAIN \<equiv> 11"
abbreviation (input) ENOMEM :: gint32 where "ENOMEM \<equiv> 12"
abbreviation (input) EFAULT :: gint32 where "EFAULT \<equiv> 14"
abbreviation (input) EEXIST :: gint32 where "EEXIST \<equiv> 17"
abbreviation (input) EINVAL :: gint32 where "EINVAL \<equiv> 22"
abbreviation (input) EFBIG :: gint32 where "EFBIG \<equiv> 27"
abbreviation (input) ERANGE :: gint32 where "ERANGE \<equiv> 34"
abbreviation (input) ENAMETOOLONG :: gint32 where "ENAMETOOLONG \<equiv> 36"
abbreviation (input) ENODATA :: gint32 where "ENODATA \<equiv> 61"
abbreviation (input) EBADMSG :: gint32 where "EBADMSG \<equiv> 74"
abbreviation (input) ENOTSUP :: gint32 where "ENOTSUP \<equiv> 95"

text \<open>\<^verbatim>\<open>#define ERROR( ret_ )\<close> and \<^verbatim>\<open>#define SUCCEEDED( ret_ )\<close>: a positive
  status such as \<open>STATUS_PENDING\<close> is neither.\<close>

abbreviation (input) ERROR :: "gint32 \<Rightarrow> bool" where "ERROR r \<equiv> r < 0"
abbreviation (input) SUCCEEDED :: "gint32 \<Rightarrow> bool" where "SUCCEEDED r \<equiv> r = 0"

section \<open>Calls that do not return\<close>

text \<open>
  The left summand of a result: the call dereferences a null pointer, reads the
  back of an empty vector, indexes out of range, reads the wrong member of a union
  (all undefined in C++), throws, blocks for ever, or
  calls \<^verbatim>\<open>abort\<close>.
\<close>

datatype fault = Fault_Null | Fault_Empty | Fault_Range | Fault_Type | Fault_Throw | Fault_Block | Fault_Abort

type_synonym 'a run = "fault + 'a"

type_synonym byte = "8 word"

section \<open>Collections\<close>

named_theorems port_simps \<open>definitions and evaluations of the port state machine\<close>
named_theorems ifs_simps \<open>definitions of the interface state\<close>
named_theorems bmp_simps \<open>definitions and evaluations of the block bitmaps\<close>
named_theorems sched_simps \<open>definitions of the task scheduler\<close>

section \<open>Lists\<close>

lemma replicate_Suc_append: "replicate n x @ x # ys = replicate (Suc n) x @ ys"
  by (induction n) auto

lemma sum_list_replicate_nat: "sum_list (replicate n (x::nat)) = n * x"
  by (induction n) auto

text \<open>A \<^verbatim>\<open>for\<close> loop that breaks at the first index with a property.\<close>

lemma find_upt_Some:
  "find P [a..<b] = Some j \<longleftrightarrow> a \<le> j \<and> j < b \<and> P j \<and> (\<forall>l. a \<le> l \<and> l < j \<longrightarrow> \<not> P l)"
proof
  assume "find P [a..<b] = Some j"
  then obtain i where i: "i < b - a" "P (a + i)" "j = a + i" "\<forall>k<i. \<not> P (a + k)"
    by (auto simp: find_Some_iff)
  have "\<not> P l" if "a \<le> l" "l < j" for l
    using i(3) i(4)[rule_format, of "l - a"] that by simp
  with i show "a \<le> j \<and> j < b \<and> P j \<and> (\<forall>l. a \<le> l \<and> l < j \<longrightarrow> \<not> P l)" by simp
next
  assume "a \<le> j \<and> j < b \<and> P j \<and> (\<forall>l. a \<le> l \<and> l < j \<longrightarrow> \<not> P l)"
  then show "find P [a..<b] = Some j"
    unfolding find_Some_iff by (intro exI[of _ "j - a"]) auto
qed

lemma find_upt_None: "find P [a..<b] = None \<longleftrightarrow> (\<forall>l. a \<le> l \<and> l < b \<longrightarrow> \<not> P l)"
  by (auto simp: find_None_iff)

end
