(* ===== verification/PortState.thy ===== *)
theory PortState
  imports Prelude
begin

text \<open>
  The port state machine of \<^verbatim>\<open>ipc/portstat.cpp\<close> (class \<^verbatim>\<open>CPortState\<close>): a stack of
  states guarded by a transition table, through which every request to a port has
  to pass. The theory holds the table, one definition per method, the invariant of
  the stack that all the calls of \<^verbatim>\<open>ipc/port.cpp\<close> keep, and the properties of the
  exclusion protocol that lets a stop request wait for the shared requests.

  \<^verbatim>\<open>m_vecStates\<close> is a \<open>nat list\<close> whose head is the \<^verbatim>\<open>back()\<close> of the vector. The
  port lock is held by every method, so each method is one atomic step.
\<close>

section \<open>Data\<close>

abbreviation (input) PORT_STATE_READY :: nat where "PORT_STATE_READY \<equiv> 0"
abbreviation (input) PORT_STATE_ATTACHED :: nat where "PORT_STATE_ATTACHED \<equiv> 1"
abbreviation (input) PORT_STATE_STARTING :: nat where "PORT_STATE_STARTING \<equiv> 2"
abbreviation (input) PORT_STATE_STOPPING :: nat where "PORT_STATE_STOPPING \<equiv> 3"
abbreviation (input) PORT_STATE_STOPPED :: nat where "PORT_STATE_STOPPED \<equiv> 4"
abbreviation (input) PORT_STATE_REMOVED :: nat where "PORT_STATE_REMOVED \<equiv> 5"
abbreviation (input) PORT_STATE_BUSY :: nat where "PORT_STATE_BUSY \<equiv> 6"
abbreviation (input) PORT_STATE_BUSY_SHARED :: nat where "PORT_STATE_BUSY_SHARED \<equiv> 7"
abbreviation (input) PORT_STATE_EXCLUDE_PENDING :: nat where "PORT_STATE_EXCLUDE_PENDING \<equiv> 8"
abbreviation (input) PORT_STATE_STOP_RESUME :: nat where "PORT_STATE_STOP_RESUME \<equiv> 9"
abbreviation (input) PORT_STATE_BUSY_RESUME :: nat where "PORT_STATE_BUSY_RESUME \<equiv> 10"
abbreviation (input) PORT_STATE_INVALID :: nat where "PORT_STATE_INVALID \<equiv> 4294967295"

abbreviation (input) PORTSTAT_MAP_LEN :: nat where "PORTSTAT_MAP_LEN \<equiv> 11"
abbreviation (input) MAX_PORT_STATE :: nat where "MAX_PORT_STATE \<equiv> 10"

abbreviation (input) IRP_MJ_PNP :: nat where "IRP_MJ_PNP \<equiv> 1"
abbreviation (input) IRP_MJ_FUNC :: nat where "IRP_MJ_FUNC \<equiv> 2"
abbreviation (input) IRP_MN_PNP_START :: nat where "IRP_MN_PNP_START \<equiv> 1"
abbreviation (input) IRP_MN_PNP_STOP :: nat where "IRP_MN_PNP_STOP \<equiv> 2"
abbreviation (input) IRP_MN_PNP_QUERY_STOP :: nat where "IRP_MN_PNP_QUERY_STOP \<equiv> 3"
abbreviation (input) IRP_MN_PNP_STACK_BUILT :: nat where "IRP_MN_PNP_STACK_BUILT \<equiv> 4"
abbreviation (input) IRP_MN_PNP_STACK_DESTROY :: nat where "IRP_MN_PNP_STACK_DESTROY \<equiv> 5"
abbreviation (input) IRP_MN_PNP_STOP_CHILD :: nat where "IRP_MN_PNP_STOP_CHILD \<equiv> 6"
abbreviation (input) IRP_MN_PNP_REATTACH :: nat where "IRP_MN_PNP_REATTACH \<equiv> 7"
abbreviation (input) IRP_MN_PNP_STACK_READY :: nat where "IRP_MN_PNP_STACK_READY \<equiv> 8"

abbreviation (input) IRP_STATE_READY :: int where "IRP_STATE_READY \<equiv> 1"
abbreviation (input) IRP_STATE_COMPLETED :: int where "IRP_STATE_COMPLETED \<equiv> 3"
abbreviation (input) IRP_STATE_CANCELLED :: int where "IRP_STATE_CANCELLED \<equiv> 5"

text \<open>
  Of an I/O request packet the state machine reads the stack of contexts, each a
  pair of major and minor command (the head is the \<^verbatim>\<open>back()\<close> of
  \<^verbatim>\<open>m_vecCtxStack\<close>), and the atomic state of the packet. A null \<^verbatim>\<open>IRP*\<close> is \<open>None\<close>.
\<close>

record irp =
  irp_id :: nat
  m_vecCtxStack :: "(nat \<times> nat) list"
  m_atmState :: int

text \<open>
  The members of \<^verbatim>\<open>CPortState\<close>. \<open>m_semWaitForReady\<close> is the value that
  \<^verbatim>\<open>sem_getvalue\<close> reports, \<open>m_pIoMgr\<close> the number of cores of the I/O manager of the
  parent port (\<open>None\<close> when the port has no manager), and \<open>m_queResume\<close> the resume
  tasks that were handed to that manager and have not run yet.
\<close>

record port_state =
  m_vecStates :: "nat list"
  m_pExclIrp :: "irp option"
  m_pResume :: "nat option"
  m_semWaitForReady :: int
  m_pIoMgr :: "nat option"
  m_queResume :: "(nat \<times> irp) list"

definition m_arrStatMap :: "int list list" where
  "m_arrStatMap =
    [[1, 0, 0,  1, 0, 0, 1, 1, 0, 0, 0],
     [0, 2, 1,  0, 0, 0, 1, 0, 0, 0, 0],
     [4, 3, 2,  0, 2, 0, 0, 0, 0, 0, 0],
     [0, 0, 0,  2, 4, 0, 0, 0, 0, 0, 0],
     [0, 1, 0,  0, 2, 1, 1, 0, 0, 0, 0],
     [0, 0, 0,  0, 0, 2, 0, 0, 0, 0, 0],
     [3, 3, 0,  0, 3, 0, 2, 0, 0, 0, 0],
     [3, 0, 0, -1, 0, 0, 0, 1, 1, 0, 0],
     [0, 0, 0,  0, 0, 0, 0, 0, 0, 4, 4],
     [0, 0, 0,  1, 0, 0, 0, 0, 0, 0, 0],
     [0, 0, 0,  0, 0, 0, 1, 0, 0, 4, 0]]"

section \<open>Methods\<close>

definition SEM_WAKEUP_ALL :: "int \<Rightarrow> int" where
  "SEM_WAKEUP_ALL v = (let iCount = - v in if iCount \<le> 0 then v else v + iCount)"

definition SEM_WAKEUP_SINGLE :: "int \<Rightarrow> int" where
  "SEM_WAKEUP_SINGLE v = (let iCount = - v in if iCount \<le> 0 then v else v + 1)"

definition IoRequestPacket_CanContinue :: "int \<Rightarrow> irp \<Rightarrow> gint32 \<times> irp" where
  "IoRequestPacket_CanContinue iNewState pIrp =
    (if m_atmState pIrp = IRP_STATE_READY then (0, pIrp\<lparr>m_atmState := iNewState\<rparr>)
     else if m_atmState pIrp = IRP_STATE_COMPLETED \<or> m_atmState pIrp = IRP_STATE_CANCELLED
     then (- EPERM, pIrp)
     else (ERROR_STATE, pIrp))"

definition CPortState_init :: "nat option \<Rightarrow> port_state" where
  "CPortState_init mgr =
    \<lparr>m_vecStates = [PORT_STATE_ATTACHED], m_pExclIrp = None, m_pResume = None,
     m_semWaitForReady = 0, m_pIoMgr = mgr, m_queResume = []\<rparr>"

definition GetPortState :: "port_state \<Rightarrow> nat" where
  "GetPortState s = (case m_vecStates s of [] \<Rightarrow> PORT_STATE_INVALID | c # _ \<Rightarrow> c)"

definition IsPortReady :: "port_state \<Rightarrow> bool" where
  "IsPortReady s = (case m_vecStates s of [] \<Rightarrow> False | c # _ \<Rightarrow> c = PORT_STATE_READY)"

text \<open>\<^verbatim>\<open>return -EINVAL\<close> in a function of type \<^verbatim>\<open>bool\<close> converts to \<^verbatim>\<open>true\<close>.\<close>

definition IsValidSubmit :: "nat \<Rightarrow> port_state \<Rightarrow> bool" where
  "IsValidSubmit dwNewState s =
    (if dwNewState > MAX_PORT_STATE then True
     else let bAction = m_arrStatMap ! hd (m_vecStates s) ! dwNewState in
       if bAction = 1 then True else if bAction = -1 then True else False)"

definition SetResumePoint :: "nat \<Rightarrow> port_state \<Rightarrow> port_state" where
  "SetResumePoint pFunc s = s\<lparr>m_pResume := Some pFunc\<rparr>"

definition SetPortState :: "nat \<Rightarrow> port_state \<Rightarrow> (gint32 \<times> port_state) run" where
  "SetPortState dwNewState s =
    (if dwNewState > MAX_PORT_STATE then Inr (- EINVAL, s)
     else case m_vecStates s of
       [] \<Rightarrow> Inr (0, s\<lparr>m_vecStates := [dwNewState mod 256]\<rparr>)
     | cur # rest \<Rightarrow>
         (let bAction = m_arrStatMap ! cur ! dwNewState in
          if bAction = 0 then Inr (ERROR_STATE, s)
          else if dwNewState \<noteq> PORT_STATE_STOP_RESUME
          then Inr (0, s\<lparr>m_vecStates := dwNewState mod 256 # rest\<rparr>)
          else if cur \<noteq> PORT_STATE_BUSY_RESUME then Inr (ERROR_STATE, s)
          else case rest of
            [] \<Rightarrow> Inl Fault_Empty
          | below # rest' \<Rightarrow>
              if below \<noteq> PORT_STATE_READY
              then Inr (ERROR_STATE, s\<lparr>m_vecStates := rest\<rparr>)
              else Inr (0, s\<lparr>m_vecStates := dwNewState mod 256 # rest'\<rparr>)))"

definition ScheduleResumeTask :: "gint32 \<Rightarrow> nat \<Rightarrow> irp \<Rightarrow> port_state \<Rightarrow> (gint32 \<times> port_state) run" where
  "ScheduleResumeTask iSched pTask pIrp s =
    (case m_pIoMgr s of
       None \<Rightarrow> Inl Fault_Null
     | Some _ \<Rightarrow>
         if ERROR iSched then Inr (iSched, s)
         else Inr (iSched, s\<lparr>m_queResume := m_queResume s @ [(pTask, pIrp)]\<rparr>))"

text \<open>
  \<open>PopState\<close> returns the status, the popped state (the out-parameter) and the new
  machine. \<open>iSched\<close> is what the I/O manager answers to the request to schedule the
  resume task.
\<close>

definition PopState :: "gint32 \<Rightarrow> port_state \<Rightarrow> (gint32 \<times> nat option \<times> port_state) run" where
  "PopState iSched s =
    (case m_vecStates s of
       [] \<Rightarrow> Inr (ERROR_STATE, None, s)
     | dwState # rest \<Rightarrow>
       (let s1 = s\<lparr>m_vecStates := rest\<rparr> in
        if dwState = PORT_STATE_BUSY
        then Inr (0, Some dwState,
                  s1\<lparr>m_semWaitForReady := SEM_WAKEUP_SINGLE (m_semWaitForReady s1)\<rparr>)
        else if dwState \<noteq> PORT_STATE_EXCLUDE_PENDING then Inr (0, Some dwState, s1)
        else case rest of
          [] \<Rightarrow> Inr (ERROR_STATE, Some dwState, s1)
        | [_] \<Rightarrow> Inr (ERROR_STATE, Some dwState, s1)
        | dwState2 # below # rest' \<Rightarrow>
            if dwState2 \<noteq> PORT_STATE_BUSY_SHARED then Inr (ERROR_STATE, Some dwState2, s1)
            else if below = PORT_STATE_BUSY_SHARED
            then Inr (0, Some dwState2,
                      s1\<lparr>m_vecStates := PORT_STATE_EXCLUDE_PENDING # below # rest'\<rparr>)
            else (case (m_pExclIrp s1, m_pResume s1) of
                (Some pIrp, Some pTask) \<Rightarrow>
                  if m_vecCtxStack pIrp = [] then Inl Fault_Throw
                  else
                   (let s2 = s1\<lparr>m_pResume := None, m_pExclIrp := None,
                                m_vecStates := PORT_STATE_EXCLUDE_PENDING # below # rest'\<rparr> in
                    case SetPortState PORT_STATE_BUSY_RESUME s2 of
                      Inl f \<Rightarrow> Inl f
                    | Inr (ret, s3) \<Rightarrow>
                        if ERROR ret then Inr (ret, Some dwState2, s3)
                        else (case ScheduleResumeTask iSched pTask pIrp s3 of
                            Inl f \<Rightarrow> Inl f
                          | Inr (ret', s4) \<Rightarrow> Inr (ret', Some dwState2, s4)))
              | _ \<Rightarrow> Inl Fault_Throw)))"

definition SetPortStateWake :: "nat \<Rightarrow> nat \<Rightarrow> bool \<Rightarrow> port_state \<Rightarrow> (bool \<times> port_state) run" where
  "SetPortStateWake dwCurState dwNewState bWakeAll s =
    (case m_vecStates s of
       [] \<Rightarrow> Inr (False, s)
     | cur # _ \<Rightarrow>
        if dwCurState \<noteq> cur then Inr (False, s)
        else case SetPortState dwNewState s of
          Inl f \<Rightarrow> Inl f
        | Inr (ret, s') \<Rightarrow>
            if ERROR ret then Inr (False, s')
            else Inr (True, s'\<lparr>m_semWaitForReady :=
                (if bWakeAll then SEM_WAKEUP_ALL (m_semWaitForReady s')
                 else SEM_WAKEUP_SINGLE (m_semWaitForReady s'))\<rparr>))"

definition PushState :: "nat \<Rightarrow> bool \<Rightarrow> port_state \<Rightarrow> gint32 \<times> port_state" where
  "PushState dwState bCheckLimit s =
    (if dwState > PORTSTAT_MAP_LEN then (- EINVAL, s)
     else case m_pIoMgr s of
       None \<Rightarrow> (- EFAULT, s)
     | Some dwNumCores \<Rightarrow>
        if bCheckLimit \<and> length (m_vecStates s) > (dwNumCores + 1) mod 2 ^ 32
        then (- EAGAIN, s)
        else (0, s\<lparr>m_vecStates := dwState mod 256 # m_vecStates s\<rparr>))"

section \<open>Request handlers, one per current state\<close>

text \<open>
  \<open>TopCmd\<close> is the guard and the two reads that most handlers begin with: no packet
  or an empty stack of contexts is \<open>None\<close>, otherwise the major and minor command of
  the top context.
\<close>

definition TopCmd :: "irp option \<Rightarrow> (nat \<times> nat) option" where
  "TopCmd pIrp = (case pIrp of None \<Rightarrow> None
     | Some i \<Rightarrow> (case m_vecCtxStack i of [] \<Rightarrow> None | c # _ \<Rightarrow> Some c))"

definition HandleReady :: "irp option \<Rightarrow> nat \<Rightarrow> port_state \<Rightarrow> (gint32 \<times> port_state) run" where
  "HandleReady pIrp dwNewState s =
    (case TopCmd pIrp of
       None \<Rightarrow> Inr (- EINVAL, s)
     | Some (dwMajorCmd, dwMinorCmd) \<Rightarrow>
        if dwMajorCmd = IRP_MJ_PNP then
          (if dwMinorCmd = IRP_MN_PNP_QUERY_STOP \<and> dwNewState = PORT_STATE_BUSY_SHARED
           then Inr (PushState dwNewState False s)
           else if dwMinorCmd = IRP_MN_PNP_STACK_READY \<and> dwNewState = PORT_STATE_BUSY
           then Inr (PushState dwNewState False s)
           else if dwMinorCmd = IRP_MN_PNP_STOP_CHILD \<and> dwNewState = PORT_STATE_BUSY_SHARED
           then Inr (PushState dwNewState False s)
           else if dwMinorCmd = IRP_MN_PNP_STOP \<and> dwNewState = PORT_STATE_STOPPING
           then SetPortState dwNewState s
           else Inr (ERROR_STATE, s))
        else if dwMajorCmd = IRP_MJ_FUNC then
          (if dwNewState = PORT_STATE_BUSY_SHARED \<or> dwNewState = PORT_STATE_BUSY
           then Inr (PushState dwNewState True s)
           else Inr (ERROR_STATE, s))
        else Inr (ERROR_STATE, s))"

definition HandleAttached :: "irp option \<Rightarrow> nat \<Rightarrow> port_state \<Rightarrow> (gint32 \<times> port_state) run" where
  "HandleAttached pIrp dwNewState s =
    (case TopCmd pIrp of
       None \<Rightarrow> Inr (- EINVAL, s)
     | Some (dwMajorCmd, dwMinorCmd) \<Rightarrow>
        if dwMajorCmd = IRP_MJ_PNP \<and>
           dwMinorCmd = IRP_MN_PNP_START \<and> dwNewState = PORT_STATE_STARTING
        then SetPortState dwNewState s
        else if dwMajorCmd = IRP_MJ_PNP \<and>
           dwMinorCmd = IRP_MN_PNP_STACK_BUILT \<and> dwNewState = PORT_STATE_BUSY
        then Inr (PushState dwNewState True s)
        else if dwMajorCmd = IRP_MJ_PNP \<and>
           dwMinorCmd = IRP_MN_PNP_STACK_DESTROY \<and> dwNewState = PORT_STATE_BUSY
        then Inr (PushState dwNewState False s)
        else Inr (ERROR_STATE, s))"

definition HandleStarting :: "irp option \<Rightarrow> nat \<Rightarrow> port_state \<Rightarrow> (gint32 \<times> port_state) run" where
  "HandleStarting pIrp dwNewState s =
    (case TopCmd pIrp of
       None \<Rightarrow> Inr (- EINVAL, s)
     | Some (dwMajorCmd, dwMinorCmd) \<Rightarrow>
        if dwMajorCmd = IRP_MJ_PNP then
          (if dwMinorCmd = IRP_MN_PNP_STOP \<and> dwNewState = PORT_STATE_STOPPING
           then Inr (- EAGAIN, s) else Inr (ERROR_STATE, s))
        else Inr (ERROR_STATE, s))"

definition HandleStopping :: "irp option \<Rightarrow> nat \<Rightarrow> port_state \<Rightarrow> (gint32 \<times> port_state) run" where
  "HandleStopping pIrp dwNewState s =
    (case TopCmd pIrp of None \<Rightarrow> Inr (- EINVAL, s) | Some _ \<Rightarrow> Inr (ERROR_STATE, s))"

definition HandleStopped :: "irp option \<Rightarrow> nat \<Rightarrow> port_state \<Rightarrow> (gint32 \<times> port_state) run" where
  "HandleStopped pIrp dwNewState s =
    (case TopCmd pIrp of
       None \<Rightarrow> Inr (- EINVAL, s)
     | Some (dwMajorCmd, dwMinorCmd) \<Rightarrow>
        if dwMajorCmd = IRP_MJ_PNP \<and>
           dwMinorCmd = IRP_MN_PNP_REATTACH \<and> dwNewState = PORT_STATE_ATTACHED
        then SetPortState dwNewState s
        else if dwMajorCmd = IRP_MJ_PNP \<and>
           dwMinorCmd = IRP_MN_PNP_STACK_DESTROY \<and> dwNewState = PORT_STATE_BUSY
        then Inr (PushState dwNewState True s)
        else Inr (ERROR_STATE, s))"

definition HandleRemoved :: "irp option \<Rightarrow> nat \<Rightarrow> port_state \<Rightarrow> (gint32 \<times> port_state) run" where
  "HandleRemoved pIrp dwNewState s =
    (case TopCmd pIrp of None \<Rightarrow> Inr (- EINVAL, s) | Some _ \<Rightarrow> Inr (ERROR_STATE, s))"

text \<open>
  \<^verbatim>\<open>sem_wait\<close> fails with \<open>EINTR\<close> when a signal interrupts it (\<open>bIntr\<close>), takes one
  unit when there is one, and otherwise blocks; the port lock is held meanwhile, so no
  other thread can post.
\<close>

definition HandleBusy :: "bool \<Rightarrow> irp option \<Rightarrow> nat \<Rightarrow> port_state \<Rightarrow> (gint32 \<times> port_state) run" where
  "HandleBusy bIntr pIrp dwNewState s =
    (case TopCmd pIrp of
       None \<Rightarrow> Inr (- EINVAL, s)
     | Some _ \<Rightarrow>
        if bIntr then Inr (- EINTR, s)
        else if m_semWaitForReady s > 0
        then Inr (ERROR_REPEAT, s\<lparr>m_semWaitForReady := m_semWaitForReady s - 1\<rparr>)
        else Inl Fault_Block)"

definition PushExclusive :: "irp option \<Rightarrow> port_state \<Rightarrow> (gint32 \<times> port_state) run" where
  "PushExclusive pIrp s =
    (case PushState PORT_STATE_EXCLUDE_PENDING True s of
       (ret, s') \<Rightarrow> if SUCCEEDED ret then Inr (STATUS_PENDING, s'\<lparr>m_pExclIrp := pIrp\<rparr>)
                   else Inr (ret, s'))"

definition HandleBusyShared :: "irp option \<Rightarrow> nat \<Rightarrow> port_state \<Rightarrow> (gint32 \<times> port_state) run" where
  "HandleBusyShared pIrp dwNewState s =
    (case TopCmd pIrp of
       None \<Rightarrow> Inr (- EINVAL, s)
     | Some (dwMajorCmd, dwMinorCmd) \<Rightarrow>
        if dwMajorCmd = IRP_MJ_PNP then
          (if (dwMinorCmd = IRP_MN_PNP_QUERY_STOP \<or> dwMinorCmd = IRP_MN_PNP_STOP_CHILD)
              \<and> dwNewState = PORT_STATE_BUSY_SHARED
           then Inr (PushState dwNewState False s)
           else if dwMinorCmd = IRP_MN_PNP_STOP then PushExclusive pIrp s
           else Inr (ERROR_STATE, s))
        else if dwMajorCmd = IRP_MJ_FUNC then
          (if dwNewState = PORT_STATE_BUSY then PushExclusive pIrp s
           else if dwNewState = PORT_STATE_BUSY_SHARED
           then Inr (PushState PORT_STATE_BUSY_SHARED False s)
           else Inr (ERROR_STATE, s))
        else Inr (- EAGAIN, s))"

definition HandleExclPending :: "irp option \<Rightarrow> nat \<Rightarrow> port_state \<Rightarrow> (gint32 \<times> port_state) run" where
  "HandleExclPending pIrp dwNewState s =
    (case TopCmd pIrp of None \<Rightarrow> Inr (- EINVAL, s) | Some _ \<Rightarrow> Inr (ERROR_STATE, s))"

definition HandleStopResume :: "irp option \<Rightarrow> nat \<Rightarrow> port_state \<Rightarrow> (gint32 \<times> port_state) run" where
  "HandleStopResume pIrp dwNewState s =
    (if dwNewState \<noteq> PORT_STATE_STOPPING then Inr (ERROR_STATE, s)
     else SetPortState dwNewState s)"

definition HandleBusyResume :: "irp option \<Rightarrow> nat \<Rightarrow> port_state \<Rightarrow> (gint32 \<times> port_state) run" where
  "HandleBusyResume pIrp dwNewState s =
    (if dwNewState \<noteq> PORT_STATE_BUSY then Inr (ERROR_STATE, s)
     else SetPortState dwNewState s)"

text \<open>The \<^verbatim>\<open>switch( dwCurState )\<close> of \<^verbatim>\<open>CanContinue\<close>.\<close>

definition CanContinue_switch ::
  "bool \<Rightarrow> irp option \<Rightarrow> nat \<Rightarrow> nat \<Rightarrow> port_state \<Rightarrow> (gint32 \<times> port_state) run" where
  "CanContinue_switch bIntr pIrp dwNewState dwCurState s =
    (if dwCurState = PORT_STATE_READY then HandleReady pIrp dwNewState s
     else if dwCurState = PORT_STATE_ATTACHED then HandleAttached pIrp dwNewState s
     else if dwCurState = PORT_STATE_STARTING then HandleStarting pIrp dwNewState s
     else if dwCurState = PORT_STATE_STOPPING then HandleStopping pIrp dwNewState s
     else if dwCurState = PORT_STATE_STOPPED then HandleStopped pIrp dwNewState s
     else if dwCurState = PORT_STATE_REMOVED then HandleRemoved pIrp dwNewState s
     else if dwCurState = PORT_STATE_BUSY then HandleBusy bIntr pIrp dwNewState s
     else if dwCurState = PORT_STATE_BUSY_SHARED then HandleBusyShared pIrp dwNewState s
     else if dwCurState = PORT_STATE_EXCLUDE_PENDING then HandleExclPending pIrp dwNewState s
     else if dwCurState = PORT_STATE_STOP_RESUME then HandleStopResume pIrp dwNewState s
     else if dwCurState = PORT_STATE_BUSY_RESUME then HandleBusyResume pIrp dwNewState s
     else Inr (ERROR_STATE, s))"

lemmas handler_defs = HandleReady_def HandleAttached_def HandleStarting_def HandleStopping_def
  HandleStopped_def HandleRemoved_def HandleBusyShared_def HandleExclPending_def
  HandleStopResume_def HandleBusyResume_def PushExclusive_def

lemma PushState_not_repeat: "PushState d b s = (r, s') \<Longrightarrow> r \<noteq> ERROR_REPEAT"
  by (auto simp: PushState_def split: if_splits option.splits)

lemma SetPortState_not_repeat: "SetPortState d s = Inr (r, s') \<Longrightarrow> r \<noteq> ERROR_REPEAT"
  by (auto simp: SetPortState_def Let_def split: if_splits list.splits)

lemma CanContinue_switch_repeat:
  assumes "CanContinue_switch bIntr pIrp new cur s = Inr (ERROR_REPEAT, s')"
  shows "cur = PORT_STATE_BUSY \<and> 0 < m_semWaitForReady s
    \<and> s' = s\<lparr>m_semWaitForReady := m_semWaitForReady s - 1\<rparr>"
proof (cases "cur = PORT_STATE_BUSY")
  case True
  with assms show ?thesis
    by (auto simp: CanContinue_switch_def HandleBusy_def split: option.splits if_splits)
next
  case False
  with assms show ?thesis
    by (auto simp: CanContinue_switch_def handler_defs
        split: option.splits if_splits prod.splits
        dest: PushState_not_repeat SetPortState_not_repeat)
qed

text \<open>
  The loop of \<^verbatim>\<open>CanContinue\<close>. The result carries the status, what was stored through
  \<^verbatim>\<open>pdwOldState\<close> (nothing on the two early returns) and the machine. On an error the
  method reads the top context of the packet for its log line, which is undefined when
  there is no packet or no context.
\<close>

function CanContinue ::
  "bool \<Rightarrow> irp option \<Rightarrow> nat \<Rightarrow> port_state \<Rightarrow> (gint32 \<times> nat option \<times> port_state) run" where
  "CanContinue bIntr pIrp dwNewState s =
    (if dwNewState > PORTSTAT_MAP_LEN then Inr (- EINVAL, None, s)
     else case m_vecStates s of
       [] \<Rightarrow> Inr (ERROR_STATE, None, s)
     | dwCurState # _ \<Rightarrow>
        if \<not> IsValidSubmit dwNewState s then Inr (ERROR_STATE, Some dwCurState, s)
        else case CanContinue_switch bIntr pIrp dwNewState dwCurState s of
          Inl f \<Rightarrow> Inl f
        | Inr (ret, s') \<Rightarrow>
            if ret = ERROR_REPEAT then CanContinue bIntr pIrp dwNewState s'
            else if ERROR ret \<and> TopCmd pIrp = None then Inl Fault_Null
            else Inr (ret, Some dwCurState, s'))"
  by pat_completeness auto
termination
  by (relation "measure (\<lambda>(b, p, d, s). nat (m_semWaitForReady s))")
     (auto dest: CanContinue_switch_repeat)

declare CanContinue.simps [simp del]

text \<open>
  \<^verbatim>\<open>CPortStateResumeSubmitTask::operator()\<close>, run by the I/O manager for the pair that
  \<open>ScheduleResumeTask\<close> queued. \<open>runTask\<close> is the call of the suspended function.
\<close>

definition ResumeSubmitTask ::
  "(port_state \<Rightarrow> (gint32 \<times> port_state) run) \<Rightarrow> irp \<Rightarrow> port_state \<Rightarrow> (gint32 \<times> port_state) run" where
  "ResumeSubmitTask runTask pIrp s =
    (case IoRequestPacket_CanContinue IRP_STATE_READY pIrp of
       (ret, pIrp') \<Rightarrow>
        if ERROR ret then Inr (ret, s)
        else case m_vecCtxStack pIrp' of
          [] \<Rightarrow> Inr (- EFAULT, s)
        | (dwMajorCmd, dwMinorCmd) # _ \<Rightarrow>
            if dwMajorCmd = IRP_MJ_PNP \<and> dwMinorCmd = IRP_MN_PNP_STOP then
              (case SetPortState PORT_STATE_STOP_RESUME s of
                 Inl f \<Rightarrow> Inl f
               | Inr (ret', s') \<Rightarrow> if ERROR ret' then Inr (ret', s') else runTask s')
            else runTask s)"

text \<open>
  The critical section at the head of \<^verbatim>\<open>CPort::SubmitStopIrp\<close>: when the stop request
  has to wait, the resume task is registered under the same lock. \<open>gotTask\<close> is what
  \<^verbatim>\<open>GetStopResumeTask\<close> yields, an error code or the task.
\<close>

definition SubmitStopIrp_gate ::
  "bool \<Rightarrow> gint32 + nat \<Rightarrow> irp option \<Rightarrow> port_state \<Rightarrow> (gint32 \<times> port_state) run" where
  "SubmitStopIrp_gate bIntr gotTask pIrp s =
    (case CanContinue bIntr pIrp PORT_STATE_STOPPING s of
       Inl f \<Rightarrow> Inl f
     | Inr (ret, _, s') \<Rightarrow>
        if ERROR ret then Inr (ret, s')
        else if ret = STATUS_PENDING
        then (case gotTask of Inl e \<Rightarrow> Inr (e, s')
                            | Inr pTask \<Rightarrow> Inr (STATUS_PENDING, SetResumePoint pTask s'))
        else Inr (ret, s'))"

section \<open>The transition table\<close>

lemma nat_le10: "d \<le> (10::nat) \<longleftrightarrow> d = 0 \<or> d = 1 \<or> d = 2 \<or> d = 3 \<or> d = 4 \<or> d = 5
    \<or> d = 6 \<or> d = 7 \<or> d = 8 \<or> d = 9 \<or> d = 10"
  by presburger

text \<open>Which submissions the table lets through, for states and targets in range.\<close>

lemma IsValidSubmit_iff:
  assumes "m_vecStates s = c # r" and "c \<le> 10" and "d \<le> 10"
  shows "IsValidSubmit d s \<longleftrightarrow>
      c = 0 \<and> d \<in> {0, 3, 6, 7} \<or> c = 1 \<and> d \<in> {2, 6} \<or> c = 4 \<and> d \<in> {1, 5, 6}
    \<or> c = 7 \<and> d \<in> {3, 7, 8} \<or> c = 9 \<and> d = 3 \<or> c = 10 \<and> d = 6"
  using assms(2,3) unfolding nat_le10
  by (elim disjE) (simp_all add: IsValidSubmit_def m_arrStatMap_def assms(1))

section \<open>The shape of the stack\<close>

text \<open>
  \<open>shared_stack\<close>: some shared requests above a ready port. \<open>wf_stack\<close>: the stacks the
  port ever has. Either a single state, or one exclusive request above the state it
  was admitted in, or a resumed request above a ready port, or shared requests above a
  ready port, possibly with a request that waits for exclusion on top of them.
\<close>

fun shared_stack :: "nat list \<Rightarrow> bool" where
  "shared_stack [] = False"
| "shared_stack [x] = (x = PORT_STATE_READY)"
| "shared_stack (x # y # xs) = (x = PORT_STATE_BUSY_SHARED \<and> shared_stack (y # xs))"

fun wf_stack :: "nat list \<Rightarrow> bool" where
  "wf_stack [] = False"
| "wf_stack [b] = (b \<in> {PORT_STATE_READY, PORT_STATE_ATTACHED, PORT_STATE_STARTING,
     PORT_STATE_STOPPING, PORT_STATE_STOPPED, PORT_STATE_REMOVED, PORT_STATE_STOP_RESUME})"
| "wf_stack [c, b] =
    (c = PORT_STATE_BUSY \<and> b \<in> {PORT_STATE_READY, PORT_STATE_ATTACHED, PORT_STATE_STOPPED}
     \<or> c = PORT_STATE_BUSY_RESUME \<and> b = PORT_STATE_READY
     \<or> c = PORT_STATE_BUSY_SHARED \<and> b = PORT_STATE_READY)"
| "wf_stack (c # b # d # xs) =
    ((c = PORT_STATE_BUSY_SHARED \<or> c = PORT_STATE_EXCLUDE_PENDING) \<and> shared_stack (b # d # xs))"

lemma shared_stack_iff: "shared_stack xs \<longleftrightarrow> (\<exists>n. xs = replicate n PORT_STATE_BUSY_SHARED @ [PORT_STATE_READY])"
proof (induction xs rule: shared_stack.induct)
  case (3 x y xs)
  show ?case
  proof
    assume "shared_stack (x # y # xs)"
    with 3 obtain n where "x = PORT_STATE_BUSY_SHARED"
      "y # xs = replicate n PORT_STATE_BUSY_SHARED @ [PORT_STATE_READY]" by auto
    then show "\<exists>n. x # y # xs = replicate n PORT_STATE_BUSY_SHARED @ [PORT_STATE_READY]"
      by (intro exI[of _ "Suc n"]) simp
  next
    assume "\<exists>n. x # y # xs = replicate n PORT_STATE_BUSY_SHARED @ [PORT_STATE_READY]"
    then obtain n where n: "x # y # xs = replicate n PORT_STATE_BUSY_SHARED @ [PORT_STATE_READY]"
      by blast
    then obtain m where "x = PORT_STATE_BUSY_SHARED"
      "y # xs = replicate m PORT_STATE_BUSY_SHARED @ [PORT_STATE_READY]" by (cases n) auto
    moreover from this(2) have "shared_stack (y # xs)" using 3 by blast
    ultimately show "shared_stack (x # y # xs)" unfolding shared_stack.simps by blast
  qed
qed (auto simp: Cons_eq_append_conv)

lemma wf_stack_hd_le: "wf_stack (c # r) \<Longrightarrow> c \<le> 10"
  by (cases "c # r" rule: wf_stack.cases) auto

lemma shared_stack_le: "shared_stack xs \<Longrightarrow> x \<in> set xs \<Longrightarrow> x \<le> 10"
  by (induction xs rule: shared_stack.induct) auto

lemma wf_stack_le: "wf_stack xs \<Longrightarrow> x \<in> set xs \<Longrightarrow> x \<le> 10"
  by (induction xs rule: wf_stack.induct) (auto dest: shared_stack_le simp del: shared_stack.simps)

lemma wf_stack_shared_top: "wf_stack (7 # r) \<Longrightarrow> shared_stack (7 # r)"
  by (cases r rule: shared_stack.cases) auto

lemma wf_stack_push_shared:
  "wf_stack xs \<Longrightarrow> hd xs = 0 \<or> hd xs = 7 \<Longrightarrow> wf_stack (7 # xs)"
  by (induction xs rule: wf_stack.induct) auto

lemma wf_stack_push_busy:
  "wf_stack xs \<Longrightarrow> hd xs \<in> {0, 1, 4} \<Longrightarrow> wf_stack (6 # xs)"
  by (induction xs rule: wf_stack.induct) auto

lemma wf_stack_push_excl: "wf_stack (7 # r) \<Longrightarrow> wf_stack (8 # 7 # r)"
  by (cases r rule: shared_stack.cases) auto

lemma wf_stack_single:
  "wf_stack (c # r) \<Longrightarrow> c \<in> {0, 1, 2, 3, 4, 5, 9} \<Longrightarrow> r = []"
  by (cases "c # r" rule: wf_stack.cases) auto

section \<open>What one request can do to the machine\<close>

text \<open>
  \<open>admitted a p r s s'\<close> lists the effects of a request that reached a port whose top
  state is \<open>a\<close>: nothing, a push of a shared or of an exclusive request, a switch of
  the top state, or a stop request that starts to wait for exclusion.
\<close>

definition push_effect :: "nat \<Rightarrow> port_state \<Rightarrow> port_state" where
  "push_effect c s = s\<lparr>m_vecStates := c # m_vecStates s\<rparr>"

definition switch_effect :: "nat \<Rightarrow> port_state \<Rightarrow> port_state" where
  "switch_effect d s = s\<lparr>m_vecStates := d # tl (m_vecStates s)\<rparr>"

definition request_effect :: "irp option \<Rightarrow> gint32 \<Rightarrow> port_state \<Rightarrow> port_state \<Rightarrow> bool" where
  "request_effect p r s s' =
    (let a = hd (m_vecStates s) in
       s' = s \<and> ERROR r
     \<or> a \<in> {0, 7} \<and> s' = push_effect 7 s \<and> r = 0 \<and> TopCmd p \<noteq> None
     \<or> a \<in> {0, 1, 4} \<and> s' = push_effect 6 s \<and> r = 0 \<and> TopCmd p \<noteq> None
     \<or> a = 0 \<and> s' = switch_effect 3 s \<and> r = 0
     \<or> a = 1 \<and> s' = switch_effect 2 s \<and> r = 0
     \<or> a = 4 \<and> s' = switch_effect 1 s \<and> r = 0
     \<or> a = 9 \<and> s' = switch_effect 3 s \<and> r = 0
     \<or> a = 10 \<and> s' = switch_effect 6 s \<and> r = 0
     \<or> a = 7 \<and> s' = (push_effect 8 s)\<lparr>m_pExclIrp := p\<rparr> \<and> r = STATUS_PENDING
         \<and> TopCmd p = Some (IRP_MJ_PNP, IRP_MN_PNP_STOP))"

lemma PushState_effect:
  "c \<le> 10 \<Longrightarrow> PushState c b s = (r, s') \<Longrightarrow>
     s' = s \<and> ERROR r \<and> r \<noteq> ERROR_REPEAT \<or> s' = push_effect c s \<and> r = 0"
  by (auto simp: PushState_def push_effect_def split: option.splits if_splits)

lemma SetPortState_switch:
  assumes "m_vecStates s = a # rest" and "d \<le> 10" and "d \<noteq> 9"
    and "m_arrStatMap ! a ! d \<noteq> 0"
  shows "SetPortState d s = Inr (0, switch_effect d s)"
  using assms by (simp add: SetPortState_def switch_effect_def)

lemma effect_error: "ERROR r \<Longrightarrow> request_effect p r s s"
  by (simp add: request_effect_def)

lemma effect_push_shared:
  "PushState 7 b s = (r, s') \<Longrightarrow> hd (m_vecStates s) \<in> {0, 7} \<Longrightarrow> TopCmd p \<noteq> None
   \<Longrightarrow> request_effect p r s s' \<and> r \<noteq> ERROR_REPEAT"
  using PushState_effect[of 7 b s r s'] by (auto simp: request_effect_def Let_def)

lemma effect_push_busy:
  "PushState 6 b s = (r, s') \<Longrightarrow> hd (m_vecStates s) \<in> {0, 1, 4} \<Longrightarrow> TopCmd p \<noteq> None
   \<Longrightarrow> request_effect p r s s' \<and> r \<noteq> ERROR_REPEAT"
  using PushState_effect[of 6 b s r s'] by (auto simp: request_effect_def Let_def)

lemma effect_push_excl:
  assumes "PushExclusive p s = Inr (r, s')" and "hd (m_vecStates s) = 7"
    and "TopCmd p = Some (IRP_MJ_PNP, IRP_MN_PNP_STOP)"
  shows "request_effect p r s s' \<and> r \<noteq> ERROR_REPEAT"
proof -
  obtain r0 s0 where p: "PushState 8 True s = (r0, s0)" by fastforce
  from PushState_effect[OF _ p] have "s0 = s \<and> ERROR r0 \<and> r0 \<noteq> ERROR_REPEAT
    \<or> s0 = push_effect 8 s \<and> r0 = 0" by simp
  with assms p show ?thesis by (auto simp: PushExclusive_def request_effect_def)
qed

lemma effect_switch:
  assumes "SetPortState d s = Inr (r, s')" and "m_vecStates s = a # rest"
    and "(a, d) \<in> {(0, 3), (1, 2), (4, 1), (9, 3), (10, 6)}"
  shows "request_effect p r s s' \<and> r \<noteq> ERROR_REPEAT"
proof -
  have "SetPortState d s = Inr (0, switch_effect d s)"
    using assms(3) by (intro SetPortState_switch[OF assms(2)]) (auto simp: m_arrStatMap_def)
  with assms show ?thesis by (auto simp: request_effect_def)
qed

lemmas effect_rules = effect_push_shared effect_push_busy effect_push_excl effect_switch

lemma CanContinue_switch_effect:
  assumes s: "m_vecStates s = a # rest" and a: "a \<le> 10" and d: "d \<le> 10"
    and v: "IsValidSubmit d s" and h: "CanContinue_switch bIntr p d a s = Inr (r, s')"
  shows "request_effect p r s s' \<and> r \<noteq> ERROR_REPEAT"
proof -
  have err: "s' = s \<Longrightarrow> r \<in> {- EINVAL, - EAGAIN, ERROR_STATE} \<Longrightarrow> ?thesis"
    by (auto intro: effect_error)
  from v consider "a = 0" "d \<in> {0, 3, 6, 7}" | "a = 1" "d \<in> {2, 6}" | "a = 4" "d \<in> {1, 5, 6}"
    | "a = 7" "d \<in> {3, 7, 8}" | "a = 9" "d = 3" | "a = 10" "d = 6"
    unfolding IsValidSubmit_iff[OF s a d] by blast
  then show ?thesis
  proof cases
    case 1
    with h consider "SetPortState 3 s = Inr (r, s')"
      | b where "PushState 6 b s = (r, s')" "TopCmd p \<noteq> None"
      | b where "PushState 7 b s = (r, s')" "TopCmd p \<noteq> None"
      | "s' = s" "r \<in> {- EINVAL, ERROR_STATE}"
      by (auto simp: CanContinue_switch_def HandleReady_def split: option.splits if_splits)
    then show ?thesis by cases (use 1 s err in \<open>auto dest: effect_rules\<close>)
  next
    case 2
    with h consider "SetPortState 2 s = Inr (r, s')"
      | b where "PushState 6 b s = (r, s')" "TopCmd p \<noteq> None"
      | "s' = s" "r \<in> {- EINVAL, ERROR_STATE}"
      by (auto simp: CanContinue_switch_def HandleAttached_def split: option.splits if_splits)
    then show ?thesis by cases (use 2 s err in \<open>auto dest: effect_rules\<close>)
  next
    case 3
    with h consider "SetPortState 1 s = Inr (r, s')"
      | b where "PushState 6 b s = (r, s')" "TopCmd p \<noteq> None"
      | "s' = s" "r \<in> {- EINVAL, ERROR_STATE}"
      by (auto simp: CanContinue_switch_def HandleStopped_def split: option.splits if_splits)
    then show ?thesis by cases (use 3 s err in \<open>auto dest: effect_rules\<close>)
  next
    case 4
    with h consider b where "PushState 7 b s = (r, s')" "TopCmd p \<noteq> None"
      | "PushExclusive p s = Inr (r, s')" "TopCmd p = Some (1, 2)"
      | "s' = s" "r \<in> {- EINVAL, - EAGAIN, ERROR_STATE}"
      by (auto simp: CanContinue_switch_def HandleBusyShared_def split: option.splits if_splits)
    then show ?thesis by cases (use 4 s err in \<open>auto dest: effect_rules\<close>)
  next
    case 5
    with h s show ?thesis
      by (auto simp: CanContinue_switch_def HandleStopResume_def dest: effect_switch)
  next
    case 6
    with h s show ?thesis
      by (auto simp: CanContinue_switch_def HandleBusyResume_def dest: effect_switch)
  qed
qed

lemma CanContinue_effect:
  assumes "wf_stack (m_vecStates s)" and d: "d \<le> 10"
    and h: "CanContinue bIntr p d s = Inr (r, old, s')"
  shows "request_effect p r s s' \<and> old = Some (hd (m_vecStates s))"
proof -
  from assms(1) obtain a rest where s: "m_vecStates s = a # rest"
    by (cases "m_vecStates s") auto
  with assms(1) have a: "a \<le> 10" by (auto dest: wf_stack_hd_le)
  show ?thesis
  proof (cases "IsValidSubmit d s")
    case False
    with h d s show ?thesis
      by (simp add: CanContinue.simps[of bIntr p d s] request_effect_def)
  next
    case True
    with h d s have "\<exists>r0 s0. CanContinue_switch bIntr p d a s = Inr (r0, s0)"
      by (auto simp: CanContinue.simps[of bIntr p d s] split: sum.splits)
    then obtain r0 s0 where sw: "CanContinue_switch bIntr p d a s = Inr (r0, s0)" by blast
    note e = CanContinue_switch_effect[OF s a d True sw]
    with h d s True sw show ?thesis
      by (auto simp: CanContinue.simps[of bIntr p d s] split: if_splits)
  qed
qed

section \<open>Steps of a port and their invariant\<close>

text \<open>
  The steps of a port, as \<^verbatim>\<open>ipc/port.cpp\<close> makes them: any request through
  \<open>CanContinue\<close>; a stop request through its critical section; the release of an admitted
  request; a switch of the state of the port, of an idle port to any state and with
  requests inside where the table refuses it; and the resume task that the I/O
  manager runs for a stop request that had to wait. A switch that the table allows with
  a request inside is not a step: it replaces the entry of the request, and the port
  ends up in the wrong state (\<open>failed_start_ends_ready\<close>).
\<close>

definition switch_safe :: "nat \<Rightarrow> port_state \<Rightarrow> bool" where
  "switch_safe d s \<longleftrightarrow> d \<le> PORT_STATE_REMOVED \<and>
    (length (m_vecStates s) = 1 \<or> m_vecStates s \<noteq> [] \<and> m_arrStatMap ! GetPortState s ! d = 0)"

inductive port_step :: "port_state \<Rightarrow> port_state \<Rightarrow> bool" where
  request: "d \<le> MAX_PORT_STATE \<Longrightarrow> CanContinue b p d s = Inr (r, old, s') \<Longrightarrow> port_step s s'"
| stop: "SubmitStopIrp_gate b g p s = Inr (r, s') \<Longrightarrow> port_step s s'"
| release: "GetPortState s \<in> {PORT_STATE_BUSY, PORT_STATE_BUSY_SHARED, PORT_STATE_EXCLUDE_PENDING} \<Longrightarrow>
    PopState iSched s = Inr (r, d, s') \<Longrightarrow> port_step s s'"
| set_state: "switch_safe d s \<Longrightarrow> SetPortState d s = Inr (r, s') \<Longrightarrow> port_step s s'"
| wake: "switch_safe d s \<Longrightarrow> SetPortStateWake c' d all s = Inr (bSet, s') \<Longrightarrow> port_step s s'"
| resume: "m_queResume s = (pTask, pIrp) # q \<Longrightarrow>
    ResumeSubmitTask (SubmitStopIrp_gate b g (Some pIrp)) pIrp (s\<lparr>m_queResume := q\<rparr>) = Inr (r, s') \<Longrightarrow>
    port_step s s'"

inductive port_reachable :: "nat option \<Rightarrow> port_state \<Rightarrow> bool" for mgr where
  start: "port_reachable mgr (CPortState_init mgr)"
| step: "port_reachable mgr s \<Longrightarrow> port_step s s' \<Longrightarrow> port_reachable mgr s'"

definition is_stop_irp :: "irp \<Rightarrow> bool" where
  "is_stop_irp i = (TopCmd (Some i) = Some (IRP_MJ_PNP, IRP_MN_PNP_STOP))"

definition port_inv :: "port_state \<Rightarrow> bool" where
  "port_inv s =
    (wf_stack (m_vecStates s)
     \<and> (case m_pExclIrp s of
          None \<Rightarrow> hd (m_vecStates s) \<noteq> PORT_STATE_EXCLUDE_PENDING
        | Some i \<Rightarrow> hd (m_vecStates s) = PORT_STATE_EXCLUDE_PENDING \<and> is_stop_irp i)
     \<and> (m_pResume s \<noteq> None \<longrightarrow> hd (m_vecStates s) = PORT_STATE_EXCLUDE_PENDING)
     \<and> (\<forall>(pTask, i) \<in> set (m_queResume s). is_stop_irp i))"

lemma port_invD:
  assumes "port_inv s"
  shows "wf_stack (m_vecStates s)"
    and "hd (m_vecStates s) \<noteq> 8 \<Longrightarrow> m_pExclIrp s = None \<and> m_pResume s = None"
    and "hd (m_vecStates s) = 8 \<Longrightarrow> \<exists>i. m_pExclIrp s = Some i \<and> is_stop_irp i"
  using assms by (auto simp: port_inv_def split: option.splits)

text \<open>Replacing the stack by a well-formed one keeps the invariant, as long as neither
  the old nor the new top state is the pending exclusion.\<close>

lemma port_inv_restack:
  assumes "port_inv s" and "hd (m_vecStates s) \<noteq> 8" and "wf_stack xs" and "hd xs \<noteq> 8"
  shows "port_inv (s\<lparr>m_vecStates := xs\<rparr>)"
  using assms port_invD(2)[OF assms(1,2)] by (simp add: port_inv_def)

lemma port_inv_sem: "port_inv s \<Longrightarrow> port_inv (s\<lparr>m_semWaitForReady := v\<rparr>)"
  by (simp add: port_inv_def split: option.splits)

lemma wf_stack_switch:
  assumes "wf_stack (a # r)" and "(a, d) \<in> {(0, 3), (1, 2), (4, 1), (9, 3), (10, 6)}"
  shows "wf_stack (d # r)"
  using assms by (cases "a # r" rule: wf_stack.cases) auto

lemma request_effect_inv:
  assumes inv: "port_inv s" and e: "request_effect p r s s'"
  shows "port_inv s'"
proof -
  from port_invD(1)[OF inv] obtain a rest where s: "m_vecStates s = a # rest"
    by (cases "m_vecStates s") auto
  note wf = port_invD(1)[OF inv, unfolded s]
  from e s consider "s' = s"
    | "a \<in> {0, 7}" "s' = s\<lparr>m_vecStates := 7 # a # rest\<rparr>"
    | "a \<in> {0, 1, 4}" "s' = s\<lparr>m_vecStates := 6 # a # rest\<rparr>"
    | d where "(a, d) \<in> {(0, 3), (1, 2), (4, 1), (9, 3), (10, 6)}" "s' = s\<lparr>m_vecStates := d # rest\<rparr>"
    | "a = 7" "s' = s\<lparr>m_vecStates := 8 # a # rest, m_pExclIrp := p\<rparr>" "TopCmd p = Some (1, 2)"
    by (auto simp: request_effect_def Let_def push_effect_def switch_effect_def)
  then show ?thesis
  proof cases
    case 1 with inv show ?thesis by simp
  next
    case 2
    then show ?thesis using wf_stack_push_shared[OF wf] inv s by (auto intro: port_inv_restack)
  next
    case 3
    then show ?thesis using wf_stack_push_busy[OF wf] inv s by (auto intro: port_inv_restack)
  next
    case 4
    then show ?thesis using wf_stack_switch[OF wf 4(1)] inv s by (auto intro: port_inv_restack)
  next
    case 5
    from 5(3) obtain i where "p = Some i" "is_stop_irp i"
      by (cases p) (auto simp: TopCmd_def is_stop_irp_def)
    with 5 wf_stack_push_excl[of rest] wf inv s show ?thesis by (simp add: port_inv_def)
  qed
qed

lemma SubmitStopIrp_gate_inv:
  assumes inv: "port_inv s" and g: "SubmitStopIrp_gate b g p s = Inr (r, s')"
  shows "port_inv s'"
proof -
  from g obtain r0 old s0 where c: "CanContinue b p PORT_STATE_STOPPING s = Inr (r0, old, s0)"
    by (auto simp: SubmitStopIrp_gate_def split: sum.splits)
  have e: "request_effect p r0 s s0" using CanContinue_effect[OF port_invD(1)[OF inv] _ c] by simp
  note inv0 = request_effect_inv[OF inv e]
  have "r0 = STATUS_PENDING \<Longrightarrow> hd (m_vecStates s0) = 8"
    using e by (auto simp: request_effect_def Let_def push_effect_def)
  with g c inv0 show ?thesis
    by (auto simp: SubmitStopIrp_gate_def SetResumePoint_def port_inv_def
        split: if_splits sum.splits option.splits)
qed

text \<open>The two ways a release under a pending exclusion ends: some shared requests are
  left, or the last one leaves and the resume task is scheduled.\<close>

lemma PopState_excl_more:
  assumes "m_vecStates s = 8 # 7 # 7 # xs"
  shows "PopState iSched s = Inr (0, Some 7, s\<lparr>m_vecStates := 8 # 7 # xs\<rparr>)"
  using assms by (simp add: PopState_def)

lemma PopState_excl_last:
  assumes "m_vecStates s = [8, 7, 0]" and "m_pExclIrp s = Some i" and "m_vecCtxStack i \<noteq> []"
    and "m_pResume s = Some pTask" and "m_pIoMgr s = Some n"
  shows "PopState iSched s = Inr (iSched, Some 7,
    s\<lparr>m_vecStates := [10, 0], m_pExclIrp := None, m_pResume := None,
      m_queResume := m_queResume s @ (if ERROR iSched then [] else [(pTask, i)])\<rparr>)"
  using assms by (simp add: PopState_def SetPortState_def m_arrStatMap_def ScheduleResumeTask_def)

lemma is_stop_irp_ctx: "is_stop_irp i \<Longrightarrow> m_vecCtxStack i \<noteq> []"
  by (auto simp: is_stop_irp_def TopCmd_def)

lemma wf_stack_excl:
  assumes "wf_stack (8 # rest)"
  shows "rest = [7, 0] \<or> (\<exists>xs. rest = 7 # 7 # xs \<and> wf_stack (8 # 7 # xs))"
proof -
  from assms obtain b d xs where r: "rest = b # d # xs" "shared_stack (b # d # xs)"
    by (cases "8 # rest" rule: wf_stack.cases) auto
  then have b: "b = 7" "shared_stack (d # xs)" by auto
  show ?thesis
  proof (cases xs)
    case Nil
    with r b show ?thesis by simp
  next
    case (Cons x ys)
    with b have "d = 7" "shared_stack (x # ys)" by auto
    with r b Cons show ?thesis by simp
  qed
qed

lemma PopState_inv:
  assumes inv: "port_inv s" and top: "GetPortState s \<in> {6, 7, 8}"
    and p: "PopState iSched s = Inr (r, d, s')"
  shows "port_inv s'"
proof -
  from port_invD(1)[OF inv] obtain a rest where s: "m_vecStates s = a # rest"
    by (cases "m_vecStates s") auto
  note wf = port_invD(1)[OF inv, unfolded s]
  from top s consider "a = 6" | "a = 7" | "a = 8" by (auto simp: GetPortState_def)
  then show ?thesis
  proof cases
    case 1
    with wf have "wf_stack rest" "hd rest \<noteq> 8"
      by (cases "a # rest" rule: wf_stack.cases; auto)+
    with p s inv 1 show ?thesis
      by (auto simp: PopState_def intro!: port_inv_restack port_inv_sem)
  next
    case 2
    with wf have "wf_stack rest" "hd rest \<noteq> 8"
      by (cases "a # rest" rule: wf_stack.cases; auto elim: shared_stack.elims)+
    with p s inv 2 show ?thesis by (auto simp: PopState_def intro!: port_inv_restack)
  next
    case 3
    from port_invD(3)[OF inv] 3 s obtain i where i: "m_pExclIrp s = Some i" "is_stop_irp i" by auto
    from wf_stack_excl 3 wf consider "rest = [7, 0]"
      | xs where "rest = 7 # 7 # xs" "wf_stack (8 # 7 # xs)" by blast
    then show ?thesis
    proof cases
      case 1
      with p s 3 i obtain pTask n where "m_pResume s = Some pTask" "m_pIoMgr s = Some n"
        by (auto simp: PopState_def SetPortState_def m_arrStatMap_def ScheduleResumeTask_def
            split: option.splits if_splits)
      with PopState_excl_last[of s i pTask n iSched] p s 1 3 i inv is_stop_irp_ctx[OF i(2)]
      show ?thesis by (auto simp: port_inv_def)
    next
      case (2 xs)
      with PopState_excl_more[of s xs iSched] p s 3 i inv show ?thesis
        by (auto simp: port_inv_def)
    qed
  qed
qed

lemma SetPortState_inv:
  assumes inv: "port_inv s" and sw: "switch_safe d s"
    and p: "SetPortState d s = Inr (r, s')"
  shows "port_inv s'"
proof (cases "length (m_vecStates s) = 1")
  case False
  then show ?thesis using sw p inv
    by (auto simp: switch_safe_def SetPortState_def GetPortState_def Let_def split: list.splits)
next
  case True
  then obtain c where s: "m_vecStates s = [c]" by (auto simp: length_Suc_conv)
  from sw have d: "d \<le> 5" by (simp add: switch_safe_def)
  then have "d \<in> {0, 1, 2, 3, 4, 5}" by auto
  then have "wf_stack [d]" by auto
  moreover from port_invD(1)[OF inv] s have "c \<noteq> 8" by auto
  ultimately show ?thesis
    using p s inv d
    by (auto simp: SetPortState_def Let_def split: if_splits intro!: port_inv_restack)
qed

lemma SetPortStateWake_inv:
  assumes "port_inv s" and "switch_safe d s"
    and "SetPortStateWake c' d all s = Inr (b, s')"
  shows "port_inv s'"
proof -
  have "s' = s \<or> (\<exists>r s1 v. SetPortState d s = Inr (r, s1) \<and> (s' = s1 \<or> s' = s1\<lparr>m_semWaitForReady := v\<rparr>))"
    using assms(3) by (auto simp: SetPortStateWake_def split: if_splits sum.splits list.splits)
  then show ?thesis using assms(1) SetPortState_inv[OF assms(1,2)] port_inv_sem by blast
qed

lemma ResumeSubmitTask_inv:
  assumes inv: "port_inv s" and q: "m_queResume s = (pTask, i) # q"
    and p: "ResumeSubmitTask (SubmitStopIrp_gate b g (Some i)) i (s\<lparr>m_queResume := q\<rparr>) = Inr (r, s')"
  shows "port_inv s'"
proof -
  let ?s = "s\<lparr>m_queResume := q\<rparr>"
  from inv q have inv1: "port_inv ?s" by (simp add: port_inv_def split: option.splits)
  have set9: "port_inv s1" if "SetPortState 9 ?s = Inr (r1, s1)" for r1 s1
  proof -
    from port_invD(1)[OF inv1] obtain a rest where s: "m_vecStates ?s = a # rest"
      by (cases "m_vecStates ?s") auto
    note wf = port_invD(1)[OF inv1, unfolded s]
    show ?thesis
    proof (cases "a = 10")
      case True
      with wf have "rest = [0]" by (cases "a # rest" rule: wf_stack.cases) auto
      with that True s port_inv_restack[OF inv1, of "[9]"] show ?thesis
        by (auto simp: SetPortState_def m_arrStatMap_def)
    next
      case False
      with that s inv1 show ?thesis by (auto simp: SetPortState_def Let_def split: if_splits)
    qed
  qed
  from p consider "s' = ?s" | r1 where "SetPortState 9 ?s = Inr (r1, s')"
    | r1 s1 where "SetPortState 9 ?s = Inr (r1, s1)" "SubmitStopIrp_gate b g (Some i) s1 = Inr (r, s')"
    | "SubmitStopIrp_gate b g (Some i) ?s = Inr (r, s')"
    by (auto simp: ResumeSubmitTask_def split: prod.splits if_splits list.splits sum.splits)
  then show ?thesis
    by cases (use inv1 set9 SubmitStopIrp_gate_inv in blast)+
qed

lemma port_step_inv: "port_step s s' \<Longrightarrow> port_inv s \<Longrightarrow> port_inv s'"
proof (induction rule: port_step.induct)
  case (request d b p s r old s')
  then show ?case using CanContinue_effect port_invD(1) request_effect_inv by blast
qed (blast intro: SubmitStopIrp_gate_inv PopState_inv SetPortState_inv SetPortStateWake_inv
      ResumeSubmitTask_inv)+

lemma port_reachable_inv: "port_reachable mgr s \<Longrightarrow> port_inv s"
proof (induction rule: port_reachable.induct)
  case start
  show ?case by (simp add: port_inv_def CPortState_init_def)
next
  case (step s s')
  then show ?case by (blast intro: port_step_inv)
qed

section \<open>The port as an exclusion gate\<close>

text \<open>
  What the rest of the framework relies on: requests share the port, and a stop
  request that finds some of them inside waits until the last one leaves, while no new
  one enters. The interface and its consequences are stated once; the port interprets
  it below.
\<close>

datatype 'r gate_op = Enter 'r | Leave

text \<open>A refused entry leaves the gate as it is.\<close>

fun attempt :: "('r \<Rightarrow> 's \<Rightarrow> 's option) \<Rightarrow> ('s \<Rightarrow> 's option) \<Rightarrow> 'r gate_op \<Rightarrow> 's \<Rightarrow> 's" where
  "attempt enter leave (Enter r) s = (case enter r s of None \<Rightarrow> s | Some s' \<Rightarrow> s')"
| "attempt enter leave Leave s = (case leave s of None \<Rightarrow> s | Some s' \<Rightarrow> s')"

locale exclusion_gate =
  fixes invar :: "'s \<Rightarrow> bool"
    and readers :: "'s \<Rightarrow> nat"
    and waiting :: "'s \<Rightarrow> bool"
    and enter :: "'r \<Rightarrow> 's \<Rightarrow> 's option"
    and leave :: "'s \<Rightarrow> 's option"
  assumes enter_counts: "invar s \<Longrightarrow> enter r s = Some s' \<Longrightarrow>
      invar s' \<and> readers s' = Suc (readers s) \<and> waiting s' = waiting s"
    and enter_blocked: "invar s \<Longrightarrow> waiting s \<Longrightarrow> enter r s = None"
    and leave_counts: "invar s \<Longrightarrow> readers s = Suc (Suc n) \<Longrightarrow>
      \<exists>s'. leave s = Some s' \<and> invar s' \<and> readers s' = Suc n \<and> waiting s' = waiting s"
begin

lemma waiting_drains:
  assumes "invar s" and "waiting s" and "readers s = Suc (length (filter (\<lambda>x. x = Leave) ops) + k)"
  shows "invar (fold (attempt enter leave) ops s) \<and> waiting (fold (attempt enter leave) ops s)
    \<and> readers (fold (attempt enter leave) ops s) = Suc k"
  using assms
proof (induction ops arbitrary: s)
  case Nil
  then show ?case by simp
next
  case (Cons x ops)
  show ?case
  proof (cases x)
    case (Enter r)
    with Cons.prems enter_blocked have "attempt enter leave x s = s" by simp
    with Cons Enter show ?thesis by simp
  next
    case Leave
    with Cons.prems(3) have "readers s = Suc (Suc (length (filter (\<lambda>x. x = Leave) ops) + k))"
      by simp
    from leave_counts[OF Cons.prems(1) this] obtain s' where "leave s = Some s'" "invar s'"
      "readers s' = Suc (length (filter (\<lambda>x. x = Leave) ops) + k)" "waiting s' = waiting s" by blast
    with Cons Leave show ?thesis by simp
  qed
qed

end

text \<open>The three operations of the gate, on the port.\<close>

definition gate_inv :: "port_state \<Rightarrow> bool" where
  "gate_inv s = (port_inv s \<and> shared_stack (if hd (m_vecStates s) = 8
     then tl (m_vecStates s) else m_vecStates s))"

definition gate_readers :: "port_state \<Rightarrow> nat" where
  "gate_readers s = count_list (m_vecStates s) PORT_STATE_BUSY_SHARED"

definition gate_waiting :: "port_state \<Rightarrow> bool" where
  "gate_waiting s = (GetPortState s = PORT_STATE_EXCLUDE_PENDING)"

definition gate_enter :: "irp \<Rightarrow> port_state \<Rightarrow> port_state option" where
  "gate_enter pIrp s = (case CanContinue False (Some pIrp) PORT_STATE_BUSY_SHARED s of
     Inr (r, _, s') \<Rightarrow> if SUCCEEDED r then Some s' else None | Inl _ \<Rightarrow> None)"

definition gate_leave :: "port_state \<Rightarrow> port_state option" where
  "gate_leave s = (case PopState 0 s of
     Inr (r, _, s') \<Rightarrow> if SUCCEEDED r then Some s' else None | Inl _ \<Rightarrow> None)"

lemma CanContinue_refused:
  assumes "m_vecStates s = a # rest" and "a \<le> 10" and "d \<le> 10" and "\<not> IsValidSubmit d s"
  shows "CanContinue b p d s = Inr (ERROR_STATE, Some a, s)"
  using assms by (simp add: CanContinue.simps[of b p d s])

lemma excl_pending_refuses:
  "m_vecStates s = 8 # rest \<Longrightarrow> d \<le> 10 \<Longrightarrow> CanContinue b p d s = Inr (ERROR_STATE, Some 8, s)"
  by (rule CanContinue_refused) (auto simp: IsValidSubmit_iff)

text \<open>Asking for \<open>PORT_STATE_BUSY_SHARED\<close>, a request can only be pushed.\<close>

lemma CanContinue_shared_effect:
  assumes inv: "port_inv s" and c: "CanContinue b p PORT_STATE_BUSY_SHARED s = Inr (0, old, s')"
  shows "hd (m_vecStates s) \<in> {0, 7} \<and> s' = push_effect 7 s"
proof -
  from port_invD(1)[OF inv] obtain a rest where s: "m_vecStates s = a # rest"
    by (cases "m_vecStates s") auto
  with port_invD(1)[OF inv] have a: "a \<le> 10" by (auto dest: wf_stack_hd_le)
  have v: "IsValidSubmit 7 s"
    by (rule ccontr) (use c CanContinue_refused[OF s a, of 7 b p] in auto)
  with IsValidSubmit_iff[OF s a, of 7] have a07: "a = 0 \<or> a = 7" by auto
  from c s v obtain r0 s0 where h: "CanContinue_switch b p 7 a s = Inr (r0, s0)"
    by (auto simp: CanContinue.simps[of b p 7 s] split: sum.splits)
  with CanContinue_switch_effect[OF s a _ v] have "r0 \<noteq> ERROR_REPEAT" by simp
  with c s v h have h': "CanContinue_switch b p 7 a s = Inr (0, s')"
    by (auto simp: CanContinue.simps[of b p 7 s] split: if_splits)
  have "\<exists>bc. PushState 7 bc s = (0, s')"
    using h' a07 by (auto simp: CanContinue_switch_def HandleReady_def HandleBusyShared_def
        PushExclusive_def split: option.splits if_splits prod.splits)
  with a07 s PushState_effect[of 7 _ s 0 s'] show ?thesis by auto
qed

lemma gate_inv_stack:
  assumes "gate_inv s"
  obtains n where "m_vecStates s = replicate n 7 @ [0]" "\<not> gate_waiting s"
  | n where "m_vecStates s = 8 # replicate (Suc n) 7 @ [0]" "gate_waiting s"
proof (cases "hd (m_vecStates s) = 8")
  case True
  with assms obtain n where n: "tl (m_vecStates s) = replicate n 7 @ [0]" "wf_stack (m_vecStates s)"
    by (auto simp: gate_inv_def shared_stack_iff dest: port_invD(1))
  then have st: "m_vecStates s = 8 # replicate n 7 @ [0]"
    using True by (cases "m_vecStates s") auto
  with n(2) obtain m where "n = Suc m" by (cases n) auto
  with st that(2)[of m] show ?thesis by (simp add: gate_waiting_def GetPortState_def)
next
  case False
  with assms obtain n where n: "m_vecStates s = replicate n 7 @ [0]"
    by (auto simp: gate_inv_def shared_stack_iff)
  then show ?thesis using that(1)[of n] by (cases n) (auto simp: gate_waiting_def GetPortState_def)
qed

lemma count_replicate: "count_list (replicate n x) x = n"
  by (induction n) auto

lemma shared_stack_replicate: "shared_stack (replicate n 7 @ [0])"
  by (auto simp: shared_stack_iff)

lemma shared_stack_Cons_replicate: "shared_stack (7 # replicate n 7 @ [0])"
  using shared_stack_replicate[of "Suc n"] by simp

lemma gate_enter_law:
  assumes g: "gate_inv s" and e: "gate_enter r s = Some s'"
  shows "gate_inv s' \<and> gate_readers s' = Suc (gate_readers s) \<and> gate_waiting s' = gate_waiting s"
proof -
  from g have inv: "port_inv s" by (simp add: gate_inv_def)
  from e obtain old where c: "CanContinue False (Some r) 7 s = Inr (0, old, s')"
    by (auto simp: gate_enter_def split: sum.splits if_splits)
  from CanContinue_shared_effect[OF inv c] have h: "hd (m_vecStates s) \<in> {0, 7}"
    and s': "s' = push_effect 7 s" by auto
  have "request_effect (Some r) 0 s s'" using CanContinue_effect[OF port_invD(1)[OF inv] _ c] by simp
  from request_effect_inv[OF inv this] have inv': "port_inv s'" .
  from g show ?thesis
  proof (cases rule: gate_inv_stack)
    case (1 n)
    then have "m_vecStates s' = replicate (Suc n) 7 @ [0]" using s' by (simp add: push_effect_def)
    with 1 inv' s' shared_stack_Cons_replicate[of n] show ?thesis
      by (auto simp: gate_inv_def gate_readers_def gate_waiting_def GetPortState_def push_effect_def)
  next
    case (2 n)
    with h show ?thesis by simp
  qed
qed

lemma gate_leave_law:
  assumes g: "gate_inv s" and n: "gate_readers s = Suc (Suc n)"
  shows "\<exists>s'. gate_leave s = Some s' \<and> gate_inv s' \<and> gate_readers s' = Suc n
    \<and> gate_waiting s' = gate_waiting s"
proof -
  from g have inv: "port_inv s" by (simp add: gate_inv_def)
  from g show ?thesis
  proof (cases rule: gate_inv_stack)
    case (1 m)
    with n have st: "m_vecStates s = 7 # 7 # replicate n 7 @ [0]"
      by (simp add: gate_readers_def count_replicate)
    then have p: "PopState 0 s = Inr (0, Some 7, s\<lparr>m_vecStates := 7 # replicate n 7 @ [0]\<rparr>)"
      by (simp add: PopState_def)
    from PopState_inv[OF inv _ p] st have "port_inv (s\<lparr>m_vecStates := 7 # replicate n 7 @ [0]\<rparr>)"
      by (simp add: GetPortState_def)
    then show ?thesis
      using p st shared_stack_Cons_replicate[of n] by (simp add: gate_leave_def gate_inv_def gate_readers_def gate_waiting_def
          GetPortState_def count_replicate)
  next
    case (2 m)
    with n have st: "m_vecStates s = 8 # 7 # 7 # replicate n 7 @ [0]"
      by (simp add: gate_readers_def count_replicate)
    note p = PopState_excl_more[OF st, of 0]
    from PopState_inv[OF inv _ p] st have "port_inv (s\<lparr>m_vecStates := 8 # 7 # replicate n 7 @ [0]\<rparr>)"
      by (simp add: GetPortState_def)
    then show ?thesis
      using p st shared_stack_Cons_replicate[of n] by (simp add: gate_leave_def gate_inv_def gate_readers_def gate_waiting_def
          GetPortState_def count_replicate)
  qed
qed

lemma gate_blocked_law:
  assumes "gate_inv s" and "gate_waiting s"
  shows "gate_enter r s = None"
  using assms
  by (cases rule: gate_inv_stack) (simp_all add: gate_enter_def excl_pending_refuses)

interpretation port_gate: exclusion_gate gate_inv gate_readers gate_waiting gate_enter gate_leave
proof unfold_locales
  show "gate_inv s \<Longrightarrow> gate_enter r s = Some s' \<Longrightarrow>
      gate_inv s' \<and> gate_readers s' = Suc (gate_readers s) \<and> gate_waiting s' = gate_waiting s" for s r s'
    by (rule gate_enter_law)
  show "gate_inv s \<Longrightarrow> gate_waiting s \<Longrightarrow> gate_enter r s = None" for s r
    by (rule gate_blocked_law)
  show "gate_inv s \<Longrightarrow> gate_readers s = Suc (Suc n) \<Longrightarrow>
      \<exists>s'. gate_leave s = Some s' \<and> gate_inv s' \<and> gate_readers s' = Suc n \<and> gate_waiting s' = gate_waiting s" for s n
    by (rule gate_leave_law)
qed

section \<open>Properties\<close>

text \<open>Sample packets and a started port with four cores, for the witnesses.\<close>

definition stop_irp :: irp where
  "stop_irp = \<lparr>irp_id = 1, m_vecCtxStack = [(IRP_MJ_PNP, IRP_MN_PNP_STOP)], m_atmState = IRP_STATE_READY\<rparr>"

definition func_irp :: irp where
  "func_irp = \<lparr>irp_id = 2, m_vecCtxStack = [(IRP_MJ_FUNC, 1)], m_atmState = IRP_STATE_READY\<rparr>"

definition start_irp :: irp where
  "start_irp = \<lparr>irp_id = 3, m_vecCtxStack = [(IRP_MJ_PNP, IRP_MN_PNP_START)], m_atmState = IRP_STATE_READY\<rparr>"

definition sample_port :: "nat list \<Rightarrow> port_state" where
  "sample_port xs = (CPortState_init (Some 4))\<lparr>m_vecStates := xs\<rparr>"

lemmas sample_defs = stop_irp_def func_irp_def start_irp_def sample_port_def CPortState_init_def

lemmas eval_port = CanContinue.simps IsValidSubmit_def CanContinue_switch_def HandleReady_def
  HandleAttached_def HandleBusyShared_def HandleStopResume_def HandleBusyResume_def HandleBusy_def
  PushExclusive_def TopCmd_def PushState_def SetPortState_def m_arrStatMap_def GetPortState_def

lemma sample_started: "port_reachable (Some 4) (sample_port [PORT_STATE_STARTING])"
proof (rule port_reachable.step[OF port_reachable.start])
  have "CanContinue False (Some start_irp) PORT_STATE_STARTING (CPortState_init (Some 4))
      = Inr (0, Some PORT_STATE_ATTACHED, sample_port [PORT_STATE_STARTING])"
    by (simp add: eval_port sample_defs)
  then show "port_step (CPortState_init (Some 4)) (sample_port [PORT_STATE_STARTING])"
    by (rule port_step.request[rotated]) simp
qed

lemma sample_ready: "port_reachable (Some 4) (sample_port [PORT_STATE_READY])"
proof (rule port_reachable.step[OF sample_started])
  have "SetPortState PORT_STATE_READY (sample_port [PORT_STATE_STARTING])
      = Inr (0, sample_port [PORT_STATE_READY])"
    by (simp add: eval_port sample_defs)
  then show "port_step (sample_port [PORT_STATE_STARTING]) (sample_port [PORT_STATE_READY])"
    by (rule port_step.set_state[rotated]) (auto simp: sample_defs switch_safe_def)
qed

lemma sample_busy: "port_reachable (Some 4) (sample_port [PORT_STATE_BUSY, PORT_STATE_READY])"
proof (rule port_reachable.step[OF sample_ready])
  have "CanContinue False (Some func_irp) PORT_STATE_BUSY (sample_port [PORT_STATE_READY])
      = Inr (0, Some PORT_STATE_READY, sample_port [PORT_STATE_BUSY, PORT_STATE_READY])"
    by (simp add: eval_port sample_defs)
  then show "port_step (sample_port [PORT_STATE_READY]) (sample_port [PORT_STATE_BUSY, PORT_STATE_READY])"
    by (rule port_step.request[rotated]) simp
qed

lemma sample_shared: "port_reachable (Some 4) (sample_port [PORT_STATE_BUSY_SHARED, PORT_STATE_READY])"
proof (rule port_reachable.step[OF sample_ready])
  have "CanContinue False (Some func_irp) PORT_STATE_BUSY_SHARED (sample_port [PORT_STATE_READY])
      = Inr (0, Some PORT_STATE_READY, sample_port [PORT_STATE_BUSY_SHARED, PORT_STATE_READY])"
    by (simp add: eval_port sample_defs)
  then show "port_step (sample_port [PORT_STATE_READY]) (sample_port [PORT_STATE_BUSY_SHARED, PORT_STATE_READY])"
    by (rule port_step.request[rotated]) simp
qed

lemma sample_pending: "port_reachable (Some 4) ((sample_port [8, 7, 0])\<lparr>m_pExclIrp := Some stop_irp, m_pResume := Some 99\<rparr>)"
proof (rule port_reachable.step[OF sample_shared])
  have "SubmitStopIrp_gate False (Inr 99) (Some stop_irp) (sample_port [7, 0])
      = Inr (STATUS_PENDING, (sample_port [8, 7, 0])\<lparr>m_pExclIrp := Some stop_irp, m_pResume := Some 99\<rparr>)"
    by (simp add: SubmitStopIrp_gate_def SetResumePoint_def eval_port sample_defs)
  then show "port_step (sample_port [7, 0]) ((sample_port [8, 7, 0])\<lparr>m_pExclIrp := Some stop_irp, m_pResume := Some 99\<rparr>)"
    by (rule port_step.stop)
qed



text \<open>An exclusive request is alone on the port: below it is only the state it was
  admitted in, and until it is released every further request is refused at once with
  \<open>ERROR_STATE\<close> and leaves the port unchanged. It is never made to wait, so the
  semaphore wait of \<open>HandleBusy\<close> is not reached.\<close>

lemma busy_port_refuses:
  assumes "port_reachable mgr s" and "GetPortState s = PORT_STATE_BUSY" and "d \<le> MAX_PORT_STATE"
  shows "(\<exists>b. m_vecStates s = [PORT_STATE_BUSY, b])
    \<and> CanContinue bIntr p d s = Inr (ERROR_STATE, Some PORT_STATE_BUSY, s)"
proof -
  from assms(2) obtain rest where s: "m_vecStates s = 6 # rest"
    by (auto simp: GetPortState_def split: list.splits)
  with port_invD(1)[OF port_reachable_inv[OF assms(1)]] have "\<exists>b. rest = [b]"
    by (cases "6 # rest" rule: wf_stack.cases) auto
  moreover have "CanContinue bIntr p d s = Inr (ERROR_STATE, Some 6, s)"
    by (rule CanContinue_refused[OF s]) (use assms(3) in \<open>auto simp: IsValidSubmit_iff[OF s]\<close>)
  ultimately show ?thesis using s by simp
qed

text \<open>C31. For a target state in range and a packet with a context, \<open>CanContinue\<close> always
  returns: in no reachable state does it block, read an empty stack or fault.\<close>

theorem CanContinue_returns:
  assumes "port_reachable mgr s" and "d \<le> MAX_PORT_STATE" and "TopCmd p \<noteq> None"
  shows "\<exists>r old s'. CanContinue bIntr p d s = Inr (r, old, s')"
proof -
  from port_invD(1)[OF port_reachable_inv[OF assms(1)]] obtain a rest
    where s: "m_vecStates s = a # rest" and a: "a \<le> 10"
    by (cases "m_vecStates s") (auto dest: wf_stack_hd_le)
  show ?thesis
  proof (cases "IsValidSubmit d s")
    case False
    then show ?thesis using CanContinue_refused[OF s a assms(2)] by blast
  next
    case True
    then have "a \<noteq> 6" using IsValidSubmit_iff[OF s a assms(2)] by auto
    moreover have "\<And>b c. d \<noteq> PORT_STATE_STOP_RESUME" "m_vecStates s \<noteq> []"
      using True IsValidSubmit_iff[OF s a assms(2)] s by auto
    ultimately obtain r s' where h: "CanContinue_switch bIntr p d a s = Inr (r, s')"
      using assms(2,3)
      by (fastforce simp: CanContinue_switch_def handler_defs SetPortState_def Let_def
          split: option.splits list.splits prod.splits)
    with CanContinue_switch_effect[OF s a assms(2) True] have "r \<noteq> ERROR_REPEAT" by simp
    with h s True assms(2,3) show ?thesis by (simp add: CanContinue.simps[of bIntr p d s])
  qed
qed

theorem CanContinue_returns_witness:
  "\<exists>r old s'. CanContinue False (Some stop_irp) PORT_STATE_STOPPING (sample_port [PORT_STATE_READY])
     = Inr (r, old, s')"
  by (rule CanContinue_returns[OF sample_ready]) (simp_all add: TopCmd_def stop_irp_def)

text \<open>While a stop request waits for exclusion, every other request is refused with
  \<open>ERROR_STATE\<close> and changes nothing: the shared requests can only become fewer.\<close>

lemma pending_exclusion_refuses:
  assumes "port_reachable mgr s" and "m_pExclIrp s \<noteq> None" and "d \<le> MAX_PORT_STATE"
  shows "CanContinue bIntr p d s = Inr (ERROR_STATE, Some PORT_STATE_EXCLUDE_PENDING, s)"
proof -
  note inv = port_reachable_inv[OF assms(1)]
  from port_invD(1,2)[OF inv] assms(2) obtain rest where "m_vecStates s = 8 # rest"
    by (cases "m_vecStates s") auto
  with assms(3) show ?thesis by (simp add: excl_pending_refuses)
qed

text \<open>C30. Under any interleaving of entry attempts and releases, a gate with a waiting stop
  request refuses every entry and loses exactly one shared request per release, until
  one is left.\<close>

theorem waiting_gate_drains:
  assumes "gate_inv s" and "gate_waiting s"
    and "gate_readers s = Suc (length (filter (\<lambda>x. x = Leave) ops) + k)"
  shows "gate_waiting (fold (attempt gate_enter gate_leave) ops s)
    \<and> gate_readers (fold (attempt gate_enter gate_leave) ops s) = Suc k"
  using port_gate.waiting_drains[OF assms] by blast

theorem waiting_gate_drains_witness:
  "gate_readers (fold (attempt gate_enter gate_leave) [Enter func_irp, Leave, Enter func_irp]
     ((sample_port [8, 7, 7, 0])\<lparr>m_pExclIrp := Some stop_irp, m_pResume := Some 99\<rparr>)) = 1"
  using waiting_gate_drains[of "(sample_port [8, 7, 7, 0])\<lparr>m_pExclIrp := Some stop_irp, m_pResume := Some 99\<rparr>"
      "[Enter func_irp, Leave, Enter func_irp]" 0]
  by (simp add: gate_inv_def gate_waiting_def gate_readers_def GetPortState_def port_inv_def
      is_stop_irp_def TopCmd_def sample_defs)

text \<open>Releasing \<open>n\<close> admitted requests one after the other, with a manager that accepts
  the resume task.\<close>

fun PopStates :: "nat \<Rightarrow> port_state \<Rightarrow> port_state option" where
  "PopStates 0 s = Some s"
| "PopStates (Suc n) s = (case PopState 0 s of
     Inr (r, _, s') \<Rightarrow> if SUCCEEDED r then PopStates n s' else None | Inl _ \<Rightarrow> None)"

lemma PopStates_excl:
  assumes "m_vecStates s = 8 # replicate (Suc n) 7 @ [0]" and "m_pExclIrp s = Some i"
    and "m_vecCtxStack i \<noteq> []" and "m_pResume s = Some pTask" and "m_pIoMgr s = Some c"
  shows "PopStates (Suc n) s = Some (s\<lparr>m_vecStates := [10, 0], m_pExclIrp := None,
    m_pResume := None, m_queResume := m_queResume s @ [(pTask, i)]\<rparr>)"
  using assms
proof (induction n arbitrary: s)
  case 0
  then show ?case using PopState_excl_last[of s i pTask c 0] by simp
next
  case (Suc n)
  then have "m_vecStates s = 8 # 7 # 7 # replicate n 7 @ [0]" by simp
  note p = PopState_excl_more[OF this, of 0]
  have "PopStates (Suc (Suc n)) s = PopStates (Suc n) (s\<lparr>m_vecStates := 8 # 7 # replicate n 7 @ [0]\<rparr>)"
    using p by (simp del: PopStates.simps(2) add: PopStates.simps(2)[of "Suc n" s])
  also have "\<dots> = Some ((s\<lparr>m_vecStates := 8 # 7 # replicate n 7 @ [0]\<rparr>)\<lparr>m_vecStates := [10, 0],
      m_pExclIrp := None, m_pResume := None, m_queResume := m_queResume s @ [(pTask, i)]\<rparr>)"
    using Suc.prems Suc.IH[of "s\<lparr>m_vecStates := 8 # 7 # replicate n 7 @ [0]\<rparr>"] by simp
  finally show ?case by simp
qed

lemma stop_request_parks:
  assumes "m_vecStates s = replicate (Suc n) 7 @ [0]" and "m_pIoMgr s = Some c"
    and "n + 2 \<le> (c + 1) mod 2 ^ 32" and "is_stop_irp i"
  shows "SubmitStopIrp_gate bIntr (Inr pTask) (Some i) s = Inr (STATUS_PENDING,
    s\<lparr>m_vecStates := 8 # m_vecStates s, m_pExclIrp := Some i, m_pResume := Some pTask\<rparr>)"
proof -
  have v: "IsValidSubmit 3 s" by (rule IsValidSubmit_iff[THEN iffD2]) (use assms(1) in auto)
  have "CanContinue bIntr (Some i) 3 s
      = Inr (STATUS_PENDING, Some 7, s\<lparr>m_vecStates := 8 # m_vecStates s, m_pExclIrp := Some i\<rparr>)"
    using assms v
    by (simp add: CanContinue.simps[of bIntr "Some i" 3 s] CanContinue_switch_def HandleBusyShared_def
        is_stop_irp_def PushExclusive_def PushState_def)
  then show ?thesis by (simp add: SubmitStopIrp_gate_def SetResumePoint_def)
qed

lemma resumed_stop_stops:
  assumes "m_vecStates s = [10, 0]" and "is_stop_irp i" and "m_atmState i = IRP_STATE_READY"
  shows "ResumeSubmitTask (SubmitStopIrp_gate bIntr g (Some i)) i s
    = Inr (0, s\<lparr>m_vecStates := [PORT_STATE_STOPPING]\<rparr>)"
proof -
  let ?s = "s\<lparr>m_vecStates := [9]\<rparr>"
  have c: "CanContinue bIntr (Some i) 3 ?s = Inr (0, Some 9, s\<lparr>m_vecStates := [3]\<rparr>)"
    by (simp add: CanContinue.simps[of bIntr "Some i" 3 ?s] CanContinue_switch_def IsValidSubmit_def
        HandleStopResume_def SetPortState_def m_arrStatMap_def)
  then have "SubmitStopIrp_gate bIntr g (Some i) ?s = Inr (0, s\<lparr>m_vecStates := [3]\<rparr>)"
    by (simp add: SubmitStopIrp_gate_def)
  moreover have "SetPortState 9 s = Inr (0, ?s)"
    using assms(1) by (simp add: SetPortState_def m_arrStatMap_def)
  ultimately show ?thesis
    using assms(2,3)
    by (auto simp: ResumeSubmitTask_def IoRequestPacket_CanContinue_def is_stop_irp_def TopCmd_def
        split: list.splits)
qed

text \<open>C6. The path of a stop request that nothing else interferes with. The request arrives
  while \<open>n + 1\<close> shared requests are inside, and \<open>n + 1\<close> is below the limit of the stack,
  which is the number of cores plus one; its packet is in \<open>IRP_STATE_READY\<close> and no resume
  task is queued. Then it is parked with \<open>STATUS_PENDING\<close>; the \<open>n + 1\<close> releases, with no other
  step between, hand exactly its resume task to the I/O manager; and when that task
  runs next, the port is in \<open>PORT_STATE_STOPPING\<close> with nothing else on the stack. The last
  condition is needed: a request that enters between the last release and the resume task
  takes the place of the stop request (\<open>resumed_stop_can_be_overtaken\<close>).\<close>

theorem stop_waits_for_shared:
  assumes "m_vecStates s = replicate (Suc n) PORT_STATE_BUSY_SHARED @ [PORT_STATE_READY]"
    and "m_pIoMgr s = Some c" and "n + 2 \<le> (c + 1) mod 2 ^ 32"
    and "is_stop_irp i" and "m_atmState i = IRP_STATE_READY" and "m_queResume s = []"
  shows "\<exists>s1 s2 s3. SubmitStopIrp_gate bIntr (Inr pTask) (Some i) s = Inr (STATUS_PENDING, s1)
    \<and> PopStates (Suc n) s1 = Some s2 \<and> m_queResume s2 = [(pTask, i)]
    \<and> ResumeSubmitTask (SubmitStopIrp_gate bIntr g (Some i)) i (s2\<lparr>m_queResume := []\<rparr>) = Inr (0, s3)
    \<and> m_vecStates s3 = [PORT_STATE_STOPPING] \<and> m_pExclIrp s3 = None \<and> m_pResume s3 = None"
proof -
  let ?s1 = "s\<lparr>m_vecStates := 8 # m_vecStates s, m_pExclIrp := Some i, m_pResume := Some pTask\<rparr>"
  let ?s2 = "?s1\<lparr>m_vecStates := [10, 0], m_pExclIrp := None, m_pResume := None, m_queResume := [(pTask, i)]\<rparr>"
  have 1: "SubmitStopIrp_gate bIntr (Inr pTask) (Some i) s = Inr (STATUS_PENDING, ?s1)"
    by (rule stop_request_parks[OF assms(1-4)])
  have 2: "PopStates (Suc n) ?s1 = Some ?s2"
    using PopStates_excl[of ?s1 n i pTask c] assms is_stop_irp_ctx[OF assms(4)] by simp
  have 3: "ResumeSubmitTask (SubmitStopIrp_gate bIntr g (Some i)) i (?s2\<lparr>m_queResume := []\<rparr>)
      = Inr (0, (?s2\<lparr>m_queResume := []\<rparr>)\<lparr>m_vecStates := [PORT_STATE_STOPPING]\<rparr>)"
    by (rule resumed_stop_stops) (use assms in auto)
  show ?thesis
    by (intro exI conjI, rule 1, rule 2, simp, rule 3, simp_all)
qed

theorem stop_waits_for_shared_witness:
  "\<exists>s1 s2 s3. SubmitStopIrp_gate False (Inr 99) (Some stop_irp) (sample_port [7, 7, 0]) = Inr (STATUS_PENDING, s1)
    \<and> PopStates (Suc 1) s1 = Some s2 \<and> m_queResume s2 = [(99, stop_irp)]
    \<and> ResumeSubmitTask (SubmitStopIrp_gate False (Inr 0) (Some stop_irp)) stop_irp (s2\<lparr>m_queResume := []\<rparr>) = Inr (0, s3)
    \<and> m_vecStates s3 = [PORT_STATE_STOPPING] \<and> m_pExclIrp s3 = None \<and> m_pResume s3 = None"
  by (rule stop_waits_for_shared[of "sample_port [7, 7, 0]" 1 4 stop_irp False 99 "Inr 0"])
     (simp_all add: sample_defs is_stop_irp_def TopCmd_def)

text \<open>A request that \<open>CanContinue\<close> admitted with a push is undone by its \<open>PopState\<close>: the
  popped state is the pushed one and, up to the semaphore, the port is as it was
  before.\<close>

lemma admitted_request_released:
  assumes "port_reachable mgr s" and "d \<le> MAX_PORT_STATE"
    and "CanContinue bIntr p d s = Inr (r, old, s')" and "SUCCEEDED r"
    and "length (m_vecStates s') = Suc (length (m_vecStates s))"
  shows "\<exists>v. PopState iSched s' = Inr (0, Some (GetPortState s'), s\<lparr>m_semWaitForReady := v\<rparr>)"
proof -
  note inv = port_reachable_inv[OF assms(1)]
  have "request_effect p r s s'" using CanContinue_effect[OF port_invD(1)[OF inv] assms(2,3)] by simp
  with assms(4,5) port_invD(1)[OF inv] have "s' = push_effect 7 s \<or> s' = push_effect 6 s"
    by (cases "m_vecStates s") (auto simp: request_effect_def Let_def switch_effect_def)
  then show ?thesis
    by (auto simp: PopState_def push_effect_def GetPortState_def
        intro: exI[of _ "m_semWaitForReady s"])
qed

text \<open>While a resumed stop request is on its way (\<open>PORT_STATE_BUSY_RESUME\<close>), any packet
  that asks for \<open>PORT_STATE_BUSY\<close> is admitted in its place, and the resume task then
  gives up with \<open>ERROR_STATE\<close> without running the suspended stop: the state does not
  block every further request, as the comment in \<open>PopState\<close> says it does.\<close>

lemma resumed_stop_can_be_overtaken:
  assumes "m_vecStates s = [PORT_STATE_BUSY_RESUME, PORT_STATE_READY]" and "is_stop_irp i"
    and "m_atmState i = IRP_STATE_READY"
  shows "\<exists>s'. CanContinue bIntr p PORT_STATE_BUSY s = Inr (0, Some PORT_STATE_BUSY_RESUME, s')
    \<and> ResumeSubmitTask runTask i s' = Inr (ERROR_STATE, s')"
proof -
  have "CanContinue bIntr p 6 s = Inr (0, Some 10, s\<lparr>m_vecStates := [6, 0]\<rparr>)"
    using assms(1) by (simp add: CanContinue.simps[of bIntr p 6 s] CanContinue_switch_def
        IsValidSubmit_def HandleBusyResume_def SetPortState_def m_arrStatMap_def)
  moreover have "ResumeSubmitTask runTask i (s\<lparr>m_vecStates := [6, 0]\<rparr>)
      = Inr (ERROR_STATE, s\<lparr>m_vecStates := [6, 0]\<rparr>)"
    using assms(2,3) by (auto simp: ResumeSubmitTask_def IoRequestPacket_CanContinue_def
        is_stop_irp_def TopCmd_def SetPortState_def m_arrStatMap_def split: list.splits)
  ultimately show ?thesis by blast
qed

text \<open>When a port fails in \<open>OnPortReady\<close>, it is ready already and not locked, so that a request
  can be inside. The switch to \<open>PORT_STATE_STOPPED\<close> of \<^verbatim>\<open>CPort::SubmitStartIrp\<close> and
  \<^verbatim>\<open>CPort::CompleteStartIrp\<close> then replaces the entry of the request, whose release leaves the
  failed port in \<open>PORT_STATE_READY\<close>.\<close>

lemma failed_start_ends_ready:
  assumes "m_vecStates s = [PORT_STATE_BUSY, PORT_STATE_READY]"
  shows "\<exists>s1 s2. SetPortState PORT_STATE_STOPPED s = Inr (0, s1)
    \<and> m_vecStates s1 = [PORT_STATE_STOPPED, PORT_STATE_READY] \<and> \<not> wf_stack (m_vecStates s1)
    \<and> PopState iSched s1 = Inr (0, Some PORT_STATE_STOPPED, s2) \<and> m_vecStates s2 = [PORT_STATE_READY]"
  using assms by (simp add: SetPortState_def PopState_def m_arrStatMap_def)

text \<open>The range check of \<open>CanContinue\<close> lets the target 11 pass, and \<open>IsValidSubmit\<close> answers
  an out-of-range target with \<open>-EINVAL\<close> converted to true; on a busy port such a request
  waits on the semaphore with the port lock held and never returns.\<close>

lemma out_of_range_target_blocks:
  assumes "m_vecStates s = PORT_STATE_BUSY # rest" and "m_semWaitForReady s \<le> 0"
    and "TopCmd p \<noteq> None"
  shows "CanContinue False p PORTSTAT_MAP_LEN s = Inl Fault_Block"
  using assms by (auto simp: CanContinue.simps[of False p 11 s] IsValidSubmit_def CanContinue_switch_def
      HandleBusy_def split: option.splits)

end
