(* ===== verification/IfState.thy ===== *)
theory IfState
  imports Prelude
begin

text \<open>
  The interface state machine of \<^verbatim>\<open>ipc/ifstat.cpp\<close> (class \<^verbatim>\<open>CInterfaceState\<close> and its
  subclasses): the transition table that drives a proxy or a server from stopped to
  connected and back, the handlers of port, module, bus and administration events,
  the opening of the port, and the subscription to the connection points of
  \<^verbatim>\<open>include/stlcont.h\<close> and \<^verbatim>\<open>ipc/connhelp.h\<close>.

  What the state asks the I/O manager for is the record \<open>io_mgr\<close>, an argument of
  the operations that call it. The state lock is recursive and is taken around every
  change, so each handler is one step.
\<close>

section \<open>Data\<close>

text \<open>\<^verbatim>\<open>EnumIfState\<close>, in the order of the enumeration.\<close>

datatype EnumIfState =
    stateStopped | stateStarting | stateStarted | stateConnected | stateRecovery
  | statePaused | stateUnknown | stateStopping | statePausing | stateResuming
  | stateInvalid | stateIoDone | stateStartFailed

abbreviation (input) eventRetry :: nat where "eventRetry \<equiv> 269"
abbreviation (input) eventPortStarted :: nat where "eventPortStarted \<equiv> 276"
abbreviation (input) eventPortStartFailed :: nat where "eventPortStartFailed \<equiv> 277"
abbreviation (input) eventPortStopped :: nat where "eventPortStopped \<equiv> 278"
abbreviation (input) eventPortStopping :: nat where "eventPortStopping \<equiv> 279"
abbreviation (input) eventModOnline :: nat where "eventModOnline \<equiv> 280"
abbreviation (input) eventModOffline :: nat where "eventModOffline \<equiv> 281"
abbreviation (input) eventDBusOnline :: nat where "eventDBusOnline \<equiv> 282"
abbreviation (input) eventDBusOffline :: nat where "eventDBusOffline \<equiv> 283"
abbreviation (input) eventRmtModOnline :: nat where "eventRmtModOnline \<equiv> 284"
abbreviation (input) eventRmtModOffline :: nat where "eventRmtModOffline \<equiv> 285"
abbreviation (input) eventRmtSvrOnline :: nat where "eventRmtSvrOnline \<equiv> 288"
abbreviation (input) eventRmtSvrOffline :: nat where "eventRmtSvrOffline \<equiv> 289"
abbreviation (input) cmdOpenPort :: nat where "cmdOpenPort \<equiv> 290"
abbreviation (input) cmdClosePort :: nat where "cmdClosePort \<equiv> 291"
abbreviation (input) cmdEnableEvent :: nat where "cmdEnableEvent \<equiv> 292"
abbreviation (input) cmdShutdown :: nat where "cmdShutdown \<equiv> 302"
abbreviation (input) cmdPause :: nat where "cmdPause \<equiv> 303"
abbreviation (input) cmdResume :: nat where "cmdResume \<equiv> 304"
abbreviation (input) eventResumed :: nat where "eventResumed \<equiv> 305"
abbreviation (input) eventPaused :: nat where "eventPaused \<equiv> 306"
abbreviation (input) cmdCleanup :: nat where "cmdCleanup \<equiv> 307"
abbreviation (input) eventInvalid :: nat where "eventInvalid \<equiv> 1048576"

abbreviation (input) propSrcDBusName :: nat where "propSrcDBusName \<equiv> 4097"
abbreviation (input) propDestDBusName :: nat where "propDestDBusName \<equiv> 4098"
abbreviation (input) propObjPath :: nat where "propObjPath \<equiv> 4102"
abbreviation (input) propBusName :: nat where "propBusName \<equiv> 8193"
abbreviation (input) propPortClass :: nat where "propPortClass \<equiv> 8198"
abbreviation (input) propPortId :: nat where "propPortId \<equiv> 8199"
abbreviation (input) propPdoId :: nat where "propPdoId \<equiv> 8206"
abbreviation (input) propStartStopEvent :: nat where "propStartStopEvent \<equiv> 8221"
abbreviation (input) propDBusSysEvent :: nat where "propDBusSysEvent \<equiv> 8222"
abbreviation (input) propDBusModEvent :: nat where "propDBusModEvent \<equiv> 8223"
abbreviation (input) propRmtSvrEvent :: nat where "propRmtSvrEvent \<equiv> 8224"
abbreviation (input) propRmtModEvent :: nat where "propRmtModEvent \<equiv> 8225"
abbreviation (input) propAdminEvent :: nat where "propAdminEvent \<equiv> 8226"
abbreviation (input) propIoMgr :: nat where "propIoMgr \<equiv> 12291"
abbreviation (input) propEventSink :: nat where "propEventSink \<equiv> 12292"
abbreviation (input) propIfPtr :: nat where "propIfPtr \<equiv> 12316"
abbreviation (input) propKeepAliveSec :: nat where "propKeepAliveSec \<equiv> 12332"
abbreviation (input) propTimeoutSec :: nat where "propTimeoutSec \<equiv> 12333"
abbreviation (input) propFd :: nat where "propFd \<equiv> 12340"
abbreviation (input) propListenOnly :: nat where "propListenOnly \<equiv> 12381"
abbreviation (input) propConnParams :: nat where "propConnParams \<equiv> 12393"
abbreviation (input) propConnHandle :: nat where "propConnHandle \<equiv> 12394"
abbreviation (input) propRouterPath :: nat where "propRouterPath \<equiv> 12397"
abbreviation (input) propStmConnPt :: nat where "propStmConnPt \<equiv> 12437"
abbreviation (input) propStarter :: nat where "propStarter \<equiv> 12438"

abbreviation (input) INVALID_HANDLE :: nat where "INVALID_HANDLE \<equiv> 0"

text \<open>A property value: of the members of \<^verbatim>\<open>Variant\<close> the state uses the unsigned
  integer, the string and the object pointer (kept as an identity).\<close>

datatype variant = VInt nat | VStr string | VObj nat

type_synonym cfg = "nat \<rightharpoonup> variant"

text \<open>One \<^verbatim>\<open>CStlEventMap\<close> per connection point: how often each event sink has
  subscribed. Looking the map of a connection point up in the registry gives the map
  or the error code of the lookup.\<close>

type_synonym event_map = "nat \<rightharpoonup> nat"
type_synonym conn_points = "nat \<Rightarrow> gint32 + event_map"

text \<open>The concrete class of a state object; it decides the virtual calls.\<close>

datatype if_class =
    CLocalProxyState | CRemoteProxyState | CIfServerState | CTcpBdgePrxyState
  | CIfTcpBridgeState | CIfReqFwdrState | CIfReqFwdrPrxyState | CUnixSockStmState
  | CStmCpState | CDummyInterfaceState

text \<open>The members of \<^verbatim>\<open>CInterfaceState\<close>; \<open>m_pInterface\<close> is the identity of the
  interface as an event sink, \<open>m_mapConnPts\<close> the event maps of the I/O manager.\<close>

record if_state =
  m_pInterface :: nat
  m_hPort :: nat
  m_iState :: EnumIfState
  m_iResumeState :: EnumIfState
  m_vecTopicList :: "nat list"
  m_pIfCfgDb :: cfg
  m_mapConnPts :: conn_points

text \<open>The answers of the I/O manager: status codes of its calls, and the properties
  of a port and of the PDO at the bottom of its stack.\<close>

record io_mgr =
  OpenPortByRef :: "nat \<Rightarrow> gint32"
  OpenPort :: "cfg \<Rightarrow> nat \<Rightarrow> gint32 \<times> nat"
  io_ClosePort :: "nat \<Rightarrow> gint32"
  GetPortPtr :: "nat \<Rightarrow> gint32"
  PortProps :: "nat \<Rightarrow> cfg"
  GetPdoPort :: "nat \<Rightarrow> gint32"
  PdoProps :: "nat \<Rightarrow> cfg"
  GetRouterName :: string
  HasBuiltinRt :: bool
  NoDBusConn :: bool
  RouterRole :: nat

definition m_mapState :: "((EnumIfState \<times> nat) \<times> EnumIfState) list" where
  "m_mapState =
    [((stateStopped,   cmdOpenPort),            stateStarting),
     ((stateStarting,  eventPortStarted),       stateConnected),
     ((stateStarting,  eventPortStartFailed),   stateStartFailed),
     ((stateStarting,  eventPortStopping),      stateStopped),
     ((stateStarting,  eventDBusOffline),       stateStopped),
     ((stateStarting,  eventRmtSvrOffline),     stateStopped),
     ((stateStarting,  cmdShutdown),            stateStopping),
     ((stateConnected, eventPaused),            statePaused),
     ((stateConnected, eventPortStopping),      stateStopping),
     ((stateConnected, eventDBusOffline),       stateStopping),
     ((stateConnected, eventRmtSvrOffline),     stateStopping),
     ((stateConnected, cmdShutdown),            stateStopping),
     ((stateConnected, eventModOffline),        stateRecovery),
     ((stateConnected, eventRmtModOffline),     stateRecovery),
     ((stateConnected, cmdPause),               statePausing),
     ((stateRecovery,  eventPortStopping),      stateStopping),
     ((stateRecovery,  eventModOffline),        stateRecovery),
     ((stateRecovery,  cmdEnableEvent),         stateRecovery),
     ((stateRecovery,  eventModOnline),         stateUnknown),
     ((stateRecovery,  eventRmtModOnline),      stateUnknown),
     ((stateRecovery,  eventDBusOffline),       stateStopping),
     ((stateRecovery,  eventRmtSvrOffline),     stateStopping),
     ((stateRecovery,  cmdShutdown),            stateStopping),
     ((statePaused,    eventPortStopping),      stateStopping),
     ((statePaused,    eventModOffline),        stateRecovery),
     ((statePaused,    eventDBusOffline),       stateStopping),
     ((statePaused,    eventRmtModOffline),     stateRecovery),
     ((statePaused,    eventRmtSvrOffline),     stateStopped),
     ((statePaused,    cmdShutdown),            stateStopping),
     ((statePaused,    cmdResume),              stateResuming),
     ((statePausing,   eventPaused),            statePaused),
     ((stateStopping,  cmdClosePort),           stateStopped),
     ((stateStartFailed, cmdCleanup),           stateStopping),
     ((stateStartFailed, eventRetry),           stateStarting),
     ((stateResuming,  eventResumed),           stateConnected)]"

definition IfStateToString :: "EnumIfState \<Rightarrow> string" where
  "IfStateToString dwState =
    (case dwState of
       stateStopped \<Rightarrow> ''Stopped'' | stateStarting \<Rightarrow> ''Starting''
     | stateStarted \<Rightarrow> ''Started'' | stateConnected \<Rightarrow> ''Connected''
     | stateRecovery \<Rightarrow> ''Recovery'' | statePaused \<Rightarrow> ''Paused''
     | stateUnknown \<Rightarrow> ''Unknown'' | stateStopping \<Rightarrow> ''Stopping''
     | statePausing \<Rightarrow> ''Pausing'' | stateResuming \<Rightarrow> ''Resuming''
     | stateIoDone \<Rightarrow> ''IoDone'' | stateStartFailed \<Rightarrow> ''StartFailed''
     | stateInvalid \<Rightarrow> ''Invalid'')"

lemma IfStateToString_inject: "IfStateToString a = IfStateToString b \<Longrightarrow> a = b"
  by (cases a; cases b) (simp_all add: IfStateToString_def)

section \<open>Connection points\<close>

definition CStlEventMap_SubscribeEvent :: "nat \<Rightarrow> event_map \<Rightarrow> gint32 \<times> event_map" where
  "CStlEventMap_SubscribeEvent pEventSink oMap =
    (case oMap pEventSink of
       None \<Rightarrow> (0, oMap(pEventSink \<mapsto> 1))
     | Some n \<Rightarrow> (0, oMap(pEventSink \<mapsto> n + 1)))"

definition CStlEventMap_UnsubscribeEvent :: "nat \<Rightarrow> event_map \<Rightarrow> gint32 \<times> event_map" where
  "CStlEventMap_UnsubscribeEvent pEventSink oMap =
    (case oMap pEventSink of
       None \<Rightarrow> (- ENOENT, oMap)
     | Some n \<Rightarrow>
         (let ret = int n - 1 in
          if ret \<le> 0 then (0, oMap(pEventSink := None))
          else (0, oMap(pEventSink \<mapsto> nat ret))))"

definition SubscribeEvent :: "nat \<Rightarrow> nat \<Rightarrow> conn_points \<Rightarrow> gint32 \<times> conn_points" where
  "SubscribeEvent pEventSink iConnId cp =
    (case cp iConnId of
       Inl err \<Rightarrow> (err, cp)
     | Inr oMap \<Rightarrow>
         (let (ret, oMap') = CStlEventMap_SubscribeEvent pEventSink oMap in
          (ret, cp(iConnId := Inr oMap'))))"

definition UnsubscribeEvent :: "nat \<Rightarrow> nat \<Rightarrow> conn_points \<Rightarrow> gint32 \<times> conn_points" where
  "UnsubscribeEvent pEventSink iConnId cp =
    (case cp iConnId of
       Inl err \<Rightarrow> (err, cp)
     | Inr oMap \<Rightarrow>
         (let (ret, oMap') = CStlEventMap_UnsubscribeEvent pEventSink oMap in
          (ret, cp(iConnId := Inr oMap'))))"

text \<open>The loops over the topics. \<open>subscribe_loop\<close> is the \<^verbatim>\<open>for\<close> loop of
  \<^verbatim>\<open>SubscribeEventsInternal\<close> with its \<^verbatim>\<open>break\<close>: it returns the last status, the
  topics subscribed so far and the new state. \<open>unsubscribe_loop\<close> ignores the status of
  every call, as both loops over \<^verbatim>\<open>UnsubscribeEvent\<close> do.\<close>

fun subscribe_loop :: "('k \<Rightarrow> 's \<Rightarrow> gint32 \<times> 's) \<Rightarrow> 'k list \<Rightarrow> gint32 \<Rightarrow> 'k list \<Rightarrow> 's \<Rightarrow> gint32 \<times> 'k list \<times> 's" where
  "subscribe_loop sub [] ret vecEvents s = (ret, vecEvents, s)"
| "subscribe_loop sub (elem # rest) ret vecEvents s =
    (let (ret', s') = sub elem s in
     if ERROR ret' then (ret', vecEvents, s')
     else subscribe_loop sub rest ret' (vecEvents @ [elem]) s')"

fun unsubscribe_loop :: "('k \<Rightarrow> 's \<Rightarrow> gint32 \<times> 's) \<Rightarrow> 'k list \<Rightarrow> 's \<Rightarrow> 's" where
  "unsubscribe_loop unsub [] s = s"
| "unsubscribe_loop unsub (elem # rest) s = unsubscribe_loop unsub rest (snd (unsub elem s))"

definition UnsubscribeEvents :: "if_state \<Rightarrow> gint32 \<times> if_state" where
  "UnsubscribeEvents s =
    (let vecEvents = m_vecTopicList s; s1 = s\<lparr>m_vecTopicList := []\<rparr> in
     if vecEvents = [] then (0, s1)
     else (0, s1\<lparr>m_mapConnPts :=
       unsubscribe_loop (UnsubscribeEvent (m_pInterface s)) vecEvents (m_mapConnPts s)\<rparr>))"

definition SubscribeEventsInternal :: "nat list \<Rightarrow> if_state \<Rightarrow> gint32 \<times> if_state" where
  "SubscribeEventsInternal vecEvtToSubscribe s =
    (let s1 = snd (UnsubscribeEvents s);
         (ret, vecEvents, cp) =
           subscribe_loop (SubscribeEvent (m_pInterface s1)) vecEvtToSubscribe 0 [] (m_mapConnPts s1) in
     if ERROR ret
     then (ret, s1\<lparr>m_mapConnPts := unsubscribe_loop (UnsubscribeEvent (m_pInterface s1)) vecEvents cp\<rparr>)
     else (ret, s1\<lparr>m_mapConnPts := cp, m_vecTopicList := vecEvents\<rparr>))"

text \<open>The topics that each class passes to \<^verbatim>\<open>SubscribeEventsInternal\<close>; \<open>None\<close> for
  the classes whose \<^verbatim>\<open>SubscribeEvents\<close> only returns 0.\<close>

definition vecEvtToSubscribe :: "if_class \<Rightarrow> io_mgr \<Rightarrow> nat list option" where
  "vecEvtToSubscribe cls mgr =
    (case cls of
       CLocalProxyState \<Rightarrow>
         Some [propStartStopEvent, propDBusModEvent, propDBusSysEvent, propAdminEvent]
     | CRemoteProxyState \<Rightarrow>
         Some [propStartStopEvent, propDBusModEvent, propRmtModEvent, propRmtSvrEvent,
               propDBusSysEvent, propAdminEvent]
     | CIfServerState \<Rightarrow>
         Some [propDBusModEvent, propStartStopEvent, propDBusSysEvent, propAdminEvent]
     | CIfReqFwdrState \<Rightarrow> Some (if HasBuiltinRt mgr then [] else [propDBusModEvent])
     | CIfReqFwdrPrxyState \<Rightarrow> Some [propDBusModEvent]
     | CTcpBdgePrxyState \<Rightarrow> None | CIfTcpBridgeState \<Rightarrow> None
     | CUnixSockStmState \<Rightarrow> None | CStmCpState \<Rightarrow> None | CDummyInterfaceState \<Rightarrow> None)"

definition SubscribeEvents :: "if_class \<Rightarrow> io_mgr \<Rightarrow> if_state \<Rightarrow> gint32 \<times> if_state" where
  "SubscribeEvents cls mgr s =
    (case vecEvtToSubscribe cls mgr of
       None \<Rightarrow> (0, s)
     | Some evts \<Rightarrow> SubscribeEventsInternal evts s)"

section \<open>The state machine\<close>

text \<open>The constructor: it throws unless the configuration names the I/O manager and the
  interface, keeps the rest of the configuration, and starts stopped, with no port and
  nothing to resume.\<close>

definition CInterfaceState_init :: "cfg option \<Rightarrow> conn_points \<Rightarrow> if_state run" where
  "CInterfaceState_init pCfg cp =
    (case pCfg of
       None \<Rightarrow> Inl Fault_Throw
     | Some c \<Rightarrow>
         (case c propIoMgr of
            Some (VObj mgr) \<Rightarrow>
              (case c propIfPtr of
                 Some (VObj pIf) \<Rightarrow>
                   if pIf = 0 then Inl Fault_Throw
                   else Inr \<lparr>m_pInterface = pIf, m_hPort = INVALID_HANDLE, m_iState = stateStopped,
                     m_iResumeState = stateInvalid, m_vecTopicList = [],
                     m_pIfCfgDb = c(propIoMgr := None, propIfPtr := None), m_mapConnPts = cp\<rparr>
               | _ \<Rightarrow> Inl Fault_Throw)
          | _ \<Rightarrow> Inl Fault_Throw))"

definition TestSetState :: "nat \<Rightarrow> if_state \<Rightarrow> gint32" where
  "TestSetState iEvent s =
    (case map_of m_mapState (m_iState s, iEvent) of
       None \<Rightarrow> ERROR_STATE
     | Some _ \<Rightarrow> 0)"

definition SetStateOnEvent :: "nat \<Rightarrow> if_state \<Rightarrow> gint32 \<times> if_state" where
  "SetStateOnEvent iEvent s =
    (case map_of m_mapState (m_iState s, iEvent) of
       None \<Rightarrow> (ERROR_STATE, s)
     | Some iState \<Rightarrow>
         (if iState = stateUnknown then (0, s\<lparr>m_iState := m_iResumeState s\<rparr>)
          else if iState = stateRecovery
          then (if m_iState s \<noteq> stateRecovery
                then (0, s\<lparr>m_iResumeState := m_iState s, m_iState := iState\<rparr>)
                else (0, s))
          else (0, s\<lparr>m_iState := iState\<rparr>)))"

text \<open>Reading a variant through \<^verbatim>\<open>operator stdstr&\<close> or as an integer: the variant is a
  union, so the wrong member is undefined.\<close>

definition str_of :: "variant \<Rightarrow> string run" where
  "str_of v = (case v of VStr x \<Rightarrow> Inr x | _ \<Rightarrow> Inl Fault_Type)"

definition int_of :: "variant \<Rightarrow> nat run" where
  "int_of v = (case v of VInt x \<Rightarrow> Inr x | _ \<Rightarrow> Inl Fault_Type)"

text \<open>\<^verbatim>\<open>GetProperty\<close>: the error code or the value, and the state, in which the port id is
  filled in when it was left open (-1) and the port is known.\<close>

definition GetProperty :: "io_mgr \<Rightarrow> nat \<Rightarrow> if_state \<Rightarrow> ((gint32 + variant) \<times> if_state) run" where
  "GetProperty mgr iProp s =
    (if \<not> (iProp = propPortId \<and> m_hPort s \<noteq> INVALID_HANDLE)
     then Inr (case m_pIfCfgDb s iProp of None \<Rightarrow> Inl (- ENOENT) | Some v \<Rightarrow> Inr v, s)
     else case m_pIfCfgDb s iProp of
       None \<Rightarrow> Inr (Inl (- ENOENT), s)
     | Some v \<Rightarrow>
         (case int_of v of
            Inl f \<Rightarrow> Inl f
          | Inr dwPortId \<Rightarrow>
              if dwPortId = 4294967295
              then if ERROR (GetPortPtr mgr (m_hPort s)) then Inr (Inl (GetPortPtr mgr (m_hPort s)), s)
                   else case PortProps mgr (m_hPort s) propPdoId of
                     None \<Rightarrow> Inr (Inl (- ENOENT), s)
                   | Some w \<Rightarrow>
                       (case int_of w of
                          Inl f \<Rightarrow> Inl f
                        | Inr d \<Rightarrow> Inr (Inr (VInt d),
                            s\<lparr>m_pIfCfgDb := (m_pIfCfgDb s)(propPortId \<mapsto> VInt d)\<rparr>))
              else Inr (Inr (VInt dwPortId), s)))"

definition IsMyPort :: "io_mgr \<Rightarrow> nat \<Rightarrow> if_state \<Rightarrow> bool run" where
  "IsMyPort mgr hPort s =
    (if hPort = INVALID_HANDLE then Inr False
     else if m_hPort s = hPort then Inr True
     else if m_hPort s \<noteq> INVALID_HANDLE then Inr False
     else if ERROR (GetPortPtr mgr hPort) then Inr False
     else case PortProps mgr hPort propPortClass of
       None \<Rightarrow> Inr False
     | Some v \<Rightarrow>
         (case str_of v of
            Inl f \<Rightarrow> Inl f
          | Inr strPortClass \<Rightarrow>
              (case m_pIfCfgDb s propPortClass of
                 None \<Rightarrow> Inr False
               | Some w \<Rightarrow>
                   (case str_of w of
                      Inl f \<Rightarrow> Inl f
                    | Inr strDesiredClass \<Rightarrow> Inr (strPortClass = strDesiredClass)))))"

section \<open>Event handlers\<close>

definition CInterfaceState_OnPortEvent ::
  "if_class \<Rightarrow> io_mgr \<Rightarrow> nat \<Rightarrow> nat \<Rightarrow> if_state \<Rightarrow> (gint32 \<times> if_state) run" where
  "CInterfaceState_OnPortEvent cls mgr iEvent hPort s =
    (if hPort = INVALID_HANDLE \<or> iEvent = eventInvalid then Inr (- EINVAL, s)
     else if iEvent = eventPortStartFailed then Inr (SetStateOnEvent eventPortStartFailed s)
     else if iEvent = eventPortStarted then
       (let ret = TestSetState eventPortStarted s in
        if ERROR ret then Inr (ret, s)
        else if ERROR (OpenPortByRef mgr hPort) then Inr (SetStateOnEvent eventPortStartFailed s)
        else
          let (ret, s1) = SetStateOnEvent eventPortStarted (s\<lparr>m_hPort := hPort\<rparr>) in
          if ERROR ret then Inr (ret, s1) else Inr (SubscribeEvents cls mgr s1))
     else if iEvent = eventPortStopping then
       (case IsMyPort mgr hPort s of
          Inl f \<Rightarrow> Inl f
        | Inr bMine \<Rightarrow> if \<not> bMine then Inr (- ENOENT, s) else Inr (0, s))
     else if iEvent = eventPortStopped then
       Inr (SetStateOnEvent cmdClosePort (snd (UnsubscribeEvents (s\<lparr>m_hPort := INVALID_HANDLE\<rparr>))))
     else Inr (0, s))"

text \<open>The result of \<^verbatim>\<open>SetStateOnEvent\<close> is dropped: the handler reports 0 whatever the
  table says.\<close>

definition OnModEvent :: "nat \<Rightarrow> string \<Rightarrow> if_state \<Rightarrow> gint32 \<times> if_state" where
  "OnModEvent iEvent strModule s =
    (if iEvent \<ge> eventInvalid \<or> strModule = [] then (- EINVAL, s)
     else if iEvent = eventRmtModOffline \<or> iEvent = eventModOffline
     then (0, snd (SetStateOnEvent iEvent s))
     else if iEvent = eventRmtModOnline \<or> iEvent = eventModOnline
     then (0, snd (SetStateOnEvent iEvent s))
     else (0, s))"

definition OnDBusEvent :: "nat \<Rightarrow> if_state \<Rightarrow> gint32 \<times> if_state" where
  "OnDBusEvent iEvent s = (if iEvent \<ge> eventInvalid then (- EINVAL, s) else (0, s))"

definition OnAdminEvent :: "nat \<Rightarrow> string \<Rightarrow> if_state \<Rightarrow> gint32 \<times> if_state" where
  "OnAdminEvent iEvent strParams s =
    (if iEvent \<ge> eventInvalid then (- EINVAL, s)
     else if iEvent = cmdShutdown
     then (if m_iState s = stateStopping then (0, s) else (ERROR_STATE, s))
     else if iEvent = cmdPause then SetStateOnEvent eventPaused s
     else if iEvent = cmdResume then SetStateOnEvent eventResumed s
     else (0, s))"

text \<open>\<^verbatim>\<open>OnRmtModEvent\<close> and \<^verbatim>\<open>OnRmtSvrEvent\<close>: only the remote proxy supports them, and the
  second one changes nothing but its own copy of the event.\<close>

definition OnRmtModEvent :: "if_class \<Rightarrow> nat \<Rightarrow> string \<Rightarrow> if_state \<Rightarrow> gint32 \<times> if_state" where
  "OnRmtModEvent cls iEvent strModule s =
    (if cls = CRemoteProxyState then OnModEvent iEvent strModule s else (- ENOTSUP, s))"

definition OnRmtSvrEvent :: "if_class \<Rightarrow> nat \<Rightarrow> if_state \<Rightarrow> gint32 \<times> if_state" where
  "OnRmtSvrEvent cls iEvent s =
    (if cls = CRemoteProxyState then (0, s) else (- ENOTSUP, s))"

section \<open>Opening and closing the port\<close>

text \<open>\<^verbatim>\<open>CCfgOpener::CopyProp\<close> from the state object into the parameters of the request, and
  from the PDO into the state object.\<close>

definition CopyProp_param :: "io_mgr \<Rightarrow> nat \<Rightarrow> if_state \<times> cfg \<Rightarrow> (gint32 \<times> if_state \<times> cfg) run" where
  "CopyProp_param mgr iProp sc =
    (case sc of (s, oParams) \<Rightarrow>
      (case GetProperty mgr iProp s of
         Inl f \<Rightarrow> Inl f
       | Inr (Inl ret, s') \<Rightarrow> Inr (ret, s', oParams)
       | Inr (Inr v, s') \<Rightarrow> Inr (0, s', oParams(iProp \<mapsto> v))))"

definition CopyProp_pdo :: "cfg \<Rightarrow> nat \<Rightarrow> if_state \<Rightarrow> gint32 \<times> if_state" where
  "CopyProp_pdo pPdo iProp s =
    (case pPdo iProp of
       None \<Rightarrow> (- ENOENT, s)
     | Some v \<Rightarrow> (0, s\<lparr>m_pIfCfgDb := (m_pIfCfgDb s)(iProp \<mapsto> v)\<rparr>))"

text \<open>A sequence of copies that ignores every status, and one that stops at the first
  error.\<close>

fun copy_all :: "io_mgr \<Rightarrow> nat list \<Rightarrow> if_state \<times> cfg \<Rightarrow> (if_state \<times> cfg) run" where
  "copy_all mgr [] sc = Inr sc"
| "copy_all mgr (p # ps) sc =
    (case CopyProp_param mgr p sc of
       Inl f \<Rightarrow> Inl f
     | Inr (ret, sc') \<Rightarrow> copy_all mgr ps sc')"

fun copy_until_error :: "io_mgr \<Rightarrow> nat list \<Rightarrow> if_state \<times> cfg \<Rightarrow> (gint32 \<times> if_state \<times> cfg) run" where
  "copy_until_error mgr [] sc = Inr (0, sc)"
| "copy_until_error mgr (p # ps) sc =
    (case CopyProp_param mgr p sc of
       Inl f \<Rightarrow> Inl f
     | Inr (ret, sc') \<Rightarrow> if ERROR ret then Inr (ret, sc') else copy_until_error mgr ps sc')"

fun copy_pdo_until_error :: "cfg \<Rightarrow> nat list \<Rightarrow> if_state \<Rightarrow> gint32 \<times> if_state" where
  "copy_pdo_until_error pPdo [] s = (0, s)"
| "copy_pdo_until_error pPdo (p # ps) s =
    (let (ret, s') = CopyProp_pdo pPdo p s in
     if ERROR ret then (ret, s') else copy_pdo_until_error pPdo ps s')"

definition CRemoteProxyState_SetupOpenPortParams ::
  "io_mgr \<Rightarrow> if_state \<times> cfg \<Rightarrow> (gint32 \<times> if_state \<times> cfg) run" where
  "CRemoteProxyState_SetupOpenPortParams mgr sc =
    (case CopyProp_param mgr propConnParams sc of
       Inl f \<Rightarrow> Inl f
     | Inr (_, sc1) \<Rightarrow>
         (case CopyProp_param mgr propRouterPath sc1 of
            Inl f \<Rightarrow> Inl f
          | Inr (ret, s2, c2) \<Rightarrow>
              (let c3 = (if ERROR ret then c2(propRouterPath \<mapsto> VStr ''/'') else c2) in
               if \<not> HasBuiltinRt mgr then Inr (0, s2, c3)
               else if \<not> NoDBusConn mgr then Inr (0, s2, c3)
               else case m_pIfCfgDb s2 propPortClass of
                 None \<Rightarrow> Inl Fault_Type
               | Some v \<Rightarrow>
                   (case str_of v of
                      Inl f \<Rightarrow> Inl f
                    | Inr strPort \<Rightarrow>
                        if strPort \<noteq> ''DBusProxyPdo'' then Inr (0, s2, c3)
                        else Inr (0,
                          s2\<lparr>m_pIfCfgDb := (m_pIfCfgDb s2)(propPortClass \<mapsto> VStr ''DBusProxyPdoLpbk'')\<rparr>,
                          c3(propPortClass \<mapsto> VStr ''DBusProxyPdoLpbk''))))))"

definition SetupOpenPortParams ::
  "if_class \<Rightarrow> io_mgr \<Rightarrow> if_state \<times> cfg \<Rightarrow> (gint32 \<times> if_state \<times> cfg) run" where
  "SetupOpenPortParams cls mgr sc =
    (case cls of
       CUnixSockStmState \<Rightarrow>
         (case copy_all mgr [propFd, propTimeoutSec, propKeepAliveSec, propListenOnly] sc of
            Inl f \<Rightarrow> Inl f | Inr sc' \<Rightarrow> Inr (0, sc'))
     | CStmCpState \<Rightarrow>
         (case copy_all mgr [propStarter, propStmConnPt, propListenOnly] sc of
            Inl f \<Rightarrow> Inl f | Inr sc' \<Rightarrow> Inr (0, sc'))
     | CRemoteProxyState \<Rightarrow> CRemoteProxyState_SetupOpenPortParams mgr sc
     | CTcpBdgePrxyState \<Rightarrow> CopyProp_param mgr propConnParams sc
     | CIfReqFwdrState \<Rightarrow>
         (if HasBuiltinRt mgr \<and> NoDBusConn mgr
          then Inr (0, fst sc, (snd sc)(propPortClass \<mapsto> VStr ''DBusLoopbackPdo2''))
          else Inr (0, sc))
     | CIfReqFwdrPrxyState \<Rightarrow>
         (if HasBuiltinRt mgr \<and> odd (RouterRole mgr div 2)
          then Inr (0, fst sc, (snd sc)(propPortClass \<mapsto> VStr ''DBusLoopbackPdo2''))
          else Inr (0, sc))
     | _ \<Rightarrow> Inr (0, sc))"

text \<open>\<^verbatim>\<open>OpenPortInternal\<close>; a null callback is \<open>None\<close>. A status that is neither success,
  pending nor an error passes through.\<close>

definition OpenPortInternal ::
  "if_class \<Rightarrow> io_mgr \<Rightarrow> nat option \<Rightarrow> if_state \<Rightarrow> (gint32 \<times> if_state) run" where
  "OpenPortInternal cls mgr pCallback s =
    (case pCallback of
       None \<Rightarrow> Inr (- EINVAL, s)
     | Some cb \<Rightarrow>
         if m_iState s \<noteq> stateStarting then Inr (ERROR_STATE, s)
         else case copy_until_error mgr [propBusName, propPortClass, propPortId] (s, Map.empty) of
           Inl f \<Rightarrow> Inl f
         | Inr (ret, s1, c1) \<Rightarrow>
             if ERROR ret then Inr (ret, s1)
             else case SetupOpenPortParams cls mgr
                 (s1, c1(propEventSink \<mapsto> VObj cb, propIfPtr \<mapsto> VObj (m_pInterface s1))) of
               Inl f \<Rightarrow> Inl f
             | Inr (ret, s2, c2) \<Rightarrow>
                 if ERROR ret then Inr (ret, s2)
                 else
                   let (ret, h) = OpenPort mgr c2 (m_hPort s2);
                       s3 = s2\<lparr>m_hPort := h\<rparr> in
                   if ret = STATUS_PENDING then Inr (ret, s3)
                   else if SUCCEEDED ret then
                     (let (ret', s4) = SetStateOnEvent eventPortStarted s3 in
                      if ERROR ret' then Inr (ret', s4) else Inr (SubscribeEvents cls mgr s4))
                   else if ERROR ret then Inr (ret, snd (SetStateOnEvent eventPortStartFailed s3))
                   else Inr (ret, s3))"

text \<open>What the remote and the bridge proxy add once the port is there: the properties of
  the PDO are copied into the state.\<close>

definition update_from_pdo :: "io_mgr \<Rightarrow> nat \<Rightarrow> nat list \<Rightarrow> if_state \<Rightarrow> gint32 \<times> if_state" where
  "update_from_pdo mgr hPort props s =
    (if ERROR (GetPortPtr mgr hPort) then (GetPortPtr mgr hPort, s)
     else if ERROR (GetPdoPort mgr hPort) then (GetPdoPort mgr hPort, s)
     else copy_pdo_until_error (PdoProps mgr hPort) props s)"

definition if_OpenPort ::
  "if_class \<Rightarrow> io_mgr \<Rightarrow> nat option \<Rightarrow> if_state \<Rightarrow> (gint32 \<times> if_state) run" where
  "if_OpenPort cls mgr pCallback s =
    (case OpenPortInternal cls mgr pCallback s of
       Inl f \<Rightarrow> Inl f
     | Inr (ret, s1) \<Rightarrow>
         if cls = CRemoteProxyState \<or> cls = CTcpBdgePrxyState
         then if ret = STATUS_PENDING \<or> ERROR ret then Inr (ret, s1)
              else Inr (update_from_pdo mgr (m_hPort s1)
                (if cls = CRemoteProxyState then [propConnHandle, propConnParams]
                 else [propPortId, propConnParams]) s1)
         else Inr (ret, s1))"

definition OnPortEvent ::
  "if_class \<Rightarrow> io_mgr \<Rightarrow> nat \<Rightarrow> nat \<Rightarrow> if_state \<Rightarrow> (gint32 \<times> if_state) run" where
  "OnPortEvent cls mgr iEvent hPort s =
    (if cls = CRemoteProxyState \<or> cls = CTcpBdgePrxyState then
       if hPort = INVALID_HANDLE \<or> iEvent = eventInvalid then Inr (- EINVAL, s)
       else if iEvent = eventPortStarted then
         (case CInterfaceState_OnPortEvent cls mgr iEvent hPort s of
            Inl f \<Rightarrow> Inl f
          | Inr (ret, s1) \<Rightarrow>
              if ERROR ret then Inr (ret, s1)
              else Inr (update_from_pdo mgr hPort
                (if cls = CRemoteProxyState then [propConnHandle, propConnParams, propRouterPath]
                 else [propPortId, propConnParams]) s1))
       else CInterfaceState_OnPortEvent cls mgr iEvent hPort s
     else CInterfaceState_OnPortEvent cls mgr iEvent hPort s)"

definition if_ClosePort :: "io_mgr \<Rightarrow> if_state \<Rightarrow> gint32 \<times> if_state" where
  "if_ClosePort mgr s =
    (if m_hPort s = INVALID_HANDLE then (- EINVAL, s)
     else let s1 = snd (UnsubscribeEvents s) in (io_ClosePort mgr (m_hPort s1), s1))"

definition CInterfaceState_Start ::
  "if_class \<Rightarrow> io_mgr \<Rightarrow> nat option \<Rightarrow> if_state \<Rightarrow> (gint32 \<times> if_state) run" where
  "CInterfaceState_Start cls mgr pCallback s = if_OpenPort cls mgr pCallback s"

definition CInterfaceState_Stop :: "if_state \<Rightarrow> gint32 \<times> if_state" where
  "CInterfaceState_Stop s = (0, snd (UnsubscribeEvents s))"

section \<open>Destinations\<close>

text \<open>\<^verbatim>\<open>BUILD_STRING1\<close> prints into a buffer of twice 255 bytes and leaves room for two.\<close>

definition DBUS_DESTINATION :: "string \<Rightarrow> string" where
  "DBUS_DESTINATION strModName = take 508 (''org.rpcf.'' @ strModName)"

text \<open>\<^verbatim>\<open>IsMyDest\<close> of the proxies (\<open>propDestDBusName\<close>) and of the servers
  (\<open>propSrcDBusName\<close>) differ in the property only. The status of reading a missing object path
  is an error code that no later branch clears, so the answer is no.\<close>

definition IsMyDest_by :: "nat \<Rightarrow> string \<Rightarrow> if_state \<Rightarrow> bool run" where
  "IsMyDest_by iNameProp strModName s =
    (case m_pIfCfgDb s iNameProp of
       None \<Rightarrow> Inr False
     | Some v \<Rightarrow>
         (case str_of v of
            Inl f \<Rightarrow> Inl f
          | Inr strName \<Rightarrow>
              if strModName = strName then Inr True
              else case m_pIfCfgDb s propObjPath of
                None \<Rightarrow> Inr False
              | Some w \<Rightarrow>
                  (case str_of w of Inl f \<Rightarrow> Inl f | Inr strObjPath \<Rightarrow> Inr (strObjPath = strModName))))"

definition is_server :: "if_class \<Rightarrow> bool" where
  "is_server cls = (cls = CIfServerState \<or> cls = CIfTcpBridgeState \<or> cls = CIfReqFwdrState)"

definition IsMyDest :: "if_class \<Rightarrow> io_mgr \<Rightarrow> string \<Rightarrow> if_state \<Rightarrow> bool run" where
  "IsMyDest cls mgr strModName s =
    (if is_server cls then IsMyDest_by propSrcDBusName strModName s
     else case IsMyDest_by propDestDBusName strModName s of
       Inl f \<Rightarrow> Inl f
     | Inr True \<Rightarrow> Inr True
     | Inr False \<Rightarrow>
         if cls = CRemoteProxyState then Inr (DBUS_DESTINATION (GetRouterName mgr) = strModName)
         else Inr False)"

section \<open>The interface of a connection point\<close>

text \<open>
  What a client of a connection point may rely on: a subscription that does not fail
  counts once for the caller on its topic, one that fails changes nothing, and taking
  it back lowers the count by one. No other sink and no other topic is touched.
\<close>

locale conn_point =
  fixes sub :: "'k \<Rightarrow> 's \<Rightarrow> gint32 \<times> 's"
    and unsub :: "'k \<Rightarrow> 's \<Rightarrow> gint32 \<times> 's"
    and me :: 'e
    and cnt :: "'s \<Rightarrow> 'e \<Rightarrow> 'k \<Rightarrow> nat"
    and ok :: "'s \<Rightarrow> bool"
  assumes sub_ok: "ok s \<Longrightarrow> ok (snd (sub k s))"
    and unsub_ok: "ok s \<Longrightarrow> ok (snd (unsub k s))"
    and sub_cnt: "ok s \<Longrightarrow> \<not> ERROR (fst (sub k s)) \<Longrightarrow>
      cnt (snd (sub k s)) e j = cnt s e j + (if e = me \<and> j = k then 1 else 0)"
    and sub_err: "ok s \<Longrightarrow> ERROR (fst (sub k s)) \<Longrightarrow> snd (sub k s) = s"
    and unsub_cnt: "ok s \<Longrightarrow>
      cnt (snd (unsub k s)) e j = cnt s e j - (if e = me \<and> j = k then 1 else 0)"
begin

lemma unsubscribe_loop_cnt:
  "ok s \<Longrightarrow> ok (unsubscribe_loop unsub xs s) \<and>
    cnt (unsubscribe_loop unsub xs s) e j = cnt s e j - (if e = me then count_list xs j else 0)"
  by (induction xs arbitrary: s) (auto simp: unsub_cnt unsub_ok)

lemma subscribe_loop_cnt:
  assumes "subscribe_loop sub xs ret acc s = (r, acc', s')" "ok s" "\<not> ERROR ret"
  shows "ok s' \<and> (\<exists>n \<le> length xs. acc' = acc @ take n xs \<and>
      (\<forall>e j. cnt s' e j = cnt s e j + (if e = me then count_list (take n xs) j else 0)) \<and>
      (\<not> ERROR r \<longrightarrow> n = length xs))"
  using assms
proof (induction xs arbitrary: ret acc s)
  case Nil
  then show ?case by auto
next
  case (Cons x xs)
  obtain r1 s1 where step: "sub x s = (r1, s1)" by fastforce
  show ?case
  proof (cases "ERROR r1")
    case True
    then have "s1 = s" using sub_err[of s x] step Cons.prems by simp
    then show ?thesis using Cons.prems step True by (intro conjI exI[of _ 0]) auto
  next
    case False
    have cnt1: "cnt s1 e j = cnt s e j + (if e = me \<and> j = x then 1 else 0)" for e j
      using sub_cnt[of s x e j] step False Cons.prems by simp
    have "subscribe_loop sub xs r1 (acc @ [x]) s1 = (r, acc', s')" "ok s1"
      using Cons.prems step False sub_ok[of s x] by auto
    from Cons.IH[OF this False] obtain n where
      "ok s'" "n \<le> length xs" "acc' = (acc @ [x]) @ take n xs"
      "\<forall>e j. cnt s' e j = cnt s1 e j + (if e = me then count_list (take n xs) j else 0)"
      "\<not> ERROR r \<longrightarrow> n = length xs" by blast
    then show ?thesis using cnt1 by (intro conjI exI[of _ "Suc n"]) auto
  qed
qed

lemma rollback_cnt:
  assumes "subscribe_loop sub xs 0 [] s = (r, acc', s')" "ok s"
  shows "cnt (unsubscribe_loop unsub acc' s') e j = cnt s e j"
  using subscribe_loop_cnt[OF assms] unsubscribe_loop_cnt[of s' acc' e j] by auto

end

text \<open>The event maps provide that interface. \<open>subs_of\<close> reads the number of
  subscriptions of a sink to a topic; a lookup that fails does so with an error code.\<close>

definition subs_of :: "conn_points \<Rightarrow> nat \<Rightarrow> nat \<Rightarrow> nat" where
  "subs_of cp e k = (case cp k of Inl _ \<Rightarrow> 0 | Inr m \<Rightarrow> (case m e of None \<Rightarrow> 0 | Some n \<Rightarrow> n))"

definition cp_ok :: "conn_points \<Rightarrow> bool" where
  "cp_ok cp = (\<forall>k err. cp k = Inl err \<longrightarrow> ERROR err)"

lemmas cp_defs = SubscribeEvent_def UnsubscribeEvent_def CStlEventMap_SubscribeEvent_def
  CStlEventMap_UnsubscribeEvent_def subs_of_def cp_ok_def

interpretation event_maps: conn_point "SubscribeEvent pIf" "UnsubscribeEvent pIf" pIf subs_of cp_ok
  for pIf
  by unfold_locales
    (auto simp: cp_defs Let_def split: sum.splits option.splits if_splits)

section \<open>Invariant\<close>

text \<open>
  The state is one of the nine that the table leads to, a recovery knows a live state
  to return to, and the event maps count this interface exactly as often as its topic
  list says, so an interface that lists no topic is called back by nobody.
\<close>

definition if_inv :: "if_state \<Rightarrow> bool" where
  "if_inv s \<longleftrightarrow>
    m_iState s \<notin> {stateStarted, stateUnknown, stateInvalid, stateIoDone} \<and>
    (m_iState s = stateRecovery \<longrightarrow> m_iResumeState s \<in> {stateConnected, statePaused}) \<and>
    cp_ok (m_mapConnPts s) \<and>
    (\<forall>k. subs_of (m_mapConnPts s) (m_pInterface s) k = count_list (m_vecTopicList s) k)"

lemma if_inv_irrelevant:
  "if_inv (s\<lparr>m_pIfCfgDb := c\<rparr>) = if_inv s" "if_inv (s\<lparr>m_hPort := h\<rparr>) = if_inv s"
  by (simp_all add: if_inv_def)

text \<open>The only rows that lead into \<open>stateRecovery\<close> from elsewhere start in \<open>stateConnected\<close>
  or \<open>statePaused\<close>, and no row leads to a state that is not live.\<close>

lemma m_mapState_rows:
  assumes "map_of m_mapState (st, ev) = Some st'"
  shows "st' \<notin> {stateStarted, stateInvalid, stateIoDone}"
    and "st' = stateUnknown \<Longrightarrow> st = stateRecovery"
    and "st' = stateRecovery \<Longrightarrow> st \<in> {stateConnected, statePaused, stateRecovery}"
proof -
  have "((st, ev), st') \<in> set m_mapState" using assms by (rule map_of_SomeD)
  then have "st' \<notin> {stateStarted, stateInvalid, stateIoDone} \<and>
    (st' = stateUnknown \<longrightarrow> st = stateRecovery) \<and>
    (st' = stateRecovery \<longrightarrow> st \<in> {stateConnected, statePaused, stateRecovery})"
    unfolding m_mapState_def by auto
  then show "st' \<notin> {stateStarted, stateInvalid, stateIoDone}"
    and "st' = stateUnknown \<Longrightarrow> st = stateRecovery"
    and "st' = stateRecovery \<Longrightarrow> st \<in> {stateConnected, statePaused, stateRecovery}" by auto
qed

lemma m_mapState_lookup [ifs_simps]:
  "map_of m_mapState (stateStopped, cmdOpenPort) = Some stateStarting"
  "map_of m_mapState (stateStarting, eventPortStarted) = Some stateConnected"
  "map_of m_mapState (stateStarting, eventPortStartFailed) = Some stateStartFailed"
  "map_of m_mapState (stateStarting, eventPortStopping) = Some stateStopped"
  "map_of m_mapState (stateStarting, eventDBusOffline) = Some stateStopped"
  "map_of m_mapState (stateStarting, eventRmtSvrOffline) = Some stateStopped"
  "map_of m_mapState (stateStarting, cmdShutdown) = Some stateStopping"
  "map_of m_mapState (stateConnected, eventPaused) = Some statePaused"
  "map_of m_mapState (stateConnected, eventPortStopping) = Some stateStopping"
  "map_of m_mapState (stateConnected, eventDBusOffline) = Some stateStopping"
  "map_of m_mapState (stateConnected, eventRmtSvrOffline) = Some stateStopping"
  "map_of m_mapState (stateConnected, cmdShutdown) = Some stateStopping"
  "map_of m_mapState (stateConnected, eventModOffline) = Some stateRecovery"
  "map_of m_mapState (stateConnected, eventRmtModOffline) = Some stateRecovery"
  "map_of m_mapState (stateConnected, cmdPause) = Some statePausing"
  "map_of m_mapState (stateRecovery, eventPortStopping) = Some stateStopping"
  "map_of m_mapState (stateRecovery, eventModOffline) = Some stateRecovery"
  "map_of m_mapState (stateRecovery, cmdEnableEvent) = Some stateRecovery"
  "map_of m_mapState (stateRecovery, eventModOnline) = Some stateUnknown"
  "map_of m_mapState (stateRecovery, eventRmtModOnline) = Some stateUnknown"
  "map_of m_mapState (stateRecovery, eventDBusOffline) = Some stateStopping"
  "map_of m_mapState (stateRecovery, eventRmtSvrOffline) = Some stateStopping"
  "map_of m_mapState (stateRecovery, cmdShutdown) = Some stateStopping"
  "map_of m_mapState (statePaused, eventPortStopping) = Some stateStopping"
  "map_of m_mapState (statePaused, eventModOffline) = Some stateRecovery"
  "map_of m_mapState (statePaused, eventDBusOffline) = Some stateStopping"
  "map_of m_mapState (statePaused, eventRmtModOffline) = Some stateRecovery"
  "map_of m_mapState (statePaused, eventRmtSvrOffline) = Some stateStopped"
  "map_of m_mapState (statePaused, cmdShutdown) = Some stateStopping"
  "map_of m_mapState (statePaused, cmdResume) = Some stateResuming"
  "map_of m_mapState (statePausing, eventPaused) = Some statePaused"
  "map_of m_mapState (stateStopping, cmdClosePort) = Some stateStopped"
  "map_of m_mapState (stateStartFailed, cmdCleanup) = Some stateStopping"
  "map_of m_mapState (stateStartFailed, eventRetry) = Some stateStarting"
  "map_of m_mapState (stateResuming, eventResumed) = Some stateConnected"
  by (simp_all add: m_mapState_def)

lemma SetStateOnEvent_frame:
  "m_pInterface (snd (SetStateOnEvent ev s)) = m_pInterface s"
  "m_vecTopicList (snd (SetStateOnEvent ev s)) = m_vecTopicList s"
  "m_mapConnPts (snd (SetStateOnEvent ev s)) = m_mapConnPts s"
  "m_pIfCfgDb (snd (SetStateOnEvent ev s)) = m_pIfCfgDb s"
  "m_hPort (snd (SetStateOnEvent ev s)) = m_hPort s"
  by (auto simp: SetStateOnEvent_def split: option.splits)

lemma SetStateOnEvent_inv: "if_inv s \<Longrightarrow> if_inv (snd (SetStateOnEvent ev s))"
  using m_mapState_rows[of "m_iState s" ev]
  by (auto simp: SetStateOnEvent_def if_inv_def split: option.splits)

lemma UnsubscribeEvents_frame:
  "m_pInterface (snd (UnsubscribeEvents s)) = m_pInterface s"
  "m_vecTopicList (snd (UnsubscribeEvents s)) = []"
  "m_iState (snd (UnsubscribeEvents s)) = m_iState s"
  "m_iResumeState (snd (UnsubscribeEvents s)) = m_iResumeState s"
  "m_pIfCfgDb (snd (UnsubscribeEvents s)) = m_pIfCfgDb s"
  "m_hPort (snd (UnsubscribeEvents s)) = m_hPort s"
  "fst (UnsubscribeEvents s) = 0"
  by (simp_all add: UnsubscribeEvents_def Let_def)

lemma UnsubscribeEvents_maps:
  assumes "if_inv s"
  shows "cp_ok (m_mapConnPts (snd (UnsubscribeEvents s)))"
    and "subs_of (m_mapConnPts (snd (UnsubscribeEvents s))) e k =
      (if e = m_pInterface s then 0 else subs_of (m_mapConnPts s) e k)"
  using assms event_maps.unsubscribe_loop_cnt[of "m_mapConnPts s" "m_pInterface s" "m_vecTopicList s" e k]
  by (auto simp: UnsubscribeEvents_def Let_def if_inv_def)

lemma UnsubscribeEvents_inv: "if_inv s \<Longrightarrow> if_inv (snd (UnsubscribeEvents s))"
  using UnsubscribeEvents_maps[of s]
  by (simp add: if_inv_def UnsubscribeEvents_frame)

lemma SubscribeEventsInternal_spec:
  assumes "if_inv s" "SubscribeEventsInternal evs s = (ret, s')"
  shows "if_inv s'"
    and "m_vecTopicList s' = (if ERROR ret then [] else evs)"
    and "subs_of (m_mapConnPts s') e k =
      (if e = m_pInterface s then (if ERROR ret then 0 else count_list evs k)
       else subs_of (m_mapConnPts s) e k)"
    and "m_iState s' = m_iState s" "m_pInterface s' = m_pInterface s" "m_hPort s' = m_hPort s"
proof -
  let ?u = "snd (UnsubscribeEvents s)" and ?me = "m_pInterface s"
  obtain r acc cp where loop:
    "subscribe_loop (SubscribeEvent ?me) evs 0 [] (m_mapConnPts ?u) = (r, acc, cp)"
    using prod_cases3 by blast
  have ret: "ret = r" and s': "s' =
    (if ERROR r then ?u\<lparr>m_mapConnPts := unsubscribe_loop (UnsubscribeEvent ?me) acc cp\<rparr>
     else ?u\<lparr>m_mapConnPts := cp, m_vecTopicList := acc\<rparr>)"
    using assms(2) loop
    by (auto simp: SubscribeEventsInternal_def Let_def UnsubscribeEvents_frame split: if_splits)
  note u = UnsubscribeEvents_maps[OF assms(1)]
  from event_maps.subscribe_loop_cnt[OF loop u(1)] obtain n where
    n: "cp_ok cp" "acc = take n evs" "\<not> ERROR r \<longrightarrow> n = length evs"
       "\<And>e j. subs_of cp e j = subs_of (m_mapConnPts ?u) e j +
          (if e = ?me then count_list (take n evs) j else 0)" by auto
  have ok': "cp_ok (unsubscribe_loop (UnsubscribeEvent ?me) acc cp)"
    using event_maps.unsubscribe_loop_cnt[OF n(1)] by blast
  show cnt: "subs_of (m_mapConnPts s') e k =
      (if e = ?me then (if ERROR ret then 0 else count_list evs k)
       else subs_of (m_mapConnPts s) e k)" for e k
    using event_maps.rollback_cnt[OF loop u(1), of e k] n(3,4) u(2) by (auto simp: s' ret)
  show topics: "m_vecTopicList s' = (if ERROR ret then [] else evs)"
    using n by (simp add: s' ret UnsubscribeEvents_frame)
  show "m_iState s' = m_iState s" and me: "m_pInterface s' = m_pInterface s" and "m_hPort s' = m_hPort s"
    by (simp_all add: s' UnsubscribeEvents_frame)
  have "cp_ok (m_mapConnPts s')" using n(1) ok' by (simp add: s')
  then show "if_inv s'"
    using assms(1) cnt topics me by (simp add: if_inv_def s' UnsubscribeEvents_frame)
qed

lemma SubscribeEvents_inv: "if_inv s \<Longrightarrow> if_inv (snd (SubscribeEvents cls mgr s))"
  using SubscribeEventsInternal_spec(1)
  by (auto simp: SubscribeEvents_def split: option.splits) (metis prod.collapse)

lemma SubscribeEvents_state: "if_inv s \<Longrightarrow> m_iState (snd (SubscribeEvents cls mgr s)) = m_iState s"
  using SubscribeEventsInternal_spec(4)
  by (auto simp: SubscribeEvents_def split: option.splits) (metis prod.collapse)

text \<open>Reading and copying properties touches the configuration only.\<close>

definition cfg_only :: "if_state \<Rightarrow> if_state \<Rightarrow> bool" where
  "cfg_only s s' \<longleftrightarrow> s'\<lparr>m_pIfCfgDb := Map.empty\<rparr> = s\<lparr>m_pIfCfgDb := Map.empty\<rparr>"

lemma cfg_only_simps [simp]: "cfg_only s s" "cfg_only s (t\<lparr>m_pIfCfgDb := c\<rparr>) = cfg_only s t"
  by (simp_all add: cfg_only_def)

lemma cfg_only_trans: "cfg_only s t \<Longrightarrow> cfg_only t u \<Longrightarrow> cfg_only s u"
  by (simp add: cfg_only_def)

lemma cfg_only_inv: "cfg_only s t \<Longrightarrow> if_inv s \<Longrightarrow> if_inv t"
  unfolding cfg_only_def by (metis if_inv_irrelevant(1))

lemma CopyProp_param_cfg: "CopyProp_param mgr p (s, c) = Inr (r, s', c') \<Longrightarrow> cfg_only s s'"
  by (auto simp: CopyProp_param_def GetProperty_def 
      split: sum.splits option.splits if_splits prod.splits)

lemma copy_all_cfg: "copy_all mgr ps (s, c) = Inr (s', c') \<Longrightarrow> cfg_only s s'"
  by (induction ps arbitrary: s c)
    (auto split: sum.splits dest!: CopyProp_param_cfg intro: cfg_only_trans)

lemma copy_until_error_cfg: "copy_until_error mgr ps (s, c) = Inr (r, s', c') \<Longrightarrow> cfg_only s s'"
  by (induction ps arbitrary: s c)
    (auto split: sum.splits if_splits dest!: CopyProp_param_cfg intro: cfg_only_trans)

lemma copy_pdo_cfg: "cfg_only s (snd (copy_pdo_until_error pPdo ps s))"
proof (induction ps arbitrary: s)
  case (Cons p ps)
  have "cfg_only s (snd (CopyProp_pdo pPdo p s))"
    by (auto simp: CopyProp_pdo_def split: option.splits)
  then show ?case using Cons by (auto simp: split: prod.splits intro: cfg_only_trans)
qed simp

lemma update_from_pdo_cfg: "cfg_only s (snd (update_from_pdo mgr h ps s))"
  by (simp add: update_from_pdo_def copy_pdo_cfg)

lemma SetupOpenPortParams_cfg:
  assumes "SetupOpenPortParams cls mgr (s, c) = Inr (r, s', c')" shows "cfg_only s s'"
proof (cases cls)
  case CRemoteProxyState
  then show ?thesis using assms
    by (auto simp: SetupOpenPortParams_def CRemoteProxyState_SetupOpenPortParams_def Let_def
        split: sum.splits option.splits if_splits dest!: CopyProp_param_cfg)
      (simp_all add: cfg_only_def)
qed (use assms in \<open>auto simp: SetupOpenPortParams_def
      simp del: copy_all.simps split: sum.splits if_splits
      dest: copy_all_cfg CopyProp_param_cfg\<close>)

lemma SetStateOnEvent_invD: "SetStateOnEvent ev t = (r, t') \<Longrightarrow> if_inv t \<longrightarrow> if_inv t'"
  using SetStateOnEvent_inv[of t ev] by simp

lemma SubscribeEvents_invD: "SubscribeEvents cls mgr t = (r, t') \<Longrightarrow> if_inv t \<longrightarrow> if_inv t'"
  using SubscribeEvents_inv[of t cls mgr] by simp

lemma CInterfaceState_OnPortEvent_invD:
  "CInterfaceState_OnPortEvent cls mgr ev h s = Inr (r, s') \<Longrightarrow> if_inv s \<longrightarrow> if_inv s'"
  by (auto simp: CInterfaceState_OnPortEvent_def Let_def if_inv_irrelevant UnsubscribeEvents_inv
      split: if_splits sum.splits prod.splits
      dest!: SetStateOnEvent_invD SubscribeEvents_invD)

lemma copy_until_error_invD:
  "copy_until_error mgr ps (s, c) = Inr (r, s', c') \<Longrightarrow> if_inv s \<longrightarrow> if_inv s'"
  by (blast dest: copy_until_error_cfg cfg_only_inv)

lemma SetupOpenPortParams_invD:
  "SetupOpenPortParams cls mgr (s, c) = Inr (r, s', c') \<Longrightarrow> if_inv s \<longrightarrow> if_inv s'"
  by (blast dest: SetupOpenPortParams_cfg cfg_only_inv)

lemma OpenPortInternal_invD:
  "OpenPortInternal cls mgr cb s = Inr (r, s') \<Longrightarrow> if_inv s \<longrightarrow> if_inv s'"
  by (auto simp: OpenPortInternal_def Let_def if_inv_irrelevant SetStateOnEvent_inv
      simp del: copy_until_error.simps
      split: option.splits if_splits sum.splits prod.splits
      dest!: copy_until_error_invD SetupOpenPortParams_invD SetStateOnEvent_invD SubscribeEvents_invD)

lemma update_from_pdo_invD:
  "update_from_pdo mgr h ps s = (r, s') \<Longrightarrow> if_inv s \<longrightarrow> if_inv s'"
  using cfg_only_inv[OF update_from_pdo_cfg, of s mgr h ps] by auto

lemma if_OpenPort_inv:
  "if_inv s \<Longrightarrow> if_OpenPort cls mgr cb s = Inr (r, s') \<Longrightarrow> if_inv s'"
  by (auto simp: if_OpenPort_def split: sum.splits if_splits prod.splits
      dest!: OpenPortInternal_invD update_from_pdo_invD)

lemma OnPortEvent_inv:
  "if_inv s \<Longrightarrow> OnPortEvent cls mgr ev h s = Inr (r, s') \<Longrightarrow> if_inv s'"
  by (auto simp: OnPortEvent_def split: sum.splits if_splits prod.splits
      dest!: CInterfaceState_OnPortEvent_invD update_from_pdo_invD)

section \<open>Steps and reachable states\<close>

text \<open>
  Every public operation of a state object of class \<open>cls\<close> as a step, in any order, together
  with the subscriptions of the other event sinks of the process.
\<close>

inductive if_step :: "if_class \<Rightarrow> io_mgr \<Rightarrow> if_state \<Rightarrow> if_state \<Rightarrow> bool" for cls mgr where
  st_event: "if_step cls mgr s (snd (SetStateOnEvent ev s))"
| st_port: "OnPortEvent cls mgr ev h s = Inr (r, s') \<Longrightarrow> if_step cls mgr s s'"
| st_mod: "if_step cls mgr s (snd (OnModEvent ev strModule s))"
| st_dbus: "if_step cls mgr s (snd (OnDBusEvent ev s))"
| st_admin: "if_step cls mgr s (snd (OnAdminEvent ev strParams s))"
| st_rmtmod: "if_step cls mgr s (snd (OnRmtModEvent cls ev strModule s))"
| st_rmtsvr: "if_step cls mgr s (snd (OnRmtSvrEvent cls ev s))"
| st_start: "CInterfaceState_Start cls mgr cb s = Inr (r, s') \<Longrightarrow> if_step cls mgr s s'"
| st_close: "if_step cls mgr s (snd (if_ClosePort mgr s))"
| st_stop: "if_step cls mgr s (snd (CInterfaceState_Stop s))"
| st_subscribe: "if_step cls mgr s (snd (SubscribeEvents cls mgr s))"
| st_get: "GetProperty mgr iProp s = Inr (r, s') \<Longrightarrow> if_step cls mgr s s'"
| st_other_sub: "e \<noteq> m_pInterface s \<Longrightarrow>
    if_step cls mgr s (s\<lparr>m_mapConnPts := snd (SubscribeEvent e k (m_mapConnPts s))\<rparr>)"
| st_other_unsub: "e \<noteq> m_pInterface s \<Longrightarrow>
    if_step cls mgr s (s\<lparr>m_mapConnPts := snd (UnsubscribeEvent e k (m_mapConnPts s))\<rparr>)"

inductive if_reachable :: "if_class \<Rightarrow> io_mgr \<Rightarrow> if_state \<Rightarrow> bool" for cls mgr where
  r_init: "CInterfaceState_init pCfg cp = Inr s \<Longrightarrow> cp_ok cp \<Longrightarrow> (\<And>k. subs_of cp (m_pInterface s) k = 0) \<Longrightarrow>
    if_reachable cls mgr s"
| r_step: "if_reachable cls mgr s \<Longrightarrow> if_step cls mgr s s' \<Longrightarrow> if_reachable cls mgr s'"

lemma other_sink_frame:
  assumes "if_inv s" "e \<noteq> m_pInterface s"
  shows "if_inv (s\<lparr>m_mapConnPts := snd (SubscribeEvent e k (m_mapConnPts s))\<rparr>)"
    and "if_inv (s\<lparr>m_mapConnPts := snd (UnsubscribeEvent e k (m_mapConnPts s))\<rparr>)"
proof -
  have ok: "cp_ok (m_mapConnPts s)" using assms by (simp add: if_inv_def)
  have "subs_of (snd (SubscribeEvent e k (m_mapConnPts s))) (m_pInterface s) j =
      subs_of (m_mapConnPts s) (m_pInterface s) j" for j
    using event_maps.sub_cnt[OF ok, of e k] event_maps.sub_err[OF ok, of e k] assms(2)
    by (cases "ERROR (fst (SubscribeEvent e k (m_mapConnPts s)))") auto
  then show "if_inv (s\<lparr>m_mapConnPts := snd (SubscribeEvent e k (m_mapConnPts s))\<rparr>)"
    using assms event_maps.sub_ok[OF ok, of e k] by (simp add: if_inv_def)
  show "if_inv (s\<lparr>m_mapConnPts := snd (UnsubscribeEvent e k (m_mapConnPts s))\<rparr>)"
    using assms event_maps.unsub_ok[OF ok, of e k] event_maps.unsub_cnt[OF ok, of e k]
    by (simp add: if_inv_def)
qed

lemma if_step_inv: "if_step cls mgr s s' \<Longrightarrow> if_inv s \<Longrightarrow> if_inv s'"
proof (induction rule: if_step.induct)
  case (st_port ev h s r s') then show ?case by (rule OnPortEvent_inv[rotated])
next
  case (st_start cb s r s') then show ?case by (simp add: CInterfaceState_Start_def if_OpenPort_inv)
next
  case (st_get iProp s r s')
  then show ?case
    by (auto simp: GetProperty_def if_inv_irrelevant split: if_splits option.splits sum.splits)
qed (simp_all add: SetStateOnEvent_inv OnModEvent_def OnDBusEvent_def OnAdminEvent_def OnRmtModEvent_def
    OnRmtSvrEvent_def if_ClosePort_def Let_def CInterfaceState_Stop_def UnsubscribeEvents_inv
    SubscribeEvents_inv other_sink_frame)

lemma if_reachable_if_inv: "if_reachable cls mgr s \<Longrightarrow> if_inv s"
proof (induction rule: if_reachable.induct)
  case (r_init pCfg cp s)
  then have "m_mapConnPts s = cp" "m_vecTopicList s = []" "m_iState s = stateStopped"
    by (auto simp: CInterfaceState_init_def split: option.splits variant.splits if_splits)
  with r_init show ?case by (simp add: if_inv_def)
next
  case (r_step s s') then show ?case by (blast intro: if_step_inv)
qed

text \<open>A sequence of table events, all of which must be accepted.\<close>

fun accept_all :: "nat list \<Rightarrow> if_state \<Rightarrow> if_state option" where
  "accept_all [] s = Some s"
| "accept_all (ev # evs) s =
    (let (ret, s') = SetStateOnEvent ev s in if ERROR ret then None else accept_all evs s')"

text \<open>The same without looking at the results, as the notification code delivers them.\<close>

definition deliver :: "nat list \<Rightarrow> if_state \<Rightarrow> if_state" where
  "deliver evs s = fold (\<lambda>ev t. snd (SetStateOnEvent ev t)) evs s"

lemma deliver_simps [simp]:
  "deliver [] s = s" "deliver (ev # evs) s = deliver evs (snd (SetStateOnEvent ev s))"
  by (simp_all add: deliver_def)

lemma recovery_rows:
  assumes "ev \<notin> {eventModOnline, eventRmtModOnline, eventPortStopping, eventDBusOffline,
    eventRmtSvrOffline, cmdShutdown}"
  shows "map_of m_mapState (stateRecovery, ev) \<in> {None, Some stateRecovery}"
  using assms by (simp add: m_mapState_def)

lemma quiet_in_recovery:
  assumes "ev \<notin> {eventModOnline, eventRmtModOnline, eventPortStopping, eventDBusOffline,
    eventRmtSvrOffline, cmdShutdown}"
  shows "snd (SetStateOnEvent ev (s\<lparr>m_iState := stateRecovery\<rparr>)) = s\<lparr>m_iState := stateRecovery\<rparr>"
  using recovery_rows[OF assms] by (auto simp: SetStateOnEvent_def)

text \<open>How each live state is brought down.\<close>

definition stop_events :: "EnumIfState \<Rightarrow> nat list" where
  "stop_events st =
    (case st of
       stateStarting \<Rightarrow> [eventPortStopping]
     | stateConnected \<Rightarrow> [cmdShutdown, cmdClosePort]
     | stateRecovery \<Rightarrow> [cmdShutdown, cmdClosePort]
     | statePaused \<Rightarrow> [cmdShutdown, cmdClosePort]
     | statePausing \<Rightarrow> [eventPaused, cmdShutdown, cmdClosePort]
     | stateResuming \<Rightarrow> [eventResumed, cmdShutdown, cmdClosePort]
     | stateStopping \<Rightarrow> [cmdClosePort]
     | stateStartFailed \<Rightarrow> [cmdCleanup, cmdClosePort]
     | _ \<Rightarrow> [])"

text \<open>A subscription reports 0 or an error, and the ways through \<^verbatim>\<open>OpenPortInternal\<close>.\<close>

lemma subscribe_loop_ret:
  "subscribe_loop (SubscribeEvent e) xs ret acc cp = (r, acc', cp') \<Longrightarrow> ret \<le> 0 \<Longrightarrow> cp_ok cp \<Longrightarrow> r \<le> 0"
proof (induction xs arbitrary: ret acc cp)
  case (Cons x xs)
  obtain r1 cp1 where x: "SubscribeEvent e x cp = (r1, cp1)" by fastforce
  have "r1 \<le> 0" "cp_ok cp1"
    using Cons.prems(3) x
    by (auto simp: cp_defs Let_def split: sum.splits option.splits if_splits intro: less_imp_le)
  then show ?case using Cons x by (auto split: if_splits)
qed simp

lemma SubscribeEventsInternal_ret:
  assumes "if_inv s" "SubscribeEventsInternal evs s = (ret, s')" shows "ret \<le> 0"
  using assms(2) subscribe_loop_ret[OF _ _ UnsubscribeEvents_maps(1)[OF assms(1)], of _ evs 0 "[]" ret]
  by (auto simp: SubscribeEventsInternal_def Let_def split: prod.splits if_splits)

lemma cfg_only_frame: "cfg_only s t \<Longrightarrow> m_iState t = m_iState s"
  unfolding cfg_only_def by (metis if_state.select_convs(3) if_state.surjective if_state.update_convs(6))

lemma OpenPortInternal_cases:
  assumes "OpenPortInternal cls mgr (Some cb) s = Inr (ret, s')" "m_iState s = stateStarting" "if_inv s"
  obtains (early) "ret \<noteq> 0" "m_iState s' = stateStarting"
  | (failed) t where "ERROR ret" "m_iState t = stateStarting" "s' = snd (SetStateOnEvent eventPortStartFailed t)"
  | (opened) t where "m_iState t = stateStarting" "if_inv t"
      "SubscribeEvents cls mgr (snd (SetStateOnEvent eventPortStarted t)) = (ret, s')"
proof -
  obtain r1 s1 c1 where copy:
    "copy_until_error mgr [propBusName, propPortClass, propPortId] (s, Map.empty) = Inr (r1, s1, c1)"
    using assms by (auto simp: OpenPortInternal_def simp del: copy_until_error.simps split: sum.splits)
  have s1: "m_iState s1 = stateStarting" "if_inv s1"
    using copy_until_error_cfg[OF copy] cfg_only_frame cfg_only_inv assms by auto
  show thesis
  proof (cases "ERROR r1")
    case True
    then show thesis using copy s1 assms early
      by (auto simp: OpenPortInternal_def simp del: copy_until_error.simps)
  next
    case False
    let ?c = "c1(propEventSink \<mapsto> VObj cb, propIfPtr \<mapsto> VObj (m_pInterface s1))"
    obtain r2 s2 c2 where prm: "SetupOpenPortParams cls mgr (s1, ?c) = Inr (r2, s2, c2)"
      using assms copy False
      by (auto simp: OpenPortInternal_def simp del: copy_until_error.simps split: sum.splits)
    have s2: "m_iState s2 = stateStarting" "if_inv s2"
      using SetupOpenPortParams_cfg[OF prm] cfg_only_frame cfg_only_inv s1 by auto
    obtain r3 h where op: "OpenPort mgr c2 (m_hPort s2) = (r3, h)" by fastforce
    let ?t = "s2\<lparr>m_hPort := h\<rparr>"
    have t: "m_iState ?t = stateStarting" "if_inv ?t" using s2 by (simp_all add: if_inv_irrelevant)
    have started: "\<not> ERROR (fst (SetStateOnEvent eventPortStarted ?t))"
      using t by (simp add: SetStateOnEvent_def ifs_simps)
    have res: "(ret, s') = (if ERROR r2 then (r2, s2) else if r3 = STATUS_PENDING then (r3, ?t)
      else if r3 = 0 then SubscribeEvents cls mgr (snd (SetStateOnEvent eventPortStarted ?t))
      else if ERROR r3 then (r3, snd (SetStateOnEvent eventPortStartFailed ?t)) else (r3, ?t))"
      using assms copy False prm op started
      by (auto simp: OpenPortInternal_def simp del: copy_until_error.simps split: if_splits prod.splits)
    show thesis
      using res s2 t early failed[of ?t] opened[of ?t] by (auto split: if_splits)
  qed
qed

section \<open>Properties\<close>

text \<open>C8. In every reachable state of an interface, whatever the order of port, module,
  bus and administration events, of opening, closing and subscribing, and of the
  subscriptions of others: the state is never invalid or unknown, an interface in recovery
  will return to connected or paused, and each event map counts the interface exactly as
  often as its topic list names the connection point, so nothing is left subscribed that
  the interface does not know of.\<close>

theorem if_reachable_wf:
  assumes "if_reachable cls mgr s"
  shows "m_iState s \<notin> {stateStarted, stateUnknown, stateInvalid, stateIoDone} \<and>
    (m_iState s = stateRecovery \<longrightarrow> m_iResumeState s \<in> {stateConnected, statePaused}) \<and>
    subs_of (m_mapConnPts s) (m_pInterface s) k = count_list (m_vecTopicList s) k"
  using if_reachable_if_inv[OF assms] by (auto simp: if_inv_def)

text \<open>A manager for the witnesses: ports 7 and 8 exist, opening gives port 7, and the
  reference to port 8 cannot be taken.\<close>

definition sample_mgr :: io_mgr where
  "sample_mgr =
    \<lparr>OpenPortByRef = (\<lambda>h. if h = 8 then - ENOMEM else 0), OpenPort = (\<lambda>c h. (0, 7)),
     io_ClosePort = (\<lambda>h. 0), GetPortPtr = (\<lambda>h. if h \<in> {7, 8} then 0 else - ENOENT),
     PortProps = (\<lambda>h. [propPortClass \<mapsto> VStr ''DBusProxyPdo'']), GetPdoPort = (\<lambda>h. 0),
     PdoProps = (\<lambda>h. [propConnHandle \<mapsto> VInt 3, propConnParams \<mapsto> VObj 4, propRouterPath \<mapsto> VStr ''/'']),
     GetRouterName = ''rpcrouter'', HasBuiltinRt = False, NoDBusConn = False, RouterRole = 1\<rparr>"

definition sample_cfg :: cfg where
  "sample_cfg = [propBusName \<mapsto> VStr ''DBusBusPort_0'', propPortClass \<mapsto> VStr ''DBusProxyPdo'',
    propPortId \<mapsto> VInt 0, propDestDBusName \<mapsto> VStr ''org.rpcf.srv'',
    propIoMgr \<mapsto> VObj 1, propIfPtr \<mapsto> VObj 5]"

definition sample_cps :: conn_points where
  "sample_cps = (\<lambda>k. if k = propRmtSvrEvent then Inl (- ENOENT) else Inr [9 \<mapsto> 1])"

definition sample_if :: if_state where
  "sample_if =
    \<lparr>m_pInterface = 5, m_hPort = INVALID_HANDLE, m_iState = stateStopped,
     m_iResumeState = stateInvalid, m_vecTopicList = [],
     m_pIfCfgDb = sample_cfg(propIoMgr := None, propIfPtr := None), m_mapConnPts = sample_cps\<rparr>"

lemma sample_if_reachable: "if_reachable cls mgr sample_if"
proof (rule r_init)
  show "CInterfaceState_init (Some sample_cfg) sample_cps = Inr sample_if"
    by (simp add: CInterfaceState_init_def sample_if_def) (simp add: sample_cfg_def)
qed (simp_all add: cp_ok_def subs_of_def sample_cps_def sample_if_def)

lemma sample_starting: "if_reachable cls mgr (sample_if\<lparr>m_iState := stateStarting\<rparr>)"
proof -
  have "snd (SetStateOnEvent cmdOpenPort sample_if) = sample_if\<lparr>m_iState := stateStarting\<rparr>"
    by (simp add: SetStateOnEvent_def sample_if_def ifs_simps)
  then show ?thesis using st_event r_step sample_if_reachable by metis
qed

theorem if_reachable_wf_witness:
  "m_iState (sample_if\<lparr>m_iState := stateStarting\<rparr>) \<notin> {stateStarted, stateUnknown, stateInvalid, stateIoDone} \<and>
   subs_of (m_mapConnPts sample_if) (m_pInterface sample_if) propAdminEvent = count_list [] propAdminEvent"
  using if_reachable_wf[OF sample_starting[of CLocalProxyState sample_mgr]]
    if_reachable_wf[OF sample_if_reachable[of CLocalProxyState sample_mgr], of propAdminEvent]
  by (simp add: sample_if_def)

text \<open>C21. Subscribing is all or nothing. If every connection point accepts, the interface
  is counted at exactly the requested topics and remembers them; if one refuses, it is
  counted nowhere and remembers none, in particular the subscriptions made before the
  refusal and those of an earlier call are taken back. No other sink is affected.\<close>

theorem subscribe_all_or_nothing:
  assumes "if_reachable cls mgr s" "SubscribeEventsInternal evs s = (ret, s')"
  shows "m_vecTopicList s' = (if ERROR ret then [] else evs) \<and>
    subs_of (m_mapConnPts s') (m_pInterface s) k = (if ERROR ret then 0 else count_list evs k) \<and>
    (e \<noteq> m_pInterface s \<longrightarrow> subs_of (m_mapConnPts s') e k = subs_of (m_mapConnPts s) e k)"
  using SubscribeEventsInternal_spec[OF if_reachable_if_inv[OF assms(1)] assms(2)] by auto

theorem subscribe_all_or_nothing_witness:
  "\<exists>s'. SubscribeEventsInternal [propAdminEvent, propRmtSvrEvent] sample_if = (- ENOENT, s') \<and>
    m_vecTopicList s' = [] \<and> subs_of (m_mapConnPts s') 5 propAdminEvent = 0 \<and>
    subs_of (m_mapConnPts s') 9 propAdminEvent = 1"
proof -
  obtain s' where s': "SubscribeEventsInternal [propAdminEvent, propRmtSvrEvent] sample_if = (- ENOENT, s')"
    by (simp add: SubscribeEventsInternal_def UnsubscribeEvents_def Let_def sample_if_def
        SubscribeEvent_def sample_cps_def CStlEventMap_SubscribeEvent_def)
  note r = subscribe_all_or_nothing[OF sample_if_reachable[of CLocalProxyState sample_mgr] s']
  from s' r[of propAdminEvent 9] show ?thesis
    by (simp add: sample_if_def subs_of_def sample_cps_def)
qed

text \<open>C22. A peer that goes away and comes back does not disturb the interface: from
  connected or paused, the offline event enters recovery, and after any sequence of further
  events other than the online events and those that stop the interface, the online event
  restores exactly the state before.\<close>

theorem recovery_resumes:
  assumes st: "m_iState s = stateConnected \<or> m_iState s = statePaused"
    and off: "ev \<in> {eventModOffline, eventRmtModOffline}"
    and on: "ev' \<in> {eventModOnline, eventRmtModOnline}"
    and quiet: "set evs \<inter> {eventModOnline, eventRmtModOnline, eventPortStopping, eventDBusOffline,
      eventRmtSvrOffline, cmdShutdown} = {}"
  shows "SetStateOnEvent ev' (deliver evs (snd (SetStateOnEvent ev s))) =
    (0, s\<lparr>m_iResumeState := m_iState s\<rparr>)"
proof -
  let ?r = "s\<lparr>m_iResumeState := m_iState s, m_iState := stateRecovery\<rparr>"
  have "snd (SetStateOnEvent ev s) = ?r"
    using st off by (auto simp: SetStateOnEvent_def ifs_simps)
  moreover have "deliver evs ?r = ?r" using quiet
    by (induction evs) (auto simp: quiet_in_recovery)
  ultimately show ?thesis using on by (auto simp: SetStateOnEvent_def ifs_simps)
qed

theorem recovery_resumes_witness:
  "SetStateOnEvent eventModOnline
     (deliver [cmdEnableEvent, eventPaused, eventModOffline]
       (snd (SetStateOnEvent eventRmtModOffline (sample_if\<lparr>m_iState := statePaused\<rparr>))))
   = (0, sample_if\<lparr>m_iState := statePaused, m_iResumeState := statePaused\<rparr>)"
  using recovery_resumes[of "sample_if\<lparr>m_iState := statePaused\<rparr>" eventRmtModOffline eventModOnline
    "[cmdEnableEvent, eventPaused, eventModOffline]"] by simp

text \<open>C32. An interface can always be brought down: from every reachable state some
  sequence of at most three events, each accepted by the table, leads to stopped.\<close>

theorem stop_always_possible:
  assumes "if_reachable cls mgr s"
  shows "\<exists>evs s'. length evs \<le> 3 \<and> accept_all evs s = Some s' \<and> m_iState s' = stateStopped"
proof -
  have lib: "accept_all (stop_events (m_iState s)) s = Some (s\<lparr>m_iState := stateStopped\<rparr>) \<and>
      length (stop_events (m_iState s)) \<le> 3"
    using if_reachable_if_inv[OF assms]
    by (cases "m_iState s") (simp_all add: if_inv_def stop_events_def SetStateOnEvent_def ifs_simps)
  then show ?thesis by (intro exI[of _ "stop_events (m_iState s)"]) auto
qed

theorem stop_always_possible_witness:
  "\<exists>evs s'. length evs \<le> 3 \<and> accept_all evs (sample_if\<lparr>m_iState := stateStarting\<rparr>) = Some s' \<and>
    m_iState s' = stateStopped"
  by (rule stop_always_possible[OF sample_starting[of CLocalProxyState sample_mgr]])

text \<open>When the port reports that it has started but no reference to it can be taken,
  the handler of the event reports success: the error code of \<^verbatim>\<open>OpenPortByRef\<close> is replaced by the
  status of the transition to \<open>stateStartFailed\<close>. The handle of the port is not kept and nothing is
  subscribed.\<close>

lemma open_by_ref_error_lost:
  assumes "m_iState s = stateStarting" "hPort \<noteq> INVALID_HANDLE" "ERROR (OpenPortByRef mgr hPort)"
  shows "CInterfaceState_OnPortEvent cls mgr eventPortStarted hPort s =
    Inr (0, s\<lparr>m_iState := stateStartFailed\<rparr>)"
  using assms by (simp add: CInterfaceState_OnPortEvent_def TestSetState_def SetStateOnEvent_def ifs_simps)

text \<open>Opening the port decides the state. A successful \<^verbatim>\<open>OpenPortInternal\<close> leaves the
  interface connected with exactly the topics of its class, one that is pending leaves it
  starting, and one that fails leaves it starting, with a failed start, or connected without
  any topic when only the subscription failed. No call leads anywhere else.\<close>

lemma open_port_outcome:
  assumes "if_reachable cls mgr s" "m_iState s = stateStarting"
    "OpenPortInternal cls mgr cb s = Inr (ret, s')"
  shows "(ret = 0 \<longrightarrow> m_iState s' = stateConnected \<and>
        (case vecEvtToSubscribe cls mgr of None \<Rightarrow> True | Some evts \<Rightarrow> m_vecTopicList s' = evts)) \<and>
    (ret = STATUS_PENDING \<longrightarrow> m_iState s' = stateStarting) \<and>
    (ERROR ret \<longrightarrow> m_iState s' \<in> {stateStarting, stateStartFailed} \<or>
        m_iState s' = stateConnected \<and> m_vecTopicList s' = [])"
proof (cases cb)
  case None
  then show ?thesis using assms by (simp add: OpenPortInternal_def)
next
  case (Some c)
  note inv = if_reachable_if_inv[OF assms(1)]
  from assms(3)[unfolded Some] assms(2) inv show ?thesis
  proof (cases rule: OpenPortInternal_cases)
    case early then show ?thesis by simp
  next
    case failed then show ?thesis by (simp add: SetStateOnEvent_def ifs_simps)
  next
    case (opened t)
    have sub: "SubscribeEvents cls mgr (t\<lparr>m_iState := stateConnected\<rparr>) = (ret, s')"
      using opened by (simp add: SetStateOnEvent_def ifs_simps)
    have inv': "if_inv (t\<lparr>m_iState := stateConnected\<rparr>)" using opened by (simp add: if_inv_def)
    show ?thesis
    proof (cases "vecEvtToSubscribe cls mgr")
      case None
      then show ?thesis using sub by (auto simp: SubscribeEvents_def)
    next
      case (Some evts)
      with sub have "SubscribeEventsInternal evts (t\<lparr>m_iState := stateConnected\<rparr>) = (ret, s')"
        by (simp add: SubscribeEvents_def)
      from SubscribeEventsInternal_spec(2,4)[OF inv' this] SubscribeEventsInternal_ret[OF inv' this] Some
      show ?thesis by auto
    qed
  qed
qed

end
