(* ===== verification/BlkAddr.thy ===== *)
theory BlkAddr
  imports Prelude
begin

unbundle bit_operations_syntax

text \<open>
  Geometry and addresses of the registry file system (\<^verbatim>\<open>monitor/registry/blkalloc.h\<close> and the
  first part of \<^verbatim>\<open>blkalloc.cpp\<close>): the checks on block and page size, the macros that turn the
  block index of an inode into a byte offset of the image, and the super block with its
  coding. The macros are evaluated in C++ in \<^verbatim>\<open>guint32\<close>, so they are functions on \<open>32 word\<close> here;
  their result is widened to \<^verbatim>\<open>guint64\<close> only when it is passed to \<^verbatim>\<open>ReadWriteFile\<close>.
\<close>

section \<open>Sizes\<close>

text \<open>The two global variables.\<close>

record geom =
  g_dwBlockSize :: "32 word"
  g_dwRegFsPageSize :: "32 word"

definition default_geom :: geom where
  "default_geom = \<lparr>g_dwBlockSize = 512, g_dwRegFsPageSize = 4096\<rparr>"

text \<open>\<^verbatim>\<open>find_shift( x )\<close> is \<^verbatim>\<open>ffs( x ) - 1\<close>, the index of the lowest set bit; for 0 it is -1,
  which is stored in a \<^verbatim>\<open>guint32\<close>.\<close>

definition find_shift :: "32 word \<Rightarrow> nat" where
  "find_shift x = (case find (bit x) [0..<32] of None \<Rightarrow> 4294967295 | Some n \<Rightarrow> n)"

definition IsValidBlockSize :: "32 word \<Rightarrow> gint32" where
  "IsValidBlockSize dwSize =
    (if dwSize \<noteq> 512 \<and> dwSize \<noteq> 1024 \<and> dwSize \<noteq> 2048 \<and> dwSize \<noteq> 4096 then - EINVAL
     else STATUS_SUCCESS)"

definition SetBlockSize :: "32 word \<Rightarrow> geom \<Rightarrow> gint32 \<times> geom" where
  "SetBlockSize dwSize g =
    (let ret = IsValidBlockSize dwSize in
     if ERROR ret then (ret, g) else (STATUS_SUCCESS, g\<lparr>g_dwBlockSize := dwSize\<rparr>))"

definition IsValidPageSize :: "32 word \<Rightarrow> geom \<Rightarrow> gint32" where
  "IsValidPageSize dwSize g =
    (let dwShift = find_shift dwSize in
     if dwShift \<le> find_shift (g_dwBlockSize g) \<or> dwShift > 16 then - EINVAL
     else STATUS_SUCCESS)"

definition SetPageSize :: "32 word \<Rightarrow> geom \<Rightarrow> gint32 \<times> geom" where
  "SetPageSize dwSize g =
    (let ret = IsValidPageSize dwSize g in
     if ERROR ret then (ret, g) else (STATUS_SUCCESS, g\<lparr>g_dwRegFsPageSize := dwSize\<rparr>))"

abbreviation (input) BLOCKS_PER_GROUP_FULL :: nat where "BLOCKS_PER_GROUP_FULL \<equiv> 65536"
abbreviation (input) BLOCKS_PER_GROUP :: nat where "BLOCKS_PER_GROUP \<equiv> 65520"
abbreviation (input) BLKBMP_SIZE :: nat where "BLKBMP_SIZE \<equiv> 8192"
abbreviation (input) GROUP_INDEX_SHIFT :: nat where "GROUP_INDEX_SHIFT \<equiv> 16"
abbreviation (input) INVALID_BLOCK_IDX :: nat where "INVALID_BLOCK_IDX \<equiv> 65535"

definition BLKBMP_BLKNUM :: "geom \<Rightarrow> nat" where
  "BLKBMP_BLKNUM g = BLOCKS_PER_GROUP_FULL div (unat (g_dwBlockSize g) * 8)"

definition BLKGRP_NUMBER :: "geom \<Rightarrow> nat" where
  "BLKGRP_NUMBER g = 2 ^ find_shift (g_dwRegFsPageSize g) - 16"

definition GRPBMP_SIZE :: "geom \<Rightarrow> nat" where
  "GRPBMP_SIZE g = 2 ^ find_shift (g_dwRegFsPageSize g) div 8"

section \<open>Addresses\<close>

definition GROUP_SIZE :: "geom \<Rightarrow> 32 word" where
  "GROUP_SIZE g = 65536 * g_dwBlockSize g"

definition GROUP_IDX_MASK :: "geom \<Rightarrow> 32 word" where
  "GROUP_IDX_MASK g = push_bit (find_shift (g_dwRegFsPageSize g)) 1 - 1"

definition GROUP_INDEX :: "geom \<Rightarrow> 32 word \<Rightarrow> 32 word" where
  "GROUP_INDEX g blk_idx = drop_bit GROUP_INDEX_SHIFT blk_idx AND GROUP_IDX_MASK g"

definition GROUP_START :: "geom \<Rightarrow> 32 word \<Rightarrow> 32 word" where
  "GROUP_START g blk_idx = GROUP_INDEX g blk_idx * GROUP_SIZE g"

definition BLOCK_INDEX :: "32 word \<Rightarrow> 32 word" where
  "BLOCK_INDEX blk_idx = blk_idx AND 65535"

definition BLOCK_LA :: "geom \<Rightarrow> 32 word \<Rightarrow> 32 word" where
  "BLOCK_LA g blk_idx = GROUP_START g blk_idx + BLOCK_INDEX blk_idx * g_dwBlockSize g"

definition ABS_ADDR :: "geom \<Rightarrow> 32 word \<Rightarrow> 32 word" where
  "ABS_ADDR g la = la + g_dwBlockSize g + of_nat (GRPBMP_SIZE g)"

definition BLOCK_ABS :: "geom \<Rightarrow> 32 word \<Rightarrow> 32 word" where
  "BLOCK_ABS g blk_idx = ABS_ADDR g (BLOCK_LA g blk_idx)"

definition BLKIDX_BEYOND_MAX :: "geom \<Rightarrow> 32 word \<Rightarrow> bool" where
  "BLKIDX_BEYOND_MAX g blkidx \<longleftrightarrow>
    unat blkidx \<ge> 2 ^ find_shift (g_dwRegFsPageSize g) * BLOCKS_PER_GROUP_FULL"

section \<open>Super block\<close>

record super_block =
  m_dwMagic :: "byte list"
  m_dwVersion :: "32 word"
  m_dwBlkSize :: "32 word"
  m_dwPageSize :: "32 word"

text \<open>A \<^verbatim>\<open>guint32\<close> in network byte order and back (\<^verbatim>\<open>htonl\<close> and \<^verbatim>\<open>ntohl\<close> on the memory).\<close>

definition htonl_bytes :: "32 word \<Rightarrow> byte list" where
  "htonl_bytes w = map (\<lambda>k. ucast (drop_bit k w)) [24, 16, 8, 0]"

definition ntohl_bytes :: "byte list \<Rightarrow> 32 word" where
  "ntohl_bytes p = push_bit 24 (ucast (p ! 0)) OR push_bit 16 (ucast (p ! 1)) OR
    push_bit 8 (ucast (p ! 2)) OR ucast (p ! 3)"

text \<open>\<^verbatim>\<open>CSuperBlock::Flush\<close> builds the block of \<^verbatim>\<open>SUPER_BLOCK_SIZE\<close> bytes that it hands to
  \<^verbatim>\<open>SaveSuperBlock\<close>.\<close>

definition CSuperBlock_Flush :: "geom \<Rightarrow> super_block \<Rightarrow> byte list" where
  "CSuperBlock_Flush g sb =
    (let arrSb = m_dwMagic sb @ htonl_bytes (m_dwVersion sb) @ htonl_bytes (m_dwBlkSize sb) @
       htonl_bytes (m_dwPageSize sb) in
     arrSb @ replicate (unat (g_dwBlockSize g) - 16) 0)"

definition CSuperBlock_Format :: "geom \<Rightarrow> super_block \<Rightarrow> gint32 \<times> geom" where
  "CSuperBlock_Format g sb =
    (0, snd (SetPageSize (m_dwPageSize sb) (snd (SetBlockSize (m_dwBlkSize sb) g))))"

definition regi :: "byte list" where "regi = [0x72, 0x65, 0x67, 0x69]"

text \<open>\<^verbatim>\<open>CSuperBlock::Reload\<close> on the bytes that \<^verbatim>\<open>LoadSuperBlock\<close> delivered with status \<open>ret\<close>.
  The members assigned before a failing check keep the new values.\<close>

definition CSuperBlock_Reload ::
  "gint32 \<Rightarrow> byte list \<Rightarrow> geom \<Rightarrow> super_block \<Rightarrow> gint32 \<times> geom \<times> super_block" where
  "CSuperBlock_Reload ret arrSb g sb =
    (if ERROR ret then (ret, g, sb)
     else if take 4 arrSb \<noteq> regi then (- EINVAL, g, sb)
     else
       let sb1 = sb\<lparr>m_dwVersion := ntohl_bytes (take 4 (drop 4 arrSb))\<rparr> in
       if m_dwVersion sb1 \<noteq> 1 then (- ENOTSUP, g, sb1)
       else
         let dwBlkSize = ntohl_bytes (take 4 (drop 8 arrSb));
             (ret1, g1) = SetBlockSize dwBlkSize g in
         if ERROR ret1 then (ret1, g1, sb1)
         else
           let sb2 = sb1\<lparr>m_dwBlkSize := dwBlkSize\<rparr>;
               dwPageSize = ntohl_bytes (take 4 (drop 12 arrSb));
               (ret2, g2) = SetPageSize dwPageSize g1 in
           if ERROR ret2 then (ret2, g2, sb2)
           else (ret2, g2, sb2\<lparr>m_dwPageSize := dwPageSize\<rparr>))"

section \<open>Lemmas\<close>

lemma htonl_ntohl [simp]: "ntohl_bytes (htonl_bytes w) = w"
proof (rule bit_word_eqI)
  fix n assume "n < LENGTH(32)"
  then consider "n < 8" | "8 \<le> n" "n < 16" | "16 \<le> n" "n < 24" | "24 \<le> n" "n < 32" by fastforce
  then show "bit (ntohl_bytes (htonl_bytes w)) n = bit w n"
    by cases (auto simp: ntohl_bytes_def htonl_bytes_def bit_simps)
qed

lemma length_htonl_bytes [simp]: "length (htonl_bytes w) = 4"
  by (simp add: htonl_bytes_def)

lemma group_mask_eq: "GROUP_IDX_MASK g = mask (find_shift (g_dwRegFsPageSize g))"
  by (simp add: GROUP_IDX_MASK_def mask_eq_exp_minus_1 push_bit_eq_mult)

text \<open>As long as the index stays below the number of groups, the group and block parts of an
  index put together are the index again, so an address is linear in it, modulo \<open>2^32\<close>.\<close>

lemma GROUP_INDEX_eq:
  assumes "unat i < 2 ^ find_shift (g_dwRegFsPageSize g) * 65536"
  shows "GROUP_INDEX g i = drop_bit 16 i" and "unat (GROUP_INDEX g i) = unat i div 65536"
proof -
  let ?k = "find_shift (g_dwRegFsPageSize g)"
  have d: "unat (drop_bit 16 i :: 32 word) = unat i div 65536"
    by (simp add: drop_bit_eq_div unat_div)
  then have "unat (drop_bit 16 i :: 32 word) < 2 ^ ?k"
    using assms by (simp add: less_mult_imp_div_less)
  then have "take_bit ?k (drop_bit 16 i :: 32 word) = drop_bit 16 i"
    by (simp only: word_unat_eq_iff unsigned_take_bit_eq take_bit_nat_eq_self)
  then show "GROUP_INDEX g i = drop_bit 16 i"
    by (simp add: GROUP_INDEX_def group_mask_eq take_bit_eq_mask)
  with d show "unat (GROUP_INDEX g i) = unat i div 65536" by simp
qed

lemma BLOCK_ABS_linear:
  assumes "unat i < 2 ^ find_shift (g_dwRegFsPageSize g) * 65536"
  shows "BLOCK_ABS g i = i * g_dwBlockSize g + g_dwBlockSize g + of_nat (GRPBMP_SIZE g)"
proof -
  have "(65535 :: 32 word) = mask 16" by (simp add: mask_eq_exp_minus_1)
  then have blk: "BLOCK_INDEX i = take_bit 16 i" by (simp add: BLOCK_INDEX_def take_bit_eq_mask)
  have "drop_bit 16 i * 65536 + take_bit 16 i = i"
    using bits_ident[of 16 i] by (simp add: push_bit_eq_mult mult.commute)
  then have "BLOCK_LA g i = i * g_dwBlockSize g"
    unfolding BLOCK_LA_def GROUP_START_def GROUP_SIZE_def GROUP_INDEX_eq(1)[OF assms] blk
    by (metis (no_types, lifting) distrib_right mult.assoc)
  then show ?thesis by (simp add: BLOCK_ABS_def ABS_ADDR_def)
qed

lemma find_shift_default: "find_shift 4096 = 12" "find_shift 512 = 9"
  by (simp_all add: find_shift_def upt_rec bit_numeral_rec)

section \<open>Properties\<close>

text \<open>C36. The layout of the image is what the header draws, as long as the byte offset fits
  into 32 bits: super block, group bitmap, then the blocks one after the other in the order
  of their indices, for every block size and page size.\<close>

theorem block_abs_layout:
  assumes "\<not> BLKIDX_BEYOND_MAX g i"
    "(unat i + 1) * unat (g_dwBlockSize g) + GRPBMP_SIZE g < 2 ^ 32"
  shows "unat (BLOCK_ABS g i) =
    unat (g_dwBlockSize g) + GRPBMP_SIZE g + unat i * unat (g_dwBlockSize g)"
proof -
  let ?n = "unat (g_dwBlockSize g) + GRPBMP_SIZE g + unat i * unat (g_dwBlockSize g)"
  have "BLOCK_ABS g i = of_nat ?n"
    using assms(1) by (subst BLOCK_ABS_linear) (simp_all add: BLKIDX_BEYOND_MAX_def)
  moreover have "?n < 2 ^ 32" using assms(2) unfolding distrib_right by linarith
  ultimately show ?thesis by (simp add: unat_of_nat del: of_nat_add of_nat_mult)
qed

theorem block_abs_layout_witness: "unat (BLOCK_ABS default_geom 65552) = 33563648"
  using block_abs_layout[of default_geom 65552]
  by (simp add: BLKIDX_BEYOND_MAX_def default_geom_def GRPBMP_SIZE_def find_shift_default)

text \<open>With the default sizes two valid block indices that lie 128 groups apart have the
  same offset in the image: the product in \<^verbatim>\<open>GROUP_START\<close> is a 32-bit product, although the
  image has room for 4080 groups. Writing a block of group 128 overwrites group 0.\<close>

lemma block_abs_aliases:
  assumes "unat i < 3952 * 65536"
  shows "\<not> BLKIDX_BEYOND_MAX default_geom i \<and> \<not> BLKIDX_BEYOND_MAX default_geom (i + 128 * 65536) \<and>
    unat (GROUP_INDEX default_geom (i + 128 * 65536)) = unat (GROUP_INDEX default_geom i) + 128 \<and>
    BLOCK_ABS default_geom (i + 128 * 65536) = BLOCK_ABS default_geom i"
proof -
  let ?j = "i + 128 * 65536"
  have j: "unat ?j = unat i + 128 * 65536"
    using assms by (subst unat_add_lem[THEN iffD1]) simp_all
  have valid: "\<not> BLKIDX_BEYOND_MAX default_geom i" "\<not> BLKIDX_BEYOND_MAX default_geom ?j"
    using assms j by (simp_all add: BLKIDX_BEYOND_MAX_def default_geom_def find_shift_default)
  then have lin: "unat i < 2 ^ find_shift (g_dwRegFsPageSize default_geom) * 65536"
    "unat ?j < 2 ^ find_shift (g_dwRegFsPageSize default_geom) * 65536"
    by (simp_all add: BLKIDX_BEYOND_MAX_def)
  have "?j * 512 = i * 512" by (simp add: distrib_right)
  then have "BLOCK_ABS default_geom ?j = BLOCK_ABS default_geom i"
    unfolding BLOCK_ABS_linear[OF lin(1)] BLOCK_ABS_linear[OF lin(2)] by (simp add: default_geom_def)
  moreover have "unat (GROUP_INDEX default_geom ?j) = unat (GROUP_INDEX default_geom i) + 128"
    unfolding GROUP_INDEX_eq(2)[OF lin(1)] GROUP_INDEX_eq(2)[OF lin(2)] j by simp
  ultimately show ?thesis using valid by blast
qed

text \<open>The super block survives a round trip: what \<^verbatim>\<open>Flush\<close> writes, \<^verbatim>\<open>Reload\<close> accepts,
  whatever sizes were in force before, and it restores version, block size and page size
  and makes these sizes the current ones.\<close>

lemma super_block_roundtrip:
  assumes "m_dwMagic sb = regi" "m_dwVersion sb = 1" "\<not> ERROR (IsValidBlockSize (m_dwBlkSize sb))"
    "\<not> ERROR (IsValidPageSize (m_dwPageSize sb) (g'\<lparr>g_dwBlockSize := m_dwBlkSize sb\<rparr>))" "\<not> ERROR ret"
  shows "CSuperBlock_Reload ret (CSuperBlock_Flush g sb) g' sb' =
    (0, \<lparr>g_dwBlockSize = m_dwBlkSize sb, g_dwRegFsPageSize = m_dwPageSize sb\<rparr>,
     sb\<lparr>m_dwMagic := m_dwMagic sb'\<rparr>)"
proof -
  have len: "length (m_dwMagic sb) = 4" using assms by (simp add: regi_def)
  have parts: "take 4 (CSuperBlock_Flush g sb) = regi"
    "take 4 (drop 4 (CSuperBlock_Flush g sb)) = htonl_bytes (m_dwVersion sb)"
    "take 4 (drop 8 (CSuperBlock_Flush g sb)) = htonl_bytes (m_dwBlkSize sb)"
    "take 4 (drop 12 (CSuperBlock_Flush g sb)) = htonl_bytes (m_dwPageSize sb)"
    using assms(1) len by (simp_all add: CSuperBlock_Flush_def)
  have set: "SetBlockSize (m_dwBlkSize sb) g' = (0, g'\<lparr>g_dwBlockSize := m_dwBlkSize sb\<rparr>)"
    "SetPageSize (m_dwPageSize sb) (g'\<lparr>g_dwBlockSize := m_dwBlkSize sb\<rparr>) =
      (0, \<lparr>g_dwBlockSize = m_dwBlkSize sb, g_dwRegFsPageSize = m_dwPageSize sb\<rparr>)"
    using assms(3,4) by (simp_all add: SetBlockSize_def SetPageSize_def Let_def)
  have "CSuperBlock_Reload ret (CSuperBlock_Flush g sb) g' sb' =
    (0, \<lparr>g_dwBlockSize = m_dwBlkSize sb, g_dwRegFsPageSize = m_dwPageSize sb\<rparr>,
     sb'\<lparr>m_dwVersion := 1, m_dwBlkSize := m_dwBlkSize sb, m_dwPageSize := m_dwPageSize sb\<rparr>)"
    using assms(2,5) by (simp add: CSuperBlock_Reload_def parts set Let_def)
  then show ?thesis using assms(2) by (cases sb; cases sb') simp
qed

definition sample_sb :: super_block where
  "sample_sb = \<lparr>m_dwMagic = regi, m_dwVersion = 1, m_dwBlkSize = 4096, m_dwPageSize = 8192\<rparr>"

end
