(* ===== verification/BlkBitmap.thy ===== *)
theory BlkBitmap
  imports BlkAddr
begin

unbundle bit_operations_syntax

text \<open>
  The two bitmaps of the registry file system (\<^verbatim>\<open>CGroupBitmap\<close> and \<^verbatim>\<open>CBlockBitmap\<close> of
  \<^verbatim>\<open>monitor/registry/blkalloc.cpp\<close>): which groups of blocks are in use, and which blocks of a
  group. Both are arrays of bytes whose last two bytes hold the number of free entries in
  network byte order, scanned eight bytes (\<^verbatim>\<open>sizeof( LONGWORD )\<close>) at a time.

  The bitmaps are saved through the allocator. An operation of the model therefore returns
  what it hands to \<^verbatim>\<open>SaveGroupBitmap\<close> or \<^verbatim>\<open>WriteBlock\<close>, in the order of the calls. The buffers
  that the source takes as pointers are never null here.
\<close>

section \<open>Data\<close>

record bitmap =
  m_arrBytes :: "byte list"
  m_wFreeCount :: nat

record blk_bitmap = bitmap +
  m_dwGroupIdx :: nat

text \<open>\<^verbatim>\<open>htons\<close> and \<^verbatim>\<open>ntohs\<close> on the last two bytes of a buffer of \<open>sz\<close> bytes.\<close>

definition put_count :: "nat \<Rightarrow> nat \<Rightarrow> byte list \<Rightarrow> byte list" where
  "put_count sz n bs = bs[sz - 2 := of_nat (n div 256), sz - 1 := of_nat n]"

definition get_count :: "nat \<Rightarrow> byte list \<Rightarrow> nat" where
  "get_count sz bs = unat (bs ! (sz - 2)) * 256 + unat (bs ! (sz - 1))"

text \<open>The bit masks \<^verbatim>\<open>a |= bit\<close> and \<^verbatim>\<open>*a &= ( ~bit )\<close> with \<^verbatim>\<open>bit = 1 << k\<close>.\<close>

definition set_in :: "byte list \<Rightarrow> nat \<Rightarrow> nat \<Rightarrow> byte list" where
  "set_in bs j k = bs[j := bs ! j OR push_bit k 1]"

definition clear_in :: "byte list \<Rightarrow> nat \<Rightarrow> nat \<Rightarrow> byte list" where
  "clear_in bs j k = bs[j := bs ! j AND NOT (push_bit k 1)]"

section \<open>Group bitmap\<close>

definition CGroupBitmap_Flush :: "geom \<Rightarrow> bitmap \<Rightarrow> bitmap \<times> byte list" where
  "CGroupBitmap_Flush g b =
    (let bs = put_count (GRPBMP_SIZE g) (m_wFreeCount b) (m_arrBytes b) in
     (b\<lparr>m_arrBytes := bs\<rparr>, take (GRPBMP_SIZE g) bs))"

definition FreeGroup :: "geom \<Rightarrow> nat \<Rightarrow> bitmap \<Rightarrow> gint32 \<times> bitmap \<times> byte list list" where
  "FreeGroup g dwGrpIdx b =
    (if m_wFreeCount b = BLKGRP_NUMBER g then (0, b, [])
     else if dwGrpIdx \<ge> BLKGRP_NUMBER g then (- EINVAL, b, [])
     else let dwByteIdx = dwGrpIdx div 8; dwOffset = dwGrpIdx mod 8 in
       if m_arrBytes b ! dwByteIdx = 0 then (0, b, [])
       else
         let (b', img) = CGroupBitmap_Flush g
               (b\<lparr>m_arrBytes := clear_in (m_arrBytes b) dwByteIdx dwOffset,
                  m_wFreeCount := (m_wFreeCount b + 1) mod 65536\<rparr>) in
         (0, b', [img]))"

text \<open>The search of \<^verbatim>\<open>AllocGroup\<close>. A word of eight full bytes is skipped; in another word the
  first byte that is not full gives its first zero bit, and the loop ends. The last word is
  searched without its two count bytes.\<close>

definition word_full :: "byte list \<Rightarrow> nat \<Rightarrow> bool" where
  "word_full bs i = list_all (\<lambda>a. a = 255) (take 8 (drop (i * 8) bs))"

fun alloc_group_loop :: "nat \<Rightarrow> nat list \<Rightarrow> byte list \<Rightarrow> (nat \<times> byte list) option" where
  "alloc_group_loop dwCount [] bs = None"
| "alloc_group_loop dwCount (i # is) bs =
    (if i < dwCount - 1 then
       if word_full bs i then alloc_group_loop dwCount is bs
       else case find (\<lambda>j. bs ! j \<noteq> 255) [i * 8..<i * 8 + 8] of
         None \<Rightarrow> None
       | Some j \<Rightarrow>
           (case find (\<lambda>k. \<not> bit (bs ! j) k) [0..<8] of
              None \<Rightarrow> None
            | Some k \<Rightarrow> Some (j * 8 + k, set_in bs j k))
     else case find (\<lambda>j. bs ! j \<noteq> 255) [i * 8..<i * 8 + 6] of
       None \<Rightarrow> None
     | Some j \<Rightarrow>
         (case find (\<lambda>k. \<not> bit (bs ! j) k) [0..<8] of
            None \<Rightarrow> alloc_group_loop dwCount is bs
          | Some k \<Rightarrow> Some (j * 8 + k, set_in bs j k)))"

definition AllocGroup :: "geom \<Rightarrow> bitmap \<Rightarrow> gint32 \<times> nat option \<times> bitmap \<times> byte list list" where
  "AllocGroup g b =
    (if m_wFreeCount b = 0 then (- ENOMEM, None, b, [])
     else let dwCount = GRPBMP_SIZE g div 8 in
       case alloc_group_loop dwCount [0..<dwCount] (m_arrBytes b) of
         None \<Rightarrow> (- ENOMEM, None, b, [])
       | Some (dwGrpIdx, bs) \<Rightarrow>
           (let (b', img) = CGroupBitmap_Flush g
                  (b\<lparr>m_arrBytes := bs, m_wFreeCount := m_wFreeCount b - 1\<rparr>) in
            (STATUS_SUCCESS, Some dwGrpIdx, b', [img])))"

text \<open>\<^verbatim>\<open>InitBitmap\<close> indexes an array of \<^verbatim>\<open>guint16\<close> with a byte offset, which is past the end of the
  buffer.\<close>

definition CGroupBitmap_InitBitmap :: "geom \<Rightarrow> bitmap \<Rightarrow> bitmap run" where
  "CGroupBitmap_InitBitmap g b =
    (let dwOffset = GRPBMP_SIZE g - 2;
         bs = replicate dwOffset 0 @ drop dwOffset (m_arrBytes b);
         n = BLKGRP_NUMBER g in
     if 2 * dwOffset + 1 \<ge> length bs then Inl Fault_Range
     else Inr (b\<lparr>m_arrBytes := bs[2 * dwOffset := of_nat (n div 256), 2 * dwOffset + 1 := of_nat n],
       m_wFreeCount := n\<rparr>))"

definition IsBlockGroupFree :: "geom \<Rightarrow> nat \<Rightarrow> bitmap \<Rightarrow> gint32" where
  "IsBlockGroupFree g dwGrpIdx b =
    (if m_wFreeCount b = BLKGRP_NUMBER g then 0
     else if dwGrpIdx \<ge> BLKGRP_NUMBER g then - EINVAL
     else if bit (m_arrBytes b ! (dwGrpIdx div 8)) (dwGrpIdx mod 8) then ERROR_FALSE
     else 0)"

definition CGroupBitmap_Format :: "geom \<Rightarrow> bitmap \<times> byte list" where
  "CGroupBitmap_Format g =
    (let bs = put_count (GRPBMP_SIZE g) (BLKGRP_NUMBER g) (replicate (GRPBMP_SIZE g) 0) in
     (\<lparr>m_arrBytes = bs, m_wFreeCount = BLKGRP_NUMBER g\<rparr>, bs))"

text \<open>\<^verbatim>\<open>Reload\<close>: \<open>ret\<close> and \<open>bs\<close> are what \<^verbatim>\<open>LoadGroupBitmap\<close> returned.\<close>

definition CGroupBitmap_Reload :: "geom \<Rightarrow> gint32 \<Rightarrow> byte list \<Rightarrow> bitmap \<Rightarrow> gint32 \<times> bitmap" where
  "CGroupBitmap_Reload g ret bs b =
    (if ERROR ret then (ret, b\<lparr>m_arrBytes := bs\<rparr>)
     else let n = get_count (GRPBMP_SIZE g) bs; b' = b\<lparr>m_arrBytes := bs, m_wFreeCount := n\<rparr> in
       if n > BLKGRP_NUMBER g then (- ERANGE, b') else (ret, b'))"

section \<open>Block bitmap\<close>

text \<open>\<^verbatim>\<open>BLOCKS_PER_GROUP - BLKBMP_BLKNUM\<close>, the number of blocks of an empty group.\<close>

definition BLOCKS_FREE_MAX :: "geom \<Rightarrow> nat" where
  "BLOCKS_FREE_MAX g = BLOCKS_PER_GROUP - BLKBMP_BLKNUM g"

definition CBlockBitmap_IsBlockFree :: "geom \<Rightarrow> nat \<Rightarrow> blk_bitmap \<Rightarrow> gint32 run" where
  "CBlockBitmap_IsBlockFree g dwBlkIdx b =
    (if dwBlkIdx = 0 then Inr (- EINVAL)
     else if m_wFreeCount b = BLOCKS_FREE_MAX g then Inr 0
     else if dwBlkIdx div 8 \<ge> length (m_arrBytes b) then Inl Fault_Range
     else if bit (m_arrBytes b ! (dwBlkIdx div 8)) (dwBlkIdx mod 8) then Inr ERROR_FALSE
     else Inr 0)"

text \<open>\<^verbatim>\<open>InitBitmap\<close> clears the map, marks the blocks of the bitmap itself as used, whole bytes
  first and then the bits of the byte after them, and stores the count.\<close>

definition CBlockBitmap_InitBitmap :: "geom \<Rightarrow> blk_bitmap \<Rightarrow> blk_bitmap" where
  "CBlockBitmap_InitBitmap g b =
    (let dwOffset = BLKBMP_SIZE - 2;
         bs0 = replicate dwOffset 0 @ drop dwOffset (m_arrBytes b);
         dwBytes = BLKBMP_BLKNUM g div 8;
         bs1 = fold (\<lambda>i bs. bs[i := 255]) [0..<dwBytes] bs0;
         dwCount = BLKBMP_BLKNUM g mod 8;
         bs2 = fold (\<lambda>k bs. set_in bs dwBytes k) [0..<dwCount] bs1;
         n = BLOCKS_FREE_MAX g in
     b\<lparr>m_arrBytes := put_count BLKBMP_SIZE n bs2, m_wFreeCount := n\<rparr>)"

text \<open>The inner loop of \<^verbatim>\<open>AllocBlocks\<close> over the bits of one byte: every zero bit is taken, until
  \<open>dwNum\<close> blocks are found, which the flag \<^verbatim>\<open>bFull\<close> reports.\<close>

fun alloc_bits :: "nat \<Rightarrow> nat \<Rightarrow> nat list \<Rightarrow> byte list \<times> nat list \<Rightarrow> byte list \<times> nat list \<times> bool" where
  "alloc_bits dwNum dwByteIdx [] (bs, blks) = (bs, blks, False)"
| "alloc_bits dwNum dwByteIdx (j # js) (bs, blks) =
    (if \<not> bit (bs ! dwByteIdx) j then
       let blks' = blks @ [dwByteIdx * 8 + j]; bs' = set_in bs dwByteIdx j in
       if length blks' = dwNum then (bs', blks', True)
       else alloc_bits dwNum dwByteIdx js (bs', blks')
     else alloc_bits dwNum dwByteIdx js (bs, blks))"

text \<open>The outer loop over the words. Of each word only the first byte that is not full is
  used.\<close>

fun alloc_words :: "nat \<Rightarrow> nat \<Rightarrow> nat list \<Rightarrow> byte list \<times> nat list \<Rightarrow> byte list \<times> nat list \<times> bool" where
  "alloc_words dwCount dwNum [] (bs, blks) = (bs, blks, False)"
| "alloc_words dwCount dwNum (i # is) (bs, blks) =
    (if \<not> length blks < dwNum then (bs, blks, False)
     else if i < dwCount - 1 \<and> word_full bs i then alloc_words dwCount dwNum is (bs, blks)
     else case find (\<lambda>j. bs ! j \<noteq> 255) [i * 8..<i * 8 + (if i < dwCount - 1 then 8 else 6)] of
       None \<Rightarrow> (bs, blks, False)
     | Some j \<Rightarrow>
         (let (bs', blks', bFull) = alloc_bits dwNum j [0..<8] (bs, blks) in
          if bFull then (bs', blks', True)
          else alloc_words dwCount dwNum is (bs', blks')))"

text \<open>The blocks of the bitmap that safe mode writes back: those with a changed bit, and the
  last one, which holds the count. The index that a block of the group has for the
  allocator is \<^verbatim>\<open>( m_dwGroupIdx << 16 ) | i\<close>, a sum since \<open>i\<close> has sixteen bits.\<close>

definition dirty_writes :: "geom \<Rightarrow> nat \<Rightarrow> nat list \<Rightarrow> byte list \<Rightarrow> (nat \<times> byte list) list" where
  "dirty_writes g dwGroupIdx blks bs =
    (let sz = unat (g_dwBlockSize g);
         dirty = (\<lambda>i. i = BLKBMP_BLKNUM g - 1 \<or> list_ex (\<lambda>k. k div (sz * 8) = i) blks) in
     map (\<lambda>i. (dwGroupIdx * 65536 + i, take sz (drop (i * sz) bs)))
       (filter dirty [0..<BLKBMP_BLKNUM g]))"

text \<open>The number of words, \<^verbatim>\<open>BLKBMP_SIZE/sizeof( LONGWORD )\<close>.\<close>

definition BMP_WORDS :: nat where "BMP_WORDS = BLKBMP_SIZE div 8"

text \<open>\<^verbatim>\<open>AllocBlocks\<close>: the status, the blocks, the new value of \<^verbatim>\<open>dwNumBlocks\<close>, the bitmap and
  the writes.\<close>

definition CBlockBitmap_AllocBlocks ::
  "geom \<Rightarrow> bool \<Rightarrow> nat \<Rightarrow> blk_bitmap \<Rightarrow> gint32 \<times> nat list \<times> nat \<times> blk_bitmap \<times> (nat \<times> byte list) list" where
  "CBlockBitmap_AllocBlocks g bSafe dwNumBlocks b =
    (if dwNumBlocks = 0 then (- EINVAL, [], dwNumBlocks, b, [])
     else if m_wFreeCount b = 0 then (- ENOMEM, [], dwNumBlocks, b, [])
     else
       let dwCount = BMP_WORDS;
           (bs, blks, bFull) = alloc_words dwCount dwNumBlocks [0..<dwCount] (m_arrBytes b, []);
           vecBlocks = map (\<lambda>k. m_dwGroupIdx b * 65536 + k) blks;
           dwBlocks = length blks in
       if m_wFreeCount b < dwBlocks
       then (ERROR_FAIL, vecBlocks, dwNumBlocks, b\<lparr>m_arrBytes := bs\<rparr>, [])
       else
         let n = m_wFreeCount b - dwBlocks;
             (bs', ws) = (if dwBlocks > 0 \<and> bSafe
               then let bs1 = put_count BLKBMP_SIZE n bs in
                 (bs1, dirty_writes g (m_dwGroupIdx b) blks bs1)
               else (bs, []));
             b' = b\<lparr>m_arrBytes := bs', m_wFreeCount := n\<rparr> in
         if bFull then (STATUS_SUCCESS, vecBlocks, dwNumBlocks, b', ws)
         else (STATUS_MORE_PROCESS_NEEDED, vecBlocks, dwBlocks, b', ws))"

text \<open>\<^verbatim>\<open>FreeBlocks\<close>: the loop keeps the bytes, the 16-bit count and the blocks that were freed.\<close>

fun free_loop :: "nat list \<Rightarrow> byte list \<times> nat \<times> nat list \<Rightarrow> byte list \<times> nat \<times> nat list" where
  "free_loop [] (bs, n, freed) = (bs, n, freed)"
| "free_loop (v # vs) (bs, n, freed) =
    (let dwBlkIdx = v mod 65536 in
     if dwBlkIdx = 0 then free_loop vs (bs, n, freed)
     else if bs ! (dwBlkIdx div 8) = 0 then free_loop vs (bs, n, freed)
     else free_loop vs (clear_in bs (dwBlkIdx div 8) (dwBlkIdx mod 8), (n + 1) mod 65536,
       freed @ [dwBlkIdx]))"

definition CBlockBitmap_FreeBlocks ::
  "geom \<Rightarrow> bool \<Rightarrow> nat list \<Rightarrow> blk_bitmap \<Rightarrow> gint32 \<times> blk_bitmap \<times> (nat \<times> byte list) list" where
  "CBlockBitmap_FreeBlocks g bSafe vecBlocks b =
    (if vecBlocks = [] then (- EINVAL, b, [])
     else if m_wFreeCount b = BLOCKS_FREE_MAX g then (0, b, [])
     else
       let (bs, n, freed) = free_loop vecBlocks (m_arrBytes b, m_wFreeCount b, []) in
       if freed \<noteq> [] \<and> bSafe
       then let bs1 = put_count BLKBMP_SIZE n bs in
         (0, b\<lparr>m_arrBytes := bs1, m_wFreeCount := n\<rparr>, dirty_writes g (m_dwGroupIdx b) freed bs1)
       else (0, b\<lparr>m_arrBytes := bs, m_wFreeCount := n\<rparr>, []))"

definition CBlockBitmap_FreeBlock ::
  "geom \<Rightarrow> bool \<Rightarrow> nat \<Rightarrow> blk_bitmap \<Rightarrow> gint32 \<times> blk_bitmap \<times> (nat \<times> byte list) list" where
  "CBlockBitmap_FreeBlock g bSafe dwBlkIdx b =
    (if dwBlkIdx = 0 then (- EINVAL, b, []) else CBlockBitmap_FreeBlocks g bSafe [dwBlkIdx] b)"

text \<open>\<^verbatim>\<open>Flush\<close> hands the blocks of the map, a contiguous run, and its bytes to \<^verbatim>\<open>WriteBlocks\<close>;
  \<^verbatim>\<open>Reload\<close> takes the status and the bytes of \<^verbatim>\<open>ReadBlocks\<close>.\<close>

definition bmp_blocks :: "geom \<Rightarrow> blk_bitmap \<Rightarrow> nat list" where
  "bmp_blocks g b = map (\<lambda>i. m_dwGroupIdx b * 65536 + i) [0..<BLKBMP_BLKNUM g]"

definition CBlockBitmap_Flush :: "geom \<Rightarrow> blk_bitmap \<Rightarrow> blk_bitmap \<times> nat list \<times> byte list" where
  "CBlockBitmap_Flush g b =
    (let bs = put_count BLKBMP_SIZE (m_wFreeCount b) (m_arrBytes b) in
     (b\<lparr>m_arrBytes := bs\<rparr>, bmp_blocks g b, take BLKBMP_SIZE bs))"

definition CBlockBitmap_Format :: "geom \<Rightarrow> blk_bitmap \<Rightarrow> blk_bitmap \<times> nat list \<times> byte list" where
  "CBlockBitmap_Format g b = CBlockBitmap_Flush g (CBlockBitmap_InitBitmap g b)"

definition CBlockBitmap_Reload :: "gint32 \<Rightarrow> byte list \<Rightarrow> blk_bitmap \<Rightarrow> gint32 \<times> blk_bitmap" where
  "CBlockBitmap_Reload ret bs b =
    (if ERROR ret then (ret, b\<lparr>m_arrBytes := bs\<rparr>)
     else (0, b\<lparr>m_arrBytes := bs, m_wFreeCount := get_count BLKBMP_SIZE bs\<rparr>))"

section \<open>Bits\<close>

text \<open>The bit of an entry, and the sets of free and used entries below \<open>n\<close>.\<close>

definition bmp_bit :: "byte list \<Rightarrow> nat \<Rightarrow> bool" where
  "bmp_bit bs k = bit (bs ! (k div 8)) (k mod 8)"

definition free_below :: "byte list \<Rightarrow> nat \<Rightarrow> nat set" where
  "free_below bs n = {k. k < n \<and> \<not> bmp_bit bs k}"

lemma free_below_finite [simp]: "finite (free_below bs n)"
  by (simp add: free_below_def)

lemma byte_full_iff: "(a :: byte) = 255 \<longleftrightarrow> (\<forall>k<8. bit a k)"
proof -
  have "(255 :: byte) = mask 8" by (simp add: mask_eq_exp_minus_1)
  then show ?thesis by (auto simp: bit_eq_iff bit_mask_iff possible_bit_def)
qed

lemma byte_zero_iff: "(a :: byte) = 0 \<longleftrightarrow> (\<forall>k<8. \<not> bit a k)"
  by (auto simp: bit_eq_iff possible_bit_def)

lemma div_mod_8: "k < 8 \<Longrightarrow> (m div 8 = j \<and> m mod 8 = k) = (m = j * 8 + k)" for m j k :: nat
  by auto

lemma length_set_in [simp]: "length (set_in bs j k) = length bs"
  and length_clear_in [simp]: "length (clear_in bs j k) = length bs"
  and length_put_count [simp]: "length (put_count sz n bs) = length bs"
  by (simp_all add: set_in_def clear_in_def put_count_def)

lemma bmp_bit_set_in:
  assumes "j < length bs" "k < 8"
  shows "bmp_bit (set_in bs j k) m = (bmp_bit bs m \<or> m = j * 8 + k)"
  using assms div_mod_8[OF assms(2), of m j]
  by (auto simp: bmp_bit_def set_in_def nth_list_update bit_simps)

lemma bmp_bit_clear_in:
  assumes "j < length bs" "k < 8"
  shows "bmp_bit (clear_in bs j k) m = (bmp_bit bs m \<and> m \<noteq> j * 8 + k)"
  using assms div_mod_8[OF assms(2), of m j]
  by (auto simp: bmp_bit_def clear_in_def nth_list_update bit_simps)

lemma bmp_bit_put_count:
  assumes "k < 8 * (sz - 2)"
  shows "bmp_bit (put_count sz n bs) k = bmp_bit bs k"
proof -
  have "k div 8 < sz - 2" using assms by auto
  then show ?thesis by (simp add: bmp_bit_def put_count_def)
qed

lemma get_put_count:
  assumes "n < 65536" "2 \<le> sz" "sz \<le> length bs"
  shows "get_count sz (put_count sz n bs) = n"
  using assms by (simp add: get_count_def put_count_def nth_list_update unat_of_nat)

lemma byte_full_bits: "(bs ! j \<noteq> 255) \<longleftrightarrow> (\<exists>k<8. \<not> bmp_bit bs (j * 8 + k))"
  by (auto simp: byte_full_iff bmp_bit_def)

lemma word_full_bits:
  assumes "i * 8 + 8 \<le> length bs"
  shows "word_full bs i \<longleftrightarrow> (\<forall>k. 64 * i \<le> k \<and> k < 64 * i + 64 \<longrightarrow> bmp_bit bs k)"
proof -
  have "word_full bs i \<longleftrightarrow> (\<forall>j<8. bs ! (i * 8 + j) = 255)"
    using assms by (simp add: word_full_def list_all_length)
  also have "\<dots> \<longleftrightarrow> (\<forall>k. 64 * i \<le> k \<and> k < 64 * i + 64 \<longrightarrow> bmp_bit bs k)"
  proof
    assume full: "\<forall>j<8. bs ! (i * 8 + j) = 255"
    show "\<forall>k. 64 * i \<le> k \<and> k < 64 * i + 64 \<longrightarrow> bmp_bit bs k"
    proof (intro allI impI)
      fix k assume "64 * i \<le> k \<and> k < 64 * i + 64"
      then have "i * 8 \<le> k div 8" "k div 8 < i * 8 + 8" by auto
      then have "bs ! (k div 8) = 255" using full[rule_format, of "k div 8 - i * 8"] by simp
      then show "bmp_bit bs k" by (simp add: bmp_bit_def byte_full_iff)
    qed
  next
    assume "\<forall>k. 64 * i \<le> k \<and> k < 64 * i + 64 \<longrightarrow> bmp_bit bs k"
    then have "bmp_bit bs ((i * 8 + j) * 8 + k)" if "j < 8" "k < 8" for j k
      using that by (auto simp: algebra_simps)
    then show "\<forall>j<8. bs ! (i * 8 + j) = 255" using byte_full_bits by blast
  qed
  finally show ?thesis .
qed

text \<open>The two searches together find the first free entry of a range of bytes.\<close>

lemma scan_bytes_Some:
  assumes "find (\<lambda>j. bs ! j \<noteq> 255) [a..<b] = Some j"
  shows "a \<le> j" "j < b" "\<exists>k. find (\<lambda>k. \<not> bit (bs ! j) k) [0..<8] = Some k"
    and "8 * a \<le> l \<Longrightarrow> l < 8 * j \<Longrightarrow> bmp_bit bs l"
proof -
  from assms have j: "a \<le> j" "j < b" "bs ! j \<noteq> 255" "\<And>l. a \<le> l \<Longrightarrow> l < j \<Longrightarrow> bs ! l = 255"
    by (auto simp: find_upt_Some)
  then show "a \<le> j" "j < b" by auto
  from j(3) show "\<exists>k. find (\<lambda>k. \<not> bit (bs ! j) k) [0..<8] = Some k"
    by (auto simp: byte_full_iff not_None_eq[symmetric] find_upt_None)
  show "bmp_bit bs l" if "8 * a \<le> l" "l < 8 * j"
    using j(4)[of "l div 8"] that by (simp add: bmp_bit_def byte_full_iff)
qed

lemma scan_bytes_None:
  assumes "find (\<lambda>j. bs ! j \<noteq> 255) [a..<b] = None" "8 * a \<le> l" "l < 8 * b"
  shows "bmp_bit bs l"
proof -
  have "a \<le> l div 8" "l div 8 < b" using assms(2,3) by auto
  then have "bs ! (l div 8) = 255" using assms(1) by (auto simp: find_upt_None)
  then show ?thesis by (simp add: bmp_bit_def byte_full_iff)
qed

definition first_free :: "byte list \<Rightarrow> nat \<Rightarrow> nat \<Rightarrow> nat option \<Rightarrow> bool" where
  "first_free bs a b r =
    (case r of
       None \<Rightarrow> (\<forall>l. a \<le> l \<and> l < b \<longrightarrow> bmp_bit bs l)
     | Some k \<Rightarrow> a \<le> k \<and> k < b \<and> \<not> bmp_bit bs k \<and> (\<forall>l. a \<le> l \<and> l < k \<longrightarrow> bmp_bit bs l))"

lemma first_free_extend:
  assumes "first_free bs b c r" "a \<le> b" "\<And>l. a \<le> l \<Longrightarrow> l < b \<Longrightarrow> bmp_bit bs l"
  shows "first_free bs a c r"
  using assms unfolding first_free_def by (auto split: option.splits) (metis not_less)+

lemma scan_bytes_first_free:
  assumes "find (\<lambda>j. bs ! j \<noteq> 255) [a..<b] = Some j" "find (\<lambda>k. \<not> bit (bs ! j) k) [0..<8] = Some k"
  shows "first_free bs (8 * a) (8 * b) (Some (j * 8 + k))" "k < 8"
proof -
  note s = scan_bytes_Some[OF assms(1)]
  from assms(2) have k: "k < 8" "\<not> bit (bs ! j) k" "\<And>l. l < k \<Longrightarrow> bit (bs ! j) l"
    by (auto simp: find_upt_Some)
  have "bmp_bit bs l" if "8 * a \<le> l" "l < j * 8 + k" for l
  proof (cases "l < 8 * j")
    case False
    then have d: "l div 8 = j" using that k(1) by auto
    then have "l mod 8 = l - 8 * j" using minus_mult_div_eq_mod[of l 8] by simp
    with d show ?thesis using k(3)[of "l - 8 * j"] that False by (simp add: bmp_bit_def)
  qed (use s(4) that in blast)
  then show "first_free bs (8 * a) (8 * b) (Some (j * 8 + k))"
    using s(1,2) k by (auto simp: first_free_def bmp_bit_def)
  show "k < 8" by (fact k)
qed

lemma alloc_group_loop_first_fit:
  assumes "8 * n \<le> length bs" "m < n" "n \<ge> 1"
  shows "first_free bs (64 * m) (64 * n - 16) (map_option fst (alloc_group_loop n [m..<n] bs)) \<and>
    (\<forall>k bs'. alloc_group_loop n [m..<n] bs = Some (k, bs') \<longrightarrow> bs' = set_in bs (k div 8) (k mod 8))"
  using assms
proof (induction "n - m" arbitrary: m)
  case (Suc d)
  have upt: "[m..<n] = m # [Suc m..<n]" using Suc.prems by (simp add: upt_rec)
  show ?case
  proof (cases "m < n - 1")
    case True
    show ?thesis
    proof (cases "word_full bs m")
      case full: True
      have "first_free bs (64 * Suc m) (64 * n - 16) (map_option fst (alloc_group_loop n [Suc m..<n] bs)) \<and>
        (\<forall>k bs'. alloc_group_loop n [Suc m..<n] bs = Some (k, bs') \<longrightarrow> bs' = set_in bs (k div 8) (k mod 8))"
        using Suc True by (intro Suc.hyps(1)) auto
      moreover have "bmp_bit bs l" if "64 * m \<le> l" "l < 64 * Suc m" for l
        using word_full_bits[of m bs] full that Suc.prems by auto
      ultimately show ?thesis
        using True full by (auto simp: upt intro: first_free_extend)
    next
      case False
      obtain j where j: "find (\<lambda>j. bs ! j \<noteq> 255) [m * 8..<m * 8 + 8] = Some j"
      proof (cases "find (\<lambda>j. bs ! j \<noteq> 255) [m * 8..<m * 8 + 8]")
        case None
        then have "bmp_bit bs l" if "64 * m \<le> l" "l < 64 * m + 64" for l
          using scan_bytes_None[OF None] that by simp
        then have "word_full bs m" using word_full_bits[of m bs] Suc.prems by auto
        with False show thesis by simp
      qed
      obtain k where k: "find (\<lambda>k. \<not> bit (bs ! j) k) [0..<8] = Some k"
        using scan_bytes_Some(3)[OF j] by blast
      have "first_free bs (64 * m) (64 * n - 16) (Some (j * 8 + k))"
        using scan_bytes_first_free(1)[OF j k] True by (auto simp: first_free_def)
      then show ?thesis
        using True False j k scan_bytes_first_free(2)[OF j k] by (auto simp: upt)
    qed
  next
    case False
    then have n: "n = Suc m" using Suc.prems by simp
    show ?thesis
    proof (cases "find (\<lambda>j. bs ! j \<noteq> 255) [m * 8..<m * 8 + 6]")
      case None
      then show ?thesis using n scan_bytes_None[OF None] by (auto simp: upt first_free_def)
    next
      case (Some j)
      obtain k where k: "find (\<lambda>k. \<not> bit (bs ! j) k) [0..<8] = Some k"
        using scan_bytes_Some(3)[OF Some] by blast
      have "first_free bs (64 * m) (64 * n - 16) (Some (j * 8 + k))"
        using scan_bytes_first_free(1)[OF Some k] n by (auto simp: first_free_def)
      then show ?thesis
        using n Some k scan_bytes_first_free(2)[OF Some k] by (auto simp: upt)
    qed
  qed
qed simp

section \<open>The interface of a slot allocator\<close>

text \<open>
  Both bitmaps hand out slots. What their users rely on: an allocation yields a slot that
  was not in use and marks exactly that one, it fails only when every slot is in use, and
  releasing a used slot frees exactly that one.
\<close>

locale slot_alloc =
  fixes inv :: "'s \<Rightarrow> bool"
    and slots :: "nat set"
    and used :: "'s \<Rightarrow> nat set"
    and alloc :: "'s \<Rightarrow> (nat \<times> 's) option"
    and release :: "nat \<Rightarrow> 's \<Rightarrow> 's"
  assumes alloc_Some: "inv s \<Longrightarrow> alloc s = Some (k, s') \<Longrightarrow>
      inv s' \<and> k \<in> slots \<and> k \<notin> used s \<and> used s' = insert k (used s)"
    and alloc_None: "inv s \<Longrightarrow> alloc s = None \<Longrightarrow> slots \<subseteq> used s"
    and release_used: "inv s \<Longrightarrow> k \<in> slots \<Longrightarrow> k \<in> used s \<Longrightarrow>
      inv (release k s) \<and> used (release k s) = used s - {k}"

text \<open>A client that allocates and releases: it keeps the slots it holds and only releases
  one of these.\<close>

datatype slot_op = SAlloc | SFree nat

fun slot_step :: "('s \<Rightarrow> (nat \<times> 's) option) \<Rightarrow> (nat \<Rightarrow> 's \<Rightarrow> 's) \<Rightarrow> slot_op \<Rightarrow> nat list \<times> 's \<Rightarrow> nat list \<times> 's" where
  "slot_step alloc release SAlloc (held, s) =
    (case alloc s of None \<Rightarrow> (held, s) | Some (k, s') \<Rightarrow> (k # held, s'))"
| "slot_step alloc release (SFree k) (held, s) =
    (if k \<in> set held then (remove1 k held, release k s) else (held, s))"

context slot_alloc
begin

lemma step_exclusive:
  assumes "inv s" "distinct held" "set held \<subseteq> slots" "base \<inter> set held = {}" "used s = base \<union> set held"
    "slot_step alloc release op (held, s) = (held', s')"
  shows "inv s' \<and> distinct held' \<and> set held' \<subseteq> slots \<and> base \<inter> set held' = {} \<and> used s' = base \<union> set held'"
proof (cases op)
  case SAlloc
  then show ?thesis using assms alloc_Some[of s] by (auto split: option.splits)
next
  case (SFree k)
  then show ?thesis using assms release_used[of s k] by (auto split: if_splits)
qed

lemma run_exclusive:
  assumes "inv s" "distinct held" "set held \<subseteq> slots" "base \<inter> set held = {}" "used s = base \<union> set held"
    "fold (slot_step alloc release) ops (held, s) = (held', s')"
  shows "inv s' \<and> distinct held' \<and> set held' \<subseteq> slots \<and> base \<inter> set held' = {} \<and> used s' = base \<union> set held'"
  using assms
proof (induction ops arbitrary: held s)
  case (Cons op ops)
  obtain h1 s1 where st: "slot_step alloc release op (held, s) = (h1, s1)" by fastforce
  from step_exclusive[OF Cons.prems(1-5) st] Cons.prems(6) st show ?case
    by (intro Cons.IH[of s1 h1]) auto
qed simp

end

section \<open>The group bitmap as a slot allocator\<close>

definition geom_ok :: "geom \<Rightarrow> bool" where
  "geom_ok g \<longleftrightarrow> \<not> ERROR (IsValidBlockSize (g_dwBlockSize g)) \<and>
    \<not> ERROR (IsValidPageSize (g_dwRegFsPageSize g) g)"

lemma find_shift_block_sizes:
  "find_shift 512 = 9" "find_shift 1024 = 10" "find_shift 2048 = 11" "find_shift 4096 = 12"
  by (simp_all add: find_shift_def upt_rec bit_numeral_rec)

text \<open>A valid page size has between \<open>2^10\<close> and \<open>2^16\<close> groups, a multiple of 64.\<close>

lemma geom_ok_sizes:
  assumes "geom_ok g"
  obtains n where "n \<ge> 16" "n \<le> 1024" "GRPBMP_SIZE g = 8 * n" "BLKGRP_NUMBER g = 64 * n - 16"
proof -
  let ?s = "find_shift (g_dwRegFsPageSize g)"
  have s: "10 \<le> ?s" "?s \<le> 16"
    using assms find_shift_block_sizes
    by (auto simp: geom_ok_def IsValidBlockSize_def IsValidPageSize_def Let_def split: if_splits)
  let ?n = "2 ^ (?s - 6) :: nat"
  have p: "2 ^ ?s = 64 * ?n"
    using s power_add[of "2 :: nat" 6 "?s - 6"] by simp
  have "(2 :: nat) ^ 4 \<le> ?n" "?n \<le> 2 ^ 10" using s by (intro power_increasing; simp)+
  then show thesis
    using that[of ?n] by (simp add: GRPBMP_SIZE_def BLKGRP_NUMBER_def p)
qed

definition gb_inv :: "geom \<Rightarrow> bitmap \<Rightarrow> bool" where
  "gb_inv g b \<longleftrightarrow> geom_ok g \<and> length (m_arrBytes b) = GRPBMP_SIZE g \<and>
    m_wFreeCount b = card (free_below (m_arrBytes b) (BLKGRP_NUMBER g))"

definition gb_used :: "geom \<Rightarrow> bitmap \<Rightarrow> nat set" where
  "gb_used g b = {k. k < BLKGRP_NUMBER g \<and> bmp_bit (m_arrBytes b) k}"

definition grp_alloc :: "geom \<Rightarrow> bitmap \<Rightarrow> (nat \<times> bitmap) option" where
  "grp_alloc g b = (case AllocGroup g b of (ret, k, b', ws) \<Rightarrow>
    (case k of None \<Rightarrow> None | Some k \<Rightarrow> Some (k, b')))"

definition grp_release :: "geom \<Rightarrow> nat \<Rightarrow> bitmap \<Rightarrow> bitmap" where
  "grp_release g k b = fst (snd (FreeGroup g k b))"

lemma free_below_remove:
  assumes "k < n" "\<not> bmp_bit bs k" "\<And>m. m < n \<Longrightarrow> bmp_bit bs' m = (bmp_bit bs m \<or> m = k)"
  shows "card (free_below bs' n) = card (free_below bs n) - 1" "card (free_below bs n) > 0"
proof -
  have "free_below bs' n = free_below bs n - {k}" using assms by (auto simp: free_below_def)
  moreover have k: "k \<in> free_below bs n" using assms by (simp add: free_below_def)
  ultimately show "card (free_below bs' n) = card (free_below bs n) - 1" by simp
  show "card (free_below bs n) > 0" using k card_gt_0_iff free_below_finite by blast
qed

lemma free_below_add:
  assumes "k < n" "bmp_bit bs k" "\<And>m. m < n \<Longrightarrow> bmp_bit bs' m = (bmp_bit bs m \<and> m \<noteq> k)"
  shows "card (free_below bs' n) = card (free_below bs n) + 1" "card (free_below bs n) < n"
proof -
  have "free_below bs' n = insert k (free_below bs n)" using assms by (auto simp: free_below_def)
  moreover have k: "k \<notin> free_below bs n" using assms by (simp add: free_below_def)
  ultimately show "card (free_below bs' n) = card (free_below bs n) + 1" by simp
  have "free_below bs n \<subseteq> {..<n} - {k}" using k by (auto simp: free_below_def)
  then have "card (free_below bs n) \<le> card ({..<n} - {k})" by (intro card_mono) auto
  then show "card (free_below bs n) < n" using assms(1) by simp
qed

lemma gb_Flush_frame:
  assumes "geom_ok g"
  shows "bmp_bit (m_arrBytes (fst (CGroupBitmap_Flush g b))) k = bmp_bit (m_arrBytes b) k \<or> k \<ge> BLKGRP_NUMBER g"
    "length (m_arrBytes (fst (CGroupBitmap_Flush g b))) = length (m_arrBytes b)"
    "m_wFreeCount (fst (CGroupBitmap_Flush g b)) = m_wFreeCount b"
proof -
  obtain n where "GRPBMP_SIZE g = 8 * n" "BLKGRP_NUMBER g = 64 * n - 16" using geom_ok_sizes[OF assms] by metis
  then show "bmp_bit (m_arrBytes (fst (CGroupBitmap_Flush g b))) k = bmp_bit (m_arrBytes b) k \<or> k \<ge> BLKGRP_NUMBER g"
    by (cases "k < BLKGRP_NUMBER g") (simp_all add: CGroupBitmap_Flush_def Let_def bmp_bit_put_count)
qed (simp_all add: CGroupBitmap_Flush_def Let_def)

lemma AllocGroup_spec:
  assumes "gb_inv g b" "grp_alloc g b = Some (k, b')"
  shows "first_free (m_arrBytes b) 0 (BLKGRP_NUMBER g) (Some k)" "gb_inv g b'"
    "gb_used g b' = insert k (gb_used g b)"
proof -
  have ok: "geom_ok g" using assms by (simp add: gb_inv_def)
  obtain n where n: "n \<ge> 16" "n \<le> 1024" "GRPBMP_SIZE g = 8 * n" "BLKGRP_NUMBER g = 64 * n - 16"
    using geom_ok_sizes[OF ok] by metis
  have len: "length (m_arrBytes b) = 8 * n" using assms n by (simp add: gb_inv_def)
  obtain bs where lp: "alloc_group_loop n [0..<n] (m_arrBytes b) = Some (k, bs)"
    and b': "b' = fst (CGroupBitmap_Flush g (b\<lparr>m_arrBytes := bs, m_wFreeCount := m_wFreeCount b - 1\<rparr>))"
    using assms(2) n
    by (auto simp: grp_alloc_def AllocGroup_def Let_def split: option.splits if_splits prod.splits)
  from alloc_group_loop_first_fit[of n "m_arrBytes b" 0] lp n len
  have ff: "first_free (m_arrBytes b) 0 (BLKGRP_NUMBER g) (Some k)"
    and bs: "bs = set_in (m_arrBytes b) (k div 8) (k mod 8)" by auto
  then show "first_free (m_arrBytes b) 0 (BLKGRP_NUMBER g) (Some k)" by blast
  have k: "k < BLKGRP_NUMBER g" "\<not> bmp_bit (m_arrBytes b) k" using ff by (auto simp: first_free_def)
  have "bmp_bit bs m = (bmp_bit (m_arrBytes b) m \<or> m = k)" for m
    using bmp_bit_set_in[of "k div 8" "m_arrBytes b" "k mod 8" m] k n len by (auto simp: bs)
  then have bits: "bmp_bit (m_arrBytes b') m = (bmp_bit (m_arrBytes b) m \<or> m = k)" if "m < BLKGRP_NUMBER g" for m
    using gb_Flush_frame(1)[OF ok, of "b\<lparr>m_arrBytes := bs, m_wFreeCount := m_wFreeCount b - 1\<rparr>" m] that
    by (simp add: b')
  show "gb_used g b' = insert k (gb_used g b)" using bits k by (auto simp: gb_used_def)
  show "gb_inv g b'"
    using assms(1) free_below_remove(1)[OF k bits] gb_Flush_frame[OF ok] len n bs
    by (simp add: gb_inv_def b')
qed

lemma AllocGroup_None:
  assumes "gb_inv g b" "grp_alloc g b = None"
  shows "{..<BLKGRP_NUMBER g} \<subseteq> gb_used g b" "AllocGroup g b = (- ENOMEM, None, b, [])"
proof -
  have ok: "geom_ok g" using assms by (simp add: gb_inv_def)
  obtain n where n: "n \<ge> 16" "n \<le> 1024" "GRPBMP_SIZE g = 8 * n" "BLKGRP_NUMBER g = 64 * n - 16"
    using geom_ok_sizes[OF ok] by metis
  have len: "length (m_arrBytes b) = 8 * n" using assms n by (simp add: gb_inv_def)
  have cases: "m_wFreeCount b = 0 \<or> alloc_group_loop n [0..<n] (m_arrBytes b) = None"
    using assms(2) n by (auto simp: grp_alloc_def AllocGroup_def Let_def split: option.splits if_splits prod.splits)
  then show "AllocGroup g b = (- ENOMEM, None, b, [])"
    using n by (auto simp: AllocGroup_def Let_def)
  from cases have "free_below (m_arrBytes b) (BLKGRP_NUMBER g) = {}"
  proof
    assume "m_wFreeCount b = 0"
    then show ?thesis using assms(1) by (simp add: gb_inv_def)
  next
    assume "alloc_group_loop n [0..<n] (m_arrBytes b) = None"
    then have "first_free (m_arrBytes b) 0 (64 * n - 16) None"
      using alloc_group_loop_first_fit[of n "m_arrBytes b" 0] n len by auto
    then show ?thesis using n by (auto simp: first_free_def free_below_def)
  qed
  then show "{..<BLKGRP_NUMBER g} \<subseteq> gb_used g b" by (auto simp: free_below_def gb_used_def)
qed

lemma FreeGroup_spec:
  assumes "gb_inv g b" "k < BLKGRP_NUMBER g" "k \<in> gb_used g b"
  shows "gb_inv g (grp_release g k b)" "gb_used g (grp_release g k b) = gb_used g b - {k}"
proof -
  have ok: "geom_ok g" using assms by (simp add: gb_inv_def)
  obtain n where n: "n \<ge> 16" "n \<le> 1024" "GRPBMP_SIZE g = 8 * n" "BLKGRP_NUMBER g = 64 * n - 16"
    using geom_ok_sizes[OF ok] by metis
  let ?bs = "clear_in (m_arrBytes b) (k div 8) (k mod 8)"
  let ?b1 = "b\<lparr>m_arrBytes := ?bs, m_wFreeCount := (m_wFreeCount b + 1) mod 65536\<rparr>"
  have len: "length (m_arrBytes b) = 8 * n" using assms n by (simp add: gb_inv_def)
  have set: "bmp_bit (m_arrBytes b) k" using assms by (simp add: gb_used_def)
  have bits1: "bmp_bit ?bs m = (bmp_bit (m_arrBytes b) m \<and> m \<noteq> k)" for m
    using bmp_bit_clear_in[of "k div 8" "m_arrBytes b" "k mod 8" m] assms(2) n len by auto
  note add = free_below_add[OF assms(2) set bits1]
  have cnt: "m_wFreeCount b = card (free_below (m_arrBytes b) (BLKGRP_NUMBER g))"
    using assms by (simp add: gb_inv_def)
  have "m_arrBytes b ! (k div 8) \<noteq> 0" using set by (auto simp: bmp_bit_def)
  then have r: "grp_release g k b = fst (CGroupBitmap_Flush g ?b1)"
    using add(2) cnt assms(2) by (simp add: grp_release_def FreeGroup_def Let_def split: prod.splits)
  have bits: "bmp_bit (m_arrBytes (grp_release g k b)) m = (bmp_bit (m_arrBytes b) m \<and> m \<noteq> k)"
    if "m < BLKGRP_NUMBER g" for m
    using gb_Flush_frame(1)[OF ok, of ?b1 m] that bits1 by (simp add: r)
  show "gb_used g (grp_release g k b) = gb_used g b - {k}"
    using bits assms(2) by (auto simp: gb_used_def)
  have "(m_wFreeCount b + 1) mod 65536 = m_wFreeCount b + 1" using add(2) cnt n by simp
  then have "m_wFreeCount (grp_release g k b) = m_wFreeCount b + 1"
    "length (m_arrBytes (grp_release g k b)) = GRPBMP_SIZE g"
    using gb_Flush_frame(2,3)[OF ok, of ?b1] len n by (simp_all add: r)
  then show "gb_inv g (grp_release g k b)"
    using free_below_add(1)[OF assms(2) set bits] cnt ok by (simp add: gb_inv_def)
qed

interpretation grp_slots: slot_alloc "gb_inv g" "{..<BLKGRP_NUMBER g}" "gb_used g" "grp_alloc g" "grp_release g"
  for g
proof
  fix b k b' assume "gb_inv g b" "grp_alloc g b = Some (k, b')"
  from AllocGroup_spec[OF this]
  show "gb_inv g b' \<and> k \<in> {..<BLKGRP_NUMBER g} \<and> k \<notin> gb_used g b \<and> gb_used g b' = insert k (gb_used g b)"
    by (auto simp: first_free_def gb_used_def)
qed (use AllocGroup_None FreeGroup_spec in auto)

section \<open>The block bitmap\<close>

text \<open>A scan takes the free entries \<open>new\<close> of the range \<open>lo..<hi\<close>, in ascending order, and marks
  exactly these.\<close>

definition takes :: "nat \<Rightarrow> nat \<Rightarrow> byte list \<Rightarrow> byte list \<Rightarrow> nat list \<Rightarrow> bool" where
  "takes lo hi bs bs' new \<longleftrightarrow> sorted_wrt (<) new \<and>
    (\<forall>k\<in>set new. lo \<le> k \<and> k < hi \<and> \<not> bmp_bit bs k) \<and>
    (\<forall>m. bmp_bit bs' m = (bmp_bit bs m \<or> m \<in> set new)) \<and> length bs' = length bs"

lemma takes_nil [simp]: "takes lo hi bs bs []"
  by (simp add: takes_def)

lemma takes_set_in:
  "j < length bs \<Longrightarrow> k < 8 \<Longrightarrow> \<not> bmp_bit bs (j * 8 + k) \<Longrightarrow>
    takes (j * 8 + k) (Suc (j * 8 + k)) bs (set_in bs j k) [j * 8 + k]"
  by (auto simp: takes_def bmp_bit_set_in)

lemma takes_append:
  "takes lo mid bs bs1 n1 \<Longrightarrow> takes mid hi bs1 bs2 n2 \<Longrightarrow> lo \<le> mid \<Longrightarrow> mid \<le> hi \<Longrightarrow> takes lo hi bs bs2 (n1 @ n2)"
  by (fastforce simp: takes_def sorted_wrt_append)

lemma takes_mono: "takes lo hi bs bs' new \<Longrightarrow> lo' \<le> lo \<Longrightarrow> hi \<le> hi' \<Longrightarrow> takes lo' hi' bs bs' new"
  by (fastforce simp: takes_def)

lemma alloc_bits_takes:
  assumes "alloc_bits num i [j..<8] (bs, blks) = (bs', blks', full)" "i < length bs" "length blks < num"
  shows "\<exists>new. blks' = blks @ new \<and> takes (i * 8 + j) (i * 8 + 8) bs bs' new \<and> length blks' \<le> num \<and>
    (full \<longleftrightarrow> length blks' = num) \<and> ((\<exists>k. j \<le> k \<and> k < 8 \<and> \<not> bmp_bit bs (i * 8 + k)) \<longrightarrow> new \<noteq> [])"
  using assms
proof (induction "8 - j" arbitrary: j bs blks)
  case (Suc d)
  have upt: "[j..<8] = j # [Suc j..<8]" and j: "j < 8" and d: "d = 8 - Suc j"
    using Suc.hyps(2) by (simp_all add: upt_rec)
  have bit: "bit (bs ! i) j = bmp_bit bs (i * 8 + j)" using j by (simp add: bmp_bit_def)
  show ?case
  proof (cases "bmp_bit bs (i * 8 + j)")
    case True
    then have "alloc_bits num i [Suc j..<8] (bs, blks) = (bs', blks', full)"
      using Suc.prems bit by (simp add: upt)
    from Suc.hyps(1)[OF d this Suc.prems(2,3)] obtain new where
      new: "blks' = blks @ new" "takes (i * 8 + Suc j) (i * 8 + 8) bs bs' new" "length blks' \<le> num"
        "full \<longleftrightarrow> length blks' = num" "(\<exists>k. Suc j \<le> k \<and> k < 8 \<and> \<not> bmp_bit bs (i * 8 + k)) \<longrightarrow> new \<noteq> []"
      by blast
    moreover have "(\<exists>k. j \<le> k \<and> k < 8 \<and> \<not> bmp_bit bs (i * 8 + k)) \<longrightarrow> new \<noteq> []"
      using new(5) True by (metis Suc_leI le_neq_implies_less)
    ultimately show ?thesis using takes_mono[OF new(2)] by auto
  next
    case False
    let ?bs = "set_in bs i j" and ?blks = "blks @ [i * 8 + j]"
    have one: "takes (i * 8 + j) (i * 8 + Suc j) bs ?bs [i * 8 + j]"
      using takes_set_in[OF Suc.prems(2) j False] by simp
    show ?thesis
    proof (cases "length ?blks = num")
      case full: True
      then have "bs' = ?bs" "blks' = ?blks" "full" using Suc.prems(1) bit False by (auto simp: upt)
      moreover have "takes (i * 8 + j) (i * 8 + 8) bs ?bs [i * 8 + j]"
        using takes_mono[OF one] j by simp
      ultimately show ?thesis using full by auto
    next
      case more: False
      then have "alloc_bits num i [Suc j..<8] (?bs, ?blks) = (bs', blks', full)"
        using Suc.prems bit False by (simp add: upt)
      from Suc.hyps(1)[OF d this] Suc.prems(2,3) more obtain new where
        new: "blks' = ?blks @ new" "takes (i * 8 + Suc j) (i * 8 + 8) ?bs bs' new" "length blks' \<le> num"
          "full \<longleftrightarrow> length blks' = num" by auto
      have "takes (i * 8 + j) (i * 8 + 8) bs bs' ([i * 8 + j] @ new)"
        using takes_append[OF one new(2)] j by simp
      then show ?thesis using new by (intro exI[of _ "[i * 8 + j] @ new"]) simp
    qed
  qed
qed auto

lemma alloc_words_takes:
  assumes "alloc_words n num [m..<n] (bs, blks) = (bs', blks', full)" "length bs = 8 * n" "length blks < num"
  shows "\<exists>new. blks' = blks @ new \<and> takes (64 * m) (64 * n - 16) bs bs' new \<and> length blks' \<le> num \<and>
    (full \<longleftrightarrow> length blks' = num) \<and>
    ((\<exists>k. 64 * m \<le> k \<and> k < 64 * n - 16 \<and> \<not> bmp_bit bs k) \<longrightarrow> new \<noteq> [])"
  using assms
proof (induction "n - m" arbitrary: m bs blks)
  case (Suc d)
  have upt: "[m..<n] = m # [Suc m..<n]" and m: "m < n" and d: "d = n - Suc m"
    using Suc.hyps(2) by (simp_all add: upt_rec)
  let ?w = "if m < n - 1 then 8 else 6" and ?hi = "64 * m + (if m < n - 1 then 64 else 48)"
  have hi: "?hi \<le> 64 * n - 16" "m < n - 1 \<Longrightarrow> ?hi = 64 * Suc m" "\<not> m < n - 1 \<Longrightarrow> ?hi = 64 * n - 16"
    using m by auto
  show ?case
  proof (cases "m < n - 1 \<and> word_full bs m")
    case True
    then have "alloc_words n num [Suc m..<n] (bs, blks) = (bs', blks', full)"
      using Suc.prems by (simp add: upt)
    from Suc.hyps(1)[OF d this Suc.prems(2,3)] obtain new where
      new: "blks' = blks @ new" "takes (64 * Suc m) (64 * n - 16) bs bs' new" "length blks' \<le> num"
        "full \<longleftrightarrow> length blks' = num"
        "(\<exists>k. 64 * Suc m \<le> k \<and> k < 64 * n - 16 \<and> \<not> bmp_bit bs k) \<longrightarrow> new \<noteq> []" by blast
    have "bmp_bit bs k" if "64 * m \<le> k" "k < 64 * Suc m" for k
      using word_full_bits[of m bs] True that Suc.prems(2) m by auto
    then have "(\<exists>k. 64 * m \<le> k \<and> k < 64 * n - 16 \<and> \<not> bmp_bit bs k) \<longrightarrow> new \<noteq> []"
      using new(5) by (metis not_less)
    then show ?thesis using new takes_mono[OF new(2)] by auto
  next
    case False
    show ?thesis
    proof (cases "find (\<lambda>j. bs ! j \<noteq> 255) [m * 8..<m * 8 + ?w]")
      case None
      then have full: "bmp_bit bs k" if "64 * m \<le> k" "k < ?hi" for k
        using scan_bytes_None[OF None] that by (simp split: if_splits)
      have "\<not> m < n - 1"
        using full False word_full_bits[of m bs] Suc.prems(2) m by auto
      moreover have "bs' = bs" "blks' = blks" "\<not> full" using Suc.prems(1,3) False None by (auto simp: upt)
      ultimately show ?thesis using full hi(3) Suc.prems(3) by auto
    next
      case (Some j)
      note s = scan_bytes_Some[OF Some]
      have j: "j < length bs" "m * 8 \<le> j" "j * 8 + 8 \<le> ?hi" using s(1,2) Suc.prems(2) m by (auto split: if_splits)
      obtain k where k: "find (\<lambda>k. \<not> bit (bs ! j) k) [0..<8] = Some k" using s(3) by blast
      then have k': "k < 8" "\<not> bmp_bit bs (j * 8 + k)" by (auto simp: find_upt_Some bmp_bit_def)
      obtain bs1 blks1 full1 where b: "alloc_bits num j [0..<8] (bs, blks) = (bs1, blks1, full1)"
        using prod_cases3 by blast
      from alloc_bits_takes[OF b j(1) Suc.prems(3)] k' obtain n1 where
        n1: "blks1 = blks @ n1" "takes (j * 8) (j * 8 + 8) bs bs1 n1" "length blks1 \<le> num"
          "full1 \<longleftrightarrow> length blks1 = num" "n1 \<noteq> []" by auto
      have t1: "takes (64 * m) ?hi bs bs1 n1" using takes_mono[OF n1(2)] j by auto
      show ?thesis
      proof (cases full1)
        case True
        then have "bs' = bs1" "blks' = blks1" "full" using Suc.prems(1,3) False Some b by (auto simp: upt)
        then show ?thesis using n1 True takes_mono[OF t1 order_refl hi(1)] by auto
      next
        case False1: False
        then have rec: "alloc_words n num [Suc m..<n] (bs1, blks1) = (bs', blks', full)"
          using Suc.prems(1,3) False Some b by (auto simp: upt)
        have lt: "length blks1 < num" "length bs1 = 8 * n"
          using n1 False1 Suc.prems(2) by (auto simp: takes_def)
        from Suc.hyps(1)[OF d rec lt(2,1)] obtain n2 where
          n2: "blks' = blks1 @ n2" "takes (64 * Suc m) (64 * n - 16) bs1 bs' n2" "length blks' \<le> num"
            "full \<longleftrightarrow> length blks' = num" by auto
        have "takes (64 * m) (64 * n - 16) bs bs' (n1 @ n2)"
        proof (cases "m < n - 1")
          case True
          then have "takes (64 * m) (64 * Suc m) bs bs1 n1" using t1 by (simp add: add.commute)
          then show ?thesis using takes_append[OF _ n2(2)] True by simp
        next
          case False
          then have "n = Suc m" using m by simp
          then have "bs' = bs1" "n2 = []" using rec n2(1) by auto
          then show ?thesis using takes_mono[OF t1 order_refl hi(1)] by simp
        qed
        then show ?thesis using n1 n2 by (intro exI[of _ "n1 @ n2"]) auto
      qed
    qed
  qed
qed auto

text \<open>The invariant of a block bitmap: the blocks of the bitmap itself are marked, and the count
  is the number of free blocks below the gap of sixteen.\<close>

definition bb_inv :: "geom \<Rightarrow> blk_bitmap \<Rightarrow> bool" where
  "bb_inv g b \<longleftrightarrow> geom_ok g \<and> length (m_arrBytes b) = BLKBMP_SIZE \<and>
    (\<forall>k < BLKBMP_BLKNUM g. bmp_bit (m_arrBytes b) k) \<and>
    m_wFreeCount b = card (free_below (m_arrBytes b) BLOCKS_PER_GROUP)"

definition bb_used :: "blk_bitmap \<Rightarrow> nat set" where
  "bb_used b = {k. k < BLOCKS_PER_GROUP \<and> bmp_bit (m_arrBytes b) k}"

lemma BLKBMP_BLKNUM_cases:
  "geom_ok g \<Longrightarrow> BLKBMP_BLKNUM g \<in> {2, 4, 8, 16} \<and> BLKBMP_BLKNUM g * unat (g_dwBlockSize g) = BLKBMP_SIZE"
  by (auto simp: geom_ok_def IsValidBlockSize_def BLKBMP_BLKNUM_def split: if_splits)

lemma free_below_takes:
  assumes "takes 0 n bs bs' new"
  shows "card (free_below bs' n) + length new = card (free_below bs n)"
proof -
  have "free_below bs n = free_below bs' n \<union> set new" "free_below bs' n \<inter> set new = {}"
    using assms by (auto simp: takes_def free_below_def)
  moreover have "card (set new) = length new"
    using assms by (simp add: takes_def strict_sorted_iff distinct_card)
  ultimately show ?thesis by (simp add: card_Un_disjoint)
qed

text \<open>What an allocation does to the bitmap, whatever the mode.\<close>

lemma AllocBlocks_spec:
  assumes "bb_inv g b" "num > 0" "m_wFreeCount b > 0"
    "CBlockBitmap_AllocBlocks g bSafe num b = (ret, vec, num', b', ws)"
  shows "\<exists>new. vec = map (\<lambda>k. m_dwGroupIdx b * 65536 + k) new \<and> new \<noteq> [] \<and> sorted_wrt (<) new \<and>
    (\<forall>k\<in>set new. k < BLOCKS_PER_GROUP \<and> k \<notin> bb_used b) \<and> bb_used b' = bb_used b \<union> set new \<and>
    num' = length new \<and> num' \<le> num \<and> m_wFreeCount b' = m_wFreeCount b - length new \<and>
    ret = (if length new = num then STATUS_SUCCESS else STATUS_MORE_PROCESS_NEEDED)"
    and "bb_inv g b'" and "m_dwGroupIdx b' = m_dwGroupIdx b"
proof -
  obtain bs blks full where w: "alloc_words BMP_WORDS num [0..<BMP_WORDS] (m_arrBytes b, []) = (bs, blks, full)"
    using prod_cases3 by blast
  have len: "length (m_arrBytes b) = 8 * BMP_WORDS" using assms(1) by (simp add: bb_inv_def BMP_WORDS_def)
  have bound: "64 * BMP_WORDS - 16 = 65520" by (simp add: BMP_WORDS_def)
  have free: "\<exists>k. 64 * 0 \<le> k \<and> k < 64 * BMP_WORDS - 16 \<and> \<not> bmp_bit (m_arrBytes b) k"
    using assms(1,3) by (auto simp: bb_inv_def card_gt_0_iff free_below_def BMP_WORDS_def)
  from alloc_words_takes[OF w len] assms(2) free have
    t: "takes 0 65520 (m_arrBytes b) bs blks" and num: "length blks \<le> num" "full \<longleftrightarrow> length blks = num"
    and ne: "blks \<noteq> []" by (auto simp: bound)
  note cnt = free_below_takes[OF t]
  have le: "\<not> m_wFreeCount b < length blks" using cnt assms(1) by (simp add: bb_inv_def)
  let ?n = "m_wFreeCount b - length blks"
  define bs' where "bs' = (if bSafe then put_count 8192 ?n bs else bs)"
  then have bs': "bs' = bs \<or> bs' = put_count 8192 ?n bs" by auto
  have "vec = map (\<lambda>k. m_dwGroupIdx b * 65536 + k) blks \<and> b' = b\<lparr>m_arrBytes := bs', m_wFreeCount := ?n\<rparr> \<and>
    ret = (if full then STATUS_SUCCESS else STATUS_MORE_PROCESS_NEEDED) \<and>
    num' = (if full then num else length blks)"
    using assms(4) assms(2,3) le ne
    by (cases full; cases bSafe) (auto simp: CBlockBitmap_AllocBlocks_def w Let_def bs'_def)
  then have vec: "vec = map (\<lambda>k. m_dwGroupIdx b * 65536 + k) blks" "num' = length blks"
    and b': "b' = b\<lparr>m_arrBytes := bs', m_wFreeCount := ?n\<rparr>"
    and ret: "ret = (if full then STATUS_SUCCESS else STATUS_MORE_PROCESS_NEEDED)"
    using num by (auto split: if_splits)
  have bits: "bmp_bit bs' k = bmp_bit bs k" if "k < 65520" for k
    using bs' that by (auto simp: bmp_bit_put_count)
  have fb: "free_below bs' 65520 = free_below bs 65520" using bits by (auto simp: free_below_def)
  have used: "bb_used b' = bb_used b \<union> set blks"
    using t bits by (auto simp: bb_used_def b' takes_def)
  show "bb_inv g b'"
    using assms(1) bs' t bits BLKBMP_BLKNUM_cases[of g] cnt fb
    by (auto simp: bb_inv_def b' takes_def)
  show "m_dwGroupIdx b' = m_dwGroupIdx b" by (simp add: b')
  show "\<exists>new. vec = map (\<lambda>k. m_dwGroupIdx b * 65536 + k) new \<and> new \<noteq> [] \<and> sorted_wrt (<) new \<and>
    (\<forall>k\<in>set new. k < BLOCKS_PER_GROUP \<and> k \<notin> bb_used b) \<and> bb_used b' = bb_used b \<union> set new \<and>
    num' = length new \<and> num' \<le> num \<and> m_wFreeCount b' = m_wFreeCount b - length new \<and>
    ret = (if length new = num then STATUS_SUCCESS else STATUS_MORE_PROCESS_NEEDED)"
    using vec ne t num used ret by (intro exI[of _ blks]) (auto simp: takes_def bb_used_def b')
qed

lemma free_loop_spec:
  assumes "length bs = 8192" "n + length vs < 65536" "distinct (map (\<lambda>v. v mod 65536) vs)"
    "\<forall>v\<in>set vs. v mod 65536 \<noteq> 0 \<and> bmp_bit bs (v mod 65536)"
    "free_loop vs (bs, n, freed) = (bs', n', freed')"
  shows "n' = n + length vs \<and> length bs' = 8192 \<and> freed' = freed @ map (\<lambda>v. v mod 65536) vs \<and>
    (\<forall>m. bmp_bit bs' m = (bmp_bit bs m \<and> m \<notin> (\<lambda>v. v mod 65536) ` set vs))"
  using assms
proof (induction vs arbitrary: bs n freed)
  case (Cons v vs)
  let ?k = "v mod 65536"
  let ?bs = "clear_in bs (?k div 8) (?k mod 8)"
  have bits: "bmp_bit ?bs m = (bmp_bit bs m \<and> m \<noteq> ?k)" for m
    using bmp_bit_clear_in[of "?k div 8" bs "?k mod 8" m] Cons.prems(1) by auto
  have "bs ! (?k div 8) \<noteq> 0" using Cons.prems(4) by (auto simp: bmp_bit_def)
  then have "free_loop vs (?bs, n + 1, freed @ [?k]) = (bs', n', freed')"
    using Cons.prems by (auto simp: Let_def)
  moreover have "w mod 65536 \<noteq> ?k" if "w \<in> set vs" for w
    using Cons.prems(3) imageI[OF that, of "\<lambda>v. v mod 65536"] by auto
  then have "\<forall>w\<in>set vs. w mod 65536 \<noteq> 0 \<and> bmp_bit ?bs (w mod 65536)"
    using Cons.prems(4) by (simp add: bits)
  ultimately have "n' = n + 1 + length vs \<and> length bs' = 8192 \<and>
      freed' = (freed @ [?k]) @ map (\<lambda>v. v mod 65536) vs \<and>
      (\<forall>m. bmp_bit bs' m = (bmp_bit ?bs m \<and> m \<notin> (\<lambda>v. v mod 65536) ` set vs))"
    using Cons.prems(1-3) by (intro Cons.IH) auto
  then show ?case by (auto simp: bits)
qed auto

lemma used_free_count: "card (free_below (m_arrBytes b) BLOCKS_PER_GROUP) + card (bb_used b) = BLOCKS_PER_GROUP"
proof -
  have "free_below (m_arrBytes b) BLOCKS_PER_GROUP \<union> bb_used b = {..<BLOCKS_PER_GROUP}"
    "free_below (m_arrBytes b) BLOCKS_PER_GROUP \<inter> bb_used b = {}"
    by (auto simp: free_below_def bb_used_def)
  moreover have "finite (bb_used b)" by (simp add: bb_used_def)
  ultimately show ?thesis using card_Un_disjoint[OF free_below_finite] by (metis card_lessThan)
qed

lemma FreeBlocks_spec:
  assumes "bb_inv g b" "vs \<noteq> []" "distinct (map (\<lambda>v. v mod 65536) vs)"
    "\<forall>v\<in>set vs. BLKBMP_BLKNUM g \<le> v mod 65536 \<and> v mod 65536 \<in> bb_used b"
    "CBlockBitmap_FreeBlocks g bSafe vs b = (ret, b', ws)"
  shows "ret = 0" "bb_used b' = bb_used b - (\<lambda>v. v mod 65536) ` set vs"
    "m_wFreeCount b' = m_wFreeCount b + length vs" "bb_inv g b'" "m_dwGroupIdx b' = m_dwGroupIdx b"
proof -
  let ?K = "(\<lambda>v. v mod 65536) ` set vs"
  obtain bs n freed where l: "free_loop vs (m_arrBytes b, m_wFreeCount b, []) = (bs, n, freed)"
    using prod_cases3 by blast
  have K: "?K \<subseteq> bb_used b" "card ?K = length vs"
    using assms(3,4) distinct_card[OF assms(3)] by auto
  have fin: "finite (bb_used b)" by (simp add: bb_used_def)
  note part = used_free_count[of b]
  have sub: "?K \<union> {..<BLKBMP_BLKNUM g} \<subseteq> bb_used b" "?K \<inter> {..<BLKBMP_BLKNUM g} = {}"
    using K assms(1,4) BLKBMP_BLKNUM_cases[of g] by (fastforce simp: bb_inv_def bb_used_def)+
  then have "length vs + BLKBMP_BLKNUM g \<le> card (bb_used b)"
    using card_mono[OF fin sub(1)] card_Un_disjoint[of ?K "{..<BLKBMP_BLKNUM g}"] K(2) by simp
  moreover have vs: "length vs > 0" using assms(2) by simp
  ultimately have cnt: "m_wFreeCount b + length vs \<le> BLOCKS_FREE_MAX g"
    using part assms(1) by (simp add: bb_inv_def BLOCKS_FREE_MAX_def)
  have lt: "m_wFreeCount b + length vs < 65536" using cnt by (simp add: BLOCKS_FREE_MAX_def)
  have pos: "BLKBMP_BLKNUM g > 0" using assms(1) BLKBMP_BLKNUM_cases[of g] by (auto simp: bb_inv_def)
  have len: "length (m_arrBytes b) = 8192" using assms(1) by (simp add: bb_inv_def)
  have nz: "\<forall>v\<in>set vs. v mod 65536 \<noteq> 0 \<and> bmp_bit (m_arrBytes b) (v mod 65536)"
    using assms(4) pos by (fastforce simp: bb_used_def)
  from free_loop_spec[OF len lt assms(3) nz l] vs
  have r: "n = m_wFreeCount b + length vs" "length bs = 8192" "freed \<noteq> []"
    "\<And>m. bmp_bit bs m = (bmp_bit (m_arrBytes b) m \<and> m \<notin> ?K)" by auto
  define bs' where "bs' = (if bSafe then put_count 8192 n bs else bs)"
  have "ret = 0 \<and> b' = b\<lparr>m_arrBytes := bs', m_wFreeCount := n\<rparr>"
    using assms(2,5) cnt vs r(3) by (cases bSafe) (auto simp: CBlockBitmap_FreeBlocks_def l Let_def bs'_def)
  then have ret: "ret = 0" and b': "b' = b\<lparr>m_arrBytes := bs', m_wFreeCount := n\<rparr>" by auto
  have bits: "bmp_bit bs' m = (bmp_bit (m_arrBytes b) m \<and> m \<notin> ?K)" if "m < 65520" for m
    using that r(4) by (simp add: bs'_def bmp_bit_put_count)
  have fb: "free_below bs' 65520 = free_below (m_arrBytes b) 65520 \<union> ?K"
    using bits K(1) by (auto simp: free_below_def bb_used_def)
  have "free_below (m_arrBytes b) 65520 \<inter> ?K = {}" using K(1) by (auto simp: free_below_def bb_used_def)
  then have card: "card (free_below bs' 65520) = m_wFreeCount b + length vs"
    using fb K(2) assms(1) by (simp add: card_Un_disjoint bb_inv_def)
  show "ret = 0" by (fact ret)
  show "bb_used b' = bb_used b - ?K" using bits by (auto simp: bb_used_def b')
  show "m_wFreeCount b' = m_wFreeCount b + length vs" by (simp add: b' r)
  show "m_dwGroupIdx b' = m_dwGroupIdx b" by (simp add: b')
  have "bmp_bit bs' k" if "k < BLKBMP_BLKNUM g" for k
    using bits[of k] that assms(1) sub(2) BLKBMP_BLKNUM_cases[of g] by (fastforce simp: bb_inv_def)
  then show "bb_inv g b'" using assms(1) card r(1,2) by (simp add: bb_inv_def b' bs'_def)
qed

text \<open>One block at a time, the block bitmap is a slot allocator as well.\<close>

definition blk_alloc :: "geom \<Rightarrow> bool \<Rightarrow> blk_bitmap \<Rightarrow> (nat \<times> blk_bitmap) option" where
  "blk_alloc g bSafe b =
    (case CBlockBitmap_AllocBlocks g bSafe 1 b of (ret, vec, num, b', ws) \<Rightarrow>
       if SUCCEEDED ret then Some (hd vec mod 65536, b') else None)"

definition blk_release :: "geom \<Rightarrow> bool \<Rightarrow> nat \<Rightarrow> blk_bitmap \<Rightarrow> blk_bitmap" where
  "blk_release g bSafe k b = fst (snd (CBlockBitmap_FreeBlock g bSafe k b))"

lemma blk_alloc_spec:
  assumes "bb_inv g b"
  shows "blk_alloc g bSafe b = Some (k, b') \<Longrightarrow> bb_inv g b' \<and>
      k \<in> {BLKBMP_BLKNUM g..<BLOCKS_PER_GROUP} \<and> k \<notin> bb_used b \<and> bb_used b' = insert k (bb_used b)"
    and "blk_alloc g bSafe b = None \<Longrightarrow> {BLKBMP_BLKNUM g..<BLOCKS_PER_GROUP} \<subseteq> bb_used b"
proof -
  obtain ret vec num b1 ws where a: "CBlockBitmap_AllocBlocks g bSafe 1 b = (ret, vec, num, b1, ws)"
    using prod_cases5 by blast
  show "{BLKBMP_BLKNUM g..<BLOCKS_PER_GROUP} \<subseteq> bb_used b" if "blk_alloc g bSafe b = None"
  proof (cases "m_wFreeCount b = 0")
    case True
    then show ?thesis using assms by (auto simp: bb_inv_def free_below_def bb_used_def)
  next
    case False
    from AllocBlocks_spec(1)[OF assms _ _ a] False have "ret = 0" by (auto simp: le_Suc_eq)
    then show ?thesis using that a by (simp add: blk_alloc_def)
  qed
  assume Some: "blk_alloc g bSafe b = Some (k, b')"
  then have ret: "ret = 0" "k = hd vec mod 65536" "b' = b1" using a by (auto simp: blk_alloc_def split: if_splits)
  have pos: "m_wFreeCount b > 0"
    using a ret by (cases "m_wFreeCount b = 0") (auto simp: CBlockBitmap_AllocBlocks_def)
  from AllocBlocks_spec(1)[OF assms _ pos a] obtain new where
    new: "vec = map (\<lambda>k. m_dwGroupIdx b * 65536 + k) new" "\<forall>k\<in>set new. k < BLOCKS_PER_GROUP \<and> k \<notin> bb_used b"
      "bb_used b1 = bb_used b \<union> set new" "num = length new" "new \<noteq> []" "num \<le> 1" by auto
  then obtain m where m: "new = [m]" by (cases new) auto
  have "BLKBMP_BLKNUM g \<le> m"
    using new(2) m assms by (auto simp: bb_inv_def bb_used_def not_less[symmetric])
  then show "bb_inv g b' \<and> k \<in> {BLKBMP_BLKNUM g..<BLOCKS_PER_GROUP} \<and> k \<notin> bb_used b \<and>
      bb_used b' = insert k (bb_used b)"
    using AllocBlocks_spec(2)[OF assms _ pos a] ret new m by auto
qed

interpretation blk_slots: slot_alloc "bb_inv g" "{BLKBMP_BLKNUM g..<BLOCKS_PER_GROUP}" bb_used
  "blk_alloc g bSafe" "blk_release g bSafe" for g bSafe
proof
  fix b k assume inv: "bb_inv g b" and k: "k \<in> {BLKBMP_BLKNUM g..<BLOCKS_PER_GROUP}" "k \<in> bb_used b"
  have "k \<noteq> 0" using k BLKBMP_BLKNUM_cases[of g] inv by (auto simp: bb_inv_def)
  then obtain ret b' ws where f: "CBlockBitmap_FreeBlocks g bSafe [k] b = (ret, b', ws)"
    and r: "blk_release g bSafe k b = b'"
    by (cases "CBlockBitmap_FreeBlocks g bSafe [k] b") (auto simp: blk_release_def CBlockBitmap_FreeBlock_def)
  have "k mod 65536 = k" using k by simp
  then show "bb_inv g (blk_release g bSafe k b) \<and> bb_used (blk_release g bSafe k b) = bb_used b - {k}"
    using FreeBlocks_spec[OF inv _ _ _ f] k by (simp add: r)
qed (use blk_alloc_spec in blast)+

text \<open>A new block bitmap satisfies the invariant.\<close>

lemma fold_full_length: "length (fold (\<lambda>i bs. bs[i := (255 :: byte)]) [0..<n] bs) = length bs"
  by (induction n) auto

lemma fold_full_nth:
  "j < length bs \<Longrightarrow> fold (\<lambda>i bs. bs[i := 255]) [0..<n] bs ! j = (if j < n then (255 :: byte) else bs ! j)"
  by (induction n) (auto simp: nth_list_update less_Suc_eq fold_full_length)

lemma bit_255: "k < 8 \<Longrightarrow> bit (255 :: byte) k"
  using byte_full_iff[of 255] by simp

lemma fold_set_in_bit:
  assumes "j < length bs" "n \<le> 8"
  shows "bmp_bit (fold (\<lambda>k bs. set_in bs j k) [0..<n] bs) m = (bmp_bit bs m \<or> (j * 8 \<le> m \<and> m < j * 8 + n))"
    and "length (fold (\<lambda>k bs. set_in bs j k) [0..<n] bs) = length bs"
  using assms(2)
proof (induction n)
  case (Suc n)
  { case 1
    then show ?case using Suc assms(1) by (auto simp: bmp_bit_set_in less_Suc_eq)
  next
    case 2
    then show ?case using Suc by simp }
qed auto

lemma InitBitmap_inv:
  assumes "geom_ok g" "length (m_arrBytes b) = BLKBMP_SIZE"
  shows "bb_inv g (CBlockBitmap_InitBitmap g b)"
    and "bb_used (CBlockBitmap_InitBitmap g b) = {..<BLKBMP_BLKNUM g}"
proof -
  let ?n = "BLKBMP_BLKNUM g" and ?b = "CBlockBitmap_InitBitmap g b"
  let ?bs0 = "replicate 8190 0 @ drop 8190 (m_arrBytes b)"
  let ?bs1 = "fold (\<lambda>i bs. bs[i := 255]) [0..<?n div 8] ?bs0"
  let ?bs2 = "fold (\<lambda>k bs. set_in bs (?n div 8) k) [0..<?n mod 8] ?bs1"
  have n: "?n \<in> {2, 4, 8, 16}" using BLKBMP_BLKNUM_cases[OF assms(1)] by blast
  have len: "length ?bs1 = 8192" using assms(2) by (simp add: fold_full_length)
  have "bmp_bit ?bs0 m = False" if "m < 65520" for m
  proof -
    have "m div 8 < 8190" using that by auto
    then show ?thesis by (simp add: bmp_bit_def nth_append)
  qed
  then have bs1: "bmp_bit ?bs1 m = (m div 8 < ?n div 8)" if "m < 65520" for m
    using that assms(2) bit_255[of "m mod 8"] by (auto simp: bmp_bit_def fold_full_nth)
  have "bmp_bit ?bs2 m = (m < ?n)" if "m < 65520" for m
    using fold_set_in_bit(1)[of "?n div 8" ?bs1 "?n mod 8" m] bs1[OF that] len n by auto
  then have bits: "bmp_bit (m_arrBytes ?b) m = (m < ?n)" if "m < 65520" for m
    using that by (simp add: CBlockBitmap_InitBitmap_def Let_def bmp_bit_put_count)
  have "length ?bs2 = 8192" using fold_set_in_bit(2)[of "?n div 8" ?bs1 "?n mod 8"] len n by auto
  then have len2: "length (m_arrBytes ?b) = 8192" by (simp add: CBlockBitmap_InitBitmap_def Let_def)
  have "free_below (m_arrBytes ?b) 65520 = {?n..<65520}" using bits by (auto simp: free_below_def)
  then have "card (free_below (m_arrBytes ?b) 65520) = BLOCKS_FREE_MAX g" by (simp add: BLOCKS_FREE_MAX_def)
  moreover have "m_wFreeCount ?b = BLOCKS_FREE_MAX g" by (simp add: CBlockBitmap_InitBitmap_def Let_def)
  ultimately show "bb_inv g ?b" using assms(1) len2 bits n by (auto simp: bb_inv_def)
  show "bb_used ?b = {..<?n}" using bits n by (auto simp: bb_used_def)
qed

lemma CGroupBitmap_Format_inv:
  assumes "geom_ok g"
  shows "gb_inv g (fst (CGroupBitmap_Format g))" "gb_used g (fst (CGroupBitmap_Format g)) = {}"
proof -
  obtain n where n: "GRPBMP_SIZE g = 8 * n" "BLKGRP_NUMBER g = 64 * n - 16" using geom_ok_sizes[OF assms] by metis
  let ?b = "fst (CGroupBitmap_Format g)"
  have bits: "\<not> bmp_bit (m_arrBytes ?b) k" if "k < BLKGRP_NUMBER g" for k
  proof -
    have "k div 8 < 8 * n" using that n by auto
    moreover have "bmp_bit (m_arrBytes ?b) k = bmp_bit (replicate (8 * n) 0) k"
      using that n by (simp add: CGroupBitmap_Format_def Let_def bmp_bit_put_count)
    ultimately show ?thesis by (simp add: bmp_bit_def)
  qed
  then have "free_below (m_arrBytes ?b) (BLKGRP_NUMBER g) = {..<BLKGRP_NUMBER g}"
    by (auto simp: free_below_def)
  then show "gb_inv g ?b"
    using assms by (simp add: gb_inv_def) (simp add: CGroupBitmap_Format_def Let_def)
  show "gb_used g ?b = {}" using bits by (auto simp: gb_used_def)
qed

lemma default_geom_ok: "geom_ok default_geom"
  by (simp add: geom_ok_def default_geom_def IsValidBlockSize_def IsValidPageSize_def find_shift_default Let_def)

section \<open>Properties\<close>

text \<open>C17. \<^verbatim>\<open>AllocBlocks\<close> on a consistent bitmap with free blocks hands out at least one and at most
  the requested number of blocks, all different, all of this group, none of them in use before
  and none in the reserved parts, marks exactly these and lowers the count by their number.
  It reports success exactly when the request was met in full and never fails.\<close>

theorem alloc_blocks_fresh:
  assumes "bb_inv g b" "0 < num" "0 < m_wFreeCount b"
    "CBlockBitmap_AllocBlocks g bSafe num b = (ret, vec, num', b', ws)"
  shows "ret = (if length vec = num then STATUS_SUCCESS else STATUS_MORE_PROCESS_NEEDED) \<and>
    num' = length vec \<and> 1 \<le> length vec \<and> length vec \<le> num \<and> distinct vec \<and>
    (\<forall>v\<in>set vec. v div 65536 = m_dwGroupIdx b \<and> v mod 65536 \<in> {BLKBMP_BLKNUM g..<BLOCKS_PER_GROUP} - bb_used b) \<and>
    bb_used b' = bb_used b \<union> (\<lambda>v. v mod 65536) ` set vec \<and>
    m_wFreeCount b' + length vec = m_wFreeCount b \<and> bb_inv g b'"
proof -
  from AllocBlocks_spec(1)[OF assms] obtain new where
    new: "vec = map (\<lambda>k. m_dwGroupIdx b * 65536 + k) new" "new \<noteq> []" "sorted_wrt (<) new"
      "\<forall>k\<in>set new. k < BLOCKS_PER_GROUP \<and> k \<notin> bb_used b" "bb_used b' = bb_used b \<union> set new"
      "num' = length new" "num' \<le> num" "m_wFreeCount b' = m_wFreeCount b - length new"
      "ret = (if length new = num then STATUS_SUCCESS else STATUS_MORE_PROCESS_NEEDED)" by blast
  have inv': "bb_inv g b'" by (rule AllocBlocks_spec(2)[OF assms])
  have idx: "(m_dwGroupIdx b * 65536 + k) div 65536 = m_dwGroupIdx b"
    "(m_dwGroupIdx b * 65536 + k) mod 65536 = k" if "k \<in> set new" for k
    using new(4) that by auto
  then have img: "(\<lambda>v. v mod 65536) ` set vec = set new" using new(1) by (auto simp: image_image)
  have low: "BLKBMP_BLKNUM g \<le> k" if "k \<in> set new" for k
    using new(4) that assms(1) by (auto simp: bb_inv_def bb_used_def not_less[symmetric])
  have "length new \<le> m_wFreeCount b"
  proof -
    have "set new \<subseteq> free_below (m_arrBytes b) BLOCKS_PER_GROUP"
      using new(4) by (auto simp: free_below_def bb_used_def)
    then have "card (set new) \<le> m_wFreeCount b"
      using card_mono[OF free_below_finite] assms(1) by (simp add: bb_inv_def)
    then show ?thesis using new(3) by (simp add: strict_sorted_iff distinct_card)
  qed
  moreover have "distinct vec" using new(1,3) by (simp add: strict_sorted_iff distinct_map inj_on_def)
  moreover have "1 \<le> length vec" using new(1,2) by (simp add: Suc_le_eq)
  moreover have "\<forall>v\<in>set vec. v div 65536 = m_dwGroupIdx b \<and>
      v mod 65536 \<in> {BLKBMP_BLKNUM g..<BLOCKS_PER_GROUP} - bb_used b"
    using new(1,4) idx low by auto
  ultimately show ?thesis using new inv' img by simp
qed

text \<open>An empty bitmap of group 3, for the witnesses.\<close>

definition sample_bmp :: blk_bitmap where
  "sample_bmp = CBlockBitmap_InitBitmap default_geom
    \<lparr>m_arrBytes = replicate BLKBMP_SIZE 0, m_wFreeCount = 0, m_dwGroupIdx = 3\<rparr>"

lemma sample_bmp_inv: "bb_inv default_geom sample_bmp" "bb_used sample_bmp = {..<16}"
  "m_wFreeCount sample_bmp = 65504" "m_dwGroupIdx sample_bmp = 3"
proof -
  have n: "BLKBMP_BLKNUM default_geom = 16" by (simp add: BLKBMP_BLKNUM_def default_geom_def)
  show "bb_inv default_geom sample_bmp" "bb_used sample_bmp = {..<16}"
    using InitBitmap_inv[OF default_geom_ok] n by (simp_all add: sample_bmp_def)
  show "m_wFreeCount sample_bmp = 65504" "m_dwGroupIdx sample_bmp = 3"
    by (simp_all add: sample_bmp_def CBlockBitmap_InitBitmap_def Let_def BLOCKS_FREE_MAX_def n)
qed

theorem alloc_blocks_fresh_witness:
  "\<exists>ret vec num' b' ws. CBlockBitmap_AllocBlocks default_geom True 5 sample_bmp = (ret, vec, num', b', ws) \<and>
    distinct vec \<and> 1 \<le> length vec \<and> m_wFreeCount b' + length vec = 65504"
proof -
  obtain ret vec num' b' ws where
    a: "CBlockBitmap_AllocBlocks default_geom True 5 sample_bmp = (ret, vec, num', b', ws)"
    using prod_cases5 by blast
  from alloc_blocks_fresh[OF sample_bmp_inv(1) _ _ a] show ?thesis
    unfolding a by (simp add: sample_bmp_inv)
qed

text \<open>C19. Freeing what was just allocated restores the bitmap: the same blocks are in use as
  before and the count is the same, in either mode.\<close>

theorem alloc_free_roundtrip:
  assumes "bb_inv g b" "0 < num" "0 < m_wFreeCount b"
    "CBlockBitmap_AllocBlocks g bSafe num b = (ret, vec, num', b', ws)"
    "CBlockBitmap_FreeBlocks g bSafe' vec b' = (ret', b'', ws')"
  shows "ret' = 0 \<and> bb_used b'' = bb_used b \<and> m_wFreeCount b'' = m_wFreeCount b \<and> bb_inv g b''"
proof -
  from AllocBlocks_spec(1)[OF assms(1-4)] obtain new where
    new: "vec = map (\<lambda>k. m_dwGroupIdx b * 65536 + k) new" "new \<noteq> []" "sorted_wrt (<) new"
      "\<forall>k\<in>set new. k < BLOCKS_PER_GROUP \<and> k \<notin> bb_used b" "bb_used b' = bb_used b \<union> set new"
      "m_wFreeCount b' = m_wFreeCount b - length new" by blast
  note inv' = AllocBlocks_spec(2)[OF assms(1-4)]
  have mods: "map (\<lambda>v. v mod 65536) vec = new"
    unfolding new(1) map_map by (rule map_idI) (use new(4) in auto)
  then have img: "(\<lambda>v. v mod 65536) ` set vec = set new" by (metis list.set_map)
  have low: "BLKBMP_BLKNUM g \<le> k" if "k \<in> set new" for k
    using new(4) that assms(1) by (auto simp: bb_inv_def bb_used_def not_less[symmetric])
  have "\<forall>v\<in>set vec. BLKBMP_BLKNUM g \<le> v mod 65536 \<and> v mod 65536 \<in> bb_used b'"
    using img low new(5) by auto
  moreover have "distinct (map (\<lambda>v. v mod 65536) vec)" using mods new(3) by (simp add: strict_sorted_iff)
  moreover have "vec \<noteq> []" using new(1,2) by simp
  ultimately have r: "ret' = 0" "bb_used b'' = bb_used b' - (\<lambda>v. v mod 65536) ` set vec"
    "m_wFreeCount b'' = m_wFreeCount b' + length vec" "bb_inv g b''"
    using FreeBlocks_spec[OF inv' _ _ _ assms(5)] by blast+
  have "bb_used b'' = bb_used b" using r(2) img new(4,5) by auto
  then show ?thesis using r assms(1) used_free_count[of b] used_free_count[of b''] by (simp add: bb_inv_def)
qed

theorem alloc_free_roundtrip_witness:
  "\<exists>ret vec num' b' ws ret' b'' ws'.
    CBlockBitmap_AllocBlocks default_geom True 5 sample_bmp = (ret, vec, num', b', ws) \<and>
    CBlockBitmap_FreeBlocks default_geom False vec b' = (ret', b'', ws') \<and> bb_used b'' = {..<16}"
proof -
  obtain ret vec num' b' ws where
    a: "CBlockBitmap_AllocBlocks default_geom True 5 sample_bmp = (ret, vec, num', b', ws)"
    using prod_cases5 by blast
  obtain ret' b'' ws' where f: "CBlockBitmap_FreeBlocks default_geom False vec b' = (ret', b'', ws')"
    using prod_cases3 by blast
  from alloc_free_roundtrip[OF sample_bmp_inv(1) _ _ a f] show ?thesis
    unfolding a using f by (simp add: sample_bmp_inv)
qed

text \<open>C28. No group is given out twice: after any sequence of allocations and of releases of
  groups that are held, starting from a freshly formatted bitmap, the groups held are all
  different, \<^verbatim>\<open>IsBlockGroupFree\<close> denies exactly these, and the count is what is left.\<close>

theorem groups_exclusive:
  assumes "geom_ok g"
    "fold (slot_step (grp_alloc g) (grp_release g)) ops ([], fst (CGroupBitmap_Format g)) = (held, b)"
  shows "distinct held \<and> m_wFreeCount b + length held = BLKGRP_NUMBER g \<and>
    (\<forall>k < BLKGRP_NUMBER g. IsBlockGroupFree g k b = (if k \<in> set held then ERROR_FALSE else 0))"
proof -
  from grp_slots.run_exclusive[OF CGroupBitmap_Format_inv(1)[OF assms(1)] _ _ _ _ assms(2), of "{}"]
  have r: "gb_inv g b" "distinct held" "gb_used g b = set held"
    using CGroupBitmap_Format_inv(2)[OF assms(1)] by auto
  have "free_below (m_arrBytes b) (BLKGRP_NUMBER g) \<union> set held = {..<BLKGRP_NUMBER g}"
    "free_below (m_arrBytes b) (BLKGRP_NUMBER g) \<inter> set held = {}"
    using r(3) by (auto simp: free_below_def gb_used_def)
  then have "card (free_below (m_arrBytes b) (BLKGRP_NUMBER g)) + card (set held) = BLKGRP_NUMBER g"
    using card_Un_disjoint[OF free_below_finite] by (metis List.finite_set card_lessThan)
  then have cnt: "m_wFreeCount b + length held = BLKGRP_NUMBER g"
    using r by (simp add: gb_inv_def distinct_card)
  have "IsBlockGroupFree g k b = (if k \<in> set held then ERROR_FALSE else 0)" if "k < BLKGRP_NUMBER g" for k
  proof (cases "m_wFreeCount b = BLKGRP_NUMBER g")
    case True
    then show ?thesis using cnt by (simp add: IsBlockGroupFree_def)
  next
    case False
    have "(k \<in> set held) = bmp_bit (m_arrBytes b) k" using r(3) that by (auto simp: gb_used_def)
    then show ?thesis using False that by (simp add: IsBlockGroupFree_def bmp_bit_def)
  qed
  then show ?thesis using r cnt by blast
qed

theorem groups_exclusive_witness:
  "\<exists>held b. fold (slot_step (grp_alloc default_geom) (grp_release default_geom)) [SAlloc, SAlloc, SFree 0]
      ([], fst (CGroupBitmap_Format default_geom)) = (held, b) \<and> distinct held \<and>
    m_wFreeCount b + length held = 4080"
proof -
  obtain held b where r: "fold (slot_step (grp_alloc default_geom) (grp_release default_geom)) [SAlloc, SAlloc, SFree 0]
      ([], fst (CGroupBitmap_Format default_geom)) = (held, b)" by fastforce
  have "BLKGRP_NUMBER default_geom = 4080" by (simp add: BLKGRP_NUMBER_def default_geom_def find_shift_default)
  with groups_exclusive[OF default_geom_ok r] r show ?thesis by metis
qed

text \<open>C34. The search of \<^verbatim>\<open>AllocGroup\<close>, which skips full words, compares bytes and leaves out the
  count at the end, is first fit: it returns the lowest free group, and it fails exactly when
  no group is free.\<close>

theorem alloc_group_first_fit:
  assumes "gb_inv g b" "AllocGroup g b = (ret, r, b', ws)"
  shows "ret = (if r = None then - ENOMEM else 0) \<and>
    r = (if {..<BLKGRP_NUMBER g} \<subseteq> gb_used g b then None
         else Some (LEAST k. k < BLKGRP_NUMBER g \<and> k \<notin> gb_used g b))"
proof (cases r)
  case None
  then have "grp_alloc g b = None" using assms(2) by (simp add: grp_alloc_def)
  from AllocGroup_None[OF assms(1) this] assms(2) None show ?thesis by auto
next
  case (Some k)
  then have "grp_alloc g b = Some (k, b')" using assms(2) by (simp add: grp_alloc_def)
  from AllocGroup_spec(1)[OF assms(1) this]
  have k: "k < BLKGRP_NUMBER g" "k \<notin> gb_used g b" "\<And>l. l < k \<Longrightarrow> l \<in> gb_used g b"
    by (auto simp: first_free_def gb_used_def)
  then have "(LEAST k. k < BLKGRP_NUMBER g \<and> k \<notin> gb_used g b) = k"
    by (intro Least_equality) (auto simp: not_less[symmetric])
  moreover have "ret = 0" using assms(2) Some
    by (auto simp: AllocGroup_def Let_def split: if_splits option.splits prod.splits)
  ultimately show ?thesis using k(1,2) Some by auto
qed

theorem alloc_group_first_fit_witness:
  "\<exists>ret r b' ws. AllocGroup default_geom (fst (CGroupBitmap_Format default_geom)) = (ret, r, b', ws) \<and>
    r = Some 0 \<and> ret = 0"
proof -
  obtain ret r b' ws where a: "AllocGroup default_geom (fst (CGroupBitmap_Format default_geom)) = (ret, r, b', ws)"
    using prod_cases4 by blast
  have n: "BLKGRP_NUMBER default_geom = 4080" by (simp add: BLKGRP_NUMBER_def default_geom_def find_shift_default)
  have "(LEAST k::nat. k < 4080) = 0" by (rule Least_equality) auto
  moreover have "{..<4080 :: nat} \<noteq> {}" by (auto simp: lessThan_empty_iff)
  ultimately show ?thesis
    using alloc_group_first_fit[OF CGroupBitmap_Format_inv(1)[OF default_geom_ok] a]
    CGroupBitmap_Format_inv(2)[OF default_geom_ok] a n by simp
qed

text \<open>C35. A block bitmap survives saving and loading: \<^verbatim>\<open>Reload\<close> of the image that \<^verbatim>\<open>Flush\<close> wrote gives
  the flushed bitmap back, with the count, into any bitmap of the same group.\<close>

theorem bitmap_flush_reload:
  assumes "bb_inv g b" "CBlockBitmap_Flush g b = (b1, blks, img)" "\<not> ERROR ret"
    "m_dwGroupIdx b0 = m_dwGroupIdx b"
  shows "CBlockBitmap_Reload ret img b0 = (0, b1) \<and> bb_used b1 = bb_used b \<and> bb_inv g b1 \<and>
    length img = length blks * unat (g_dwBlockSize g)"
proof -
  let ?bs = "put_count 8192 (m_wFreeCount b) (m_arrBytes b)"
  have b1: "b1 = b\<lparr>m_arrBytes := ?bs\<rparr>" and img: "img = take 8192 ?bs" and blks: "blks = bmp_blocks g b"
    using assms(2) by (auto simp: CBlockBitmap_Flush_def Let_def)
  have len: "length ?bs = 8192" using assms(1) by (simp add: bb_inv_def)
  have lt: "m_wFreeCount b < 65536" using assms(1) used_free_count[of b] by (simp add: bb_inv_def)
  have cnt: "get_count 8192 ?bs = m_wFreeCount b" using get_put_count[OF lt, of 8192] len by simp
  have bits: "bmp_bit ?bs k = bmp_bit (m_arrBytes b) k" if "k < 65520" for k
    using that by (simp add: bmp_bit_put_count)
  have used: "bb_used b1 = bb_used b" using bits by (auto simp: bb_used_def b1)
  have "free_below ?bs 65520 = free_below (m_arrBytes b) 65520" using bits by (auto simp: free_below_def)
  then have inv: "bb_inv g b1"
    using assms(1) bits BLKBMP_BLKNUM_cases[of g] by (auto simp: bb_inv_def b1)
  have "length img = length blks * unat (g_dwBlockSize g)"
    using len BLKBMP_BLKNUM_cases[of g] assms(1) by (simp add: img blks bmp_blocks_def bb_inv_def)
  moreover have "CBlockBitmap_Reload ret img b0 = (0, b1)"
    using assms(3,4) len cnt by (cases b0; cases b) (simp add: CBlockBitmap_Reload_def b1 img)
  ultimately show ?thesis using used inv by blast
qed

theorem bitmap_flush_reload_witness:
  "\<exists>b1 blks img. CBlockBitmap_Flush default_geom sample_bmp = (b1, blks, img) \<and>
    CBlockBitmap_Reload 8192 img (sample_bmp\<lparr>m_arrBytes := [], m_wFreeCount := 1\<rparr>) = (0, b1) \<and> bb_used b1 = {..<16}"
proof -
  obtain b1 blks img where f: "CBlockBitmap_Flush default_geom sample_bmp = (b1, blks, img)"
    using prod_cases3 by blast
  from bitmap_flush_reload[OF sample_bmp_inv(1) f, of 8192 "sample_bmp\<lparr>m_arrBytes := [], m_wFreeCount := 1\<rparr>"] f
  show ?thesis by (simp add: sample_bmp_inv)
qed

text \<open>Freeing a block twice corrupts the count. If another block of the same byte is still in
  use, freeing a free block raises the count although no block was freed, so the count no
  longer agrees with the map.\<close>

lemma double_free_miscounts:
  assumes "bb_inv g b" "0 < k" "k < BLOCKS_PER_GROUP" "k \<notin> bb_used b" "m_arrBytes b ! (k div 8) \<noteq> 0"
    "m_wFreeCount b \<noteq> BLOCKS_FREE_MAX g" "CBlockBitmap_FreeBlock g False k b = (ret, b', ws)"
  shows "ret = 0 \<and> bb_used b' = bb_used b \<and> m_wFreeCount b' = m_wFreeCount b + 1 \<and> \<not> bb_inv g b'"
proof -
  let ?bs = "clear_in (m_arrBytes b) (k div 8) (k mod 8)"
  have len: "length (m_arrBytes b) = 8192" using assms(1) by (simp add: bb_inv_def)
  have "m_wFreeCount b < 65535" using assms(1) used_free_count[of b] by (simp add: bb_inv_def)
  then have b': "b' = b\<lparr>m_arrBytes := ?bs, m_wFreeCount := m_wFreeCount b + 1\<rparr>" "ret = 0"
    using assms(2,3,5-7)
    by (auto simp: CBlockBitmap_FreeBlock_def CBlockBitmap_FreeBlocks_def Let_def)
  have "bmp_bit ?bs m = bmp_bit (m_arrBytes b) m" for m
    using bmp_bit_clear_in[of "k div 8" "m_arrBytes b" "k mod 8" m] len assms(3,4) by (auto simp: bb_used_def)
  then have used: "bb_used b' = bb_used b" by (simp add: bb_used_def b')
  then have "\<not> bb_inv g b'"
    using used_free_count[of b] used_free_count[of b'] assms(1) by (simp add: bb_inv_def b'(1))
  then show ?thesis using b' used by simp
qed

definition sample_bmp1 :: blk_bitmap where
  "sample_bmp1 = sample_bmp\<lparr>m_arrBytes := set_in (m_arrBytes sample_bmp) 2 0, m_wFreeCount := 65503\<rparr>"

lemma sample_bmp1_inv: "bb_inv default_geom sample_bmp1" "bb_used sample_bmp1 = {..<17}"
  "m_arrBytes sample_bmp1 ! 2 \<noteq> 0"
proof -
  have len: "length (m_arrBytes sample_bmp) = 8192" using sample_bmp_inv(1) by (simp add: bb_inv_def)
  have bits: "bmp_bit (m_arrBytes sample_bmp1) m = (bmp_bit (m_arrBytes sample_bmp) m \<or> m = 16)" for m
    using bmp_bit_set_in[of 2 "m_arrBytes sample_bmp" 0 m] len by (simp add: sample_bmp1_def)
  have mem: "k \<in> bb_used sample_bmp \<longleftrightarrow> k \<in> {..<16}" for k by (simp only: sample_bmp_inv(2))
  then have iff: "k < 65520 \<and> bmp_bit (m_arrBytes sample_bmp) k \<longleftrightarrow> k < 16" for k by (simp add: bb_used_def)
  then have free: "\<not> bmp_bit (m_arrBytes sample_bmp) 16" using iff[of 16] by simp
  have "card (free_below (m_arrBytes sample_bmp1) 65520) = 65503"
    using free_below_remove(1)[of 16 65520, OF _ free bits] sample_bmp_inv(1,3) by (simp add: bb_inv_def)
  then show "bb_inv default_geom sample_bmp1"
    using sample_bmp_inv(1) bits len by (auto simp: bb_inv_def) (simp_all add: sample_bmp1_def)
  show "bb_used sample_bmp1 = {..<17}"
  proof (rule set_eqI)
    fix k show "k \<in> bb_used sample_bmp1 \<longleftrightarrow> k \<in> {..<17}"
      using iff[of k] by (auto simp: bb_used_def bits)
  qed
  have "bmp_bit (m_arrBytes sample_bmp1) 16" using bits by simp
  then show "m_arrBytes sample_bmp1 ! 2 \<noteq> 0" by (auto simp: bmp_bit_def)
qed

end
