(* ===== verification/BlkCache.thy ===== *)
theory BlkCache
  imports BlkAddr "HOL-Library.Multiset"
begin

text \<open>
  The write-back cache of the block allocator (\<^verbatim>\<open>CBlockAllocator\<close> in safe mode, the second half of
  \<^verbatim>\<open>monitor/registry/blkalloc.cpp\<close>): grouping block indices into contiguous runs, intersecting
  and subtracting runs, writing into and reading through the cache, merging neighbouring
  buffers and committing them to the image.

  All copies of the source move whole blocks, so a buffer is a list of blocks here and an
  offset counts blocks. \<^verbatim>\<open>m_mapDirtyBlks\<close> is the list of the entries of the \<^verbatim>\<open>std::map\<close> in the order of
  their keys. The image is the content of the file by byte offset; a block lies at the 32-bit offset \<open>BLOCK_ABS\<close> of its index,
  which wraps, and the two special keys -2 and -4 stand for super block and group bitmap. The indices are
  below \<open>2^32\<close>, so the sums of index and count are natural numbers.
\<close>

section \<open>Data\<close>

type_synonym block = "byte list"
type_synonym dirty = "(nat \<times> block list) list"

record contblks =
  first :: nat
  second :: nat
  third :: nat
  dwKey :: nat

abbreviation (input) SUPER_KEY :: nat where "SUPER_KEY \<equiv> 4294967294"
abbreviation (input) GRPBMP_KEY :: nat where "GRPBMP_KEY \<equiv> 4294967292"
abbreviation (input) CACHE_MAX_BLOCKS :: nat where "CACHE_MAX_BLOCKS \<equiv> 65536"

text \<open>The members of \<^verbatim>\<open>CBlockAllocator\<close> that the cache uses; \<open>m_image\<close> is the content of the file
  behind \<^verbatim>\<open>m_iFd\<close>.\<close>

record blk_cache =
  m_mapDirtyBlks :: dirty
  m_dwDirtyBlkCount :: nat
  m_dwCacheAge :: nat
  m_dwTransCount :: nat
  m_oStartTime :: int
  m_bStopped :: bool
  m_image :: "nat \<Rightarrow> byte"

section \<open>The file\<close>

abbreviation (input) bsz :: "geom \<Rightarrow> nat" where "bsz g \<equiv> unat (g_dwBlockSize g)"

definition file_off :: "geom \<Rightarrow> nat \<Rightarrow> nat" where
  "file_off g key =
    (if key = SUPER_KEY then 0 else if key = GRPBMP_KEY then bsz g else unat (BLOCK_ABS g (word_of_nat key)))"

text \<open>
  \<^verbatim>\<open>ReadWriteFile\<close> at the offset \<open>off\<close>. \<open>st\<close> is the answer of \<^verbatim>\<open>read\<close> or \<^verbatim>\<open>write\<close>, the number of bytes or a negative errno. The result of
  \<^verbatim>\<open>lseek\<close> is kept in a \<^verbatim>\<open>gint32\<close>: from 2 GiB on it is negative and taken for an error, nothing is transferred, and the status is the
  negated errno of some earlier call, which may be 0; \<open>st\<close> stands for it then.
\<close>

definition io_ret :: "nat \<Rightarrow> gint32 \<Rightarrow> gint32" where
  "io_ret off st = (if off < 2147483648 then st else min st 0)"

definition io_count :: "nat \<Rightarrow> gint32 \<Rightarrow> nat \<Rightarrow> nat" where
  "io_count off st n = (if off < 2147483648 then min (nat st) n else 0)"

definition put_bytes :: "nat \<Rightarrow> byte list \<Rightarrow> (nat \<Rightarrow> byte) \<Rightarrow> nat \<Rightarrow> byte" where
  "put_bytes off bytes img = (\<lambda>a. if off \<le> a \<and> a < off + length bytes then bytes ! (a - off) else img a)"

definition WriteFile_at :: "nat \<Rightarrow> gint32 \<Rightarrow> byte list \<Rightarrow> (nat \<Rightarrow> byte) \<Rightarrow> gint32 \<times> (nat \<Rightarrow> byte)" where
  "WriteFile_at off st bytes img = (io_ret off st, put_bytes off (take (io_count off st (length bytes)) bytes) img)"

definition ReadFile_at :: "nat \<Rightarrow> gint32 \<Rightarrow> nat \<Rightarrow> byte list \<Rightarrow> (nat \<Rightarrow> byte) \<Rightarrow> gint32 \<times> byte list" where
  "ReadFile_at off st dwSize buf img =
    (let n = io_count off st dwSize in (io_ret off st, map img [off..<off + n] @ drop n buf))"

text \<open>A buffer of bytes as \<open>n\<close> blocks.\<close>

definition in_blocks :: "nat \<Rightarrow> nat \<Rightarrow> byte list \<Rightarrow> block list" where
  "in_blocks sz n bytes = map (\<lambda>i. take sz (drop (i * sz) bytes)) [0..<n]"

section \<open>Runs of blocks\<close>

definition bswap32 :: "nat \<Rightarrow> nat" where
  "bswap32 n = (n mod 256) * 16777216 + (n div 256 mod 256) * 65536 + (n div 65536 mod 256) * 256 +
    n div 16777216 mod 256"

text \<open>The loop of \<^verbatim>\<open>FindContigousBlocks\<close>: a run is continued by the next index of the same group,
  and a hole by another hole.\<close>

fun find_cont_loop :: "nat list \<Rightarrow> nat \<Rightarrow> nat \<Rightarrow> nat \<Rightarrow> (nat \<times> nat) list" where
  "find_cont_loop [] dwPrev dwBase dwCount = [(dwBase, dwCount)]"
| "find_cont_loop (dwBlkIdx # rest) dwPrev dwBase dwCount =
    (if dwBlkIdx = dwPrev + 1 \<and> dwBlkIdx mod 65536 \<noteq> 0
     then find_cont_loop rest (dwPrev + 1) dwBase (dwCount + 1)
     else if dwBlkIdx = INVALID_BLOCK_IDX \<and> dwBase = INVALID_BLOCK_IDX
     then find_cont_loop rest dwBlkIdx dwBase (dwCount + 1)
     else (dwBase, dwCount) # find_cont_loop rest dwBlkIdx dwBlkIdx 1)"

definition FindContigousBlocks :: "nat list \<Rightarrow> bool \<Rightarrow> gint32 \<times> (nat \<times> nat) list" where
  "FindContigousBlocks pBlocks bByteOrder =
    (case (if bByteOrder then map bswap32 pBlocks else pBlocks) of
       [] \<Rightarrow> (- EINVAL, [])
     | b # rest \<Rightarrow> (STATUS_SUCCESS, find_cont_loop rest b b 1))"

text \<open>The conversion of the runs to right-open intervals with the offset in the buffer, as
  \<^verbatim>\<open>CacheBlocks\<close> and \<^verbatim>\<open>ReadCache\<close> do it.\<close>

fun to_intervals :: "nat \<Rightarrow> (nat \<times> nat) list \<Rightarrow> contblks list" where
  "to_intervals dwOff [] = []"
| "to_intervals dwOff ((b, n) # rest) =
    \<lparr>first = b, second = b + n, third = dwOff, dwKey = 0\<rparr> # to_intervals (dwOff + n) rest"

text \<open>\<^verbatim>\<open>lower_bound\<close> and one step back: the last entry that starts before \<open>a\<close>, or the first one.\<close>

fun seek_entry :: "nat \<Rightarrow> dirty \<Rightarrow> dirty" where
  "seek_entry a (e # e' # ds) = (if fst e' < a then seek_entry a (e' # ds) else e # e' # ds)"
| "seek_entry a ds = ds"

function intersect_loop :: "contblks list \<Rightarrow> dirty \<Rightarrow> contblks list" where
  "intersect_loop [] ds = []"
| "intersect_loop (x # xs) [] = []"
| "intersect_loop (x # xs) ((k, buf) # ds) =
    (let start = max (first x) k; end2 = k + length buf; en = min (second x) end2;
         hit = (if start < en
           then [\<lparr>first = start, second = en,
             third = (if start = first x then third x else third x + (start - first x)), dwKey = k\<rparr>]
           else []) in
     hit @ (if second x < end2 then intersect_loop xs ((k, buf) # ds)
            else intersect_loop (x # xs) ds))"
  by pat_completeness auto
termination by (relation "measure (\<lambda>(xs, ds). length xs + length ds)") auto

definition IntersectIntervals :: "contblks list \<Rightarrow> dirty \<Rightarrow> contblks list" where
  "IntersectIntervals intervals1 intervals2 =
    (case intervals1 of
       [] \<Rightarrow> []
     | x # xs \<Rightarrow> if intervals2 = [] then [] else intersect_loop intervals1 (seek_entry (first x) intervals2))"

text \<open>\<^verbatim>\<open>SubtractIntervals\<close>: the inner loop over the second list, which collects the gaps before each
  interval that starts below \<open>end1\<close>.\<close>

fun subtract_inner :: "contblks \<Rightarrow> nat \<Rightarrow> contblks list \<Rightarrow> contblks list \<times> nat \<times> contblks list" where
  "subtract_inner x cur [] = ([], cur, [])"
| "subtract_inner x cur (y # ys) =
    (if first y < second x then
       let gap = (if first y > cur
             then [\<lparr>first = cur, second = first y, third = third x + (cur - first x), dwKey = 0\<rparr>] else []);
           (res, cur', ys') = subtract_inner x (max cur (second y)) ys in
       (gap @ res, cur', ys')
     else ([], cur, y # ys))"

fun subtract_loop :: "contblks list \<Rightarrow> contblks list \<Rightarrow> contblks list" where
  "subtract_loop [] ys = []"
| "subtract_loop (x # xs) ys =
    (let (res, cur, ys') = subtract_inner x (first x) (dropWhile (\<lambda>y. second y \<le> first x) ys) in
     res @ (if cur < second x
            then [\<lparr>first = cur, second = second x, third = third x + (cur - first x), dwKey = 0\<rparr>] else [])
         @ subtract_loop xs ys')"

definition SubtractIntervals :: "contblks list \<Rightarrow> contblks list \<Rightarrow> contblks list" where
  "SubtractIntervals intervals1 intervals2 =
    (if intervals2 = [] then intervals1 else subtract_loop intervals1 intervals2)"

section \<open>Cache operations\<close>

text \<open>\<^verbatim>\<open>memcpy\<close> of the blocks \<open>seg\<close> to offset \<open>off\<close>, in a buffer and in the buffer of an entry.\<close>

definition put_seg :: "nat \<Rightarrow> block list \<Rightarrow> block list \<Rightarrow> block list" where
  "put_seg off seg buf = take off buf @ seg @ drop (off + length seg) buf"

definition get_seg :: "nat \<Rightarrow> nat \<Rightarrow> block list \<Rightarrow> block list" where
  "get_seg off n buf = take n (drop off buf)"

definition upd_entry :: "nat \<Rightarrow> nat \<Rightarrow> block list \<Rightarrow> dirty \<Rightarrow> dirty" where
  "upd_entry key off seg ds = map (\<lambda>(k, buf). if k = key then (k, put_seg off seg buf) else (k, buf)) ds"

text \<open>\<^verbatim>\<open>emplace\<close> keeps an entry that is there, \<^verbatim>\<open>operator[]\<close> replaces it.\<close>

fun emplace :: "nat \<Rightarrow> block list \<Rightarrow> dirty \<Rightarrow> dirty" where
  "emplace key buf [] = [(key, buf)]"
| "emplace key buf ((k, b) # ds) =
    (if key < k then (key, buf) # (k, b) # ds
     else if key = k then (k, b) # ds
     else (k, b) # emplace key buf ds)"

fun assign_entry :: "nat \<Rightarrow> block list \<Rightarrow> dirty \<Rightarrow> dirty" where
  "assign_entry key buf [] = [(key, buf)]"
| "assign_entry key buf ((k, b) # ds) =
    (if key < k then (key, buf) # (k, b) # ds
     else if key = k then (k, buf) # ds
     else (k, b) # assign_entry key buf ds)"

text \<open>The two loops of \<^verbatim>\<open>CacheBlocks\<close>: over the blocks that are cached already and over the new
  ones. They count the blocks written.\<close>

fun cache_common :: "contblks list \<Rightarrow> block list \<Rightarrow> dirty \<times> nat \<Rightarrow> (dirty \<times> nat) run" where
  "cache_common [] pBuf (ds, n) = Inr (ds, n)"
| "cache_common (e # es) pBuf (ds, n) =
    (if first e = INVALID_BLOCK_IDX then Inl Fault_Abort
     else
       let cnt = second e - first e; seg = get_seg (third e) cnt pBuf in
       if first e = SUPER_KEY \<or> first e = GRPBMP_KEY then
         (case map_of ds (first e) of
            None \<Rightarrow> cache_common es pBuf (ds, n)
          | Some buf \<Rightarrow> cache_common es pBuf (upd_entry (first e) 0 seg ds, n + cnt))
       else
         (case map_of ds (dwKey e) of
            None \<Rightarrow> cache_common es pBuf (ds, n)
          | Some buf \<Rightarrow>
              if first e - dwKey e > length buf then cache_common es pBuf (ds, n)
              else cache_common es pBuf (upd_entry (dwKey e) (first e - dwKey e) seg ds, n + cnt)))"

fun cache_new :: "contblks list \<Rightarrow> block list \<Rightarrow> dirty \<times> nat \<Rightarrow> dirty \<times> nat" where
  "cache_new [] pBuf (ds, n) = (ds, n)"
| "cache_new (e # es) pBuf (ds, n) =
    (let cnt = second e - first e in
     cache_new es pBuf (emplace (first e) (get_seg (third e) cnt pBuf) ds, n + cnt))"

text \<open>The intervals of a request: one for a contiguous one, otherwise the runs in the order of
  their first block.\<close>

definition request_intervals :: "nat list \<Rightarrow> bool \<Rightarrow> contblks list" where
  "request_intervals pBlocks bContigous =
    (if \<not> bContigous
     then sort_key first (to_intervals 0 (snd (FindContigousBlocks pBlocks False)))
     else [\<lparr>first = hd pBlocks, second = hd pBlocks + length pBlocks, third = 0, dwKey = 0\<rparr>])"

text \<open>\<^verbatim>\<open>CacheBlocks\<close>. \<open>clk\<close> is the status of \<^verbatim>\<open>clock_gettime\<close> (0 or the negative errno) with the
  seconds it delivers, and the block list \<open>pBlocks\<close> is not empty.\<close>

definition CacheBlocks ::
  "geom \<Rightarrow> gint32 \<times> int \<Rightarrow> nat list \<Rightarrow> block list \<Rightarrow> bool \<Rightarrow> blk_cache \<Rightarrow> (gint32 \<times> blk_cache) run" where
  "CacheBlocks g clk pBlocks pBuf bContigous s =
    (if m_mapDirtyBlks s = [] \<and> ERROR (fst clk) then Inr (fst clk, s)
     else
       let s1 = (if m_mapDirtyBlks s = [] then s\<lparr>m_oStartTime := snd clk\<rparr> else s) in
       if hd pBlocks = SUPER_KEY \<or> hd pBlocks = GRPBMP_KEY
       then Inr (512, s1\<lparr>m_mapDirtyBlks := assign_entry (hd pBlocks) pBuf (m_mapDirtyBlks s1)\<rparr>)
       else
         let vecBlks = request_intervals pBlocks bContigous;
             oCommonBlks = IntersectIntervals vecBlks (m_mapDirtyBlks s1);
             oNewBlks = SubtractIntervals vecBlks oCommonBlks in
         case cache_common oCommonBlks pBuf (m_mapDirtyBlks s1, 0) of
           Inl f \<Rightarrow> Inl f
         | Inr (ds, n) \<Rightarrow>
             (let (ds', m) = cache_new oNewBlks pBuf (ds, 0) in
              Inr (int ((n + m) * unat (g_dwBlockSize g)),
                s1\<lparr>m_mapDirtyBlks := ds', m_dwDirtyBlkCount := m_dwDirtyBlkCount s1 + m\<rparr>)))"

text \<open>\<^verbatim>\<open>ReadCache\<close>. \<open>rd key n\<close> is the answer of the system to reading \<open>n\<close> bytes for a key. Holes are filled with zero and taken out; the others are
  copied from the cache or read from the file.\<close>

fun read_hits :: "contblks list \<Rightarrow> dirty \<Rightarrow> block list \<times> nat \<Rightarrow> block list \<times> nat" where
  "read_hits [] ds (pBuf, n) = (pBuf, n)"
| "read_hits (e # es) ds (pBuf, n) =
    (case map_of ds (dwKey e) of
       None \<Rightarrow> read_hits es ds (pBuf, n)
     | Some buf \<Rightarrow>
         if first e - dwKey e > length buf then read_hits es ds (pBuf, n)
         else let cnt = second e - first e in
           read_hits es ds (put_seg (third e) (get_seg (first e - dwKey e) cnt buf) pBuf, n + cnt))"

fun read_misses :: "geom \<Rightarrow> (nat \<Rightarrow> nat \<Rightarrow> gint32) \<Rightarrow> (nat \<Rightarrow> byte) \<Rightarrow> contblks list \<Rightarrow>
    gint32 \<times> block list \<times> nat \<Rightarrow> gint32 \<times> block list \<times> nat" where
  "read_misses g rd img [] (ret, pBuf, n) = (ret, pBuf, n)"
| "read_misses g rd img (e # es) (ret, pBuf, n) =
    (let cnt = second e - first e;
         (ret', bytes) = ReadFile_at (file_off g (first e)) (rd (first e) (cnt * bsz g)) (cnt * bsz g) (concat (get_seg (third e) cnt pBuf)) img in
     if ERROR ret' then (ret', pBuf, n)
     else read_misses g rd img es (ret', put_seg (third e) (in_blocks (bsz g) cnt bytes) pBuf, n + cnt))"

definition fill_holes :: "geom \<Rightarrow> contblks list \<Rightarrow> block list \<Rightarrow> block list" where
  "fill_holes g xs pBuf =
    fold (\<lambda>x buf. put_seg (third x) (replicate (second x - first x) (replicate (unat (g_dwBlockSize g)) 0)) buf)
      (filter (\<lambda>x. first x = INVALID_BLOCK_IDX) xs) pBuf"

definition ReadCache ::
  "geom \<Rightarrow> (nat \<Rightarrow> nat \<Rightarrow> gint32) \<Rightarrow> nat list \<Rightarrow> block list \<Rightarrow> bool \<Rightarrow> blk_cache \<Rightarrow> gint32 \<times> block list" where
  "ReadCache g rd pBlocks pBuf bContigous s =
    (if hd pBlocks = SUPER_KEY \<or> hd pBlocks = GRPBMP_KEY then
       (case map_of (m_mapDirtyBlks s) (hd pBlocks) of
          Some buf \<Rightarrow> (0, put_seg 0 (take (length pBlocks) buf) pBuf)
        | None \<Rightarrow>
            (let n = length pBlocks;
                 (ret, bytes) = ReadFile_at (file_off g (hd pBlocks)) (rd (hd pBlocks) (n * bsz g)) (n * bsz g) (concat (take n pBuf)) (m_image s) in
             if ERROR ret then (ret, pBuf) else (ret, put_seg 0 (in_blocks (bsz g) n bytes) pBuf)))
     else
       let vec0 = request_intervals pBlocks bContigous;
           (vecBlks, pBuf0) = (if bContigous then (vec0, pBuf)
             else (filter (\<lambda>x. first x \<noteq> INVALID_BLOCK_IDX) vec0, fill_holes g vec0 pBuf));
           oCommonBlks = IntersectIntervals vecBlks (m_mapDirtyBlks s);
           oNewBlks = SubtractIntervals vecBlks oCommonBlks;
           (pBuf1, n) = read_hits oCommonBlks (m_mapDirtyBlks s) (pBuf0, 0);
           (ret, pBuf2, n2) = read_misses g rd (m_image s) oNewBlks (0, pBuf1, n) in
       (if SUCCEEDED ret then int (n2 * unat (g_dwBlockSize g)) else ret, pBuf2))"

text \<open>\<^verbatim>\<open>MergeBlocks\<close>: neighbouring entries are joined up to 16 MB.\<close>

fun merge_loop :: "nat \<Rightarrow> nat \<Rightarrow> block list \<Rightarrow> dirty \<Rightarrow> dirty" where
  "merge_loop sz cur buf [] = [(cur, buf)]"
| "merge_loop sz cur buf ((k, b) # ds) =
    (if k = cur + length buf then
       if (length buf + length b) * sz \<le> 16777216 then merge_loop sz cur (buf @ b) ds
       else (cur, buf) # merge_loop sz k b ds
     else (cur, buf) # merge_loop sz k b ds)"

definition MergeBlocks :: "geom \<Rightarrow> blk_cache \<Rightarrow> gint32 \<times> blk_cache" where
  "MergeBlocks g s =
    (case m_mapDirtyBlks s of
       [] \<Rightarrow> (0, s)
     | (k, b) # ds \<Rightarrow> (0, s\<lparr>m_mapDirtyBlks := merge_loop (unat (g_dwBlockSize g)) k b ds\<rparr>))"

text \<open>\<^verbatim>\<open>CommitCache\<close>, in the portable form that writes entry by entry: \<open>wr key n\<close> is the answer of the system to writing the \<open>n\<close> bytes of the entry
  with a key. A failed write ends the loop and the process; a short one is not noticed.\<close>

fun commit_loop :: "geom \<Rightarrow> (nat \<Rightarrow> nat \<Rightarrow> gint32) \<Rightarrow> dirty \<Rightarrow> (nat \<Rightarrow> byte) \<Rightarrow> (nat \<Rightarrow> byte) run" where
  "commit_loop g wr [] img = Inr img"
| "commit_loop g wr ((k, buf) # ds) img =
    (let bytes = concat buf; (ret, img') = WriteFile_at (file_off g k) (wr k (length bytes)) bytes img in
     if ERROR ret then Inl Fault_Abort else commit_loop g wr ds img')"

definition CommitCache :: "geom \<Rightarrow> (nat \<Rightarrow> nat \<Rightarrow> gint32) \<Rightarrow> blk_cache \<Rightarrow> (gint32 \<times> blk_cache) run" where
  "CommitCache g wr s =
    (case commit_loop g wr (m_mapDirtyBlks s) (m_image s) of
       Inl f \<Rightarrow> Inl f
     | Inr img \<Rightarrow> Inr (0, s\<lparr>m_image := img, m_mapDirtyBlks := [], m_dwDirtyBlkCount := 0, m_dwCacheAge := 0\<rparr>))"

definition CheckAndCommit ::
  "geom \<Rightarrow> (nat \<Rightarrow> nat \<Rightarrow> gint32) \<Rightarrow> gint32 \<times> int \<Rightarrow> int \<Rightarrow> bool \<Rightarrow> blk_cache \<Rightarrow> (gint32 \<times> blk_cache) run" where
  "CheckAndCommit g wr clk dwLifeCycle bEntering s =
    (if m_dwTransCount s \<noteq> 0 then Inr (- EAGAIN, s)
     else if m_mapDirtyBlks s = [] then Inr (0, s)
     else if m_bStopped s then CommitCache g wr s
     else if m_dwDirtyBlkCount s \<ge> CACHE_MAX_BLOCKS then CommitCache g wr s
     else if ERROR (fst clk) then Inr (fst clk, s)
     else if snd clk - m_oStartTime s \<ge> dwLifeCycle \<and> bEntering then CommitCache g wr s
     else Inr (- EAGAIN, s))"

text \<open>The constructor and destructor of \<^verbatim>\<open>BATransact\<close> in safe mode.\<close>

definition BATransact_enter :: "geom \<Rightarrow> (nat \<Rightarrow> nat \<Rightarrow> gint32) \<Rightarrow> gint32 \<times> int \<Rightarrow> int \<Rightarrow> blk_cache \<Rightarrow> blk_cache run" where
  "BATransact_enter g wr clk life s =
    (case CheckAndCommit g wr clk life True s of
       Inl f \<Rightarrow> Inl f
     | Inr (ret, s') \<Rightarrow> Inr (s'\<lparr>m_dwTransCount := m_dwTransCount s' + 1\<rparr>))"

definition BATransact_leave :: "geom \<Rightarrow> (nat \<Rightarrow> nat \<Rightarrow> gint32) \<Rightarrow> gint32 \<times> int \<Rightarrow> int \<Rightarrow> blk_cache \<Rightarrow> blk_cache run" where
  "BATransact_leave g wr clk life s =
    (case CheckAndCommit g wr clk life False (s\<lparr>m_dwTransCount := m_dwTransCount s - 1\<rparr>) of
       Inl f \<Rightarrow> Inl f
     | Inr (ret, s') \<Rightarrow> Inr s')"

section \<open>Specification of the dirty map\<close>

text \<open>The entries are in order, do not overlap and are not empty; \<open>look\<close> is the content of a block
  in the cache.\<close>

definition wf_dirty :: "dirty \<Rightarrow> bool" where
  "wf_dirty ds \<longleftrightarrow> sorted_wrt (\<lambda>e e'. fst e + length (snd e) \<le> fst e') ds \<and> (\<forall>e\<in>set ds. snd e \<noteq> [])"

definition in_entry :: "nat \<Rightarrow> nat \<times> block list \<Rightarrow> bool" where
  "in_entry b e \<longleftrightarrow> fst e \<le> b \<and> b < fst e + length (snd e)"

definition look :: "dirty \<Rightarrow> nat \<Rightarrow> block option" where
  "look ds b = (case find (in_entry b) ds of None \<Rightarrow> None | Some e \<Rightarrow> Some (snd e ! (b - fst e)))"

lemma look_simps [simp]:
  "look [] b = None"
  "look (e # ds) b = (if in_entry b e then Some (snd e ! (b - fst e)) else look ds b)"
  by (simp_all add: look_def)

lemma look_None_iff: "look ds b = None \<longleftrightarrow> (\<forall>e\<in>set ds. \<not> in_entry b e)"
  by (induction ds) auto

lemma wf_dirty_Cons:
  "wf_dirty (e # ds) \<longleftrightarrow> (\<forall>e'\<in>set ds. fst e + length (snd e) \<le> fst e') \<and> snd e \<noteq> [] \<and> wf_dirty ds"
  by (auto simp: wf_dirty_def)

lemma wf_dirty_append: "wf_dirty (pre @ ds) \<Longrightarrow> wf_dirty ds"
  by (auto simp: wf_dirty_def sorted_wrt_append)

lemma in_entry_unique:
  "wf_dirty ds \<Longrightarrow> e \<in> set ds \<Longrightarrow> e' \<in> set ds \<Longrightarrow> in_entry b e \<Longrightarrow> in_entry b e' \<Longrightarrow> e = e'"
  by (induction ds) (fastforce simp: wf_dirty_Cons in_entry_def)+

lemma look_entry: "wf_dirty ds \<Longrightarrow> e \<in> set ds \<Longrightarrow> in_entry b e \<Longrightarrow> look ds b = Some (snd e ! (b - fst e))"
  by (induction ds) (fastforce simp: wf_dirty_Cons in_entry_def)+

lemma wf_dirty_keys: "wf_dirty ds \<Longrightarrow> distinct (map fst ds)"
proof (induction ds)
  case (Cons e ds)
  then have "fst e < fst e'" if "e' \<in> set ds" for e'
    using that by (auto simp: wf_dirty_Cons) (metis add_leD1 le_neq_implies_less length_greater_0_conv less_add_same_cancel1 not_less)
  with Cons show ?case by (auto simp: wf_dirty_Cons)
qed simp

lemma map_of_entry: "wf_dirty ds \<Longrightarrow> map_of ds k = Some buf \<longleftrightarrow> (k, buf) \<in> set ds"
  by (simp add: wf_dirty_keys map_of_eq_Some_iff)

section \<open>Intervals\<close>

text \<open>An interval list that is in order, does not overlap and has no empty interval; the blocks it
  covers, and each block with its place in the buffer.\<close>

definition ivs_ok :: "contblks list \<Rightarrow> bool" where
  "ivs_ok xs \<longleftrightarrow> sorted_wrt (\<lambda>x y. second x \<le> first y) xs \<and> (\<forall>x\<in>set xs. first x < second x)"

definition covered :: "contblks list \<Rightarrow> nat \<Rightarrow> bool" where
  "covered xs b \<longleftrightarrow> (\<exists>x\<in>set xs. first x \<le> b \<and> b < second x)"

definition pts :: "contblks list \<Rightarrow> (nat \<times> nat) set" where
  "pts xs = {(b, p). \<exists>x\<in>set xs. first x \<le> b \<and> b < second x \<and> p = third x + (b - first x)}"

lemma ivs_ok_Cons: "ivs_ok (x # xs) \<longleftrightarrow> (\<forall>y\<in>set xs. second x \<le> first y) \<and> first x < second x \<and> ivs_ok xs"
  by (auto simp: ivs_ok_def)

lemma covered_simps [simp]:
  "covered [] b = False" "covered (x # xs) b = ((first x \<le> b \<and> b < second x) \<or> covered xs b)"
  "covered (xs @ ys) b = (covered xs b \<or> covered ys b)"
  by (auto simp: covered_def)

lemma covered_pts: "covered xs b \<longleftrightarrow> (\<exists>p. (b, p) \<in> pts xs)"
  by (auto simp: covered_def pts_def)

definition hit :: "contblks \<Rightarrow> nat \<times> block list \<Rightarrow> contblks" where
  "hit x e = \<lparr>first = max (first x) (fst e), second = min (second x) (fst e + length (snd e)),
    third = third x + (max (first x) (fst e) - first x), dwKey = fst e\<rparr>"

definition overlap :: "contblks \<Rightarrow> nat \<times> block list \<Rightarrow> bool" where
  "overlap x e \<longleftrightarrow> max (first x) (fst e) < min (second x) (fst e + length (snd e))"

lemma intersect_loop_step:
  "intersect_loop (x # xs) (e # ds) = (if overlap x e then [hit x e] else []) @
    (if second x < fst e + length (snd e) then intersect_loop xs (e # ds) else intersect_loop (x # xs) ds)"
  by (cases e) (simp add: overlap_def hit_def Let_def)

definition hits :: "contblks list \<Rightarrow> dirty \<Rightarrow> contblks set" where
  "hits xs ds = (\<Union>x\<in>set xs. \<Union>e\<in>set ds. if overlap x e then {hit x e} else {})"

lemma hits_Cons1: "hits (x # xs) ds = hits [x] ds \<union> hits xs ds"
  and hits_Cons2: "hits xs (e # ds) = hits xs [e] \<union> hits xs ds"
  and hits_append2: "hits xs (ds1 @ ds2) = hits xs ds1 \<union> hits xs ds2"
  and hits_one: "hits [x] [e] = (if overlap x e then {hit x e} else {})"
  and hits_nil [simp]: "hits [] ds = {}" "hits xs [] = {}"
  unfolding hits_def by (simp_all add: UN_Un_distrib) blast+

lemma hits_none: "(\<And>x e. x \<in> set xs \<Longrightarrow> e \<in> set ds \<Longrightarrow> \<not> overlap x e) \<Longrightarrow> hits xs ds = {}"
  unfolding hits_def by simp

lemma hitsE:
  assumes "y \<in> hits xs ds"
  obtains x e where "x \<in> set xs" "e \<in> set ds" "overlap x e" "y = hit x e"
  using assms unfolding hits_def by (clarsimp split: if_splits)

text \<open>Induction along the two-pointer loop.\<close>

lemma intersect_induct [case_names nil1 nil2 step]:
  assumes "\<And>ds. P [] ds" "\<And>x xs. P (x # xs) []"
    "\<And>x xs e ds. (second x < fst e + length (snd e) \<Longrightarrow> P xs (e # ds)) \<Longrightarrow>
      (\<not> second x < fst e + length (snd e) \<Longrightarrow> P (x # xs) ds) \<Longrightarrow> P (x # xs) (e # ds)"
  shows "P xs ds"
proof (induction "length xs + length ds" arbitrary: xs ds rule: less_induct)
  case less
  then show ?case using assms by (cases xs; cases ds) auto
qed

lemma intersect_loop_set:
  "ivs_ok xs \<Longrightarrow> wf_dirty ds \<Longrightarrow> set (intersect_loop xs ds) = hits xs ds"
proof (induction xs ds rule: intersect_induct)
  case (step x xs e ds)
  show ?case
  proof (cases "second x < fst e + length (snd e)")
    case True
    have "hits [x] ds = {}"
      by (rule hits_none) (use step(4) True in \<open>fastforce simp: wf_dirty_Cons overlap_def\<close>)
    then have "hits (x # xs) (e # ds) = hits [x] [e] \<union> hits xs (e # ds)"
      using hits_Cons1[of x xs "e # ds"] hits_Cons2[of "[x]" e ds] by simp
    then show ?thesis using True step(1)[OF True] step(3,4)
      by (simp add: intersect_loop_step hits_one ivs_ok_Cons)
  next
    case False
    have "hits xs [e] = {}"
      by (rule hits_none) (use step(3) False in \<open>fastforce simp: ivs_ok_Cons overlap_def\<close>)
    then have "hits (x # xs) (e # ds) = hits [x] [e] \<union> hits (x # xs) ds"
      using hits_Cons2[of "x # xs" e ds] hits_Cons1[of x xs "[e]"] by simp
    then show ?thesis using False step(2)[OF False] step(3,4)
      by (simp add: intersect_loop_step hits_one wf_dirty_Cons)
  qed
qed auto

lemma hit_bounds:
  "first x \<le> first (hit x e)" "fst e \<le> first (hit x e)" "second (hit x e) \<le> second x"
  "second (hit x e) \<le> fst e + length (snd e)" "overlap x e \<Longrightarrow> first (hit x e) < second (hit x e)"
  "dwKey (hit x e) = fst e" "third (hit x e) = third x + (first (hit x e) - first x)"
  by (auto simp: hit_def overlap_def)

lemma intersect_loop_ok: "ivs_ok xs \<Longrightarrow> wf_dirty ds \<Longrightarrow> ivs_ok (intersect_loop xs ds)"
proof (induction xs ds rule: intersect_induct)
  case (step x xs e ds)
  show ?case
  proof (cases "second x < fst e + length (snd e)")
    case True
    have "second (hit x e) \<le> first y" if "y \<in> set (intersect_loop xs (e # ds))" for y
    proof -
      have "y \<in> hits xs (e # ds)"
        using that intersect_loop_set[of xs "e # ds"] step(3,4) by (simp add: ivs_ok_Cons)
      then obtain x' e' where y: "y = hit x' e'" "x' \<in> set xs" by (rule hitsE)
      then show ?thesis using hit_bounds(3)[of x e] hit_bounds(1)[of x' e'] step(3)
        by (fastforce simp: ivs_ok_Cons)
    qed
    then show ?thesis using step(1)[OF True] step(3,4) True hit_bounds(5)[of x e]
      unfolding intersect_loop_step by (auto simp: ivs_ok_Cons)
  next
    case False
    have "second (hit x e) \<le> first y" if "y \<in> set (intersect_loop (x # xs) ds)" for y
    proof -
      have "y \<in> hits (x # xs) ds"
        using that intersect_loop_set[of "x # xs" ds] step(3,4) by (simp add: wf_dirty_Cons)
      then obtain x' e' where y: "y = hit x' e'" "e' \<in> set ds" by (rule hitsE)
      then show ?thesis using hit_bounds(4)[of x e] hit_bounds(2)[of e' x'] step(4)
        by (fastforce simp: wf_dirty_Cons)
    qed
    then show ?thesis using step(2)[OF False] step(3,4) False hit_bounds(5)[of x e]
      unfolding intersect_loop_step by (auto simp: ivs_ok_Cons wf_dirty_Cons)
  qed
qed (auto simp: ivs_ok_def)

lemma seek_entry_split:
  "wf_dirty ds \<Longrightarrow> \<exists>pre. ds = pre @ seek_entry a ds \<and> (\<forall>e\<in>set pre. fst e + length (snd e) \<le> a)"
proof (induction a ds rule: seek_entry.induct)
  case (1 a e e' ds)
  show ?case
  proof (cases "fst e' < a")
    case True
    then obtain pre where "e' # ds = pre @ seek_entry a (e' # ds)" "\<forall>e\<in>set pre. fst e + length (snd e) \<le> a"
      using 1 by (auto simp: wf_dirty_Cons)
    moreover have "fst e + length (snd e) \<le> a" using 1(2) True by (auto simp: wf_dirty_Cons)
    ultimately show ?thesis using True by (intro exI[of _ "e # pre"]) auto
  qed auto
qed auto

lemma IntersectIntervals_spec:
  assumes "ivs_ok xs" "wf_dirty ds"
  shows "set (IntersectIntervals xs ds) = hits xs ds"
    and "ivs_ok (IntersectIntervals xs ds)"
proof -
  show "set (IntersectIntervals xs ds) = hits xs ds"
  proof (cases "xs = [] \<or> ds = []")
    case True
    then show ?thesis by (auto simp: IntersectIntervals_def split: list.splits)
  next
    case False
    then obtain x xs' where xs: "xs = x # xs'" by (cases xs) auto
    obtain pre where pre: "ds = pre @ seek_entry (first x) ds" "\<forall>e\<in>set pre. fst e + length (snd e) \<le> first x"
      using seek_entry_split[OF assms(2)] by blast
    have no: "\<not> overlap y e" if "y \<in> set xs" "e \<in> set pre" for y e
    proof -
      have "first x \<le> first y" using that(1) assms(1) by (fastforce simp: xs ivs_ok_Cons)
      then show ?thesis using pre(2) that(2) by (fastforce simp: overlap_def)
    qed
    have "wf_dirty (seek_entry (first x) ds)" using assms(2) pre(1) wf_dirty_append by metis
    from intersect_loop_set[OF assms(1) this]
    have "set (IntersectIntervals xs ds) =
        hits xs (seek_entry (first x) ds)"
      using False xs by (simp add: IntersectIntervals_def)
    moreover have "hits xs ds = hits xs pre \<union> hits xs (seek_entry (first x) ds)"
      using hits_append2[of xs pre "seek_entry (first x) ds"] pre(1) by simp
    moreover have "hits xs pre = {}" using no by (rule hits_none)
    ultimately show ?thesis by simp
  qed
  show "ivs_ok (IntersectIntervals xs ds)"
  proof (cases xs)
    case (Cons x xs')
    obtain pre where "ds = pre @ seek_entry (first x) ds" using seek_entry_split[OF assms(2)] by blast
    then have "wf_dirty (seek_entry (first x) ds)" using assms(2) wf_dirty_append by metis
    then show ?thesis using intersect_loop_ok[OF assms(1)] Cons by (simp add: IntersectIntervals_def ivs_ok_def)
  qed (simp add: IntersectIntervals_def ivs_ok_def)
qed

text \<open>A piece of an interval keeps the place in the buffer.\<close>

definition piece :: "contblks \<Rightarrow> contblks \<Rightarrow> bool" where
  "piece x z \<longleftrightarrow> first x \<le> first z \<and> first z < second z \<and> second z \<le> second x \<and>
    third z = third x + (first z - first x)"

lemma ivs_ok_append:
  "ivs_ok (xs @ ys) \<longleftrightarrow> ivs_ok xs \<and> ivs_ok ys \<and> (\<forall>x\<in>set xs. \<forall>y\<in>set ys. second x \<le> first y)"
  by (auto simp: ivs_ok_def sorted_wrt_append)

lemma subtract_inner_spec:
  assumes "subtract_inner x cur ys = (res, cur', ys')" "ivs_ok ys"
    "\<forall>y\<in>set ys. first y < second x \<longrightarrow> cur \<le> first y \<and> second y \<le> second x"
    "first x \<le> cur" "cur \<le> second x"
  shows "cur \<le> cur' \<and> cur' \<le> second x \<and> ivs_ok res \<and>
    (\<forall>z\<in>set res. piece x z \<and> cur \<le> first z \<and> second z \<le> cur') \<and>
    (\<forall>b. covered res b \<longleftrightarrow> cur \<le> b \<and> b < cur' \<and> \<not> covered ys b) \<and>
    ys' = dropWhile (\<lambda>y. first y < second x) ys \<and>
    (\<forall>y\<in>set ys. first y < second x \<longrightarrow> second y \<le> cur')"
  using assms
proof (induction ys arbitrary: cur res)
  case Nil
  then show ?case by (auto simp: ivs_ok_def)
next
  case (Cons y ys)
  show ?case
  proof (cases "first y < second x")
    case False
    then have "\<not> first z < second x" if "z \<in> set ys" for z
      using Cons.prems(2) that by (fastforce simp: ivs_ok_Cons)
    with Cons.prems False show ?thesis by (auto simp: ivs_ok_def)
  next
    case True
    have y: "cur \<le> first y" "first y < second y" "second y \<le> second x" "\<forall>z\<in>set ys. second y \<le> first z"
      using Cons.prems(2,3) True by (auto simp: ivs_ok_Cons)
    let ?gap = "if first y > cur
      then [\<lparr>first = cur, second = first y, third = third x + (cur - first x), dwKey = 0\<rparr>] else []"
    have mx: "max cur (second y) = second y" using y by simp
    obtain res1 where rec: "subtract_inner x (second y) ys = (res1, cur', ys')" and res: "res = ?gap @ res1"
      using Cons.prems(1) True by (auto simp: mx Let_def split: prod.splits)
    have IH: "second y \<le> cur' \<and> cur' \<le> second x \<and> ivs_ok res1 \<and>
      (\<forall>z\<in>set res1. piece x z \<and> second y \<le> first z \<and> second z \<le> cur') \<and>
      (\<forall>b. covered res1 b \<longleftrightarrow> second y \<le> b \<and> b < cur' \<and> \<not> covered ys b) \<and>
      ys' = dropWhile (\<lambda>y. first y < second x) ys \<and>
      (\<forall>y\<in>set ys. first y < second x \<longrightarrow> second y \<le> cur')"
    proof (rule Cons.IH[OF rec])
      show "ivs_ok ys" using Cons.prems(2) by (simp add: ivs_ok_Cons)
      show "\<forall>z\<in>set ys. first z < second x \<longrightarrow> second y \<le> first z \<and> second z \<le> second x"
        using Cons.prems(3) y(4) by simp
      show "first x \<le> second y" using y(1,2) Cons.prems(4) by simp
      show "second y \<le> second x" by (fact y(3))
    qed
    have above: "\<not> covered ys b" if "b < second y" for b
      using y(4) that by (auto simp: covered_def)
    have "covered res b \<longleftrightarrow> cur \<le> b \<and> b < cur' \<and> \<not> covered (y # ys) b" for b
      using IH y above[of b] by (auto simp: res)
    moreover have "\<forall>z\<in>set res. piece x z \<and> cur \<le> first z \<and> second z \<le> cur'"
    proof
      fix z assume "z \<in> set res"
      then consider "z \<in> set res1"
        | "cur < first y" "z = \<lparr>first = cur, second = first y, third = third x + (cur - first x), dwKey = 0\<rparr>"
        using res by (cases "cur < first y") (simp_all, blast)
      then show "piece x z \<and> cur \<le> first z \<and> second z \<le> cur'"
      proof cases
        case 1
        then have "piece x z" "second y \<le> first z" "second z \<le> cur'" using IH by blast+
        then show ?thesis using y(1,2) by simp
      next
        case 2
        then show ?thesis using IH y Cons.prems(4) True by (simp add: piece_def)
      qed
    qed
    moreover have "ivs_ok res" using IH y by (auto simp: res ivs_ok_Cons)
    ultimately show ?thesis using IH y True by auto
  qed
qed

lemma subtract_loop_spec:
  assumes "ivs_ok xs" "ivs_ok ys" "\<forall>y\<in>set ys. \<exists>x\<in>set xs. first x \<le> first y \<and> second y \<le> second x"
  shows "ivs_ok (subtract_loop xs ys) \<and> (\<forall>z\<in>set (subtract_loop xs ys). \<exists>x\<in>set xs. piece x z) \<and>
    (\<forall>b. covered (subtract_loop xs ys) b \<longleftrightarrow> covered xs b \<and> \<not> covered ys b)"
  using assms
proof (induction xs arbitrary: ys)
  case Nil
  then show ?case by (auto simp: ivs_ok_def)
next
  case (Cons x xs)
  have x: "first x < second x" "\<forall>x'\<in>set xs. second x \<le> first x'" "ivs_ok xs"
    using Cons.prems(1) by (auto simp: ivs_ok_Cons)
  have ne: "first y < second y" if "y \<in> set ys" for y using Cons.prems(2) that by (simp add: ivs_ok_def)
  have low: "first x \<le> first y" if "y \<in> set ys" for y
    using Cons.prems(3) that x(1,2) by fastforce
  have dw: "dropWhile (\<lambda>y. second y \<le> first x) ys = ys"
    using low ne by (cases ys) fastforce+
  have own: "second y \<le> second x" if "y \<in> set ys" "first y < second x" for y
    using Cons.prems(3) that x(2) by fastforce
  obtain res cur ys' where inner: "subtract_inner x (first x) ys = (res, cur, ys')"
    using prod_cases3 by blast
  from subtract_inner_spec[OF inner Cons.prems(2)] low own x(1)
  have S: "first x \<le> cur" "cur \<le> second x" "ivs_ok res" "\<forall>z\<in>set res. piece x z \<and> second z \<le> cur"
    "\<And>b. covered res b \<longleftrightarrow> first x \<le> b \<and> b < cur \<and> \<not> covered ys b"
    "ys' = dropWhile (\<lambda>y. first y < second x) ys"
    "\<forall>y\<in>set ys. first y < second x \<longrightarrow> second y \<le> cur" by auto
  let ?tail = "if cur < second x
    then [\<lparr>first = cur, second = second x, third = third x + (cur - first x), dwKey = 0\<rparr>] else []"
  have eq: "subtract_loop (x # xs) ys = res @ ?tail @ subtract_loop xs ys'"
    by (simp add: dw inner)
  have ys': "ivs_ok ys'" "set ys' = {y \<in> set ys. second x \<le> first y}"
  proof -
    obtain p where "ys = p @ ys'" "\<forall>y\<in>set p. first y < second x"
      using S(6) by (metis (no_types, lifting) set_takeWhileD takeWhile_dropWhile_id)
    moreover have "second x \<le> first y" if "y \<in> set ys'" for y
    proof -
      have "ys' \<noteq> []" using that by auto
      then have "\<not> first (hd ys') < second x" using S(6) hd_dropWhile by metis
      moreover have "first (hd ys') \<le> first y"
        using that Cons.prems(2) S(6) \<open>ys = p @ ys'\<close> ne
        by (cases ys') (fastforce simp: ivs_ok_append ivs_ok_Cons)+
      ultimately show ?thesis by simp
    qed
    ultimately show "ivs_ok ys'" "set ys' = {y \<in> set ys. second x \<le> first y}"
      using Cons.prems(2) by (auto simp: ivs_ok_append)
  qed
  have "\<forall>y\<in>set ys'. \<exists>x\<in>set xs. first x \<le> first y \<and> second y \<le> second x"
    using Cons.prems(3) ys'(2) ne by fastforce
  note IH = Cons.IH[OF x(3) ys'(1) this]
  have later: "second x \<le> first z" if "z \<in> set (subtract_loop xs ys')" for z
    using IH that x(2) unfolding piece_def by fastforce
  have "ivs_ok (res @ ?tail @ subtract_loop xs ys')"
    using S(1-4) IH later x(1) by (fastforce simp: ivs_ok_append ivs_ok_Cons piece_def ivs_ok_def[of "[]"])
  moreover have "\<forall>z\<in>set (res @ ?tail @ subtract_loop xs ys'). \<exists>x\<in>set (x # xs). piece x z"
    using S(1,2,4) IH by (auto simp: piece_def)
  moreover have "covered (res @ ?tail @ subtract_loop xs ys') b \<longleftrightarrow> covered (x # xs) b \<and> \<not> covered ys b" for b
  proof (cases "b < second x")
    case True
    have "\<not> covered xs b" using x(2) True by (auto simp: covered_def)
    moreover have "\<not> covered ys b" if "cur \<le> b" using S(7) that True by (auto simp: covered_def)
    ultimately show ?thesis using S(1,2,5) IH True by auto
  next
    case False
    have "covered ys b \<longleftrightarrow> covered ys' b" using own False by (fastforce simp: covered_def ys'(2))
    then show ?thesis using S(2,5) IH False by auto
  qed
  ultimately show ?case unfolding eq by blast
qed

lemma SubtractIntervals_spec:
  assumes "ivs_ok xs" "wf_dirty ds"
  shows "ivs_ok (SubtractIntervals xs (IntersectIntervals xs ds))"
    and "z \<in> set (SubtractIntervals xs (IntersectIntervals xs ds)) \<Longrightarrow> \<exists>x\<in>set xs. piece x z"
    and "covered (SubtractIntervals xs (IntersectIntervals xs ds)) b \<longleftrightarrow>
      covered xs b \<and> \<not> covered (IntersectIntervals xs ds) b"
proof -
  note I = IntersectIntervals_spec[OF assms]
  have "\<exists>x\<in>set xs. first x \<le> first y \<and> second y \<le> second x" if "y \<in> set (IntersectIntervals xs ds)" for y
    using that unfolding I(1) by (metis hitsE hit_bounds(1,3))
  then have S: "ivs_ok (subtract_loop xs (IntersectIntervals xs ds)) \<and>
    (\<forall>z\<in>set (subtract_loop xs (IntersectIntervals xs ds)). \<exists>x\<in>set xs. piece x z) \<and>
    (\<forall>b. covered (subtract_loop xs (IntersectIntervals xs ds)) b \<longleftrightarrow>
      covered xs b \<and> \<not> covered (IntersectIntervals xs ds) b)"
    using subtract_loop_spec[OF assms(1) I(2)] by blast
  have self: "piece x x" if "x \<in> set xs" for x using assms(1) that by (simp add: ivs_ok_def piece_def)
  from S self assms(1) show "ivs_ok (SubtractIntervals xs (IntersectIntervals xs ds))"
    and "z \<in> set (SubtractIntervals xs (IntersectIntervals xs ds)) \<Longrightarrow> \<exists>x\<in>set xs. piece x z"
    and "covered (SubtractIntervals xs (IntersectIntervals xs ds)) b \<longleftrightarrow>
      covered xs b \<and> \<not> covered (IntersectIntervals xs ds) b"
    by (auto simp: SubtractIntervals_def split: if_splits)
qed

section \<open>Requests\<close>

text \<open>The blocks a run stands for, in order; \<^verbatim>\<open>FindContigousBlocks\<close> only groups its input.\<close>

definition expand :: "nat \<times> nat \<Rightarrow> nat list" where
  "expand r = (if fst r = INVALID_BLOCK_IDX then replicate (snd r) INVALID_BLOCK_IDX else [fst r..<fst r + snd r])"

lemma length_expand [simp]: "length (expand r) = snd r"
  by (simp add: expand_def)

lemma find_cont_loop_expand:
  assumes "n \<ge> 1" "prev = (if base = INVALID_BLOCK_IDX then INVALID_BLOCK_IDX else base + n - 1)"
  shows "concat (map expand (find_cont_loop rest prev base n)) = expand (base, n) @ rest"
  using assms
proof (induction rest arbitrary: prev base n)
  case (Cons b rest)
  consider (run) "b = prev + 1 \<and> b mod 65536 \<noteq> 0"
    | (hole) "\<not> (b = prev + 1 \<and> b mod 65536 \<noteq> 0)" "b = INVALID_BLOCK_IDX" "base = INVALID_BLOCK_IDX"
    | (new) "\<not> (b = prev + 1 \<and> b mod 65536 \<noteq> 0)" "\<not> (b = INVALID_BLOCK_IDX \<and> base = INVALID_BLOCK_IDX)"
    by blast
  then show ?case
  proof cases
    case run
    then have base: "base \<noteq> INVALID_BLOCK_IDX" using Cons.prems by auto
    then have "concat (map expand (find_cont_loop rest (prev + 1) base (n + 1))) = expand (base, n + 1) @ rest"
      using Cons.prems by (intro Cons.IH) auto
    moreover have "expand (base, n + 1) = expand (base, n) @ [b]"
      using base Cons.prems run by (simp add: expand_def)
    ultimately show ?thesis using run by auto
  next
    case hole
    then have "concat (map expand (find_cont_loop rest b base (n + 1))) = expand (base, n + 1) @ rest"
      using Cons.prems by (intro Cons.IH) auto
    moreover have "expand (base, n + 1) = expand (base, n) @ [b]"
      using hole by (simp add: expand_def replicate_append_same)
    ultimately show ?thesis using hole by auto
  next
    case new
    have "concat (map expand (find_cont_loop rest b b 1)) = expand (b, 1) @ rest"
      by (intro Cons.IH) auto
    moreover have "expand (b, 1) = [b]" by (simp add: expand_def)
    ultimately show ?thesis using new by auto
  qed
qed simp

lemma find_cont_loop_pos: "n \<ge> 1 \<Longrightarrow> r \<in> set (find_cont_loop rest prev base n) \<Longrightarrow> snd r \<ge> 1"
  by (induction rest prev base n rule: find_cont_loop.induct) (auto split: if_splits)

lemma FindContigousBlocks_expand:
  assumes "pBlocks \<noteq> []"
  shows "concat (map expand (snd (FindContigousBlocks pBlocks False))) = pBlocks"
    and "r \<in> set (snd (FindContigousBlocks pBlocks False)) \<Longrightarrow> snd r \<ge> 1"
  using assms find_cont_loop_expand[of 1 "hd pBlocks" "hd pBlocks" "tl pBlocks"]
    find_cont_loop_pos[of 1 r "tl pBlocks" "hd pBlocks" "hd pBlocks"]
  by (cases pBlocks; auto simp: FindContigousBlocks_def expand_def)+

text \<open>The intervals of the runs pair each block with its place in the request.\<close>

lemma to_intervals_place:
  assumes "x \<in> set (to_intervals off rs)" "i < second x - first x"
  shows "off \<le> third x \<and> third x + i < off + length (concat (map expand rs)) \<and>
    concat (map expand rs) ! (third x + i - off) = (if first x = INVALID_BLOCK_IDX then INVALID_BLOCK_IDX else first x + i)"
  using assms
proof (induction rs arbitrary: off)
  case (Cons r rs)
  obtain b n where r: "r = (b, n)" by fastforce
  consider (head) "x = \<lparr>first = b, second = b + n, third = off, dwKey = 0\<rparr>"
    | (tail) "x \<in> set (to_intervals (off + n) rs)" using Cons.prems(1) by (simp add: r) blast
  then show ?case
  proof cases
    case head
    then show ?thesis using Cons.prems(2) by (simp add: r nth_append) (simp add: expand_def)
  next
    case tail
    from Cons.IH[OF tail Cons.prems(2)] show ?thesis by (auto simp: r nth_append)
  qed
qed simp

lemma to_intervals_complete:
  "p < length (concat (map expand rs)) \<Longrightarrow>
    \<exists>x\<in>set (to_intervals off rs). third x \<le> off + p \<and> off + p < third x + (second x - first x)"
proof (induction rs arbitrary: off p)
  case (Cons r rs)
  obtain b n where r: "r = (b, n)" by fastforce
  show ?case
  proof (cases "p < n")
    case True
    then show ?thesis by (simp add: r)
  next
    case False
    then have "p - n < length (concat (map expand rs))" using Cons.prems by (simp add: r)
    from Cons.IH[OF this, of "off + n"] False show ?thesis by (simp add: r)
  qed
qed simp

definition blks_of :: "contblks \<Rightarrow> nat list" where
  "blks_of x = [first x..<second x]"

definition real_iv :: "contblks \<Rightarrow> bool" where
  "real_iv x \<longleftrightarrow> first x \<noteq> INVALID_BLOCK_IDX"

lemma to_intervals_blks:
  assumes "\<forall>r\<in>set rs. fst r \<noteq> INVALID_BLOCK_IDX \<longrightarrow> INVALID_BLOCK_IDX \<notin> set (expand r)"
  shows "concat (map blks_of (filter real_iv (to_intervals off rs))) =
    filter (\<lambda>b. b \<noteq> INVALID_BLOCK_IDX) (concat (map expand rs))"
  using assms
proof (induction off rs rule: to_intervals.induct)
  case (2 off b n rs)
  have "filter (\<lambda>b. b \<noteq> INVALID_BLOCK_IDX) (expand (b, n)) = (if b = INVALID_BLOCK_IDX then [] else expand (b, n))"
  proof (cases "b = INVALID_BLOCK_IDX")
    case True
    then show ?thesis by (simp add: expand_def)
  next
    case False
    then have "INVALID_BLOCK_IDX \<notin> set (expand (b, n))" using 2(2) by simp
    then show ?thesis using False by (simp add: filter_id_conv) metis
  qed
  then show ?case using 2 by (auto simp: real_iv_def blks_of_def expand_def)
qed simp

lemma mset_concat_sort: "mset (concat (map f (sort_key k xs))) = mset (concat (map f xs))"
proof -
  have "mset (concat (map f ys)) = sum_mset (image_mset (mset \<circ> f) (mset ys))" for ys
    by (induction ys) auto
  then show ?thesis by simp
qed

lemma sorted_distinct_ivs:
  assumes "sorted (map first zs)" "\<forall>z\<in>set zs. first z < second z" "distinct (concat (map blks_of zs))"
  shows "ivs_ok zs"
  using assms
proof (induction zs)
  case (Cons z zs)
  have "second z \<le> first y" if "y \<in> set zs" for y
  proof (rule ccontr)
    assume "\<not> second z \<le> first y"
    then have "first y \<in> set (blks_of z)" using Cons.prems(1) that by (auto simp: blks_of_def)
    moreover have "first y \<in> set (blks_of y)" using Cons.prems(2) that by (auto simp: blks_of_def)
    ultimately show False using Cons.prems(3) that by auto
  qed
  then show ?case using Cons by (simp add: ivs_ok_Cons)
qed (simp add: ivs_ok_def)

text \<open>A request names at least one block, none of them twice and none in the gap of a group;
  a contiguous one is a range without holes.\<close>

definition request_ok :: "nat list \<Rightarrow> bool \<Rightarrow> bool" where
  "request_ok blks bContigous \<longleftrightarrow> blks \<noteq> [] \<and> distinct (filter (\<lambda>b. b \<noteq> INVALID_BLOCK_IDX) blks) \<and>
    (\<forall>b\<in>set blks. b \<noteq> INVALID_BLOCK_IDX \<longrightarrow> b mod 65536 < BLOCKS_PER_GROUP) \<and>
    hd blks \<noteq> SUPER_KEY \<and> hd blks \<noteq> GRPBMP_KEY \<and>
    (bContigous \<longrightarrow> blks = [hd blks..<hd blks + length blks] \<and> INVALID_BLOCK_IDX \<notin> set blks)"

definition real_ivs :: "nat list \<Rightarrow> bool \<Rightarrow> contblks list" where
  "real_ivs blks bContigous = filter real_iv (request_intervals blks bContigous)"

lemma real_runs:
  assumes "request_ok blks c" "r \<in> set (snd (FindContigousBlocks blks False))" "fst r \<noteq> INVALID_BLOCK_IDX"
  shows "INVALID_BLOCK_IDX \<notin> set (expand r)"
proof
  assume h: "INVALID_BLOCK_IDX \<in> set (expand r)"
  then have "65534 \<in> set (expand r)" using assms(3) by (auto simp: expand_def split: if_splits)
  then have "65534 \<in> set (concat (map expand (snd (FindContigousBlocks blks False))))" using assms(2) by auto
  moreover have ne: "blks \<noteq> []" using assms(1) by (simp add: request_ok_def)
  ultimately have "65534 \<in> set blks" unfolding FindContigousBlocks_expand(1)[OF ne] by blast
  then show False using assms(1) by (auto simp: request_ok_def)
qed

lemma real_ivs_spec:
  assumes "request_ok blks c"
  shows "ivs_ok (real_ivs blks c)"
    and "pts (real_ivs blks c) = {(b, p). p < length blks \<and> blks ! p = b \<and> b \<noteq> INVALID_BLOCK_IDX}"
proof -
  let ?rs = "snd (FindContigousBlocks blks False)" and ?xs = "to_intervals 0 (snd (FindContigousBlocks blks False))"
  have ne: "blks \<noteq> []" using assms by (simp add: request_ok_def)
  note ex = FindContigousBlocks_expand[OF ne]
  have run: "concat (map blks_of (filter real_iv ?xs)) = filter (\<lambda>b. b \<noteq> INVALID_BLOCK_IDX) blks"
    using to_intervals_blks[of ?rs 0] real_runs[OF assms] ex(1) by simp
  have pos: "first x < second x" if "x \<in> set (to_intervals off rs)" "\<forall>r\<in>set rs. snd r \<ge> 1" for x off rs
    using that by (induction off rs rule: to_intervals.induct) auto
  show "ivs_ok (real_ivs blks c)"
  proof (cases c)
    case True
    then show ?thesis using ne by (simp add: real_ivs_def request_intervals_def ivs_ok_def)
  next
    case False
    let ?zs = "sort_key first (filter real_iv ?xs)"
    have "distinct (filter (\<lambda>b. b \<noteq> INVALID_BLOCK_IDX) blks)" using assms by (simp add: request_ok_def)
    then have "distinct (concat (map blks_of ?zs))"
      using mset_concat_sort[of blks_of first "filter real_iv ?xs"] run by (metis mset_eq_imp_distinct_iff)
    moreover have "\<forall>z\<in>set ?zs. first z < second z" using pos[of _ 0 ?rs] ex(2) by auto
    ultimately have "ivs_ok ?zs" by (intro sorted_distinct_ivs) simp_all
    then show ?thesis using False by (simp add: real_ivs_def request_intervals_def filter_sort)
  qed
  show "pts (real_ivs blks c) = {(b, p). p < length blks \<and> blks ! p = b \<and> b \<noteq> INVALID_BLOCK_IDX}"
  proof (cases c)
    case True
    then have "blks = [hd blks..<hd blks + length blks]" "INVALID_BLOCK_IDX \<notin> set blks"
      using assms by (auto simp: request_ok_def)
    moreover have "hd blks \<noteq> INVALID_BLOCK_IDX" using calculation(2) hd_in_set[OF ne] by metis
    then have "real_ivs blks c = [\<lparr>first = hd blks, second = hd blks + length blks, third = 0, dwKey = 0\<rparr>]"
      using True by (simp add: real_ivs_def request_intervals_def real_iv_def)
    moreover have nth: "blks ! p = hd blks + p" if "p < length blks" for p
      using calculation(1) that nth_upt[of "hd blks" p "hd blks + length blks"] by simp
    have "\<forall>p < length blks. hd blks + p \<noteq> INVALID_BLOCK_IDX" using calculation(2) nth_mem nth by metis
    then have "\<not> (hd blks \<le> INVALID_BLOCK_IDX \<and> INVALID_BLOCK_IDX < hd blks + length blks)"
      using less_diff_conv2 by (metis add_diff_inverse_nat leD nat_add_left_cancel_less)
    ultimately show ?thesis using nth by (auto simp: pts_def)
  next
    case False
    have set: "set (real_ivs blks c) = {x \<in> set ?xs. real_iv x}"
      using False by (auto simp: real_ivs_def request_intervals_def)
    have "p < length blks \<and> blks ! p = b \<and> b \<noteq> INVALID_BLOCK_IDX" if bp: "(b, p) \<in> pts (real_ivs blks c)" for b p
    proof -
      obtain x where x: "x \<in> set ?xs" "real_iv x" "first x \<le> b" "b < second x" "p = third x + (b - first x)"
        using bp set by (auto simp: pts_def)
      then have "p < length blks \<and> blks ! p = b"
        using to_intervals_place[OF x(1), of "b - first x"] ex(1) by (auto simp: real_iv_def)
      moreover have "b \<in> set (concat (map blks_of (filter real_iv ?xs)))" using x by (auto simp: blks_of_def)
      ultimately show ?thesis unfolding run by auto
    qed
    moreover have "(b, p) \<in> pts (real_ivs blks c)" if bp: "p < length blks" "blks ! p = b" "b \<noteq> INVALID_BLOCK_IDX" for b p
    proof -
      obtain x where x: "x \<in> set ?xs" "third x \<le> p" "p < third x + (second x - first x)"
        using to_intervals_complete[of p ?rs 0] bp(1) unfolding ex(1) by auto
      then have "b = first x + (p - third x)" "real_iv x"
        using to_intervals_place[OF x(1), of "p - third x"] ex(1) bp(2,3) by (auto simp: real_iv_def split: if_splits)
      then show ?thesis using x set by (auto simp: pts_def)
    qed
    ultimately show ?thesis by auto
  qed
qed

section \<open>Buffers and entries\<close>

lemma length_put_seg [simp]: "off + length seg \<le> length buf \<Longrightarrow> length (put_seg off seg buf) = length buf"
  by (simp add: put_seg_def)

lemma nth_put_seg:
  assumes "off + length seg \<le> length buf" "i < length buf"
  shows "put_seg off seg buf ! i = (if off \<le> i \<and> i < off + length seg then seg ! (i - off) else buf ! i)"
  using assms by (auto simp: put_seg_def nth_append min_def)

lemma length_get_seg [simp]: "off + n \<le> length buf \<Longrightarrow> length (get_seg off n buf) = n"
  by (simp add: get_seg_def)

lemma nth_get_seg: "off + n \<le> length buf \<Longrightarrow> i < n \<Longrightarrow> get_seg off n buf ! i = buf ! (off + i)"
  by (simp add: get_seg_def)

text \<open>The key and the length of every entry decide whether a map is well formed.\<close>

definition shape :: "dirty \<Rightarrow> (nat \<times> nat) list" where
  "shape ds = map (\<lambda>e. (fst e, length (snd e))) ds"

lemma shape_mem: "(k, n) \<in> set (shape ds) \<longleftrightarrow> (\<exists>buf. (k, buf) \<in> set ds \<and> length buf = n)"
  by (force simp: shape_def)

lemma wf_dirty_shape: "shape ds' = shape ds \<Longrightarrow> wf_dirty ds \<Longrightarrow> wf_dirty ds'"
proof (induction ds arbitrary: ds')
  case Nil
  then show ?case by (simp add: shape_def)
next
  case (Cons e ds)
  obtain e' es where ds': "ds' = e' # es" using Cons.prems(1) by (cases ds') (auto simp: shape_def)
  have sh: "shape es = shape ds" "fst e' = fst e" "length (snd e') = length (snd e)"
    using Cons.prems(1) by (auto simp: ds' shape_def)
  have "fst ` set es = fst ` set ds"
    using arg_cong[OF sh(1), of "\<lambda>l. fst ` set l"] by (simp add: shape_def image_image)
  then have "\<forall>z\<in>set es. fst e + length (snd e) \<le> fst z"
    using Cons.prems(2) unfolding wf_dirty_Cons by (metis imageE imageI)
  then show ?case using Cons.IH[OF sh(1)] Cons.prems(2) sh(2,3) by (auto simp: ds' wf_dirty_Cons)
qed

lemma upd_entry_shape:
  assumes "wf_dirty ds" "(k, buf) \<in> set ds" "off + length seg \<le> length buf"
  shows "shape (upd_entry k off seg ds) = shape ds"
proof -
  have "length b = length buf" if "(k, b) \<in> set ds" for b
    using that assms(1,2) by (metis map_of_entry option.inject)
  then show ?thesis using assms(3) by (auto simp: shape_def upd_entry_def)
qed

lemma upd_entry_look:
  assumes "wf_dirty ds" "(k, buf) \<in> set ds" "off + length seg \<le> length buf"
  shows "look (upd_entry k off seg ds) b =
    (if k + off \<le> b \<and> b < k + off + length seg then Some (seg ! (b - (k + off))) else look ds b)"
proof (cases "\<exists>e\<in>set ds. in_entry b e")
  case True
  then obtain k' b' where e: "(k', b') \<in> set ds" "in_entry b (k', b')" by auto
  let ?e = "if k' = k then (k, put_seg off seg b') else (k', b')"
  have wf: "wf_dirty (upd_entry k off seg ds)"
    by (rule wf_dirty_shape[OF upd_entry_shape[OF assms] assms(1)])
  have eq: "b' = buf" if "k' = k" using that e(1) assms(1,2) by (metis map_of_entry option.inject)
  have "?e \<in> set (upd_entry k off seg ds)" using e(1) by (force simp: upd_entry_def)
  moreover have "in_entry b ?e" using e(2) eq assms(3) by (auto simp: in_entry_def)
  ultimately have new: "look (upd_entry k off seg ds) b = Some (snd ?e ! (b - fst ?e))" by (rule look_entry[OF wf])
  have old: "look ds b = Some (b' ! (b - k'))" using look_entry[OF assms(1) e] by simp
  show ?thesis
  proof (cases "k' = k")
    case True
    then show ?thesis using new old eq e(2) assms(3) by (auto simp: in_entry_def nth_put_seg)
  next
    case False
    then have "\<not> in_entry b (k, buf)" using in_entry_unique[OF assms(1) e(1) assms(2) e(2)] by blast
    then show ?thesis using new old False assms(3) by (auto simp: in_entry_def)
  qed
next
  case False
  have "\<not> (k + off \<le> b \<and> b < k + off + length seg)" using False assms(2,3) by (auto simp: in_entry_def)
  moreover have "look ds b = None" using False by (simp add: look_None_iff)
  moreover have "\<not> in_entry b e" if mem: "e \<in> set (upd_entry k off seg ds)" for e
  proof -
    have "(fst e, length (snd e)) \<in> set (shape ds)"
      using mem upd_entry_shape[OF assms] shape_mem by (metis prod.collapse)
    then show ?thesis using False by (force simp: shape_mem in_entry_def)
  qed
  ultimately show ?thesis by (metis look_None_iff)
qed

lemma emplace_set: "key \<notin> fst ` set ds \<Longrightarrow> set (emplace key buf ds) = insert (key, buf) (set ds)"
  by (induction ds) (auto split: if_splits)

lemma emplace_spec:
  assumes "wf_dirty ds" "buf \<noteq> []" "\<And>b. key \<le> b \<Longrightarrow> b < key + length buf \<Longrightarrow> look ds b = None"
  shows "wf_dirty (emplace key buf ds)"
    and "look (emplace key buf ds) b =
      (if key \<le> b \<and> b < key + length buf then Some (buf ! (b - key)) else look ds b)"
proof -
  have free: "fst e + length (snd e) \<le> key \<or> key + length buf \<le> fst e" if "e \<in> set ds" for e
  proof (rule ccontr)
    assume h: "\<not> (fst e + length (snd e) \<le> key \<or> key + length buf \<le> fst e)"
    have "snd e \<noteq> []" using assms(1) that by (simp add: wf_dirty_def)
    then have "in_entry (max key (fst e)) e" using h by (auto simp: in_entry_def)
    then show False using assms(2) assms(3)[of "max key (fst e)"] h that by (auto simp: look_None_iff)
  qed
  show wf: "wf_dirty (emplace key buf ds)" using assms(1) free
  proof (induction ds)
    case Nil
    then show ?case using assms(2) by (simp add: wf_dirty_def)
  next
    case (Cons e ds)
    obtain k b where e: "e = (k, b)" by fastforce
    have b: "b \<noteq> []" using Cons.prems(1) by (simp add: e wf_dirty_Cons)
    show ?case
    proof (cases "key < k")
      case True
      then have "key + length buf \<le> k" using Cons.prems(2)[of e] by (auto simp: e)
      then show ?thesis using True Cons.prems(1) assms(2) by (auto simp: e wf_dirty_Cons)
    next
      case False
      then have le: "k + length b \<le> key" "key \<noteq> k"
        using Cons.prems(2)[of e] b[folded length_greater_0_conv] assms(2)[folded length_greater_0_conv]
        by (auto simp: e)
      have "fst e' \<noteq> key" if "e' \<in> set ds" for e'
      proof
        assume "fst e' = key"
        then show False using Cons.prems(2)[of e'] that Cons.prems(1) assms(2) by (auto simp: wf_dirty_def)
      qed
      then have "set (emplace key buf ds) = insert (key, buf) (set ds)" by (intro emplace_set) auto
      then show ?thesis using False le Cons by (auto simp: e wf_dirty_Cons)
    qed
  qed
  have "fst e \<noteq> key" if "e \<in> set ds" for e
    using free[OF that] that assms(1,2) by (auto simp: wf_dirty_def)
  then have set: "set (emplace key buf ds) = insert (key, buf) (set ds)" by (intro emplace_set) auto
  show "look (emplace key buf ds) b =
      (if key \<le> b \<and> b < key + length buf then Some (buf ! (b - key)) else look ds b)"
  proof (cases "look ds b")
    case None
    then show ?thesis
      using look_entry[OF wf, of "(key, buf)" b] set look_None_iff[of "emplace key buf ds" b]
        look_None_iff[of ds b] by (auto simp: in_entry_def)
  next
    case (Some v)
    then obtain e where e: "e \<in> set ds" "in_entry b e" by (metis look_None_iff option.distinct(1))
    then show ?thesis using look_entry[OF wf, of e b] look_entry[OF assms(1) e] set assms(3)[of b] Some by auto
  qed
qed

section \<open>Writing into the cache\<close>

text \<open>An interval that lies in the entry its key names, and one whose place is inside the buffer of
  the request.\<close>

definition fits :: "dirty \<Rightarrow> contblks \<Rightarrow> bool" where
  "fits ds x \<longleftrightarrow> (\<exists>n. (dwKey x, n) \<in> set (shape ds) \<and> dwKey x \<le> first x \<and> first x < second x \<and>
    second x \<le> dwKey x + n)"

definition in_buf :: "'a list \<Rightarrow> contblks \<Rightarrow> bool" where
  "in_buf pBuf x \<longleftrightarrow> first x < second x \<and> third x + (second x - first x) \<le> length pBuf"

definition plain_key :: "nat \<Rightarrow> bool" where
  "plain_key k \<longleftrightarrow> k \<noteq> INVALID_BLOCK_IDX \<and> k \<noteq> SUPER_KEY \<and> k \<noteq> GRPBMP_KEY"

definition blk_count :: "contblks list \<Rightarrow> nat" where
  "blk_count xs = sum_list (map (\<lambda>x. second x - first x) xs)"

lemma blk_count_simps [simp]: "blk_count [] = 0" "blk_count (x # xs) = second x - first x + blk_count xs"
  by (simp_all add: blk_count_def)

lemma pts_Cons: "pts (x # xs) = pts [x] \<union> pts xs"
  by (auto simp: pts_def)

lemma pts_one: "first x \<le> b \<Longrightarrow> b < second x \<Longrightarrow> (b, third x + (b - first x)) \<in> pts [x]"
  by (auto simp: pts_def)

lemma seg_at:
  assumes "in_buf pBuf x" "\<forall>(b, p)\<in>pts [x]. pBuf ! p = f b" "first x \<le> b" "b < second x"
  shows "get_seg (third x) (second x - first x) pBuf ! (b - first x) = f b"
proof -
  have "get_seg (third x) (second x - first x) pBuf ! (b - first x) = pBuf ! (third x + (b - first x))"
    using assms by (intro nth_get_seg) (auto simp: in_buf_def)
  then show ?thesis using assms(2) pts_one[OF assms(3,4)] by fastforce
qed

lemma cache_common_step:
  assumes "wf_dirty ds" "fits ds x" "plain_key (first x)" "in_buf pBuf x"
  shows "cache_common (x # xs) pBuf (ds, n) = cache_common xs pBuf
    (upd_entry (dwKey x) (first x - dwKey x) (get_seg (third x) (second x - first x) pBuf) ds, n + (second x - first x))"
proof -
  obtain buf where "(dwKey x, buf) \<in> set ds" "second x \<le> dwKey x + length buf" "dwKey x \<le> first x" "first x < second x"
    using assms(2) by (auto simp: fits_def shape_mem)
  then show ?thesis using assms(3) map_of_entry[OF assms(1), of "dwKey x" buf]
    by (auto simp: plain_key_def Let_def)
qed

lemma cache_common_spec:
  assumes "wf_dirty ds" "\<forall>x\<in>set xs. fits ds x \<and> plain_key (first x) \<and> in_buf pBuf x"
    "\<forall>(b, p)\<in>pts xs. pBuf ! p = f b"
  shows "\<exists>ds'. cache_common xs pBuf (ds, n) = Inr (ds', n + blk_count xs) \<and> wf_dirty ds' \<and>
    (\<forall>b. look ds' b = (if covered xs b then Some (f b) else look ds b))"
  using assms
proof (induction xs arbitrary: ds n)
  case (Cons x xs)
  let ?seg = "get_seg (third x) (second x - first x) pBuf"
  let ?ds = "upd_entry (dwKey x) (first x - dwKey x) ?seg ds"
  have x: "fits ds x" "plain_key (first x)" "in_buf pBuf x" using Cons.prems(2) by auto
  obtain buf where buf: "(dwKey x, buf) \<in> set ds" "second x \<le> dwKey x + length buf" "dwKey x \<le> first x" "first x < second x"
    using x(1) by (auto simp: fits_def shape_mem)
  have len: "length ?seg = second x - first x" using x(3) by (intro length_get_seg) (auto simp: in_buf_def)
  have room: "first x - dwKey x + length ?seg \<le> length buf" using len buf by simp
  note U = upd_entry_shape[OF Cons.prems(1) buf(1) room] upd_entry_look[OF Cons.prems(1) buf(1) room]
  have "\<forall>z\<in>set xs. fits ?ds z \<and> plain_key (first z) \<and> in_buf pBuf z" using Cons.prems(2) U(1) by (simp add: fits_def)
  moreover have "\<forall>(b, p)\<in>pts xs. pBuf ! p = f b" using Cons.prems(3) by (auto simp: pts_Cons[of x xs])
  ultimately obtain ds' where ds': "cache_common xs pBuf (?ds, n + (second x - first x)) =
      Inr (ds', n + (second x - first x) + blk_count xs)" "wf_dirty ds'"
      "\<And>b. look ds' b = (if covered xs b then Some (f b) else look ?ds b)"
    using Cons.IH[OF wf_dirty_shape[OF U(1) Cons.prems(1)], of "n + (second x - first x)"] by blast
  have "look ?ds b = (if first x \<le> b \<and> b < second x then Some (f b) else look ds b)" for b
  proof -
    have "\<forall>(b, p)\<in>pts [x]. pBuf ! p = f b" using Cons.prems(3) by (auto simp: pts_Cons[of x xs])
    from seg_at[OF x(3) this, of b] show ?thesis using U(2)[of b] len buf by auto
  qed
  then have "look ds' b = (if covered (x # xs) b then Some (f b) else look ds b)" for b
    using ds'(3)[of b] by auto
  then show ?case using cache_common_step[OF Cons.prems(1) x] ds'(1,2) by (auto simp: algebra_simps)
qed simp

lemma cache_new_spec:
  assumes "wf_dirty ds" "ivs_ok xs" "\<forall>x\<in>set xs. in_buf pBuf x" "\<forall>(b, p)\<in>pts xs. pBuf ! p = f b"
    "\<forall>b. covered xs b \<longrightarrow> look ds b = None"
  shows "\<exists>ds'. cache_new xs pBuf (ds, n) = (ds', n + blk_count xs) \<and> wf_dirty ds' \<and>
    (\<forall>b. look ds' b = (if covered xs b then Some (f b) else look ds b))"
  using assms
proof (induction xs arbitrary: ds n)
  case (Cons x xs)
  let ?seg = "get_seg (third x) (second x - first x) pBuf"
  let ?ds = "emplace (first x) ?seg ds"
  have x: "in_buf pBuf x" "first x < second x" using Cons.prems(3) by (auto simp: in_buf_def)
  have len: "length ?seg = second x - first x" using x(1) by (intro length_get_seg) (auto simp: in_buf_def)
  have ne: "?seg \<noteq> []" using len x(2) by (metis list.size(3) zero_less_diff less_irrefl)
  have none: "look ds b = None" if "first x \<le> b" "b < first x + length ?seg" for b
    using Cons.prems(5) that len x(2) by simp
  have E: "wf_dirty ?ds" "look ?ds b = (if first x \<le> b \<and> b < first x + length ?seg then Some (?seg ! (b - first x)) else look ds b)" for b
    by (rule emplace_spec[OF Cons.prems(1) ne]; rule none; assumption)+
  have lk: "look ?ds b = (if first x \<le> b \<and> b < second x then Some (f b) else look ds b)" for b
  proof -
    have "\<forall>(b, p)\<in>pts [x]. pBuf ! p = f b" using Cons.prems(4) by (auto simp: pts_Cons[of x xs])
    from seg_at[OF x(1) this, of b] show ?thesis using E(2)[of b] len x(2) by auto
  qed
  have "look ?ds b = None" if "covered xs b" for b
  proof -
    have "second x \<le> b" using Cons.prems(2) that by (fastforce simp: ivs_ok_Cons covered_def)
    then show ?thesis using lk[of b] Cons.prems(5) that by simp
  qed
  moreover have "ivs_ok xs" "\<forall>x\<in>set xs. in_buf pBuf x" "\<forall>(b, p)\<in>pts xs. pBuf ! p = f b"
    using Cons.prems(2-4) by (auto simp: ivs_ok_Cons pts_Cons[of x xs])
  ultimately obtain ds' where ds': "cache_new xs pBuf (?ds, n + (second x - first x)) =
      (ds', n + (second x - first x) + blk_count xs)" "wf_dirty ds'"
      "\<And>b. look ds' b = (if covered xs b then Some (f b) else look ?ds b)"
    using Cons.IH[OF E(1), of "n + (second x - first x)"] by blast
  have "look ds' b = (if covered (x # xs) b then Some (f b) else look ds b)" for b
    using ds'(3)[of b] lk[of b] by auto
  then show ?case using ds'(1,2) by (auto simp: Let_def algebra_simps)
qed simp

text \<open>How a request splits into the blocks that are cached and the ones that are not.\<close>

lemma piece_pts: "piece x z \<Longrightarrow> pts [z] \<subseteq> pts [x]"
  by (auto simp: pts_def piece_def)

lemma pts_UN: "pts xs = (\<Union>x\<in>set xs. pts [x])"
  by (auto simp: pts_def)

lemma pieces_pts: "(\<And>z. z \<in> set zs \<Longrightarrow> \<exists>x\<in>set xs. piece x z) \<Longrightarrow> pts zs \<subseteq> pts xs"
  using piece_pts unfolding pts_UN[of zs] pts_UN[of xs] by blast

lemma hit_piece: "overlap x e \<Longrightarrow> piece x (hit x e)"
  using hit_bounds[where x = x and e = e] by (simp add: piece_def)

lemma request_split:
  assumes "ivs_ok xs" "wf_dirty ds" "C = IntersectIntervals xs ds" "N = SubtractIntervals xs C"
  shows "ivs_ok C" "ivs_ok N" "pts C \<subseteq> pts xs" "pts N \<subseteq> pts xs" "\<forall>x\<in>set C. fits ds x"
    "covered C b \<longleftrightarrow> covered xs b \<and> look ds b \<noteq> None" "covered N b \<longleftrightarrow> covered xs b \<and> look ds b = None"
proof -
  note I = IntersectIntervals_spec[OF assms(1,2), folded assms(3)]
  note S = SubtractIntervals_spec[OF assms(1,2), folded assms(3), folded assms(4)]
  show "ivs_ok C" "ivs_ok N" by (fact I(2), fact S(1))
  show "pts C \<subseteq> pts xs"
    by (rule pieces_pts) (use I(1) hit_piece hitsE in metis)
  show "pts N \<subseteq> pts xs" by (rule pieces_pts) (rule S(2))
  show "\<forall>x\<in>set C. fits ds x"
  proof
    fix y assume "y \<in> set C"
    then obtain x e where y: "y = hit x e" "e \<in> set ds" "overlap x e" unfolding I(1) by (rule hitsE)
    have "(fst e, length (snd e)) \<in> set (shape ds)" using y(2) by (auto simp: shape_def)
    then show "fits ds y" using hit_bounds[where x = x and e = e] y by (auto simp: fits_def)
  qed
  show cov: "covered C b \<longleftrightarrow> covered xs b \<and> look ds b \<noteq> None" for b
  proof
    assume "covered C b"
    then obtain y where y: "y \<in> set C" "first y \<le> b" "b < second y" by (auto simp: covered_def)
    then obtain x e where h: "y = hit x e" "x \<in> set xs" "e \<in> set ds" "overlap x e" unfolding I(1) by (blast elim: hitsE)
    have "first x \<le> b" "b < second x" "in_entry b e" using y h hit_bounds[where x = x and e = e] by (auto simp: in_entry_def)
    then show "covered xs b \<and> look ds b \<noteq> None" using h by (auto simp: covered_def look_None_iff)
  next
    assume "covered xs b \<and> look ds b \<noteq> None"
    then obtain x e where h: "x \<in> set xs" "e \<in> set ds" "first x \<le> b" "b < second x" "in_entry b e"
      by (auto simp: covered_def look_None_iff)
    then have ov: "overlap x e" by (auto simp: overlap_def in_entry_def)
    then have "hit x e \<in> set C" unfolding I(1) hits_def using h by (auto split: if_splits)
    moreover have "first (hit x e) \<le> b" "b < second (hit x e)" using h by (auto simp: hit_def in_entry_def)
    ultimately show "covered C b" by (auto simp: covered_def)
  qed
  show "covered N b \<longleftrightarrow> covered xs b \<and> look ds b = None" using S(3)[of b] cov[of b] by blast
qed

lemma blk_count_card: "ivs_ok xs \<Longrightarrow> finite {b. covered xs b} \<and> blk_count xs = card {b. covered xs b}"
proof (induction xs)
  case (Cons x xs)
  have "{b. covered (x # xs) b} = {first x..<second x} \<union> {b. covered xs b}" by auto
  moreover have "{first x..<second x} \<inter> {b. covered xs b} = {}"
    using Cons.prems by (fastforce simp: ivs_ok_Cons covered_def)
  ultimately show ?case using Cons by (auto simp: ivs_ok_Cons card_Un_disjoint)
qed (simp add: covered_def[abs_def])

lemma request_no_holes:
  assumes "request_ok blks c" "INVALID_BLOCK_IDX \<notin> set blks"
  shows "request_intervals blks c = real_ivs blks c"
proof -
  have ne: "blks \<noteq> []" using assms(1) by (simp add: request_ok_def)
  have "real_iv x" if mem: "x \<in> set (request_intervals blks c)" for x
  proof (cases c)
    case True
    then show ?thesis using mem assms(2) hd_in_set[OF ne] by (auto simp: request_intervals_def real_iv_def)
  next
    case False
    then have x: "x \<in> set (to_intervals 0 (snd (FindContigousBlocks blks False)))"
      using mem by (simp add: request_intervals_def)
    have "first x < second x" if "x \<in> set (to_intervals off rs)" "\<forall>r\<in>set rs. snd r \<ge> 1" for off rs
      using that by (induction off rs rule: to_intervals.induct) auto
    then have "0 < second x - first x" using x FindContigousBlocks_expand(2)[OF ne] by simp
    from to_intervals_place[OF x this] show ?thesis
      using assms(2) nth_mem[of "third x" blks] unfolding FindContigousBlocks_expand(1)[OF ne] real_iv_def
      by (auto split: if_splits)
  qed
  then show ?thesis by (simp add: real_ivs_def filter_id_conv)
qed

lemma in_buf_pts:
  assumes "pts zs \<subseteq> P" "\<forall>(b, p)\<in>P. p < length pBuf" "z \<in> set zs" "first z < second z"
  shows "in_buf pBuf z"
proof -
  have "(second z - 1, third z + (second z - 1 - first z)) \<in> pts zs"
    using assms(3,4) by (auto simp: pts_def intro!: bexI[of _ z])
  then have "third z + (second z - 1 - first z) < length pBuf" using assms(1,2) by blast
  then show ?thesis using assms(4) by (simp add: in_buf_def)
qed

lemma first_pts: "z \<in> set zs \<Longrightarrow> first z < second z \<Longrightarrow> (first z, third z) \<in> pts zs"
  by (auto simp: pts_def intro!: bexI[of _ z])

text \<open>A request to write has a buffer of as many blocks as it names, and no holes.\<close>

definition write_ok :: "nat list \<Rightarrow> block list \<Rightarrow> bool \<Rightarrow> bool" where
  "write_ok blks pBuf c \<longleftrightarrow> request_ok blks c \<and> INVALID_BLOCK_IDX \<notin> set blks \<and> length pBuf = length blks"

lemma write_ok_covered:
  assumes "request_ok blks c"
  shows "covered (real_ivs blks c) b \<longleftrightarrow> b \<in> set blks \<and> b \<noteq> INVALID_BLOCK_IDX"
  unfolding covered_pts real_ivs_spec(2)[OF assms] by (auto simp: in_set_conv_nth)

lemma plain_request: "request_ok blks c \<Longrightarrow> b \<in> set blks \<Longrightarrow> b \<noteq> INVALID_BLOCK_IDX \<Longrightarrow> plain_key b"
  by (auto simp: request_ok_def plain_key_def)

lemma CacheBlocks_plain:
  assumes "write_ok blks pBuf c" "wf_dirty (m_mapDirtyBlks s)" "\<not> ERROR (fst clk)"
  shows "\<exists>ds n. CacheBlocks g clk blks pBuf c s = Inr (int (length blks * unat (g_dwBlockSize g)),
      s\<lparr>m_mapDirtyBlks := ds, m_dwDirtyBlkCount := m_dwDirtyBlkCount s + n,
        m_oStartTime := (if m_mapDirtyBlks s = [] then snd clk else m_oStartTime s)\<rparr>) \<and>
    wf_dirty ds \<and> n = card {b \<in> set blks. look (m_mapDirtyBlks s) b = None} \<and>
    (\<forall>b. look ds b = (look (m_mapDirtyBlks s) ++ map_of (zip blks pBuf)) b)"
proof -
  let ?ds0 = "m_mapDirtyBlks s" and ?f = "\<lambda>b. the (map_of (zip blks pBuf) b)"
  define xs where "xs = real_ivs blks c"
  define C where "C = IntersectIntervals xs ?ds0"
  define N where "N = SubtractIntervals xs C"
  have req: "request_ok blks c" "INVALID_BLOCK_IDX \<notin> set blks" "length pBuf = length blks"
    using assms(1) by (simp_all add: write_ok_def)
  have "filter (\<lambda>b. b \<noteq> INVALID_BLOCK_IDX) blks = blks" by (rule filter_True) (use req(2) in blast)
  then have dist: "distinct blks" using req(1) unfolding request_ok_def by simp
  note X = real_ivs_spec[OF req(1), folded xs_def]
  note R = request_split[OF X(1) assms(2) C_def N_def]
  have f: "pBuf ! p = ?f b" if "(b, p) \<in> pts xs" for b p
    using that map_of_zip_nth[OF req(3)[symmetric] dist, of p] req(3) unfolding X(2) by auto
  have rng: "\<forall>(b, p)\<in>pts xs. p < length pBuf" using req(3) unfolding X(2) by auto
  have key: "plain_key (first z)" if "z \<in> set zs" "first z < second z" "pts zs \<subseteq> pts xs" for z zs
  proof -
    have "(first z, third z) \<in> pts xs" using first_pts[OF that(1,2)] that(3) by blast
    then have "first z \<in> set blks" "first z \<noteq> INVALID_BLOCK_IDX"
      using nth_mem[of "third z" blks] unfolding X(2) by auto
    then show ?thesis by (rule plain_request[OF req(1)])
  qed
  have pos: "first x < second x" if "x \<in> set zs" "ivs_ok zs" for x zs using that by (simp add: ivs_ok_def)
  have C: "\<forall>x\<in>set C. fits ?ds0 x \<and> plain_key (first x) \<and> in_buf pBuf x"
    using R(5) key[OF _ pos[OF _ R(1)] R(3)] in_buf_pts[OF R(3) rng _ pos[OF _ R(1)]] by blast
  have fC: "\<forall>(b, p)\<in>pts C. pBuf ! p = ?f b" using R(3) f by blast
  obtain ds1 where D1: "cache_common C pBuf (?ds0, 0) = Inr (ds1, blk_count C)" "wf_dirty ds1"
    "\<And>b. look ds1 b = (if covered C b then Some (?f b) else look ?ds0 b)"
    using cache_common_spec[OF assms(2) C fC, of 0] by auto
  have N: "\<forall>x\<in>set N. in_buf pBuf x" using in_buf_pts[OF R(4) rng _ pos[OF _ R(2)]] by blast
  have fN: "\<forall>(b, p)\<in>pts N. pBuf ! p = ?f b" using R(4) f by blast
  have free: "\<forall>b. covered N b \<longrightarrow> look ds1 b = None" using D1(3) R(6,7) by simp
  obtain ds2 where D2: "cache_new N pBuf (ds1, 0) = (ds2, blk_count N)" "wf_dirty ds2"
    "\<And>b. look ds2 b = (if covered N b then Some (?f b) else look ds1 b)"
    using cache_new_spec[OF D1(2) R(2) N fN free, of 0] by auto
  have cov: "covered xs b \<longleftrightarrow> b \<in> set blks" for b
    using write_ok_covered[OF req(1)] req(2) by (auto simp: xs_def)
  have nC: "blk_count C = card {b \<in> set blks. look ?ds0 b \<noteq> None}"
    and nN: "blk_count N = card {b \<in> set blks. look ?ds0 b = None}"
    using blk_count_card[OF R(1)] blk_count_card[OF R(2)] R(6,7) cov by simp_all
  have "card {b \<in> set blks. look ?ds0 b \<noteq> None} + card {b \<in> set blks. look ?ds0 b = None} = card (set blks)"
    by (subst card_Un_disjoint[symmetric]) (auto intro: arg_cong[of _ _ card])
  then have total: "blk_count C + blk_count N = length blks" using nC nN distinct_card[OF dist] by simp
  have lk: "look ds2 b = (look ?ds0 ++ map_of (zip blks pBuf)) b" for b
  proof (cases "b \<in> set blks")
    case True
    then obtain v where "map_of (zip blks pBuf) b = Some v"
      using req(3) by (metis map_of_zip_is_Some)
    then show ?thesis using True D1(3)[of b] D2(3)[of b] R(6,7)[of b] cov[of b] by (auto simp: map_add_def)
  next
    case False
    then have "map_of (zip blks pBuf) b = None" using req(3) by (metis map_of_zip_is_None)
    then show ?thesis using False D1(3)[of b] D2(3)[of b] R(6,7)[of b] cov[of b] by (auto simp: map_add_def)
  qed
  have hd: "hd blks \<noteq> SUPER_KEY" "hd blks \<noteq> GRPBMP_KEY" using req(1) by (auto simp: request_ok_def)
  define s1 where "s1 = (if ?ds0 = [] then s\<lparr>m_oStartTime := snd clk\<rparr> else s)"
  have s1: "m_mapDirtyBlks s1 = ?ds0" "m_dwDirtyBlkCount s1 = m_dwDirtyBlkCount s" by (simp_all add: s1_def)
  have "CacheBlocks g clk blks pBuf c s = Inr (int (length blks * unat (g_dwBlockSize g)),
      s1\<lparr>m_mapDirtyBlks := ds2, m_dwDirtyBlkCount := m_dwDirtyBlkCount s + blk_count N\<rparr>)"
    unfolding CacheBlocks_def s1_def[symmetric] using assms(3) hd D1(1) D2(1) total request_no_holes[OF req(1,2)] s1
    by (simp add: Let_def xs_def[symmetric] C_def[symmetric] N_def[symmetric])
  moreover have "s1\<lparr>m_mapDirtyBlks := ds2, m_dwDirtyBlkCount := m_dwDirtyBlkCount s + blk_count N\<rparr> =
      s\<lparr>m_mapDirtyBlks := ds2, m_dwDirtyBlkCount := m_dwDirtyBlkCount s + blk_count N,
        m_oStartTime := (if ?ds0 = [] then snd clk else m_oStartTime s)\<rparr>"
    by (simp add: s1_def)
  ultimately have "CacheBlocks g clk blks pBuf c s = Inr (int (length blks * unat (g_dwBlockSize g)),
      s\<lparr>m_mapDirtyBlks := ds2, m_dwDirtyBlkCount := m_dwDirtyBlkCount s + blk_count N,
        m_oStartTime := (if ?ds0 = [] then snd clk else m_oStartTime s)\<rparr>)" by simp
  then show ?thesis using D2(2) nN lk by blast
qed

section \<open>Blocks in the file\<close>

text \<open>The blocks whose offset the allocator can reach: those of a group, as far as the file is below 2 GiB. There the offset does not wrap.\<close>

definition on_disk :: "geom \<Rightarrow> nat \<Rightarrow> bool" where
  "on_disk g b \<longleftrightarrow> b < 2 ^ find_shift (g_dwRegFsPageSize g) * BLOCKS_PER_GROUP_FULL \<and> 0 < bsz g \<and>
    bsz g + GRPBMP_SIZE g + (b + 1) * bsz g \<le> 2147483648"

definition blk_at :: "geom \<Rightarrow> (nat \<Rightarrow> byte) \<Rightarrow> nat \<Rightarrow> block" where
  "blk_at g img b = map img [file_off g b..<file_off g b + bsz g]"

lemma length_blk_at [simp]: "length (blk_at g img b) = bsz g"
  by (simp add: blk_at_def)

lemma on_disk_less: "on_disk g b \<Longrightarrow> b < 2147483648"
proof -
  assume a: "on_disk g b"
  have "(b + 1) * 1 \<le> (b + 1) * bsz g" by (rule mult_le_mono2) (use a in \<open>simp add: on_disk_def\<close>)
  moreover have "(b + 1) * bsz g \<le> 2147483648" using a add_leD2[of "bsz g + GRPBMP_SIZE g" "(b + 1) * bsz g"] unfolding on_disk_def by blast
  ultimately have "(b + 1) * 1 \<le> 2147483648" by (rule le_trans)
  thus ?thesis by simp
qed

lemma file_off_linear:
  assumes "on_disk g b"
  shows "file_off g b = bsz g + GRPBMP_SIZE g + b * bsz g"
proof -
  let ?n = "bsz g + GRPBMP_SIZE g + b * bsz g"
  have b: "b < 2147483648" by (rule on_disk_less[OF assms])
  hence u: "unat (word_of_nat b :: 32 word) = b" by (simp add: unat_of_nat)
  have "BLOCK_ABS g (word_of_nat b) = word_of_nat ?n"
    using assms by (subst BLOCK_ABS_linear) (simp_all add: u on_disk_def)
  moreover have "?n < 4294967296" using assms unfolding on_disk_def by (simp add: distrib_right)
  ultimately have "unat (BLOCK_ABS g (word_of_nat b)) = ?n" by (simp add: unat_of_nat del: of_nat_add of_nat_mult)
  thus ?thesis using b by (simp add: file_off_def)
qed

lemma file_off_bounds:
  assumes "on_disk g b"
  shows "bsz g + GRPBMP_SIZE g \<le> file_off g b" "file_off g b + bsz g \<le> 2147483648" "file_off g b < 2147483648"
  using assms unfolding file_off_linear[OF assms] by (simp_all add: on_disk_def distrib_right)

lemma file_off_run: "on_disk g a \<Longrightarrow> on_disk g (a + i) \<Longrightarrow> file_off g (a + i) = file_off g a + i * bsz g"
  by (simp add: file_off_linear distrib_right)

text \<open>A transfer that is complete.\<close>

lemma io_full:
  assumes "off < 2147483648"
  shows "io_ret off st = st" "io_count off (int n) n = n"
  using assms by (simp_all add: io_ret_def io_count_def)

lemma in_blocks_read:
  assumes "i < n"
  shows "in_blocks sz n (map img [off..<off + n * sz] @ rest) ! i = map img [off + i * sz..<off + i * sz + sz]"
proof -
  have le: "i * sz + sz \<le> n * sz" using assms mult_le_mono1[of "Suc i" n sz] by simp
  have "take sz (drop (i * sz) (map img [off..<off + n * sz] @ rest)) = map img (take sz (drop (i * sz) [off..<off + n * sz]))"
    using le by (simp add: drop_map take_map)
  also have "take sz (drop (i * sz) [off..<off + n * sz]) = [off + i * sz..<off + i * sz + sz]"
    using le by (simp add: drop_upt take_upt)
  finally show ?thesis using assms by (simp add: in_blocks_def)
qed

section \<open>Reading through the cache\<close>

text \<open>The places in the buffer that a list of intervals writes.\<close>

definition places :: "contblks list \<Rightarrow> nat set" where
  "places xs = {p. \<exists>x\<in>set xs. third x \<le> p \<and> p < third x + (second x - first x)}"

lemma places_simps [simp]:
  "places [] = {}" "places (x # xs) = {third x..<third x + (second x - first x)} \<union> places xs"
  by (auto simp: places_def)

lemma places_pts: "places xs = snd ` pts xs"
proof -
  have "p \<in> snd ` pts xs" if "x \<in> set xs" "third x \<le> p" "p < third x + (second x - first x)" for x p
  proof -
    have "(first x + (p - third x), p) \<in> pts xs" using that by (auto simp: pts_def intro!: bexI[of _ x])
    then show ?thesis by force
  qed
  moreover have "p \<in> places xs" if bp: "(b, p) \<in> pts xs" for b p
  proof -
    obtain x where "x \<in> set xs" "first x \<le> b" "b < second x" "p = third x + (b - first x)"
      using bp by (auto simp: pts_def)
    then have "x \<in> set xs \<and> third x \<le> p \<and> p < third x + (second x - first x)" by auto
    then show ?thesis by (auto simp: places_def)
  qed
  ultimately show ?thesis by (force simp: places_def)
qed

lemma put_seg_places:
  assumes "in_buf buf x" "length seg = second x - first x"
    "\<forall>i < second x - first x. seg ! i = h (third x + i)"
  shows "length (put_seg (third x) seg buf) = length buf"
    and "p < length buf \<Longrightarrow> put_seg (third x) seg buf ! p = (if p \<in> places [x] then h p else buf ! p)"
proof -
  have room: "third x + length seg \<le> length buf" using assms(1,2) by (auto simp: in_buf_def)
  then show "length (put_seg (third x) seg buf) = length buf" by simp
  assume p: "p < length buf"
  have "seg ! (p - third x) = h p" if "third x \<le> p" "p < third x + (second x - first x)"
    using assms(3)[rule_format, of "p - third x"] that by auto
  then show "put_seg (third x) seg buf ! p = (if p \<in> places [x] then h p else buf ! p)"
    using nth_put_seg[OF room p] assms(2) by simp
qed

lemma read_hits_spec:
  assumes "wf_dirty ds" "\<forall>x\<in>set xs. fits ds x \<and> in_buf pBuf x" "\<forall>(b, p)\<in>pts xs. look ds b = Some (h p)"
  shows "\<exists>buf. read_hits xs ds (pBuf, n) = (buf, n + blk_count xs) \<and> length buf = length pBuf \<and>
    (\<forall>p < length pBuf. buf ! p = (if p \<in> places xs then h p else pBuf ! p))"
  using assms(2,3)
proof (induction xs arbitrary: pBuf n)
  case (Cons x xs)
  have x: "fits ds x" "in_buf pBuf x" using Cons.prems(1) by auto
  obtain buf where buf: "(dwKey x, buf) \<in> set ds" "second x \<le> dwKey x + length buf" "dwKey x \<le> first x" "first x < second x"
    using x(1) by (auto simp: fits_def shape_mem)
  let ?seg = "get_seg (first x - dwKey x) (second x - first x) buf"
  let ?pBuf = "put_seg (third x) ?seg pBuf"
  have seg: "length ?seg = second x - first x" using buf by (intro length_get_seg) auto
  have "?seg ! i = h (third x + i)" if i: "i < second x - first x" for i
  proof -
    have "(first x + i, third x + i) \<in> pts (x # xs)" using i by (auto simp: pts_def)
    then have "look ds (first x + i) = Some (h (third x + i))" using Cons.prems(2) by fast
    moreover have "look ds (first x + i) = Some (buf ! (first x + i - dwKey x))"
      using look_entry[OF assms(1) buf(1), of "first x + i"] buf i by (simp add: in_entry_def)
    ultimately show ?thesis using nth_get_seg[of "first x - dwKey x" "second x - first x" buf i] i buf by simp
  qed
  then have P: "length ?pBuf = length pBuf" "\<And>p. p < length pBuf \<Longrightarrow> ?pBuf ! p = (if p \<in> places [x] then h p else pBuf ! p)"
    using put_seg_places[OF x(2) seg, of h] by auto
  have "\<forall>z\<in>set xs. fits ds z \<and> in_buf ?pBuf z" using Cons.prems(1) P(1) by (simp add: in_buf_def)
  moreover have "\<forall>(b, p)\<in>pts xs. look ds b = Some (h p)" using Cons.prems(2) unfolding pts_Cons[of x xs] by blast
  ultimately obtain buf' where "read_hits xs ds (?pBuf, n + (second x - first x)) = (buf', n + (second x - first x) + blk_count xs)"
    "length buf' = length pBuf" "\<forall>p < length pBuf. buf' ! p = (if p \<in> places xs then h p else ?pBuf ! p)"
    using Cons.IH[of ?pBuf "n + (second x - first x)"] P(1) by auto
  moreover have "read_hits (x # xs) ds (pBuf, n) = read_hits xs ds (?pBuf, n + (second x - first x))"
  proof -
    have "\<not> length buf < first x - dwKey x" using buf by linarith
    then show ?thesis using map_of_entry[OF assms(1), of "dwKey x" buf] buf(1) by (simp add: Let_def)
  qed
  ultimately show ?case using P(2) by auto
qed simp

lemma read_misses_spec:
  assumes "\<forall>k n. rd k n = int n" "\<forall>x\<in>set xs. in_buf pBuf x"
    "\<forall>(b, p)\<in>pts xs. on_disk g b \<and> blk_at g img b = h p" "\<not> ERROR ret"
  shows "\<exists>r buf. read_misses g rd img xs (ret, pBuf, n) = (r, buf, n + blk_count xs) \<and> \<not> ERROR r \<and>
    length buf = length pBuf \<and> (\<forall>p < length pBuf. buf ! p = (if p \<in> places xs then h p else pBuf ! p))"
  using assms(2-)
proof (induction xs arbitrary: ret pBuf n)
  case (Cons x xs)
  let ?cnt = "second x - first x"
  let ?old = "concat (get_seg (third x) ?cnt pBuf)"
  let ?bytes = "map img [file_off g (first x)..<file_off g (first x) + ?cnt * bsz g] @ drop (?cnt * bsz g) ?old"
  let ?seg = "in_blocks (bsz g) ?cnt ?bytes"
  let ?pBuf = "put_seg (third x) ?seg pBuf"
  have x: "in_buf pBuf x" "length ?seg = ?cnt" "first x < second x" using Cons.prems(1) by (auto simp: in_blocks_def in_buf_def)
  have d: "on_disk g (first x + i) \<and> blk_at g img (first x + i) = h (third x + i)" if i: "i < ?cnt" for i
  proof -
    have "(first x + i, third x + i) \<in> pts (x # xs)" using i by (auto simp: pts_def)
    then show ?thesis using Cons.prems(2) by fast
  qed
  have d0: "on_disk g (first x)" using d[of 0] x(3) by simp
  have "?seg ! i = h (third x + i)" if i: "i < ?cnt" for i
    using d[OF i] unfolding in_blocks_read[OF i] blk_at_def file_off_run[OF d0 conjunct1[OF d[OF i]]] by simp
  then have P: "length ?pBuf = length pBuf" "\<And>p. p < length pBuf \<Longrightarrow> ?pBuf ! p = (if p \<in> places [x] then h p else pBuf ! p)"
    using put_seg_places[OF x(1,2), of h] by auto
  have "\<forall>z\<in>set xs. in_buf ?pBuf z" using Cons.prems(1) P(1) by (simp add: in_buf_def)
  moreover have "\<forall>(b, p)\<in>pts xs. on_disk g b \<and> blk_at g img b = h p" using Cons.prems(2) unfolding pts_Cons[of x xs] by blast
  moreover define st where "st = int (?cnt * bsz g)"
  moreover have st: "\<not> ERROR st" unfolding st_def by (simp add: not_less del: of_nat_mult)
  moreover have R: "ReadFile_at (file_off g (first x)) (rd (first x) (?cnt * bsz g)) (?cnt * bsz g) ?old img = (st, ?bytes)"
    unfolding st_def ReadFile_at_def assms(1)[rule_format] io_full[OF file_off_bounds(3)[OF d0]] Let_def by (rule refl)
  ultimately obtain r buf' where "read_misses g rd img xs (st, ?pBuf, n + ?cnt) = (r, buf', n + ?cnt + blk_count xs)" "\<not> ERROR r"
    "length buf' = length pBuf" "\<forall>p < length pBuf. buf' ! p = (if p \<in> places xs then h p else ?pBuf ! p)"
    using Cons.IH[of ?pBuf st "n + ?cnt"] P(1) by auto
  moreover have "read_misses g rd img (x # xs) (ret, pBuf, n) = read_misses g rd img xs (st, ?pBuf, n + ?cnt)"
    unfolding read_misses.simps Let_def R prod.case using st by simp
  ultimately show ?case using P(2) by auto
qed simp

lemma fold_holes_spec:
  assumes "\<forall>x\<in>set xs. in_buf pBuf x"
  shows "length (fold (\<lambda>x buf. put_seg (third x) (replicate (second x - first x) z) buf) xs pBuf) = length pBuf \<and>
    (\<forall>p < length pBuf. fold (\<lambda>x buf. put_seg (third x) (replicate (second x - first x) z) buf) xs pBuf ! p =
      (if p \<in> places xs then z else pBuf ! p))"
  using assms
proof (induction xs arbitrary: pBuf)
  case (Cons x xs)
  let ?pBuf = "put_seg (third x) (replicate (second x - first x) z) pBuf"
  have P: "length ?pBuf = length pBuf" "\<And>p. p < length pBuf \<Longrightarrow> ?pBuf ! p = (if p \<in> places [x] then z else pBuf ! p)"
    using put_seg_places[of pBuf x "replicate (second x - first x) z" "\<lambda>p. z"] Cons.prems by auto
  then have "\<forall>z\<in>set xs. in_buf ?pBuf z" using Cons.prems by (simp add: in_buf_def)
  from Cons.IH[OF this] show ?case using P by auto
qed simp

text \<open>What a block reads as: zero for a hole, otherwise the cached content or that of the file.\<close>

definition view :: "geom \<Rightarrow> blk_cache \<Rightarrow> nat \<Rightarrow> block" where
  "view g s b = (case look (m_mapDirtyBlks s) b of Some c \<Rightarrow> c | None \<Rightarrow> blk_at g (m_image s) b)"

definition read_block :: "geom \<Rightarrow> blk_cache \<Rightarrow> nat \<Rightarrow> block" where
  "read_block g s b = (if b = INVALID_BLOCK_IDX then replicate (unat (g_dwBlockSize g)) 0 else view g s b)"

lemma pts_fun: "ivs_ok xs \<Longrightarrow> (b, p) \<in> pts xs \<Longrightarrow> (b, p') \<in> pts xs \<Longrightarrow> p = p'"
proof (induction xs)
  case (Cons x xs)
  have no: "\<not> (first x \<le> b \<and> b < second x)" if "(b, q) \<in> pts xs" for q
    using Cons.prems(1) that by (fastforce simp: ivs_ok_Cons pts_def)
  show ?case
  proof (cases "(b, p) \<in> pts xs \<or> (b, p') \<in> pts xs")
    case True
    then have "(b, p) \<in> pts xs" "(b, p') \<in> pts xs"
      using no Cons.prems(2,3) by (auto simp: pts_Cons[of x xs] pts_def[of "[x]"])
    then show ?thesis using Cons.IH Cons.prems(1) by (simp add: ivs_ok_Cons)
  next
    case False
    then show ?thesis using Cons.prems(2,3) by (auto simp: pts_Cons[of x xs] pts_def[of "[x]"])
  qed
qed (simp add: pts_def)

lemma request_split_places:
  assumes "ivs_ok xs" "wf_dirty ds" "C = IntersectIntervals xs ds" "N = SubtractIntervals xs C"
  shows "places C \<union> places N = places xs"
proof -
  note R = request_split[OF assms]
  have "(b, p) \<in> pts C \<or> (b, p) \<in> pts N" if bp: "(b, p) \<in> pts xs" for b p
  proof -
    have "covered xs b" using bp by (auto simp: covered_pts)
    then have "covered C b \<or> covered N b" using R(6,7)[of b] by (cases "look ds b") simp_all
    then obtain p' where "(b, p') \<in> pts C \<or> (b, p') \<in> pts N" by (auto simp: covered_pts)
    moreover from this have "p' = p" using R(3,4) pts_fun[OF assms(1) bp] by blast
    ultimately show ?thesis by simp
  qed
  then have "pts xs \<subseteq> pts C \<union> pts N" by auto
  then have "pts xs = pts C \<union> pts N" using R(3,4) by blast
  then show ?thesis by (simp add: places_pts image_Un)
qed

lemma hole_places:
  assumes "request_ok blks c"
  shows "x \<in> set (request_intervals blks c) \<Longrightarrow> \<not> real_iv x \<Longrightarrow> first x < second x \<and>
      (\<forall>p \<in> places [x]. p < length blks \<and> blks ! p = INVALID_BLOCK_IDX)"
    and "p < length blks \<Longrightarrow> blks ! p = INVALID_BLOCK_IDX \<Longrightarrow>
      p \<in> places (filter (\<lambda>x. \<not> real_iv x) (request_intervals blks c))"
proof -
  have ne: "blks \<noteq> []" using assms by (simp add: request_ok_def)
  note ex = FindContigousBlocks_expand[OF ne]
  let ?rs = "snd (FindContigousBlocks blks False)" and ?xs = "to_intervals 0 (snd (FindContigousBlocks blks False))"
  have hole: "\<not> c" if "INVALID_BLOCK_IDX \<in> set blks" using assms that by (auto simp: request_ok_def)
  have sets: "set (request_intervals blks c) = set ?xs" if "\<not> c" using that by (simp add: request_intervals_def)
  have pos: "first x < second x" if "x \<in> set (to_intervals off rs)" "\<forall>r\<in>set rs. snd r \<ge> 1" for x off rs
    using that by (induction off rs rule: to_intervals.induct) auto
  show "first x < second x \<and> (\<forall>p \<in> places [x]. p < length blks \<and> blks ! p = INVALID_BLOCK_IDX)"
    if x: "x \<in> set (request_intervals blks c)" "\<not> real_iv x"
  proof (cases c)
    case True
    have "hd blks \<noteq> INVALID_BLOCK_IDX" using hole True hd_in_set[OF ne] by metis
    then show ?thesis using x True by (simp add: request_intervals_def real_iv_def)
  next
    case False
    then have mem: "x \<in> set ?xs" using x(1) sets by simp
    have "p < length blks \<and> blks ! p = INVALID_BLOCK_IDX" if "p \<in> places [x]" for p
    proof -
      have "p - third x < second x - first x" "third x \<le> p" using that by auto
      then show ?thesis using to_intervals_place[OF mem, of "p - third x"] x(2)
        unfolding ex(1) real_iv_def by auto
    qed
    then show ?thesis using pos[OF mem] ex(2) by simp
  qed
  assume p: "p < length blks" "blks ! p = INVALID_BLOCK_IDX"
  then have c: "\<not> c" using hole nth_mem[OF p(1)] by simp
  obtain x where x: "x \<in> set ?xs" "third x \<le> p" "p < third x + (second x - first x)"
    using to_intervals_complete[of p ?rs 0] p(1) unfolding ex(1) by auto
  have "p - third x < second x - first x" using x(2,3) by linarith
  from to_intervals_place[OF x(1) this]
  have "first x = INVALID_BLOCK_IDX \<or> INVALID_BLOCK_IDX = first x + (p - third x)"
    using x(2) p(2) unfolding ex(1) by (auto split: if_splits)
  moreover have "INVALID_BLOCK_IDX \<noteq> first x + (p - third x)" if rl: "real_iv x"
  proof -
    have "(first x + (p - third x), p) \<in> pts (real_ivs blks c)"
      using x rl sets[OF c] by (auto simp: real_ivs_def pts_def intro!: bexI[of _ x])
    then show ?thesis unfolding real_ivs_spec(2)[OF assms] by simp
  qed
  ultimately have "\<not> real_iv x" by (auto simp: real_iv_def)
  then show "p \<in> places (filter (\<lambda>x. \<not> real_iv x) (request_intervals blks c))"
    using x sets[OF c] by (auto simp: places_def intro!: bexI[of _ x])
qed

lemma ReadCache_uniform:
  assumes "request_ok blks c"
  shows "ReadCache g rd blks pBuf c s =
    (let C = IntersectIntervals (real_ivs blks c) (m_mapDirtyBlks s);
         N = SubtractIntervals (real_ivs blks c) C;
         (pBuf1, n) = read_hits C (m_mapDirtyBlks s) (fill_holes g (request_intervals blks c) pBuf, 0);
         (ret, pBuf2, n2) = read_misses g rd (m_image s) N (0, pBuf1, n) in
     (if SUCCEEDED ret then int (n2 * unat (g_dwBlockSize g)) else ret, pBuf2))"
proof -
  have hd: "hd blks \<noteq> SUPER_KEY" "hd blks \<noteq> GRPBMP_KEY" "blks \<noteq> []" using assms by (auto simp: request_ok_def)
  have "real_ivs blks c = request_intervals blks c \<and> fill_holes g (request_intervals blks c) pBuf = pBuf" if c
  proof -
    have "INVALID_BLOCK_IDX \<notin> set blks" using assms that by (simp add: request_ok_def)
    from request_no_holes[OF assms this] have "\<forall>x\<in>set (request_intervals blks c). real_iv x"
      unfolding real_ivs_def by (metis filter_id_conv)
    then show ?thesis by (simp add: real_ivs_def fill_holes_def real_iv_def filter_id_conv filter_empty_conv)
  qed
  then show ?thesis using hd by (cases c) (simp_all add: ReadCache_def real_ivs_def real_iv_def[abs_def] Let_def)
qed

lemma ReadCache_reads:
  assumes "request_ok blks c" "length pBuf = length blks" "wf_dirty (m_mapDirtyBlks s)"
    "\<forall>k n. rd k n = int n" "\<forall>b\<in>set blks. b \<noteq> INVALID_BLOCK_IDX \<longrightarrow> on_disk g b"
  shows "snd (ReadCache g rd blks pBuf c s) = map (read_block g s) blks \<and>
    \<not> ERROR (fst (ReadCache g rd blks pBuf c s))"
proof -
  let ?ds = "m_mapDirtyBlks s" and ?h = "\<lambda>p. read_block g s (blks ! p)"
  define xs where "xs = real_ivs blks c"
  define H where "H = filter (\<lambda>x. \<not> real_iv x) (request_intervals blks c)"
  define C where "C = IntersectIntervals xs ?ds"
  define N where "N = SubtractIntervals xs C"
  note X = real_ivs_spec[OF assms(1), folded xs_def]
  note R = request_split[OF X(1) assms(3) C_def N_def]
  note hp = hole_places[OF assms(1)]
  have pos: "first x < second x" if "x \<in> set zs" "ivs_ok zs" for x zs using that by (simp add: ivs_ok_def)
  have rng: "\<forall>(b, p)\<in>pts xs. p < length blks" unfolding X(2) by auto
  have hbuf: "\<forall>x\<in>set H. in_buf pBuf x"
  proof
    fix x assume "x \<in> set H"
    then have x: "first x < second x" "\<forall>p\<in>places [x]. p < length blks" using hp(1)[of x] by (auto simp: H_def)
    then have "third x + (second x - first x) - 1 \<in> places [x]" by auto
    then show "in_buf pBuf x" using x assms(2) by (fastforce simp: in_buf_def)
  qed
  let ?b0 = "fill_holes g (request_intervals blks c) pBuf"
  have b0: "length ?b0 = length blks" "\<And>p. p < length blks \<Longrightarrow> ?b0 ! p =
      (if p \<in> places H then replicate (unat (g_dwBlockSize g)) 0 else pBuf ! p)"
    using fold_holes_spec[OF hbuf, of "replicate (unat (g_dwBlockSize g)) 0"] assms(2)
    by (simp_all add: fill_holes_def H_def real_iv_def)
  have hits: "\<forall>(b, p)\<in>pts C. look ?ds b = Some (?h p)" and misses: "\<forall>(b, p)\<in>pts N. on_disk g b \<and> blk_at g (m_image s) b = ?h p"
  proof -
    have "look ?ds b = Some (?h p)" if bp: "(b, p) \<in> pts C" for b p
    proof -
      have "blks ! p = b" "b \<noteq> INVALID_BLOCK_IDX" using bp R(3) unfolding X(2) by auto
      moreover have "covered C b" using bp by (auto simp: covered_pts)
      then have "look ?ds b \<noteq> None" using R(6)[of b] by simp
      ultimately show ?thesis by (auto simp: read_block_def view_def)
    qed
    then show "\<forall>(b, p)\<in>pts C. look ?ds b = Some (?h p)" by blast
    have "on_disk g b \<and> blk_at g (m_image s) b = ?h p" if bp: "(b, p) \<in> pts N" for b p
    proof -
      have b: "blks ! p = b" "b \<noteq> INVALID_BLOCK_IDX" "p < length blks" using bp R(4) unfolding X(2) by auto
      moreover have "on_disk g b" using assms(5) b nth_mem[of p blks] by auto
      moreover have "covered N b" using bp by (auto simp: covered_pts)
      then have "look ?ds b = None" using R(7)[of b] by simp
      ultimately show ?thesis by (auto simp: read_block_def view_def)
    qed
    then show "\<forall>(b, p)\<in>pts N. on_disk g b \<and> blk_at g (m_image s) b = ?h p" by blast
  qed
  have "\<forall>x\<in>set C. fits ?ds x \<and> in_buf ?b0 x"
    using R(5) in_buf_pts[OF R(3) _ _ pos[OF _ R(1)], of ?b0] rng b0(1) by simp
  from read_hits_spec[OF assms(3) this hits, of 0] obtain b1 where
    b1: "read_hits C ?ds (?b0, 0) = (b1, blk_count C)" "length b1 = length blks"
      "\<And>p. p < length blks \<Longrightarrow> b1 ! p = (if p \<in> places C then ?h p else ?b0 ! p)"
    using b0(1) by auto
  have "\<forall>x\<in>set N. in_buf b1 x" using in_buf_pts[OF R(4) _ _ pos[OF _ R(2)], of b1] rng b1(2) by simp
  from read_misses_spec[OF assms(4) this misses, of 0 "blk_count C"] obtain r b2 where
    b2: "read_misses g rd (m_image s) N (0, b1, blk_count C) = (r, b2, blk_count C + blk_count N)" "\<not> ERROR r"
      "length b2 = length blks" "\<And>p. p < length blks \<Longrightarrow> b2 ! p = (if p \<in> places N then ?h p else b1 ! p)"
    using b1(2) by auto
  have "b2 ! p = ?h p" if p: "p < length blks" for p
  proof (cases "blks ! p = INVALID_BLOCK_IDX")
    case True
    then have "p \<in> places H" using hp(2)[OF p] by (simp add: H_def)
    then show ?thesis using b2(4)[OF p] b1(3)[OF p] b0(2)[OF p] True by (simp add: read_block_def)
  next
    case False
    then have "(blks ! p, p) \<in> pts xs" using p unfolding X(2) by simp
    then have "p \<in> places xs" unfolding places_pts by force
    then have "p \<in> places C \<or> p \<in> places N" using request_split_places[OF X(1) assms(3) C_def N_def] by blast
    then show ?thesis using b2(4)[OF p] b1(3)[OF p] by auto
  qed
  then have "b2 = map (read_block g s) blks" using b2(3) by (intro nth_equalityI) auto
  moreover have "ReadCache g rd blks pBuf c s = (if SUCCEEDED r then int ((blk_count C + blk_count N) * unat (g_dwBlockSize g)) else r, b2)"
    unfolding ReadCache_uniform[OF assms(1)] xs_def[symmetric] C_def[symmetric] using b1(1) b2(1)
    by (simp add: Let_def N_def[symmetric])
  ultimately show ?thesis using b2(2) by (simp add: not_less del: of_nat_mult of_nat_add)
qed

section \<open>Merging and committing\<close>

lemma merge_loop_spec:
  assumes "wf_dirty ((cur, buf) # ds)"
  shows "wf_dirty (merge_loop sz cur buf ds) \<and> (\<forall>e\<in>set (merge_loop sz cur buf ds). cur \<le> fst e) \<and>
    (\<forall>b. look (merge_loop sz cur buf ds) b = look ((cur, buf) # ds) b)"
  using assms
proof (induction sz cur buf ds rule: merge_loop.induct)
  case (1 sz cur buf)
  then show ?case by simp
next
  case (2 sz cur buf k b ds)
  have wf: "wf_dirty ((k, b) # ds)" "cur + length buf \<le> k" using 2(4) by (auto simp: wf_dirty_Cons)
  show ?case
  proof (cases "k = cur + length buf \<and> (length buf + length b) * sz \<le> 16777216")
    case True
    then have "wf_dirty ((cur, buf @ b) # ds)" using 2(4) by (auto simp: wf_dirty_Cons)
    moreover have "look ((cur, buf @ b) # ds) x = look ((cur, buf) # (k, b) # ds) x" for x
      using True by (auto simp: in_entry_def nth_append)
    ultimately show ?thesis using 2(1) True by simp
  next
    case False
    have step: "merge_loop sz cur buf ((k, b) # ds) = (cur, buf) # merge_loop sz k b ds" using False by auto
    have IH: "wf_dirty (merge_loop sz k b ds) \<and> (\<forall>e\<in>set (merge_loop sz k b ds). k \<le> fst e) \<and>
        (\<forall>x. look (merge_loop sz k b ds) x = look ((k, b) # ds) x)"
      using 2(2,3) wf(1) False by blast
    have "cur + length buf \<le> fst e" if "e \<in> set (merge_loop sz k b ds)" for e using IH that wf(2) by fastforce
    then have "wf_dirty ((cur, buf) # merge_loop sz k b ds)" using IH 2(4) by (simp add: wf_dirty_Cons)
    moreover have "cur \<le> fst e" if "e \<in> set (merge_loop sz k b ds)" for e using IH that wf(2) by fastforce
    ultimately show ?thesis using IH unfolding step by simp
  qed
qed

text \<open>
  The entries of a cache that fit into the file: blocks of the right size that the allocator can reach, one block at most for super block and group bitmap (so with
  the default geometry), and these not larger than their place.
\<close>

definition cache_inv :: "blk_cache \<Rightarrow> bool" where
  "cache_inv s \<longleftrightarrow> wf_dirty (m_mapDirtyBlks s)"

definition block_fits :: "geom \<Rightarrow> nat \<Rightarrow> block \<Rightarrow> bool" where
  "block_fits g b c \<longleftrightarrow> on_disk g b \<and> length c = bsz g \<or> b = SUPER_KEY \<and> length c \<le> bsz g \<or> b = GRPBMP_KEY \<and> length c \<le> GRPBMP_SIZE g"

definition disk_inv :: "geom \<Rightarrow> blk_cache \<Rightarrow> bool" where
  "disk_inv g s \<longleftrightarrow> cache_inv s \<and> (\<forall>b c. look (m_mapDirtyBlks s) b = Some c \<longrightarrow> block_fits g b c)"

text \<open>The bytes of an entry in the file.\<close>

definition area :: "geom \<Rightarrow> nat \<times> block list \<Rightarrow> nat set" where
  "area g e = {file_off g (fst e)..<file_off g (fst e) + length (concat (snd e))}"

definition written :: "geom \<Rightarrow> nat \<times> block list \<Rightarrow> (nat \<Rightarrow> byte) \<Rightarrow> bool" where
  "written g e img \<longleftrightarrow> (\<forall>i<length (concat (snd e)). img (file_off g (fst e) + i) = concat (snd e) ! i)"

lemma concat_nth:
  assumes "\<forall>c\<in>set buf. length c = sz" "j < length buf" "i < sz"
  shows "concat buf ! (j * sz + i) = buf ! j ! i"
  using assms
proof (induction buf arbitrary: j)
  case (Cons c buf)
  show ?case
  proof (cases j)
    case (Suc j')
    have "concat buf ! (j' * sz + i) = buf ! j' ! i" using Cons Suc by simp
    thus ?thesis using Cons.prems Suc by (simp add: nth_append add.assoc)
  qed (use Cons.prems in \<open>simp add: nth_append\<close>)
qed simp

lemma concat_length: "\<forall>c\<in>set buf. length c = sz \<Longrightarrow> length (concat buf) = length buf * sz"
  by (induction buf) auto

lemma entry_fits:
  assumes wf: "wf_dirty ds" and fit: "\<forall>b c. look ds b = Some c \<longrightarrow> block_fits g b c" and e: "e \<in> set ds"
  shows "(\<forall>b. in_entry b e \<longrightarrow> on_disk g b) \<and> (\<forall>c\<in>set (snd e). length c = bsz g) \<or>
    length (snd e) = 1 \<and> (fst e = SUPER_KEY \<and> length (concat (snd e)) \<le> bsz g \<or> fst e = GRPBMP_KEY \<and> length (concat (snd e)) \<le> GRPBMP_SIZE g)"
proof -
  have F: "block_fits g b (snd e ! (b - fst e))" if "in_entry b e" for b using look_entry[OF wf e that] fit by blast
  have ne: "snd e \<noteq> []" using wf e by (simp add: wf_dirty_def)
  have no: "\<not> in_entry b e" if "2147483648 \<le> b" "b \<noteq> SUPER_KEY" "b \<noteq> GRPBMP_KEY" for b
    using F[of b] on_disk_less[of g b] that by (auto simp: block_fits_def)
  show ?thesis
  proof (cases "fst e = SUPER_KEY \<or> fst e = GRPBMP_KEY")
    case True
    have "\<not> in_entry (fst e + 1) e" by (rule no) (use True in auto)
    hence l: "length (snd e) = 1" using ne by (cases "snd e") (auto simp: in_entry_def)
    then obtain c where c: "snd e = [c]" by (cases "snd e") auto
    have "block_fits g (fst e) c" using F[of "fst e"] by (simp add: in_entry_def c)
    thus ?thesis using True l on_disk_less[of g "fst e"] by (auto simp: block_fits_def c)
  next
    case False
    have "in_entry (fst e) e" using ne by (simp add: in_entry_def)
    hence lt: "fst e < 2147483648" using no[of "fst e"] False by linarith
    have plain: "b < 2147483648" if "in_entry b e" for b
    proof (rule ccontr)
      assume "\<not> b < 2147483648"
      hence "in_entry 2147483648 e" using that lt by (simp add: in_entry_def)
      thus False using no[of 2147483648] by simp
    qed
    have D: "on_disk g b \<and> length (snd e ! (b - fst e)) = bsz g" if "in_entry b e" for b
      using F[OF that] plain[OF that] by (auto simp: block_fits_def)
    have "length c = bsz g" if c: "c \<in> set (snd e)" for c
    proof -
      obtain i where i: "i < length (snd e)" "snd e ! i = c" using c by (auto simp: in_set_conv_nth)
      thus ?thesis using D[of "fst e + i"] by (simp add: in_entry_def)
    qed
    thus ?thesis using D by blast
  qed
qed

text \<open>A block of a plain entry in the area of its entry, and areas that do not meet.\<close>

lemma plain_area:
  assumes ne: "snd e \<noteq> []" and D: "\<forall>b. in_entry b e \<longrightarrow> on_disk g b" and L: "\<forall>c\<in>set (snd e). length c = bsz g"
  shows "area g e = {file_off g (fst e)..<file_off g (fst e) + length (snd e) * bsz g}" "on_disk g (fst e)"
    "in_entry b e \<Longrightarrow> file_off g b = file_off g (fst e) + (b - fst e) * bsz g"
proof -
  show "area g e = {file_off g (fst e)..<file_off g (fst e) + length (snd e) * bsz g}" by (simp add: area_def concat_length[OF L])
  show d: "on_disk g (fst e)" using D ne by (simp add: in_entry_def)
  assume b: "in_entry b e"
  have "on_disk g (fst e + (b - fst e))" using D b by (simp add: in_entry_def)
  from file_off_run[OF d this] show "file_off g b = file_off g (fst e) + (b - fst e) * bsz g" using b by (simp add: in_entry_def)
qed

lemma outside_area:
  assumes wf: "wf_dirty ds" and fit: "\<forall>b c. look ds b = Some c \<longrightarrow> block_fits g b c" and e: "e \<in> set ds"
    and b: "on_disk g b" "\<not> in_entry b e" and a: "file_off g b \<le> a" "a < file_off g b + bsz g"
  shows "a \<notin> area g e"
proof -
  have ne: "snd e \<noteq> []" using wf e by (simp add: wf_dirty_def)
  note B = file_off_linear[OF b(1)]
  consider "\<forall>b. in_entry b e \<longrightarrow> on_disk g b" "\<forall>c\<in>set (snd e). length c = bsz g"
    | "fst e = SUPER_KEY" "length (concat (snd e)) \<le> bsz g" | "fst e = GRPBMP_KEY" "length (concat (snd e)) \<le> GRPBMP_SIZE g"
    using entry_fits[OF wf fit e] by blast
  thus ?thesis
  proof cases
    case 1
    note P = plain_area[OF ne 1]
    have "file_off g (fst e) = bsz g + GRPBMP_SIZE g + fst e * bsz g" by (rule file_off_linear[OF P(2)])
    moreover have "b + 1 \<le> fst e \<or> fst e + length (snd e) \<le> b" using b(2) by (auto simp: in_entry_def)
    hence "(b + 1) * bsz g \<le> fst e * bsz g \<or> (fst e + length (snd e)) * bsz g \<le> b * bsz g" by (meson mult_le_mono1)
    ultimately show ?thesis using a unfolding P(1) B by (auto simp: distrib_right)
  next
    case 2
    thus ?thesis using a unfolding B by (simp add: area_def file_off_def)
  next
    case 3
    thus ?thesis using a unfolding B by (simp add: area_def file_off_def)
  qed
qed

lemma areas_apart:
  assumes wf: "wf_dirty ds" and fit: "\<forall>b c. look ds b = Some c \<longrightarrow> block_fits g b c" and e: "e \<in> set ds" "e' \<in> set ds" "e \<noteq> e'"
  shows "area g e \<inter> area g e' = {}"
proof -
  have plain: "area g x \<inter> area g y = {}"
    if x: "x \<in> set ds" "y \<in> set ds" "x \<noteq> y" and D: "\<forall>b. in_entry b x \<longrightarrow> on_disk g b" "\<forall>c\<in>set (snd x). length c = bsz g" for x y
  proof -
    have ne: "snd x \<noteq> []" using wf x(1) by (simp add: wf_dirty_def)
    note P = plain_area[OF ne D]
    have "a \<notin> area g y" if a: "a \<in> area g x" for a
    proof -
      let ?i = "(a - file_off g (fst x)) div bsz g" and ?o = "file_off g (fst x)"
      have z: "0 < bsz g" using P(2) by (simp add: on_disk_def)
      have r: "?o \<le> a" "a < ?o + length (snd x) * bsz g" using a unfolding P(1) by simp_all
      hence "?i < length (snd x)" by (simp add: less_mult_imp_div_less)
      hence i: "in_entry (fst x + ?i) x" by (simp add: in_entry_def)
      have "\<not> in_entry (fst x + ?i) y" using in_entry_unique[OF wf x(1,2) i] x(3) by blast
      moreover have "file_off g (fst x + ?i) = ?o + ?i * bsz g" using P(3)[OF i] by simp
      moreover have "?i * bsz g \<le> a - ?o" "a - ?o < ?i * bsz g + bsz g"
        using z by (simp_all add: div_times_less_eq_dividend dividend_less_div_times add.commute)
      ultimately have "file_off g (fst x + ?i) \<le> a" "a < file_off g (fst x + ?i) + bsz g" "\<not> in_entry (fst x + ?i) y" using r(1) by linarith+
      thus ?thesis using outside_area[OF wf fit x(2), of "fst x + ?i" a] D(1) i by blast
    qed
    thus ?thesis by blast
  qed
  have sp: "fst x = SUPER_KEY \<and> area g x \<subseteq> {..<bsz g} \<or> fst x = GRPBMP_KEY \<and> area g x \<subseteq> {bsz g..}"
    if "x \<in> set ds" "\<not> ((\<forall>b. in_entry b x \<longrightarrow> on_disk g b) \<and> (\<forall>c\<in>set (snd x). length c = bsz g))" for x
    using entry_fits[OF wf fit that(1)] that(2) by (auto simp: area_def file_off_def)
  have key: "fst e \<noteq> fst e'" using wf_dirty_keys[OF wf] e by (metis eq_key_imp_eq_value prod.collapse)
  show ?thesis
  proof (cases "((\<forall>b. in_entry b e \<longrightarrow> on_disk g b) \<and> (\<forall>c\<in>set (snd e). length c = bsz g)) \<or>
      ((\<forall>b. in_entry b e' \<longrightarrow> on_disk g b) \<and> (\<forall>c\<in>set (snd e'). length c = bsz g))")
    case True
    thus ?thesis using plain[OF e] plain[OF e(2,1)] e(3) by blast
  next
    case False
    thus ?thesis using sp[OF e(1)] sp[OF e(2)] key by fastforce
  qed
qed

text \<open>What the commit leaves in the file: the bytes of every entry at its place, and all other bytes as they were.\<close>

lemma commit_loop_bytes:
  assumes "\<forall>e\<in>set ds. file_off g (fst e) < 2147483648 \<and> wr (fst e) (length (concat (snd e))) = int (length (concat (snd e)))"
    and "\<forall>e\<in>set ds. \<forall>e'\<in>set ds. e \<noteq> e' \<longrightarrow> area g e \<inter> area g e' = {}" "distinct ds"
  shows "\<exists>img'. commit_loop g wr ds img = Inr img' \<and> (\<forall>e\<in>set ds. written g e img') \<and> (\<forall>a. (\<forall>e\<in>set ds. a \<notin> area g e) \<longrightarrow> img' a = img a)"
  using assms
proof (induction ds arbitrary: img)
  case (Cons e ds)
  obtain k buf where e: "e = (k, buf)" by fastforce
  define n where "n = length (concat buf)"
  let ?img = "put_bytes (file_off g k) (concat buf) img"
  obtain img' where I: "commit_loop g wr ds ?img = Inr img'" "\<forall>e\<in>set ds. written g e img'" "\<forall>a. (\<forall>e\<in>set ds. a \<notin> area g e) \<longrightarrow> img' a = ?img a"
    using Cons.IH[of ?img] Cons.prems by auto
  have k: "file_off g k < 2147483648" "wr k n = int n" using Cons.prems(1) by (simp_all add: e n_def)
  have "WriteFile_at (file_off g k) (wr k n) (concat buf) img = (int n, ?img)"
    unfolding k(2) by (simp add: WriteFile_at_def io_full[OF k(1)] flip: n_def)
  hence "commit_loop g wr (e # ds) img = Inr img'" using I(1) by (simp add: e Let_def flip: n_def)
  moreover have "written g e img'"
  proof -
    have "img' (file_off g k + i) = concat buf ! i" if i: "i < length (concat buf)" for i
    proof -
      have a: "file_off g k + i \<in> area g e" using i by (simp add: area_def e)
      have "file_off g k + i \<notin> area g e'" if "e' \<in> set ds" for e' using Cons.prems(2,3) that a by fastforce
      hence "img' (file_off g k + i) = ?img (file_off g k + i)" using I(3) by blast
      thus ?thesis using i by (simp add: put_bytes_def)
    qed
    thus ?thesis by (simp add: written_def e)
  qed
  moreover have "img' a = img a" if a: "\<forall>e\<in>set (e # ds). a \<notin> area g e" for a
  proof -
    have "?img a = img a" using a by (auto simp: put_bytes_def area_def e)
    thus ?thesis using a I(3) by simp
  qed
  ultimately show ?case using I(2) by auto
qed simp

lemma area_off:
  assumes wf: "wf_dirty ds" and fit: "\<forall>b c. look ds b = Some c \<longrightarrow> block_fits g b c" and e: "e \<in> set ds" and z: "bsz g < 2147483648"
  shows "file_off g (fst e) < 2147483648"
proof -
  have ne: "snd e \<noteq> []" using wf e by (simp add: wf_dirty_def)
  show ?thesis using entry_fits[OF wf fit e] plain_area(2)[OF ne] file_off_bounds(3)[of g "fst e"] z by (auto simp: file_off_def)
qed

lemma CommitCache_view:
  assumes inv: "disk_inv g s" and z: "bsz g < 2147483648"
    and wr: "\<forall>e\<in>set (m_mapDirtyBlks s). wr (fst e) (length (concat (snd e))) = int (length (concat (snd e)))"
  shows "\<exists>img. CommitCache g wr s = Inr (0, s\<lparr>m_image := img, m_mapDirtyBlks := [], m_dwDirtyBlkCount := 0, m_dwCacheAge := 0\<rparr>) \<and>
    (\<forall>b. on_disk g b \<longrightarrow> blk_at g img b = view g s b) \<and> (\<forall>e\<in>set (m_mapDirtyBlks s). written g e img) \<and>
    (\<forall>a. (\<forall>e\<in>set (m_mapDirtyBlks s). a \<notin> area g e) \<longrightarrow> img a = m_image s a)"
proof -
  let ?ds = "m_mapDirtyBlks s"
  have wf: "wf_dirty ?ds" and fit: "\<forall>b c. look ?ds b = Some c \<longrightarrow> block_fits g b c" using inv by (simp_all add: disk_inv_def cache_inv_def)
  have ok: "\<forall>e\<in>set ?ds. file_off g (fst e) < 2147483648 \<and> wr (fst e) (length (concat (snd e))) = int (length (concat (snd e)))"
    using wr area_off[OF wf fit _ z] by blast
  have ap: "\<forall>e\<in>set ?ds. \<forall>e'\<in>set ?ds. e \<noteq> e' \<longrightarrow> area g e \<inter> area g e' = {}" using areas_apart[OF wf fit] by blast
  have d: "distinct ?ds" using wf_dirty_keys[OF wf] distinct_map by blast
  obtain img where I: "commit_loop g wr ?ds (m_image s) = Inr img" "\<forall>e\<in>set ?ds. written g e img"
    "\<forall>a. (\<forall>e\<in>set ?ds. a \<notin> area g e) \<longrightarrow> img a = m_image s a" using commit_loop_bytes[OF ok ap d] by blast
  have "blk_at g img b = view g s b" if b: "on_disk g b" for b
  proof (cases "look ?ds b")
    case None
    have "img a = m_image s a" if a: "file_off g b \<le> a" "a < file_off g b + bsz g" for a
      using I(3) outside_area[OF wf fit _ b _ a] None[unfolded look_None_iff] by blast
    thus ?thesis using None by (simp add: view_def blk_at_def)
  next
    case (Some c)
    obtain e where e: "e \<in> set ?ds" "in_entry b e" using Some look_None_iff[of ?ds b] by auto
    have c: "c = snd e ! (b - fst e)" using look_entry[OF wf e] Some by simp
    have ne: "snd e \<noteq> []" using wf e(1) by (simp add: wf_dirty_def)
    have "(\<forall>b. in_entry b e \<longrightarrow> on_disk g b) \<and> (\<forall>c\<in>set (snd e). length c = bsz g)"
      using entry_fits[OF wf fit e(1)] e(2) on_disk_less[OF b] by (auto simp: in_entry_def)
    hence D: "\<forall>b. in_entry b e \<longrightarrow> on_disk g b" "\<forall>c\<in>set (snd e). length c = bsz g" by simp_all
    note P = plain_area[OF ne D]
    let ?j = "b - fst e"
    have j: "?j < length (snd e)" using e(2) by (auto simp: in_entry_def)
    have "img (file_off g b + i) = c ! i" if i: "i < bsz g" for i
    proof -
      have "?j * bsz g + i < (?j + 1) * bsz g" using i by simp
      also have "\<dots> \<le> length (snd e) * bsz g" by (rule mult_le_mono1) (use j in simp)
      finally have "?j * bsz g + i < length (concat (snd e))" by (simp add: concat_length[OF D(2)])
      hence "img (file_off g (fst e) + (?j * bsz g + i)) = concat (snd e) ! (?j * bsz g + i)" using I(2) e(1) by (simp add: written_def)
      thus ?thesis using concat_nth[OF D(2) j i] by (simp add: P(3)[OF e(2)] c add.assoc)
    qed
    moreover have "length c = bsz g" using D(2) j by (simp add: c)
    ultimately show ?thesis using Some by (auto simp: view_def blk_at_def intro: nth_equalityI)
  qed
  thus ?thesis using I by (auto simp: CommitCache_def)
qed

lemma CommitCache_abort:
  assumes "e \<in> set (m_mapDirtyBlks s)" "ERROR (wr (fst e) (length (concat (snd e))))"
  shows "CommitCache g wr s = Inl Fault_Abort"
proof -
  have "commit_loop g wr ds img = Inl Fault_Abort" if "e \<in> set ds" for ds img
    using that assms(2) by (induction ds arbitrary: img) (auto simp: Let_def WriteFile_at_def io_ret_def min_def)
  then show ?thesis using assms(1) by (simp add: CommitCache_def)
qed

lemma CheckAndCommit_cases:
  assumes "CheckAndCommit g wr clk life ent s = Inr (ret, s')"
  obtains (keep) "s' = s" | (commit) "m_dwTransCount s = 0" "CommitCache g wr s = Inr (ret, s')"
  using assms by (auto simp: CheckAndCommit_def split: if_splits)

section \<open>The cache as a block store\<close>

text \<open>A sequence of operations, and what it writes last to each block.\<close>

fun run_ops :: "('op \<Rightarrow> 's \<Rightarrow> 's run) \<Rightarrow> 'op list \<Rightarrow> 's \<Rightarrow> 's run" where
  "run_ops step [] s = Inr s"
| "run_ops step (op # ops) s = (case step op s of Inl f \<Rightarrow> Inl f | Inr s' \<Rightarrow> run_ops step ops s')"

definition last_write :: "('op \<Rightarrow> (nat \<rightharpoonup> block)) \<Rightarrow> 'op list \<Rightarrow> (nat \<rightharpoonup> block)" where
  "last_write writes ops = fold (\<lambda>op m. m ++ writes op) ops Map.empty"

text \<open>The interface of a store of the blocks \<open>blk\<close>: every operation that is allowed succeeds, keeps the
  invariant and changes the visible content of these blocks by exactly what it writes.\<close>

locale block_store =
  fixes inv :: "'s \<Rightarrow> bool"
    and step :: "'op \<Rightarrow> 's \<Rightarrow> 's run"
    and blk :: "nat \<Rightarrow> bool"
    and content :: "'s \<Rightarrow> nat \<Rightarrow> block"
    and allowed :: "'op \<Rightarrow> bool"
    and writes :: "'op \<Rightarrow> (nat \<rightharpoonup> block)"
  assumes step_store: "inv s \<Longrightarrow> allowed op \<Longrightarrow> \<exists>s'. step op s = Inr s' \<and> inv s' \<and>
    (\<forall>b. blk b \<longrightarrow> content s' b = (case writes op b of Some c \<Rightarrow> c | None \<Rightarrow> content s b))"
begin

lemma fold_writes: "fold (\<lambda>op m. m ++ writes op) ops m0 = m0 ++ fold (\<lambda>op m. m ++ writes op) ops Map.empty"
proof (induction ops arbitrary: m0)
  case (Cons op ops)
  have "fold (\<lambda>op m. m ++ writes op) (op # ops) m0 = m0 ++ writes op ++ fold (\<lambda>op m. m ++ writes op) ops Map.empty"
    using Cons[of "m0 ++ writes op"] by simp
  also have "\<dots> = m0 ++ fold (\<lambda>op m. m ++ writes op) (op # ops) Map.empty"
    using Cons[of "writes op"] by simp
  finally show ?case .
qed simp

lemma run_store:
  "inv s \<Longrightarrow> \<forall>op\<in>set ops. allowed op \<Longrightarrow> \<exists>s'. run_ops step ops s = Inr s' \<and> inv s' \<and>
    (\<forall>b. blk b \<longrightarrow> content s' b = (case last_write writes ops b of Some c \<Rightarrow> c | None \<Rightarrow> content s b))"
proof (induction ops arbitrary: s)
  case (Cons op ops)
  obtain s1 where s1: "step op s = Inr s1" "inv s1"
    "\<forall>b. blk b \<longrightarrow> content s1 b = (case writes op b of Some c \<Rightarrow> c | None \<Rightarrow> content s b)"
    using step_store[OF Cons.prems(1), of op] Cons.prems(2) by auto
  obtain s' where s': "run_ops step ops s1 = Inr s'" "inv s'"
    "\<forall>b. blk b \<longrightarrow> content s' b = (case last_write writes ops b of Some c \<Rightarrow> c | None \<Rightarrow> content s1 b)"
    using Cons.IH[OF s1(2)] Cons.prems(2) by auto
  have "last_write writes (op # ops) = writes op ++ last_write writes ops"
    using fold_writes[of ops "writes op"] by (simp add: last_write_def)
  then show ?case using s1 s' by (auto simp: map_add_def split: option.splits)
qed (simp add: last_write_def)

end

text \<open>The operations of the cache on a running allocator: a write, entering and leaving a
  transaction, a commit and a merge. The results of the file writes and of the clock belong to
  the operation.\<close>

datatype cache_op =
    OpWrite "gint32 \<times> int" "nat list" "block list" bool
  | OpEnter "nat \<Rightarrow> nat \<Rightarrow> gint32" "gint32 \<times> int" int
  | OpLeave "nat \<Rightarrow> nat \<Rightarrow> gint32" "gint32 \<times> int" int
  | OpCommit "nat \<Rightarrow> nat \<Rightarrow> gint32"
  | OpMerge

fun cache_step :: "geom \<Rightarrow> cache_op \<Rightarrow> blk_cache \<Rightarrow> blk_cache run" where
  "cache_step g (OpWrite clk blks pBuf c) s =
    (case CacheBlocks g clk blks pBuf c s of Inl f \<Rightarrow> Inl f | Inr (ret, s') \<Rightarrow> Inr s')"
| "cache_step g (OpEnter wr clk life) s = BATransact_enter g wr clk life s"
| "cache_step g (OpLeave wr clk life) s = BATransact_leave g wr clk life s"
| "cache_step g (OpCommit wr) s = (case CommitCache g wr s of Inl f \<Rightarrow> Inl f | Inr (ret, s') \<Rightarrow> Inr s')"
| "cache_step g OpMerge s = Inr (snd (MergeBlocks g s))"

text \<open>What is allowed: writes of whole blocks that the allocator can reach, and file writes that are complete.\<close>

fun op_allowed :: "geom \<Rightarrow> cache_op \<Rightarrow> bool" where
  "op_allowed g (OpWrite clk blks pBuf c) \<longleftrightarrow> \<not> ERROR (fst clk) \<and> write_ok blks pBuf c \<and>
    (\<forall>b\<in>set blks. on_disk g b) \<and> (\<forall>d\<in>set pBuf. length d = bsz g)"
| "op_allowed g (OpEnter wr clk life) \<longleftrightarrow> (\<forall>k n. wr k n = int n)"
| "op_allowed g (OpLeave wr clk life) \<longleftrightarrow> (\<forall>k n. wr k n = int n)"
| "op_allowed g (OpCommit wr) \<longleftrightarrow> (\<forall>k n. wr k n = int n)"
| "op_allowed g OpMerge \<longleftrightarrow> True"

fun op_writes :: "cache_op \<Rightarrow> (nat \<rightharpoonup> block)" where
  "op_writes (OpWrite clk blks pBuf c) = map_of (zip blks pBuf)"
| "op_writes _ = Map.empty"

lemma view_update [simp]:
  "view g (s\<lparr>m_dwTransCount := n\<rparr>) = view g s" "disk_inv g (s\<lparr>m_dwTransCount := n\<rparr>) = disk_inv g s"
  by (auto simp: view_def fun_eq_iff disk_inv_def cache_inv_def split: option.split)

text \<open>Two states with the same content of the blocks.\<close>

definition same_view :: "geom \<Rightarrow> blk_cache \<Rightarrow> blk_cache \<Rightarrow> bool" where
  "same_view g s s' \<longleftrightarrow> (\<forall>b. on_disk g b \<longrightarrow> view g s' b = view g s b)"

lemma commit_keeps:
  assumes "disk_inv g s" "\<forall>k n. wr k n = int n" "bsz g < 2147483648"
  shows "\<exists>s'. CommitCache g wr s = Inr (0, s') \<and> disk_inv g s' \<and> same_view g s s' \<and> m_dwTransCount s' = m_dwTransCount s"
proof -
  obtain img where C: "CommitCache g wr s = Inr (0, s\<lparr>m_image := img, m_mapDirtyBlks := [], m_dwDirtyBlkCount := 0, m_dwCacheAge := 0\<rparr>)"
    "\<forall>b. on_disk g b \<longrightarrow> blk_at g img b = view g s b" using CommitCache_view[OF assms(1,3), of wr] assms(2) by blast
  thus ?thesis by (simp add: disk_inv_def cache_inv_def wf_dirty_def same_view_def) (simp add: view_def)
qed

lemma check_keeps:
  assumes "disk_inv g s" "\<forall>k n. wr k n = int n" "bsz g < 2147483648"
  shows "\<exists>ret s'. CheckAndCommit g wr clk life ent s = Inr (ret, s') \<and> disk_inv g s' \<and> same_view g s s'"
proof -
  obtain s1 where "CommitCache g wr s = Inr (0, s1)" "disk_inv g s1" "same_view g s s1" using commit_keeps[OF assms] by blast
  moreover have "same_view g s s" by (simp add: same_view_def)
  ultimately show ?thesis using assms(1) by (auto simp: CheckAndCommit_def)
qed

lemma merge_keeps: "disk_inv g s \<Longrightarrow> disk_inv g (snd (MergeBlocks g s)) \<and> same_view g s (snd (MergeBlocks g s))"
proof (cases "m_mapDirtyBlks s")
  case Nil
  then show "disk_inv g s \<Longrightarrow> ?thesis" by (simp add: MergeBlocks_def same_view_def)
next
  case (Cons e ds)
  assume inv: "disk_inv g s"
  then have "wf_dirty ((fst e, snd e) # ds)" using Cons by (simp add: disk_inv_def cache_inv_def)
  note M = merge_loop_spec[OF this, of "unat (g_dwBlockSize g)"]
  obtain ds' where D: "snd (MergeBlocks g s) = s\<lparr>m_mapDirtyBlks := ds'\<rparr>" "wf_dirty ds'" "\<forall>b. look ds' b = look (m_mapDirtyBlks s) b"
    using M Cons by (cases e) (simp add: MergeBlocks_def del: look_simps)
  then show ?thesis using inv by (simp add: disk_inv_def cache_inv_def same_view_def view_def split: option.split)
qed

lemma write_keeps:
  assumes "disk_inv g s" "op_allowed g (OpWrite clk blks pBuf c)"
  shows "\<exists>ret s'. CacheBlocks g clk blks pBuf c s = Inr (ret, s') \<and> disk_inv g s' \<and>
    (\<forall>b. view g s' b = (case map_of (zip blks pBuf) b of Some c \<Rightarrow> c | None \<Rightarrow> view g s b))"
proof -
  have A: "\<not> ERROR (fst clk)" "write_ok blks pBuf c" "\<forall>b\<in>set blks. on_disk g b" "\<forall>d\<in>set pBuf. length d = bsz g" using assms(2) by simp_all
  have I: "wf_dirty (m_mapDirtyBlks s)" "\<forall>b c. look (m_mapDirtyBlks s) b = Some c \<longrightarrow> block_fits g b c"
    using assms(1) by (simp_all add: disk_inv_def cache_inv_def)
  obtain ds n where W: "CacheBlocks g clk blks pBuf c s = Inr (int (length blks * unat (g_dwBlockSize g)),
      s\<lparr>m_mapDirtyBlks := ds, m_dwDirtyBlkCount := m_dwDirtyBlkCount s + n,
        m_oStartTime := (if m_mapDirtyBlks s = [] then snd clk else m_oStartTime s)\<rparr>)"
    "wf_dirty ds" "\<forall>b. look ds b = (look (m_mapDirtyBlks s) ++ map_of (zip blks pBuf)) b"
    using CacheBlocks_plain[OF A(2) I(1) A(1)] by blast
  let ?s = "s\<lparr>m_mapDirtyBlks := ds, m_dwDirtyBlkCount := m_dwDirtyBlkCount s + n,
        m_oStartTime := (if m_mapDirtyBlks s = [] then snd clk else m_oStartTime s)\<rparr>"
  have "view g ?s b = (case map_of (zip blks pBuf) b of Some c \<Rightarrow> c | None \<Rightarrow> view g s b)" for b
    using W(3)[rule_format, of b] by (cases "map_of (zip blks pBuf) b") (simp_all add: view_def map_add_def split: option.split)
  moreover have "block_fits g b d" if "look ds b = Some d" for b d
  proof (cases "map_of (zip blks pBuf) b")
    case None
    thus ?thesis using that W(3) I(2) by (simp add: map_add_def)
  next
    case (Some d')
    hence "d' = d" "b \<in> set blks" "d \<in> set pBuf"
      using that W(3) map_of_SomeD[OF Some] by (auto simp: map_add_def dest: set_zip_leftD set_zip_rightD)
    thus ?thesis using A(3,4) by (simp add: block_fits_def)
  qed
  ultimately show ?thesis using W(1,2) by (auto simp: disk_inv_def cache_inv_def)
qed

interpretation cache_store: block_store "\<lambda>s. disk_inv g s \<and> bsz g < 2147483648" "cache_step g" "on_disk g" "view g" "op_allowed g" op_writes for g
proof unfold_locales
  fix s op
  assume inv: "disk_inv g s \<and> bsz g < 2147483648" and ok: "op_allowed g op"
  note I = conjunct1[OF inv] and z = conjunct2[OF inv]
  show "\<exists>s'. cache_step g op s = Inr s' \<and> (disk_inv g s' \<and> bsz g < 2147483648) \<and>
    (\<forall>b. on_disk g b \<longrightarrow> view g s' b = (case op_writes op b of Some c \<Rightarrow> c | None \<Rightarrow> view g s b))"
  proof (cases op)
    case (OpWrite clk blks pBuf c)
    then show ?thesis using write_keeps[OF I, of clk blks pBuf c] ok z by auto
  next
    case (OpEnter wr clk life)
    then show ?thesis using check_keeps[OF I _ z, of wr clk life True] ok z by (auto simp: BATransact_enter_def same_view_def)
  next
    case (OpLeave wr clk life)
    have "disk_inv g (s\<lparr>m_dwTransCount := m_dwTransCount s - 1\<rparr>)" using I by simp
    then show ?thesis using check_keeps[OF _ _ z, of "s\<lparr>m_dwTransCount := m_dwTransCount s - 1\<rparr>" wr clk life False] ok z OpLeave
      by (auto simp: BATransact_leave_def same_view_def)
  next
    case (OpCommit wr)
    then show ?thesis using commit_keeps[OF I _ z, of wr] ok z by (auto simp: same_view_def)
  next
    case OpMerge
    then show ?thesis using merge_keeps[OF I] z by (simp add: same_view_def)
  qed
qed

section \<open>Properties of the cache\<close>

text \<open>Sequences that stay inside a transaction: a leave never ends the outermost one.\<close>

fun nested :: "nat \<Rightarrow> cache_op list \<Rightarrow> bool" where
  "nested d [] \<longleftrightarrow> True"
| "nested d (OpWrite clk blks pBuf c # ops) \<longleftrightarrow> nested d ops"
| "nested d (OpEnter wr clk life # ops) \<longleftrightarrow> nested (d + 1) ops"
| "nested d (OpLeave wr clk life # ops) \<longleftrightarrow> d \<ge> 2 \<and> nested (d - 1) ops"
| "nested d (OpCommit wr # ops) \<longleftrightarrow> False"
| "nested d (OpMerge # ops) \<longleftrightarrow> nested d ops"

lemma write_image:
  assumes "CacheBlocks g clk blks pBuf c s = Inr (ret, s')"
  shows "m_image s' = m_image s \<and> m_dwTransCount s' = m_dwTransCount s"
  using assms by (auto simp: CacheBlocks_def Let_def split: if_splits sum.splits prod.splits)

lemma merge_image: "m_image (snd (MergeBlocks g s)) = m_image s \<and> m_dwTransCount (snd (MergeBlocks g s)) = m_dwTransCount s"
  by (simp add: MergeBlocks_def split: list.split)

lemma nested_image:
  "run_ops (cache_step g) ops s = Inr s' \<Longrightarrow> 1 \<le> m_dwTransCount s \<Longrightarrow> nested (m_dwTransCount s) ops \<Longrightarrow>
    m_image s' = m_image s \<and> 1 \<le> m_dwTransCount s'"
proof (induction ops arbitrary: s)
  case (Cons op ops)
  obtain s1 where s1: "cache_step g op s = Inr s1" "run_ops (cache_step g) ops s1 = Inr s'"
    using Cons.prems(1) by (auto split: sum.splits)
  have "m_image s1 = m_image s \<and> 1 \<le> m_dwTransCount s1 \<and> nested (m_dwTransCount s1) ops"
  proof (cases op)
    case (OpWrite clk blks pBuf c)
    then obtain ret where "CacheBlocks g clk blks pBuf c s = Inr (ret, s1)" using s1(1) by (auto split: sum.splits)
    from write_image[OF this] show ?thesis using Cons.prems(2,3) OpWrite by simp
  next
    case (OpEnter wr clk life)
    then show ?thesis using s1(1) Cons.prems(2,3) by (auto simp: BATransact_enter_def CheckAndCommit_def)
  next
    case (OpLeave wr clk life)
    then show ?thesis using s1(1) Cons.prems(2,3) by (auto simp: BATransact_leave_def CheckAndCommit_def)
  next
    case OpMerge
    then show ?thesis using s1(1) Cons.prems(2,3) merge_image[of g s] by auto
  qed (use Cons.prems(3) in simp)
  then show ?case using Cons.IH[OF s1(2)] by simp
qed simp

lemma valid_bsz: "IsValidBlockSize (g_dwBlockSize g) = STATUS_SUCCESS \<Longrightarrow> bsz g < 2147483648"
  by (auto simp: IsValidBlockSize_def split: if_splits)


definition wit_cache :: blk_cache where
  "wit_cache = \<lparr>m_mapDirtyBlks = [], m_dwDirtyBlkCount = 0, m_dwCacheAge = 0, m_dwTransCount = 0,
    m_oStartTime = 0, m_bStopped = False, m_image = (\<lambda>a. 9)\<rparr>"

abbreviation full_io :: "nat \<Rightarrow> nat \<Rightarrow> gint32" where "full_io \<equiv> \<lambda>k n. int n"

definition wit_ops :: "cache_op list" where
  "wit_ops = [OpWrite (0, 5) [8, 3, 7] [replicate 512 1, replicate 512 2, replicate 512 3] False, OpCommit full_io,
    OpWrite (0, 6) [7, 8] [replicate 512 4, replicate 512 5] True]"

lemma wit_on_disk: "b < 100 \<Longrightarrow> on_disk default_geom b"
  by (simp add: on_disk_def default_geom_def GRPBMP_SIZE_def find_shift_default)

lemma wit_blk: "blk_at default_geom (m_image wit_cache) b = replicate 512 9"
  by (simp add: blk_at_def wit_cache_def default_geom_def map_replicate_const)

lemma wit_cache_inv: "cache_inv wit_cache" "disk_inv default_geom wit_cache"
  by (simp_all add: wit_cache_def cache_inv_def disk_inv_def wf_dirty_def)

lemma wit_ops_ok: "\<forall>op\<in>set wit_ops. op_allowed default_geom op"
  by (simp add: wit_ops_def write_ok_def request_ok_def upt_rec wit_on_disk) (simp add: default_geom_def)




text \<open>C20. Inside a transaction nothing reaches the image: no sequence of writes, merges and nested
  transactions changes it before the outermost transaction is left.\<close>

theorem transaction_keeps_image:
  assumes "run_ops (cache_step g) ops s = Inr s'" "1 \<le> m_dwTransCount s" "nested (m_dwTransCount s) ops"
  shows "m_image s' = m_image s"
  using nested_image[OF assms] by simp

theorem transaction_keeps_image_witness:
  "\<exists>s'. run_ops (cache_step default_geom)
      [OpWrite (0, 1) [3] [[6]] True, OpEnter full_io (0, 100) 60, OpLeave full_io (0, 100) 60, OpMerge]
      (wit_cache\<lparr>m_dwTransCount := 1\<rparr>) = Inr s' \<and>
    m_dwDirtyBlkCount s' = 1 \<and> m_image s' = m_image wit_cache"
proof -
  let ?ops = "[OpWrite (0, 1) [3] [[6]] True, OpEnter full_io (0, 100) 60, OpLeave full_io (0, 100) 60, OpMerge]"
  let ?s = "wit_cache\<lparr>m_dwTransCount := 1\<rparr>"
  have run: "run_ops (cache_step default_geom) ?ops ?s =
      Inr (?s\<lparr>m_mapDirtyBlks := [(3, [[6]])], m_dwDirtyBlkCount := 1, m_oStartTime := 1\<rparr>)"
    by (simp add: wit_cache_def CacheBlocks_def request_intervals_def IntersectIntervals_def SubtractIntervals_def
      get_seg_def Let_def BATransact_enter_def BATransact_leave_def CheckAndCommit_def MergeBlocks_def)
  from transaction_keeps_image[OF run] show ?thesis using run by (simp add: wit_cache_def)
qed

text \<open>C33. A commit makes the cache durable. When every write to the file is complete, the cache is empty afterwards and the file has the bytes of
  every entry at the offset of the entry, super block and group bitmap included, and its old bytes everywhere else; so each block that the allocator can reach below 2 GiB reads
  from the file what was visible before. When a write fails, the process aborts instead of going on with a partly written image. The hypothesis \<open>disk_inv\<close>
  says that the cache holds blocks below 2 GiB of the file, and super block and group bitmap of one block at most.\<close>

theorem commit_is_durable:
  assumes "disk_inv g s" "IsValidBlockSize (g_dwBlockSize g) = STATUS_SUCCESS"
  shows "((\<forall>e\<in>set (m_mapDirtyBlks s). wr (fst e) (length (concat (snd e))) = int (length (concat (snd e)))) \<longrightarrow>
      (\<exists>img. CommitCache g wr s = Inr (0, s\<lparr>m_image := img, m_mapDirtyBlks := [], m_dwDirtyBlkCount := 0, m_dwCacheAge := 0\<rparr>) \<and>
        (\<forall>b. on_disk g b \<longrightarrow> blk_at g img b = view g s b) \<and>
        (\<forall>e\<in>set (m_mapDirtyBlks s). \<forall>i<length (concat (snd e)). img (file_off g (fst e) + i) = concat (snd e) ! i) \<and>
        (\<forall>a. (\<forall>e\<in>set (m_mapDirtyBlks s). a \<notin> {file_off g (fst e)..<file_off g (fst e) + length (concat (snd e))}) \<longrightarrow> img a = m_image s a))) \<and>
    ((\<exists>e\<in>set (m_mapDirtyBlks s). ERROR (wr (fst e) (length (concat (snd e))))) \<longrightarrow> CommitCache g wr s = Inl Fault_Abort)"
  using CommitCache_view[OF assms(1) valid_bsz[OF assms(2)], of wr] CommitCache_abort[of _ s wr g] unfolding written_def area_def by blast

theorem commit_is_durable_witness:
  "CommitCache default_geom (\<lambda>k n. if k = 9 then - EAGAIN else int n)
      (wit_cache\<lparr>m_mapDirtyBlks := [(3, [replicate 512 6]), (9, [replicate 512 1])]\<rparr>) = Inl Fault_Abort \<and>
    (\<exists>s'. CommitCache default_geom full_io (wit_cache\<lparr>m_mapDirtyBlks := [(3, [replicate 512 6]), (9, [replicate 512 1])]\<rparr>) = Inr (0, s') \<and>
      blk_at default_geom (m_image s') 3 = replicate 512 6 \<and> blk_at default_geom (m_image s') 4 = replicate 512 9)"
proof -
  let ?s = "wit_cache\<lparr>m_mapDirtyBlks := [(3, [replicate 512 6]), (9, [replicate 512 1])]\<rparr>"
  have v: "IsValidBlockSize (g_dwBlockSize default_geom) = STATUS_SUCCESS" by (simp add: IsValidBlockSize_def default_geom_def)
  have i: "disk_inv default_geom ?s"
    by (auto simp: disk_inv_def cache_inv_def wf_dirty_def in_entry_def block_fits_def wit_on_disk split: if_splits) (simp_all add: default_geom_def)
  note C = conjunct1[OF commit_is_durable[OF i v]] conjunct2[OF commit_is_durable[OF i v]]
  have d: "on_disk default_geom 3" "on_disk default_geom 4" by (simp_all add: wit_on_disk)
  have w: "view default_geom ?s 3 = replicate 512 6" "view default_geom ?s 4 = replicate 512 9"
    using wit_blk[of 4] by (simp_all add: view_def in_entry_def)
  have e: "\<exists>e\<in>set (m_mapDirtyBlks ?s). ERROR ((\<lambda>k n. if k = 9 then - EAGAIN else int n) (fst e) (length (concat (snd e))))"
    by (rule bexI[of _ "(9, [replicate 512 1])"]) simp_all
  obtain img where "CommitCache default_geom full_io ?s = Inr (0, ?s\<lparr>m_image := img, m_mapDirtyBlks := [], m_dwDirtyBlkCount := 0, m_dwCacheAge := 0\<rparr>)"
    "\<forall>b. on_disk default_geom b \<longrightarrow> blk_at default_geom img b = view default_geom ?s b" using C(1)[of full_io] by blast
  thus ?thesis using C(2)[rule_format, OF e] d w by auto
qed

section \<open>Faults of the cache\<close>

text \<open>A read that misses the cache does not return the number of bytes it delivered: with one
  of two blocks cached, the buffer has both blocks but the result is the size of the last
  piece read from the file, because \<^verbatim>\<open>SUCCEEDED\<close> accepts only 0.\<close>

lemma read_cache_short_count:
  assumes "m_mapDirtyBlks s = [(0, [x])]"
  shows "ReadCache default_geom full_io [0, 1] [z, z] True s = (512, [x, blk_at default_geom (m_image s) 1])"
proof -
  have d: "on_disk default_geom (Suc 0)" by (simp add: wit_on_disk)
  have "in_blocks 512 (Suc 0) (map (m_image s) [file_off default_geom (Suc 0)..<file_off default_geom (Suc 0) + Suc 0 * 512] @ drop 512 z) =
      [blk_at default_geom (m_image s) 1]"
    using in_blocks_read[of 0 "Suc 0" 512] by (simp add: in_blocks_def blk_at_def default_geom_def)
  moreover have "bsz default_geom = 512" by (simp add: default_geom_def)
  ultimately show ?thesis using assms file_off_bounds(3)[OF d]
    by (simp add: ReadCache_def request_intervals_def IntersectIntervals_def SubtractIntervals_def
      put_seg_def get_seg_def Let_def ReadFile_at_def io_ret_def io_count_def)
qed

text \<open>Beyond 2 GiB a commit loses blocks. \<^verbatim>\<open>ReadWriteFile\<close> keeps the result of \<^verbatim>\<open>lseek\<close> in 32 bits, takes it for an error and returns the negated errno; with
  errno 0 the commit succeeds, nothing is written and the cache is emptied.\<close>

lemma put_no_bytes [simp]: "put_bytes off [] img = img"
  by (auto simp: put_bytes_def fun_eq_iff)

lemma commit_loses_above_2g:
  assumes "2147483648 \<le> file_off g k" "m_mapDirtyBlks s = [(k, buf)]"
  shows "CommitCache g (\<lambda>k n. 0) s = Inr (0, s\<lparr>m_mapDirtyBlks := [], m_dwDirtyBlkCount := 0, m_dwCacheAge := 0\<rparr>)"
  using assms by (simp add: CommitCache_def Let_def WriteFile_at_def io_ret_def io_count_def)

lemma far_block: "file_off default_geom 4194304 = 2147484672"
  by (simp add: file_off_def BLOCK_ABS_linear default_geom_def GRPBMP_SIZE_def find_shift_default)

text \<open>Where the group bitmap takes two blocks (a page of 16 blocks), its key -4 is followed by the key -2 of the super block, and merging joins the
  two: the super block is then written behind the group bitmap, over the bitmap of the first group.\<close>

lemma merge_joins_super:
  assumes "m_mapDirtyBlks s = [(GRPBMP_KEY, [a, b]), (SUPER_KEY, [c])]" "unat (g_dwBlockSize g) \<le> 4096"
  shows "MergeBlocks g s = (0, s\<lparr>m_mapDirtyBlks := [(GRPBMP_KEY, [a, b, c])]\<rparr>)"
  using assms by (simp add: MergeBlocks_def)

end
