(* ===== verification/ParGrp.thy ===== *)
theory ParGrp
  imports IfState
begin

text \<open>
  Parallel task groups of the request forwarder: \<^verbatim>\<open>CIfParallelTaskGrp\<close> and its version with a limit on
  running and waiting requests, \<^verbatim>\<open>CIfParallelTaskGrpRfc\<close> (\<^verbatim>\<open>ipc/iftasks.cpp\<close>), and the one that cooperates with
  the scheduler, \<^verbatim>\<open>CIfParallelTaskGrpRfc2\<close> (\<^verbatim>\<open>rpc/reqfwdr.cpp\<close>).

  A task is its object id with the information whether it is a \<^verbatim>\<open>CIfInvokeMethodTask\<close>; the set of running tasks is kept
  in the order of the ids, as \<^verbatim>\<open>std::set\<close> iterates. What the children do to the group while its lock is
  released is an argument \<open>exec\<close>. Where an operation reschedules the group through the I/O manager, this is part of the
  result.
\<close>

section \<open>Data\<close>

type_synonym task = "nat \<times> bool"

abbreviation (input) RFC_MAX_REQS :: nat where "RFC_MAX_REQS \<equiv> 16"
abbreviation (input) RFC_MAX_PENDINGS :: nat where "RFC_MAX_PENDINGS \<equiv> 32"
abbreviation (input) ERROR_KILLED_BYSCHED :: gint32 where "ERROR_KILLED_BYSCHED \<equiv> -2147418094"

record task_grp =
  m_setTasks :: "task list"
  m_quePendingTasks :: "task list"
  m_iTaskState :: EnumIfState
  m_bRunning :: bool
  m_bCanceling :: bool
  m_bNoSched :: bool
  m_dwMaxRunning :: nat
  m_dwMaxPending :: nat
  m_dwTaskAdded :: nat
  m_dwTaskRejected :: nat
  m_dwPrxyPortId :: "nat option"

text \<open>What the caller has to do after an operation on a group.\<close>

datatype grp_action = ActNone | ActReschedule | ActDeferRemove | ActRunNext nat

section \<open>Counts and state checks\<close>

definition GetTaskCount :: "task_grp \<Rightarrow> nat" where
  "GetTaskCount g = length (m_setTasks g) + length (m_quePendingTasks g)"

definition GetPendingCount :: "task_grp \<Rightarrow> nat" where
  "GetPendingCount g = length (m_quePendingTasks g)"

text \<open>The placeholder task that keeps a group alive does not count as running.\<close>

definition GetRunningCount :: "task_grp \<Rightarrow> int" where
  "GetRunningCount g = int (length (m_setTasks g)) - 1"

definition IsStopped :: "EnumIfState \<Rightarrow> bool" where
  "IsStopped st \<longleftrightarrow> st = stateStopped \<or> st = stateStopping"

definition CHECK_GRP_STATE :: "task_grp \<Rightarrow> bool" where
  "CHECK_GRP_STATE g \<longleftrightarrow> \<not> IsStopped (m_iTaskState g) \<and> \<not> m_bCanceling g \<and>
    \<not> (\<not> m_bRunning g \<and> m_iTaskState g = stateStarted)"

section \<open>The plain parallel group\<close>

definition insert_tasks :: "task list \<Rightarrow> task list \<Rightarrow> task list" where
  "insert_tasks ts xs = fold (\<lambda>t xs. if t \<in> set xs then xs else insort_key fst t xs) ts xs"

definition RemoveTask :: "task \<Rightarrow> task_grp \<Rightarrow> gint32 \<times> task_grp" where
  "RemoveTask t g =
    (if t \<in> set (m_setTasks g) then (0, g\<lparr>m_setTasks := remove1 t (m_setTasks g)\<rparr>)
     else if t \<in> set (m_quePendingTasks g) then (0, g\<lparr>m_quePendingTasks := remove1 t (m_quePendingTasks g)\<rparr>)
     else (- ENOENT, g))"

definition CIfParallelTaskGrp_OnChildComplete :: "task \<Rightarrow> task_grp \<Rightarrow> grp_action \<times> task_grp" where
  "CIfParallelTaskGrp_OnChildComplete t g =
    (let g1 = snd (RemoveTask t g) in
     if m_bNoSched g1 then (ActNone, g1)
     else if GetPendingCount g1 = 0 \<and> GetTaskCount g1 > 0 then (ActNone, g1)
     else (ActReschedule, g1))"

text \<open>The checks at the start of \<^verbatim>\<open>RunTaskInternal\<close>, which both classes share: \<open>Inl\<close> is an early return.\<close>

definition run_checks :: "task_grp \<Rightarrow> (gint32 \<times> task_grp) + task_grp" where
  "run_checks g =
    (if IsStopped (m_iTaskState g) \<or> m_bCanceling g \<or> (\<not> m_bRunning g \<and> m_iTaskState g = stateStarted) \<or> m_bNoSched g
     then Inl (STATUS_PENDING, g)
     else
       let g1 = (if m_iTaskState g = stateStarting then g\<lparr>m_iTaskState := stateStarted, m_bRunning := True\<rparr> else g) in
       if GetTaskCount g1 = 0 then Inl (STATUS_SUCCESS, g1\<lparr>m_iTaskState := stateStopping, m_bRunning := False\<rparr>)
       else if GetPendingCount g1 = 0 then Inl (STATUS_PENDING, g1)
       else Inr g1)"

definition run_end :: "gint32 \<Rightarrow> task_grp \<Rightarrow> gint32 \<times> task_grp" where
  "run_end ret g =
    (ret, if ret \<noteq> STATUS_PENDING then g\<lparr>m_bRunning := False, m_iTaskState := stateStopping\<rparr> else g)"

text \<open>One pass of the loop: the first \<open>n\<close> waiting tasks become running ones, and are started without the lock.\<close>

definition start_tasks :: "nat \<Rightarrow> (task list \<Rightarrow> task_grp \<Rightarrow> task_grp) \<Rightarrow> task_grp \<Rightarrow> task_grp" where
  "start_tasks n exec g =
    (let ts = take n (m_quePendingTasks g);
         g1 = g\<lparr>m_quePendingTasks := drop n (m_quePendingTasks g), m_setTasks := insert_tasks ts (m_setTasks g),
                m_bNoSched := True\<rparr> in
     (exec ts g1)\<lparr>m_bNoSched := False\<rparr>)"

fun par_loop :: "nat \<Rightarrow> (task list \<Rightarrow> task_grp \<Rightarrow> task_grp) \<Rightarrow> task_grp \<Rightarrow> (gint32 \<times> task_grp) option" where
  "par_loop 0 exec g = None"
| "par_loop (Suc fuel) exec g =
    (let g1 = start_tasks (GetPendingCount g) exec g in
     if GetPendingCount g1 > 0 then par_loop fuel exec g1
     else Some (if GetTaskCount g1 > 0 then STATUS_PENDING else 0, g1))"

definition CIfParallelTaskGrp_RunTaskInternal ::
  "nat \<Rightarrow> (task list \<Rightarrow> task_grp \<Rightarrow> task_grp) \<Rightarrow> task_grp \<Rightarrow> (gint32 \<times> task_grp) option" where
  "CIfParallelTaskGrp_RunTaskInternal fuel exec g =
    (case run_checks g of
       Inl r \<Rightarrow> Some r
     | Inr g1 \<Rightarrow> map_option (\<lambda>(ret, g2). run_end ret g2) (par_loop fuel exec g1))"

definition CIfParallelTaskGrp_AppendTask :: "task \<Rightarrow> task_grp \<Rightarrow> gint32 \<times> task_grp" where
  "CIfParallelTaskGrp_AppendTask t g =
    (if m_bCanceling g \<or> IsStopped (m_iTaskState g) \<or> (\<not> m_bRunning g \<and> m_iTaskState g = stateStarted)
     then (ERROR_STATE, g)
     else (0, g\<lparr>m_quePendingTasks := m_quePendingTasks g @ [t]\<rparr>))"

section \<open>The group with limits\<close>

text \<open>The constructor takes the limits from the configuration.\<close>

definition CIfParallelTaskGrpRfc_init :: "nat option \<Rightarrow> nat option \<Rightarrow> nat option \<Rightarrow> task_grp" where
  "CIfParallelTaskGrpRfc_init maxReqs maxPendings port =
    \<lparr>m_setTasks = [], m_quePendingTasks = [], m_iTaskState = stateStarting, m_bRunning = False, m_bCanceling = False,
     m_bNoSched = False,
     m_dwMaxRunning = (case maxReqs of Some n \<Rightarrow> n | None \<Rightarrow> RFC_MAX_REQS),
     m_dwMaxPending = (case maxPendings of Some n \<Rightarrow> n | None \<Rightarrow> RFC_MAX_PENDINGS),
     m_dwTaskAdded = 0, m_dwTaskRejected = 0, m_dwPrxyPortId = port\<rparr>"

definition queue_full :: "task_grp \<Rightarrow> bool" where
  "queue_full g \<longleftrightarrow> int (GetPendingCount g) + GetRunningCount g \<ge> int (m_dwMaxPending g) + int (m_dwMaxRunning g)"

definition CIfParallelTaskGrpRfc_OnChildComplete :: "task \<Rightarrow> task_grp \<Rightarrow> grp_action \<times> task_grp" where
  "CIfParallelTaskGrpRfc_OnChildComplete t g =
    (if GetRunningCount g > int (m_dwMaxRunning g) then (ActNone, snd (RemoveTask t g))
     else CIfParallelTaskGrp_OnChildComplete t g)"

fun rfc_loop :: "nat \<Rightarrow> (task list \<Rightarrow> task_grp \<Rightarrow> task_grp) \<Rightarrow> task_grp \<Rightarrow> (gint32 \<times> task_grp) option" where
  "rfc_loop 0 exec g = None"
| "rfc_loop (Suc fuel) exec g =
    (let iCount = nat (int (m_dwMaxRunning g) - GetRunningCount g);
         g1 = start_tasks (min iCount (GetPendingCount g)) exec g in
     if GetPendingCount g1 > 0 \<and> int (m_dwMaxRunning g1) - GetRunningCount g1 > 0 then rfc_loop fuel exec g1
     else Some (if GetTaskCount g1 > 0 then STATUS_PENDING else 0, g1))"

definition CIfParallelTaskGrpRfc_RunTaskInternal ::
  "nat \<Rightarrow> (task list \<Rightarrow> task_grp \<Rightarrow> task_grp) \<Rightarrow> task_grp \<Rightarrow> (gint32 \<times> task_grp) option" where
  "CIfParallelTaskGrpRfc_RunTaskInternal fuel exec g =
    (case run_checks g of
       Inl r \<Rightarrow> Some r
     | Inr g1 \<Rightarrow>
         if int (m_dwMaxRunning g1) - GetRunningCount g1 \<le> 0 then Some (STATUS_PENDING, g1)
         else map_option (\<lambda>(ret, g2). run_end ret g2) (rfc_loop fuel exec g1))"

text \<open>\<^verbatim>\<open>AddAndRun\<close>: the action tells whether the group runs itself at once.\<close>

definition CIfParallelTaskGrpRfc_AddAndRun :: "task \<Rightarrow> task_grp \<Rightarrow> gint32 \<times> grp_action \<times> task_grp" where
  "CIfParallelTaskGrpRfc_AddAndRun t g =
    (if \<not> CHECK_GRP_STATE g then (ERROR_STATE, ActNone, g)
     else if queue_full g then (ERROR_QUEUE_FULL, ActNone, g\<lparr>m_dwTaskRejected := m_dwTaskRejected g + 1\<rparr>)
     else
       let g1 = g\<lparr>m_quePendingTasks := m_quePendingTasks g @ [t], m_dwTaskAdded := m_dwTaskAdded g + 1\<rparr> in
       if m_bNoSched g1 then (0, ActNone, g1)
       else if \<not> m_bRunning g1 \<or> GetRunningCount g1 \<ge> int (m_dwMaxRunning g1) then (0, ActNone, g1)
       else (0, ActReschedule, g1))"

definition CIfParallelTaskGrpRfc_AppendTask :: "task \<Rightarrow> task_grp \<Rightarrow> gint32 \<times> task_grp" where
  "CIfParallelTaskGrpRfc_AppendTask t g =
    (if queue_full g then (ERROR_QUEUE_FULL, g\<lparr>m_dwTaskRejected := m_dwTaskRejected g + 1\<rparr>)
     else let (ret, g1) = CIfParallelTaskGrp_AppendTask t g in
       (ret, g1\<lparr>m_dwTaskAdded := m_dwTaskAdded g1 + 1\<rparr>))"

definition CIfParallelTaskGrpRfc_InsertTask :: "task \<Rightarrow> task_grp \<Rightarrow> gint32 \<times> task_grp" where
  "CIfParallelTaskGrpRfc_InsertTask t g =
    (if \<not> CHECK_GRP_STATE g then (ERROR_STATE, g)
     else (0, g\<lparr>m_dwTaskAdded := m_dwTaskAdded g + 1, m_quePendingTasks := t # m_quePendingTasks g\<rparr>))"

definition GetLimit :: "task_grp \<Rightarrow> gint32 + (nat \<times> nat)" where
  "GetLimit g =
    (if \<not> CHECK_GRP_STATE g then Inl ERROR_STATE
     else Inr (min (m_dwMaxRunning g) RFC_MAX_REQS, min (m_dwMaxPending g) RFC_MAX_PENDINGS))"

definition SetLimit :: "nat \<Rightarrow> nat \<Rightarrow> bool \<Rightarrow> task_grp \<Rightarrow> gint32 \<times> grp_action \<times> task_grp" where
  "SetLimit dwMaxRunning dwMaxPending bNoResched g =
    (if dwMaxPending = 0 then (- EINVAL, ActNone, g)
     else if \<not> CHECK_GRP_STATE g then (ERROR_STATE, ActNone, g)
     else
       let g1 = g\<lparr>m_dwMaxPending := min dwMaxPending RFC_MAX_PENDINGS, m_dwMaxRunning := min dwMaxRunning RFC_MAX_REQS\<rparr> in
       if m_bNoSched g1 \<or> bNoResched then (0, ActNone, g1)
       else if GetRunningCount g1 < int (m_dwMaxRunning g1) \<and> GetPendingCount g1 > 0 then (0, ActReschedule, g1)
       else (0, ActNone, g1))"

definition IsQueueFull :: "task_grp \<Rightarrow> gint32 + bool" where
  "IsQueueFull g = (if \<not> CHECK_GRP_STATE g then Inl ERROR_STATE else Inr (queue_full g))"

section \<open>The group of the request forwarder\<close>

definition SelTasksToKill :: "task_grp \<Rightarrow> task list" where
  "SelTasksToKill g =
    (if \<not> CHECK_GRP_STATE g then []
     else if int (m_dwMaxRunning g) \<ge> GetRunningCount g then []
     else take (nat (GetRunningCount g - int (m_dwMaxRunning g))) (filter snd (m_setTasks g)))"

definition HasPendingTasks :: "task_grp \<Rightarrow> nat" where
  "HasPendingTasks g = GetPendingCount g"

definition HasFreeSlot :: "task_grp \<Rightarrow> bool" where
  "HasFreeSlot g \<longleftrightarrow> \<not> m_bNoSched g \<and> \<not> GetRunningCount g \<ge> int (m_dwMaxRunning g)"

definition HasTaskToRun :: "task_grp \<Rightarrow> bool" where
  "HasTaskToRun g \<longleftrightarrow> \<not> m_bNoSched g \<and> \<not> GetRunningCount g \<ge> int (m_dwMaxRunning g) \<and> GetPendingCount g \<noteq> 0"

text \<open>\<^verbatim>\<open>DeferredRemove\<close> spins until the I/O task has stopped; \<open>iostat\<close> is the state it finds, \<open>None\<close> without a task.\<close>

definition DeferredRemove :: "task \<Rightarrow> EnumIfState option \<Rightarrow> task_grp \<Rightarrow> (grp_action \<times> task_grp) run" where
  "DeferredRemove t iostat g =
    (if \<not> snd t then Inr (ActNone, g)
     else if iostat \<noteq> None \<and> iostat \<noteq> Some stateStopped then Inl Fault_Block
     else
       let g1 = snd (RemoveTask t g) in
       if GetRunningCount g1 \<ge> int (m_dwMaxRunning g1) \<or> m_bNoSched g1 then Inr (ActNone, g1)
       else Inr (ActRunNext 1, g1))"

definition CIfParallelTaskGrpRfc2_OnChildComplete :: "bool \<Rightarrow> gint32 \<Rightarrow> task \<Rightarrow> task_grp \<Rightarrow> grp_action \<times> task_grp" where
  "CIfParallelTaskGrpRfc2_OnChildComplete bScheduler ret t g =
    (if \<not> snd t then (ActNone, snd (RemoveTask t g))
     else if bScheduler then
       if ret = ERROR_KILLED_BYSCHED then (ActNone, snd (RemoveTask t g)) else (ActDeferRemove, g)
     else
       let g1 = snd (RemoveTask t g) in
       if GetRunningCount g1 \<ge> int (m_dwMaxRunning g1) \<or> m_bNoSched g1 then (ActNone, g1)
       else if GetPendingCount g1 = 0 \<and> GetTaskCount g1 > 0 then (ActNone, g1)
       else (ActReschedule, g1))"

section \<open>Starting tasks\<close>

lemmas grp_counts = GetTaskCount_def GetPendingCount_def GetRunningCount_def

lemma insert_tasks_spec:
  "distinct (ts @ xs) \<Longrightarrow> set (insert_tasks ts xs) = set ts \<union> set xs \<and>
    length (insert_tasks ts xs) = length ts + length xs \<and> distinct (insert_tasks ts xs)"
proof (induction ts arbitrary: xs)
  case (Cons t ts)
  have "distinct (ts @ insort_key fst t xs)" using Cons.prems by (auto simp: set_insort_key distinct_insort)
  from Cons.IH[OF this] Cons.prems show ?case by (auto simp: insert_tasks_def set_insort_key)
qed (simp add: insert_tasks_def)

text \<open>What the children may do while the group is unlocked: tasks complete, are cancelled or arrive, but nobody else
  starts tasks of the group or changes its limit.\<close>

definition orderly :: "(task list \<Rightarrow> task_grp \<Rightarrow> task_grp) \<Rightarrow> bool" where
  "orderly exec \<longleftrightarrow> (\<forall>ts g. distinct (m_setTasks g @ m_quePendingTasks g) \<longrightarrow>
    distinct (m_setTasks (exec ts g) @ m_quePendingTasks (exec ts g)) \<and>
    set (m_setTasks (exec ts g)) \<subseteq> set (m_setTasks g) \<and> m_dwMaxRunning (exec ts g) = m_dwMaxRunning g)"

definition no_arrivals :: "(task list \<Rightarrow> task_grp \<Rightarrow> task_grp) \<Rightarrow> bool" where
  "no_arrivals exec \<longleftrightarrow> (\<forall>ts g. length (m_quePendingTasks (exec ts g)) \<le> length (m_quePendingTasks g))"

definition grp_ok :: "task_grp \<Rightarrow> bool" where
  "grp_ok g \<longleftrightarrow> distinct (m_setTasks g @ m_quePendingTasks g) \<and> GetRunningCount g \<le> int (m_dwMaxRunning g)"

lemma start_tasks_ok:
  assumes "grp_ok g" "orderly exec"
    "n \<le> nat (int (m_dwMaxRunning g) - GetRunningCount g)" "n \<le> GetPendingCount g"
  shows "grp_ok (start_tasks n exec g) \<and> m_dwMaxRunning (start_tasks n exec g) = m_dwMaxRunning g"
proof -
  let ?ts = "take n (m_quePendingTasks g)"
  let ?g1 = "g\<lparr>m_quePendingTasks := drop n (m_quePendingTasks g), m_setTasks := insert_tasks ?ts (m_setTasks g), m_bNoSched := True\<rparr>"
  have dis: "distinct (m_setTasks g @ m_quePendingTasks g)" using assms(1) by (simp add: grp_ok_def)
  then have d: "distinct (?ts @ m_setTasks g)" using set_take_subset[of n "m_quePendingTasks g"] by auto
  note I = insert_tasks_spec[OF d]
  have "set ?ts \<inter> set (drop n (m_quePendingTasks g)) = {}" using dis set_take_disj_set_drop_if_distinct[of "m_quePendingTasks g" n n] by simp
  then have "distinct (m_setTasks ?g1 @ m_quePendingTasks ?g1)"
    using I dis set_drop_subset[of n "m_quePendingTasks g"] by auto
  then have E: "distinct (m_setTasks (exec ?ts ?g1) @ m_quePendingTasks (exec ?ts ?g1))"
    "set (m_setTasks (exec ?ts ?g1)) \<subseteq> set (insert_tasks ?ts (m_setTasks g))" "m_dwMaxRunning (exec ?ts ?g1) = m_dwMaxRunning g"
    using assms(2)[unfolded orderly_def, rule_format, of ?g1 ?ts] by auto
  have "length (m_setTasks (exec ?ts ?g1)) \<le> length (insert_tasks ?ts (m_setTasks g))"
    using E(1,2) I card_mono[OF _ E(2)] by (metis List.finite_set distinct_append distinct_card)
  also have "\<dots> \<le> n + length (m_setTasks g)" using I by simp
  finally have len: "length (m_setTasks (exec ?ts ?g1)) \<le> n + length (m_setTasks g)" .
  have "int n \<le> int (m_dwMaxRunning g) - GetRunningCount g" using assms(1,3) unfolding grp_ok_def by linarith
  then have "GetRunningCount (exec ?ts ?g1) \<le> int (m_dwMaxRunning g)" using len unfolding GetRunningCount_def by linarith
  then show ?thesis using E by (simp add: start_tasks_def Let_def grp_ok_def GetRunningCount_def)
qed

lemma rfc_loop_ok:
  "rfc_loop fuel exec g = Some (ret, g') \<Longrightarrow> orderly exec \<Longrightarrow> grp_ok g \<Longrightarrow>
    grp_ok g' \<and> m_dwMaxRunning g' = m_dwMaxRunning g \<and>
    (m_quePendingTasks g' = [] \<or> GetRunningCount g' = int (m_dwMaxRunning g')) \<and> ret \<in> {0, STATUS_PENDING}"
proof (induction fuel arbitrary: g)
  case (Suc fuel)
  let ?g1 = "start_tasks (min (nat (int (m_dwMaxRunning g) - GetRunningCount g)) (GetPendingCount g)) exec g"
  have S: "grp_ok ?g1" "m_dwMaxRunning ?g1 = m_dwMaxRunning g"
    using start_tasks_ok[OF Suc.prems(3,2)] by simp_all
  show ?case
  proof (cases "GetPendingCount ?g1 > 0 \<and> int (m_dwMaxRunning ?g1) - GetRunningCount ?g1 > 0")
    case True
    then have "rfc_loop fuel exec ?g1 = Some (ret, g')" using Suc.prems(1) by (simp add: Let_def)
    from Suc.IH[OF this Suc.prems(2) S(1)] show ?thesis using S(2) by auto
  next
    case False
    then have g': "g' = ?g1" "ret \<in> {0, STATUS_PENDING}" using Suc.prems(1) by (auto simp: Let_def split: if_splits)
    have "m_quePendingTasks ?g1 = [] \<or> GetRunningCount ?g1 = int (m_dwMaxRunning ?g1)"
      using False S(1) by (auto simp: grp_ok_def GetPendingCount_def)
    then show ?thesis using S g' by simp
  qed
qed simp

lemma start_tasks_pending:
  "no_arrivals exec \<Longrightarrow> GetPendingCount (start_tasks n exec g) \<le> GetPendingCount g - n"
  unfolding no_arrivals_def start_tasks_def Let_def GetPendingCount_def
  by (erule allE[of _ "take n (m_quePendingTasks g)"], drule spec[of _ "g\<lparr>m_quePendingTasks := drop n (m_quePendingTasks g),
    m_setTasks := insert_tasks (take n (m_quePendingTasks g)) (m_setTasks g), m_bNoSched := True\<rparr>"]) simp

lemma rfc_loop_returns:
  "no_arrivals exec \<Longrightarrow> GetPendingCount g < fuel \<Longrightarrow> int (m_dwMaxRunning g) - GetRunningCount g > 0 \<Longrightarrow>
    GetPendingCount g > 0 \<Longrightarrow> \<exists>r. rfc_loop fuel exec g = Some r"
proof (induction fuel arbitrary: g)
  case (Suc fuel)
  let ?n = "min (nat (int (m_dwMaxRunning g) - GetRunningCount g)) (GetPendingCount g)"
  have "0 < ?n" using Suc.prems(3,4) by simp
  then have "GetPendingCount (start_tasks ?n exec g) < fuel"
    using start_tasks_pending[OF Suc.prems(1), of ?n g] Suc.prems(2,4) by linarith
  then show ?case using Suc.IH[OF Suc.prems(1)] by (simp add: Let_def)
qed simp

lemma run_checks_cases:
  assumes "CHECK_GRP_STATE g" "\<not> m_bNoSched g" "m_setTasks g \<noteq> [] \<or> m_quePendingTasks g \<noteq> []"
  obtains (idle) g1 where "run_checks g = Inl (STATUS_PENDING, g1)" "m_quePendingTasks g = []"
      "m_quePendingTasks g1 = []" "m_setTasks g1 = m_setTasks g" "m_dwMaxRunning g1 = m_dwMaxRunning g"
  | (go) g1 where "run_checks g = Inr g1" "m_quePendingTasks g \<noteq> []" "m_quePendingTasks g1 = m_quePendingTasks g"
      "m_setTasks g1 = m_setTasks g" "m_dwMaxRunning g1 = m_dwMaxRunning g"
proof -
  let ?g1 = "if m_iTaskState g = stateStarting then g\<lparr>m_iTaskState := stateStarted, m_bRunning := True\<rparr> else g"
  have f: "m_quePendingTasks ?g1 = m_quePendingTasks g" "m_setTasks ?g1 = m_setTasks g"
    "m_dwMaxRunning ?g1 = m_dwMaxRunning g" by simp_all
  have "run_checks g = (if GetPendingCount g = 0 then Inl (STATUS_PENDING, ?g1) else Inr ?g1)"
    using assms by (auto simp: run_checks_def CHECK_GRP_STATE_def Let_def grp_counts)
  then show thesis using idle[of ?g1] go[of ?g1] f by (cases "GetPendingCount g = 0") (simp_all add: GetPendingCount_def)
qed

lemma run_end_fields [simp]:
  "m_quePendingTasks (snd (run_end r g)) = m_quePendingTasks g" "m_setTasks (snd (run_end r g)) = m_setTasks g"
  "m_dwMaxRunning (snd (run_end r g)) = m_dwMaxRunning g" "fst (run_end r g) = r"
  by (simp_all add: run_end_def)

lemma grp_ok_cong:
  "m_setTasks g' = m_setTasks g \<Longrightarrow> m_quePendingTasks g' = m_quePendingTasks g \<Longrightarrow> m_dwMaxRunning g' = m_dwMaxRunning g \<Longrightarrow>
    grp_ok g' = grp_ok g"
  by (simp add: grp_ok_def GetRunningCount_def)

section \<open>Properties\<close>

text \<open>C27. Running a group with limits is safe and work conserving: for an active group, whatever tasks complete, are
  cancelled or arrive while it runs, at most \<^verbatim>\<open>m_dwMaxRunning\<close> requests run afterwards, and a task is left waiting
  only when every slot is taken. Without arrivals the loop ends after at most one pass per waiting task.\<close>

theorem rfc_run_work_conserving:
  assumes "CHECK_GRP_STATE g" "\<not> m_bNoSched g" "m_setTasks g \<noteq> []" "grp_ok g" "orderly exec"
  shows "(no_arrivals exec \<longrightarrow> (\<exists>r. CIfParallelTaskGrpRfc_RunTaskInternal (Suc (GetPendingCount g)) exec g = Some r)) \<and>
    (\<forall>fuel ret g'. CIfParallelTaskGrpRfc_RunTaskInternal fuel exec g = Some (ret, g') \<longrightarrow>
      m_dwMaxRunning g' = m_dwMaxRunning g \<and> GetRunningCount g' \<le> int (m_dwMaxRunning g) \<and>
      (m_quePendingTasks g' = [] \<or> GetRunningCount g' = int (m_dwMaxRunning g)))"
  using assms(1,2) disjI1[OF assms(3)]
proof (cases rule: run_checks_cases)
  case (idle g1)
  then show ?thesis using assms(4) by (auto simp: CIfParallelTaskGrpRfc_RunTaskInternal_def grp_ok_def GetRunningCount_def)
next
  case (go g1)
  have g1: "grp_ok g1" "GetRunningCount g1 = GetRunningCount g" "GetPendingCount g1 = GetPendingCount g"
    using go(3-5) assms(4) grp_ok_cong[of g1 g] by (simp_all add: GetRunningCount_def GetPendingCount_def)
  show ?thesis
  proof (cases "int (m_dwMaxRunning g1) - GetRunningCount g1 \<le> 0")
    case True
    then show ?thesis using go g1 assms(4) by (auto simp: CIfParallelTaskGrpRfc_RunTaskInternal_def grp_ok_def)
  next
    case False
    have run: "CIfParallelTaskGrpRfc_RunTaskInternal fuel exec g = map_option (\<lambda>(ret, g2). run_end ret g2) (rfc_loop fuel exec g1)"
      for fuel using False go(1) by (simp add: CIfParallelTaskGrpRfc_RunTaskInternal_def)
    have "m_dwMaxRunning g' = m_dwMaxRunning g \<and> GetRunningCount g' \<le> int (m_dwMaxRunning g) \<and>
        (m_quePendingTasks g' = [] \<or> GetRunningCount g' = int (m_dwMaxRunning g))"
      if ret: "CIfParallelTaskGrpRfc_RunTaskInternal fuel exec g = Some (ret, g')" for fuel ret g'
    proof -
      obtain r g2 where l: "rfc_loop fuel exec g1 = Some (r, g2)" "(ret, g') = run_end r g2" using ret run by auto
      from l(2) have "g' = snd (run_end r g2)" by (metis snd_conv)
      then show ?thesis using rfc_loop_ok[OF l(1) assms(5) g1(1)] go(5) by (auto simp: GetRunningCount_def grp_ok_def)
    qed
    moreover have "\<exists>r. rfc_loop (Suc (GetPendingCount g)) exec g1 = Some r" if "no_arrivals exec"
      using rfc_loop_returns[OF that, of g1 "Suc (GetPendingCount g)"] False g1(3) go(2,3)
      by (simp add: GetPendingCount_def del: rfc_loop.simps)
    ultimately show ?thesis using run by fastforce
  qed
qed

definition sample_grp :: task_grp where
  "sample_grp = (CIfParallelTaskGrpRfc_init (Some 2) (Some 4) (Some 7))
    \<lparr>m_setTasks := [(0, False), (1, True)], m_quePendingTasks := [(2, True), (3, True)]\<rparr>"

theorem rfc_run_work_conserving_witness:
  "GetRunningCount (snd (the (CIfParallelTaskGrpRfc_RunTaskInternal 3 (\<lambda>ts g. g) sample_grp))) = 2"
proof -
  have ok: "CHECK_GRP_STATE sample_grp" "\<not> m_bNoSched sample_grp" "m_setTasks sample_grp \<noteq> []" "grp_ok sample_grp"
    "orderly (\<lambda>ts g. g)" "no_arrivals (\<lambda>ts g. g)" "GetPendingCount sample_grp = 2"
    by (simp_all add: sample_grp_def CIfParallelTaskGrpRfc_init_def CHECK_GRP_STATE_def IsStopped_def grp_ok_def grp_counts
      orderly_def no_arrivals_def)
  obtain ret g' where r: "CIfParallelTaskGrpRfc_RunTaskInternal 3 (\<lambda>ts g. g) sample_grp = Some (ret, g')"
    using rfc_run_work_conserving[OF ok(1-5)] ok(6,7) by (auto simp: numeral_3_eq_3)
  moreover have "m_quePendingTasks (snd (the (CIfParallelTaskGrpRfc_RunTaskInternal 3 (\<lambda>ts g. g) sample_grp))) = [(3, True)]"
    by code_simp
  ultimately have "m_quePendingTasks g' \<noteq> []" by simp
  then show ?thesis using rfc_run_work_conserving[OF ok(1-5)] r
    by (auto simp: sample_grp_def CIfParallelTaskGrpRfc_init_def)
qed

text \<open>Admission to a group with limits is exact: a task is accepted exactly when the group is active and fewer tasks
  wait and run than both limits together allow; then it is the last of the queue and the total is within the limits.
  A task that is refused changes nothing but the counters.\<close>

lemma rfc_append_admission:
  "CIfParallelTaskGrpRfc_AppendTask t g = (ret, g') \<Longrightarrow>
    (ret = 0 \<longleftrightarrow> CHECK_GRP_STATE g \<and> int (GetPendingCount g) + GetRunningCount g < int (m_dwMaxPending g) + int (m_dwMaxRunning g)) \<and>
    (ret = 0 \<longrightarrow> m_quePendingTasks g' = m_quePendingTasks g @ [t] \<and> m_setTasks g' = m_setTasks g \<and>
      int (GetPendingCount g') + GetRunningCount g' \<le> int (m_dwMaxPending g') + int (m_dwMaxRunning g')) \<and>
    (ret \<noteq> 0 \<longrightarrow> m_quePendingTasks g' = m_quePendingTasks g \<and> m_setTasks g' = m_setTasks g \<and>
      m_dwMaxRunning g' = m_dwMaxRunning g \<and> m_dwMaxPending g' = m_dwMaxPending g)"
  by (auto simp: CIfParallelTaskGrpRfc_AppendTask_def CIfParallelTaskGrp_AppendTask_def queue_full_def CHECK_GRP_STATE_def
    grp_counts Let_def split: if_splits)

end
