(* ===== verification/TaskSched.thy ===== *)
theory TaskSched
  imports ParGrp "HOL-Library.Multiset"
begin

text \<open>
  The round-robin scheduler of the request forwarder (\<^verbatim>\<open>CRRTaskScheduler\<close>, \<^verbatim>\<open>rpc/taskschd.cpp\<close>). Each connection
  has a number of slots that its task groups share; groups with slots are in the ready queue, the others wait.

  Interfaces and task groups are object ids. \<open>m_grps\<close> holds the groups that the \<^verbatim>\<open>TaskGrpPtr\<close>s of the queues refer to, so
  two queues with the same id share the group. Groups handed to \<^verbatim>\<open>RescheduleTask\<close> are appended to \<open>m_lstResched\<close>; the
  tasks that \<^verbatim>\<open>KillTasks\<close> cancels are part of the result. The statistics counters are left out. Counts are
  \<^verbatim>\<open>guint32\<close>, and the sums and differences that the source computes wrap at \<open>2^32\<close>.
\<close>

section \<open>Data\<close>

record connque =
  m_lstWaitSlot :: "nat list"
  m_plstReady :: "nat list"
  m_plstNextSched :: "nat list"
  m_dwMaxSlots :: nat

definition CONNQUE_ELEM_init :: connque where
  "CONNQUE_ELEM_init = \<lparr>m_lstWaitSlot = [], m_plstReady = [], m_plstNextSched = [],
    m_dwMaxSlots = RFC_MAX_PENDINGS + RFC_MAX_REQS\<rparr>"

definition GetTaskGrpCount :: "connque \<Rightarrow> nat" where
  "GetTaskGrpCount ocq = length (m_lstWaitSlot ocq) + length (m_plstReady ocq) + length (m_plstNextSched ocq)"

definition CONNQUE_EnumTaskGrps :: "connque \<Rightarrow> nat list" where
  "CONNQUE_EnumTaskGrps ocq = m_lstWaitSlot ocq @ m_plstReady ocq @ m_plstNextSched ocq"

type_synonym grp_store = "nat \<Rightarrow> task_grp"

record sched =
  m_grps :: grp_store
  m_mapConnQues :: "nat \<rightharpoonup> connque"
  m_lstConns :: "nat list"
  m_mapId2If :: "nat \<rightharpoonup> nat"
  m_ocqSchdMgr :: connque
  m_dwNumSched :: nat
  m_pSchedMgr :: nat
  m_lstResched :: "nat list"

section \<open>Sharing the slots of a connection\<close>

text \<open>\<^verbatim>\<open>pGrp->SetLimit( n, pGrp->GetMaxPending(), true )\<close>, on the group and through the pointer.\<close>

definition set_max :: "nat \<Rightarrow> task_grp \<Rightarrow> task_grp" where
  "set_max n g = snd (snd (SetLimit n (m_dwMaxPending g) True g))"

definition set_limit :: "nat \<Rightarrow> nat \<Rightarrow> grp_store \<Rightarrow> grp_store" where
  "set_limit n p G = G(p := set_max n (G p))"

definition SetLimitRunningGrps :: "nat \<Rightarrow> grp_store \<times> connque \<Rightarrow> grp_store \<times> connque" where
  "SetLimitRunningGrps dwNewLimit = (\<lambda>(G, ocq).
    (fold (\<lambda>p G. if m_dwMaxRunning (G p) = dwNewLimit then G else set_limit dwNewLimit p G) (m_plstReady ocq) G,
     if dwNewLimit = 0 \<and> m_plstReady ocq \<noteq> []
     then ocq\<lparr>m_lstWaitSlot := m_plstReady ocq @ m_lstWaitSlot ocq, m_plstReady := []\<rparr> else ocq))"

definition SetLimitGrps :: "nat \<Rightarrow> grp_store \<times> connque \<Rightarrow> grp_store \<times> connque" where
  "SetLimitGrps dwNewLimit st =
    (let (G, ocq) = SetLimitRunningGrps dwNewLimit st in
     if dwNewLimit = 0 then (G, ocq)
     else (fold (set_limit dwNewLimit) (m_lstWaitSlot ocq) G,
           ocq\<lparr>m_plstReady := m_plstReady ocq @ m_lstWaitSlot ocq, m_lstWaitSlot := []\<rparr>))"

definition IncRunningGrps :: "nat \<Rightarrow> grp_store \<times> connque \<Rightarrow> grp_store \<times> connque" where
  "IncRunningGrps dwCount = (\<lambda>(G, ocq).
    (fold (\<lambda>p G. set_limit (m_dwMaxRunning (G p) + 1) p G) (take dwCount (m_plstReady ocq)) G, ocq))"

definition SelTasksToKill_que :: "bool \<Rightarrow> grp_store \<times> connque \<Rightarrow> task list" where
  "SelTasksToKill_que bWaitQue = (\<lambda>(G, ocq).
    concat (map (\<lambda>p. SelTasksToKill (G p)) (m_plstReady ocq)) @
    (if bWaitQue then concat (map (\<lambda>p. SelTasksToKill (G p)) (m_lstWaitSlot ocq)) else []))"

text \<open>The first loop of \<^verbatim>\<open>IncWaitingGrp\<close> takes up to \<open>n\<close> waiting groups that have pending tasks.\<close>

fun take_pending :: "grp_store \<Rightarrow> nat \<Rightarrow> nat list \<Rightarrow> nat list \<times> nat list" where
  "take_pending G n [] = ([], [])"
| "take_pending G n (p # owq) =
    (if n = 0 then ([], p # owq)
     else if HasPendingTasks (G p) > 0
     then (let (sel, rest) = take_pending G (n - 1) owq in (p # sel, rest))
     else (let (sel, rest) = take_pending G n owq in (sel, p # rest)))"

definition IncWaitingGrp :: "nat \<Rightarrow> grp_store \<times> connque \<Rightarrow> grp_store \<times> connque" where
  "IncWaitingGrp dwCount = (\<lambda>(G, ocq).
    if dwCount = 0 then (G, ocq)
    else
      let dwNum = min dwCount (length (m_lstWaitSlot ocq));
          (lstReadyGrps, owq) = take_pending G dwNum (m_lstWaitSlot ocq);
          more = take (dwCount - length lstReadyGrps) owq in
      (fold (set_limit 1) (lstReadyGrps @ more) G,
       ocq\<lparr>m_plstReady := m_plstReady ocq @ lstReadyGrps @ more,
           m_lstWaitSlot := drop (dwCount - length lstReadyGrps) owq\<rparr>))"

definition u32_add :: "nat \<Rightarrow> nat \<Rightarrow> nat" where "u32_add a b = (a + b) mod 2 ^ 32"
definition u32_sub :: "nat \<Rightarrow> nat \<Rightarrow> nat" where "u32_sub a b = nat ((int a - int b) mod 2 ^ 32)"

definition IncSlotCount :: "nat \<Rightarrow> grp_store \<times> connque \<Rightarrow> grp_store \<times> connque" where
  "IncSlotCount dwCount st =
    (let dwNumGrps = GetTaskGrpCount (snd st) in
     if dwCount = 0 \<or> dwNumGrps = 0 then st
     else
       let dwNewCount = u32_add (m_dwMaxSlots (snd st)) dwCount;
           dwAvg = dwNewCount div dwNumGrps; dwModulo = dwNewCount - dwAvg * dwNumGrps in
       if m_lstWaitSlot (snd st) = [] then IncRunningGrps dwModulo (SetLimitRunningGrps dwAvg st)
       else if dwAvg = 0 then IncWaitingGrp dwCount st
       else IncRunningGrps dwModulo (SetLimitGrps dwAvg st))"

definition ResetSlotCountAlloc :: "nat \<Rightarrow> grp_store \<times> connque \<Rightarrow> task list \<times> (grp_store \<times> connque)" where
  "ResetSlotCountAlloc dwDelta st =
    (let dwNumGrps = GetTaskGrpCount (snd st) in
     if dwNumGrps = 0 then ([], st)
     else
       let dwNewCount = u32_sub (m_dwMaxSlots (snd st)) dwDelta;
           dwAvg = dwNewCount div dwNumGrps; dwModulo = dwNewCount - dwAvg * dwNumGrps in
       if dwAvg = 0 then let st1 = IncWaitingGrp dwModulo (SetLimitGrps 0 st) in (SelTasksToKill_que True st1, st1)
       else let st1 = IncRunningGrps dwModulo (SetLimitGrps dwAvg st) in (SelTasksToKill_que False st1, st1))"

definition ResetSlotCountRelease :: "nat \<Rightarrow> grp_store \<times> connque \<Rightarrow> grp_store \<times> connque" where
  "ResetSlotCountRelease dwDelta st =
    (let dwNumGrps = GetTaskGrpCount (snd st) in
     if dwNumGrps = 0 then st
     else
       let dwNewCount = u32_add (m_dwMaxSlots (snd st)) dwDelta;
           dwAvg = dwNewCount div dwNumGrps; dwModulo = dwNewCount - dwAvg * dwNumGrps in
       if dwAvg = 0 then
         if dwModulo > length (m_plstReady (snd st)) then IncWaitingGrp (dwModulo - length (m_plstReady (snd st))) st
         else st
       else IncRunningGrps dwModulo (SetLimitGrps dwAvg st))"

definition DecSlotCount :: "nat \<Rightarrow> grp_store \<times> connque \<Rightarrow> task list \<times> (grp_store \<times> connque)" where
  "DecSlotCount dwCount st = (if dwCount = 0 then ([], st) else ResetSlotCountAlloc dwCount st)"

definition put_que :: "nat \<Rightarrow> grp_store \<times> connque \<Rightarrow> sched \<Rightarrow> sched" where
  "put_que pIf st s = s\<lparr>m_grps := fst st, m_mapConnQues := (m_mapConnQues s)(pIf \<mapsto> snd st)\<rparr>"

definition SetSlotCount :: "nat option \<Rightarrow> nat \<Rightarrow> sched \<Rightarrow> gint32 \<times> task list \<times> sched" where
  "SetSlotCount pIf dwNumSlot s =
    (case pIf of None \<Rightarrow> (- EINVAL, [], s) | Some i \<Rightarrow>
     (case m_mapConnQues s i of None \<Rightarrow> (- ENOENT, [], s) | Some ocq \<Rightarrow>
       if m_dwMaxSlots ocq = dwNumSlot then (0, [], s)
       else if m_dwMaxSlots ocq > dwNumSlot then
         let (G, ocq1) = IncSlotCount (m_dwMaxSlots ocq - dwNumSlot) (m_grps s, ocq) in
         (0, [], put_que i (G, ocq1\<lparr>m_dwMaxSlots := dwNumSlot\<rparr>) s)
       else
         let (vecTasks, G, ocq1) = DecSlotCount (dwNumSlot - m_dwMaxSlots ocq) (m_grps s, ocq) in
         (0, vecTasks, put_que i (G, ocq1\<lparr>m_dwMaxSlots := dwNumSlot\<rparr>) s)))"

section \<open>Choosing the next group\<close>

text \<open>\<^verbatim>\<open>GetNextTaskGrpAAR\<close>: the inner loop rotates the ready queue of a connection until it meets a group that can run;
  the outer one rotates the connections.\<close>

fun aar_inner :: "grp_store \<Rightarrow> nat \<Rightarrow> nat list \<Rightarrow> nat option \<times> nat list" where
  "aar_inner G (Suc j) (p # orq) =
    (if \<not> HasFreeSlot (G p) then aar_inner G j (orq @ [p])
     else if \<not> HasTaskToRun (G p) then aar_inner G j (orq @ [p])
     else (Some p, orq @ [p]))"
| "aar_inner G j orq = (None, orq)"

fun aar_outer :: "nat \<Rightarrow> sched \<Rightarrow> nat option \<times> sched" where
  "aar_outer 0 s = (None, s)"
| "aar_outer (Suc i) s =
    (let pIf = hd (m_lstConns s); s1 = s\<lparr>m_lstConns := rotate1 (m_lstConns s)\<rparr> in
     if pIf = m_pSchedMgr s1 then aar_outer i s1
     else case m_mapConnQues s1 pIf of
       None \<Rightarrow> aar_outer i s1
     | Some ocq \<Rightarrow>
         (case aar_inner (m_grps s1) (length (m_plstReady ocq)) (m_plstReady ocq) of
            (Some p, orq) \<Rightarrow> (Some p, s1\<lparr>m_mapConnQues := (m_mapConnQues s1)(pIf \<mapsto> ocq\<lparr>m_plstReady := orq\<rparr>)\<rparr>)
          | (None, orq) \<Rightarrow> aar_outer i (s1\<lparr>m_mapConnQues := (m_mapConnQues s1)(pIf \<mapsto> ocq\<lparr>m_plstReady := orq\<rparr>)\<rparr>)))"

definition GetNextTaskGrpAAR :: "sched \<Rightarrow> gint32 \<times> nat option \<times> sched" where
  "GetNextTaskGrpAAR s =
    (let (r, s1) = aar_outer (length (m_lstConns s)) s in (if r = None then - ENOENT else 0, r, s1))"

text \<open>\<^verbatim>\<open>GetNextTaskGrpsRMG\<close> rotates the ready queue once around, so that it ends as it was.\<close>

definition GetNextTaskGrpsRMG :: "nat \<Rightarrow> sched \<Rightarrow> nat list" where
  "GetNextTaskGrpsRMG pIf s =
    (if pIf = m_pSchedMgr s then []
     else case m_mapConnQues s pIf of None \<Rightarrow> []
     | Some ocq \<Rightarrow> filter (\<lambda>p. HasFreeSlot (m_grps s p) \<and> HasTaskToRun (m_grps s p)) (m_plstReady ocq))"

text \<open>\<^verbatim>\<open>GetNextTaskGrpOCC\<close>: a ready group with a free slot gives it to a waiting group that has pending tasks.\<close>

fun wait_search :: "grp_store \<Rightarrow> nat \<Rightarrow> nat list \<Rightarrow> nat option \<times> nat list" where
  "wait_search G (Suc k) (w # owq) = (if HasPendingTasks (G w) > 0 then (Some w, owq) else wait_search G k (owq @ [w]))"
| "wait_search G k owq = (None, owq)"

fun occ_inner :: "nat \<Rightarrow> grp_store \<Rightarrow> nat list \<Rightarrow> nat list \<Rightarrow> nat option \<times> grp_store \<times> nat list \<times> nat list" where
  "occ_inner (Suc j) G (p # orq) owq =
    (if owq = [] then
       if \<not> HasFreeSlot (G p) then occ_inner j G (orq @ [p]) owq
       else if \<not> HasTaskToRun (G p) then occ_inner j G (orq @ [p]) owq
       else (Some p, G, orq @ [p], owq)
     else if \<not> HasFreeSlot (G p) then occ_inner j G (orq @ [p]) owq
     else case wait_search G (length owq) owq of
       (Some w, owq1) \<Rightarrow> (Some w, set_limit 1 w (set_limit 0 p G), orq @ [w], owq1 @ [p])
     | (None, owq1) \<Rightarrow>
         if \<not> HasTaskToRun (G p) then occ_inner j G (orq @ [p]) owq1 else (Some p, G, orq @ [p], owq1))"
| "occ_inner j G orq owq = (None, G, orq, owq)"

fun occ_outer :: "nat \<Rightarrow> sched \<Rightarrow> nat option \<times> sched" where
  "occ_outer 0 s = (None, s)"
| "occ_outer (Suc i) s =
    (let pIf = hd (m_lstConns s); s1 = s\<lparr>m_lstConns := rotate1 (m_lstConns s)\<rparr> in
     if pIf = m_pSchedMgr s1 then occ_outer i s1
     else case m_mapConnQues s1 pIf of
       None \<Rightarrow> occ_outer i s1
     | Some ocq \<Rightarrow>
         (case occ_inner (length (m_plstReady ocq)) (m_grps s1) (m_plstReady ocq) (m_lstWaitSlot ocq) of
            (r, G, orq, owq) \<Rightarrow>
              let s2 = put_que pIf (G, ocq\<lparr>m_plstReady := orq, m_lstWaitSlot := owq\<rparr>) s1 in
              if r = None then occ_outer i s2 else (r, s2)))"

text \<open>With 32 connections or more, every 32nd call also reschedules the group of the manager itself.\<close>

definition occ_start :: "sched \<Rightarrow> sched run" where
  "occ_start s =
    (let bMgr = length (m_lstConns s) \<ge> 32 \<and> m_dwNumSched s mod 32 = 0; orq = m_plstReady (m_ocqSchdMgr s) in
     if bMgr \<and> orq = [] then Inl Fault_Empty
     else
       let s1 = (if bMgr \<and> GetPendingCount (m_grps s (hd orq)) > 0
             then s\<lparr>m_lstResched := m_lstResched s @ [hd orq]\<rparr> else s) in
       Inr (s1\<lparr>m_dwNumSched := u32_add (m_dwNumSched s1) 1\<rparr>))"

definition GetNextTaskGrpOCC :: "sched \<Rightarrow> (gint32 \<times> nat option \<times> sched) run" where
  "GetNextTaskGrpOCC s =
    (case occ_start s of Inl f \<Rightarrow> Inl f
     | Inr s2 \<Rightarrow>
         let (r, s3) = occ_outer (length (m_lstConns s2)) s2 in
         Inr (if r = None then - ENOENT else 0, r, s3))"

definition GetNextTaskGrp :: "nat \<Rightarrow> sched \<Rightarrow> (gint32 \<times> nat option \<times> sched) run" where
  "GetNextTaskGrp dwHint s =
    (if dwHint = 0 then Inr (GetNextTaskGrpAAR s)
     else if dwHint = 1 then GetNextTaskGrpOCC s
     else Inr (- ENOTSUP, None, s))"

text \<open>\<^verbatim>\<open>RunNextTaskGrp\<close> returns the group it runs at once, \<^verbatim>\<open>SchedNextTaskGrp\<close> hands it to the I/O manager.\<close>

definition RunNextTaskGrp :: "nat \<Rightarrow> sched \<Rightarrow> (gint32 \<times> nat option \<times> sched) run" where
  "RunNextTaskGrp dwHint s =
    (case GetNextTaskGrp dwHint s of Inl f \<Rightarrow> Inl f
     | Inr (ret, r, s1) \<Rightarrow> if ERROR ret then Inr (0, None, s1) else Inr (ret, r, s1))"

definition SchedNextTaskGrp :: "nat \<Rightarrow> sched \<Rightarrow> (gint32 \<times> sched) run" where
  "SchedNextTaskGrp dwHint s =
    (case GetNextTaskGrp dwHint s of Inl f \<Rightarrow> Inl f
     | Inr (ret, r, s1) \<Rightarrow>
         if ERROR ret then Inr (0, s1)
         else Inr (0, s1\<lparr>m_lstResched := m_lstResched s1 @ (case r of None \<Rightarrow> [] | Some p \<Rightarrow> [p])\<rparr>))"

section \<open>Connections and groups\<close>

text \<open>What the scheduler asks of interface objects: the \<^verbatim>\<open>propPortId\<close> property, and the task group of a bridge proxy whose
  limits give the slots of the connection.\<close>

record sched_env =
  e_portid :: "nat \<Rightarrow> gint32 + nat"
  e_grprfc :: "nat \<Rightarrow> gint32 + nat"

definition AddConn :: "sched_env \<Rightarrow> nat \<Rightarrow> sched \<Rightarrow> gint32 \<times> task list \<times> sched" where
  "AddConn env pIf s =
    (case e_portid env pIf of Inl e \<Rightarrow> (e, [], s) | Inr dwPortId \<Rightarrow>
     (case e_grprfc env pIf of Inl e \<Rightarrow> (e, [], s) | Inr pGrp \<Rightarrow>
      (case GetLimit (m_grps s pGrp) of Inl e \<Rightarrow> (e, [], s) | Inr (dwMaxRunning, dwMaxPending) \<Rightarrow>
        if m_mapId2If s dwPortId \<noteq> None then (- EEXIST, [], s)
        else
          let s1 = s\<lparr>m_lstConns := m_lstConns s @ [pIf],
                     m_mapConnQues := (case m_mapConnQues s pIf of
                         None \<Rightarrow> (m_mapConnQues s)(pIf \<mapsto> CONNQUE_ELEM_init) | Some _ \<Rightarrow> m_mapConnQues s),
                     m_mapId2If := (m_mapId2If s)(dwPortId \<mapsto> pIf)\<rparr> in
          SetSlotCount (Some pIf) (u32_add dwMaxRunning dwMaxPending) s1)))"

text \<open>\<^verbatim>\<open>RemoveConn\<close> assigns its error code to an inner \<^verbatim>\<open>ret\<close> and always returns 0.\<close>

definition RemoveConn :: "sched_env \<Rightarrow> nat \<Rightarrow> sched \<Rightarrow> gint32 \<times> sched" where
  "RemoveConn env pIf s =
    (let dwPortId = (case e_portid env pIf of Inl e \<Rightarrow> 4294967295 | Inr p \<Rightarrow> p) in
     if pIf \<notin> set (m_lstConns s) then (0, s)
     else
       let s1 = s\<lparr>m_lstConns := remove1 pIf (m_lstConns s)\<rparr> in
       case m_mapConnQues s1 pIf of
         None \<Rightarrow> (0, s1)
       | Some _ \<Rightarrow> (0, s1\<lparr>m_mapConnQues := (m_mapConnQues s1)(pIf := None),
           m_mapId2If := (m_mapId2If s1)(dwPortId := None)\<rparr>))"

definition AddTaskGrp_que :: "nat \<Rightarrow> grp_store \<times> connque \<Rightarrow> task list \<times> (grp_store \<times> connque)" where
  "AddTaskGrp_que pGrp = (\<lambda>(G, ocq).
    if m_lstWaitSlot ocq \<noteq> [] then ([], G, ocq\<lparr>m_lstWaitSlot := m_lstWaitSlot ocq @ [pGrp]\<rparr>)
    else
      let dwCount = m_dwMaxSlots ocq; dwNumGrps = GetTaskGrpCount ocq + 1;
          dwAvg = dwCount div dwNumGrps; dwModulo = dwCount - dwAvg * dwNumGrps in
      if dwAvg = 0 then ([], G, ocq\<lparr>m_lstWaitSlot := m_lstWaitSlot ocq @ [pGrp]\<rparr>)
      else
        let st = IncRunningGrps dwModulo (SetLimitRunningGrps dwAvg (G, ocq\<lparr>m_plstReady := m_plstReady ocq @ [pGrp]\<rparr>)) in
        (SelTasksToKill_que False st, st))"

text \<open>A connection that is not known is added first, and the loop of \<^verbatim>\<open>AddTaskGrp\<close> then finds it.\<close>

definition AddTaskGrp :: "sched_env \<Rightarrow> nat \<Rightarrow> nat \<Rightarrow> sched \<Rightarrow> gint32 \<times> task list \<times> sched" where
  "AddTaskGrp env pIf pGrp s =
    (if pIf = m_pSchedMgr s then (0, [], s)
     else
       let (ret, kills, s1) = (if m_mapConnQues s pIf = None then AddConn env pIf s else (0, [], s)) in
       if ERROR ret then (ret, kills, s1)
       else case m_mapConnQues s1 pIf of
         None \<Rightarrow> (ret, kills, s1)
       | Some ocq \<Rightarrow> let (vecTasks, st) = AddTaskGrp_que pGrp (m_grps s1, ocq) in (ret, kills @ vecTasks, put_que pIf st s1))"

text \<open>\<^verbatim>\<open>RemoveTaskGrp\<close> for a group that was in the ready queue: its slots go to a waiting group, or are shared
  anew.\<close>

definition release_slots :: "grp_store \<times> connque \<Rightarrow> grp_store \<times> connque" where
  "release_slots st =
    (let dwCount = m_dwMaxSlots (snd st); dwNumGrps = GetTaskGrpCount (snd st) in
     if dwNumGrps = 0 then st
     else
       let dwAvg = dwCount div dwNumGrps; dwModulo = dwCount - dwAvg * dwNumGrps in
       if dwAvg = 0 then if m_lstWaitSlot (snd st) = [] then st else IncWaitingGrp 1 st
       else IncRunningGrps dwModulo (SetLimitRunningGrps dwAvg st))"

text \<open>Whether the function goes on to reschedule groups after the slots were released.\<close>

definition release_resched :: "connque \<Rightarrow> bool" where
  "release_resched ocq \<longleftrightarrow> GetTaskGrpCount ocq \<noteq> 0 \<and>
    (m_dwMaxSlots ocq div GetTaskGrpCount ocq \<noteq> 0 \<or> m_lstWaitSlot ocq \<noteq> [])"

definition RemoveTaskGrp :: "nat \<Rightarrow> sched \<Rightarrow> gint32 \<times> sched" where
  "RemoveTaskGrp pGrp s =
    (case m_dwPrxyPortId (m_grps s pGrp) of None \<Rightarrow> (0, s) | Some dwPortId \<Rightarrow>
     (case m_mapId2If s dwPortId of None \<Rightarrow> (0, s) | Some pIf \<Rightarrow>
       let ocq = (case m_mapConnQues s pIf of None \<Rightarrow> CONNQUE_ELEM_init | Some q \<Rightarrow> q) in
       if pGrp \<in> set (m_lstWaitSlot ocq)
       then (0, put_que pIf (m_grps s, ocq\<lparr>m_lstWaitSlot := remove1 pGrp (m_lstWaitSlot ocq)\<rparr>) s)
       else if pGrp \<notin> set (m_plstReady ocq) then (0, put_que pIf (m_grps s, ocq) s)
       else
         let ocq1 = ocq\<lparr>m_plstReady := remove1 pGrp (m_plstReady ocq)\<rparr>;
             s1 = put_que pIf (release_slots (m_grps s, ocq1)) s in
         if release_resched ocq1 then (0, s1\<lparr>m_lstResched := m_lstResched s1 @ GetNextTaskGrpsRMG pIf s1\<rparr>)
         else (0, s1)))"

definition RemoveTaskGrps_port :: "sched_env \<Rightarrow> nat \<Rightarrow> sched \<Rightarrow> gint32 \<times> sched" where
  "RemoveTaskGrps_port env dwPortId s =
    (case m_mapId2If s dwPortId of None \<Rightarrow> (- ENOENT, s) | Some pIf \<Rightarrow> (0, snd (RemoveConn env pIf s)))"

text \<open>The loop that takes the groups out of their queues and collects the connections that got slots back, and the one
  that shares these slots.\<close>

definition erase_grp :: "nat \<Rightarrow> sched \<times> nat list \<Rightarrow> sched \<times> nat list" where
  "erase_grp pGrp = (\<lambda>(s, setIfs).
    case m_dwPrxyPortId (m_grps s pGrp) of None \<Rightarrow> (s, setIfs) | Some dwPortId \<Rightarrow>
     (case m_mapId2If s dwPortId of None \<Rightarrow> (s, setIfs) | Some pIf \<Rightarrow>
       let ocq = (case m_mapConnQues s pIf of None \<Rightarrow> CONNQUE_ELEM_init | Some q \<Rightarrow> q) in
       if pGrp \<in> set (m_lstWaitSlot ocq)
       then (put_que pIf (m_grps s, ocq\<lparr>m_lstWaitSlot := remove1 pGrp (m_lstWaitSlot ocq)\<rparr>) s, setIfs)
       else if pGrp \<notin> set (m_plstReady ocq) then (put_que pIf (m_grps s, ocq) s, setIfs)
       else (put_que pIf (m_grps s, ocq\<lparr>m_plstReady := remove1 pGrp (m_plstReady ocq)\<rparr>) s,
             if pIf \<in> set setIfs then setIfs else insort pIf setIfs)))"

definition reshare_conn :: "nat \<Rightarrow> sched \<Rightarrow> sched" where
  "reshare_conn pIf s =
    (case m_mapConnQues s pIf of None \<Rightarrow> s
     | Some ocq \<Rightarrow>
         if m_dwMaxSlots ocq = 0 then s
         else let s1 = put_que pIf (ResetSlotCountRelease 0 (m_grps s, ocq)) s in
           s1\<lparr>m_lstResched := m_lstResched s1 @ GetNextTaskGrpsRMG pIf s1\<rparr>)"

definition RemoveTaskGrps :: "nat list \<Rightarrow> sched \<Rightarrow> gint32 \<times> sched" where
  "RemoveTaskGrps vecGrps s =
    (let (s1, setIfs) = fold erase_grp vecGrps (s, []) in (0, fold reshare_conn setIfs s1))"

definition EnumTaskGrps :: "nat option \<Rightarrow> sched \<Rightarrow> nat list" where
  "EnumTaskGrps pIf s =
    (case pIf of None \<Rightarrow> [] | Some i \<Rightarrow>
     (case m_mapConnQues s i of None \<Rightarrow> [] | Some ocq \<Rightarrow> CONNQUE_EnumTaskGrps ocq))"

definition EnumIfs :: "sched \<Rightarrow> nat list" where
  "EnumIfs s = filter (\<lambda>i. i \<noteq> m_pSchedMgr s) (m_lstConns s)"

definition sched_Start :: "gint32 + nat \<Rightarrow> sched \<Rightarrow> gint32 \<times> sched" where
  "sched_Start pGrp s =
    (case pGrp of Inl e \<Rightarrow> (e, s)
     | Inr p \<Rightarrow> (0, s\<lparr>m_ocqSchdMgr := (m_ocqSchdMgr s)\<lparr>m_dwMaxSlots := 1000, m_plstReady := m_plstReady (m_ocqSchdMgr s) @ [p]\<rparr>,
         m_lstConns := m_lstConns s @ [m_pSchedMgr s]\<rparr>))"

definition sched_Stop :: "sched_env \<Rightarrow> sched \<Rightarrow> gint32 \<times> sched" where
  "sched_Stop env s = RemoveConn env (m_pSchedMgr s) s"

section \<open>Limits\<close>

text \<open>What the scheduler relies on of the limit of a group: an active group takes over a new limit up to a cap, and stays
  active.\<close>

locale limited =
  fixes limit :: "'g \<Rightarrow> nat" and setl :: "nat \<Rightarrow> 'g \<Rightarrow> 'g" and act :: "'g \<Rightarrow> bool" and cap :: nat
  assumes limit_setl: "act g \<Longrightarrow> limit (setl n g) = min n cap"
    and act_setl: "act (setl n g) = act g"
    and cap_pos: "1 \<le> cap"
begin

lemma fold_other:
  assumes "q \<notin> set ps"
  shows "fold (\<lambda>p G. if c p G then G else G(p := setl (f p G) (G p))) ps G q = G q"
  using assms by (induction ps arbitrary: G) auto

lemma fold_act: "act (fold (\<lambda>p G. if c p G then G else G(p := setl (f p G) (G p))) ps G q) = act (G q)"
  by (induction ps arbitrary: G) (auto simp: act_setl)

lemma fold_same:
  assumes "distinct ps" "\<forall>p\<in>set ps. act (G p)" "q \<in> set ps"
  shows "limit (fold (\<lambda>p G. if limit (G p) = n then G else G(p := setl n (G p))) ps G q) \<in> {n, min n cap}"
  using assms
proof (induction ps arbitrary: G)
  case (Cons p ps)
  let ?G = "if limit (G p) = n then G else G(p := setl n (G p))"
  show ?case
  proof (cases "q = p")
    case True
    then have "fold (\<lambda>p G. if limit (G p) = n then G else G(p := setl n (G p))) (p # ps) G q = ?G q"
      using Cons.prems(1) fold_other[of q ps "\<lambda>p G. limit (G p) = n" "\<lambda>p G. n" ?G] by simp
    then show ?thesis using True Cons.prems(2) by (auto simp: limit_setl)
  next
    case False
    have "\<forall>p\<in>set ps. act (?G p)" using Cons.prems(2) by (auto simp: act_setl)
    then show ?thesis using Cons.IH[of ?G] Cons.prems False by simp
  qed
qed simp

lemma fold_all:
  assumes "distinct ps" "\<forall>p\<in>set ps. act (G p)" "q \<in> set ps"
  shows "limit (fold (\<lambda>p G. G(p := setl n (G p))) ps G q) = min n cap"
  using assms
proof (induction ps arbitrary: G)
  case (Cons p ps)
  let ?G = "G(p := setl n (G p))"
  have a: "\<forall>p\<in>set ps. act (?G p)" using Cons.prems(2) by (auto simp: act_setl)
  show ?case
  proof (cases "q = p")
    case True
    then have e: "fold (\<lambda>p G. G(p := setl n (G p))) (p # ps) G q = ?G q"
      using Cons.prems(1) fold_other[of q ps "\<lambda>p G. False" "\<lambda>p G. n" ?G] by simp
    show ?thesis unfolding e using True Cons.prems(2) by (simp add: limit_setl)
  next
    case False
    then show ?thesis using Cons.IH[OF _ a] Cons.prems by simp
  qed
qed simp

lemma fold_incr:
  assumes "distinct ps" "\<forall>p\<in>set ps. act (G p)" "q \<in> set ps"
  shows "limit (fold (\<lambda>p G. G(p := setl (limit (G p) + 1) (G p))) ps G q) = min (limit (G q) + 1) cap"
  using assms
proof (induction ps arbitrary: G)
  case (Cons p ps)
  let ?G = "G(p := setl (limit (G p) + 1) (G p))"
  have a: "\<forall>p\<in>set ps. act (?G p)" using Cons.prems(2) by (auto simp: act_setl)
  show ?case
  proof (cases "q = p")
    case True
    then have e: "fold (\<lambda>p G. G(p := setl (limit (G p) + 1) (G p))) (p # ps) G q = ?G q"
      using Cons.prems(1) fold_other[of q ps "\<lambda>p G. False" "\<lambda>p G. limit (G p) + 1" ?G] by simp
    show ?thesis unfolding e using True Cons.prems(2) by (simp add: limit_setl)
  next
    case False
    then show ?thesis using Cons.IH[OF _ a] Cons.prems by simp
  qed
qed simp

text \<open>An equal share for all and one more for the first \<open>m\<close>.\<close>

lemma share_sum:
  fixes m :: nat
  assumes "distinct ps" "\<forall>p\<in>set ps. act (G p) \<and> 1 \<le> limit (G p) \<and> limit (G p) \<le> n"
  defines "G' \<equiv> fold (\<lambda>p G. G(p := setl (limit (G p) + 1) (G p))) (take m ps) G"
  shows "sum_list (map (\<lambda>p. limit (G' p)) ps) \<le> n * length ps + m"
    and "\<forall>p\<in>set ps. act (G' p) \<and> 1 \<le> limit (G' p)"
proof -
  have tk: "distinct (take m ps)" "\<forall>p\<in>set (take m ps). act (G p)"
    using assms(1,2) set_take_subset[of m ps] by auto
  have in_take: "limit (G' p) = min (limit (G p) + 1) cap" if "p \<in> set (take m ps)" for p
    unfolding G'_def using fold_incr[OF tk that] by simp
  have off: "G' p = G p" if "p \<notin> set (take m ps)" for p
    unfolding G'_def using fold_other[OF that, of "\<lambda>p G. False" "\<lambda>p G. limit (G p) + 1" G] by simp
  have dis: "set (take m ps) \<inter> set (drop m ps) = {}"
    using assms(1) set_take_disj_set_drop_if_distinct[of ps m m] by simp
  have b: "limit (G' p) \<le> n + 1" if "p \<in> set (take m ps)" for p
    using in_take[OF that] assms(2) set_take_subset[of m ps] that by fastforce
  have c: "limit (G' p) \<le> n" if "p \<in> set (drop m ps)" for p
    using off[of p] that dis assms(2) set_drop_subset[of m ps] by fastforce
  have "sum_list (map (\<lambda>p. limit (G' p)) ps) =
      sum_list (map (\<lambda>p. limit (G' p)) (take m ps)) + sum_list (map (\<lambda>p. limit (G' p)) (drop m ps))"
    by (metis append_take_drop_id map_append sum_list_append)
  also have "\<dots> \<le> length (take m ps) * (n + 1) + length (drop m ps) * n"
    using sum_list_mono[of "take m ps" "\<lambda>p. limit (G' p)" "\<lambda>p. n + 1"]
      sum_list_mono[of "drop m ps" "\<lambda>p. limit (G' p)" "\<lambda>p. n"] b c
    by (simp add: sum_list_triv add_mono)
  also have "\<dots> \<le> n * length ps + m" by (cases "m \<le> length ps") (simp_all add: algebra_simps)
  finally show "sum_list (map (\<lambda>p. limit (G' p)) ps) \<le> n * length ps + m" .
  show "\<forall>p\<in>set ps. act (G' p) \<and> 1 \<le> limit (G' p)"
  proof
    fix p assume p: "p \<in> set ps"
    have "act (G' p)" unfolding G'_def
      using fold_act[of "\<lambda>p G. False" "\<lambda>p G. limit (G p) + 1" "take m ps" G p] assms(2) p by simp
    moreover have "1 \<le> limit (G' p)"
      using in_take[of p] off[of p] assms(2) p cap_pos by (cases "p \<in> set (take m ps)") auto
    ultimately show "act (G' p) \<and> 1 \<le> limit (G' p)" by simp
  qed
qed

end

definition active :: "task_grp \<Rightarrow> bool" where
  "active g \<longleftrightarrow> CHECK_GRP_STATE g \<and> m_dwMaxPending g \<noteq> 0"

lemma set_max_fields [simp]:
  "m_setTasks (set_max n g) = m_setTasks g" "m_quePendingTasks (set_max n g) = m_quePendingTasks g"
  "m_bNoSched (set_max n g) = m_bNoSched g" "m_dwPrxyPortId (set_max n g) = m_dwPrxyPortId g"
  by (simp_all add: set_max_def SetLimit_def Let_def)

interpretation grp: limited m_dwMaxRunning set_max active RFC_MAX_REQS
proof unfold_locales
  fix g n
  show "m_dwMaxRunning (set_max n g) = min n RFC_MAX_REQS" if "active g"
    using that by (simp add: set_max_def SetLimit_def active_def Let_def)
  show "active (set_max n g) = active g"
    by (auto simp: set_max_def SetLimit_def active_def Let_def CHECK_GRP_STATE_def)
qed simp

section \<open>The groups of a queue\<close>

definition members :: "connque \<Rightarrow> nat multiset" where
  "members ocq = mset (m_lstWaitSlot ocq) + mset (m_plstReady ocq)"

text \<open>Sharing slots moves groups between the queues and keeps everything else of the connection.\<close>

definition same_groups :: "connque \<Rightarrow> connque \<Rightarrow> bool" where
  "same_groups q q' \<longleftrightarrow> members q' = members q \<and> m_dwMaxSlots q' = m_dwMaxSlots q \<and>
    m_plstNextSched q' = m_plstNextSched q"

lemma same_groups_refl [simp]: "same_groups q q"
  by (simp add: same_groups_def)

lemma same_groups_trans: "same_groups q q' \<Longrightarrow> same_groups q' q'' \<Longrightarrow> same_groups q q''"
  by (simp add: same_groups_def)

lemma SetLimitRunningGrps_groups: "same_groups (snd st) (snd (SetLimitRunningGrps n st))"
  by (cases st) (simp add: SetLimitRunningGrps_def same_groups_def members_def)

lemma SetLimitGrps_groups: "same_groups (snd st) (snd (SetLimitGrps n st))"
proof -
  obtain G q where e: "SetLimitRunningGrps n st = (G, q)" by fastforce
  have "same_groups (snd st) q" using SetLimitRunningGrps_groups[of st n] by (simp add: e)
  then show ?thesis by (auto simp: SetLimitGrps_def e same_groups_def members_def add.commute)
qed

lemma IncRunningGrps_groups: "snd (IncRunningGrps n st) = snd st"
  by (cases st) (simp add: IncRunningGrps_def)

lemma take_pending_mset:
  "take_pending G n ws = (sel, rest) \<Longrightarrow> mset sel + mset rest = mset ws \<and> length sel \<le> n"
proof (induction G n ws arbitrary: sel rest rule: take_pending.induct)
  case (2 G n p owq)
  show ?case
  proof (cases "n = 0")
    case False
    show ?thesis
    proof (cases "HasPendingTasks (G p) > 0")
      case True
      obtain s r where e: "take_pending G (n - 1) owq = (s, r)" by fastforce
      then show ?thesis using 2(1)[OF False True e] 2(3) False True by auto
    next
      case np: False
      obtain s r where e: "take_pending G n owq = (s, r)" by fastforce
      then show ?thesis using 2(2)[OF False np e] 2(3) False np by auto
    qed
  qed (use 2 in auto)
qed simp

lemma IncWaitingGrp_groups: "same_groups (snd st) (snd (IncWaitingGrp n st))"
proof -
  obtain G q where st: "st = (G, q)" by fastforce
  obtain sel rest where e: "take_pending G (min n (length (m_lstWaitSlot q))) (m_lstWaitSlot q) = (sel, rest)" by fastforce
  let ?k = "n - length sel"
  have "mset rest = mset (take ?k rest) + mset (drop ?k rest)" by (metis append_take_drop_id mset_append)
  then have "mset (m_lstWaitSlot q) = mset sel + mset (take ?k rest) + mset (drop ?k rest)"
    using take_pending_mset[OF e] by (simp add: add.assoc)
  then show ?thesis by (simp add: st IncWaitingGrp_def e Let_def same_groups_def members_def ac_simps)
qed

lemmas share_groups = SetLimitRunningGrps_groups SetLimitGrps_groups IncWaitingGrp_groups

lemma IncSlotCount_groups: "same_groups (snd st) (snd (IncSlotCount n st))"
  by (simp add: IncSlotCount_def Let_def IncRunningGrps_groups share_groups)

lemma ResetSlotCountAlloc_groups: "same_groups (snd st) (snd (snd (ResetSlotCountAlloc n st)))"
  using same_groups_trans[OF SetLimitGrps_groups[of st 0] IncWaitingGrp_groups]
  by (simp add: ResetSlotCountAlloc_def Let_def IncRunningGrps_groups share_groups)

lemma ResetSlotCountRelease_groups: "same_groups (snd st) (snd (ResetSlotCountRelease n st))"
  by (simp add: ResetSlotCountRelease_def Let_def IncRunningGrps_groups share_groups)

lemma DecSlotCount_groups: "same_groups (snd st) (snd (snd (DecSlotCount n st)))"
  by (simp add: DecSlotCount_def ResetSlotCountAlloc_groups)

lemma release_slots_groups: "same_groups (snd st) (snd (release_slots st))"
  by (simp add: release_slots_def Let_def IncRunningGrps_groups share_groups)

text \<open>The rotations of the queues.\<close>

lemma aar_inner_mset: "aar_inner G j orq = (r, orq') \<Longrightarrow> mset orq' = mset orq"
  by (induction G j orq arbitrary: r orq' rule: aar_inner.induct) (fastforce split: if_splits)+

lemma wait_search_mset:
  "wait_search G k owq = (r, owq') \<Longrightarrow> mset owq = mset owq' + (case r of None \<Rightarrow> {#} | Some w \<Rightarrow> {#w#}) \<and>
    (r = None \<longrightarrow> (\<forall>w\<in>set (take k owq). HasPendingTasks (G w) = 0)) \<and> (\<forall>w. r = Some w \<longrightarrow> HasPendingTasks (G w) > 0)"
proof (induction G k owq arbitrary: r owq' rule: wait_search.induct)
  case (1 G k w owq)
  show ?case
  proof (cases "HasPendingTasks (G w) > 0")
    case False
    then have "wait_search G k (owq @ [w]) = (r, owq')" using 1(2) by simp
    moreover have "set (take k owq) \<subseteq> set (take k (owq @ [w]))" by auto
    ultimately show ?thesis using 1(1)[OF False] False by fastforce
  qed (use 1(2) in auto)
qed auto

lemma occ_inner_mset:
  "occ_inner j G orq owq = (r, G', orq', owq') \<Longrightarrow> mset orq' + mset owq' = mset orq + mset owq \<and> length orq' = length orq"
proof (induction j G orq owq arbitrary: r rule: occ_inner.induct)
  case (1 j G p orq owq)
  show ?case
  proof (cases "owq = [] \<or> \<not> HasFreeSlot (G p)")
    case True
    then show ?thesis using 1 by (fastforce split: if_splits)
  next
    case False
    obtain x owq1 where e: "wait_search G (length owq) owq = (x, owq1)" by fastforce
    have m: "mset owq = mset owq1 + (case x of None \<Rightarrow> {#} | Some w \<Rightarrow> {#w#})" using wait_search_mset[OF e] by blast
    show ?thesis
    proof (cases x)
      case (Some w)
      then show ?thesis using 1(5) False e m by auto
    next
      case None
      show ?thesis
      proof (cases "HasTaskToRun (G p)")
        case True
        then show ?thesis using 1(5) False e m None by auto
      next
        case nt: False
        then have "occ_inner j G (orq @ [p]) owq1 = (r, G', orq', owq')" using 1(5) False e None by simp
        from 1(4)[OF _ _ e[symmetric] _ nt this] False None m show ?thesis by auto
      qed
    qed
  qed
qed auto

section \<open>Conservation of groups\<close>

definition grps_of :: "sched \<Rightarrow> nat \<Rightarrow> nat multiset" where
  "grps_of s i = (case m_mapConnQues s i of None \<Rightarrow> {#} | Some ocq \<Rightarrow> members ocq)"

text \<open>The connection a group belongs to, by its port.\<close>

definition conn_of :: "sched \<Rightarrow> nat \<Rightarrow> nat option" where
  "conn_of s p = (case m_dwPrxyPortId (m_grps s p) of None \<Rightarrow> None | Some dwPortId \<Rightarrow> m_mapId2If s dwPortId)"

lemma grps_of_put [simp]: "grps_of (put_que i st s) = (grps_of s)(i := members (snd st))"
  by (auto simp: grps_of_def put_que_def fun_eq_iff)

lemma grps_of_cong: "m_mapConnQues s' = m_mapConnQues s \<Longrightarrow> grps_of s' = grps_of s"
  by (simp add: grps_of_def fun_eq_iff)

lemma grps_of_fields [simp]:
  "grps_of (s\<lparr>m_lstConns := x\<rparr>) = grps_of s" "grps_of (s\<lparr>m_lstResched := y\<rparr>) = grps_of s"
  "grps_of (s\<lparr>m_dwNumSched := n\<rparr>) = grps_of s" "grps_of (s\<lparr>m_grps := G\<rparr>) = grps_of s"
  "grps_of (s\<lparr>m_mapId2If := z\<rparr>) = grps_of s"
  by (rule grps_of_cong, simp)+

lemma grps_of_upd: "grps_of (s\<lparr>m_mapConnQues := (m_mapConnQues s)(i \<mapsto> q)\<rparr>) = (grps_of s)(i := members q)"
  by (auto simp: grps_of_def fun_eq_iff)

lemma grps_of_lookup: "m_mapConnQues s i = Some q \<Longrightarrow> grps_of s i = members q"
  by (simp add: grps_of_def)

lemma aar_outer_groups: "aar_outer n s = (r, s') \<Longrightarrow> grps_of s' = grps_of s"
proof (induction n arbitrary: s)
  case (Suc n)
  define s1 where "s1 = s\<lparr>m_lstConns := rotate1 (m_lstConns s)\<rparr>"
  have s1: "grps_of s1 = grps_of s" "m_mapConnQues s1 = m_mapConnQues s" by (simp_all add: s1_def)
  let ?i = "hd (m_lstConns s)"
  show ?case
  proof (cases "?i = m_pSchedMgr s1 \<or> m_mapConnQues s1 ?i = None")
    case True
    then have "aar_outer n s1 = (r, s')" using Suc.prems
      by (cases "?i = m_pSchedMgr s1") (simp_all add: Let_def s1_def[symmetric])
    then show ?thesis using Suc.IH s1 by simp
  next
    case False
    then obtain q where q: "m_mapConnQues s1 ?i = Some q" by auto
    obtain x orq where e: "aar_inner (m_grps s1) (length (m_plstReady q)) (m_plstReady q) = (x, orq)" by fastforce
    let ?s2 = "s1\<lparr>m_mapConnQues := (m_mapConnQues s1)(?i \<mapsto> q\<lparr>m_plstReady := orq\<rparr>)\<rparr>"
    have "members (q\<lparr>m_plstReady := orq\<rparr>) = members q" using aar_inner_mset[OF e] by (simp add: members_def)
    then have g: "grps_of ?s2 = grps_of s1" using grps_of_lookup[OF q] by (simp add: grps_of_upd fun_upd_idem_iff)
    have "s' = ?s2 \<or> aar_outer n ?s2 = (r, s')"
      using Suc.prems False q e by (auto simp: Let_def s1_def[symmetric] split: option.splits)
    then show ?thesis using Suc.IH g s1 by auto
  qed
qed simp

lemma occ_outer_groups: "occ_outer n s = (r, s') \<Longrightarrow> grps_of s' = grps_of s"
proof (induction n arbitrary: s)
  case (Suc n)
  define s1 where "s1 = s\<lparr>m_lstConns := rotate1 (m_lstConns s)\<rparr>"
  have s1: "grps_of s1 = grps_of s" "m_mapConnQues s1 = m_mapConnQues s" by (simp_all add: s1_def)
  let ?i = "hd (m_lstConns s)"
  show ?case
  proof (cases "?i = m_pSchedMgr s1 \<or> m_mapConnQues s1 ?i = None")
    case True
    then have "occ_outer n s1 = (r, s')" using Suc.prems
      by (cases "?i = m_pSchedMgr s1") (simp_all add: Let_def s1_def[symmetric])
    then show ?thesis using Suc.IH s1 by simp
  next
    case False
    then obtain q where q: "m_mapConnQues s1 ?i = Some q" by auto
    obtain x G orq owq where e: "occ_inner (length (m_plstReady q)) (m_grps s1) (m_plstReady q) (m_lstWaitSlot q) = (x, G, orq, owq)"
      by (metis prod_cases4)
    let ?s2 = "put_que ?i (G, q\<lparr>m_plstReady := orq, m_lstWaitSlot := owq\<rparr>) s1"
    have "members (q\<lparr>m_plstReady := orq, m_lstWaitSlot := owq\<rparr>) = members q"
      using occ_inner_mset[OF e] by (simp add: members_def add.commute)
    then have g: "grps_of ?s2 = grps_of s1" using grps_of_lookup[OF q] by (simp add: fun_upd_idem_iff)
    have "s' = ?s2 \<or> occ_outer n ?s2 = (r, s')"
      using Suc.prems False q e by (auto simp: Let_def s1_def[symmetric] split: if_splits)
    then show ?thesis using Suc.IH g s1 by auto
  qed
qed simp

lemma occ_start_frame:
  assumes "occ_start s = Inr s2"
  shows "m_mapConnQues s2 = m_mapConnQues s" "m_grps s2 = m_grps s" "m_lstConns s2 = m_lstConns s"
    "m_pSchedMgr s2 = m_pSchedMgr s" "m_mapId2If s2 = m_mapId2If s"
  using assms by (auto simp: occ_start_def Let_def split: if_splits)

lemma occ_start_groups: "occ_start s = Inr s2 \<Longrightarrow> grps_of s2 = grps_of s"
  by (intro grps_of_cong occ_start_frame(1))

lemma GetNextTaskGrp_groups:
  assumes "GetNextTaskGrp h s = Inr (ret, r, s')"
  shows "grps_of s' = grps_of s"
proof -
  have A: "grps_of s' = grps_of s" if "GetNextTaskGrpAAR s = (ret, r, s')"
    using that aar_outer_groups by (auto simp: GetNextTaskGrpAAR_def split: prod.splits)
  have O: "grps_of s' = grps_of s" if occ: "GetNextTaskGrpOCC s = Inr (ret, r, s')"
  proof -
    obtain s2 where s2: "occ_start s = Inr s2" using occ by (auto simp: GetNextTaskGrpOCC_def split: sum.splits)
    then have "occ_outer (length (m_lstConns s2)) s2 = (r, s')"
      using occ by (auto simp: GetNextTaskGrpOCC_def split: prod.splits)
    then show ?thesis using occ_outer_groups occ_start_groups[OF s2] by metis
  qed
  show ?thesis using assms A O by (auto simp: GetNextTaskGrp_def split: if_splits)
qed

lemma SetSlotCount_groups:
  assumes "SetSlotCount pIf n s = (ret, ks, s')"
  shows "grps_of s' = grps_of s"
proof (cases pIf)
  case (Some i)
  show ?thesis
  proof (cases "m_mapConnQues s i")
    case q: (Some q)
    obtain G1 q1 where e1: "IncSlotCount (m_dwMaxSlots q - n) (m_grps s, q) = (G1, q1)" by fastforce
    obtain k G2 q2 where e2: "DecSlotCount (n - m_dwMaxSlots q) (m_grps s, q) = (k, G2, q2)" by (metis prod_cases3)
    have m: "members q1 = members q" "members q2 = members q"
      using IncSlotCount_groups[of "(m_grps s, q)" "m_dwMaxSlots q - n"] DecSlotCount_groups[of "(m_grps s, q)" "n - m_dwMaxSlots q"]
      by (simp_all add: e1 e2 same_groups_def)
    have "members (q1\<lparr>m_dwMaxSlots := n\<rparr>) = members q" "members (q2\<lparr>m_dwMaxSlots := n\<rparr>) = members q"
      using m by (simp_all add: members_def)
    then show ?thesis using assms Some q e1 e2 grps_of_lookup[OF q]
      by (auto simp: SetSlotCount_def fun_upd_idem_iff split: if_splits)
  qed (use assms Some in \<open>simp add: SetSlotCount_def\<close>)
qed (use assms in \<open>simp add: SetSlotCount_def\<close>)

lemma AddTaskGrp_que_groups: "members (snd (snd (AddTaskGrp_que p st))) = add_mset p (members (snd st))"
proof -
  obtain G q where st: "st = (G, q)" by fastforce
  have "members (snd (SetLimitRunningGrps n (G, q\<lparr>m_plstReady := m_plstReady q @ [p]\<rparr>))) = add_mset p (members q)" for n
    using SetLimitRunningGrps_groups[of "(G, q\<lparr>m_plstReady := m_plstReady q @ [p]\<rparr>)" n]
    by (simp add: same_groups_def members_def)
  then show ?thesis by (simp add: st AddTaskGrp_que_def Let_def IncRunningGrps_groups) (simp add: members_def)
qed

lemma SetSlotCount_known:
  assumes "m_mapConnQues s i = Some q" "SetSlotCount (Some i) n s = (ret, ks, s')"
  shows "ret = 0 \<and> m_mapConnQues s' i \<noteq> None"
  using assms by (auto simp: SetSlotCount_def Let_def put_que_def split: if_splits prod.splits)

lemma AddConn_cases:
  assumes "AddConn env pIf s = (ret, ks, s')" "m_mapConnQues s pIf = None"
  obtains (failed) "s' = s" "ks = []" | (added) "ret = 0" "m_mapConnQues s' pIf \<noteq> None" "grps_of s' = grps_of s"
proof (cases "s' = s \<and> ks = []")
  case False
  then obtain port lim where s1: "SetSlotCount (Some pIf) lim (s\<lparr>m_lstConns := m_lstConns s @ [pIf],
      m_mapConnQues := (m_mapConnQues s)(pIf \<mapsto> CONNQUE_ELEM_init), m_mapId2If := (m_mapId2If s)(port \<mapsto> pIf)\<rparr>) = (ret, ks, s')"
    using assms by (auto simp: AddConn_def Let_def split: sum.splits if_splits prod.splits)
  have "grps_of (s\<lparr>m_lstConns := m_lstConns s @ [pIf],
      m_mapConnQues := (m_mapConnQues s)(pIf \<mapsto> CONNQUE_ELEM_init), m_mapId2If := (m_mapId2If s)(port \<mapsto> pIf)\<rparr>) = grps_of s"
    using assms(2) by (auto simp: grps_of_def fun_eq_iff members_def CONNQUE_ELEM_init_def)
  then show thesis using added SetSlotCount_known[OF _ s1] SetSlotCount_groups[OF s1] by simp
qed (use failed in simp)

lemma AddTaskGrp_groups:
  assumes "AddTaskGrp env pIf p s = (ret, ks, s')" "pIf \<noteq> m_pSchedMgr s"
  shows "grps_of s' = (if m_mapConnQues s' pIf = None then grps_of s else (grps_of s)(pIf := add_mset p (grps_of s pIf)))"
proof -
  obtain ret1 k1 s1 where a: "(if m_mapConnQues s pIf = None then AddConn env pIf s else (0, [], s)) = (ret1, k1, s1)"
    by (metis prod_cases3)
  have s1: "grps_of s1 = grps_of s \<and> (m_mapConnQues s1 pIf = None \<and> s1 = s \<or> m_mapConnQues s1 pIf \<noteq> None \<and> ret1 = 0)"
  proof (cases "m_mapConnQues s pIf = None")
    case True
    then have "AddConn env pIf s = (ret1, k1, s1)" using a by simp
    then show ?thesis by (cases rule: AddConn_cases[OF _ True]) (use True in auto)
  qed (use a in auto)
  show ?thesis
  proof (cases "m_mapConnQues s1 pIf")
    case None
    then have "s' = s" using assms a s1 by (auto simp: AddTaskGrp_def split: if_splits)
    then show ?thesis using None s1 by auto
  next
    case (Some q)
    obtain vt st where e: "AddTaskGrp_que p (m_grps s1, q) = (vt, st)"
      by (cases "AddTaskGrp_que p (m_grps s1, q)")
    then have "s' = put_que pIf st s1" using assms a s1 Some by (auto simp: AddTaskGrp_def)
    then show ?thesis
      using AddTaskGrp_que_groups[of p "(m_grps s1, q)"] e s1 grps_of_lookup[OF Some] by (simp add: put_que_def[of pIf st s1]) (simp add: put_que_def[symmetric])
  qed
qed

lemma members_remove:
  "members (q\<lparr>m_lstWaitSlot := remove1 p (m_lstWaitSlot q)\<rparr>) = (if p \<in> set (m_lstWaitSlot q) then members q - {#p#} else members q)"
  "members (q\<lparr>m_plstReady := remove1 p (m_plstReady q)\<rparr>) = (if p \<in> set (m_plstReady q) then members q - {#p#} else members q)"
  by (auto simp: members_def remove1_idem)

lemma members_absent: "p \<notin> set (m_lstWaitSlot q) \<Longrightarrow> p \<notin> set (m_plstReady q) \<Longrightarrow> members q - {#p#} = members q"
  by (simp add: members_def diff_single_trivial)

text \<open>The queue a pointer finds: \<^verbatim>\<open>operator[]\<close> makes an empty one.\<close>

lemma que_of_members: "members (case m_mapConnQues s i of None \<Rightarrow> CONNQUE_ELEM_init | Some q \<Rightarrow> q) = grps_of s i"
  by (simp add: grps_of_def members_def CONNQUE_ELEM_init_def split: option.split)

definition drop_grp :: "nat \<Rightarrow> nat option \<Rightarrow> (nat \<Rightarrow> nat multiset) \<Rightarrow> nat \<Rightarrow> nat multiset" where
  "drop_grp p c f i = (if c = Some i then f i - {#p#} else f i)"

lemma RemoveTaskGrp_groups:
  assumes "RemoveTaskGrp p s = (ret, s')"
  shows "grps_of s' = drop_grp p (conn_of s p) (grps_of s)"
proof (cases "conn_of s p")
  case None
  then have "s' = s" using assms by (auto simp: RemoveTaskGrp_def conn_of_def split: option.splits)
  then show ?thesis using None by (simp add: drop_grp_def fun_eq_iff)
next
  case (Some i)
  then obtain port where port: "m_dwPrxyPortId (m_grps s p) = Some port" "m_mapId2If s port = Some i"
    by (auto simp: conn_of_def split: option.splits)
  define q where "q = (case m_mapConnQues s i of None \<Rightarrow> CONNQUE_ELEM_init | Some q \<Rightarrow> q)"
  have mem: "members q = grps_of s i" unfolding q_def by (rule que_of_members)
  have "grps_of s' = (grps_of s)(i := members q - {#p#})"
  proof (cases "p \<in> set (m_lstWaitSlot q) \<or> p \<notin> set (m_plstReady q)")
    case True
    then have "s' = (if p \<in> set (m_lstWaitSlot q) then put_que i (m_grps s, q\<lparr>m_lstWaitSlot := remove1 p (m_lstWaitSlot q)\<rparr>) s
        else put_que i (m_grps s, q) s)"
      using assms port by (cases "p \<in> set (m_lstWaitSlot q)") (simp_all add: RemoveTaskGrp_def q_def[symmetric] Let_def)
    then show ?thesis using True by (auto simp: members_remove members_absent)
  next
    case False
    let ?q = "q\<lparr>m_plstReady := remove1 p (m_plstReady q)\<rparr>"
    have "members (snd (release_slots (m_grps s, ?q))) = members q - {#p#}"
      using release_slots_groups[of "(m_grps s, ?q)"] False members_remove(2)[where q = q and p = p] by (simp add: same_groups_def)
    then show ?thesis using assms port False
      by (auto simp: RemoveTaskGrp_def q_def[symmetric] Let_def split: if_splits)
  qed
  then show ?thesis using Some mem by (auto simp: drop_grp_def fun_eq_iff)
qed

lemma erase_grp_groups:
  assumes "erase_grp p (s, S) = (s', S')"
  shows "grps_of s' = drop_grp p (conn_of s p) (grps_of s)" "conn_of s' = conn_of s"
proof -
  show "grps_of s' = drop_grp p (conn_of s p) (grps_of s)"
  proof (cases "conn_of s p")
    case None
    then have "s' = s" using assms by (auto simp: erase_grp_def conn_of_def split: option.splits)
    then show ?thesis using None by (simp add: drop_grp_def fun_eq_iff)
  next
    case (Some i)
    then obtain port where port: "m_dwPrxyPortId (m_grps s p) = Some port" "m_mapId2If s port = Some i"
      by (auto simp: conn_of_def split: option.splits)
    define q where "q = (case m_mapConnQues s i of None \<Rightarrow> CONNQUE_ELEM_init | Some q \<Rightarrow> q)"
    have mem: "members q = grps_of s i" unfolding q_def by (rule que_of_members)
    have "s' = (if p \<in> set (m_lstWaitSlot q) then put_que i (m_grps s, q\<lparr>m_lstWaitSlot := remove1 p (m_lstWaitSlot q)\<rparr>) s
        else if p \<notin> set (m_plstReady q) then put_que i (m_grps s, q) s
        else put_que i (m_grps s, q\<lparr>m_plstReady := remove1 p (m_plstReady q)\<rparr>) s)"
      using assms port by (auto simp: erase_grp_def q_def[symmetric] Let_def split: if_splits)
    then have "grps_of s' = (grps_of s)(i := members q - {#p#})" by (simp add: members_remove members_absent)
    then show ?thesis using Some mem by (auto simp: drop_grp_def fun_eq_iff)
  qed
  show "conn_of s' = conn_of s"
    using assms by (auto simp: erase_grp_def conn_of_def put_que_def Let_def fun_eq_iff split: option.splits if_splits)
qed

lemma fold_erase_groups:
  "fold erase_grp ps (s, S) = (s', S') \<Longrightarrow>
    grps_of s' i = grps_of s i - mset (filter (\<lambda>p. conn_of s p = Some i) ps) \<and> conn_of s' = conn_of s"
proof (induction ps arbitrary: s S)
  case (Cons p ps)
  obtain s1 S1 where e: "erase_grp p (s, S) = (s1, S1)" by fastforce
  then show ?case using Cons.IH[of s1 S1] Cons.prems erase_grp_groups[OF e]
    by (auto simp: drop_grp_def)
qed simp

lemma reshare_conn_groups: "grps_of (reshare_conn i s) = grps_of s"
proof (cases "m_mapConnQues s i")
  case (Some q)
  have "members (snd (ResetSlotCountRelease 0 (m_grps s, q))) = grps_of s i"
    using ResetSlotCountRelease_groups[of "(m_grps s, q)" 0] grps_of_lookup[OF Some] by (simp add: same_groups_def)
  then show ?thesis using Some by (simp add: reshare_conn_def Let_def fun_upd_idem_iff)
qed (simp add: reshare_conn_def)

lemma fold_reshare_groups: "grps_of (fold reshare_conn is s) = grps_of s"
  by (induction "is" arbitrary: s) (simp_all add: reshare_conn_groups)

section \<open>Round robin\<close>

lemma HasTaskToRun_free: "HasTaskToRun g \<Longrightarrow> HasFreeSlot g"
  by (simp add: HasTaskToRun_def HasFreeSlot_def)

lemma aar_inner_none:
  "\<forall>p\<in>set as. \<not> HasTaskToRun (G p) \<Longrightarrow> aar_inner G (length as) (as @ bs) = (None, bs @ as)"
proof (induction as arbitrary: bs)
  case (Cons a as)
  then show ?case using Cons.IH[of "bs @ [a]"] by simp
qed (cases bs; simp)

lemma aar_inner_some:
  "\<forall>p\<in>set xs. \<not> HasTaskToRun (G p) \<Longrightarrow> HasTaskToRun (G p) \<Longrightarrow>
    aar_inner G (length (xs @ p # ys)) (xs @ p # ys @ bs) = (Some p, ys @ bs @ xs @ [p])"
proof (induction xs arbitrary: bs)
  case Nil
  then show ?case using HasTaskToRun_free by simp
next
  case (Cons x xs)
  then show ?case using Cons.IH[of "bs @ [x]"] by simp
qed

text \<open>A connection with a group that can run, and the first such group.\<close>

definition serviceable :: "sched \<Rightarrow> nat \<Rightarrow> bool" where
  "serviceable s i \<longleftrightarrow> i \<noteq> m_pSchedMgr s \<and>
    (case m_mapConnQues s i of None \<Rightarrow> False | Some ocq \<Rightarrow> \<exists>p\<in>set (m_plstReady ocq). HasTaskToRun (m_grps s p))"

lemma serviceable_conns [simp]: "serviceable (s\<lparr>m_lstConns := x\<rparr>) i = serviceable s i"
  by (simp add: serviceable_def split: option.split)

lemma aar_outer_skip:
  assumes "m_lstConns s = i # is" "\<not> serviceable s i"
  shows "aar_outer (Suc n) s = aar_outer n (s\<lparr>m_lstConns := is @ [i]\<rparr>)"
proof (cases "i = m_pSchedMgr s \<or> m_mapConnQues s i = None")
  case True
  then show ?thesis using assms(1) by (cases "i = m_pSchedMgr s") (simp_all add: Let_def)
next
  case False
  then obtain q where q: "m_mapConnQues s i = Some q" by auto
  then have "\<forall>p\<in>set (m_plstReady q). \<not> HasTaskToRun (m_grps s p)" using False assms(2) by (auto simp: serviceable_def)
  from aar_inner_none[OF this, of "[]"] show ?thesis using False q assms(1)
    by (simp add: Let_def fun_upd_idem)
qed

lemma aar_outer_none:
  "m_lstConns s = as @ bs \<Longrightarrow> \<forall>i\<in>set as. \<not> serviceable s i \<Longrightarrow> aar_outer (length as) s = (None, s\<lparr>m_lstConns := bs @ as\<rparr>)"
proof (induction as arbitrary: s bs)
  case (Cons i as)
  let ?s = "s\<lparr>m_lstConns := as @ bs @ [i]\<rparr>"
  have "aar_outer (length as) ?s = (None, ?s\<lparr>m_lstConns := (bs @ [i]) @ as\<rparr>)"
    using Cons.prems(2) by (intro Cons.IH) auto
  then show ?case using aar_outer_skip[of s i "as @ bs" "length as"] Cons.prems by (simp del: aar_outer.simps)
qed simp

lemma aar_outer_some:
  "m_lstConns s = as @ i # cs @ bs \<Longrightarrow> \<forall>j\<in>set as. \<not> serviceable s j \<Longrightarrow> i \<noteq> m_pSchedMgr s \<Longrightarrow>
    m_mapConnQues s i = Some q \<Longrightarrow> m_plstReady q = xs @ p # ys \<Longrightarrow> \<forall>p\<in>set xs. \<not> HasTaskToRun (m_grps s p) \<Longrightarrow>
    HasTaskToRun (m_grps s p) \<Longrightarrow>
    aar_outer (length (as @ i # cs)) s = (Some p, s\<lparr>m_lstConns := cs @ bs @ as @ [i],
      m_mapConnQues := (m_mapConnQues s)(i \<mapsto> q\<lparr>m_plstReady := ys @ xs @ [p]\<rparr>)\<rparr>)"
proof (induction as arbitrary: s bs)
  case Nil
  then show ?case using aar_inner_some[of xs "m_grps s" p ys "[]"] by (simp add: Let_def fun_upd_def)
next
  case (Cons j as)
  let ?s = "s\<lparr>m_lstConns := as @ i # cs @ bs @ [j]\<rparr>"
  have "aar_outer (length (as @ i # cs)) ?s = (Some p, ?s\<lparr>m_lstConns := cs @ (bs @ [j]) @ as @ [i],
      m_mapConnQues := (m_mapConnQues ?s)(i \<mapsto> q\<lparr>m_plstReady := ys @ xs @ [p]\<rparr>)\<rparr>)"
    using Cons.prems by (intro Cons.IH) auto
  then show ?case using aar_outer_skip[of s j "as @ i # cs @ bs" "length (as @ i # cs)"] Cons.prems
    by (simp add: fun_upd_def del: aar_outer.simps)
qed

lemma serviceable_split:
  assumes "serviceable s i"
  obtains q xs p ys where "m_mapConnQues s i = Some q" "i \<noteq> m_pSchedMgr s" "m_plstReady q = xs @ p # ys"
    "\<forall>p\<in>set xs. \<not> HasTaskToRun (m_grps s p)" "HasTaskToRun (m_grps s p)"
proof -
  obtain q where q: "m_mapConnQues s i = Some q" "\<exists>p\<in>set (m_plstReady q). HasTaskToRun (m_grps s p)" "i \<noteq> m_pSchedMgr s"
    using assms by (auto simp: serviceable_def split: option.splits)
  from split_list_first_prop[OF q(2)] that q(1,3) show thesis by metis
qed

text \<open>The requirements of \<open>GetNextTaskGrpAAR\<close> in one rule.\<close>

lemma aar_cases:
  obtains (idle) "\<forall>i\<in>set (m_lstConns s). \<not> serviceable s i" "GetNextTaskGrpAAR s = (- ENOENT, None, s)"
  | (serve) as i bs q xs p ys where "m_lstConns s = as @ i # bs" "\<forall>j\<in>set as. \<not> serviceable s j" "serviceable s i"
      "m_mapConnQues s i = Some q" "m_plstReady q = xs @ p # ys" "\<forall>p\<in>set xs. \<not> HasTaskToRun (m_grps s p)"
      "HasTaskToRun (m_grps s p)"
      "GetNextTaskGrpAAR s = (0, Some p, s\<lparr>m_lstConns := bs @ as @ [i],
        m_mapConnQues := (m_mapConnQues s)(i \<mapsto> q\<lparr>m_plstReady := ys @ xs @ [p]\<rparr>)\<rparr>)"
proof (cases "\<exists>i\<in>set (m_lstConns s). serviceable s i")
  case False
  then show thesis using idle aar_outer_none[of s "m_lstConns s" "[]"] by (simp add: GetNextTaskGrpAAR_def)
next
  case True
  from split_list_first_prop[OF this] obtain as i bs where c: "m_lstConns s = as @ i # bs" "serviceable s i"
    "\<forall>j\<in>set as. \<not> serviceable s j" by blast
  obtain q xs p ys where q: "m_mapConnQues s i = Some q" "i \<noteq> m_pSchedMgr s" "m_plstReady q = xs @ p # ys"
    "\<forall>p\<in>set xs. \<not> HasTaskToRun (m_grps s p)" "HasTaskToRun (m_grps s p)" using serviceable_split[OF c(2)] .
  have "GetNextTaskGrpAAR s = (0, Some p, s\<lparr>m_lstConns := bs @ as @ [i],
        m_mapConnQues := (m_mapConnQues s)(i \<mapsto> q\<lparr>m_plstReady := ys @ xs @ [p]\<rparr>)\<rparr>)"
    using aar_outer_some[of s as i bs "[]", OF _ c(3) q(2,1,3,4,5)] c(1) by (simp add: GetNextTaskGrpAAR_def)
  then show thesis using serve c q by blast
qed

text \<open>Successive calls while the groups change: before each call the groups are as in the next store. The result lists the
  groups that were chosen.\<close>

fun aar_calls :: "grp_store list \<Rightarrow> sched \<Rightarrow> nat option list" where
  "aar_calls [] s = []"
| "aar_calls (G # Gs) s = (let (ret, r, s') = GetNextTaskGrpAAR (s\<lparr>m_grps := G\<rparr>) in r # aar_calls Gs s')"

definition ready_set :: "sched \<Rightarrow> nat \<Rightarrow> nat set" where
  "ready_set s i = (case m_mapConnQues s i of None \<Rightarrow> {} | Some ocq \<Rightarrow> set (m_plstReady ocq))"

lemma serviceable_ready:
  "serviceable s i \<longleftrightarrow> i \<noteq> m_pSchedMgr s \<and> (\<exists>p\<in>ready_set s i. HasTaskToRun (m_grps s p))"
  by (auto simp: serviceable_def ready_set_def split: option.splits)

lemma aar_step_fair:
  assumes "m_lstConns s = as @ i # bs" "serviceable s i"
  shows "\<exists>p s'. GetNextTaskGrpAAR s = (0, Some p, s') \<and> m_grps s' = m_grps s \<and> m_pSchedMgr s' = m_pSchedMgr s \<and>
    (\<forall>j. ready_set s' j = ready_set s j) \<and>
    (p \<in> ready_set s i \<or> (\<exists>as' bs'. m_lstConns s' = as' @ i # bs' \<and> length as' < length as))"
proof (cases rule: aar_cases[of s])
  case idle
  then show ?thesis using assms by auto
next
  case (serve as1 i1 bs1 q xs p ys)
  let ?s = "s\<lparr>m_lstConns := bs1 @ as1 @ [i1], m_mapConnQues := (m_mapConnQues s)(i1 \<mapsto> q\<lparr>m_plstReady := ys @ xs @ [p]\<rparr>)\<rparr>"
  have "ready_set ?s j = ready_set s j" for j using serve(4,5) by (auto simp: ready_set_def)
  moreover have "p \<in> ready_set s i \<or> (\<exists>as' bs'. m_lstConns ?s = as' @ i # bs' \<and> length as' < length as)"
  proof (cases "i1 = i")
    case True
    then show ?thesis using serve(4,5) by (simp add: ready_set_def)
  next
    case False
    have "as1 @ i1 # bs1 = as @ i # bs" using serve(1) assms(1) by simp
    then consider us where "as1 = as @ us" "us @ i1 # bs1 = i # bs" | us where "as = as1 @ us" "i1 # bs1 = us @ i # bs"
      by (auto simp: append_eq_append_conv2)
    then show ?thesis
    proof cases
      case 1
      then have "i \<in> set as1" using False by (cases us) auto
      then show ?thesis using serve(2) assms(2) by blast
    next
      case 2
      then obtain vs where "us = i1 # vs" "bs1 = vs @ i # bs" using False by (cases us) auto
      then have "m_lstConns ?s = vs @ i # (bs @ as1 @ [i1])" "length vs < length as" using 2 by auto
      then show ?thesis by blast
    qed
  qed
  ultimately show ?thesis using serve(8) by auto
qed

section \<open>The slot budget\<close>

text \<open>How the slots of a connection are shared: no group is queued twice, all are active, ready groups have a slot at least,
  waiting ones none, and together the ready ones have no more than the connection.\<close>

definition share_ok :: "nat \<Rightarrow> grp_store \<Rightarrow> nat multiset \<Rightarrow> nat multiset \<Rightarrow> bool" where
  "share_ok B G R W \<longleftrightarrow> (\<forall>p. count (R + W) p \<le> 1) \<and> (\<forall>p. p \<in># R + W \<longrightarrow> active (G p)) \<and>
    (\<forall>p. p \<in># R \<longrightarrow> 1 \<le> m_dwMaxRunning (G p)) \<and> (\<forall>p. p \<in># W \<longrightarrow> m_dwMaxRunning (G p) = 0) \<and>
    (\<Sum>p\<in>#R. m_dwMaxRunning (G p)) \<le> B"

definition que_ok :: "grp_store \<Rightarrow> connque \<Rightarrow> bool" where
  "que_ok G q \<longleftrightarrow> share_ok (m_dwMaxSlots q) G (mset (m_plstReady q)) (mset (m_lstWaitSlot q)) \<and> m_plstNextSched q = []"

lemma share_ok_cong:
  assumes "share_ok B G R W" "\<And>p. p \<in># R + W \<Longrightarrow> active (G' p) = active (G p) \<and> m_dwMaxRunning (G' p) = m_dwMaxRunning (G p)"
  shows "share_ok B G' R W"
proof -
  have "image_mset (\<lambda>p. m_dwMaxRunning (G' p)) R = image_mset (\<lambda>p. m_dwMaxRunning (G p)) R"
    using assms(2) by (intro image_mset_cong) simp
  then show ?thesis using assms by (simp add: share_ok_def)
qed

lemma que_ok_cong:
  assumes "que_ok G q" "\<And>p. p \<in># members q \<Longrightarrow> active (G' p) = active (G p) \<and> m_dwMaxRunning (G' p) = m_dwMaxRunning (G p)"
  shows "que_ok G' q"
proof -
  have "share_ok (m_dwMaxSlots q) G' (mset (m_plstReady q)) (mset (m_lstWaitSlot q))"
    by (rule share_ok_cong[of _ G]) (use assms in \<open>auto simp: que_ok_def members_def\<close>)
  then show ?thesis using assms(1) by (simp add: que_ok_def)
qed

lemma share_ok_distinct:
  "share_ok B G (mset rs) (mset ws) \<Longrightarrow> distinct (rs @ ws)"
  unfolding share_ok_def by (metis count_mset_0_iff distinct_count_atmost_1 count_greater_eq_one_iff le_antisym mset_append
    not_in_iff One_nat_def le_zero_eq le_SucE)

lemma SetLimitRunningGrps_pos:
  "0 < n \<Longrightarrow> SetLimitRunningGrps n (G, q) =
    (fold (\<lambda>p G. if m_dwMaxRunning (G p) = n then G else G(p := set_max n (G p))) (m_plstReady q) G, q)"
  unfolding SetLimitRunningGrps_def set_limit_def by simp

lemma IncRunningGrps_eq:
  "IncRunningGrps m (G, q) = (fold (\<lambda>p G. G(p := set_max (m_dwMaxRunning (G p) + 1) (G p))) (take m (m_plstReady q)) G, q)"
  unfolding IncRunningGrps_def set_limit_def by simp

text \<open>An equal share of the slots keeps within the budget.\<close>

lemma share_equally:
  assumes "distinct (m_plstReady q)" "\<forall>p\<in>set (m_plstReady q). active (G p)" "0 < n"
    "IncRunningGrps m (SetLimitRunningGrps n (G, q)) = (G', q')"
  shows "q' = q" "(\<Sum>p\<in>#mset (m_plstReady q). m_dwMaxRunning (G' p)) \<le> n * length (m_plstReady q) + m"
    "\<forall>p\<in>set (m_plstReady q). active (G' p) \<and> 1 \<le> m_dwMaxRunning (G' p)"
    "p \<notin> set (m_plstReady q) \<Longrightarrow> G' p = G p"
proof -
  define G1 where "G1 = fold (\<lambda>p G. if m_dwMaxRunning (G p) = n then G else G(p := set_max n (G p))) (m_plstReady q) G"
  have G': "G' = fold (\<lambda>p G. G(p := set_max (m_dwMaxRunning (G p) + 1) (G p))) (take m (m_plstReady q)) G1" and "q' = q"
    using assms(3,4) by (auto simp: SetLimitRunningGrps_pos IncRunningGrps_eq G1_def)
  then show "q' = q" by simp
  have G1: "active (G1 p) \<and> 1 \<le> m_dwMaxRunning (G1 p) \<and> m_dwMaxRunning (G1 p) \<le> n" if "p \<in> set (m_plstReady q)" for p
  proof -
    have "active (G1 p)" unfolding G1_def
      using grp.fold_act[of "\<lambda>p G. m_dwMaxRunning (G p) = n" "\<lambda>p G. n" "m_plstReady q" G p] assms(2) that by simp
    moreover have "m_dwMaxRunning (G1 p) \<in> {n, min n RFC_MAX_REQS}" unfolding G1_def
      by (rule grp.fold_same[OF assms(1,2) that])
    ultimately show ?thesis using assms(3) by auto
  qed
  then have "\<forall>p\<in>set (m_plstReady q). active (G1 p) \<and> 1 \<le> m_dwMaxRunning (G1 p) \<and> m_dwMaxRunning (G1 p) \<le> n" by blast
  note S = grp.share_sum[OF assms(1) this, of m, folded G']
  show "(\<Sum>p\<in>#mset (m_plstReady q). m_dwMaxRunning (G' p)) \<le> n * length (m_plstReady q) + m"
    using S(1) by (simp add: sum_mset_sum_list flip: mset_map)
  show "\<forall>p\<in>set (m_plstReady q). active (G' p) \<and> 1 \<le> m_dwMaxRunning (G' p)" by (rule S(2))
  assume p: "p \<notin> set (m_plstReady q)"
  then have "p \<notin> set (take m (m_plstReady q))" using set_take_subset[of m "m_plstReady q"] by blast
  then show "G' p = G p"
    using grp.fold_other[of p "take m (m_plstReady q)" "\<lambda>p G. False" "\<lambda>p G. m_dwMaxRunning (G p) + 1" G1]
      grp.fold_other[OF p, of "\<lambda>p G. m_dwMaxRunning (G p) = n" "\<lambda>p G. n" G] by (simp add: G' G1_def)
qed

lemma AddTaskGrp_que_ok:
  assumes "que_ok G q" "p \<notin># members q" "active (G p)" "m_dwMaxRunning (G p) = 0" "AddTaskGrp_que p (G, q) = (vt, G', q')"
  shows "que_ok G' q' \<and> members q' = add_mset p (members q) \<and> (\<forall>x. x \<notin># members q' \<longrightarrow> G' x = G x)"
proof -
  have mem: "members q' = add_mset p (members q)" using AddTaskGrp_que_groups[of p "(G, q)"] assms(5) by simp
  have sh: "share_ok (m_dwMaxSlots q) G (mset (m_plstReady q)) (mset (m_lstWaitSlot q))" "m_plstNextSched q = []"
    using assms(1) by (simp_all add: que_ok_def)
  have p: "p \<notin># mset (m_plstReady q)" "p \<notin># mset (m_lstWaitSlot q)" using assms(2) by (simp_all add: members_def)
  let ?n = "GetTaskGrpCount q + 1"
  show ?thesis
  proof (cases "m_lstWaitSlot q \<noteq> [] \<or> m_dwMaxSlots q div ?n = 0")
    case True
    then have e: "q' = q\<lparr>m_lstWaitSlot := m_lstWaitSlot q @ [p]\<rparr>" "G' = G"
      using assms(5) by (cases "m_lstWaitSlot q = []"; simp add: AddTaskGrp_que_def Let_def)+
    have "share_ok (m_dwMaxSlots q) G (mset (m_plstReady q)) (add_mset p (mset (m_lstWaitSlot q)))"
      using sh(1) p assms(3,4) unfolding share_ok_def by (auto simp: not_in_iff)
    then show ?thesis using sh mem by (simp add: que_ok_def e)
  next
    case False
    let ?q = "q\<lparr>m_plstReady := m_plstReady q @ [p]\<rparr>" and ?a = "m_dwMaxSlots q div ?n"
    obtain G1 q1 where e: "IncRunningGrps (m_dwMaxSlots q - ?a * ?n) (SetLimitRunningGrps ?a (G, ?q)) = (G1, q1)" by fastforce
    then have G': "G' = G1" "q' = q1" using assms(5) False by (simp_all add: AddTaskGrp_que_def Let_def)
    have d: "distinct (m_plstReady ?q)" using share_ok_distinct[OF sh(1)] p by auto
    have a: "\<forall>x\<in>set (m_plstReady ?q). active (G x)" using sh(1) assms(3) by (auto simp: share_ok_def)
    note S = share_equally[OF d a _ e]
    have q1: "q1 = ?q" and sum: "(\<Sum>x\<in>#mset (m_plstReady ?q). m_dwMaxRunning (G1 x)) \<le> ?a * ?n + (m_dwMaxSlots q - ?a * ?n)"
      using S(1,2) False sh(2) by (simp_all add: GetTaskGrpCount_def)
    have "?a * ?n + (m_dwMaxSlots q - ?a * ?n) = m_dwMaxSlots q"
      using div_times_less_eq_dividend[of "m_dwMaxSlots q" ?n] by (simp only: le_add_diff_inverse)
    then have "share_ok (m_dwMaxSlots q) G1 (mset (m_plstReady ?q)) {#}"
      using sum S(3) False d unfolding share_ok_def by (simp add: distinct_count_atmost_1)
    then show ?thesis using False sh(2) S(4) mem G' q1 by (auto simp: que_ok_def members_def)
  qed
qed

text \<open>Groups leave a queue, and a waiting one takes over a slot.\<close>

lemma share_ok_less:
  assumes "share_ok B G R W" "R' \<subseteq># R" "W' \<subseteq># W"
  shows "share_ok B G R' W'"
proof -
  have c: "count (R' + W') p \<le> 1" for p
  proof -
    have "count (R + W) p \<le> 1" using assms(1) by (simp add: share_ok_def)
    then show ?thesis using mset_subset_eq_count[OF assms(2), of p] mset_subset_eq_count[OF assms(3), of p] by simp
  qed
  obtain D where "R = R' + D" using assms(2) by (auto simp: mset_subset_eq_exists_conv)
  then have "(\<Sum>p\<in>#R'. m_dwMaxRunning (G p)) \<le> B" using assms(1) by (simp add: share_ok_def)
  then show ?thesis using c assms(1) mset_subset_eqD[OF assms(2)] mset_subset_eqD[OF assms(3)]
    unfolding share_ok_def by auto
qed

lemma share_ok_grant:
  assumes "share_ok B G R (add_mset w W)" "(\<Sum>p\<in>#R. m_dwMaxRunning (G p)) < B" "active (G' w)" "m_dwMaxRunning (G' w) = 1"
    "\<And>x. x \<noteq> w \<Longrightarrow> G' x = G x"
  shows "share_ok B G' (add_mset w R) W"
proof -
  have c: "count (R + add_mset w W) p \<le> 1" for p using assms(1) unfolding share_ok_def by blast
  have w: "w \<notin># R" "w \<notin># W" using c[of w] by (auto simp: not_in_iff)
  have G': "G' p = G p" if "p \<in># R + W" for p
    using that w assms(5)[of p] by (cases "p = w") auto
  have "image_mset (\<lambda>p. m_dwMaxRunning (G' p)) R = image_mset (\<lambda>p. m_dwMaxRunning (G p)) R"
    using G' by (intro image_mset_cong) simp
  then have "(\<Sum>p\<in>#add_mset w R. m_dwMaxRunning (G' p)) \<le> B" using assms(2,4) by simp
  moreover have "count (add_mset w R + W) p \<le> 1" for p using c[of p] by simp
  moreover have "active (G' p)" if "p \<in># add_mset w R + W" for p
    using that assms(1,3) G'[of p] unfolding share_ok_def by (cases "p = w") auto
  moreover have "1 \<le> m_dwMaxRunning (G' p)" if "p \<in># add_mset w R" for p
    using that assms(1,4) G'[of p] unfolding share_ok_def by (cases "p = w") auto
  moreover have "m_dwMaxRunning (G' p) = 0" if "p \<in># W" for p
    using that assms(1) G'[of p] unfolding share_ok_def by auto
  ultimately show ?thesis unfolding share_ok_def by blast
qed

lemma set_limit_apply:
  "set_limit n p G x = (if x = p then set_max n (G p) else G x)"
  by (simp add: set_limit_def)

lemma IncWaitingGrp_one:
  assumes "m_lstWaitSlot q \<noteq> []" "IncWaitingGrp 1 (G, q) = (G', q')"
  obtains w where "mset (m_lstWaitSlot q) = add_mset w (mset (m_lstWaitSlot q'))" "mset (m_plstReady q') = add_mset w (mset (m_plstReady q))"
    "G' = set_limit 1 w G" "m_plstNextSched q' = m_plstNextSched q" "m_dwMaxSlots q' = m_dwMaxSlots q"
proof -
  have one: "min 1 (length (m_lstWaitSlot q)) = 1" using assms(1) by (cases "m_lstWaitSlot q") auto
  obtain sel rest where e: "take_pending G 1 (m_lstWaitSlot q) = (sel, rest)" by fastforce
  have m: "mset sel + mset rest = mset (m_lstWaitSlot q)" "length sel \<le> 1" using take_pending_mset[OF e] by auto
  have eq: "G' = fold (set_limit 1) (sel @ take (1 - length sel) rest) G"
    "q' = q\<lparr>m_plstReady := m_plstReady q @ sel @ take (1 - length sel) rest, m_lstWaitSlot := drop (1 - length sel) rest\<rparr>"
    using assms(2) one e by (auto simp: IncWaitingGrp_def Let_def)
  show thesis
  proof (cases sel)
    case Nil
    then obtain w ws where "rest = w # ws" using m(1) assms(1) by (cases rest) auto
    then show thesis using that[of w] m(1) eq Nil by simp
  next
    case (Cons w ws)
    then have "ws = []" using m(2) by simp
    then show thesis using that[of w] m(1) eq Cons by (simp add: m(1)[symmetric])
  qed
qed

lemma release_slots_ok:
  assumes "que_ok G q" "(\<Sum>p\<in>#mset (m_plstReady q). m_dwMaxRunning (G p)) < m_dwMaxSlots q" "release_slots (G, q) = (G', q')"
  shows "que_ok G' q' \<and> (\<forall>x. x \<notin># members q \<longrightarrow> G' x = G x)"
proof -
  have sh: "share_ok (m_dwMaxSlots q) G (mset (m_plstReady q)) (mset (m_lstWaitSlot q))" "m_plstNextSched q = []"
    using assms(1) by (simp_all add: que_ok_def)
  let ?n = "GetTaskGrpCount q" and ?a = "m_dwMaxSlots q div GetTaskGrpCount q"
  consider (same) "(G', q') = (G, q)"
    | (wait) "m_lstWaitSlot q \<noteq> []" "IncWaitingGrp 1 (G, q) = (G', q')"
    | (share) "0 < ?a" "IncRunningGrps (m_dwMaxSlots q - ?a * ?n) (SetLimitRunningGrps ?a (G, q)) = (G', q')"
    using assms(3) by (auto simp: release_slots_def Let_def split: if_splits)
  then show ?thesis
  proof cases
    case same
    then show ?thesis using assms(1) by simp
  next
    case wait
    from IncWaitingGrp_one[OF wait] obtain w where w: "mset (m_lstWaitSlot q) = add_mset w (mset (m_lstWaitSlot q'))"
      "mset (m_plstReady q') = add_mset w (mset (m_plstReady q))" "G' = set_limit 1 w G"
      "m_plstNextSched q' = m_plstNextSched q" "m_dwMaxSlots q' = m_dwMaxSlots q" .
    have act: "active (G w)" using sh(1) w(1) by (auto simp: share_ok_def)
    have "share_ok (m_dwMaxSlots q) G' (add_mset w (mset (m_plstReady q))) (mset (m_lstWaitSlot q'))"
      by (rule share_ok_grant[OF _ assms(2)])
        (use sh(1) w(1,3) act in \<open>auto simp: set_limit_apply grp.limit_setl grp.act_setl\<close>)
    moreover have "w \<in># members q" using w(1) by (simp add: members_def)
    ultimately show ?thesis using w sh(2) by (auto simp: que_ok_def set_limit_apply)
  next
    case share
    have d: "distinct (m_plstReady q)" using share_ok_distinct[OF sh(1)] by simp
    have a: "\<forall>x\<in>set (m_plstReady q). active (G x)" using sh(1) by (auto simp: share_ok_def)
    note S = share_equally[OF d a share]
    have "?a * length (m_plstReady q) + (m_dwMaxSlots q - ?a * ?n) \<le> ?a * ?n + (m_dwMaxSlots q - ?a * ?n)"
      by (simp add: GetTaskGrpCount_def algebra_simps)
    also have "\<dots> = m_dwMaxSlots q" using div_times_less_eq_dividend[of "m_dwMaxSlots q" ?n] by (simp only: le_add_diff_inverse)
    finally have sum: "(\<Sum>x\<in>#mset (m_plstReady q). m_dwMaxRunning (G' x)) \<le> m_dwMaxSlots q" using S(2) by linarith
    have c: "count (mset (m_plstReady q) + mset (m_lstWaitSlot q)) p \<le> 1" for p using sh(1) unfolding share_ok_def by blast
    have off: "G' x = G x" if "x \<in># mset (m_lstWaitSlot q)" for x
    proof (rule S(4))
      show "x \<notin> set (m_plstReady q)" using that share_ok_distinct[OF sh(1)] by auto
    qed
    have "share_ok (m_dwMaxSlots q) G' (mset (m_plstReady q)) (mset (m_lstWaitSlot q))"
      using sum c S(3) off sh(1) unfolding share_ok_def by auto
    then show ?thesis using sh(2) S(1,4) by (auto simp: que_ok_def members_def)
  qed
qed

lemma remove_grp_ok:
  assumes "que_ok G q" "p \<in> set (m_plstReady q)" "release_slots (G, q\<lparr>m_plstReady := remove1 p (m_plstReady q)\<rparr>) = (G', q')"
  shows "que_ok G' q' \<and> (\<forall>x. x \<notin># members q \<longrightarrow> G' x = G x)"
proof -
  let ?q = "q\<lparr>m_plstReady := remove1 p (m_plstReady q)\<rparr>"
  have sh: "share_ok (m_dwMaxSlots q) G (mset (m_plstReady q)) (mset (m_lstWaitSlot q))" "m_plstNextSched q = []"
    using assms(1) by (simp_all add: que_ok_def)
  have "share_ok (m_dwMaxSlots q) G (mset (m_plstReady ?q)) (mset (m_lstWaitSlot ?q))"
    using share_ok_less[OF sh(1), of "mset (m_plstReady ?q)" "mset (m_lstWaitSlot ?q)"] by simp
  then have ok: "que_ok G ?q" using sh(2) by (simp add: que_ok_def)
  have "mset (m_plstReady q) = add_mset p (mset (m_plstReady ?q))" using assms(2) by simp
  then have "(\<Sum>x\<in>#mset (m_plstReady q). m_dwMaxRunning (G x)) =
      m_dwMaxRunning (G p) + (\<Sum>x\<in>#mset (m_plstReady ?q). m_dwMaxRunning (G x))" by (simp only: image_mset_add_mset sum_mset.add_mset)
  moreover have "1 \<le> m_dwMaxRunning (G p)" using sh(1) assms(2) by (simp add: share_ok_def)
  moreover have "(\<Sum>x\<in>#mset (m_plstReady q). m_dwMaxRunning (G x)) \<le> m_dwMaxSlots q" using sh(1) by (simp add: share_ok_def)
  ultimately have "(\<Sum>x\<in>#mset (m_plstReady ?q). m_dwMaxRunning (G x)) < m_dwMaxSlots ?q" by simp
  note rel = release_slots_ok[OF ok this assms(3)]
  have "members ?q \<subseteq># members q" by (simp add: members_def)
  then show ?thesis using rel mset_subset_eqD by metis
qed

lemma remove_wait_ok:
  assumes "que_ok G q"
  shows "que_ok G (q\<lparr>m_lstWaitSlot := remove1 p (m_lstWaitSlot q)\<rparr>)"
  using assms share_ok_less[of "m_dwMaxSlots q" G "mset (m_plstReady q)" "mset (m_lstWaitSlot q)" "mset (m_plstReady q)"
    "mset (remove1 p (m_lstWaitSlot q))"] by (simp add: que_ok_def)

lemma occ_inner_cases:
  assumes "occ_inner j G orq owq = (r, G', orq', owq')"
  shows "(G' = G \<and> mset orq' = mset orq \<and> mset owq' = mset owq) \<or>
    (\<exists>p w. p \<in> set orq \<and> w \<in> set owq \<and> r = Some w \<and> HasPendingTasks (G w) > 0 \<and>
      G' = set_limit 1 w (set_limit 0 p G) \<and>
      mset orq' = add_mset w (mset orq - {#p#}) \<and> mset owq' = add_mset p (mset owq - {#w#}))"
  using assms
proof (induction j G orq owq arbitrary: r rule: occ_inner.induct)
  case (1 j G p orq owq)
  show ?case
  proof (cases "owq = [] \<or> \<not> HasFreeSlot (G p)")
    case True
    then consider "r = Some p" "G' = G" "orq' = orq @ [p]" "owq' = owq"
      | "occ_inner j G (orq @ [p]) owq = (r, G', orq', owq')" "\<not> HasFreeSlot (G p) \<or> owq = [] \<and> \<not> HasTaskToRun (G p)"
      using 1(5) by (auto split: if_splits)
    then show ?thesis
    proof cases
      case 2
      have "(G' = G \<and> mset orq' = mset (orq @ [p]) \<and> mset owq' = mset owq) \<or>
        (\<exists>pa w. pa \<in> set (orq @ [p]) \<and> w \<in> set owq \<and> r = Some w \<and> HasPendingTasks (G w) > 0 \<and>
          G' = set_limit 1 w (set_limit 0 pa G) \<and>
          mset orq' = add_mset w (mset (orq @ [p]) - {#pa#}) \<and> mset owq' = add_mset pa (mset owq - {#w#}))"
        using True 1(1-3) 2 by blast
      then show ?thesis by simp
    qed simp
  next
    case False
    obtain x owq1 where e: "wait_search G (length owq) owq = (x, owq1)" by fastforce
    note m = wait_search_mset[OF e]
    show ?thesis
    proof (cases x)
      case (Some w)
      then have "w \<in> set owq" using m by (metis mset.simps(2) option.simps(5) set_mset_mset union_single_eq_member union_commute add_mset_add_single)
      moreover have "G' = set_limit 1 w (set_limit 0 p G) \<and> r = Some w \<and> orq' = orq @ [w] \<and> owq' = owq1 @ [p]"
        using 1(5) False e Some by simp
      ultimately show ?thesis using m Some by (intro disjI2 exI[of _ p] exI[of _ w]) simp
    next
      case None
      show ?thesis
      proof (cases "HasTaskToRun (G p)")
        case True
        then have "r = Some p \<and> G' = G \<and> orq' = orq @ [p] \<and> owq' = owq1" using 1(5) False e None by simp
        then show ?thesis using m None by simp
      next
        case nt: False
        have c: "owq \<noteq> []" "\<not> \<not> HasFreeSlot (G p)" using False by auto
        have rec: "occ_inner j G (orq @ [p]) owq1 = (r, G', orq', owq')" using 1(5) False e None nt by simp
        from 1(4)[OF c e[symmetric] None nt rec] m None
        have "(G' = G \<and> mset orq' = mset (orq @ [p]) \<and> mset owq' = mset owq) \<or>
          (\<exists>pa w. pa \<in> set (orq @ [p]) \<and> w \<in> set owq1 \<and> r = Some w \<and> HasPendingTasks (G w) > 0 \<and>
            G' = set_limit 1 w (set_limit 0 pa G) \<and>
            mset orq' = add_mset w (mset (orq @ [p]) - {#pa#}) \<and> mset owq' = add_mset pa (mset owq - {#w#}))"
          by simp
        moreover have "set owq1 = set owq" using m None by (metis mset_eq_setD add.right_neutral option.simps(4))
        ultimately show ?thesis by simp
      qed
    qed
  qed
qed auto

lemma share_ok_swap:
  assumes "share_ok B G R W" "p \<in># R" "w \<in># W"
  shows "share_ok B (set_limit 1 w (set_limit 0 p G)) (add_mset w (R - {#p#})) (add_mset p (W - {#w#}))"
proof -
  let ?G = "set_limit 1 w (set_limit 0 p G)"
  obtain R0 W0 where RW: "R = add_mset p R0" "W = add_mset w W0" using assms(2,3) by (metis insert_DiffM)
  have c: "count (R + W) x \<le> 1" for x using assms(1) unfolding share_ok_def by blast
  have pw: "p \<noteq> w"
  proof
    assume "p = w"
    then show False using c[of w] RW by simp
  qed
  have n: "p \<noteq> w" "p \<notin># R0" "p \<notin># W0" "w \<notin># R0" "w \<notin># W0"
    using c[of p] c[of w] RW pw by (simp_all add: not_in_iff)
  have act: "active (G p)" "active (G w)" using assms unfolding share_ok_def by auto
  have G: "m_dwMaxRunning (?G p) = 0" "m_dwMaxRunning (?G w) = 1" "active (?G p)" "active (?G w)"
    using act n(1) by (simp_all add: set_limit_apply grp.limit_setl grp.act_setl)
  have off: "?G x = G x" if "x \<noteq> p" "x \<noteq> w" for x using that by (simp add: set_limit_apply)
  have "image_mset (\<lambda>x. m_dwMaxRunning (?G x)) R0 = image_mset (\<lambda>x. m_dwMaxRunning (G x)) R0"
    using n off by (intro image_mset_cong) metis
  moreover have "1 \<le> m_dwMaxRunning (G p)" "(\<Sum>x\<in>#R. m_dwMaxRunning (G x)) \<le> B" using assms unfolding share_ok_def by auto
  ultimately have "(\<Sum>x\<in>#add_mset w R0. m_dwMaxRunning (?G x)) \<le> B" using G(2) RW(1) by simp
  moreover have "add_mset w R0 + add_mset p W0 = R + W" using RW by simp
  then have "count (add_mset w R0 + add_mset p W0) x \<le> 1" for x using c[of x] by (simp only:)
  moreover have "active (?G x)" if "x \<in># add_mset w R0 + add_mset p W0" for x
    using that assms(1) G off[of x] RW unfolding share_ok_def by (cases "x = p \<or> x = w") auto
  moreover have "1 \<le> m_dwMaxRunning (?G x)" if "x \<in># add_mset w R0" for x
    using that assms(1) G off[of x] RW n unfolding share_ok_def by (cases "x = w"; cases "x = p") auto
  moreover have "m_dwMaxRunning (?G x) = 0" if "x \<in># add_mset p W0" for x
    using that assms(1) G off[of x] RW n unfolding share_ok_def by (cases "x = w"; cases "x = p") auto
  ultimately show ?thesis unfolding share_ok_def RW by simp
qed

lemma occ_inner_ok:
  assumes "que_ok G q" "occ_inner j G (m_plstReady q) (m_lstWaitSlot q) = (r, G', orq, owq)"
  shows "que_ok G' (q\<lparr>m_plstReady := orq, m_lstWaitSlot := owq\<rparr>) \<and> (\<forall>x. x \<notin># members q \<longrightarrow> G' x = G x)"
  using occ_inner_cases[OF assms(2)]
proof
  assume "\<exists>p w. p \<in> set (m_plstReady q) \<and> w \<in> set (m_lstWaitSlot q) \<and> r = Some w \<and> HasPendingTasks (G w) > 0 \<and>
      G' = set_limit 1 w (set_limit 0 p G) \<and>
      mset orq = add_mset w (mset (m_plstReady q) - {#p#}) \<and> mset owq = add_mset p (mset (m_lstWaitSlot q) - {#w#})"
  then obtain p w where pw: "p \<in> set (m_plstReady q)" "w \<in> set (m_lstWaitSlot q)" "G' = set_limit 1 w (set_limit 0 p G)"
    "mset orq = add_mset w (mset (m_plstReady q) - {#p#})" "mset owq = add_mset p (mset (m_lstWaitSlot q) - {#w#})" by blast
  then show ?thesis using assms(1) share_ok_swap[of "m_dwMaxSlots q" G "mset (m_plstReady q)" "mset (m_lstWaitSlot q)" p w]
    by (auto simp: que_ok_def members_def set_limit_apply)
next
  assume "G' = G \<and> mset orq = mset (m_plstReady q) \<and> mset owq = mset (m_lstWaitSlot q)"
  then show ?thesis using assms(1) by (simp add: que_ok_def)
qed

text \<open>All connections together.\<close>

definition sched_ok :: "sched \<Rightarrow> bool" where
  "sched_ok s \<longleftrightarrow> (\<forall>i q. m_mapConnQues s i = Some q \<longrightarrow> que_ok (m_grps s) q) \<and>
    (\<forall>i j. i \<noteq> j \<longrightarrow> set_mset (grps_of s i) \<inter> set_mset (grps_of s j) = {})"

lemma sched_ok_cong:
  "m_mapConnQues s' = m_mapConnQues s \<Longrightarrow> m_grps s' = m_grps s \<Longrightarrow> sched_ok s' = sched_ok s"
  by (simp add: sched_ok_def grps_of_def)

lemma sched_ok_put:
  assumes "sched_ok s" "que_ok G' q'" "\<forall>x. x \<notin># members q' \<longrightarrow> x \<notin># grps_of s i \<longrightarrow> G' x = m_grps s x"
    "\<forall>j. j \<noteq> i \<longrightarrow> set_mset (members q') \<inter> set_mset (grps_of s j) = {}"
  shows "sched_ok (put_que i (G', q') s)"
proof -
  have q: "que_ok G' q2" if "m_mapConnQues s j = Some q2" "j \<noteq> i" for j q2
  proof (rule que_ok_cong[of "m_grps s"])
    show "que_ok (m_grps s) q2" using assms(1) that(1) by (simp add: sched_ok_def)
    fix p assume p: "p \<in># members q2"
    then have "p \<in># grps_of s j" using grps_of_lookup[OF that(1)] by simp
    moreover from this have "p \<notin># members q'" "p \<notin># grps_of s i" using assms(1,4) that(2) unfolding sched_ok_def by blast+
    ultimately have "G' p = m_grps s p" using assms(3) by blast
    then show "active (G' p) = active (m_grps s p) \<and> m_dwMaxRunning (G' p) = m_dwMaxRunning (m_grps s p)" by simp
  qed
  have "set_mset (grps_of (put_que i (G', q') s) a) \<inter> set_mset (grps_of (put_que i (G', q') s) b) = {}" if "a \<noteq> b" for a b
    using assms(1,4) that unfolding sched_ok_def by (cases "a = i"; cases "b = i") (simp_all add: Int_commute)
  then show ?thesis using q assms(2) by (auto simp: sched_ok_def put_que_def)
qed

lemma sched_ok_conn:
  assumes "sched_ok s" "m_mapConnQues s i = Some q"
  shows "que_ok (m_grps s) q" "grps_of s i = members q" "j \<noteq> i \<Longrightarrow> set_mset (members q) \<inter> set_mset (grps_of s j) = {}"
proof -
  show "que_ok (m_grps s) q" using assms by (simp add: sched_ok_def)
  show g: "grps_of s i = members q" by (rule grps_of_lookup[OF assms(2)])
  show "set_mset (members q) \<inter> set_mset (grps_of s j) = {}" if "j \<noteq> i"
    using assms(1) that unfolding sched_ok_def g[symmetric] by blast
qed

lemma AAR_ok: "sched_ok s \<Longrightarrow> GetNextTaskGrpAAR s = (ret, r, s') \<Longrightarrow> sched_ok s'"
proof (cases rule: aar_cases[of s])
  case (serve as i bs q xs p ys)
  assume ok: "sched_ok s" and ret: "GetNextTaskGrpAAR s = (ret, r, s')"
  let ?q = "q\<lparr>m_plstReady := ys @ xs @ [p]\<rparr>"
  have m: "members ?q = members q" using serve(5) by (simp add: members_def)
  have "que_ok (m_grps s) ?q" using sched_ok_conn(1)[OF ok serve(4)] serve(5) by (simp add: que_ok_def add.commute)
  then have "sched_ok (put_que i (m_grps s, ?q) s)"
    using sched_ok_conn(3)[OF ok serve(4)] m by (intro sched_ok_put[OF ok]) auto
  moreover have s': "s' = s\<lparr>m_lstConns := bs @ as @ [i], m_mapConnQues := (m_mapConnQues s)(i \<mapsto> ?q)\<rparr>" using ret serve(8) by simp
  have "sched_ok s' = sched_ok (put_que i (m_grps s, ?q) s)" by (rule sched_ok_cong) (simp_all add: s' put_que_def)
  ultimately show ?thesis by simp
qed simp

lemma occ_outer_ok: "sched_ok s \<Longrightarrow> occ_outer n s = (r, s') \<Longrightarrow> sched_ok s'"
proof (induction n arbitrary: s)
  case (Suc n)
  define s1 where "s1 = s\<lparr>m_lstConns := rotate1 (m_lstConns s)\<rparr>"
  have s1: "sched_ok s1" using Suc.prems(1) sched_ok_cong[of s1 s] by (simp add: s1_def)
  let ?i = "hd (m_lstConns s)"
  show ?case
  proof (cases "?i = m_pSchedMgr s1 \<or> m_mapConnQues s1 ?i = None")
    case True
    then have "occ_outer n s1 = (r, s')" using Suc.prems(2)
      by (cases "?i = m_pSchedMgr s1") (simp_all add: Let_def s1_def[symmetric])
    then show ?thesis using Suc.IH[OF s1] by simp
  next
    case False
    then obtain q where q: "m_mapConnQues s1 ?i = Some q" by auto
    obtain x G orq owq where e: "occ_inner (length (m_plstReady q)) (m_grps s1) (m_plstReady q) (m_lstWaitSlot q) = (x, G, orq, owq)"
      by (metis prod_cases4)
    let ?q = "q\<lparr>m_plstReady := orq, m_lstWaitSlot := owq\<rparr>"
    let ?s2 = "put_que ?i (G, ?q) s1"
    have m: "members ?q = members q" using occ_inner_mset[OF e] by (simp add: members_def add.commute)
    note C = sched_ok_conn[OF s1 q]
    have "sched_ok ?s2" using occ_inner_ok[OF C(1) e] C(2,3) m by (intro sched_ok_put[OF s1]) simp_all
    moreover have "s' = ?s2 \<or> occ_outer n ?s2 = (r, s')"
      using Suc.prems(2) False q e by (auto simp: Let_def s1_def[symmetric] split: if_splits)
    ultimately show ?thesis using Suc.IH by auto
  qed
qed simp

lemma GetNextTaskGrp_ok:
  assumes "sched_ok s" "GetNextTaskGrp h s = Inr (ret, r, s')"
  shows "sched_ok s'"
proof -
  have O: "sched_ok s'" if occ: "GetNextTaskGrpOCC s = Inr (ret, r, s')"
  proof -
    obtain s2 where s2: "occ_start s = Inr s2" using occ by (auto simp: GetNextTaskGrpOCC_def split: sum.splits)
    then have "occ_outer (length (m_lstConns s2)) s2 = (r, s')"
      using occ by (auto simp: GetNextTaskGrpOCC_def split: prod.splits)
    moreover have "sched_ok s2" using assms(1) sched_ok_cong[of s2 s] occ_start_frame[OF s2] by simp
    ultimately show ?thesis using occ_outer_ok by blast
  qed
  show ?thesis using assms AAR_ok[OF assms(1)] O by (auto simp: GetNextTaskGrp_def split: if_splits)
qed

lemma RemoveTaskGrp_ok:
  assumes "sched_ok s" "RemoveTaskGrp p s = (ret, s')"
  shows "sched_ok s'"
proof (cases "conn_of s p")
  case None
  then have "s' = s" using assms(2) by (auto simp: RemoveTaskGrp_def conn_of_def split: option.splits)
  then show ?thesis using assms(1) by simp
next
  case (Some i)
  then obtain port where port: "m_dwPrxyPortId (m_grps s p) = Some port" "m_mapId2If s port = Some i"
    by (auto simp: conn_of_def split: option.splits)
  define q where "q = (case m_mapConnQues s i of None \<Rightarrow> CONNQUE_ELEM_init | Some q \<Rightarrow> q)"
  have mem: "members q = grps_of s i" unfolding q_def by (rule que_of_members)
  have ok: "que_ok (m_grps s) q"
    using assms(1) by (auto simp: q_def que_ok_def share_ok_def CONNQUE_ELEM_init_def sched_ok_def split: option.split)
  have dis: "\<forall>j. j \<noteq> i \<longrightarrow> set_mset (members q) \<inter> set_mset (grps_of s j) = {}"
    using assms(1) unfolding sched_ok_def mem by blast
  have put: "sched_ok (put_que i (G', q') s)"
    if "que_ok G' q'" "members q' \<subseteq># members q" "\<forall>x. x \<notin># members q \<longrightarrow> G' x = m_grps s x" for G' q'
  proof (rule sched_ok_put[OF assms(1) that(1)])
    show "\<forall>x. x \<notin># members q' \<longrightarrow> x \<notin># grps_of s i \<longrightarrow> G' x = m_grps s x" using that(3) mem by simp
    show "\<forall>j. j \<noteq> i \<longrightarrow> set_mset (members q') \<inter> set_mset (grps_of s j) = {}"
      using dis set_mset_mono[OF that(2)] by blast
  qed
  consider (wait) "s' = put_que i (m_grps s, q\<lparr>m_lstWaitSlot := remove1 p (m_lstWaitSlot q)\<rparr>) s"
    | (none) "s' = put_que i (m_grps s, q) s"
    | (ready) "p \<in> set (m_plstReady q)"
      "\<exists>x. s' = (put_que i (release_slots (m_grps s, q\<lparr>m_plstReady := remove1 p (m_plstReady q)\<rparr>)) s)\<lparr>m_lstResched := x\<rparr>"
  proof -
    let ?s1 = "put_que i (release_slots (m_grps s, q\<lparr>m_plstReady := remove1 p (m_plstReady q)\<rparr>)) s"
    have "\<exists>x. ?s1 = ?s1\<lparr>m_lstResched := x\<rparr>" by (rule exI[of _ "m_lstResched ?s1"]) simp
    then show thesis using wait none ready assms(2) port
      by (auto simp: RemoveTaskGrp_def q_def[symmetric] Let_def split: if_splits)
  qed
  then show ?thesis
  proof cases
    case wait
    show ?thesis unfolding wait by (rule put[OF remove_wait_ok[OF ok]]) (simp_all add: members_def)
  next
    case none
    show ?thesis unfolding none by (rule put[OF ok]) simp_all
  next
    case ready
    let ?q = "q\<lparr>m_plstReady := remove1 p (m_plstReady q)\<rparr>"
    obtain G' q' where e: "release_slots (m_grps s, ?q) = (G', q')" by (cases "release_slots (m_grps s, ?q)")
    have "members q' = members ?q" using release_slots_groups[of "(m_grps s, ?q)"] e by (simp add: same_groups_def)
    then have "members q' \<subseteq># members q" by (simp add: members_def)
    then have "sched_ok (put_que i (G', q') s)" using remove_grp_ok[OF ok ready(1) e] by (intro put) simp_all
    moreover obtain x where "s' = (put_que i (G', q') s)\<lparr>m_lstResched := x\<rparr>" using ready(2) e by auto
    ultimately show ?thesis using sched_ok_cong[of s' "put_que i (G', q') s"] by simp
  qed
qed

lemma SetSlotCount_empty:
  assumes "m_mapConnQues s i = Some CONNQUE_ELEM_init" "SetSlotCount (Some i) n s = (ret, ks, s')"
  shows "m_grps s' = m_grps s \<and> m_mapConnQues s' = (m_mapConnQues s)(i \<mapsto> CONNQUE_ELEM_init\<lparr>m_dwMaxSlots := n\<rparr>)"
proof -
  have e: "GetTaskGrpCount CONNQUE_ELEM_init = 0" by (simp add: GetTaskGrpCount_def CONNQUE_ELEM_init_def)
  then have "IncSlotCount k (m_grps s, CONNQUE_ELEM_init) = (m_grps s, CONNQUE_ELEM_init)"
    "DecSlotCount k (m_grps s, CONNQUE_ELEM_init) = ([], m_grps s, CONNQUE_ELEM_init)" for k
    by (simp_all add: IncSlotCount_def DecSlotCount_def ResetSlotCountAlloc_def)
  moreover have "n = m_dwMaxSlots CONNQUE_ELEM_init \<Longrightarrow> CONNQUE_ELEM_init\<lparr>m_dwMaxSlots := n\<rparr> = CONNQUE_ELEM_init"
    by simp
  ultimately show ?thesis using assms by (auto simp: SetSlotCount_def put_que_def fun_upd_idem_iff split: if_splits)
qed

lemma AddConn_store:
  assumes "AddConn env pIf s = (ret, ks, s')" "m_mapConnQues s pIf = None"
  shows "s' = s \<or> m_grps s' = m_grps s \<and> (\<exists>n. m_mapConnQues s' = (m_mapConnQues s)(pIf \<mapsto> CONNQUE_ELEM_init\<lparr>m_dwMaxSlots := n\<rparr>))"
proof (cases "s' = s \<and> ks = []")
  case False
  then obtain port lim where s1: "SetSlotCount (Some pIf) lim (s\<lparr>m_lstConns := m_lstConns s @ [pIf],
      m_mapConnQues := (m_mapConnQues s)(pIf \<mapsto> CONNQUE_ELEM_init), m_mapId2If := (m_mapId2If s)(port \<mapsto> pIf)\<rparr>) = (ret, ks, s')"
    using assms by (auto simp: AddConn_def Let_def split: sum.splits if_splits prod.splits)
  then show ?thesis using SetSlotCount_empty[OF _ s1] by auto
qed simp

lemma AddConn_ok:
  assumes "sched_ok s" "AddConn env pIf s = (ret, ks, s')" "m_mapConnQues s pIf = None"
  shows "sched_ok s' \<and> grps_of s' = grps_of s \<and> m_grps s' = m_grps s"
  using AddConn_store[OF assms(2,3)]
proof
  assume "m_grps s' = m_grps s \<and> (\<exists>n. m_mapConnQues s' = (m_mapConnQues s)(pIf \<mapsto> CONNQUE_ELEM_init\<lparr>m_dwMaxSlots := n\<rparr>))"
  then obtain n where s': "m_grps s' = m_grps s" "m_mapConnQues s' = (m_mapConnQues s)(pIf \<mapsto> CONNQUE_ELEM_init\<lparr>m_dwMaxSlots := n\<rparr>)"
    by blast
  let ?q = "CONNQUE_ELEM_init\<lparr>m_dwMaxSlots := n\<rparr>"
  have e: "members ?q = {#}" "que_ok (m_grps s) ?q"
    by (simp_all add: members_def CONNQUE_ELEM_init_def que_ok_def share_ok_def)
  have "sched_ok (put_que pIf (m_grps s, ?q) s)" by (rule sched_ok_put[OF assms(1) e(2)]) (simp_all add: e(1))
  then have "sched_ok s'" using sched_ok_cong[of s' "put_que pIf (m_grps s, ?q) s"] s' by (simp add: put_que_def)
  moreover have "grps_of s' = grps_of s" using s'(2) e(1) assms(3) by (auto simp: grps_of_def fun_eq_iff)
  ultimately show ?thesis using s' by simp
qed (use assms in simp)

lemma AddTaskGrp_ok:
  assumes "sched_ok s" "\<forall>i. p \<notin># grps_of s i" "active (m_grps s p)" "m_dwMaxRunning (m_grps s p) = 0"
    "AddTaskGrp env pIf p s = (ret, ks, s')"
  shows "sched_ok s'"
proof (cases "pIf = m_pSchedMgr s")
  case True
  then show ?thesis using assms(1,5) by (simp add: AddTaskGrp_def)
next
  case False
  obtain ret1 k1 s1 where a: "(if m_mapConnQues s pIf = None then AddConn env pIf s else (0, [], s)) = (ret1, k1, s1)"
    by (metis prod_cases3)
  have s1: "sched_ok s1 \<and> grps_of s1 = grps_of s \<and> m_grps s1 = m_grps s"
    using a AddConn_ok[OF assms(1)] assms(1) by (cases "m_mapConnQues s pIf = None") auto
  show ?thesis
  proof (cases "ERROR ret1 \<or> m_mapConnQues s1 pIf = None")
    case True
    then have "s' = s1" using assms(5) a False by (auto simp: AddTaskGrp_def split: if_splits)
    then show ?thesis using s1 by simp
  next
    case nf: False
    then obtain q where q: "m_mapConnQues s1 pIf = Some q" by auto
    obtain vt G' q' where e: "AddTaskGrp_que p (m_grps s1, q) = (vt, G', q')"
      by (metis prod_cases3)
    then have s': "s' = put_que pIf (G', q') s1" using assms(5) a False nf q by (auto simp: AddTaskGrp_def)
    note C = sched_ok_conn[OF conjunct1[OF s1] q]
    have "p \<notin># members q" using assms(2) s1 C(2) by metis
    then have Q: "que_ok G' q'" "members q' = add_mset p (members q)" "\<forall>x. x \<notin># members q' \<longrightarrow> G' x = m_grps s1 x"
      using AddTaskGrp_que_ok[OF C(1) _ _ _ e] assms(3,4) s1 by simp_all
    have "\<forall>j. j \<noteq> pIf \<longrightarrow> set_mset (members q') \<inter> set_mset (grps_of s1 j) = {}"
      using C(3) assms(2) s1 unfolding Q(2) by auto
    then show ?thesis unfolding s' using Q by (intro sched_ok_put) (use s1 in auto)
  qed
qed

section \<open>Sharing among all groups\<close>

text \<open>Giving every group of a connection the same limit, waiting ones included, is the equal share over all of them.\<close>

lemma set_limits_waiting:
  assumes "distinct ws" "\<forall>w\<in>set ws. m_dwMaxRunning (H w) \<noteq> n"
  shows "fold (set_limit n) ws H = fold (\<lambda>p G. if m_dwMaxRunning (G p) = n then G else G(p := set_max n (G p))) ws H"
  using assms
proof (induction ws arbitrary: H)
  case (Cons w ws)
  define H' where "H' = H(w := set_max n (H w))"
  have s: "set_limit n w H = H'" by (simp add: set_limit_def H'_def)
  have "\<forall>x\<in>set ws. m_dwMaxRunning (H' x) \<noteq> n" using Cons.prems by (auto simp: H'_def)
  from Cons.IH[OF _ this] show ?case using Cons.prems s by (simp flip: H'_def)
qed simp

lemma SetLimitGrps_all:
  assumes "0 < n" "share_ok B G (mset (m_plstReady q)) (mset (m_lstWaitSlot q))"
  shows "SetLimitGrps n (G, q) = SetLimitRunningGrps n (G, q\<lparr>m_plstReady := m_plstReady q @ m_lstWaitSlot q, m_lstWaitSlot := []\<rparr>)"
proof -
  let ?f = "\<lambda>p G. if m_dwMaxRunning (G p) = n then G else G(p := set_max n (G p))"
  have d: "distinct (m_plstReady q @ m_lstWaitSlot q)" by (rule share_ok_distinct[OF assms(2)])
  have "fold ?f (m_plstReady q) G w = G w" if "w \<in> set (m_lstWaitSlot q)" for w
    by (rule grp.fold_other) (use that d in auto)
  hence "\<forall>w\<in>set (m_lstWaitSlot q). m_dwMaxRunning (fold ?f (m_plstReady q) G w) \<noteq> n" using assms by (simp add: share_ok_def)
  from set_limits_waiting[OF _ this] show ?thesis using d assms(1) by (simp add: SetLimitGrps_def SetLimitRunningGrps_pos Let_def)
qed

lemma share_all_ok:
  assumes "0 < n" "share_ok B G (mset (m_plstReady q)) (mset (m_lstWaitSlot q))" "m_plstNextSched q = []"
    "n * GetTaskGrpCount q + m \<le> C" "IncRunningGrps m (SetLimitGrps n (G, q)) = (G', q')"
  shows "share_ok C G' (mset (m_plstReady q')) (mset (m_lstWaitSlot q'))" "\<forall>x. x \<notin># members q \<longrightarrow> G' x = G x"
proof -
  let ?q = "q\<lparr>m_plstReady := m_plstReady q @ m_lstWaitSlot q, m_lstWaitSlot := []\<rparr>"
  have d: "distinct (m_plstReady ?q)" and a: "\<forall>p\<in>set (m_plstReady ?q). active (G p)"
    using share_ok_distinct[OF assms(2)] assms(2) by (simp, auto simp: share_ok_def)
  have e: "IncRunningGrps m (SetLimitRunningGrps n (G, ?q)) = (G', q')" using assms(5) SetLimitGrps_all[OF assms(1,2)] by simp
  note S = share_equally[OF d a assms(1) e]
  have "n * length (m_plstReady ?q) + m \<le> C" using assms(3,4) by (simp add: GetTaskGrpCount_def add.commute)
  hence sum: "(\<Sum>x\<in>#mset (m_plstReady ?q). m_dwMaxRunning (G' x)) \<le> C" using S(2) by linarith
  have c: "count (mset (m_plstReady ?q)) p \<le> 1" for p using d by (metis distinct_count_atmost_1 le_refl zero_le_one)
  show "share_ok C G' (mset (m_plstReady q')) (mset (m_lstWaitSlot q'))"
    unfolding S(1) share_ok_def using sum c S(3) by auto
  show "\<forall>x. x \<notin># members q \<longrightarrow> G' x = G x" using S(4) by (auto simp: members_def)
qed

text \<open>Granting one slot each to some waiting groups.\<close>

lemma grant_each:
  "share_ok B G R (mset ws + W) \<Longrightarrow> (\<Sum>p\<in>#R. m_dwMaxRunning (G p)) + length ws \<le> B \<Longrightarrow>
   share_ok B (fold (set_limit 1) ws G) (mset ws + R) W \<and> (\<forall>x. x \<notin> set ws \<longrightarrow> fold (set_limit 1) ws G x = G x)"
proof (induction ws arbitrary: G R)
  case (Cons w ws)
  let ?G = "set_limit 1 w G"
  have act: "active (G w)" using Cons.prems(1) by (simp add: share_ok_def)
  have one: "active (?G w)" "m_dwMaxRunning (?G w) = 1"
    using act by (simp_all add: set_limit_apply grp.act_setl grp.limit_setl)
  have lt: "(\<Sum>p\<in>#R. m_dwMaxRunning (G p)) < B" using Cons.prems(2) by simp
  have sh: "share_ok B G R (add_mset w (mset ws + W))" using Cons.prems(1) by simp
  have g: "share_ok B ?G (add_mset w R) (mset ws + W)"
    by (rule share_ok_grant[where G' = ?G, OF sh lt one]) (simp add: set_limit_apply)
  have "count (R + add_mset w (mset ws + W)) w \<le> 1" using sh unfolding share_ok_def by blast
  hence "w \<notin># R" by (simp add: not_in_iff)
  hence "image_mset (\<lambda>p. m_dwMaxRunning (?G p)) R = image_mset (\<lambda>p. m_dwMaxRunning (G p)) R"
    by (intro image_mset_cong) (auto simp: set_limit_apply)
  hence "(\<Sum>p\<in>#add_mset w R. m_dwMaxRunning (?G p)) + length ws \<le> B" using Cons.prems(2) one(2) by simp
  from Cons.IH[OF g this] show ?case by (auto simp: set_limit_apply)
qed simp

lemma IncWaitingGrp_ok:
  assumes "share_ok B G (mset (m_plstReady q)) (mset (m_lstWaitSlot q))"
    "(\<Sum>p\<in>#mset (m_plstReady q). m_dwMaxRunning (G p)) + k \<le> C" "IncWaitingGrp k (G, q) = (G', q')"
  shows "share_ok C G' (mset (m_plstReady q')) (mset (m_lstWaitSlot q'))" "\<forall>x. x \<notin># members q \<longrightarrow> G' x = G x"
proof -
  have C: "share_ok C G (mset (m_plstReady q)) (mset (m_lstWaitSlot q))" using assms(1,2) by (simp add: share_ok_def)
  obtain sel rest where e: "take_pending G (min k (length (m_lstWaitSlot q))) (m_lstWaitSlot q) = (sel, rest)" by fastforce
  define ws where "ws = sel @ take (k - length sel) rest"
  define W where "W = mset (drop (k - length sel) rest)"
  have len: "length sel \<le> k" "mset sel + mset rest = mset (m_lstWaitSlot q)" using take_pending_mset[OF e] by auto
  have "mset rest = mset (take (k - length sel) rest) + W" unfolding W_def by (metis append_take_drop_id mset_append)
  hence m: "mset (m_lstWaitSlot q) = mset ws + W" using len(2) by (simp add: ws_def add.assoc)
  have "length ws \<le> k" using len(1) by (simp add: ws_def)
  hence le: "(\<Sum>p\<in>#mset (m_plstReady q). m_dwMaxRunning (G p)) + length ws \<le> C" using assms(2) by linarith
  note g = grant_each[OF C[unfolded m] le]
  have eq: "k = 0 \<and> G' = G \<and> q' = q \<or> G' = fold (set_limit 1) ws G \<and> mset (m_plstReady q') = mset ws + mset (m_plstReady q) \<and>
      mset (m_lstWaitSlot q') = W"
    using assms(3) e by (auto simp: IncWaitingGrp_def ws_def W_def Let_def split: if_splits)
  show "share_ok C G' (mset (m_plstReady q')) (mset (m_lstWaitSlot q'))" using eq g C by auto
  have "x \<notin> set ws" if "x \<notin># members q" for x
  proof -
    have "set ws \<subseteq> set_mset (mset (m_lstWaitSlot q))" unfolding m by simp
    thus ?thesis using that by (auto simp: members_def)
  qed
  thus "\<forall>x. x \<notin># members q \<longrightarrow> G' x = G x" using eq g by auto
qed

lemma take_all_slots:
  assumes "share_ok B G (mset (m_plstReady q)) (mset (m_lstWaitSlot q))" "SetLimitGrps 0 (G, q) = (G', q')"
  shows "share_ok 0 G' (mset (m_plstReady q')) (mset (m_lstWaitSlot q'))" "m_plstReady q' = []" "members q' = members q"
    "\<forall>x. x \<notin># members q \<longrightarrow> G' x = G x"
proof -
  let ?f = "\<lambda>p G. if m_dwMaxRunning (G p) = 0 then G else G(p := set_max 0 (G p))"
  have e: "G' = fold ?f (m_plstReady q) G" "q' = (if m_plstReady q = [] then q else
      q\<lparr>m_lstWaitSlot := m_plstReady q @ m_lstWaitSlot q, m_plstReady := []\<rparr>)"
    using assms(2) unfolding SetLimitGrps_def SetLimitRunningGrps_def set_limit_def by (auto split: if_splits)
  have d: "distinct (m_plstReady q @ m_lstWaitSlot q)" by (rule share_ok_distinct[OF assms(1)])
  have a: "\<forall>p\<in>set (m_plstReady q). active (G p)" using assms(1) by (auto simp: share_ok_def)
  have act: "active (G' p) = active (G p)" for p unfolding e(1)
    by (rule grp.fold_act[where c = "\<lambda>p G. m_dwMaxRunning (G p) = 0" and f = "\<lambda>p G. 0"])
  have r: "m_dwMaxRunning (G' p) = 0" if "p \<in> set (m_plstReady q)" for p
    using grp.fold_same[OF _ a that, of 0] d unfolding e(1) by simp
  have w: "G' p = G p" if "p \<notin> set (m_plstReady q)" for p unfolding e(1) by (rule grp.fold_other[OF that])
  show R: "m_plstReady q' = []" and M: "members q' = members q" using e(2) by (auto simp: members_def)
  have W: "mset (m_lstWaitSlot q') = mset (m_plstReady q) + mset (m_lstWaitSlot q)" using e(2) by auto
  have c: "count (mset (m_plstReady q) + mset (m_lstWaitSlot q)) p \<le> 1" for p using assms(1) unfolding share_ok_def by blast
  have z: "m_dwMaxRunning (G' p) = 0" if "p \<in># mset (m_plstReady q) + mset (m_lstWaitSlot q)" for p
    using that r[of p] w[of p] assms(1) by (cases "p \<in> set (m_plstReady q)") (auto simp: share_ok_def)
  show "share_ok 0 G' (mset (m_plstReady q')) (mset (m_lstWaitSlot q'))"
    unfolding R W share_ok_def using c z act assms(1) by (auto simp: share_ok_def)
  show "\<forall>x. x \<notin># members q \<longrightarrow> G' x = G x" using w by (auto simp: members_def)
qed

section \<open>Changing the number of slots\<close>

text \<open>Sharing anew what a connection has, and taking slots away, keep within the new number of slots. The first one does so only under a condition: when
  there are fewer slots than groups, the slots that exceed the number of ready groups go to waiting groups, although a ready group may have several.\<close>

definition reshare_fits :: "grp_store \<Rightarrow> connque \<Rightarrow> bool" where
  "reshare_fits G q \<longleftrightarrow> m_dwMaxSlots q < 2 ^ 32 \<and> (GetTaskGrpCount q \<le> m_dwMaxSlots q \<or> (\<forall>p\<in>set (m_plstReady q). m_dwMaxRunning (G p) \<le> 1))"

lemma share_ok_mono: "share_ok B G R W \<Longrightarrow> B \<le> C \<Longrightarrow> share_ok C G R W"
  by (simp add: share_ok_def)

lemma even_split: "(a::nat) div n * n + (a - a div n * n) = a"
  using div_times_less_eq_dividend[of a n] by (simp only: le_add_diff_inverse)

lemma que_ok_after:
  assumes "same_groups q q'" "share_ok (m_dwMaxSlots q) G' (mset (m_plstReady q')) (mset (m_lstWaitSlot q'))" "m_plstNextSched q = []"
  shows "que_ok G' q' \<and> members q' = members q"
  using assms by (simp add: same_groups_def que_ok_def)

lemma ResetSlotCountRelease_ok:
  assumes "que_ok G q" "reshare_fits G q" "ResetSlotCountRelease 0 (G, q) = (G', q')"
  shows "que_ok G' q' \<and> members q' = members q \<and> (\<forall>x. x \<notin># members q \<longrightarrow> G' x = G x)"
proof -
  let ?n = "GetTaskGrpCount q" and ?B = "m_dwMaxSlots q"
  have sh: "share_ok ?B G (mset (m_plstReady q)) (mset (m_lstWaitSlot q))" "m_plstNextSched q = []"
    using assms(1) by (simp_all add: que_ok_def)
  have sg: "same_groups q q'" using ResetSlotCountRelease_groups[of "(G, q)" 0] assms(3) by simp
  have N: "u32_add ?B 0 = ?B" using assms(2) by (simp add: u32_add_def reshare_fits_def)
  consider (same) "G' = G" "q' = q"
    | (wait) "?B div ?n = 0" "0 < ?n" "length (m_plstReady q) < ?B" "IncWaitingGrp (?B - length (m_plstReady q)) (G, q) = (G', q')"
    | (share) "0 < ?B div ?n" "IncRunningGrps (?B - ?B div ?n * ?n) (SetLimitGrps (?B div ?n) (G, q)) = (G', q')"
    using assms(3) N by (auto simp: ResetSlotCountRelease_def Let_def split: if_splits)
  thus ?thesis
  proof cases
    case same
    thus ?thesis using assms(1) by simp
  next
    case wait
    have "?B < ?n" using wait(1,2) by (simp add: div_eq_0_iff)
    hence "\<forall>p\<in>set (m_plstReady q). m_dwMaxRunning (G p) \<le> 1" using assms(2) by (simp add: reshare_fits_def)
    hence "(\<Sum>p\<in>#mset (m_plstReady q). m_dwMaxRunning (G p)) \<le> (\<Sum>p\<in>#mset (m_plstReady q). 1)"
      by (intro sum_mset_mono) simp
    hence "(\<Sum>p\<in>#mset (m_plstReady q). m_dwMaxRunning (G p)) + (?B - length (m_plstReady q)) \<le> ?B"
      using wait(3) by simp
    note I = IncWaitingGrp_ok[OF sh(1) this wait(4)]
    show ?thesis using que_ok_after[OF sg I(1) sh(2)] I(2) by simp
  next
    case share
    have "?B div ?n * ?n + (?B - ?B div ?n * ?n) \<le> ?B" using even_split[of ?B ?n] by simp
    note I = share_all_ok[OF share(1) sh this share(2)]
    show ?thesis using que_ok_after[OF sg I(1) sh(2)] I(2) by simp
  qed
qed

lemma ResetSlotCountAlloc_ok:
  assumes "que_ok G q" "d \<le> m_dwMaxSlots q" "ResetSlotCountAlloc d (G, q) = (ks, G', q')"
  shows "share_ok (m_dwMaxSlots q) G' (mset (m_plstReady q')) (mset (m_lstWaitSlot q'))" "\<forall>x. x \<notin># members q \<longrightarrow> G' x = G x"
proof -
  let ?n = "GetTaskGrpCount q" and ?N = "u32_sub (m_dwMaxSlots q) d"
  have sh: "share_ok (m_dwMaxSlots q) G (mset (m_plstReady q)) (mset (m_lstWaitSlot q))" "m_plstNextSched q = []"
    using assms(1) by (simp_all add: que_ok_def)
  have "int (m_dwMaxSlots q) - int d \<le> int (m_dwMaxSlots q)" "0 \<le> int (m_dwMaxSlots q) - int d" using assms(2) by simp_all
  hence "(int (m_dwMaxSlots q) - int d) mod 2 ^ 32 \<le> int (m_dwMaxSlots q)" using zmod_le_nonneg_dividend order_trans by blast
  hence N: "?N \<le> m_dwMaxSlots q" unfolding u32_sub_def by linarith
  consider (same) "?n = 0" "G' = G" "q' = q"
    | (zero) "?N div ?n = 0" "0 < ?n" "IncWaitingGrp (?N - ?N div ?n * ?n) (SetLimitGrps 0 (G, q)) = (G', q')"
    | (share) "0 < ?N div ?n" "IncRunningGrps (?N - ?N div ?n * ?n) (SetLimitGrps (?N div ?n) (G, q)) = (G', q')"
    using assms(3) by (auto simp: ResetSlotCountAlloc_def Let_def split: if_splits)
  hence "share_ok (m_dwMaxSlots q) G' (mset (m_plstReady q')) (mset (m_lstWaitSlot q')) \<and> (\<forall>x. x \<notin># members q \<longrightarrow> G' x = G x)"
  proof cases
    case same
    thus ?thesis using sh by simp
  next
    case zero
    obtain G1 q1 where e: "SetLimitGrps 0 (G, q) = (G1, q1)" by fastforce
    note T = take_all_slots[OF sh(1) e]
    have "(\<Sum>p\<in>#mset (m_plstReady q1). m_dwMaxRunning (G1 p)) + (?N - ?N div ?n * ?n) \<le> m_dwMaxSlots q" using T(2) N by simp
    note I = IncWaitingGrp_ok[OF T(1) this, of G' q'] zero(3)[unfolded e]
    show ?thesis using I(1,2)[OF I(3)] T(3,4) by simp
  next
    case share
    have "?N div ?n * ?n + (?N - ?N div ?n * ?n) \<le> m_dwMaxSlots q" using even_split[of ?N ?n] N by simp
    from share_all_ok[OF share(1) sh this share(2)] show ?thesis by simp
  qed
  thus "share_ok (m_dwMaxSlots q) G' (mset (m_plstReady q')) (mset (m_lstWaitSlot q'))" "\<forall>x. x \<notin># members q \<longrightarrow> G' x = G x"
    by blast+
qed

text \<open>The changes of the number of slots that keep within it: of a connection without groups, or upwards to the double at most.\<close>

definition slots_fit :: "nat \<Rightarrow> nat \<Rightarrow> sched \<Rightarrow> bool" where
  "slots_fit i n s \<longleftrightarrow> (\<forall>q. m_mapConnQues s i = Some q \<longrightarrow> members q = {#} \<or> m_dwMaxSlots q \<le> n \<and> n \<le> 2 * m_dwMaxSlots q)"

lemma no_members: "members q = {#} \<longleftrightarrow> m_lstWaitSlot q = [] \<and> m_plstReady q = []"
  by (simp add: members_def)

lemma SetSlotCount_ok:
  assumes "sched_ok s" "slots_fit i n s" "SetSlotCount (Some i) n s = (ret, ks, s')"
  shows "sched_ok s'"
proof (cases "m_mapConnQues s i")
  case None
  thus ?thesis using assms by (simp add: SetSlotCount_def)
next
  case (Some q)
  note C = sched_ok_conn[OF assms(1) Some]
  have sh: "share_ok (m_dwMaxSlots q) (m_grps s) (mset (m_plstReady q)) (mset (m_lstWaitSlot q))" "m_plstNextSched q = []"
    using C(1) by (simp_all add: que_ok_def)
  have put: "sched_ok (put_que i (G', q'\<lparr>m_dwMaxSlots := n\<rparr>) s)"
    if h: "share_ok n G' (mset (m_plstReady q')) (mset (m_lstWaitSlot q'))" "same_groups q q'" "\<forall>x. x \<notin># members q \<longrightarrow> G' x = m_grps s x" for G' q'
  proof (rule sched_ok_put[OF assms(1)])
    have m: "members (q'\<lparr>m_dwMaxSlots := n\<rparr>) = members q" using h(2) by (simp add: same_groups_def members_def)
    show "que_ok G' (q'\<lparr>m_dwMaxSlots := n\<rparr>)" using h(1,2) sh(2) by (simp add: que_ok_def same_groups_def)
    show "\<forall>x. x \<notin># members (q'\<lparr>m_dwMaxSlots := n\<rparr>) \<longrightarrow> x \<notin># grps_of s i \<longrightarrow> G' x = m_grps s x" using h(3) C(2) by simp
    show "\<forall>j. j \<noteq> i \<longrightarrow> set_mset (members (q'\<lparr>m_dwMaxSlots := n\<rparr>)) \<inter> set_mset (grps_of s j) = {}" unfolding m using C(3) by blast
  qed
  show ?thesis
  proof (cases "members q = {#}")
    case True
    hence e: "GetTaskGrpCount q = 0" "m_plstReady q = []" "m_lstWaitSlot q = []" using sh(2) by (simp_all add: GetTaskGrpCount_def no_members)
    hence "IncSlotCount k (m_grps s, q) = (m_grps s, q)" "DecSlotCount k (m_grps s, q) = ([], m_grps s, q)" for k
      by (simp_all add: IncSlotCount_def DecSlotCount_def ResetSlotCountAlloc_def)
    hence "s' = s \<or> s' = put_que i (m_grps s, q\<lparr>m_dwMaxSlots := n\<rparr>) s" using assms(3) Some by (auto simp: SetSlotCount_def split: if_splits)
    moreover have "sched_ok (put_que i (m_grps s, q\<lparr>m_dwMaxSlots := n\<rparr>) s)" by (rule put) (use e sh in \<open>simp_all add: share_ok_def\<close>)
    ultimately show ?thesis using assms(1) by auto
  next
    case False
    hence n: "m_dwMaxSlots q \<le> n" "n - m_dwMaxSlots q \<le> m_dwMaxSlots q" using assms(2) Some by (auto simp: slots_fit_def)
    show ?thesis
    proof (cases "m_dwMaxSlots q = n")
      case True
      thus ?thesis using assms(1,3) Some by (simp add: SetSlotCount_def)
    next
      case ne: False
      obtain ks' G' q' where e: "ResetSlotCountAlloc (n - m_dwMaxSlots q) (m_grps s, q) = (ks', G', q')" by (metis prod_cases3)
      have s': "s' = put_que i (G', q'\<lparr>m_dwMaxSlots := n\<rparr>) s" using assms(3) Some ne n(1) e by (simp add: SetSlotCount_def DecSlotCount_def)
      have "same_groups q q'" using ResetSlotCountAlloc_groups[of "(m_grps s, q)" "n - m_dwMaxSlots q"] e by simp
      with ResetSlotCountAlloc_ok[OF C(1) n(2) e] n(1) show ?thesis unfolding s' by (intro put) (auto intro: share_ok_mono)
    qed
  qed
qed

text \<open>Removing a list of groups, and a connection.\<close>

lemma sched_ok_que:
  assumes "sched_ok s" "q = (case m_mapConnQues s i of None \<Rightarrow> CONNQUE_ELEM_init | Some q \<Rightarrow> q)" "que_ok G' q'" "members q' \<subseteq># members q"
    "\<forall>x. x \<notin># members q \<longrightarrow> G' x = m_grps s x"
  shows "sched_ok (put_que i (G', q') s)"
proof (rule sched_ok_put[OF assms(1,3)])
  have mem: "members q = grps_of s i" unfolding assms(2) by (rule que_of_members)
  show "\<forall>x. x \<notin># members q' \<longrightarrow> x \<notin># grps_of s i \<longrightarrow> G' x = m_grps s x" using assms(5) mem by simp
  have "\<forall>j. j \<noteq> i \<longrightarrow> set_mset (members q) \<inter> set_mset (grps_of s j) = {}" using assms(1) unfolding sched_ok_def mem by blast
  thus "\<forall>j. j \<noteq> i \<longrightarrow> set_mset (members q') \<inter> set_mset (grps_of s j) = {}" using set_mset_mono[OF assms(4)] by blast
qed

lemma que_less:
  assumes "que_ok G q" "mset rs \<subseteq># mset (m_plstReady q)" "mset ws \<subseteq># mset (m_lstWaitSlot q)"
  shows "que_ok G (q\<lparr>m_plstReady := rs, m_lstWaitSlot := ws\<rparr>)"
  using assms share_ok_less[OF _ assms(2,3), of "m_dwMaxSlots q" G] by (simp add: que_ok_def)

lemma erase_grp_ok:
  assumes "sched_ok s" "erase_grp p (s, S) = (s', S')"
  shows "sched_ok s' \<and> (distinct S \<longrightarrow> distinct S')"
proof (cases "conn_of s p")
  case None
  thus ?thesis using assms by (auto simp: erase_grp_def conn_of_def split: option.splits)
next
  case (Some i)
  then obtain port where port: "m_dwPrxyPortId (m_grps s p) = Some port" "m_mapId2If s port = Some i"
    by (auto simp: conn_of_def split: option.splits)
  define q where "q = (case m_mapConnQues s i of None \<Rightarrow> CONNQUE_ELEM_init | Some q \<Rightarrow> q)"
  have ok: "que_ok (m_grps s) q"
    using assms(1) by (auto simp: q_def que_ok_def share_ok_def CONNQUE_ELEM_init_def sched_ok_def split: option.split)
  have put: "sched_ok (put_que i (m_grps s, q\<lparr>m_plstReady := rs, m_lstWaitSlot := ws\<rparr>) s)"
    if "mset rs \<subseteq># mset (m_plstReady q)" "mset ws \<subseteq># mset (m_lstWaitSlot q)" for rs ws
    by (rule sched_ok_que[OF assms(1) q_def que_less[OF ok that]]) (use that in \<open>simp_all add: members_def subset_mset.add_mono\<close>)
  have same: "q\<lparr>m_plstReady := m_plstReady q, m_lstWaitSlot := ws\<rparr> = q\<lparr>m_lstWaitSlot := ws\<rparr>"
    "q\<lparr>m_plstReady := rs, m_lstWaitSlot := m_lstWaitSlot q\<rparr> = q\<lparr>m_plstReady := rs\<rparr>" for rs ws by simp_all
  have "sched_ok (put_que i (m_grps s, q\<lparr>m_lstWaitSlot := remove1 p (m_lstWaitSlot q)\<rparr>) s)"
    "sched_ok (put_que i (m_grps s, q\<lparr>m_plstReady := remove1 p (m_plstReady q)\<rparr>) s)" "sched_ok (put_que i (m_grps s, q) s)"
    using put[of "m_plstReady q" "remove1 p (m_lstWaitSlot q)"] put[of "remove1 p (m_plstReady q)" "m_lstWaitSlot q"]
      put[of "m_plstReady q" "m_lstWaitSlot q"] by (simp_all add: same)
  thus ?thesis using assms(2) port
    by (auto simp: erase_grp_def q_def[symmetric] Let_def distinct_insort split: if_splits)
qed

lemma fold_erase_ok:
  "sched_ok s \<Longrightarrow> distinct S \<Longrightarrow> fold erase_grp ps (s, S) = (s', S') \<Longrightarrow> sched_ok s' \<and> distinct S'"
proof (induction ps arbitrary: s S)
  case (Cons p ps)
  obtain s1 S1 where e: "erase_grp p (s, S) = (s1, S1)" by fastforce
  show ?case using Cons.IH[of s1 S1] erase_grp_ok[OF Cons.prems(1) e] Cons.prems(2,3) e by simp
qed simp

lemma reshare_conn_ok:
  assumes "sched_ok s" "\<And>q. m_mapConnQues s i = Some q \<Longrightarrow> reshare_fits (m_grps s) q"
  shows "sched_ok (reshare_conn i s) \<and> (\<forall>j. j \<noteq> i \<longrightarrow> m_mapConnQues (reshare_conn i s) j = m_mapConnQues s j) \<and>
    (\<forall>x. x \<notin># grps_of s i \<longrightarrow> m_grps (reshare_conn i s) x = m_grps s x)"
proof (cases "m_mapConnQues s i")
  case (Some q)
  note C = sched_ok_conn[OF assms(1) Some]
  obtain G' q' where e: "ResetSlotCountRelease 0 (m_grps s, q) = (G', q')" by fastforce
  note R = ResetSlotCountRelease_ok[OF C(1) assms(2)[OF Some] e]
  have "sched_ok (put_que i (G', q') s)" by (rule sched_ok_que[where q = q, OF assms(1)]) (use Some R in simp_all)
  moreover have "reshare_conn i s = s \<or> (\<exists>x. reshare_conn i s = (put_que i (G', q') s)\<lparr>m_lstResched := x\<rparr>)"
    using Some e by (auto simp: reshare_conn_def Let_def)
  ultimately show ?thesis using R C(2) assms(1) sched_ok_cong[of "reshare_conn i s" "put_que i (G', q') s"]
    by (auto simp: put_que_def)
qed (use assms(1) in \<open>simp add: reshare_conn_def\<close>)

lemma reshare_fits_cong:
  "(\<And>p. p \<in># members q \<Longrightarrow> G' p = G p) \<Longrightarrow> reshare_fits G q \<Longrightarrow> reshare_fits G' q"
  by (auto simp: reshare_fits_def members_def)

lemma fold_reshare_ok:
  "sched_ok s \<Longrightarrow> distinct is \<Longrightarrow> \<forall>i\<in>set is. \<forall>q. m_mapConnQues s i = Some q \<longrightarrow> reshare_fits (m_grps s) q \<Longrightarrow>
    sched_ok (fold reshare_conn is s)"
proof (induction "is" arbitrary: s)
  case (Cons i "is")
  have R: "sched_ok (reshare_conn i s)" "\<And>j. j \<noteq> i \<Longrightarrow> m_mapConnQues (reshare_conn i s) j = m_mapConnQues s j"
    "\<And>x. x \<notin># grps_of s i \<Longrightarrow> m_grps (reshare_conn i s) x = m_grps s x"
    using reshare_conn_ok[OF Cons.prems(1), of i] Cons.prems(3) by simp_all
  have "reshare_fits (m_grps (reshare_conn i s)) q" if j: "j \<in> set is" and q: "m_mapConnQues (reshare_conn i s) j = Some q" for j q
  proof -
    have ne: "j \<noteq> i" using j Cons.prems(2) by auto
    hence q': "m_mapConnQues s j = Some q" using R(2) q by simp
    have "p \<notin># grps_of s i" if "p \<in># members q" for p using sched_ok_conn(3)[OF Cons.prems(1) q', of i] ne that by auto
    thus ?thesis using reshare_fits_cong[of q "m_grps (reshare_conn i s)" "m_grps s"] R(3) Cons.prems(3) j q' by auto
  qed
  thus ?case using Cons.IH[OF R(1)] Cons.prems(2) by simp
qed simp

text \<open>The condition under which \<^verbatim>\<open>RemoveTaskGrps\<close> keeps the budget: after the groups are out of the queues, sharing anew fits in every connection that
  gets slots back.\<close>

definition removal_fits :: "nat list \<Rightarrow> sched \<Rightarrow> bool" where
  "removal_fits ps s \<longleftrightarrow> (let (s1, setIfs) = fold erase_grp ps (s, []) in
     \<forall>i\<in>set setIfs. \<forall>q. m_mapConnQues s1 i = Some q \<longrightarrow> reshare_fits (m_grps s1) q)"

lemma RemoveTaskGrps_ok:
  assumes "sched_ok s" "removal_fits ps s" "RemoveTaskGrps ps s = (ret, s')"
  shows "sched_ok s'"
proof -
  obtain s1 S where e: "fold erase_grp ps (s, []) = (s1, S)" by fastforce
  have "sched_ok s1 \<and> distinct S" by (rule fold_erase_ok[OF assms(1) _ e]) simp
  thus ?thesis using fold_reshare_ok[of s1 S] assms(2,3) e by (auto simp: RemoveTaskGrps_def removal_fits_def)
qed

lemma RemoveConn_ok:
  assumes "sched_ok s" "RemoveConn env pIf s = (ret, s')"
  shows "sched_ok s'"
proof -
  have "m_grps s' = m_grps s \<and> (m_mapConnQues s' = m_mapConnQues s \<or> m_mapConnQues s' = (m_mapConnQues s)(pIf := None))"
    using assms(2) by (auto simp: RemoveConn_def Let_def split: if_splits option.splits)
  thus ?thesis
  proof (elim conjE disjE)
    assume s': "m_grps s' = m_grps s" "m_mapConnQues s' = (m_mapConnQues s)(pIf := None)"
    have "grps_of s' = (grps_of s)(pIf := {#})" using s'(2) by (auto simp: grps_of_def fun_eq_iff)
    thus ?thesis using assms(1) s' by (auto simp: sched_ok_def)
  qed (use assms(1) sched_ok_cong[of s' s] in simp)
qed

section \<open>Steps of the scheduler\<close>

text \<open>What happens to a scheduler that is in use: connections come and go; groups without slots are added, as \<^verbatim>\<open>CreateGrpRfc\<close> makes them,
  and removed, one by one or as a list; the number of slots of a connection is set; the next group is asked for; tasks come and go in the groups. Two of
  these are steps under a condition only, \<open>slots_fit\<close> and \<open>removal_fits\<close>: without it they give out more slots than there are
  (\<open>set_slot_count_overcommits\<close>, \<open>remove_groups_overcommits\<close>).\<close>

inductive sched_step :: "sched_env \<Rightarrow> sched \<Rightarrow> sched \<Rightarrow> bool" for env where
  add: "\<forall>i. p \<notin># grps_of s i \<Longrightarrow> active (m_grps s p) \<Longrightarrow> m_dwMaxRunning (m_grps s p) = 0 \<Longrightarrow>
    AddTaskGrp env pIf p s = (ret, ks, s') \<Longrightarrow> sched_step env s s'"
| remove: "RemoveTaskGrp p s = (ret, s') \<Longrightarrow> sched_step env s s'"
| removes: "removal_fits ps s \<Longrightarrow> RemoveTaskGrps ps s = (ret, s') \<Longrightarrow> sched_step env s s'"
| slots: "slots_fit i n s \<Longrightarrow> SetSlotCount (Some i) n s = (ret, ks, s') \<Longrightarrow> sched_step env s s'"
| disconn: "RemoveConn env pIf s = (ret, s') \<Longrightarrow> sched_step env s s'"
| port: "RemoveTaskGrps_port env dwPortId s = (ret, s') \<Longrightarrow> sched_step env s s'"
| nxt: "GetNextTaskGrp dwHint s = Inr (ret, r, s') \<Longrightarrow> sched_step env s s'"
| conn: "m_mapConnQues s pIf = None \<Longrightarrow> AddConn env pIf s = (ret, ks, s') \<Longrightarrow> sched_step env s s'"
| tasks: "(\<And>i p. p \<in># grps_of s i \<Longrightarrow> active (G p) = active (m_grps s p) \<and> m_dwMaxRunning (G p) = m_dwMaxRunning (m_grps s p)) \<Longrightarrow>
    sched_step env s (s\<lparr>m_grps := G\<rparr>)"

inductive sched_reachable :: "sched_env \<Rightarrow> sched \<Rightarrow> bool" for env where
  start: "m_mapConnQues s = Map.empty \<Longrightarrow> sched_reachable env s"
| step: "sched_reachable env s \<Longrightarrow> sched_step env s s' \<Longrightarrow> sched_reachable env s'"

lemma sched_step_ok: "sched_step env s s' \<Longrightarrow> sched_ok s \<Longrightarrow> sched_ok s'"
proof (induction rule: sched_step.induct)
  case (add p s pIf ret ks s')
  show ?case by (rule AddTaskGrp_ok[OF add(5,1,2,3,4)])
next
  case (remove p s ret s')
  show ?case by (rule RemoveTaskGrp_ok[OF remove(2,1)])
next
  case (removes ps s ret s')
  show ?case by (rule RemoveTaskGrps_ok[OF removes(3,1,2)])
next
  case (slots i n s ret ks s')
  show ?case by (rule SetSlotCount_ok[OF slots(3,1,2)])
next
  case (disconn pIf s ret s')
  show ?case by (rule RemoveConn_ok[OF disconn(2,1)])
next
  case (port dwPortId s ret s')
  show ?case using port RemoveConn_ok[OF port(2) prod.collapse[symmetric]]
    by (auto simp: RemoveTaskGrps_port_def split: option.splits)
next
  case (nxt dwHint s ret r s')
  show ?case by (rule GetNextTaskGrp_ok[OF nxt(2,1)])
next
  case (conn s pIf ret ks s')
  show ?case using AddConn_ok[OF conn(3,2,1)] by simp
next
  case (tasks s G)
  have "que_ok G q" if q: "m_mapConnQues s i = Some q" for i q
  proof (rule que_ok_cong[OF sched_ok_conn(1)[OF tasks(2) q]])
    fix p assume "p \<in># members q"
    then show "active (G p) = active (m_grps s p) \<and> m_dwMaxRunning (G p) = m_dwMaxRunning (m_grps s p)"
      using tasks(1)[of p i] grps_of_lookup[OF q] by simp
  qed
  then show ?case using tasks(2) by (simp add: sched_ok_def)
qed

lemma sched_reachable_inv: "sched_reachable env s \<Longrightarrow> sched_ok s"
proof (induction rule: sched_reachable.induct)
  case (start s)
  then show ?case by (simp add: sched_ok_def grps_of_def)
qed (rule sched_step_ok)

section \<open>A connection without ready groups\<close>

lemma ready_member: "m_mapConnQues s j = Some q \<Longrightarrow> p \<in> set (m_plstReady q) \<or> p \<in> set (m_lstWaitSlot q) \<Longrightarrow> p \<in># grps_of s j"
  by (auto simp: grps_of_def members_def)

lemma occ_inner_member: "occ_inner j G orq owq = (Some p, G', orq', owq') \<Longrightarrow> p \<in> set orq \<union> set owq"
proof -
  assume e: "occ_inner j G orq owq = (Some p, G', orq', owq')"
  have "r = Some x \<Longrightarrow> occ_inner j G orq owq = (r, G', orq', owq') \<Longrightarrow> x \<in> set orq \<union> set owq" for r x
  proof (induction j G orq owq arbitrary: r rule: occ_inner.induct)
    case (1 j G p orq owq)
    obtain y owq1 where w: "wait_search G (length owq) owq = (y, owq1)" by fastforce
    have m: "set owq1 \<subseteq> set owq" "\<And>w. y = Some w \<Longrightarrow> w \<in> set owq"
      using wait_search_mset[OF w] by (auto dest!: arg_cong[of _ _ set_mset] split: option.splits)
    show ?case using 1 w m by (auto split: if_splits option.splits)
  qed auto
  from this[OF refl e] show ?thesis .
qed

lemma occ_outer_stuck:
  assumes "m_mapConnQues s i = Some q" "m_plstReady q = []" "occ_outer n s = (r, s')"
  shows "m_mapConnQues s' i = Some q \<and> (\<forall>p. r = Some p \<longrightarrow> (\<exists>j. j \<noteq> i \<and> p \<in># grps_of s j))"
  using assms(1,3)
proof (induction n arbitrary: s)
  case (Suc n)
  define s1 where "s1 = s\<lparr>m_lstConns := rotate1 (m_lstConns s)\<rparr>"
  have s1: "m_mapConnQues s1 = m_mapConnQues s" "grps_of s1 = grps_of s" by (simp_all add: s1_def)
  let ?j = "hd (m_lstConns s)"
  show ?case
  proof (cases "?j = m_pSchedMgr s1 \<or> m_mapConnQues s1 ?j = None")
    case True
    then have "occ_outer n s1 = (r, s')" using Suc.prems(2)
      by (cases "?j = m_pSchedMgr s1") (simp_all add: Let_def s1_def[symmetric])
    then show ?thesis using Suc.IH[of s1] Suc.prems(1) s1 by simp
  next
    case False
    then obtain q2 where q2: "m_mapConnQues s1 ?j = Some q2" by auto
    obtain x G orq owq where e: "occ_inner (length (m_plstReady q2)) (m_grps s1) (m_plstReady q2) (m_lstWaitSlot q2) = (x, G, orq, owq)"
      by (metis prod_cases4)
    let ?s2 = "put_que ?j (G, q2\<lparr>m_plstReady := orq, m_lstWaitSlot := owq\<rparr>) s1"
    have same: "m_mapConnQues ?s2 i = Some q" "?j = i \<Longrightarrow> x = None"
      using Suc.prems(1) s1(1) assms(2) e q2 by (auto simp: put_que_def)
    have "members (q2\<lparr>m_plstReady := orq, m_lstWaitSlot := owq\<rparr>) = members q2"
      using occ_inner_mset[OF e] by (simp add: members_def add.commute)
    then have g: "grps_of ?s2 = grps_of s" using grps_of_lookup[OF q2] s1(2) by (simp add: fun_upd_idem_iff)
    have "s' = ?s2 \<and> r = x \<and> x \<noteq> None \<or> occ_outer n ?s2 = (r, s')"
      using Suc.prems(2) False q2 e by (auto simp: Let_def s1_def[symmetric] split: if_splits)
    then show ?thesis
    proof
      assume h: "s' = ?s2 \<and> r = x \<and> x \<noteq> None"
      then have "?j \<noteq> i" using same(2) by blast
      moreover have "p \<in># grps_of s ?j" if "r = Some p" for p
        using h that occ_inner_member[of _ _ _ _ p] e ready_member[OF q2] s1(2) by auto
      ultimately show ?thesis using h same(1) by blast
    next
      assume "occ_outer n ?s2 = (r, s')"
      from Suc.IH[OF same(1) this] show ?thesis unfolding g .
    qed
  qed
qed simp

lemma GetNextTaskGrp_stuck:
  assumes "m_mapConnQues s i = Some q" "m_plstReady q = []" "GetNextTaskGrp h s = Inr (ret, r, s')"
  shows "m_mapConnQues s' i = Some q \<and> (\<forall>p. r = Some p \<longrightarrow> (\<exists>j. j \<noteq> i \<and> p \<in># grps_of s j))"
proof -
  have A: ?thesis if aar: "GetNextTaskGrpAAR s = (ret, r, s')"
  proof (cases rule: aar_cases[of s])
    case (serve as j bs q2 xs p ys)
    then have "j \<noteq> i" using assms(1,2) by auto
    moreover have "p \<in># grps_of s j" using ready_member[OF serve(4)] serve(5) by simp
    ultimately show ?thesis using aar serve(8) assms(1) by auto
  qed (use aar assms(1) in simp)
  have O: ?thesis if occ: "GetNextTaskGrpOCC s = Inr (ret, r, s')"
  proof -
    obtain s2 where s2: "occ_start s = Inr s2" using occ by (auto simp: GetNextTaskGrpOCC_def split: sum.splits)
    then have "occ_outer (length (m_lstConns s2)) s2 = (r, s')"
      using occ by (auto simp: GetNextTaskGrpOCC_def split: prod.splits)
    from occ_outer_stuck[OF _ assms(2) this] show ?thesis
      using assms(1) occ_start_frame(1)[OF s2] occ_start_groups[OF s2] by simp
  qed
  show ?thesis using assms(3) A O assms(1) by (auto simp: GetNextTaskGrp_def split: if_splits)
qed

section \<open>Properties\<close>

text \<open>C5. The slots of a connection are not overcommitted by the operations that share them evenly. In every state that is reached by adding and
  removing connections, adding and removing single groups, scheduling, the work of the groups, removals of lists of groups under the condition
  \<open>removal_fits\<close>, and changes of the number of slots under the condition \<open>slots_fit\<close>, the ready groups of a connection together have at most its
  slots, each has one at least, waiting groups have none, and no group is queued twice, in one connection or in two. The two conditions are needed. A
  change of the slots fits when the connection has no group or when it raises them to the double at most; when it lowers them, the groups get more than
  before (\<open>set_slot_count_overcommits\<close>). A removal of a list fits when afterwards each connection that got slots back has a slot for each group, or no ready
  group with several; else waiting groups get the slots that a ready group still has (\<open>remove_groups_overcommits\<close>).\<close>

theorem slot_budget:
  assumes "sched_reachable env s" "m_mapConnQues s i = Some q"
  shows "(\<Sum>p\<in>#mset (m_plstReady q). m_dwMaxRunning (m_grps s p)) \<le> m_dwMaxSlots q \<and>
    (\<forall>p\<in>set (m_plstReady q). 1 \<le> m_dwMaxRunning (m_grps s p)) \<and>
    (\<forall>p\<in>set (m_lstWaitSlot q). m_dwMaxRunning (m_grps s p) = 0) \<and>
    distinct (m_plstReady q @ m_lstWaitSlot q) \<and>
    (\<forall>j q'. j \<noteq> i \<longrightarrow> m_mapConnQues s j = Some q' \<longrightarrow> set_mset (members q) \<inter> set_mset (members q') = {})"
proof -
  note ok = sched_reachable_inv[OF assms(1)]
  note C = sched_ok_conn[OF ok assms(2)]
  have "set_mset (members q) \<inter> set_mset (members q') = {}" if "j \<noteq> i" "m_mapConnQues s j = Some q'" for j q'
    using C(3)[OF that(1)] grps_of_lookup[OF that(2)] by simp
  moreover have sh: "share_ok (m_dwMaxSlots q) (m_grps s) (mset (m_plstReady q)) (mset (m_lstWaitSlot q))"
    using C(1) by (simp add: que_ok_def)
  ultimately show ?thesis using share_ok_distinct[OF sh] unfolding share_ok_def by simp
qed

definition sample_env :: sched_env where
  "sample_env = \<lparr>e_portid = (\<lambda>i. if i = 100 then Inr 5 else Inl (- ENOENT)), e_grprfc = (\<lambda>i. Inr 99)\<rparr>"

definition sample_group :: task_grp where
  "sample_group = CIfParallelTaskGrpRfc_init (Some 0) (Some 32) (Some 5)"

definition sample_sched0 :: sched where
  "sample_sched0 = \<lparr>m_grps = (\<lambda>p. sample_group), m_mapConnQues = Map.empty, m_lstConns = [0], m_mapId2If = Map.empty,
    m_ocqSchdMgr = CONNQUE_ELEM_init, m_dwNumSched = 0, m_pSchedMgr = 0, m_lstResched = []\<rparr>"

text \<open>One connection with one slot, which group 10 has and group 11 waits for.\<close>

definition sample_sched :: sched where
  "sample_sched = sample_sched0\<lparr>
    m_grps := (\<lambda>p. sample_group)(10 := sample_group\<lparr>m_dwMaxRunning := 1, m_setTasks := [(0, False)], m_quePendingTasks := [(2, True)]\<rparr>,
      11 := sample_group\<lparr>m_setTasks := [(1, False)], m_quePendingTasks := [(3, True)]\<rparr>),
    m_mapConnQues := [100 \<mapsto> \<lparr>m_lstWaitSlot = [11], m_plstReady = [10], m_plstNextSched = [], m_dwMaxSlots = 1\<rparr>],
    m_lstConns := [0, 100], m_mapId2If := [5 \<mapsto> 100]\<rparr>"

lemmas sample_defs = sample_sched_def sample_sched0_def sample_env_def sample_group_def CIfParallelTaskGrpRfc_init_def

lemma sample_group_active [simp]: "active sample_group" "m_dwMaxRunning sample_group = 0" "m_dwMaxPending sample_group = 32"
  "m_dwPrxyPortId sample_group = Some 5"
  by (simp_all add: sample_group_def CIfParallelTaskGrpRfc_init_def active_def CHECK_GRP_STATE_def IsStopped_def)

lemma active_fields [simp]:
  "active (g\<lparr>m_dwMaxRunning := n\<rparr>) = active g" "active (g\<lparr>m_setTasks := ts\<rparr>) = active g"
  "active (g\<lparr>m_quePendingTasks := ps\<rparr>) = active g"
  by (simp_all add: active_def CHECK_GRP_STATE_def)

lemma sample_add:
  "m_mapConnQues (snd (snd (AddTaskGrp sample_env 100 10 sample_sched0))) 100 =
    Some \<lparr>m_lstWaitSlot = [], m_plstReady = [10], m_plstNextSched = [], m_dwMaxSlots = 32\<rparr>"
proof -
  let ?s = "sample_sched0\<lparr>m_lstConns := [0, 100], m_mapConnQues := [100 \<mapsto> CONNQUE_ELEM_init], m_mapId2If := [5 \<mapsto> 100]\<rparr>"
  have lim: "GetLimit sample_group = Inr (0, 32)"
    by (simp add: GetLimit_def sample_group_def CIfParallelTaskGrpRfc_init_def CHECK_GRP_STATE_def IsStopped_def)
  obtain ret ks s1 where e: "SetSlotCount (Some 100) 32 ?s = (ret, ks, s1)" by (metis prod_cases3)
  have ret: "ret = 0" using SetSlotCount_known[OF _ e] by simp
  have s1: "m_mapConnQues s1 100 = Some (CONNQUE_ELEM_init\<lparr>m_dwMaxSlots := 32\<rparr>)" "m_grps s1 = (\<lambda>p. sample_group)"
    using SetSlotCount_empty[OF _ e] by (simp_all add: sample_sched0_def)
  have "AddConn sample_env 100 sample_sched0 = (0, ks, s1)"
    using e ret lim by (simp add: AddConn_def sample_env_def sample_sched0_def u32_add_def)
  moreover have "snd (snd (AddTaskGrp_que 10 (m_grps s1, CONNQUE_ELEM_init\<lparr>m_dwMaxSlots := 32\<rparr>))) =
      \<lparr>m_lstWaitSlot = [], m_plstReady = [10], m_plstNextSched = [], m_dwMaxSlots = 32\<rparr>"
    by (simp add: AddTaskGrp_que_def CONNQUE_ELEM_init_def GetTaskGrpCount_def SetLimitRunningGrps_def IncRunningGrps_def s1(2) Let_def)
  ultimately show ?thesis using s1(1)
    by (simp add: AddTaskGrp_def sample_sched0_def put_que_def case_prod_unfold Let_def)
qed

theorem slot_budget_witness:
  "\<exists>q. m_mapConnQues (snd (snd (AddTaskGrp sample_env 100 10 sample_sched0))) 100 = Some q \<and> m_plstReady q = [10] \<and>
    m_dwMaxRunning (m_grps (snd (snd (AddTaskGrp sample_env 100 10 sample_sched0))) 10) \<le> m_dwMaxSlots q"
proof -
  define s1 where "s1 = snd (snd (AddTaskGrp sample_env 100 10 sample_sched0))"
  have start: "sched_reachable sample_env sample_sched0" by (rule sched_reachable.start) (simp add: sample_sched0_def)
  have "sched_step sample_env sample_sched0 s1"
    by (rule sched_step.add[where p = 10 and pIf = 100 and ret = "fst (AddTaskGrp sample_env 100 10 sample_sched0)"
        and ks = "fst (snd (AddTaskGrp sample_env 100 10 sample_sched0))"])
      (simp_all add: s1_def sample_sched0_def grps_of_def)
  then have r: "sched_reachable sample_env s1" by (rule sched_reachable.step[OF start])
  have q: "m_mapConnQues s1 100 = Some \<lparr>m_lstWaitSlot = [], m_plstReady = [10], m_plstNextSched = [], m_dwMaxSlots = 32\<rparr>"
    unfolding s1_def by (rule sample_add)
  from slot_budget[OF r q] show ?thesis using q by (simp add: s1_def)
qed

text \<open>C16. No group is lost or duplicated: asking for the next group and setting the slots leave every connection with the groups
  it had, adding a group adds it once to its connection, and removing groups takes each out once.\<close>

theorem groups_conserved:
  "(GetNextTaskGrp h s = Inr (ret, r, s1) \<longrightarrow> grps_of s1 = grps_of s) \<and>
   (SetSlotCount pIf n s = (ret2, ks2, s2) \<longrightarrow> grps_of s2 = grps_of s) \<and>
   (AddTaskGrp env i p s = (ret3, ks3, s3) \<longrightarrow> i \<noteq> m_pSchedMgr s \<longrightarrow> m_mapConnQues s3 i \<noteq> None \<longrightarrow>
     grps_of s3 = (grps_of s)(i := add_mset p (grps_of s i))) \<and>
   (RemoveTaskGrp p s = (ret4, s4) \<longrightarrow>
     (\<forall>j. grps_of s4 j = (if conn_of s p = Some j then grps_of s j - {#p#} else grps_of s j))) \<and>
   (RemoveTaskGrps ps s = (ret5, s5) \<longrightarrow>
     (\<forall>j. grps_of s5 j = grps_of s j - mset (filter (\<lambda>p. conn_of s p = Some j) ps)))"
proof -
  have "grps_of s5 j = grps_of s j - mset (filter (\<lambda>p. conn_of s p = Some j) ps)" if "RemoveTaskGrps ps s = (ret5, s5)" for j
  proof -
    obtain s6 S where e: "fold erase_grp ps (s, []) = (s6, S)" by fastforce
    then have "s5 = fold reshare_conn S s6" using that by (simp add: RemoveTaskGrps_def)
    then show ?thesis using fold_erase_groups[OF e, of j] by (simp add: fold_reshare_groups)
  qed
  then show ?thesis
    using GetNextTaskGrp_groups SetSlotCount_groups AddTaskGrp_groups[of env i p s ret3 ks3 s3] RemoveTaskGrp_groups
    by (auto simp: drop_grp_def)
qed

theorem groups_conserved_witness:
  "\<exists>s4. RemoveTaskGrp 10 sample_sched = (0, s4) \<and> grps_of s4 100 = {#11#} \<and> grps_of (snd (RemoveTaskGrps [11, 10] sample_sched)) 100 = {#}"
proof -
  obtain ret4 s4 where r: "RemoveTaskGrp 10 sample_sched = (ret4, s4)" by fastforce
  obtain ret5 s5 where r5: "RemoveTaskGrps [11, 10] sample_sched = (ret5, s5)" by fastforce
  have z: "ret4 = 0" using arg_cong[OF r, of fst] by (simp add: RemoveTaskGrp_def Let_def split: option.splits if_splits)
  have c: "conn_of sample_sched 10 = Some 100" "conn_of sample_sched 11 = Some 100" "grps_of sample_sched 100 = {#11, 10#}"
    by (simp_all add: conn_of_def grps_of_def sample_defs members_def)
  have "\<forall>j. grps_of s4 j = (if conn_of sample_sched 10 = Some j then grps_of sample_sched j - {#10#} else grps_of sample_sched j)"
    "\<forall>j. grps_of s5 j = grps_of sample_sched j - mset (filter (\<lambda>p. conn_of sample_sched p = Some j) [11, 10])"
    using groups_conserved[where p = 10 and s = sample_sched and ?ret4.0 = ret4 and ?s4.0 = s4 and ps = "[11, 10]"
      and ?ret5.0 = ret5 and ?s5.0 = s5] r r5 by blast+
  then show ?thesis using r r5 z c by simp
qed

text \<open>C18. The round robin waits boundedly: a connection with \<open>length as\<close> others before it in the list, which has a group that can
  run whenever it is asked for, is served within \<open>length as + 1\<close> calls, whatever the other groups do in between.\<close>

theorem round_robin_bounded_wait:
  assumes "m_lstConns s = as @ i # bs" "length as < length Gs" "i \<noteq> m_pSchedMgr s"
    "\<forall>G\<in>set Gs. \<exists>p\<in>ready_set s i. HasTaskToRun (G p)"
  shows "\<exists>p\<in>ready_set s i. Some p \<in> set (aar_calls Gs s)"
  using assms
proof (induction Gs arbitrary: s as bs)
  case (Cons G Gs)
  let ?s = "s\<lparr>m_grps := G\<rparr>"
  have rs: "ready_set ?s = ready_set s" by (simp add: ready_set_def fun_eq_iff)
  have "serviceable ?s i" using Cons.prems(3,4) rs by (simp add: serviceable_ready)
  from aar_step_fair[OF _ this, of as bs] Cons.prems(1) obtain p s' where
    p: "GetNextTaskGrpAAR ?s = (0, Some p, s')" "m_pSchedMgr s' = m_pSchedMgr s" "\<forall>j. ready_set s' j = ready_set s j"
      "p \<in> ready_set s i \<or> (\<exists>as' bs'. m_lstConns s' = as' @ i # bs' \<and> length as' < length as)"
    using rs by auto
  have calls: "aar_calls (G # Gs) s = Some p # aar_calls Gs s'" using p(1) by simp
  show ?case using p(4)
  proof
    assume "\<exists>as' bs'. m_lstConns s' = as' @ i # bs' \<and> length as' < length as"
    then obtain as' bs' where c: "m_lstConns s' = as' @ i # bs'" "length as' < length as" by blast
    have "\<exists>p\<in>ready_set s' i. Some p \<in> set (aar_calls Gs s')"
      by (rule Cons.IH[OF c(1)]) (use c(2) Cons.prems p(2,3) in auto)
    then show ?thesis using calls p(3) by auto
  qed (use calls in auto)
qed simp

theorem round_robin_bounded_wait_witness:
  "Some 10 \<in> set (aar_calls [m_grps sample_sched, m_grps sample_sched] sample_sched)"
proof -
  have c: "m_lstConns sample_sched = [0] @ 100 # []" "100 \<noteq> m_pSchedMgr sample_sched" "ready_set sample_sched 100 = {10}"
    by (simp_all add: sample_defs ready_set_def)
  have "HasTaskToRun (m_grps sample_sched 10)" by (simp add: sample_defs HasTaskToRun_def grp_counts)
  then show ?thesis
    using round_robin_bounded_wait[OF c(1) _ c(2), of "[m_grps sample_sched, m_grps sample_sched]"] c(3) by simp
qed

text \<open>\<^verbatim>\<open>RemoveTaskGrp\<close> can strand a connection. It shares the slots it got back among the ready groups only, so when the
  last ready group leaves and there are at least as many slots as waiting groups, all of them stay waiting for good:
  no scheduling call picks one of them or changes the queue, and every new group joins them.\<close>

lemma remove_last_ready_strands:
  assumes "sched_ok s" "m_mapConnQues s i = Some q" "m_plstReady q = [p]" "m_lstWaitSlot q \<noteq> []"
    "length (m_lstWaitSlot q) \<le> m_dwMaxSlots q" "conn_of s p = Some i" "i \<noteq> m_pSchedMgr s"
  shows "\<exists>s'. RemoveTaskGrp p s = (0, s') \<and> m_mapConnQues s' i = Some (q\<lparr>m_plstReady := []\<rparr>) \<and>
    (\<forall>h ret r s''. GetNextTaskGrp h s' = Inr (ret, r, s'') \<longrightarrow>
      m_mapConnQues s'' i = m_mapConnQues s' i \<and> (\<forall>w\<in>set (m_lstWaitSlot q). r \<noteq> Some w)) \<and>
    (\<forall>env g ret ks s''. AddTaskGrp env i g s' = (ret, ks, s'') \<longrightarrow>
      m_mapConnQues s'' i = Some (q\<lparr>m_plstReady := [], m_lstWaitSlot := m_lstWaitSlot q @ [g]\<rparr>))"
proof -
  let ?q = "q\<lparr>m_plstReady := []\<rparr>"
  obtain port where port: "m_dwPrxyPortId (m_grps s p) = Some port" "m_mapId2If s port = Some i"
    using assms(6) by (auto simp: conn_of_def split: option.splits)
  note C = sched_ok_conn[OF assms(1,2)]
  have sh: "share_ok (m_dwMaxSlots q) (m_grps s) (mset (m_plstReady q)) (mset (m_lstWaitSlot q))" "m_plstNextSched q = []"
    using C(1) by (simp_all add: que_ok_def)
  have pw: "p \<notin> set (m_lstWaitSlot q)" using share_ok_distinct[OF sh(1)] assms(3) by simp
  have n: "GetTaskGrpCount ?q = length (m_lstWaitSlot q)" using sh(2) by (simp add: GetTaskGrpCount_def)
  have "0 < m_dwMaxSlots q div length (m_lstWaitSlot q)" using assms(4,5) by (simp add: div_greater_zero_iff)
  then have rel: "release_slots (m_grps s, ?q) = (m_grps s, ?q)"
    using n assms(4) by (simp add: release_slots_def Let_def SetLimitRunningGrps_def IncRunningGrps_def)
  have "release_resched ?q" using n assms(4,5) by (simp add: release_resched_def)
  then obtain x where rm: "RemoveTaskGrp p s = (0, (put_que i (m_grps s, ?q) s)\<lparr>m_lstResched := x\<rparr>)"
    using assms(2,3) port pw rel by (simp add: RemoveTaskGrp_def Let_def)
  let ?s' = "(put_que i (m_grps s, ?q) s)\<lparr>m_lstResched := x\<rparr>"
  have map: "m_mapConnQues ?s' i = Some ?q" "m_pSchedMgr ?s' = m_pSchedMgr s" by (simp_all add: put_que_def)
  have stuck: "m_mapConnQues s'' i = m_mapConnQues ?s' i \<and> (\<forall>w\<in>set (m_lstWaitSlot q). r \<noteq> Some w)"
    if "GetNextTaskGrp h ?s' = Inr (ret, r, s'')" for h ret r s''
  proof -
    have "m_mapConnQues s'' i = Some ?q \<and> (\<forall>p. r = Some p \<longrightarrow> (\<exists>j. j \<noteq> i \<and> p \<in># grps_of ?s' j))"
      by (rule GetNextTaskGrp_stuck[OF map(1) _ that]) simp
    moreover have "w \<notin># grps_of ?s' j" if "w \<in> set (m_lstWaitSlot q)" "j \<noteq> i" for w j
      using C(3)[OF that(2)] that by (auto simp: members_def)
    ultimately show ?thesis using map(1) by metis
  qed
  have added: "m_mapConnQues s'' i = Some (q\<lparr>m_plstReady := [], m_lstWaitSlot := m_lstWaitSlot q @ [g]\<rparr>)"
    if "AddTaskGrp env i g ?s' = (ret, ks, s'')" for env g ret ks s''
    using that map assms(4,7) by (auto simp: AddTaskGrp_def AddTaskGrp_que_def put_que_def)
  show ?thesis using rm map(1) stuck added by (intro exI[of _ ?s']) blast
qed

lemma sample_sched_ok: "sched_ok sample_sched"
  by (auto simp: sched_ok_def sample_sched_def sample_sched0_def que_ok_def share_ok_def grps_of_def members_def split: if_splits)

text \<open>\<^verbatim>\<open>SetSlotCount\<close> does the opposite of what it is asked: when the slots of a connection are raised by \<open>d\<close>, its ready groups are
  cut down so that together they have at most \<open>d\<close> slots less than before, although the connection now has \<open>d\<close> more.\<close>

lemma set_slot_count_reversed:
  assumes "m_mapConnQues s i = Some q" "m_lstWaitSlot q = []" "m_plstNextSched q = []" "m_plstReady q \<noteq> []"
    "distinct (m_plstReady q)" "\<forall>p\<in>set (m_plstReady q). active (m_grps s p)" "0 < d" "m_dwMaxSlots q < 2 ^ 32"
    "length (m_plstReady q) + d \<le> m_dwMaxSlots q" "SetSlotCount (Some i) (m_dwMaxSlots q + d) s = (ret, ks, s')"
  shows "\<exists>q'. m_mapConnQues s' i = Some q' \<and> m_dwMaxSlots q' = m_dwMaxSlots q + d \<and> m_plstReady q' = m_plstReady q \<and>
    (\<Sum>p\<in>#mset (m_plstReady q). m_dwMaxRunning (m_grps s' p)) \<le> m_dwMaxSlots q - d"
proof -
  let ?n = "length (m_plstReady q)" and ?N = "m_dwMaxSlots q - d"
  let ?a = "?N div ?n"
  have cnt: "GetTaskGrpCount q = ?n" using assms(2,3) by (simp add: GetTaskGrpCount_def)
  have sub: "u32_sub (m_dwMaxSlots q) d = ?N"
    using assms(8,9) by (simp add: u32_sub_def of_nat_diff[symmetric] nat_mod_distrib flip: of_nat_diff)
  have a: "0 < ?a" using assms(4,9) by (simp add: div_greater_zero_iff)
  obtain G' q1 where e: "IncRunningGrps (?N - ?a * ?n) (SetLimitRunningGrps ?a (m_grps s, q)) = (G', q1)" by fastforce
  note S = share_equally[OF assms(5,6) a e]
  have "SetLimitGrps ?a (m_grps s, q) = SetLimitRunningGrps ?a (m_grps s, q)"
    using a assms(2) by (simp add: SetLimitGrps_def SetLimitRunningGrps_pos Let_def)
  then have dec: "snd (DecSlotCount d (m_grps s, q)) = (G', q)"
    using assms(4,7) a e S(1) by (simp add: DecSlotCount_def ResetSlotCountAlloc_def cnt sub Let_def)
  then obtain k where "DecSlotCount d (m_grps s, q) = (k, G', q)" by (metis prod.collapse)
  then have s': "s' = put_que i (G', q\<lparr>m_dwMaxSlots := m_dwMaxSlots q + d\<rparr>) s"
    using assms(1,7,10) by (simp add: SetSlotCount_def)
  have "?a * ?n + (?N - ?a * ?n) = ?N" using div_times_less_eq_dividend[of ?N ?n] by (simp only: le_add_diff_inverse)
  then have "(\<Sum>p\<in>#mset (m_plstReady q). m_dwMaxRunning (G' p)) \<le> ?N" using S(2) by (simp only:)
  then show ?thesis by (simp add: s' put_que_def)
qed

text \<open>Lowering the slots of a connection with one group from \<open>m\<close> to \<open>n\<close> gives this group \<open>2 m - n\<close> slots.\<close>

lemma set_slot_count_overcommits:
  assumes "m_mapConnQues s i = Some q" "m_plstReady q = [p]" "m_lstWaitSlot q = []" "m_plstNextSched q = []" "active (m_grps s p)"
    "n < m_dwMaxSlots q" "2 * m_dwMaxSlots q - n \<le> RFC_MAX_REQS" "SetSlotCount (Some i) n s = (ret, ks, s')"
  shows "m_mapConnQues s' i = Some (q\<lparr>m_dwMaxSlots := n\<rparr>) \<and> m_dwMaxRunning (m_grps s' p) = 2 * m_dwMaxSlots q - n \<and>
    n < m_dwMaxRunning (m_grps s' p)"
proof -
  let ?N = "2 * m_dwMaxSlots q - n"
  have N: "u32_add (m_dwMaxSlots q) (m_dwMaxSlots q - n) = ?N" "GetTaskGrpCount q = 1" "0 < ?N"
    using assms(2-4,6,7) by (simp_all add: u32_add_def GetTaskGrpCount_def)
  obtain G' where G': "IncSlotCount (m_dwMaxSlots q - n) (m_grps s, q) = (G', q)" "m_dwMaxRunning (G' p) = ?N"
    using N assms(2-7) grp.limit_setl[OF assms(5), of ?N]
    by (auto simp: IncSlotCount_def SetLimitRunningGrps_pos IncRunningGrps_eq)
  have "s' = put_que i (G', q\<lparr>m_dwMaxSlots := n\<rparr>) s" using assms(1,6,8) G'(1) by (simp add: SetSlotCount_def)
  thus ?thesis using G'(2) assms(6) by (simp add: put_que_def)
qed

text \<open>\<^verbatim>\<open>RemoveTaskGrps\<close> can give out more slots than a connection has. When there are fewer slots than groups, it counts every ready group as one slot,
  although \<^verbatim>\<open>RemoveTaskGrp\<close> may have left several to one of them.\<close>

text \<open>A connection with four slots: group 10 has two, group 11 one, and four groups wait.\<close>

definition sample_crowd :: sched where
  "sample_crowd = sample_sched\<lparr>
    m_grps := (\<lambda>p. sample_group)(10 := sample_group\<lparr>m_dwMaxRunning := 2\<rparr>, 11 := sample_group\<lparr>m_dwMaxRunning := 1\<rparr>),
    m_mapConnQues := [100 \<mapsto> \<lparr>m_lstWaitSlot = [12, 13, 14, 15], m_plstReady = [10, 11], m_plstNextSched = [], m_dwMaxSlots = 4\<rparr>]\<rparr>"

lemma remove_groups_overcommits:
  "sched_ok sample_crowd \<and> (\<exists>q. m_mapConnQues (snd (RemoveTaskGrps [11] sample_crowd)) 100 = Some q \<and> m_dwMaxSlots q = 4 \<and>
    m_plstReady q = [10, 12, 13, 14] \<and> (\<Sum>p\<in>#mset (m_plstReady q). m_dwMaxRunning (m_grps (snd (RemoveTaskGrps [11] sample_crowd)) p)) = 5)"
proof
  show "sched_ok sample_crowd"
    by (auto simp: sched_ok_def sample_crowd_def sample_sched_def sample_sched0_def que_ok_def share_ok_def grps_of_def members_def split: if_splits)
  let ?q = "\<lparr>m_lstWaitSlot = [12, 13, 14, 15], m_plstReady = [10], m_plstNextSched = [], m_dwMaxSlots = 4\<rparr>"
  let ?q' = "\<lparr>m_lstWaitSlot = [15], m_plstReady = [10, 12, 13, 14], m_plstNextSched = [], m_dwMaxSlots = 4\<rparr>"
  define G :: grp_store where "G = (\<lambda>p. sample_group)(10 := sample_group\<lparr>m_dwMaxRunning := 2\<rparr>, 11 := sample_group\<lparr>m_dwMaxRunning := 1\<rparr>)"
  have "HasPendingTasks (G p) = 0" for p
    by (simp add: G_def sample_group_def CIfParallelTaskGrpRfc_init_def HasPendingTasks_def grp_counts)
  hence "take_pending G n ws = ([], ws)" for n ws by (induction ws) simp_all
  hence "IncWaitingGrp 3 (G, ?q) = (fold (set_limit 1) [12, 13, 14] G, ?q')"
    by (simp add: IncWaitingGrp_def Let_def del: take_pending.simps)
  moreover have "u32_add 4 0 = 4" "GetTaskGrpCount ?q = 5" by (simp_all add: u32_add_def GetTaskGrpCount_def)
  ultimately have R: "ResetSlotCountRelease 0 (G, ?q) = (fold (set_limit 1) [12, 13, 14] G, ?q')"
    by (simp add: ResetSlotCountRelease_def Let_def del: fold_simps)
  have e: "erase_grp 11 (sample_crowd, []) = (put_que 100 (G, ?q) sample_crowd, [100])"
    by (simp add: erase_grp_def sample_crowd_def sample_sched_def sample_sched0_def G_def Let_def)
  have g: "m_grps (put_que 100 (G, ?q) sample_crowd) = G" "m_mapConnQues (put_que 100 (G, ?q) sample_crowd) 100 = Some ?q"
    by (simp_all add: put_que_def)
  have s: "m_mapConnQues (snd (RemoveTaskGrps [11] sample_crowd)) 100 = Some ?q'"
    "m_grps (snd (RemoveTaskGrps [11] sample_crowd)) = fold (set_limit 1) [12, 13, 14] G"
    by (simp_all add: RemoveTaskGrps_def e reshare_conn_def g R Let_def put_que_def del: fold_simps)
  have "m_dwMaxRunning (fold (set_limit 1) [12, 13, 14] G p) = (if p \<in> {12, 13, 14} then 1 else m_dwMaxRunning (G p))" for p
    by (auto simp: set_limit_apply G_def grp.limit_setl)
  thus "\<exists>q. m_mapConnQues (snd (RemoveTaskGrps [11] sample_crowd)) 100 = Some q \<and> m_dwMaxSlots q = 4 \<and>
    m_plstReady q = [10, 12, 13, 14] \<and> (\<Sum>p\<in>#mset (m_plstReady q). m_dwMaxRunning (m_grps (snd (RemoveTaskGrps [11] sample_crowd)) p)) = 5"
    unfolding s by (simp add: G_def del: fold_simps)
qed

end
