(* ===== verification/Wire.thy ===== *)
theory Wire
  imports Prelude
begin

text \<open>
  What the wire formats of the framework share: numbers in network byte order, the limit of a buffer, and the variant type
  of \<^verbatim>\<open>include/variant.h\<close> with the type ids of \<^verbatim>\<open>include/buffer.h\<close>.
\<close>

abbreviation (input) MAX_BYTES_PER_BUFFER :: nat where "MAX_BYTES_PER_BUFFER \<equiv> 16777216"

section \<open>Numbers in network byte order\<close>

text \<open>The bytes of \<open>htonl( v )\<close> and its variants in memory, and their inverse.\<close>

primrec be_bytes :: "nat \<Rightarrow> nat \<Rightarrow> byte list" where
  "be_bytes 0 v = []"
| "be_bytes (Suc n) v = be_bytes n (v div 256) @ [word_of_nat (v mod 256)]"

definition be_nat :: "byte list \<Rightarrow> nat" where
  "be_nat bs = foldl (\<lambda>acc b. acc * 256 + unat b) 0 bs"

lemma length_be_bytes [simp]: "length (be_bytes n v) = n"
  by (induction n arbitrary: v) auto

lemma be_nat_append: "be_nat (xs @ ys) = be_nat xs * 256 ^ length ys + be_nat ys"
  by (induction ys rule: rev_induct) (auto simp: be_nat_def algebra_simps)

lemma be_nat_bytes: "v < 256 ^ n \<Longrightarrow> be_nat (be_bytes n v) = v"
proof (induction n arbitrary: v)
  case (Suc n)
  have "v div 256 < 256 ^ n" using Suc.prems by (simp add: less_mult_imp_div_less mult.commute)
  moreover have "be_nat [word_of_nat (v mod 256)] = v mod 256" by (simp add: be_nat_def unat_of_nat)
  ultimately show ?case using Suc.IH[of "v div 256"] by (simp add: be_nat_append)
qed (simp add: be_nat_def)

lemma be_nat_one: "be_nat [x] = unat x"
  by (simp add: be_nat_def)

lemma be_nat_word [simp]:
  "word_of_nat (be_nat (be_bytes 2 (unat (x16 :: 16 word)))) = x16"
  "word_of_nat (be_nat (be_bytes 4 (unat (x32 :: 32 word)))) = x32"
  "word_of_nat (be_nat (be_bytes 8 (unat (x64 :: 64 word)))) = x64"
  using unsigned_less[of x16, where ?'a = nat] unsigned_less[of x32, where ?'a = nat] unsigned_less[of x64, where ?'a = nat]
  by (simp_all add: be_nat_bytes)

section \<open>Variants\<close>

datatype 'o variant =
    VarNone | VarByte byte | VarUInt16 "16 word" | VarUInt32 "32 word" | VarUInt64 "64 word"
  | VarFloat "32 word" | VarDouble "64 word" | VarString "byte list" | VarDMsg | VarObj "'o option"
  | VarByteArr "byte list option"

text \<open>The values of \<^verbatim>\<open>EnumTypeId\<close>.\<close>

fun GetTypeId :: "'o variant \<Rightarrow> byte" where
  "GetTypeId VarNone = 0"
| "GetTypeId (VarByte _) = 1"
| "GetTypeId (VarUInt16 _) = 2"
| "GetTypeId (VarUInt32 _) = 3"
| "GetTypeId (VarUInt64 _) = 4"
| "GetTypeId (VarFloat _) = 5"
| "GetTypeId (VarDouble _) = 6"
| "GetTypeId (VarString _) = 7"
| "GetTypeId VarDMsg = 8"
| "GetTypeId (VarObj _) = 9"
| "GetTypeId (VarByteArr _) = 10"

end
