(* ===== verification/Seri.thy ===== *)
theory Seri
  imports Wire
begin

text \<open>
  The wire format of the arguments of a call: \<^verbatim>\<open>CSerialBase\<close> (\<^verbatim>\<open>include/seribase.h\<close>, \<^verbatim>\<open>combase/seribase.cpp\<close>), the variants
  of \<^verbatim>\<open>combase/variant.cpp\<close> and the structs for which \<^verbatim>\<open>ridl/gencpp.cpp\<close> writes the two methods. A type of the interface
  language is a \<open>stype\<close>, on which the templates \<^verbatim>\<open>SerialElem\<close> and \<^verbatim>\<open>DeserialElem\<close> are chosen; the value it holds is a \<open>sval\<close>.

  A buffer (\<^verbatim>\<open>CBuffer\<close> of plain memory that it owns) is its bytes up to the tail offset, with the offset of the window. The
  pointers to buffers are never null here. Numbers travel in network byte order, floating-point numbers as their bits. An
  object is a value of a type \<open>'o\<close>, and what its class does is the record \<open>codec\<close>. Handles of streams are left out. A read or write
  outside the bytes of the buffer is \<open>Fault_Range\<close>.
\<close>

section \<open>Buffers\<close>

abbreviation (input) BUF_MAX_SIZE :: nat where "BUF_MAX_SIZE \<equiv> 536870912"
abbreviation (input) MAX_ELEM_COUNT :: nat where "MAX_ELEM_COUNT \<equiv> 1000000"
abbreviation (input) SERIAL_STRUCT_MAGIC :: "32 word" where "SERIAL_STRUCT_MAGIC \<equiv> 0x73747275"

record cbuffer =
  m_pData :: "byte list"
  m_dwOffset :: nat

definition buf_size :: "cbuffer \<Rightarrow> nat" where
  "buf_size b = length (m_pData b) - m_dwOffset b"

definition buf_ptr :: "cbuffer \<Rightarrow> byte list" where
  "buf_ptr b = drop (m_dwOffset b) (m_pData b)"

definition SetOffset :: "nat \<Rightarrow> cbuffer \<Rightarrow> gint32 \<times> cbuffer" where
  "SetOffset dwOffset b =
    (if m_pData b = [] then (ERROR_STATE, b)
     else if dwOffset > length (m_pData b) then (- EINVAL, b)
     else (0, b\<lparr>m_dwOffset := dwOffset\<rparr>))"

definition IncOffset :: "nat \<Rightarrow> cbuffer \<Rightarrow> cbuffer" where
  "IncOffset n b = snd (SetOffset (m_dwOffset b + n) b)"

text \<open>\<^verbatim>\<open>Append\<close> resizes the buffer, which moves its window to the start of the memory.\<close>

definition Append :: "byte list \<Rightarrow> cbuffer \<Rightarrow> gint32 \<times> cbuffer" where
  "Append bs b =
    (if length bs > BUF_MAX_SIZE \<or> bs = [] then (- EINVAL, b)
     else if buf_size b + length bs > MAX_BYTES_PER_BUFFER then (- E2BIG, b)
     else (0, b\<lparr>m_pData := buf_ptr b @ bs, m_dwOffset := 0\<rparr>))"

text \<open>The macro \<^verbatim>\<open>APPEND\<close> looks at none of the three results.\<close>

definition APPEND :: "byte list \<Rightarrow> cbuffer \<Rightarrow> cbuffer" where
  "APPEND bs b = snd (SetOffset (m_dwOffset b + length bs) (snd (Append bs (snd (SetOffset 0 b)))))"

section \<open>Numbers in network byte order\<close>

definition Serialize_gint16 :: "16 word \<Rightarrow> cbuffer \<Rightarrow> gint32 \<times> cbuffer" where
  "Serialize_gint16 val b = (0, APPEND (be_bytes 2 (unat val)) b)"

definition Serialize_guint16 :: "16 word \<Rightarrow> cbuffer \<Rightarrow> gint32 \<times> cbuffer" where
  "Serialize_guint16 val b = (0, APPEND (be_bytes 2 (unat val)) b)"

definition Serialize_gint32 :: "32 word \<Rightarrow> cbuffer \<Rightarrow> gint32 \<times> cbuffer" where
  "Serialize_gint32 val b = (0, APPEND (be_bytes 4 (unat val)) b)"

definition Serialize_guint32 :: "32 word \<Rightarrow> cbuffer \<Rightarrow> gint32 \<times> cbuffer" where
  "Serialize_guint32 val b = (0, APPEND (be_bytes 4 (unat val)) b)"

definition Serialize_gint64 :: "64 word \<Rightarrow> cbuffer \<Rightarrow> gint32 \<times> cbuffer" where
  "Serialize_gint64 val b = (0, APPEND (be_bytes 8 (unat val)) b)"

definition Serialize_guint64 :: "64 word \<Rightarrow> cbuffer \<Rightarrow> gint32 \<times> cbuffer" where
  "Serialize_guint64 val b = (0, APPEND (be_bytes 8 (unat val)) b)"

definition Serialize_float :: "32 word \<Rightarrow> cbuffer \<Rightarrow> gint32 \<times> cbuffer" where
  "Serialize_float bits b = (0, APPEND (be_bytes 4 (unat bits)) b)"

definition Serialize_double :: "64 word \<Rightarrow> cbuffer \<Rightarrow> gint32 \<times> cbuffer" where
  "Serialize_double bits b = (0, APPEND (be_bytes 8 (unat bits)) b)"

definition Serialize_bool :: "byte \<Rightarrow> cbuffer \<Rightarrow> gint32 \<times> cbuffer" where
  "Serialize_bool val b = (0, APPEND [val] b)"

definition Serialize_guint8 :: "byte \<Rightarrow> cbuffer \<Rightarrow> gint32 \<times> cbuffer" where
  "Serialize_guint8 val b = (0, APPEND [val] b)"

text \<open>Reading a number of \<open>n\<close> bytes: the checks that all the methods share, the value and the buffer behind it.\<close>

definition Deserialize_num :: "nat \<Rightarrow> cbuffer \<Rightarrow> gint32 \<times> nat \<times> cbuffer" where
  "Deserialize_num n b =
    (if buf_size b = 0 then (- EINVAL, 0, b)
     else if buf_size b < n then (- ERANGE, 0, b)
     else (0, be_nat (take n (buf_ptr b)), IncOffset n b))"

definition Deserialize_bool :: "cbuffer \<Rightarrow> gint32 \<times> byte \<times> cbuffer" where
  "Deserialize_bool b = (let (ret, v, b1) = Deserialize_num 1 b in (ret, word_of_nat v, b1))"

definition Deserialize_guint8 :: "cbuffer \<Rightarrow> gint32 \<times> byte \<times> cbuffer" where
  "Deserialize_guint8 b = (let (ret, v, b1) = Deserialize_num 1 b in (ret, word_of_nat v, b1))"

definition Deserialize_gint16 :: "cbuffer \<Rightarrow> gint32 \<times> 16 word \<times> cbuffer" where
  "Deserialize_gint16 b = (let (ret, v, b1) = Deserialize_num 2 b in (ret, word_of_nat v, b1))"

definition Deserialize_guint16 :: "cbuffer \<Rightarrow> gint32 \<times> 16 word \<times> cbuffer" where
  "Deserialize_guint16 b = (let (ret, v, b1) = Deserialize_num 2 b in (ret, word_of_nat v, b1))"

definition Deserialize_guint32 :: "cbuffer \<Rightarrow> gint32 \<times> 32 word \<times> cbuffer" where
  "Deserialize_guint32 b = (let (ret, v, b1) = Deserialize_num 4 b in (ret, word_of_nat v, b1))"

definition Deserialize_gint32 :: "cbuffer \<Rightarrow> gint32 \<times> 32 word \<times> cbuffer" where
  "Deserialize_gint32 b = (let (ret, v, b1) = Deserialize_num 4 b in (ret, word_of_nat v, b1))"

definition Deserialize_guint64 :: "cbuffer \<Rightarrow> gint32 \<times> 64 word \<times> cbuffer" where
  "Deserialize_guint64 b = (let (ret, v, b1) = Deserialize_num 8 b in (ret, word_of_nat v, b1))"

definition Deserialize_gint64 :: "cbuffer \<Rightarrow> gint32 \<times> 64 word \<times> cbuffer" where
  "Deserialize_gint64 b = (let (ret, v, b1) = Deserialize_num 8 b in (ret, word_of_nat v, b1))"

definition Deserialize_float :: "cbuffer \<Rightarrow> gint32 \<times> 32 word \<times> cbuffer" where
  "Deserialize_float b = (let (ret, v, b1) = Deserialize_num 4 b in (ret, word_of_nat v, b1))"

definition Deserialize_double :: "cbuffer \<Rightarrow> gint32 \<times> 64 word \<times> cbuffer" where
  "Deserialize_double b = (let (ret, v, b1) = Deserialize_num 8 b in (ret, word_of_nat v, b1))"

section \<open>Strings, byte arrays and objects\<close>

definition Serialize_string :: "byte list \<Rightarrow> cbuffer \<Rightarrow> gint32 \<times> cbuffer" where
  "Serialize_string val b =
    (let i = length val mod 2 ^ 32 in
     if i \<ge> MAX_BYTES_PER_BUFFER then (- ERANGE, b)
     else
       let b1 = snd (Serialize_guint32 (word_of_nat i) b) in
       (0, if i > 0 then APPEND (take i val) b1 else b1))"

text \<open>A string that ends before its declared length is taken as it is.\<close>

definition Deserialize_string :: "cbuffer \<Rightarrow> gint32 \<times> byte list \<times> cbuffer" where
  "Deserialize_string b =
    (if buf_size b = 0 then (- EINVAL, [], b)
     else
       let (ret, dwCount, b1) = Deserialize_guint32 b in
       if ERROR ret then (ret, [], b1)
       else if dwCount = 0 then (ret, [], b1)
       else
         let dwBytes = min (unat dwCount) (buf_size b1) in
         (0, take dwBytes (buf_ptr b1), IncOffset dwBytes b1))"

text \<open>A \<^verbatim>\<open>BufPtr\<close> may be null. \<^verbatim>\<open>Deserialize\<close> hands the declared length to \<^verbatim>\<open>Append\<close>, which copies as many bytes from the window.\<close>

definition Serialize_BufPtr :: "byte list option \<Rightarrow> cbuffer \<Rightarrow> gint32 \<times> cbuffer" where
  "Serialize_BufPtr val b =
    (let bs = (case val of None \<Rightarrow> [] | Some bs \<Rightarrow> bs); i = length bs in
     if i \<ge> MAX_BYTES_PER_BUFFER then (- ERANGE, b)
     else
       let b1 = snd (Serialize_guint32 (word_of_nat i) b) in
       if i = 0 then (0, b1) else (0, APPEND bs b1))"

definition Deserialize_BufPtr :: "cbuffer \<Rightarrow> (gint32 \<times> byte list option \<times> cbuffer) run" where
  "Deserialize_BufPtr b =
    (let (ret, i, b1) = Deserialize_guint32 b; n = unat i in
     if ERROR ret then Inr (ret, Some [], b1)
     else if n = 0 then Inr (0, None, b1)
     else if n > BUF_MAX_SIZE then Inr (- EINVAL, Some [], b1)
     else if n > MAX_BYTES_PER_BUFFER then Inr (- E2BIG, Some [], b1)
     else if n > buf_size b1 then Inl Fault_Range
     else Inr (0, Some (take n (buf_ptr b1)), IncOffset n b1))"

text \<open>
  What the classes of objects provide: serializing into a new buffer, creating an object of a class and deserializing it from the
  window, whether an object is a struct, and the two methods of struct objects that variants hold. The readers may fault: the one of
  \<^verbatim>\<open>CConfigDb2\<close> reads past its input. A reader that fails may leave an object behind.
\<close>

record 'o codec =
  o_ser :: "'o \<Rightarrow> gint32 + byte list"
  o_des :: "32 word \<Rightarrow> byte list \<Rightarrow> (gint32 \<times> 'o option) run"
  s_is :: "'o \<Rightarrow> bool"
  s_ser :: "'o \<Rightarrow> cbuffer \<Rightarrow> gint32 \<times> cbuffer"
  s_des :: "32 word \<Rightarrow> cbuffer \<Rightarrow> (gint32 \<times> 'o option \<times> cbuffer) run"

text \<open>A null object is a header alone; its version word is written with \<^verbatim>\<open>htonl\<close>.\<close>

definition Serialize_ObjPtr :: "'o codec \<Rightarrow> 'o option \<Rightarrow> cbuffer \<Rightarrow> gint32 \<times> cbuffer" where
  "Serialize_ObjPtr c val b =
    (case val of
       None \<Rightarrow>
         let b1 = snd (Serialize_guint32 0xFFFFFFFF b);
             b2 = snd (Serialize_gint32 0 b1) in
         (0, snd (Serialize_guint32 1 b2))
     | Some obj \<Rightarrow>
         (case o_ser c obj of
            Inl ret \<Rightarrow> (ret, b)
          | Inr bs \<Rightarrow>
              if length bs = 0 \<or> length bs \<ge> MAX_BYTES_PER_BUFFER then (- ERANGE, b)
              else (0, APPEND bs b)))"

definition Deserialize_ObjPtr :: "'o codec \<Rightarrow> cbuffer \<Rightarrow> (gint32 \<times> 'o option \<times> cbuffer) run" where
  "Deserialize_ObjPtr c b =
    (let dwHdrSize = 12 in
     if buf_size b < dwHdrSize then Inr (- ERANGE, None, b)
     else
       let dwClsid = be_nat (take 4 (buf_ptr b));
           dwSize = be_nat (take 4 (drop 4 (buf_ptr b))) in
       if dwSize > buf_size b - dwHdrSize then Inr (- ERANGE, None, b)
       else if dwSize = 0 then Inr (0, None, b)
       else case o_des c (word_of_nat dwClsid) (buf_ptr b) of
         Inl f \<Rightarrow> Inl f
       | Inr (ret, obj) \<Rightarrow> if ERROR ret then Inr (ret, obj, b) else Inr (0, obj, IncOffset (dwSize + dwHdrSize) b))"

section \<open>Variants\<close>

definition Variant_Serialize :: "'o codec \<Rightarrow> 'o variant \<Rightarrow> cbuffer \<Rightarrow> gint32 \<times> cbuffer" where
  "Variant_Serialize c v b =
    (let b1 = APPEND [GetTypeId v] b in
     case v of
       VarByte x \<Rightarrow> Serialize_guint8 x b1
     | VarUInt16 x \<Rightarrow> Serialize_guint16 x b1
     | VarUInt32 x \<Rightarrow> Serialize_guint32 x b1
     | VarUInt64 x \<Rightarrow> Serialize_guint64 x b1
     | VarFloat x \<Rightarrow> Serialize_float x b1
     | VarDouble x \<Rightarrow> Serialize_double x b1
     | VarObj obj \<Rightarrow>
         (case obj of
            Some x \<Rightarrow> if s_is c x then s_ser c x b1 else Serialize_ObjPtr c obj b1
          | None \<Rightarrow> Serialize_ObjPtr c obj b1)
     | VarByteArr x \<Rightarrow> Serialize_BufPtr x b1
     | VarString x \<Rightarrow> Serialize_string x b1
     | VarNone \<Rightarrow> (0, b1)
     | VarDMsg \<Rightarrow> (- ENOTSUP, b1))"

text \<open>The branch of \<^verbatim>\<open>Variant::Deserialize\<close> for objects copies eight bytes before anything is checked.\<close>

definition Variant_DeserializeObj :: "'o codec \<Rightarrow> cbuffer \<Rightarrow> (gint32 \<times> 'o option \<times> cbuffer) run" where
  "Variant_DeserializeObj c b =
    (if buf_size b < 8 then Inl Fault_Range
     else if word_of_nat (be_nat (take 4 (buf_ptr b))) = SERIAL_STRUCT_MAGIC
     then
       map_sum id (\<lambda>(ret, obj, b1). (ret, if SUCCEEDED ret then obj else None, b1))
         (s_des c (word_of_nat (be_nat (take 4 (drop 4 (buf_ptr b))))) b)
     else Deserialize_ObjPtr c b)"

definition Variant_Deserialize :: "'o codec \<Rightarrow> cbuffer \<Rightarrow> (gint32 \<times> 'o variant \<times> cbuffer) run" where
  "Variant_Deserialize c b =
    (if buf_size b = 0 then Inr (- EINVAL, VarNone, b)
     else
       let iType = hd (buf_ptr b); b1 = snd (SetOffset (m_dwOffset b + 1) b) in
       if iType = 1 then let (ret, x, b2) = Deserialize_guint8 b1 in Inr (ret, VarByte x, b2)
       else if iType = 2 then let (ret, x, b2) = Deserialize_guint16 b1 in Inr (ret, VarUInt16 x, b2)
       else if iType = 3 then let (ret, x, b2) = Deserialize_guint32 b1 in Inr (ret, VarUInt32 x, b2)
       else if iType = 4 then let (ret, x, b2) = Deserialize_guint64 b1 in Inr (ret, VarUInt64 x, b2)
       else if iType = 5 then let (ret, x, b2) = Deserialize_float b1 in Inr (ret, VarFloat x, b2)
       else if iType = 6 then let (ret, x, b2) = Deserialize_double b1 in Inr (ret, VarDouble x, b2)
       else if iType = 9 then map_sum id (\<lambda>(ret, x, b2). (ret, VarObj x, b2)) (Variant_DeserializeObj c b1)
       else if iType = 10 then map_sum id (\<lambda>(ret, x, b2). (ret, VarByteArr x, b2)) (Deserialize_BufPtr b1)
       else if iType = 7 then let (ret, x, b2) = Deserialize_string b1 in Inr (ret, VarString x, b2)
       else if iType = 0 then Inr (0, VarNone, b1)
       else Inr (- ENOTSUP, VarDMsg, b1))"

section \<open>Types and values\<close>

datatype stype =
    TBool | TByte | TInt16 | TUInt16 | TInt32 | TUInt32 | TInt64 | TUInt64 | TFloat | TDouble
  | TString | TByteArr | TObj | TVariant | TArray stype | TMap stype stype | TStruct "32 word" "stype list"

datatype 'o sval =
    VBool byte | VByte byte | VInt16 "16 word" | VUInt16 "16 word" | VInt32 "32 word" | VUInt32 "32 word"
  | VInt64 "64 word" | VUInt64 "64 word" | VFloat "32 word" | VDouble "64 word"
  | VString "byte list" | VByteArr "byte list option" | VObj "'o option" | VVariant "'o variant"
  | VArray "'o sval list" | VMap "('o sval \<times> 'o sval) list" | VStruct "'o sval list"

text \<open>The signatures that the generated code hands down with the values (\<^verbatim>\<open>g_mapTypeSig\<close> and \<^verbatim>\<open>GetSignature\<close>).\<close>

fun GetSignature :: "stype \<Rightarrow> string" where
  "GetSignature TUInt64 = ''Q''"
| "GetSignature TInt64 = ''q''"
| "GetSignature TUInt32 = ''D''"
| "GetSignature TInt32 = ''d''"
| "GetSignature TUInt16 = ''W''"
| "GetSignature TInt16 = ''w''"
| "GetSignature TFloat = ''f''"
| "GetSignature TDouble = ''F''"
| "GetSignature TBool = ''b''"
| "GetSignature TByte = ''B''"
| "GetSignature TString = ''s''"
| "GetSignature TByteArr = ''a''"
| "GetSignature TObj = ''o''"
| "GetSignature (TStruct _ _) = ''O''"
| "GetSignature TVariant = ''v''"
| "GetSignature (TArray t) = ''('' @ GetSignature t @ '')''"
| "GetSignature (TMap k t) = ''['' @ GetSignature k @ GetSignature t @ '']''"

text \<open>A value that the default constructor leaves.\<close>

fun default_val :: "stype \<Rightarrow> 'o sval" where
  "default_val TBool = VBool 0"
| "default_val TByte = VByte 0"
| "default_val TInt16 = VInt16 0"
| "default_val TUInt16 = VUInt16 0"
| "default_val TInt32 = VInt32 0"
| "default_val TUInt32 = VUInt32 0"
| "default_val TInt64 = VInt64 0"
| "default_val TUInt64 = VUInt64 0"
| "default_val TFloat = VFloat 0"
| "default_val TDouble = VDouble 0"
| "default_val TString = VString []"
| "default_val TByteArr = VByteArr None"
| "default_val TObj = VObj None"
| "default_val TVariant = VVariant VarNone"
| "default_val (TArray t) = VArray []"
| "default_val (TMap k t) = VMap []"
| "default_val (TStruct i ts) = VStruct (map default_val ts)"

text \<open>\<^verbatim>\<open>operator <\<close> on the keys of a map, which are numbers, bytes or strings here, and \<^verbatim>\<open>std::map::insert\<close> on the entries in the
  order of the keys: a key that is there keeps its value.\<close>

fun bytes_less :: "byte list \<Rightarrow> byte list \<Rightarrow> bool" where
  "bytes_less [] ys = (ys \<noteq> [])"
| "bytes_less (x # xs) [] = False"
| "bytes_less (x # xs) (y # ys) = (x < y \<or> x = y \<and> bytes_less xs ys)"

definition key_less :: "'o sval \<Rightarrow> 'o sval \<Rightarrow> bool" where
  "key_less k l =
    (case k of
       VBool x \<Rightarrow> (case l of VBool y \<Rightarrow> x < y | _ \<Rightarrow> False)
     | VByte x \<Rightarrow> (case l of VByte y \<Rightarrow> x < y | _ \<Rightarrow> False)
     | VInt16 x \<Rightarrow> (case l of VInt16 y \<Rightarrow> x <s y | _ \<Rightarrow> False)
     | VUInt16 x \<Rightarrow> (case l of VUInt16 y \<Rightarrow> x < y | _ \<Rightarrow> False)
     | VInt32 x \<Rightarrow> (case l of VInt32 y \<Rightarrow> x <s y | _ \<Rightarrow> False)
     | VUInt32 x \<Rightarrow> (case l of VUInt32 y \<Rightarrow> x < y | _ \<Rightarrow> False)
     | VInt64 x \<Rightarrow> (case l of VInt64 y \<Rightarrow> x <s y | _ \<Rightarrow> False)
     | VUInt64 x \<Rightarrow> (case l of VUInt64 y \<Rightarrow> x < y | _ \<Rightarrow> False)
     | VString x \<Rightarrow> (case l of VString y \<Rightarrow> bytes_less x y | _ \<Rightarrow> False)
     | _ \<Rightarrow> False)"

definition map_insert :: "'o sval \<times> 'o sval \<Rightarrow> ('o sval \<times> 'o sval) list \<Rightarrow> ('o sval \<times> 'o sval) list" where
  "map_insert e m =
    (let lower = takeWhile (\<lambda>x. key_less (fst x) (fst e)) m; upper = dropWhile (\<lambda>x. key_less (fst x) (fst e)) m in
     if upper \<noteq> [] \<and> \<not> key_less (fst e) (fst (hd upper)) then m else lower @ e # upper)"

section \<open>Serializing containers\<close>

type_synonym 'o serializer = "string \<Rightarrow> 'o sval \<Rightarrow> cbuffer \<Rightarrow> (gint32 \<times> cbuffer) run"

primrec ser_elems :: "'o serializer \<Rightarrow> string \<Rightarrow> 'o sval list \<Rightarrow> cbuffer \<Rightarrow> (gint32 \<times> cbuffer) run" where
  "ser_elems f sig [] b = Inr (0, b)"
| "ser_elems f sig (v # vs) b =
    (case f sig v b of Inl e \<Rightarrow> Inl e
     | Inr (ret, b1) \<Rightarrow> if ERROR ret then Inr (ret, b1) else ser_elems f sig vs b1)"

primrec ser_pairs :: "'o serializer \<Rightarrow> 'o serializer \<Rightarrow> string \<Rightarrow> string \<Rightarrow> ('o sval \<times> 'o sval) list \<Rightarrow> cbuffer \<Rightarrow>
    (gint32 \<times> cbuffer) run" where
  "ser_pairs fk fv ksig vsig [] b = Inr (0, b)"
| "ser_pairs fk fv ksig vsig (e # es) b =
    (case fk ksig (fst e) b of Inl x \<Rightarrow> Inl x
     | Inr (ret, b1) \<Rightarrow>
         if ERROR ret then Inr (ret, b1)
         else case fv vsig (snd e) b1 of Inl x \<Rightarrow> Inl x
         | Inr (ret, b2) \<Rightarrow> if ERROR ret then Inr (ret, b2) else ser_pairs fk fv ksig vsig es b2)"

text \<open>The number of bytes of the elements goes to the place that the header left for it.\<close>

definition patch_size :: "nat \<Rightarrow> 32 word \<Rightarrow> cbuffer \<Rightarrow> cbuffer run" where
  "patch_size dwBytesOff dwBytes b =
    (if dwBytesOff + 4 > length (m_pData b) then Inl Fault_Range
     else Inr (b\<lparr>m_pData := take dwBytesOff (m_pData b) @ be_bytes 4 (unat dwBytes) @ drop (dwBytesOff + 4) (m_pData b)\<rparr>))"

text \<open>The elements are serialized with a second variable \<^verbatim>\<open>ret\<close>, so that the method returns 0 when one of them fails.\<close>

definition SerializeArray :: "'o serializer \<Rightarrow> string \<Rightarrow> 'o sval list \<Rightarrow> cbuffer \<Rightarrow> (gint32 \<times> cbuffer) run" where
  "SerializeArray SerialElem szSignature vals b =
    (if szSignature = [] \<or> hd szSignature \<noteq> CHR ''('' then Inr (- EINVAL, b)
     else
       let strElemSig = tl szSignature in
       if strElemSig = [] \<or> last strElemSig \<noteq> CHR '')'' then Inr (- EINVAL, b)
       else
         let strElemSig = butlast strElemSig; dwBytesOff = m_dwOffset b;
             b1 = snd (Serialize_guint32 0 b) in
         if length vals = 0 then Inr (0, snd (Serialize_guint32 0 b1))
         else if length vals \<ge> MAX_ELEM_COUNT then Inr (- ERANGE, b1)
         else
           let b2 = snd (Serialize_guint32 (word_of_nat (length vals)) b1);
               dwHdrSize = word_of_nat (m_dwOffset b2) - word_of_nat dwBytesOff in
           case ser_elems SerialElem strElemSig vals b2 of
             Inl f \<Rightarrow> Inl f
           | Inr (ret2, b3) \<Rightarrow>
               if ERROR ret2 then Inr (0, b3)
               else map_sum id (Pair 0)
                 (patch_size dwBytesOff (word_of_nat (m_dwOffset b3) - word_of_nat dwBytesOff - dwHdrSize) b3))"

definition SerializeMap :: "'o serializer \<Rightarrow> 'o serializer \<Rightarrow> string \<Rightarrow> ('o sval \<times> 'o sval) list \<Rightarrow> cbuffer \<Rightarrow>
    (gint32 \<times> cbuffer) run" where
  "SerializeMap SerialKey SerialElem szSignature mapVals b =
    (if szSignature = [] \<or> hd szSignature \<noteq> CHR ''['' then Inr (- EINVAL, b)
     else
       let strElemSig = tl szSignature in
       if strElemSig = [] \<or> last strElemSig \<noteq> CHR '']'' then Inr (- EINVAL, b)
       else if butlast strElemSig = [] then Inl Fault_Empty
       else
         let strKeySig = take 1 (butlast strElemSig); strElemSig = tl (butlast strElemSig); dwBytesOff = m_dwOffset b;
             b1 = snd (Serialize_guint32 0 b) in
         if length mapVals = 0 then Inr (0, snd (Serialize_guint32 0 b1))
         else if length mapVals \<ge> MAX_ELEM_COUNT then Inr (- ERANGE, b1)
         else
           let b2 = snd (Serialize_guint32 (word_of_nat (length mapVals)) b1);
               dwHdrSize = word_of_nat (m_dwOffset b2) - word_of_nat dwBytesOff in
           case ser_pairs SerialKey SerialElem strKeySig strElemSig mapVals b2 of
             Inl f \<Rightarrow> Inl f
           | Inr (ret2, b3) \<Rightarrow>
               if ERROR ret2 then Inr (0, b3)
               else map_sum id (Pair 0)
                 (patch_size dwBytesOff (word_of_nat (m_dwOffset b3) - word_of_nat dwBytesOff - dwHdrSize) b3))"

text \<open>The start of the method that \<^verbatim>\<open>CImplSerialStruct::OutputSerial\<close> writes for a struct.\<close>

definition Serialize_struct_header :: "32 word \<Rightarrow> cbuffer \<Rightarrow> cbuffer" where
  "Serialize_struct_header m_dwMsgId b = snd (Serialize_guint32 m_dwMsgId (snd (Serialize_guint32 SERIAL_STRUCT_MAGIC b)))"

text \<open>The template chosen for a type; a struct is its header and a call for each field in turn, as \<^verbatim>\<open>CEmitSerialCode\<close> writes them.\<close>

fun SerialElem :: "'o codec \<Rightarrow> stype \<Rightarrow> 'o serializer" and Serialize_fields :: "'o codec \<Rightarrow> stype list \<Rightarrow> 'o sval list \<Rightarrow> cbuffer \<Rightarrow>
    (gint32 \<times> cbuffer) run" where
  "SerialElem c TBool sig v b = (case v of VBool x \<Rightarrow> Inr (Serialize_bool x b) | _ \<Rightarrow> Inr (- ENOTSUP, b))"
| "SerialElem c TByte sig v b = (case v of VByte x \<Rightarrow> Inr (Serialize_guint8 x b) | _ \<Rightarrow> Inr (- ENOTSUP, b))"
| "SerialElem c TInt16 sig v b = (case v of VInt16 x \<Rightarrow> Inr (Serialize_gint16 x b) | _ \<Rightarrow> Inr (- ENOTSUP, b))"
| "SerialElem c TUInt16 sig v b = (case v of VUInt16 x \<Rightarrow> Inr (Serialize_guint16 x b) | _ \<Rightarrow> Inr (- ENOTSUP, b))"
| "SerialElem c TInt32 sig v b = (case v of VInt32 x \<Rightarrow> Inr (Serialize_gint32 x b) | _ \<Rightarrow> Inr (- ENOTSUP, b))"
| "SerialElem c TUInt32 sig v b = (case v of VUInt32 x \<Rightarrow> Inr (Serialize_guint32 x b) | _ \<Rightarrow> Inr (- ENOTSUP, b))"
| "SerialElem c TInt64 sig v b = (case v of VInt64 x \<Rightarrow> Inr (Serialize_gint64 x b) | _ \<Rightarrow> Inr (- ENOTSUP, b))"
| "SerialElem c TUInt64 sig v b = (case v of VUInt64 x \<Rightarrow> Inr (Serialize_guint64 x b) | _ \<Rightarrow> Inr (- ENOTSUP, b))"
| "SerialElem c TFloat sig v b = (case v of VFloat x \<Rightarrow> Inr (Serialize_float x b) | _ \<Rightarrow> Inr (- ENOTSUP, b))"
| "SerialElem c TDouble sig v b = (case v of VDouble x \<Rightarrow> Inr (Serialize_double x b) | _ \<Rightarrow> Inr (- ENOTSUP, b))"
| "SerialElem c TString sig v b = (case v of VString x \<Rightarrow> Inr (Serialize_string x b) | _ \<Rightarrow> Inr (- ENOTSUP, b))"
| "SerialElem c TByteArr sig v b = (case v of VByteArr x \<Rightarrow> Inr (Serialize_BufPtr x b) | _ \<Rightarrow> Inr (- ENOTSUP, b))"
| "SerialElem c TObj sig v b = (case v of VObj x \<Rightarrow> Inr (Serialize_ObjPtr c x b) | _ \<Rightarrow> Inr (- ENOTSUP, b))"
| "SerialElem c TVariant sig v b = (case v of VVariant x \<Rightarrow> Inr (Variant_Serialize c x b) | _ \<Rightarrow> Inr (- ENOTSUP, b))"
| "SerialElem c (TArray t) sig v b = (case v of VArray vs \<Rightarrow> SerializeArray (SerialElem c t) sig vs b | _ \<Rightarrow> Inr (- ENOTSUP, b))"
| "SerialElem c (TMap k t) sig v b = (case v of VMap es \<Rightarrow> SerializeMap (SerialElem c k) (SerialElem c t) sig es b | _ \<Rightarrow> Inr (- ENOTSUP, b))"
| "SerialElem c (TStruct dwMsgId ts) sig v b = (case v of
     VStruct vs \<Rightarrow> Serialize_fields c ts vs (Serialize_struct_header dwMsgId b)
   | _ \<Rightarrow> Inr (- ENOTSUP, b))"
| "Serialize_fields c (t # ts) (v # vs) b =
    (case SerialElem c t (GetSignature t) v b of Inl f \<Rightarrow> Inl f
     | Inr (ret, b1) \<Rightarrow> if ERROR ret then Inr (ret, b1) else Serialize_fields c ts vs b1)"
| "Serialize_fields c [] vs b = Inr (0, b)"
| "Serialize_fields c (t # ts) [] b = Inr (0, b)"


section \<open>Deserializing containers\<close>

type_synonym 'o deserializer = "string \<Rightarrow> cbuffer \<Rightarrow> (gint32 \<times> 'o sval \<times> cbuffer) run"

text \<open>\<open>n\<close> elements of a vector that was resized before: after an error, the rest keeps the default value \<open>d\<close>.\<close>

primrec des_elems :: "'o deserializer \<Rightarrow> string \<Rightarrow> 'o sval \<Rightarrow> nat \<Rightarrow> cbuffer \<Rightarrow> (gint32 \<times> 'o sval list \<times> cbuffer) run" where
  "des_elems f sig d 0 b = Inr (0, [], b)"
| "des_elems f sig d (Suc n) b =
    (case f sig b of Inl e \<Rightarrow> Inl e
     | Inr (ret, v, b1) \<Rightarrow>
         if ERROR ret then Inr (ret, v # replicate n d, b1)
         else map_sum id (\<lambda>(ret, vs, b2). (ret, v # vs, b2)) (des_elems f sig d n b1))"

primrec des_pairs :: "'o deserializer \<Rightarrow> 'o deserializer \<Rightarrow> string \<Rightarrow> string \<Rightarrow> nat \<Rightarrow> ('o sval \<times> 'o sval) list \<Rightarrow> cbuffer \<Rightarrow>
    (gint32 \<times> ('o sval \<times> 'o sval) list \<times> cbuffer) run" where
  "des_pairs fk fv ksig vsig 0 m b = Inr (0, m, b)"
| "des_pairs fk fv ksig vsig (Suc n) m b =
    (case fk ksig b of Inl e \<Rightarrow> Inl e
     | Inr (ret, k, b1) \<Rightarrow>
         if ERROR ret then Inr (ret, m, b1)
         else case fv vsig b1 of Inl e \<Rightarrow> Inl e
         | Inr (ret, v, b2) \<Rightarrow>
             if ERROR ret then Inr (ret, m, b2) else des_pairs fk fv ksig vsig n (map_insert (k, v) m) b2)"

text \<open>From the check of the count on, the method sets a second variable \<^verbatim>\<open>ret\<close> and returns the first one, which is 0 then.\<close>

definition DeserialArray :: "'o deserializer \<Rightarrow> 'o sval \<Rightarrow> string \<Rightarrow> cbuffer \<Rightarrow> (gint32 \<times> 'o sval list \<times> cbuffer) run" where
  "DeserialArray DeserialElem d szSignature b =
    (if buf_size b = 0 \<or> szSignature = [] \<or> hd szSignature \<noteq> CHR ''('' then Inr (- EINVAL, [], b)
     else if buf_size b < 8 then Inr (- EINVAL, [], b)
     else
       let strElemSig = tl szSignature in
       if strElemSig = [] \<or> last strElemSig \<noteq> CHR '')'' then Inr (- EINVAL, [], b)
       else
         let (ret, dwBytes, b1) = Deserialize_guint32 b in
         if ERROR ret then Inr (ret, [], b1)
         else if unat dwBytes > MAX_BYTES_PER_BUFFER then Inr (- ERANGE, [], b1)
         else
           let (ret, dwCount, b2) = Deserialize_guint32 b1 in
           if ERROR ret then Inr (ret, [], b2)
           else if dwBytes = 0 \<or> dwCount = 0 then Inr (ret, [], b2)
           else
             let ret2 = (if unat dwCount \<ge> MAX_ELEM_COUNT then - ERANGE else 0) in
             if ERROR ret2 then Inr (ret, [], b2)
             else
               let dwHdrSize = m_dwOffset b2 - m_dwOffset b in
               case des_elems DeserialElem (butlast strElemSig) d (unat dwCount) b2 of
                 Inl f \<Rightarrow> Inl f
               | Inr (ret2, vals, b3) \<Rightarrow>
                   if ERROR ret2 then Inr (ret, vals, b3)
                   else
                     let dwActBytes = word_of_nat (m_dwOffset b3 - m_dwOffset b - dwHdrSize);
                         ret2 = (if dwActBytes \<noteq> dwBytes then - EBADMSG else ret2) in
                     Inr (ret, vals, b3))"

definition DeserialMap :: "'o deserializer \<Rightarrow> 'o deserializer \<Rightarrow> string \<Rightarrow> cbuffer \<Rightarrow>
    (gint32 \<times> ('o sval \<times> 'o sval) list \<times> cbuffer) run" where
  "DeserialMap DeserialKey DeserialElem szSignature b =
    (if buf_size b = 0 \<or> szSignature = [] \<or> hd szSignature \<noteq> CHR ''['' then Inr (- EINVAL, [], b)
     else if buf_size b < 8 then Inr (- EINVAL, [], b)
     else
       let strElemSig = tl szSignature in
       if strElemSig = [] \<or> last strElemSig \<noteq> CHR '']'' then Inr (- EINVAL, [], b)
       else if butlast strElemSig = [] then Inl Fault_Empty
       else
         let strKeySig = take 1 (butlast strElemSig); strElemSig = tl (butlast strElemSig);
             (ret, dwBytes, b1) = Deserialize_guint32 b in
         if ERROR ret then Inr (ret, [], b1)
         else if unat dwBytes > MAX_BYTES_PER_BUFFER then Inr (- ERANGE, [], b1)
         else
           let (ret, dwCount, b2) = Deserialize_guint32 b1 in
           if ERROR ret then Inr (ret, [], b2)
           else if dwCount = 0 then Inr (ret, [], b2)
           else if unat dwCount \<ge> MAX_ELEM_COUNT then Inr (- ERANGE, [], b2)
           else
             let dwHdrSize = m_dwOffset b2 - m_dwOffset b in
             case des_pairs DeserialKey DeserialElem strKeySig strElemSig (unat dwCount) [] b2 of
               Inl f \<Rightarrow> Inl f
             | Inr (ret, m, b3) \<Rightarrow>
                 if ERROR ret then Inr (ret, m, b3)
                 else
                   let dwActBytes = word_of_nat (m_dwOffset b3 - m_dwOffset b - dwHdrSize) in
                   if dwActBytes \<noteq> dwBytes then Inr (- EBADMSG, m, b3) else Inr (ret, m, b3))"

definition ret_val :: "('a \<Rightarrow> 'b) \<Rightarrow> gint32 \<times> 'a \<times> cbuffer \<Rightarrow> gint32 \<times> 'b \<times> cbuffer" where
  "ret_val f = (\<lambda>(ret, x, b). (ret, f x, b))"

text \<open>The start of the method that \<^verbatim>\<open>CImplSerialStruct::OutputDeserial\<close> writes for a struct.\<close>

definition Deserialize_struct_header :: "32 word \<Rightarrow> cbuffer \<Rightarrow> gint32 \<times> cbuffer" where
  "Deserialize_struct_header m_dwMsgId b =
    (let (ret, dwMagic, b1) = Deserialize_guint32 b in
     if ERROR ret then (ret, b1)
     else if dwMagic \<noteq> SERIAL_STRUCT_MAGIC then (- EBADMSG, b1)
     else
       let (ret, dwMsgId, b2) = Deserialize_guint32 b1 in
       if ERROR ret then (ret, b2)
       else if m_dwMsgId \<noteq> dwMsgId then (- EBADMSG, b2)
       else (ret, b2))"

fun DeserialElem :: "'o codec \<Rightarrow> stype \<Rightarrow> 'o deserializer"
and Deserialize_fields :: "'o codec \<Rightarrow> stype list \<Rightarrow> cbuffer \<Rightarrow> (gint32 \<times> 'o sval list \<times> cbuffer) run" where
  "DeserialElem c TBool sig b = Inr (ret_val VBool (Deserialize_bool b))"
| "DeserialElem c TByte sig b = Inr (ret_val VByte (Deserialize_guint8 b))"
| "DeserialElem c TInt16 sig b = Inr (ret_val VInt16 (Deserialize_gint16 b))"
| "DeserialElem c TUInt16 sig b = Inr (ret_val VUInt16 (Deserialize_guint16 b))"
| "DeserialElem c TInt32 sig b = Inr (ret_val VInt32 (Deserialize_gint32 b))"
| "DeserialElem c TUInt32 sig b = Inr (ret_val VUInt32 (Deserialize_guint32 b))"
| "DeserialElem c TInt64 sig b = Inr (ret_val VInt64 (Deserialize_gint64 b))"
| "DeserialElem c TUInt64 sig b = Inr (ret_val VUInt64 (Deserialize_guint64 b))"
| "DeserialElem c TFloat sig b = Inr (ret_val VFloat (Deserialize_float b))"
| "DeserialElem c TDouble sig b = Inr (ret_val VDouble (Deserialize_double b))"
| "DeserialElem c TString sig b = Inr (ret_val VString (Deserialize_string b))"
| "DeserialElem c TByteArr sig b = map_sum id (ret_val VByteArr) (Deserialize_BufPtr b)"
| "DeserialElem c TObj sig b = map_sum id (ret_val VObj) (Deserialize_ObjPtr c b)"
| "DeserialElem c TVariant sig b = map_sum id (ret_val VVariant) (Variant_Deserialize c b)"
| "DeserialElem c (TArray t) sig b = map_sum id (ret_val VArray) (DeserialArray (DeserialElem c t) (default_val t) sig b)"
| "DeserialElem c (TMap k t) sig b = map_sum id (ret_val VMap) (DeserialMap (DeserialElem c k) (DeserialElem c t) sig b)"
| "DeserialElem c (TStruct m_dwMsgId ts) sig b =
    (let (ret, b1) = Deserialize_struct_header m_dwMsgId b in
     if ERROR ret then Inr (ret, VStruct (map default_val ts), b1)
     else map_sum id (ret_val VStruct) (Deserialize_fields c ts b1))"
| "Deserialize_fields c [] b = Inr (0, [], b)"
| "Deserialize_fields c (t # ts) b =
    (case DeserialElem c t (GetSignature t) b of Inl f \<Rightarrow> Inl f
     | Inr (ret, v, b1) \<Rightarrow>
         if ERROR ret then Inr (ret, v # map default_val ts, b1)
         else map_sum id (\<lambda>(ret, vs, b2). (ret, v # vs, b2)) (Deserialize_fields c ts b1))"


section \<open>Bytes and buffers\<close>

text \<open>A writer stands at the end of the buffer; it has room for some bytes, and puts them there.\<close>

definition at_end :: "cbuffer \<Rightarrow> bool" where
  "at_end b \<longleftrightarrow> m_dwOffset b = length (m_pData b)"

definition room :: "byte list \<Rightarrow> cbuffer \<Rightarrow> bool" where
  "room bs b \<longleftrightarrow> length (m_pData b) + length bs \<le> MAX_BYTES_PER_BUFFER"

definition put :: "byte list \<Rightarrow> cbuffer \<Rightarrow> cbuffer" where
  "put bs b = b\<lparr>m_pData := m_pData b @ bs, m_dwOffset := m_dwOffset b + length bs\<rparr>"

lemma put_simps [simp]:
  "at_end b \<Longrightarrow> at_end (put bs b)" "put [] b = b" "put ys (put xs b) = put (xs @ ys) b"
  "m_pData (put bs b) = m_pData b @ bs" "m_dwOffset (put bs b) = m_dwOffset b + length bs"
  by (simp_all add: at_end_def put_def)

lemma room_simps:
  "room (xs @ ys) b \<longleftrightarrow> room xs b \<and> room ys (put xs b)" "room (x # ys) b \<longleftrightarrow> room [x] b \<and> room ys (put [x] b)"
  by (auto simp: room_def)

lemma APPEND_put:
  assumes "at_end b" "room bs b"
  shows "APPEND bs b = put bs b"
proof (cases "bs = []")
  case True
  then show ?thesis using assms by (cases b) (auto simp: APPEND_def Append_def SetOffset_def at_end_def)
next
  case False
  then show ?thesis using assms
    by (cases b) (auto simp: APPEND_def Append_def SetOffset_def at_end_def room_def put_def buf_size_def buf_ptr_def)
qed

text \<open>A reader has the bytes before it, and goes on behind them.\<close>

definition ahead :: "byte list \<Rightarrow> cbuffer \<Rightarrow> bool" where
  "ahead bs b \<longleftrightarrow> length (m_pData b) \<le> MAX_BYTES_PER_BUFFER \<and> (\<exists>rest. buf_ptr b = bs @ rest)"

definition skip :: "nat \<Rightarrow> cbuffer \<Rightarrow> cbuffer" where
  "skip n b = b\<lparr>m_dwOffset := m_dwOffset b + n\<rparr>"

lemma skip_simps [simp]:
  "skip 0 b = b" "skip n (skip m b) = skip (m + n) b" "m_pData (skip n b) = m_pData b" "m_dwOffset (skip n b) = m_dwOffset b + n"
  by (simp_all add: skip_def add.assoc)

lemma ahead_size:
  assumes "ahead bs b"
  shows "length bs \<le> buf_size b" "buf_size b \<le> MAX_BYTES_PER_BUFFER"
proof -
  obtain rest where r: "buf_ptr b = bs @ rest" using assms by (auto simp: ahead_def)
  have "buf_size b = length (buf_ptr b)" by (simp add: buf_ptr_def buf_size_def)
  then show "length bs \<le> buf_size b" using r by simp
  show "buf_size b \<le> MAX_BYTES_PER_BUFFER" using assms le_trans[OF diff_le_self] by (auto simp: ahead_def buf_size_def)
qed

lemma ahead_append: "ahead (xs @ ys) b \<longleftrightarrow> ahead xs b \<and> ahead ys (skip (length xs) b)"
proof
  assume "ahead (xs @ ys) b"
  then obtain rest where r: "buf_ptr b = xs @ ys @ rest" "length (m_pData b) \<le> MAX_BYTES_PER_BUFFER" by (auto simp: ahead_def)
  then have "buf_ptr (skip (length xs) b) = ys @ rest"
    by (simp add: buf_ptr_def skip_def add.commute flip: drop_drop)
  then show "ahead xs b \<and> ahead ys (skip (length xs) b)" using r by (simp add: ahead_def skip_def)
next
  assume a: "ahead xs b \<and> ahead ys (skip (length xs) b)"
  then obtain r1 r2 where r: "buf_ptr b = xs @ r1" "buf_ptr (skip (length xs) b) = ys @ r2" by (auto simp: ahead_def)
  then have "r1 = ys @ r2" by (simp add: buf_ptr_def skip_def add.commute flip: drop_drop)
  then show "ahead (xs @ ys) b" using a r by (auto simp: ahead_def)
qed

lemma ahead_take: "ahead bs b \<Longrightarrow> take (length bs) (buf_ptr b) = bs"
  by (auto simp: ahead_def)

lemma SetOffset_skip:
  assumes "n \<le> buf_size b" "0 < buf_size b"
  shows "snd (SetOffset (m_dwOffset b + n) b) = skip n b" "IncOffset n b = skip n b"
  using assms by (auto simp: SetOffset_def skip_def buf_size_def IncOffset_def)

lemma Deserialize_num_get:
  assumes "ahead bs b" "bs \<noteq> []"
  shows "Deserialize_num (length bs) b = (0, be_nat bs, skip (length bs) b)"
  using ahead_size[OF assms(1)] ahead_take[OF assms(1)] assms(2)
  by (cases bs) (auto simp: Deserialize_num_def SetOffset_skip)


section \<open>The wire format\<close>

text \<open>What the bytes of a value are, and which values can be sent. The bytes of a struct in a variant are what its method writes into an empty
  buffer.\<close>

definition enc_struct :: "'o codec \<Rightarrow> 'o \<Rightarrow> byte list" where
  "enc_struct c obj = m_pData (snd (s_ser c obj \<lparr>m_pData = [], m_dwOffset = 0\<rparr>))"

fun enc_obj :: "'o codec \<Rightarrow> 'o option \<Rightarrow> byte list" where
  "enc_obj c None = be_bytes 4 0xFFFFFFFF @ be_bytes 4 0 @ be_bytes 4 1"
| "enc_obj c (Some obj) = (case o_ser c obj of Inl _ \<Rightarrow> [] | Inr bs \<Rightarrow> bs)"

definition enc_bytes :: "byte list \<Rightarrow> byte list" where
  "enc_bytes bs = be_bytes 4 (length bs) @ bs"

fun enc_variant :: "'o codec \<Rightarrow> 'o variant \<Rightarrow> byte list" where
  "enc_variant c VarNone = [0]"
| "enc_variant c (VarByte x) = [1, x]"
| "enc_variant c (VarUInt16 x) = 2 # be_bytes 2 (unat x)"
| "enc_variant c (VarUInt32 x) = 3 # be_bytes 4 (unat x)"
| "enc_variant c (VarUInt64 x) = 4 # be_bytes 8 (unat x)"
| "enc_variant c (VarFloat x) = 5 # be_bytes 4 (unat x)"
| "enc_variant c (VarDouble x) = 6 # be_bytes 8 (unat x)"
| "enc_variant c (VarString s) = 7 # enc_bytes s"
| "enc_variant c VarDMsg = [8]"
| "enc_variant c (VarObj obj) = 9 # (case obj of None \<Rightarrow> enc_obj c None | Some x \<Rightarrow> if s_is c x then enc_struct c x else enc_obj c (Some x))"
| "enc_variant c (VarByteArr bs) = 10 # enc_bytes (case bs of None \<Rightarrow> [] | Some bs \<Rightarrow> bs)"

definition enc_list :: "byte list list \<Rightarrow> byte list" where
  "enc_list bss = be_bytes 4 (length (concat bss)) @ be_bytes 4 (length bss) @ concat bss"

fun encode :: "'o codec \<Rightarrow> stype \<Rightarrow> 'o sval \<Rightarrow> byte list"
and encode_fields :: "'o codec \<Rightarrow> stype list \<Rightarrow> 'o sval list \<Rightarrow> byte list" where
  "encode c (TArray t) v = (case v of VArray vs \<Rightarrow> enc_list (map (encode c t) vs) | _ \<Rightarrow> [])"
| "encode c (TMap k t) v =
    (case v of VMap es \<Rightarrow> enc_list (map (\<lambda>e. encode c k (fst e) @ encode c t (snd e)) es) | _ \<Rightarrow> [])"
| "encode c (TStruct dwMsgId ts) v =
    (case v of VStruct vs \<Rightarrow> be_bytes 4 (unat SERIAL_STRUCT_MAGIC) @ be_bytes 4 (unat dwMsgId) @ encode_fields c ts vs | _ \<Rightarrow> [])"
| "encode c _ v =
    (case v of
       VBool x \<Rightarrow> [x] | VByte x \<Rightarrow> [x] | VInt16 x \<Rightarrow> be_bytes 2 (unat x) | VUInt16 x \<Rightarrow> be_bytes 2 (unat x)
     | VInt32 x \<Rightarrow> be_bytes 4 (unat x) | VUInt32 x \<Rightarrow> be_bytes 4 (unat x) | VInt64 x \<Rightarrow> be_bytes 8 (unat x)
     | VUInt64 x \<Rightarrow> be_bytes 8 (unat x) | VFloat x \<Rightarrow> be_bytes 4 (unat x) | VDouble x \<Rightarrow> be_bytes 8 (unat x)
     | VString s \<Rightarrow> enc_bytes s | VByteArr bs \<Rightarrow> enc_bytes (case bs of None \<Rightarrow> [] | Some bs \<Rightarrow> bs)
     | VObj obj \<Rightarrow> enc_obj c obj | VVariant x \<Rightarrow> enc_variant c x | _ \<Rightarrow> [])"
| "encode_fields c [] vs = []"
| "encode_fields c (t # ts) vs = (case vs of [] \<Rightarrow> [] | v # vs \<Rightarrow> encode c t v @ encode_fields c ts vs)"

definition bytes_ok :: "byte list option \<Rightarrow> bool" where
  "bytes_ok x \<longleftrightarrow> (case x of None \<Rightarrow> True | Some bs \<Rightarrow> bs \<noteq> [] \<and> length bs < MAX_BYTES_PER_BUFFER)"

definition obj_ok :: "'o codec \<Rightarrow> 'o option \<Rightarrow> bool" where
  "obj_ok c x \<longleftrightarrow> (case x of None \<Rightarrow> False | Some obj \<Rightarrow> (case o_ser c obj of Inl _ \<Rightarrow> False | Inr _ \<Rightarrow> True))"

definition variant_ok :: "'o codec \<Rightarrow> 'o variant \<Rightarrow> bool" where
  "variant_ok c v \<longleftrightarrow>
    (case v of
       VarString s \<Rightarrow> length s < MAX_BYTES_PER_BUFFER
     | VarDMsg \<Rightarrow> False
     | VarObj x \<Rightarrow> (case x of None \<Rightarrow> False | Some obj \<Rightarrow> s_is c obj \<or> obj_ok c x)
     | VarByteArr x \<Rightarrow> bytes_ok x
     | _ \<Rightarrow> True)"

definition is_key :: "stype \<Rightarrow> bool" where
  "is_key t \<longleftrightarrow> t \<in> {TBool, TByte, TInt16, TUInt16, TInt32, TUInt32, TInt64, TUInt64, TString}"

text \<open>The values that come back as they were sent. A null object, an empty byte array that is not null and a message in a variant do not.\<close>

fun val_ok :: "'o codec \<Rightarrow> stype \<Rightarrow> 'o sval \<Rightarrow> bool"
and vals_ok :: "'o codec \<Rightarrow> stype list \<Rightarrow> 'o sval list \<Rightarrow> bool" where
  "val_ok c TBool v = (case v of VBool _ \<Rightarrow> True | _ \<Rightarrow> False)"
| "val_ok c TByte v = (case v of VByte _ \<Rightarrow> True | _ \<Rightarrow> False)"
| "val_ok c TInt16 v = (case v of VInt16 _ \<Rightarrow> True | _ \<Rightarrow> False)"
| "val_ok c TUInt16 v = (case v of VUInt16 _ \<Rightarrow> True | _ \<Rightarrow> False)"
| "val_ok c TInt32 v = (case v of VInt32 _ \<Rightarrow> True | _ \<Rightarrow> False)"
| "val_ok c TUInt32 v = (case v of VUInt32 _ \<Rightarrow> True | _ \<Rightarrow> False)"
| "val_ok c TInt64 v = (case v of VInt64 _ \<Rightarrow> True | _ \<Rightarrow> False)"
| "val_ok c TUInt64 v = (case v of VUInt64 _ \<Rightarrow> True | _ \<Rightarrow> False)"
| "val_ok c TFloat v = (case v of VFloat _ \<Rightarrow> True | _ \<Rightarrow> False)"
| "val_ok c TDouble v = (case v of VDouble _ \<Rightarrow> True | _ \<Rightarrow> False)"
| "val_ok c TString v = (case v of VString s \<Rightarrow> length s < MAX_BYTES_PER_BUFFER | _ \<Rightarrow> False)"
| "val_ok c TByteArr v = (case v of VByteArr x \<Rightarrow> bytes_ok x | _ \<Rightarrow> False)"
| "val_ok c TObj v = (case v of VObj x \<Rightarrow> obj_ok c x | _ \<Rightarrow> False)"
| "val_ok c TVariant v = (case v of VVariant x \<Rightarrow> variant_ok c x | _ \<Rightarrow> False)"
| "val_ok c (TArray t) v =
    (case v of VArray vs \<Rightarrow> length vs < MAX_ELEM_COUNT \<and> (\<forall>v\<in>set vs. val_ok c t v) | _ \<Rightarrow> False)"
| "val_ok c (TMap k t) v =
    (case v of
       VMap es \<Rightarrow> is_key k \<and> length es < MAX_ELEM_COUNT \<and> sorted_wrt (\<lambda>a b. key_less (fst a) (fst b)) es \<and>
         (\<forall>e\<in>set es. val_ok c k (fst e) \<and> val_ok c t (snd e))
     | _ \<Rightarrow> False)"
| "val_ok c (TStruct i ts) v = (case v of VStruct vs \<Rightarrow> vals_ok c ts vs | _ \<Rightarrow> False)"
| "vals_ok c [] vs = (vs = [])"
| "vals_ok c (t # ts) vs = (case vs of [] \<Rightarrow> False | v # vs \<Rightarrow> val_ok c t v \<and> vals_ok c ts vs)"

text \<open>What the format relies on of a class: its bytes start with a header that tells the class and the number of the bytes after it,
  the class identifier is not the magic number of structs, and the object can be made from the bytes. The methods of a struct put its bytes, which
  start with the magic number and the identifier of the struct, behind what is there, and read the struct from them.\<close>

definition codec_ok :: "'o codec \<Rightarrow> bool" where
  "codec_ok c \<longleftrightarrow>
    (\<forall>obj bs. o_ser c obj = Inr bs \<longrightarrow>
       12 < length bs \<and> length bs < MAX_BYTES_PER_BUFFER \<and>
       be_nat (take 4 (drop 4 bs)) = length bs - 12 \<and> word_of_nat (be_nat (take 4 bs)) \<noteq> SERIAL_STRUCT_MAGIC \<and>
       (\<forall>rest. o_des c (word_of_nat (be_nat (take 4 bs))) (bs @ rest) = Inr (0, Some obj))) \<and>
    (\<forall>obj. s_is c obj \<longrightarrow>
       (\<exists>i rest. enc_struct c obj = be_bytes 4 (unat SERIAL_STRUCT_MAGIC) @ be_bytes 4 (unat i) @ rest \<and>
         (\<forall>b. at_end b \<longrightarrow> room (enc_struct c obj) b \<longrightarrow> s_ser c obj b = (0, put (enc_struct c obj) b)) \<and>
         (\<forall>b. ahead (enc_struct c obj) b \<longrightarrow> s_des c i b = Inr (0, Some obj, skip (length (enc_struct c obj)) b))))"

text \<open>An element with its two methods, as the templates for containers use them.\<close>

locale wire_format =
  fixes ser :: "'o sval \<Rightarrow> cbuffer \<Rightarrow> (gint32 \<times> cbuffer) run"
    and des :: "cbuffer \<Rightarrow> (gint32 \<times> 'o sval \<times> cbuffer) run"
    and enc :: "'o sval \<Rightarrow> byte list" and ok :: "'o sval \<Rightarrow> bool"
  assumes ser_put: "ok v \<Longrightarrow> at_end b \<Longrightarrow> room (enc v) b \<Longrightarrow> ser v b = Inr (0, put (enc v) b)"
    and des_get: "ok v \<Longrightarrow> ahead (enc v) b \<Longrightarrow> des b = Inr (0, v, skip (length (enc v)) b)"
    and enc_nonempty: "ok v \<Longrightarrow> enc v \<noteq> []"
begin

lemma ser_elems_put:
  assumes "f sig = ser" "\<forall>v\<in>set vs. ok v" "at_end b" "room (concat (map enc vs)) b"
  shows "ser_elems f sig vs b = Inr (0, put (concat (map enc vs)) b)"
  using assms(2-)
proof (induction vs arbitrary: b)
  case (Cons v vs)
  then have "ser v b = Inr (0, put (enc v) b)" by (intro ser_put) (auto simp: room_simps)
  moreover have "ser_elems f sig vs (put (enc v) b) = Inr (0, put (concat (map enc vs)) (put (enc v) b))"
    by (rule Cons.IH) (use Cons.prems in \<open>auto simp: room_simps\<close>)
  ultimately show ?case using assms(1) by simp
qed simp

lemma des_elems_get:
  assumes "f sig = des" "\<forall>v\<in>set vs. ok v" "ahead (concat (map enc vs)) b"
  shows "des_elems f sig d (length vs) b = Inr (0, vs, skip (length (concat (map enc vs))) b)"
  using assms(2-)
proof (induction vs arbitrary: b)
  case (Cons v vs)
  then have "des b = Inr (0, v, skip (length (enc v)) b)" by (intro des_get) (auto simp: ahead_append)
  moreover have "des_elems f sig d (length vs) (skip (length (enc v)) b) =
      Inr (0, vs, skip (length (concat (map enc vs))) (skip (length (enc v)) b))"
    by (rule Cons.IH) (use Cons.prems in \<open>auto simp: ahead_append\<close>)
  ultimately show ?case using assms(1) by simp
qed simp

lemma concat_nonempty: "\<forall>v\<in>set vs. ok v \<Longrightarrow> vs \<noteq> [] \<Longrightarrow> concat (map enc vs) \<noteq> []"
  using enc_nonempty by (cases vs) auto

end


section \<open>Containers\<close>

lemma unat_word_small: "n < 2 ^ 32 \<Longrightarrow> unat (word_of_nat n :: 32 word) = n"
  by (simp add: unat_of_nat)

lemma Serialize_guint32_put:
  "at_end b \<Longrightarrow> room (be_bytes 4 (unat v)) b \<Longrightarrow> Serialize_guint32 v b = (0, put (be_bytes 4 (unat v)) b)"
  by (simp add: Serialize_guint32_def APPEND_put)

lemma Deserialize_guint32_get:
  assumes "ahead (be_bytes 4 n) b" "n < 2 ^ 32"
  shows "Deserialize_guint32 b = (0, word_of_nat n, skip 4 b)"
proof -
  have "be_bytes 4 n \<noteq> []" by (simp flip: length_greater_0_conv)
  then have "Deserialize_num 4 b = (0, n, skip 4 b)"
    using Deserialize_num_get[OF assms(1)] assms(2) by (simp add: be_nat_bytes)
  then show ?thesis by (simp add: Deserialize_guint32_def)
qed

lemma be_bytes_word0: "be_bytes 4 0 = be_bytes 4 (unat (0 :: 32 word))" by simp

text \<open>The header, the elements, and the size that is written into the header afterwards.\<close>

lemma patch_size_put:
  assumes "at_end b" "room (enc_list bss) b"
  shows "patch_size (m_dwOffset b)
      (word_of_nat (m_dwOffset b + 8 + length (concat bss)) - word_of_nat (m_dwOffset b) -
        (word_of_nat (m_dwOffset b + 8) - word_of_nat (m_dwOffset b)))
      (put (be_bytes 4 0 @ be_bytes 4 (length bss) @ concat bss) b) = Inr (put (enc_list bss) b)"
proof -
  let ?L = "length (concat bss)"
  have "?L \<le> MAX_BYTES_PER_BUFFER" using assms(2) by (simp add: room_def enc_list_def)
  then have L: "unat (word_of_nat ?L :: 32 word) = ?L" by (intro unat_word_small) simp
  have w: "word_of_nat (m_dwOffset b + 8 + ?L) - word_of_nat (m_dwOffset b) -
      (word_of_nat (m_dwOffset b + 8) - word_of_nat (m_dwOffset b)) = (word_of_nat ?L :: 32 word)"
    by (simp add: algebra_simps)
  show ?thesis unfolding w patch_size_def L
    using assms(1) by (simp add: at_end_def put_def enc_list_def)
qed

lemma container_header:
  assumes "at_end b" "room (enc_list bss) b" "length bss < MAX_ELEM_COUNT"
  shows "Serialize_guint32 0 b = (0, put (be_bytes 4 0) b)"
    "Serialize_guint32 (word_of_nat (length bss)) (put (be_bytes 4 0) b) = (0, put (be_bytes 4 0 @ be_bytes 4 (length bss)) b)"
    "room (concat bss) (put (be_bytes 4 0 @ be_bytes 4 (length bss)) b)"
proof -
  have r: "room (be_bytes 4 0) b" "room (be_bytes 4 (length bss)) (put (be_bytes 4 0) b)"
    using assms(2) by (simp_all add: room_def enc_list_def)
  have n: "unat (word_of_nat (length bss) :: 32 word) = length bss" using assms(3) by (intro unat_word_small) simp
  show "Serialize_guint32 0 b = (0, put (be_bytes 4 0) b)"
    using Serialize_guint32_put[OF assms(1), of 0] r(1) by (simp only: unat_0)
  show "Serialize_guint32 (word_of_nat (length bss)) (put (be_bytes 4 0) b) = (0, put (be_bytes 4 0 @ be_bytes 4 (length bss)) b)"
    using Serialize_guint32_put[of "put (be_bytes 4 0) b" "word_of_nat (length bss)"] r(2) assms(1) n by simp
  show "room (concat bss) (put (be_bytes 4 0 @ be_bytes 4 (length bss)) b)"
    using assms(2) by (simp add: room_def enc_list_def)
qed

lemma container_ahead:
  assumes "ahead (enc_list bss) b" "length bss < MAX_ELEM_COUNT"
  shows "8 \<le> buf_size b" "Deserialize_guint32 b = (0, word_of_nat (length (concat bss)), skip 4 b)"
    "length (concat bss) \<le> MAX_BYTES_PER_BUFFER"
    "Deserialize_guint32 (skip 4 b) = (0, word_of_nat (length bss), skip 8 b)"
    "ahead (concat bss) (skip 8 b)"
proof -
  show "8 \<le> buf_size b" and le: "length (concat bss) \<le> MAX_BYTES_PER_BUFFER"
    using ahead_size[OF assms(1)] by (simp_all add: enc_list_def)
  have a: "ahead (be_bytes 4 (length (concat bss))) b" "ahead (be_bytes 4 (length bss)) (skip 4 b)"
    using assms(1) by (simp_all add: enc_list_def ahead_append)
  show "ahead (concat bss) (skip 8 b)" using assms(1) by (simp add: enc_list_def ahead_append)
  show "Deserialize_guint32 b = (0, word_of_nat (length (concat bss)), skip 4 b)"
    by (rule Deserialize_guint32_get[OF a(1)]) (use le in simp)
  show "Deserialize_guint32 (skip 4 b) = (0, word_of_nat (length bss), skip 8 b)"
    using Deserialize_guint32_get[OF a(2)] assms(2) by simp
qed

context wire_format
begin

lemma SerializeArray_put:
  assumes "f s = ser" "\<forall>v\<in>set vs. ok v" "length vs < MAX_ELEM_COUNT" "at_end b" "room (enc_list (map enc vs)) b"
  shows "SerializeArray f (''('' @ s @ '')'') vs b = Inr (0, put (enc_list (map enc vs)) b)"
proof -
  note H = container_header[OF assms(4,5)]
  show ?thesis
  proof (cases "vs = []")
    case True
    then show ?thesis using H(1,2) by (simp add: SerializeArray_def enc_list_def)
  next
    case False
    let ?b2 = "put (be_bytes 4 0 @ be_bytes 4 (length vs)) b"
    have "ser_elems f s vs ?b2 = Inr (0, put (concat (map enc vs)) ?b2)"
      by (rule ser_elems_put[where f = f and sig = s, OF assms(1,2)]) (use assms(3,4) H(3) in simp_all)
    then show ?thesis
      using False assms(3) H(1,2) patch_size_put[OF assms(4,5)]
      by (simp add: SerializeArray_def Let_def)
  qed
qed

lemma DeserialArray_get:
  assumes "f s = des" "\<forall>v\<in>set vs. ok v" "length vs < MAX_ELEM_COUNT" "ahead (enc_list (map enc vs)) b"
  shows "DeserialArray f d (''('' @ s @ '')'') b = Inr (0, vs, skip (length (enc_list (map enc vs))) b)"
proof -
  note H = container_ahead[OF assms(4)]
  let ?L = "length (concat (map enc vs))"
  have n: "unat (word_of_nat (length vs) :: 32 word) = length vs" "unat (word_of_nat ?L :: 32 word) = ?L"
    using assms(3) H(3) by (simp_all add: unat_word_small)
  have len: "length (enc_list (map enc vs)) = 8 + ?L" by (simp add: enc_list_def)
  show ?thesis
  proof (cases "vs = []")
    case True
    then show ?thesis using H(1,2,4) by (simp add: DeserialArray_def Let_def enc_list_def)
  next
    case False
    have z: "(word_of_nat (length vs) :: 32 word) \<noteq> 0" "(word_of_nat ?L :: 32 word) \<noteq> 0"
      using n False concat_nonempty[OF assms(2) False] by (auto simp flip: unat_eq_0)
    have "des_elems f s d (length vs) (skip 8 b) = Inr (0, vs, skip (8 + ?L) b)"
      using des_elems_get[where f = f and sig = s and d = d, OF assms(1,2), of "skip 8 b"] H(5) assms(3) by simp
    then show ?thesis
      using z n assms(3) H by (simp add: DeserialArray_def Let_def len)
  qed
qed

end


lemma map_insert_last: "\<forall>x\<in>set m. key_less (fst x) (fst e) \<Longrightarrow> map_insert e m = m @ [e]"
  by (simp add: map_insert_def Let_def dropWhile_eq_Nil_conv takeWhile_eq_all_conv[THEN iffD2])

locale wire_map = key: wire_format kser kdes kenc kok + val: wire_format ser des enc ok
  for kser :: "'o sval \<Rightarrow> cbuffer \<Rightarrow> (gint32 \<times> cbuffer) run" and kdes kenc kok
    and ser :: "'o sval \<Rightarrow> cbuffer \<Rightarrow> (gint32 \<times> cbuffer) run" and des enc ok
begin

abbreviation enc_pair :: "'o sval \<times> 'o sval \<Rightarrow> byte list" where
  "enc_pair e \<equiv> kenc (fst e) @ enc (snd e)"

abbreviation pair_ok :: "'o sval \<times> 'o sval \<Rightarrow> bool" where
  "pair_ok e \<equiv> kok (fst e) \<and> ok (snd e)"

lemma ser_pairs_put:
  assumes "fk ks = kser" "f s = ser" "\<forall>e\<in>set es. pair_ok e" "at_end b" "room (concat (map enc_pair es)) b"
  shows "ser_pairs fk f ks s es b = Inr (0, put (concat (map enc_pair es)) b)"
  using assms(3-)
proof (induction es arbitrary: b)
  case (Cons e es)
  then have "kser (fst e) b = Inr (0, put (kenc (fst e)) b)" by (intro key.ser_put) (auto simp: room_simps)
  moreover have "ser (snd e) (put (kenc (fst e)) b) = Inr (0, put (enc_pair e) b)"
    using val.ser_put[of "snd e" "put (kenc (fst e)) b"] Cons.prems by (auto simp: room_simps)
  moreover have "ser_pairs fk f ks s es (put (enc_pair e) b) = Inr (0, put (concat (map enc_pair es)) (put (enc_pair e) b))"
    by (rule Cons.IH) (use Cons.prems in \<open>auto simp: room_simps\<close>)
  ultimately show ?case using assms(1,2) by simp
qed simp

lemma des_pairs_get:
  assumes "fk ks = kdes" "f s = des" "\<forall>e\<in>set es. pair_ok e" "ahead (concat (map enc_pair es)) b"
    "sorted_wrt (\<lambda>a b. key_less (fst a) (fst b)) (m @ es)"
  shows "des_pairs fk f ks s (length es) m b = Inr (0, m @ es, skip (length (concat (map enc_pair es))) b)"
  using assms(3-)
proof (induction es arbitrary: m b)
  case (Cons e es)
  then have "kdes b = Inr (0, fst e, skip (length (kenc (fst e))) b)" by (intro key.des_get) (auto simp: ahead_append)
  moreover have "des (skip (length (kenc (fst e))) b) = Inr (0, snd e, skip (length (enc_pair e)) b)"
    using val.des_get[of "snd e" "skip (length (kenc (fst e))) b"] Cons.prems by (auto simp: ahead_append)
  moreover have "map_insert e m = m @ [e]"
    by (rule map_insert_last) (use Cons.prems in \<open>auto simp: sorted_wrt_append\<close>)
  moreover have "des_pairs fk f ks s (length es) (m @ [e]) (skip (length (enc_pair e)) b) =
      Inr (0, (m @ [e]) @ es, skip (length (concat (map enc_pair es))) (skip (length (enc_pair e)) b))"
    by (rule Cons.IH) (use Cons.prems in \<open>auto simp: ahead_append add.commute\<close>)
  ultimately show ?case using assms(1,2) by (simp add: add.assoc)
qed simp

lemma SerializeMap_put:
  assumes "fk [k] = kser" "f s = ser" "\<forall>e\<in>set es. pair_ok e" "length es < MAX_ELEM_COUNT" "at_end b"
    "room (enc_list (map enc_pair es)) b"
  shows "SerializeMap fk f (''['' @ [k] @ s @ '']'') es b = Inr (0, put (enc_list (map enc_pair es)) b)"
proof -
  note H = container_header[OF assms(5,6)]
  show ?thesis
  proof (cases "es = []")
    case True
    then show ?thesis using H(1,2) by (simp add: SerializeMap_def enc_list_def)
  next
    case False
    let ?b2 = "put (be_bytes 4 0 @ be_bytes 4 (length es)) b"
    have "ser_pairs fk f [k] s es ?b2 = Inr (0, put (concat (map enc_pair es)) ?b2)"
      by (rule ser_pairs_put[where fk = fk and ks = "[k]" and f = f and s = s, OF assms(1,2,3)]) (use assms(4,5) H(3) in simp_all)
    then show ?thesis
      using False assms(4) H(1,2) patch_size_put[OF assms(5,6)]
      by (simp add: SerializeMap_def Let_def butlast_append)
  qed
qed

lemma DeserialMap_get:
  assumes "fk [k] = kdes" "f s = des" "\<forall>e\<in>set es. pair_ok e" "length es < MAX_ELEM_COUNT"
    "ahead (enc_list (map enc_pair es)) b" "sorted_wrt (\<lambda>a b. key_less (fst a) (fst b)) es"
  shows "DeserialMap fk f (''['' @ [k] @ s @ '']'') b = Inr (0, es, skip (length (enc_list (map enc_pair es))) b)"
proof -
  note H = container_ahead[OF assms(5)]
  let ?L = "length (concat (map enc_pair es))"
  have n: "unat (word_of_nat (length es) :: 32 word) = length es" "unat (word_of_nat ?L :: 32 word) = ?L"
    using assms(4) H(3) by (simp_all add: unat_word_small)
  have len: "length (enc_list (map enc_pair es)) = 8 + ?L" by (simp add: enc_list_def)
  show ?thesis
  proof (cases "es = []")
    case True
    then show ?thesis using H(1,2,4) by (simp add: DeserialMap_def Let_def enc_list_def butlast_append)
  next
    case False
    have z: "(word_of_nat (length es) :: 32 word) \<noteq> 0"
      using n False by (auto simp flip: unat_eq_0)
    have "des_pairs fk f [k] s (length es) [] (skip 8 b) = Inr (0, [] @ es, skip ?L (skip 8 b))"
      by (rule des_pairs_get[where fk = fk and ks = "[k]" and f = f and s = s, OF assms(1,2,3)]) (use H(5) assms(4,6) in simp_all)
    then show ?thesis
      using z n assms(4) H by (simp add: DeserialMap_def Let_def len butlast_append)
  qed
qed

end


section \<open>Every type of the interface language has its wire format\<close>

lemma number_put:
  assumes "at_end b"
  shows "room (be_bytes 2 (unat x16)) b \<Longrightarrow> Serialize_gint16 x16 b = (0, put (be_bytes 2 (unat x16)) b)"
    "room (be_bytes 2 (unat x16)) b \<Longrightarrow> Serialize_guint16 x16 b = (0, put (be_bytes 2 (unat x16)) b)"
    "room (be_bytes 4 (unat x32)) b \<Longrightarrow> Serialize_gint32 x32 b = (0, put (be_bytes 4 (unat x32)) b)"
    "room (be_bytes 4 (unat x32)) b \<Longrightarrow> Serialize_float x32 b = (0, put (be_bytes 4 (unat x32)) b)"
    "room (be_bytes 8 (unat x64)) b \<Longrightarrow> Serialize_gint64 x64 b = (0, put (be_bytes 8 (unat x64)) b)"
    "room (be_bytes 8 (unat x64)) b \<Longrightarrow> Serialize_guint64 x64 b = (0, put (be_bytes 8 (unat x64)) b)"
    "room (be_bytes 8 (unat x64)) b \<Longrightarrow> Serialize_double x64 b = (0, put (be_bytes 8 (unat x64)) b)"
    "room [x8] b \<Longrightarrow> Serialize_bool x8 b = (0, put [x8] b)"
    "room [x8] b \<Longrightarrow> Serialize_guint8 x8 b = (0, put [x8] b)"
  by (simp_all add: APPEND_put[OF assms] Serialize_gint16_def Serialize_guint16_def Serialize_gint32_def Serialize_float_def
      Serialize_gint64_def Serialize_guint64_def Serialize_double_def Serialize_bool_def Serialize_guint8_def)

lemma Deserialize_num_bytes:
  "ahead (be_bytes n v) b \<Longrightarrow> 0 < n \<Longrightarrow> Deserialize_num n b = (0, be_nat (be_bytes n v), skip n b)"
  using Deserialize_num_get[of "be_bytes n v" b] by (simp flip: length_greater_0_conv)

lemma number_get:
  "ahead (be_bytes 2 (unat x16)) b \<Longrightarrow> Deserialize_gint16 b = (0, x16, skip 2 b)"
  "ahead (be_bytes 2 (unat x16)) b \<Longrightarrow> Deserialize_guint16 b = (0, x16, skip 2 b)"
  "ahead (be_bytes 4 (unat x32)) b \<Longrightarrow> Deserialize_gint32 b = (0, x32, skip 4 b)"
  "ahead (be_bytes 4 (unat x32)) b \<Longrightarrow> Deserialize_guint32 b = (0, x32, skip 4 b)"
  "ahead (be_bytes 4 (unat x32)) b \<Longrightarrow> Deserialize_float b = (0, x32, skip 4 b)"
  "ahead (be_bytes 8 (unat x64)) b \<Longrightarrow> Deserialize_gint64 b = (0, x64, skip 8 b)"
  "ahead (be_bytes 8 (unat x64)) b \<Longrightarrow> Deserialize_guint64 b = (0, x64, skip 8 b)"
  "ahead (be_bytes 8 (unat x64)) b \<Longrightarrow> Deserialize_double b = (0, x64, skip 8 b)"
  by (simp_all add: Deserialize_num_bytes Deserialize_gint16_def Deserialize_guint16_def Deserialize_gint32_def
      Deserialize_guint32_def Deserialize_float_def Deserialize_gint64_def Deserialize_guint64_def Deserialize_double_def)

lemma byte_get:
  "ahead [x8] b \<Longrightarrow> Deserialize_bool b = (0, x8, skip 1 b)" "ahead [x8] b \<Longrightarrow> Deserialize_guint8 b = (0, x8, skip 1 b)"
  using Deserialize_num_get[of "[x8]" b] by (simp_all add: Deserialize_bool_def Deserialize_guint8_def be_nat_one)

lemma bytes_header_put:
  assumes "at_end b" "room (enc_bytes bs) b" "length bs < MAX_BYTES_PER_BUFFER"
  shows "Serialize_guint32 (word_of_nat (length bs)) b = (0, put (be_bytes 4 (length bs)) b)"
    "APPEND bs (put (be_bytes 4 (length bs)) b) = put (enc_bytes bs) b"
proof -
  have n: "unat (word_of_nat (length bs) :: 32 word) = length bs" using assms(3) by (intro unat_word_small) simp
  show "Serialize_guint32 (word_of_nat (length bs)) b = (0, put (be_bytes 4 (length bs)) b)"
    using Serialize_guint32_put[OF assms(1), of "word_of_nat (length bs)"] n assms(2) by (simp add: enc_bytes_def room_simps)
  show "APPEND bs (put (be_bytes 4 (length bs)) b) = put (enc_bytes bs) b"
    using APPEND_put[of "put (be_bytes 4 (length bs)) b" bs] assms(1,2) by (simp add: enc_bytes_def room_simps)
qed

lemma Serialize_string_put:
  assumes "at_end b" "room (enc_bytes s) b" "length s < MAX_BYTES_PER_BUFFER"
  shows "Serialize_string s b = (0, put (enc_bytes s) b)"
proof -
  have "length s mod 2 ^ 32 = length s" using assms(3) by simp
  then show ?thesis using bytes_header_put[OF assms] assms(3)
    by (cases s) (simp_all add: Serialize_string_def Let_def enc_bytes_def)
qed

lemma Serialize_BufPtr_put:
  assumes "at_end b" "room (enc_bytes (case x of None \<Rightarrow> [] | Some bs \<Rightarrow> bs)) b" "bytes_ok x"
  shows "Serialize_BufPtr x b = (0, put (enc_bytes (case x of None \<Rightarrow> [] | Some bs \<Rightarrow> bs)) b)"
proof -
  let ?bs = "case x of None \<Rightarrow> [] | Some bs \<Rightarrow> bs"
  have "length ?bs < MAX_BYTES_PER_BUFFER" using assms(3) by (simp add: bytes_ok_def split: option.splits)
  note H = bytes_header_put[OF assms(1,2) this] this
  show ?thesis using H by (cases "?bs = []") (simp_all add: Serialize_BufPtr_def Let_def enc_bytes_def)
qed

lemma bytes_header_get:
  assumes "ahead (enc_bytes bs) b" "length bs < MAX_BYTES_PER_BUFFER"
  shows "Deserialize_guint32 b = (0, word_of_nat (length bs), skip 4 b)" "ahead bs (skip 4 b)" "4 \<le> buf_size b"
  using assms ahead_size[OF assms(1)] Deserialize_guint32_get[of "length bs" b] by (auto simp: enc_bytes_def ahead_append)

lemma take_ahead:
  assumes "ahead bs b" "bs \<noteq> []"
  shows "take (length bs) (buf_ptr b) = bs" "length bs \<le> buf_size b" "IncOffset (length bs) b = skip (length bs) b"
  using ahead_take[OF assms(1)] ahead_size[OF assms(1)] assms(2) SetOffset_skip(2)[of "length bs" b] by (cases bs; auto)+

lemma Deserialize_string_get:
  assumes "ahead (enc_bytes s) b" "length s < MAX_BYTES_PER_BUFFER"
  shows "Deserialize_string b = (0, s, skip (length (enc_bytes s)) b)"
proof -
  note H = bytes_header_get[OF assms]
  have n: "unat (word_of_nat (length s) :: 32 word) = length s" using assms(2) by (intro unat_word_small) simp
  show ?thesis
  proof (cases "s = []")
    case False
    then have "(word_of_nat (length s) :: 32 word) \<noteq> 0" using n by (auto simp flip: unat_eq_0)
    then show ?thesis using H take_ahead[OF H(2) False] n
      by (simp add: Deserialize_string_def Let_def enc_bytes_def min_absorb1)
  qed (use H in \<open>simp add: Deserialize_string_def Let_def enc_bytes_def\<close>)
qed

lemma Deserialize_BufPtr_get:
  assumes "ahead (enc_bytes (case x of None \<Rightarrow> [] | Some bs \<Rightarrow> bs)) b" "bytes_ok x"
  shows "Deserialize_BufPtr b = Inr (0, x, skip (length (enc_bytes (case x of None \<Rightarrow> [] | Some bs \<Rightarrow> bs))) b)"
proof (cases x)
  case None
  then show ?thesis using bytes_header_get[of "[]" b] assms(1) by (simp add: Deserialize_BufPtr_def Let_def enc_bytes_def)
next
  case (Some bs)
  then have bs: "bs \<noteq> []" "length bs < MAX_BYTES_PER_BUFFER" using assms(2) by (simp_all add: bytes_ok_def)
  note H = bytes_header_get[OF _ bs(2), of b]
  have n: "unat (word_of_nat (length bs) :: 32 word) = length bs" using bs(2) by (intro unat_word_small) simp
  show ?thesis using H take_ahead[OF H(2) bs(1)] n Some assms(1) bs
    by (simp add: Deserialize_BufPtr_def Let_def enc_bytes_def)
qed

lemma obj_ok_bytes:
  assumes "obj_ok c x"
  obtains obj bs where "x = Some obj" "o_ser c obj = Inr bs" "enc_obj c x = bs"
  using assms by (cases x) (auto simp: obj_ok_def split: sum.splits)

lemma Serialize_ObjPtr_put:
  assumes "codec_ok c" "obj_ok c x" "at_end b" "room (enc_obj c x) b"
  shows "Serialize_ObjPtr c x b = (0, put (enc_obj c x) b)"
proof -
  obtain obj bs where o: "x = Some obj" "o_ser c obj = Inr bs" "enc_obj c x = bs" using assms(2) by (rule obj_ok_bytes)
  have "12 < length bs \<and> length bs < MAX_BYTES_PER_BUFFER" using assms(1) o(2) by (simp add: codec_ok_def)
  then show ?thesis using o assms(3,4) by (auto simp: Serialize_ObjPtr_def APPEND_put)
qed

lemma Deserialize_ObjPtr_get:
  assumes "codec_ok c" "obj_ok c x" "ahead (enc_obj c x) b"
  shows "Deserialize_ObjPtr c b = Inr (0, x, skip (length (enc_obj c x)) b)"
    "8 \<le> buf_size b" "word_of_nat (be_nat (take 4 (buf_ptr b))) \<noteq> SERIAL_STRUCT_MAGIC" "enc_obj c x \<noteq> []"
proof -
  obtain obj bs where o: "x = Some obj" "o_ser c obj = Inr bs" "enc_obj c x = bs" using assms(2) by (rule obj_ok_bytes)
  have bs: "12 < length bs" "be_nat (take 4 (drop 4 bs)) = length bs - 12"
    "word_of_nat (be_nat (take 4 bs)) \<noteq> SERIAL_STRUCT_MAGIC"
    "\<forall>rest. o_des c (word_of_nat (be_nat (take 4 bs))) (bs @ rest) = Inr (0, Some obj)"
    using assms(1) o(2) by (simp_all add: codec_ok_def)
  obtain rest where rest: "buf_ptr b = bs @ rest" using assms(3) o(3) by (auto simp: ahead_def)
  have sz: "length bs \<le> buf_size b" using ahead_size[OF assms(3)] o(3) by simp
  have "IncOffset (length bs) b = skip (length bs) b" using SetOffset_skip(2)[OF sz] sz bs(1) by simp
  then show "Deserialize_ObjPtr c b = Inr (0, x, skip (length (enc_obj c x)) b)"
    using bs rest sz o(1,3) by (simp add: Deserialize_ObjPtr_def Let_def)
  show "8 \<le> buf_size b" "word_of_nat (be_nat (take 4 (buf_ptr b))) \<noteq> SERIAL_STRUCT_MAGIC" "enc_obj c x \<noteq> []"
    using sz bs rest o(3) by auto
qed


lemma struct_bytes:
  assumes "codec_ok c" "s_is c obj"
  shows "\<exists>i rest. enc_struct c obj = be_bytes 4 (unat SERIAL_STRUCT_MAGIC) @ be_bytes 4 (unat i) @ rest \<and>
      (\<forall>b. ahead (enc_struct c obj) b \<longrightarrow> s_des c i b = Inr (0, Some obj, skip (length (enc_struct c obj)) b))"
    "at_end b \<Longrightarrow> room (enc_struct c obj) b \<Longrightarrow> s_ser c obj b = (0, put (enc_struct c obj) b)"
  using assms unfolding codec_ok_def by blast+

lemma struct_read:
  assumes "codec_ok c" "s_is c obj" and a: "ahead (enc_struct c obj) b"
  shows "Variant_DeserializeObj c b = Inr (0, Some obj, skip (length (enc_struct c obj)) b)"
proof -
  obtain i :: "32 word" and rest where i: "enc_struct c obj = be_bytes 4 (unat SERIAL_STRUCT_MAGIC) @ be_bytes 4 (unat i) @ rest"
      "s_des c i b = Inr (0, Some obj, skip (length (enc_struct c obj)) b)"
    using struct_bytes(1)[OF assms(1,2)] a by blast
  obtain more where p: "buf_ptr b = be_bytes 4 (unat SERIAL_STRUCT_MAGIC) @ be_bytes 4 (unat i) @ rest @ more"
    using a i(1) by (auto simp: ahead_def)
  have "unat i < 2 ^ 32" using unsigned_less[of i, where 'a = nat] by simp
  hence "be_nat (be_bytes 4 (unat i)) = unat i" by (simp add: be_nat_bytes)
  hence h: "be_nat (take 4 (buf_ptr b)) = unat SERIAL_STRUCT_MAGIC" "be_nat (take 4 (drop 4 (buf_ptr b))) = unat i"
    using p by (simp_all add: be_nat_bytes)
  have "8 \<le> buf_size b" using ahead_size[OF a] i(1) by simp
  thus ?thesis using h i(2) by (simp add: Variant_DeserializeObj_def)
qed

lemma enc_variant_tag: "\<exists>rest. enc_variant c v = GetTypeId v # rest"
  by (cases v) auto

lemma Variant_Serialize_put:
  assumes "codec_ok c" "variant_ok c v" "at_end b" "room (enc_variant c v) b"
  shows "Variant_Serialize c v b = (0, put (enc_variant c v) b)"
proof -
  obtain rest where rest: "enc_variant c v = GetTypeId v # rest" using enc_variant_tag by blast
  have r: "room [GetTypeId v] b" "room rest (put [GetTypeId v] b)" using assms(4) rest by (auto simp: room_def)
  have tag: "APPEND [GetTypeId v] b = put [GetTypeId v] b" by (rule APPEND_put[OF assms(3) r(1)])
  have e: "at_end (put [GetTypeId v] b)" using assms(3) by simp
  have enc: "put (enc_variant c v) b = put rest (put [GetTypeId v] b)" using rest by simp
  show ?thesis
  proof (cases v)
    case (VarObj x)
    then obtain obj where x: "x = Some obj" "s_is c obj \<or> obj_ok c x"
      using assms(2) by (auto simp: variant_ok_def split: option.splits)
    show ?thesis
    proof (cases "s_is c obj")
      case True
      have "s_ser c obj (put [GetTypeId v] b) = (0, put rest (put [GetTypeId v] b))"
        using struct_bytes(2)[OF assms(1) True e] r(2) rest VarObj x(1) True by simp
      thus ?thesis unfolding enc using tag x(1) True VarObj by (simp add: Variant_Serialize_def Let_def)
    next
      case False
      show ?thesis unfolding enc using Serialize_ObjPtr_put[OF assms(1) _ e, of x] False r(2) tag x VarObj rest
        by (simp add: Variant_Serialize_def Let_def)
    qed
  qed (use assms(2) r(2) tag rest enc number_put[OF e] Serialize_guint32_put[OF e] Serialize_string_put[OF e]
      Serialize_BufPtr_put[OF e] in \<open>simp_all add: Variant_Serialize_def variant_ok_def Let_def\<close>)
qed

lemma ahead_Cons:
  assumes "ahead (x # ys) b"
  shows "hd (buf_ptr b) = x" "0 < buf_size b" "snd (SetOffset (m_dwOffset b + 1) b) = skip 1 b" "ahead ys (skip 1 b)"
proof -
  show "hd (buf_ptr b) = x" using assms by (auto simp: ahead_def)
  show "0 < buf_size b" using ahead_size[OF assms] by simp
  then show "snd (SetOffset (m_dwOffset b + 1) b) = skip 1 b" using SetOffset_skip(1)[of 1 b] by simp
  show "ahead ys (skip 1 b)" using assms ahead_append[of "[x]" ys b] by simp
qed

lemma Variant_Deserialize_get:
  assumes "codec_ok c" "variant_ok c v" "ahead (enc_variant c v) b"
  shows "Variant_Deserialize c b = Inr (0, v, skip (length (enc_variant c v)) b)"
proof -
  obtain rest where rest: "enc_variant c v = GetTypeId v # rest" using enc_variant_tag by blast
  have a: "ahead (GetTypeId v # rest) b" using assms(3) rest by simp
  note A = ahead_Cons[OF a]
  have enc: "skip (length (enc_variant c v)) b = skip (length rest) (skip 1 b)" using rest by simp
  show ?thesis
  proof (cases v)
    case (VarObj x)
    then obtain obj where x: "x = Some obj" "s_is c obj \<or> obj_ok c x"
      using assms(2) by (auto simp: variant_ok_def split: option.splits)
    show ?thesis
    proof (cases "s_is c obj")
      case True
      have a9: "ahead (enc_struct c obj) (skip 1 b)" using A(4) rest VarObj x(1) True by simp
      show ?thesis unfolding enc using A struct_read[OF assms(1) True a9] VarObj rest x(1) True
        by (simp add: Variant_Deserialize_def)
    next
      case False
      hence ok: "obj_ok c x" and a9: "ahead (enc_obj c x) (skip 1 b)" using x A(4) rest VarObj by simp_all
      show ?thesis unfolding enc using A Deserialize_ObjPtr_get[OF assms(1) ok a9] VarObj rest x(1) False
        by (simp add: Variant_Deserialize_def Variant_DeserializeObj_def Let_def)
    qed
  qed (use assms(2) A rest in \<open>auto simp: enc Variant_Deserialize_def Let_def number_get byte_get variant_ok_def
      Deserialize_string_get Deserialize_BufPtr_get\<close>)
qed

lemma GetSignature_key: "is_key k \<Longrightarrow> \<exists>ch. GetSignature k = [ch]"
  by (auto simp: is_key_def)

lemma sval_forms:
  "(case v of VArray vs \<Rightarrow> P vs | _ \<Rightarrow> False) \<longleftrightarrow> (\<exists>vs. v = VArray vs \<and> P vs)"
  "(case v of VMap es \<Rightarrow> Q es | _ \<Rightarrow> False) \<longleftrightarrow> (\<exists>es. v = VMap es \<and> Q es)"
  "(case v of VStruct vs \<Rightarrow> P vs | _ \<Rightarrow> False) \<longleftrightarrow> (\<exists>vs. v = VStruct vs \<and> P vs)"
  by (cases v; simp)+

text \<open>The instance for a type: its methods, its bytes and the values that it can carry.\<close>

abbreviation format_of :: "'o codec \<Rightarrow> stype \<Rightarrow> bool" where
  "format_of c t \<equiv> wire_format (SerialElem c t (GetSignature t)) (DeserialElem c t (GetSignature t)) (encode c t) (val_ok c t)"


lemma Serialize_fields_put:
  assumes "\<forall>t\<in>set ts. format_of c t" "vals_ok c ts vs" "at_end b" "room (encode_fields c ts vs) b"
  shows "Serialize_fields c ts vs b = Inr (0, put (encode_fields c ts vs) b)"
  using assms
proof (induction ts arbitrary: vs b)
  case (Cons t ts)
  then obtain v ws where vs: "vs = v # ws" "val_ok c t v" "vals_ok c ts ws" by (auto split: list.splits)
  have r: "room (encode c t v) b" "room (encode_fields c ts ws) (put (encode c t v) b)"
    using Cons.prems(4) vs(1) by (simp_all add: room_def)
  have "SerialElem c t (GetSignature t) v b = Inr (0, put (encode c t v) b)"
    using wire_format.ser_put[of "SerialElem c t (GetSignature t)"] Cons.prems(1,3) vs(2) r(1) by auto
  moreover have "Serialize_fields c ts ws (put (encode c t v) b) = Inr (0, put (encode_fields c ts ws) (put (encode c t v) b))"
    by (rule Cons.IH) (use Cons.prems vs r in auto)
  ultimately show ?case using vs(1) by simp
qed simp

lemma Deserialize_fields_get:
  assumes "\<forall>t\<in>set ts. format_of c t" "vals_ok c ts vs" "ahead (encode_fields c ts vs) b"
  shows "Deserialize_fields c ts b = Inr (0, vs, skip (length (encode_fields c ts vs)) b)"
  using assms
proof (induction ts arbitrary: vs b)
  case (Cons t ts)
  then obtain v ws where vs: "vs = v # ws" "val_ok c t v" "vals_ok c ts ws" by (auto split: list.splits)
  have a: "ahead (encode c t v) b" "ahead (encode_fields c ts ws) (skip (length (encode c t v)) b)"
    using Cons.prems(3) vs(1) by (simp_all add: ahead_append)
  have "DeserialElem c t (GetSignature t) b = Inr (0, v, skip (length (encode c t v)) b)"
    using wire_format.des_get[of _ "DeserialElem c t (GetSignature t)"] Cons.prems(1) vs(2) a(1) by auto
  moreover have "Deserialize_fields c ts (skip (length (encode c t v)) b) =
      Inr (0, ws, skip (length (encode_fields c ts ws)) (skip (length (encode c t v)) b))"
    by (rule Cons.IH) (use Cons.prems vs a in auto)
  ultimately show ?case using vs(1) by simp
qed simp

lemma be_bytes_nonempty: "0 < n \<Longrightarrow> be_bytes n v \<noteq> []"
  by (simp flip: length_greater_0_conv)

lemma enc_obj_nonempty:
  assumes "codec_ok c" "obj_ok c x"
  shows "enc_obj c x \<noteq> []"
proof -
  obtain obj bs where o: "o_ser c obj = Inr bs" "enc_obj c x = bs" using assms(2) by (rule obj_ok_bytes)
  have "12 < length bs" using assms(1) o(1) by (simp add: codec_ok_def)
  then show ?thesis using o(2) by auto
qed

lemma format_base:
  assumes "codec_ok c" "t \<in> {TBool, TByte, TInt16, TUInt16, TInt32, TUInt32, TInt64, TUInt64, TFloat, TDouble, TString, TByteArr, TObj, TVariant}"
  shows "format_of c t"
proof (unfold_locales, goal_cases)
  case (1 v b)
  then show ?case using assms
    by (cases v) (auto simp: number_put Serialize_guint32_put Serialize_string_put Serialize_BufPtr_put Serialize_ObjPtr_put
        Variant_Serialize_put)
next
  case (2 v b)
  then show ?case using assms
    by (cases v) (auto simp: number_get byte_get Deserialize_string_get Deserialize_BufPtr_get Deserialize_ObjPtr_get
        Variant_Deserialize_get ret_val_def)
next
  case (3 v)
  have "enc_variant c x \<noteq> []" for x using enc_variant_tag[of c x] by auto
  moreover have "obj_ok c x \<Longrightarrow> enc_obj c x \<noteq> []" for x
    by (rule enc_obj_nonempty[OF assms(1)])
  ultimately show ?case using 3 assms(2)
    by (cases v) (auto simp: be_bytes_nonempty enc_bytes_def)
qed

lemma enc_list_nonempty: "enc_list bss \<noteq> []"
  by (simp add: enc_list_def be_bytes_nonempty)

lemma format_array:
  assumes "format_of c t"
  shows "format_of c (TArray t)"
proof (unfold_locales, goal_cases)
  case (1 v b)
  then obtain vs where v: "v = VArray vs" "length vs < MAX_ELEM_COUNT" "\<forall>v\<in>set vs. val_ok c t v" by (auto simp: sval_forms)
  show ?case
    using wire_format.SerializeArray_put[OF assms, of "SerialElem c t" "GetSignature t" vs b] v 1(2,3) by simp
next
  case (2 v b)
  then obtain vs where v: "v = VArray vs" "length vs < MAX_ELEM_COUNT" "\<forall>v\<in>set vs. val_ok c t v" by (auto simp: sval_forms)
  show ?case
    using wire_format.DeserialArray_get[OF assms, of "DeserialElem c t" "GetSignature t" vs b] v 2(2) by (simp add: ret_val_def)
qed (auto simp: sval_forms enc_list_nonempty)

lemma format_map:
  assumes "format_of c k" "format_of c t"
  shows "format_of c (TMap k t)"
proof (unfold_locales, goal_cases)
  case (1 v b)
  then obtain es where v: "v = VMap es" "is_key k" "length es < MAX_ELEM_COUNT"
    "\<forall>e\<in>set es. val_ok c k (fst e) \<and> val_ok c t (snd e)" by (auto simp: sval_forms)
  obtain ch where ch: "GetSignature k = [ch]" using GetSignature_key[OF v(2)] by blast
  have "wire_map (SerialElem c k [ch]) (DeserialElem c k [ch]) (encode c k) (val_ok c k)
      (SerialElem c t (GetSignature t)) (DeserialElem c t (GetSignature t)) (encode c t) (val_ok c t)"
    using assms ch by (simp add: wire_map_def)
  from wire_map.SerializeMap_put[OF this, of "SerialElem c k" ch "SerialElem c t" "GetSignature t" es b]
  show ?case using v 1(2,3) ch by simp
next
  case (2 v b)
  then obtain es where v: "v = VMap es" "is_key k" "length es < MAX_ELEM_COUNT"
    "\<forall>e\<in>set es. val_ok c k (fst e) \<and> val_ok c t (snd e)" "sorted_wrt (\<lambda>a b. key_less (fst a) (fst b)) es" by (auto simp: sval_forms)
  obtain ch where ch: "GetSignature k = [ch]" using GetSignature_key[OF v(2)] by blast
  have "wire_map (SerialElem c k [ch]) (DeserialElem c k [ch]) (encode c k) (val_ok c k)
      (SerialElem c t (GetSignature t)) (DeserialElem c t (GetSignature t)) (encode c t) (val_ok c t)"
    using assms ch by (simp add: wire_map_def)
  from wire_map.DeserialMap_get[OF this, of "DeserialElem c k" ch "DeserialElem c t" "GetSignature t" es b]
  show ?case using v 2(2) ch by (simp add: ret_val_def)
qed (auto simp: sval_forms enc_list_nonempty)

lemma format_struct:
  assumes "\<forall>t\<in>set ts. format_of c t"
  shows "format_of c (TStruct i ts)"
proof (unfold_locales, goal_cases)
  case (1 v b)
  then obtain vs where v: "v = VStruct vs" "vals_ok c ts vs" by (auto simp: sval_forms)
  let ?m = "be_bytes 4 (unat SERIAL_STRUCT_MAGIC)" and ?i = "be_bytes 4 (unat i)"
  have r: "room ?m b" "room ?i (put ?m b)" "room (encode_fields c ts vs) (put ?i (put ?m b))"
    using 1(3) v(1) by (simp_all add: room_def)
  have "Serialize_guint32 SERIAL_STRUCT_MAGIC b = (0, put ?m b)" "Serialize_guint32 i (put ?m b) = (0, put ?i (put ?m b))"
    using r 1(2) by (simp_all only: Serialize_guint32_put put_simps)
  then show ?case using Serialize_fields_put[OF assms v(2) _ r(3)] 1(2) v(1)
    by (simp add: Serialize_struct_header_def)
next
  case (2 v b)
  then obtain vs where v: "v = VStruct vs" "vals_ok c ts vs" by (auto simp: sval_forms)
  let ?m = "be_bytes 4 (unat SERIAL_STRUCT_MAGIC)" and ?i = "be_bytes 4 (unat i)"
  have a: "ahead ?m b" "ahead ?i (skip 4 b)" "ahead (encode_fields c ts vs) (skip 8 b)"
    using 2(2) v(1) by (simp_all add: ahead_append)
  show ?case using number_get(4)[OF a(1)] number_get(4)[OF a(2)] Deserialize_fields_get[OF assms v(2) a(3)] v(1)
    by (simp add: Let_def ret_val_def Deserialize_struct_header_def)
qed (auto simp: sval_forms be_bytes_nonempty)

lemma format_all:
  assumes "codec_ok c"
  shows "format_of c t"
proof (induction t)
  case (TArray t)
  then show ?case by (rule format_array)
next
  case (TMap k t)
  then show ?case by (rule format_map)
next
  case (TStruct i ts)
  then show ?case by (intro format_struct ballI)
qed (rule format_base[OF assms]; simp)+

interpretation elem: wire_format "SerialElem c t (GetSignature t)" "DeserialElem c t (GetSignature t)" "encode c t"
    "\<lambda>v. codec_ok c \<and> val_ok c t v" for c t
  using format_all[of c t] by (auto simp: wire_format_def)

interpretation entry: wire_map "SerialElem c k (GetSignature k)" "DeserialElem c k (GetSignature k)" "encode c k"
    "\<lambda>v. codec_ok c \<and> val_ok c k v" "SerialElem c t (GetSignature t)" "DeserialElem c t (GetSignature t)" "encode c t"
    "\<lambda>v. codec_ok c \<and> val_ok c t v" for c k t ..


section \<open>Input from a stranger\<close>

text \<open>The shape of the values of a type, and the types that hold no byte array, no variant and no object.\<close>

fun typed :: "stype \<Rightarrow> 'o sval \<Rightarrow> bool"
and all_typed :: "stype list \<Rightarrow> 'o sval list \<Rightarrow> bool" where
  "typed TBool v = (case v of VBool _ \<Rightarrow> True | _ \<Rightarrow> False)"
| "typed TByte v = (case v of VByte _ \<Rightarrow> True | _ \<Rightarrow> False)"
| "typed TInt16 v = (case v of VInt16 _ \<Rightarrow> True | _ \<Rightarrow> False)"
| "typed TUInt16 v = (case v of VUInt16 _ \<Rightarrow> True | _ \<Rightarrow> False)"
| "typed TInt32 v = (case v of VInt32 _ \<Rightarrow> True | _ \<Rightarrow> False)"
| "typed TUInt32 v = (case v of VUInt32 _ \<Rightarrow> True | _ \<Rightarrow> False)"
| "typed TInt64 v = (case v of VInt64 _ \<Rightarrow> True | _ \<Rightarrow> False)"
| "typed TUInt64 v = (case v of VUInt64 _ \<Rightarrow> True | _ \<Rightarrow> False)"
| "typed TFloat v = (case v of VFloat _ \<Rightarrow> True | _ \<Rightarrow> False)"
| "typed TDouble v = (case v of VDouble _ \<Rightarrow> True | _ \<Rightarrow> False)"
| "typed TString v = (case v of VString _ \<Rightarrow> True | _ \<Rightarrow> False)"
| "typed TByteArr v = (case v of VByteArr _ \<Rightarrow> True | _ \<Rightarrow> False)"
| "typed TObj v = (case v of VObj _ \<Rightarrow> True | _ \<Rightarrow> False)"
| "typed TVariant v = (case v of VVariant _ \<Rightarrow> True | _ \<Rightarrow> False)"
| "typed (TArray t) v = (case v of VArray vs \<Rightarrow> length vs < MAX_ELEM_COUNT \<and> (\<forall>v\<in>set vs. typed t v) | _ \<Rightarrow> False)"
| "typed (TMap k t) v = (case v of VMap es \<Rightarrow> \<forall>e\<in>set es. typed k (fst e) \<and> typed t (snd e) | _ \<Rightarrow> False)"
| "typed (TStruct i ts) v = (case v of VStruct vs \<Rightarrow> all_typed ts vs | _ \<Rightarrow> False)"
| "all_typed [] vs = (vs = [])"
| "all_typed (t # ts) vs = (case vs of [] \<Rightarrow> False | v # vs \<Rightarrow> typed t v \<and> all_typed ts vs)"

fun no_raw :: "stype \<Rightarrow> bool" where
  "no_raw TByteArr = False"
| "no_raw TVariant = False"
| "no_raw TObj = False"
| "no_raw (TArray t) = no_raw t"
| "no_raw (TMap k t) = (is_key k \<and> no_raw k \<and> no_raw t)"
| "no_raw (TStruct i ts) = (\<forall>t\<in>set ts. no_raw t)"
| "no_raw _ = True"

lemma typed_default: "typed t (default_val t :: 'o sval)"
proof (induction t)
  case (TStruct i ts)
  have "all_typed us (map default_val us :: 'o sval list)" if "set us \<subseteq> set ts" for us
    using that by (induction us) (simp_all add: TStruct)
  then show ?case by simp
qed simp_all

lemma all_typed_default: "all_typed ts (map default_val ts)"
  by (induction ts) (simp_all add: typed_default)

text \<open>What one read does to the buffer.\<close>

definition inside :: "cbuffer \<Rightarrow> bool" where
  "inside b \<longleftrightarrow> m_dwOffset b \<le> length (m_pData b)"

definition advances :: "cbuffer \<Rightarrow> cbuffer \<Rightarrow> bool" where
  "advances b b' \<longleftrightarrow> m_pData b' = m_pData b \<and> m_dwOffset b \<le> m_dwOffset b' \<and> inside b'"

lemma advances_refl: "inside b \<Longrightarrow> advances b b"
  by (simp add: advances_def)

lemma advances_trans: "advances a b \<Longrightarrow> advances b c \<Longrightarrow> advances a c"
  by (auto simp: advances_def)

lemma advances_inside: "advances a b \<Longrightarrow> inside b"
  by (simp add: advances_def)

lemma IncOffset_advances: "inside b \<Longrightarrow> advances b (IncOffset n b)"
  by (auto simp: advances_def inside_def IncOffset_def SetOffset_def)

definition reads :: "(cbuffer \<Rightarrow> (gint32 \<times> 'a \<times> cbuffer) run) \<Rightarrow> ('a \<Rightarrow> bool) \<Rightarrow> bool" where
  "reads f P \<longleftrightarrow> (\<forall>b. inside b \<longrightarrow> (\<exists>ret v b'. f b = Inr (ret, v, b') \<and> P v \<and> advances b b'))"

lemma readsE:
  assumes "reads f P" "inside b"
  obtains ret v b' where "f b = Inr (ret, v, b')" "P v" "advances b b'"
  using assms unfolding reads_def by blast

lemma Deserialize_num_advances:
  assumes "inside b" "Deserialize_num n b = (ret, v, b')"
  shows "advances b b'"
  using assms IncOffset_advances[OF assms(1)] advances_refl[OF assms(1)] by (auto simp: Deserialize_num_def split: if_splits)

lemma Deserialize_guint32_advances:
  assumes "inside b"
  obtains ret v b' where "Deserialize_guint32 b = (ret, v, b')" "advances b b'"
proof -
  obtain ret v b' where d: "Deserialize_num 4 b = (ret, v, b')" by (metis prod_cases3)
  show thesis by (rule that[of ret "word_of_nat v" b']) (use d Deserialize_num_advances[OF assms d] in \<open>simp_all add: Deserialize_guint32_def\<close>)
qed

lemma reads_number:
  "reads (DeserialElem c TBool sig) (typed TBool)"
  "reads (DeserialElem c TByte sig) (typed TByte)"
  "reads (DeserialElem c TInt16 sig) (typed TInt16)"
  "reads (DeserialElem c TUInt16 sig) (typed TUInt16)"
  "reads (DeserialElem c TInt32 sig) (typed TInt32)"
  "reads (DeserialElem c TUInt32 sig) (typed TUInt32)"
  "reads (DeserialElem c TInt64 sig) (typed TInt64)"
  "reads (DeserialElem c TUInt64 sig) (typed TUInt64)"
  "reads (DeserialElem c TFloat sig) (typed TFloat)"
  "reads (DeserialElem c TDouble sig) (typed TDouble)"
  unfolding reads_def
  by (auto simp: ret_val_def Deserialize_bool_def Deserialize_guint8_def Deserialize_gint16_def Deserialize_guint16_def
      Deserialize_gint32_def Deserialize_guint32_def Deserialize_gint64_def Deserialize_guint64_def Deserialize_float_def
      Deserialize_double_def split: prod.splits intro: Deserialize_num_advances)

lemma reads_string: "reads (DeserialElem c TString sig) (typed TString)"
  unfolding reads_def
proof (intro allI impI)
  fix b :: cbuffer assume b: "inside b"
  obtain ret v b1 where d: "Deserialize_guint32 b = (ret, v, b1)" "advances b b1" by (rule Deserialize_guint32_advances[OF b])
  show "\<exists>ret v b'. DeserialElem c TString sig b = Inr (ret, v, b') \<and> typed TString v \<and> advances b b'"
    using d advances_refl[OF b] advances_trans[OF d(2) IncOffset_advances[OF advances_inside[OF d(2)]]]
    by (auto simp: Deserialize_string_def ret_val_def Let_def)
qed

lemma reads_elems:
  assumes "reads (f sig) P" "P d"
  shows "reads (des_elems f sig d n) (\<lambda>vs. length vs = n \<and> (\<forall>v\<in>set vs. P v))"
proof (induction n)
  case (Suc n)
  show ?case unfolding reads_def
  proof (intro allI impI)
    fix b assume b: "inside b"
    obtain ret v b1 where d: "f sig b = Inr (ret, v, b1)" "P v" "advances b b1" by (rule readsE[OF assms(1) b])
    obtain ret2 vs b2 where e: "des_elems f sig d n b1 = Inr (ret2, vs, b2)" "length vs = n \<and> (\<forall>v\<in>set vs. P v)" "advances b1 b2"
      by (rule readsE[OF Suc.IH advances_inside[OF d(3)]])
    show "\<exists>ret vs b'. des_elems f sig d (Suc n) b = Inr (ret, vs, b') \<and> (length vs = Suc n \<and> (\<forall>v\<in>set vs. P v)) \<and> advances b b'"
      using d e assms(2) advances_trans[OF d(3) e(3)] by (auto simp: in_set_replicate)
  qed
qed (simp add: reads_def advances_refl)

lemma map_insert_set: "set (map_insert e m) \<subseteq> insert e (set m)"
  by (auto simp: map_insert_def Let_def dest: set_takeWhileD set_dropWhileD)

lemma reads_pairs:
  assumes "reads (fk ks) P" "reads (f s) Q"
  shows "\<forall>e\<in>set m. P (fst e) \<and> Q (snd e) \<Longrightarrow> reads (des_pairs fk f ks s n m) (\<lambda>es. \<forall>e\<in>set es. P (fst e) \<and> Q (snd e))"
proof (induction n arbitrary: m)
  case (Suc n)
  show ?case unfolding reads_def
  proof (intro allI impI)
    fix b assume b: "inside b"
    obtain ret k b1 where k: "fk ks b = Inr (ret, k, b1)" "P k" "advances b b1" by (rule readsE[OF assms(1) b])
    obtain ret2 v b2 where v: "f s b1 = Inr (ret2, v, b2)" "Q v" "advances b1 b2" by (rule readsE[OF assms(2) advances_inside[OF k(3)]])
    have "\<forall>e\<in>set (map_insert (k, v) m). P (fst e) \<and> Q (snd e)" using map_insert_set[of "(k, v)" m] Suc.prems k(2) v(2) by auto
    from Suc.IH[OF this] obtain ret3 es b3 where e: "des_pairs fk f ks s n (map_insert (k, v) m) b2 = Inr (ret3, es, b3)"
      "\<forall>e\<in>set es. P (fst e) \<and> Q (snd e)" "advances b2 b3" by (rule readsE[OF _ advances_inside[OF v(3)]])
    show "\<exists>ret es b'. des_pairs fk f ks s (Suc n) m b = Inr (ret, es, b') \<and> (\<forall>e\<in>set es. P (fst e) \<and> Q (snd e)) \<and> advances b b'"
      using k v e Suc.prems advances_trans[OF k(3) v(3)] advances_trans[OF advances_trans[OF k(3) v(3)] e(3)] by auto
  qed
qed (simp add: reads_def advances_refl)


lemma reads_array:
  assumes "reads (f s) P" "P d"
  shows "reads (DeserialArray f d (''('' @ s @ '')'')) (\<lambda>vs. length vs < MAX_ELEM_COUNT \<and> (\<forall>v\<in>set vs. P v))"
  unfolding reads_def
proof (intro allI impI)
  fix b assume b: "inside b"
  obtain r1 n1 b1 where d1: "Deserialize_guint32 b = (r1, n1, b1)" "advances b b1" by (rule Deserialize_guint32_advances[OF b])
  obtain r2 n2 b2 where d2: "Deserialize_guint32 b1 = (r2, n2, b2)" "advances b1 b2"
    by (rule Deserialize_guint32_advances[OF advances_inside[OF d1(2)]])
  obtain r3 vs b3 where d3: "des_elems f s d (unat n2) b2 = Inr (r3, vs, b3)" "length vs = unat n2 \<and> (\<forall>v\<in>set vs. P v)"
    "advances b2 b3" by (rule readsE[where f = "des_elems f s d (unat n2)", OF reads_elems[where f = f and sig = s, OF assms]
        advances_inside[OF d2(2)]])
  note A = advances_refl[OF b] d1(2) advances_trans[OF d1(2) d2(2)] advances_trans[OF advances_trans[OF d1(2) d2(2)] d3(3)]
  show "\<exists>ret vs b'. DeserialArray f d (''('' @ s @ '')'') b = Inr (ret, vs, b') \<and>
      (length vs < MAX_ELEM_COUNT \<and> (\<forall>v\<in>set vs. P v)) \<and> advances b b'"
    using d1(1) d2(1) d3(1,2) A by (simp add: DeserialArray_def Let_def)
qed

lemma reads_map:
  assumes "reads (fk [k]) P" "reads (f s) Q"
  shows "reads (DeserialMap fk f (''['' @ [k] @ s @ '']'')) (\<lambda>es. \<forall>e\<in>set es. P (fst e) \<and> Q (snd e))"
  unfolding reads_def
proof (intro allI impI)
  fix b assume b: "inside b"
  obtain r1 n1 b1 where d1: "Deserialize_guint32 b = (r1, n1, b1)" "advances b b1" by (rule Deserialize_guint32_advances[OF b])
  obtain r2 n2 b2 where d2: "Deserialize_guint32 b1 = (r2, n2, b2)" "advances b1 b2"
    by (rule Deserialize_guint32_advances[OF advances_inside[OF d1(2)]])
  have "reads (des_pairs fk f [k] s (unat n2) []) (\<lambda>es. \<forall>e\<in>set es. P (fst e) \<and> Q (snd e))"
    by (rule reads_pairs[where fk = fk and ks = "[k]" and f = f and s = s, OF assms]) simp
  then obtain r3 es b3 where d3: "des_pairs fk f [k] s (unat n2) [] b2 = Inr (r3, es, b3)"
    "\<forall>e\<in>set es. P (fst e) \<and> Q (snd e)" "advances b2 b3" by (rule readsE[OF _ advances_inside[OF d2(2)]])
  note A = advances_refl[OF b] d1(2) advances_trans[OF d1(2) d2(2)] advances_trans[OF advances_trans[OF d1(2) d2(2)] d3(3)]
  show "\<exists>ret es b'. DeserialMap fk f (''['' @ [k] @ s @ '']'') b = Inr (ret, es, b') \<and>
      (\<forall>e\<in>set es. P (fst e) \<and> Q (snd e)) \<and> advances b b'"
    using d1(1) d2(1) d3(1,2) A by (simp add: DeserialMap_def Let_def butlast_append)
qed

lemma reads_fields:
  assumes "\<forall>t\<in>set ts. reads (DeserialElem c t (GetSignature t)) (typed t)"
  shows "reads (Deserialize_fields c ts) (all_typed ts)"
  using assms
proof (induction ts)
  case (Cons t ts)
  have t: "reads (DeserialElem c t (GetSignature t)) (typed t)" and ts: "reads (Deserialize_fields c ts) (all_typed ts)"
    using Cons by simp_all
  show ?case unfolding reads_def
  proof (intro allI impI)
    fix b assume b: "inside b"
    obtain ret v b1 where d: "DeserialElem c t (GetSignature t) b = Inr (ret, v, b1)" "typed t v" "advances b b1"
      by (rule readsE[OF t b])
    obtain ret2 vs b2 where e: "Deserialize_fields c ts b1 = Inr (ret2, vs, b2)" "all_typed ts vs" "advances b1 b2"
      by (rule readsE[OF ts advances_inside[OF d(3)]])
    show "\<exists>ret vs b'. Deserialize_fields c (t # ts) b = Inr (ret, vs, b') \<and> all_typed (t # ts) vs \<and> advances b b'"
      using d e advances_trans[OF d(3) e(3)] by (auto simp: all_typed_default)
  qed
qed (simp add: reads_def advances_refl)

lemma reads_ret_val:
  assumes "reads f P" "\<And>v. P v \<Longrightarrow> Q (g v)"
  shows "reads (\<lambda>b. map_sum id (ret_val g) (f b)) Q"
  unfolding reads_def
proof (intro allI impI)
  fix b assume b: "inside b"
  obtain ret v b' where "f b = Inr (ret, v, b')" "P v" "advances b b'" by (rule readsE[OF assms(1) b])
  then show "\<exists>ret v b'. map_sum id (ret_val g) (f b) = Inr (ret, v, b') \<and> Q v \<and> advances b b'"
    using assms(2) by (auto simp: ret_val_def)
qed

lemma reads_struct:
  assumes "\<forall>t\<in>set ts. reads (DeserialElem c t (GetSignature t)) (typed t)"
  shows "reads (DeserialElem c (TStruct i ts) sig) (typed (TStruct i ts))"
  unfolding reads_def
proof (intro allI impI)
  fix b assume b: "inside b"
  obtain r1 n1 b1 where d1: "Deserialize_guint32 b = (r1, n1, b1)" "advances b b1" by (rule Deserialize_guint32_advances[OF b])
  obtain r2 n2 b2 where d2: "Deserialize_guint32 b1 = (r2, n2, b2)" "advances b1 b2"
    by (rule Deserialize_guint32_advances[OF advances_inside[OF d1(2)]])
  obtain r3 vs b3 where d3: "Deserialize_fields c ts b2 = Inr (r3, vs, b3)" "all_typed ts vs" "advances b2 b3"
    by (rule readsE[OF reads_fields[OF assms] advances_inside[OF d2(2)]])
  note A = d1(2) advances_trans[OF d1(2) d2(2)] advances_trans[OF advances_trans[OF d1(2) d2(2)] d3(3)]
  show "\<exists>ret v b'. DeserialElem c (TStruct i ts) sig b = Inr (ret, v, b') \<and> typed (TStruct i ts) v \<and> advances b b'"
    using d1(1) d2(1) d3(1,2) A by (simp add: Let_def ret_val_def all_typed_default Deserialize_struct_header_def)
qed

lemma reads_all:
  assumes "no_raw t"
  shows "reads (DeserialElem c t (GetSignature t)) (typed t)"
  using assms
proof (induction t)
  case (TArray t)
  have "reads (DeserialArray (DeserialElem c t) (default_val t) (''('' @ GetSignature t @ '')''))
      (\<lambda>vs. length vs < MAX_ELEM_COUNT \<and> (\<forall>v\<in>set vs. typed t v))"
    by (rule reads_array) (use TArray typed_default in auto)
  then have "reads (\<lambda>b. map_sum id (ret_val VArray) (DeserialArray (DeserialElem c t) (default_val t) (''('' @ GetSignature t @ '')'') b))
      (typed (TArray t))" by (rule reads_ret_val) simp
  then show ?case unfolding reads_def by (simp del: typed.simps)
next
  case (TMap k t)
  then obtain ch where ch: "GetSignature k = [ch]" using GetSignature_key by auto
  have "reads (DeserialMap (DeserialElem c k) (DeserialElem c t) (''['' @ [ch] @ GetSignature t @ '']''))
      (\<lambda>es. \<forall>e\<in>set es. typed k (fst e) \<and> typed t (snd e))"
    by (rule reads_map) (use TMap ch in auto)
  then have "reads (\<lambda>b. map_sum id (ret_val VMap) (DeserialMap (DeserialElem c k) (DeserialElem c t)
      (''['' @ [ch] @ GetSignature t @ '']'') b)) (typed (TMap k t))" by (rule reads_ret_val) simp
  then show ?case using ch unfolding reads_def by (simp del: typed.simps)
next
  case (TStruct i ts)
  then show ?case by (intro reads_struct) auto
qed (simp_all add: reads_number reads_string del: typed.simps)


section \<open>Properties\<close>

text \<open>C1. What is sent arrives. A value of a type of the interface language is appended to the buffer in its wire format, and reading at
  that place gives the value back and stops right behind it, whatever follows. The value may hold numbers, booleans, strings, arrays, maps, structs,
  objects and byte arrays, and variants of them, also structs in variants. Three kinds of values are excluded by \<open>val_ok\<close>, because they do not come back:
  null objects (\<open>null_object_desync\<close>), byte arrays that are empty and not null (\<open>empty_bytes_come_back_null\<close>), and messages in variants, which are refused on
  both sides (\<open>message_refused\<close>). Strings and byte arrays are shorter than 16 MB and containers have fewer than a million elements, as the code
  demands, the keys of a map are integers, bytes, booleans or strings, the bytes written fit into the buffer, and the classes of the objects keep their part
  of the format (\<open>codec_ok\<close>).\<close>

theorem serialize_roundtrip:
  assumes "codec_ok c" "val_ok c t v" "m_dwOffset b = length (m_pData b)"
    "length (m_pData b) + length (encode c t v) \<le> MAX_BYTES_PER_BUFFER"
  shows "\<exists>b'. SerialElem c t (GetSignature t) v b = Inr (0, b') \<and> m_pData b' = m_pData b @ encode c t v \<and>
    (\<forall>r rest. m_pData r = m_pData b' @ rest \<longrightarrow> length (m_pData r) \<le> MAX_BYTES_PER_BUFFER \<longrightarrow> m_dwOffset r = m_dwOffset b \<longrightarrow>
      DeserialElem c t (GetSignature t) r = Inr (0, v, r\<lparr>m_dwOffset := m_dwOffset b'\<rparr>))"
proof -
  have "SerialElem c t (GetSignature t) v b = Inr (0, put (encode c t v) b)"
    by (rule elem.ser_put) (use assms in \<open>simp_all add: at_end_def room_def\<close>)
  moreover have "DeserialElem c t (GetSignature t) r = Inr (0, v, r\<lparr>m_dwOffset := m_dwOffset (put (encode c t v) b)\<rparr>)"
    if r: "m_pData r = m_pData b @ encode c t v @ rest" "length (m_pData r) \<le> MAX_BYTES_PER_BUFFER" "m_dwOffset r = m_dwOffset b" for r rest
  proof -
    have "ahead (encode c t v) r" using r assms(3) by (simp add: ahead_def buf_ptr_def)
    from elem.des_get[OF conjI[OF assms(1,2)] this] show ?thesis using r(3) by (simp add: skip_def)
  qed
  ultimately show ?thesis by (intro exI[of _ "put (encode c t v) b"]) simp
qed

definition sample_obj :: "byte list" where
  "sample_obj = be_bytes 4 5 @ be_bytes 4 1 @ [1, 0, 0, 0] @ [42]"

text \<open>Two classes: \<open>False\<close> is an object of class 5, whose reader faults on an empty input, and \<open>True\<close> a struct with one field of a byte.\<close>

definition sample_codec :: "bool codec" where
  "sample_codec = \<lparr>o_ser = (\<lambda>x. if x then Inl (- ENOTSUP) else Inr sample_obj),
    o_des = (\<lambda>i bs. if bs = [] then Inl Fault_Range else if i = 5 then Inr (0, Some False) else Inr (- ENOENT, None)), s_is = (\<lambda>x. x),
    s_ser = (\<lambda>_ b. (0, APPEND [42] (Serialize_struct_header 9 b))),
    s_des = (\<lambda>_ b.
      let (ret, b1) = Deserialize_struct_header 9 b in
      if ERROR ret then Inr (ret, None, b1) else let (ret, x, b2) = Deserialize_guint8 b1 in Inr (ret, Some True, b2))\<rparr>"

definition sample_type :: stype where
  "sample_type = TStruct 7 [TUInt32, TArray TString, TMap TByte TObj, TVariant, TVariant]"

definition sample_val :: "bool sval" where
  "sample_val = VStruct [VUInt32 258, VArray [VString [104, 105], VString []], VMap [(VByte 1, VObj (Some False)), (VByte 2, VObj (Some False))],
    VVariant (VarUInt16 3), VVariant (VarObj (Some True))]"

lemma sample_ser:
  assumes b: "at_end b" "room (be_bytes 4 (unat SERIAL_STRUCT_MAGIC) @ be_bytes 4 (unat (9 :: 32 word)) @ [42]) b"
  shows "s_ser sample_codec True b = (0, put (be_bytes 4 (unat SERIAL_STRUCT_MAGIC) @ be_bytes 4 (unat (9 :: 32 word)) @ [42]) b)"
proof -
  let ?m = "be_bytes 4 (unat SERIAL_STRUCT_MAGIC)" and ?i = "be_bytes 4 (unat (9 :: 32 word))"
  have r: "room ?m b" "room ?i (put ?m b)" "room [42] (put (?m @ ?i) b)" using b(2) by (simp_all add: room_def)
  have "Serialize_guint32 SERIAL_STRUCT_MAGIC b = (0, put ?m b)" "Serialize_guint32 9 (put ?m b) = (0, put ?i (put ?m b))"
    using r(1,2) b(1) by (simp_all only: Serialize_guint32_put put_simps)
  thus ?thesis using APPEND_put[OF _ r(3)] b(1) by (simp add: sample_codec_def Serialize_struct_header_def)
qed

lemma sample_struct: "enc_struct sample_codec True = be_bytes 4 (unat SERIAL_STRUCT_MAGIC) @ be_bytes 4 (unat (9 :: 32 word)) @ [42]"
  using sample_ser[of "\<lparr>m_pData = [], m_dwOffset = 0\<rparr>"] by (simp add: enc_struct_def at_end_def room_def)

lemma sample_codec_ok: "codec_ok sample_codec"
proof -
  have "take 4 sample_obj = be_bytes 4 5" "take 4 (drop 4 sample_obj) = be_bytes 4 1" "length sample_obj = 13"
    by (simp_all add: sample_obj_def)
  moreover note sample_ser sample_struct
  moreover have "s_des sample_codec 9 b = Inr (0, Some True, skip 9 b)"
    if a: "ahead (be_bytes 4 (unat SERIAL_STRUCT_MAGIC) @ be_bytes 4 (unat (9 :: 32 word)) @ [42]) b" for b
  proof -
    have a: "ahead (be_bytes 4 (unat SERIAL_STRUCT_MAGIC)) b" "ahead (be_bytes 4 (unat (9 :: 32 word))) (skip 4 b)" "ahead [42] (skip 8 b)"
      using a by (simp_all add: ahead_append)
    show ?thesis using number_get(4)[OF a(1)] number_get(4)[OF a(2)] byte_get(2)[OF a(3)]
      by (simp add: sample_codec_def Deserialize_struct_header_def Let_def)
  qed
  moreover have "o_ser sample_codec True = Inl (- ENOTSUP)" "o_ser sample_codec False = Inr sample_obj"
    "s_is sample_codec x = x" "\<And>rest. o_des sample_codec 5 (sample_obj @ rest) = Inr (0, Some False)" for x
    by (simp_all add: sample_codec_def sample_obj_def)
  ultimately show ?thesis unfolding codec_ok_def
    by (auto simp: be_nat_bytes all_bool_eq intro!: exI[of _ "9 :: 32 word"])
qed

theorem serialize_roundtrip_witness:
  "\<exists>b'. SerialElem sample_codec sample_type (GetSignature sample_type) sample_val \<lparr>m_pData = [], m_dwOffset = 0\<rparr> = Inr (0, b') \<and>
    DeserialElem sample_codec sample_type (GetSignature sample_type) (b'\<lparr>m_dwOffset := 0\<rparr>) = Inr (0, sample_val, b')"
proof -
  let ?b = "\<lparr>m_pData = [], m_dwOffset = 0\<rparr> :: cbuffer"
  have ok: "val_ok sample_codec sample_type sample_val"
    by (simp add: sample_type_def sample_val_def is_key_def key_less_def obj_ok_def sample_codec_def variant_ok_def)
  have len: "length (encode sample_codec sample_type sample_val) \<le> 200"
  proof -
    have "s_is sample_codec x = x" "o_ser sample_codec False = Inr sample_obj" "length sample_obj = 13" for x
      by (simp_all add: sample_codec_def sample_obj_def)
    thus ?thesis by (simp add: sample_type_def sample_val_def enc_list_def enc_bytes_def sample_struct)
  qed
  have "m_dwOffset ?b = length (m_pData ?b)" "length (m_pData ?b) + length (encode sample_codec sample_type sample_val) \<le> 16777216"
    using len by simp_all
  from serialize_roundtrip[OF sample_codec_ok ok this] obtain b' where
    b': "SerialElem sample_codec sample_type (GetSignature sample_type) sample_val ?b = Inr (0, b')"
      "m_pData b' = encode sample_codec sample_type sample_val"
    and r: "\<forall>r rest. m_pData r = m_pData b' @ rest \<longrightarrow> length (m_pData r) \<le> 16777216 \<longrightarrow> m_dwOffset r = 0 \<longrightarrow>
      DeserialElem sample_codec sample_type (GetSignature sample_type) r = Inr (0, sample_val, r\<lparr>m_dwOffset := m_dwOffset b'\<rparr>)"
    by auto
  have "DeserialElem sample_codec sample_type (GetSignature sample_type) (b'\<lparr>m_dwOffset := 0\<rparr>) = Inr (0, sample_val, b')"
    using r[rule_format, of "b'\<lparr>m_dwOffset := 0\<rparr>" "[]"] b'(2) len by simp
  then show ?thesis using b'(1) by blast
qed

text \<open>C14. Whatever bytes arrive, reading a value of a type without byte arrays, variants and objects returns, stays inside the buffer, moves
  only forward, and leaves a value of that type, with an error or without: arrays of fewer than a million elements, maps whose entries are of the two types,
  and structs with all their fields. A boolean is the byte that came, which need not be 0 or 1. For byte arrays and variants the statement is false, and for
  objects it is up to their classes (\<open>byte_array_overread\<close>, \<open>variant_overread\<close>, \<open>object_overread\<close>).\<close>

theorem deserialize_typed:
  assumes "no_raw t" "m_dwOffset b \<le> length (m_pData b)"
  shows "\<exists>ret v b'. DeserialElem c t (GetSignature t) b = Inr (ret, v, b') \<and> typed t v \<and>
    m_pData b' = m_pData b \<and> m_dwOffset b \<le> m_dwOffset b' \<and> m_dwOffset b' \<le> length (m_pData b)"
proof -
  have "inside b" using assms(2) by (simp add: inside_def)
  with reads_all[OF assms(1), of c] obtain ret v b' where "DeserialElem c t (GetSignature t) b = Inr (ret, v, b')" "typed t v" "advances b b'"
    by (rule readsE)
  then show ?thesis by (auto simp: advances_def inside_def)
qed

theorem deserialize_typed_witness:
  "\<exists>ret v b'. DeserialElem sample_codec (TArray (TArray TString)) ''((s))'' \<lparr>m_pData = [0, 0, 0, 9, 0, 0, 0, 3, 255], m_dwOffset = 0\<rparr> =
      Inr (ret, v, b') \<and> typed (TArray (TArray TString)) v \<and> m_dwOffset b' \<le> 9"
  using deserialize_typed[of "TArray (TArray TString)" "\<lparr>m_pData = [0, 0, 0, 9, 0, 0, 0, 3, 255], m_dwOffset = 0\<rparr>" sample_codec] by auto

text \<open>A byte array that declares more bytes than the buffer has is copied past the end of the buffer, where a string of the same
  bytes is cut off at its end.\<close>

lemma byte_array_overread:
  assumes "4 \<le> buf_size b" "n = be_nat (take 4 (buf_ptr b))" "n \<le> MAX_BYTES_PER_BUFFER" "buf_size b - 4 < n"
  shows "DeserialElem c TByteArr sig b = Inl Fault_Range \<and>
    DeserialElem c TString sig b = Inr (0, VString (drop 4 (buf_ptr b)), b\<lparr>m_dwOffset := length (m_pData b)\<rparr>)"
proof -
  have off: "m_dwOffset b + 4 \<le> length (m_pData b)" using assms(1) by (simp add: buf_size_def)
  have sz: "buf_size (skip 4 b) = buf_size b - 4" by (simp add: buf_size_def)
  have "Deserialize_num 4 b = (0, n, skip 4 b)" using assms(1,2) SetOffset_skip(2)[of 4 b] by (simp add: Deserialize_num_def)
  then have d: "Deserialize_guint32 b = (0, word_of_nat n, skip 4 b)" by (simp add: Deserialize_guint32_def)
  have n: "unat (word_of_nat n :: 32 word) = n" using assms(3) by (intro unat_word_small) simp
  then have z: "(word_of_nat n :: 32 word) \<noteq> 0" using assms(4) by (auto simp flip: unat_eq_0)
  have p: "buf_ptr (skip 4 b) = drop 4 (buf_ptr b)" by (simp add: buf_ptr_def add.commute)
  have "IncOffset (buf_size b - 4) (skip 4 b) = b\<lparr>m_dwOffset := length (m_pData b)\<rparr>"
    using off by (cases b) (auto simp: IncOffset_def SetOffset_def buf_size_def skip_def)
  moreover have "length (drop 4 (buf_ptr b)) = buf_size b - 4" by (simp add: buf_ptr_def buf_size_def)
  ultimately have "Deserialize_string b = (0, drop 4 (buf_ptr b), b\<lparr>m_dwOffset := length (m_pData b)\<rparr>)"
    using assms(1,4) d n z sz p by (simp add: Deserialize_string_def Let_def min_absorb2)
  moreover have "Deserialize_BufPtr b = Inl Fault_Range"
    using assms(3,4) d n sz by (simp add: Deserialize_BufPtr_def Let_def)
  ultimately show ?thesis by (simp add: ret_val_def)
qed

text \<open>The other two: a variant that ends behind its tag for an object, and an object whose class reads past its input.\<close>

lemma variant_overread:
  assumes "buf_ptr b = [9]" "m_dwOffset b + 1 = length (m_pData b)"
  shows "DeserialElem c TVariant sig b = Inl Fault_Range"
proof -
  have "m_pData b \<noteq> []" using assms(2) by auto
  hence "m_pData (snd (SetOffset (m_dwOffset b + 1) b)) = m_pData b" "m_dwOffset (snd (SetOffset (m_dwOffset b + 1) b)) = length (m_pData b)"
    using assms(2) by (simp_all add: SetOffset_def)
  hence "buf_size (snd (SetOffset (m_dwOffset b + 1) b)) = 0" "buf_size b \<noteq> 0" using assms(2) by (simp_all add: buf_size_def)
  thus ?thesis using assms(1) by (simp add: Variant_Deserialize_def Variant_DeserializeObj_def Let_def)
qed

lemma object_overread:
  assumes "12 \<le> buf_size b" "n = be_nat (take 4 (drop 4 (buf_ptr b)))" "0 < n" "n \<le> buf_size b - 12"
    "o_des c (word_of_nat (be_nat (take 4 (buf_ptr b)))) (buf_ptr b) = Inl f"
  shows "DeserialElem c TObj sig b = Inl f"
  using assms by (simp add: Deserialize_ObjPtr_def Let_def)

text \<open>The errors of the elements of an array are lost on both sides: once the header is written or read, the methods return 0,
  whatever became of the elements, and a number of bytes that does not fit them is not noticed either.\<close>

lemma array_errors_lost:
  assumes "length vs < MAX_ELEM_COUNT" "8 \<le> buf_size b'" "be_nat (take 4 (buf_ptr b')) \<le> MAX_BYTES_PER_BUFFER"
  shows "(SerialElem c (TArray t) (GetSignature (TArray t)) (VArray vs) b = Inr (ret, b1) \<longrightarrow> ret = 0) \<and>
    (DeserialElem c (TArray t) (GetSignature (TArray t)) b' = Inr (ret', v, b2) \<longrightarrow> ret' = 0)"
proof -
  have "ret = 0" if s: "SerialElem c (TArray t) (GetSignature (TArray t)) (VArray vs) b = Inr (ret, b1)"
    using s assms(1) by (auto simp: SerializeArray_def Serialize_guint32_def Let_def patch_size_def split: sum.splits if_splits)
  moreover have "ret' = 0" if d: "DeserialElem c (TArray t) (GetSignature (TArray t)) b' = Inr (ret', v, b2)"
  proof -
    let ?n = "be_nat (take 4 (buf_ptr b'))" and ?k = "be_nat (take 4 (buf_ptr (skip 4 b')))"
    have "Deserialize_num 4 b' = (0, ?n, skip 4 b')" using assms(2) SetOffset_skip(2)[of 4 b'] by (simp add: Deserialize_num_def)
    then have h1: "Deserialize_guint32 b' = (0, word_of_nat ?n, skip 4 b')" by (simp add: Deserialize_guint32_def)
    have sz: "4 \<le> buf_size (skip 4 b')" using assms(2) by (simp add: buf_size_def)
    then have "Deserialize_num 4 (skip 4 b') = (0, ?k, skip 8 b')"
      using SetOffset_skip(2)[of 4 "skip 4 b'"] by (simp add: Deserialize_num_def)
    then have h2: "Deserialize_guint32 (skip 4 b') = (0, word_of_nat ?k, skip 8 b')" by (simp add: Deserialize_guint32_def)
    have "unat (word_of_nat ?n :: 32 word) = ?n" using assms(3) by (intro unat_word_small) simp
    then show ?thesis using d h1 h2 assms(2,3)
      by (auto simp: DeserialArray_def Let_def ret_val_def split: sum.splits if_splits)
  qed
  ultimately show ?thesis by blast
qed

text \<open>A byte array that is empty and not null comes back as null, and a message in a variant is refused by the writer and the reader.\<close>

lemma empty_bytes_come_back_null:
  assumes "m_dwOffset b = length (m_pData b)" "length (m_pData b) + 4 \<le> MAX_BYTES_PER_BUFFER"
  shows "\<exists>b'. SerialElem c TByteArr sig (VByteArr (Some [])) b = Inr (0, b') \<and>
    (\<forall>r rest. m_pData r = m_pData b' @ rest \<longrightarrow> length (m_pData r) \<le> MAX_BYTES_PER_BUFFER \<longrightarrow> m_dwOffset r = m_dwOffset b \<longrightarrow>
      DeserialElem c TByteArr sig r = Inr (0, VByteArr None, r\<lparr>m_dwOffset := m_dwOffset b'\<rparr>))"
proof -
  have e: "at_end b" using assms(1) by (simp add: at_end_def)
  have s: "SerialElem c TByteArr sig (VByteArr (Some [])) b = Inr (0, put (enc_bytes []) b)"
    using Serialize_BufPtr_put[OF e, of None] assms(2) by (simp add: Serialize_BufPtr_def room_def enc_bytes_def bytes_ok_def)
  have "DeserialElem c TByteArr sig r = Inr (0, VByteArr None, r\<lparr>m_dwOffset := m_dwOffset (put (enc_bytes []) b)\<rparr>)"
    if r: "m_pData r = m_pData b @ enc_bytes [] @ rest" "length (m_pData r) \<le> MAX_BYTES_PER_BUFFER" "m_dwOffset r = m_dwOffset b" for r rest
  proof -
    have "ahead (enc_bytes []) r" using r assms(1) by (simp add: ahead_def buf_ptr_def)
    with Deserialize_BufPtr_get[of None r] show ?thesis using r(3) by (simp add: bytes_ok_def ret_val_def skip_def)
  qed
  thus ?thesis using s by (intro exI[of _ "put (enc_bytes []) b"]) simp
qed

lemma message_refused:
  "\<exists>b'. SerialElem c TVariant sig (VVariant VarDMsg) b = Inr (- ENOTSUP, b')"
  "m_dwOffset b < length (m_pData b) \<Longrightarrow> hd (buf_ptr b) = 8 \<Longrightarrow> \<exists>b'. DeserialElem c TVariant sig b = Inr (- ENOTSUP, VVariant VarDMsg, b')"
  by (simp_all add: Variant_Serialize_def Variant_Deserialize_def Let_def buf_size_def ret_val_def)

text \<open>A null object does not survive: it is sent as a header of twelve bytes, which the reader recognizes and leaves where they
  are, so that the next value is read from the middle of the header.\<close>

lemma null_object_desync:
  assumes "m_dwOffset b = length (m_pData b)" "length (m_pData b) + 12 \<le> MAX_BYTES_PER_BUFFER"
  shows "\<exists>b'. SerialElem c TObj sig (VObj None) b = Inr (0, b') \<and> length (m_pData b') = length (m_pData b) + 12 \<and>
    (\<forall>r rest. m_pData r = m_pData b' @ rest \<longrightarrow> m_dwOffset r = m_dwOffset b \<longrightarrow> DeserialElem c TObj sig r = Inr (0, VObj None, r))"
proof -
  have e: "at_end b" using assms(1) by (simp add: at_end_def)
  let ?b1 = "put (be_bytes 4 (unat (0xFFFFFFFF :: 32 word))) b"
  let ?b2 = "put (be_bytes 4 (unat (0 :: 32 word))) ?b1"
  let ?b3 = "put (be_bytes 4 (unat (1 :: 32 word))) ?b2"
  have "Serialize_guint32 0xFFFFFFFF b = (0, ?b1)" "Serialize_gint32 0 ?b1 = (0, ?b2)" "Serialize_guint32 1 ?b2 = (0, ?b3)"
    by (rule Serialize_guint32_put number_put; use e assms(2) in \<open>simp add: room_def\<close>)+
  then have s: "SerialElem c TObj sig (VObj None) b = Inr (0, ?b3)" by (simp only: SerialElem.simps sval.case Serialize_ObjPtr_def option.case Let_def snd_conv)
  have "DeserialElem c TObj sig r = Inr (0, VObj None, r)" if r: "m_pData r = m_pData ?b3 @ rest" "m_dwOffset r = m_dwOffset b" for r rest
  proof -
    have p: "buf_ptr r = be_bytes 4 (unat (0xFFFFFFFF :: 32 word)) @ be_bytes 4 0 @ be_bytes 4 (unat (1 :: 32 word)) @ rest"
      using r assms(1) by (simp add: buf_ptr_def)
    have "buf_size r = length (buf_ptr r)" by (simp add: buf_size_def buf_ptr_def)
    then have "12 \<le> buf_size r" using p by simp
    moreover have "be_nat (take 4 (drop 4 (buf_ptr r))) = 0" using p by (simp add: be_nat_bytes)
    ultimately show ?thesis by (simp add: Deserialize_ObjPtr_def Let_def ret_val_def)
  qed
  then show ?thesis using s by (intro exI[of _ ?b3]) simp
qed

end
