(* ===== verification/Registry.thy ===== *)
theory Registry
  imports Prelude "HOL-Library.List_Lexorder" "HOL-Library.Char_ord" "HOL-Library.Sublist"
begin

text \<open>
  The object registry (\<^verbatim>\<open>combase/registry.cpp\<close>, \<^verbatim>\<open>include/registry.h\<close>): a tree of named directories in memory, each
  with a map of properties, and a current directory. An entry owns its children, so the tree is a datatype; a
  \<^verbatim>\<open>CDirEntry*\<close> is the list of names on the way from the root (\<open>[]\<close> is the root directory), and
  following a pointer to an entry that is gone is \<open>Fault_Null\<close>. \<^verbatim>\<open>GetParent\<close> drops the last name. \<^verbatim>\<open>m_pCurDir\<close> is set in the constructor
  and never to null, so the tests for null are not branches here. The properties of an entry are a pointer to a configuration,
  null after \<^verbatim>\<open>Clear\<close>; their values are of a type \<open>'v\<close>.
\<close>

section \<open>Ordered maps\<close>

text \<open>\<^verbatim>\<open>std::map\<close> with string keys: an association list in the order of the keys.\<close>

primrec map_put :: "string \<Rightarrow> 'a \<Rightarrow> (string \<times> 'a) list \<Rightarrow> (string \<times> 'a) list" where
  "map_put k v [] = [(k, v)]"
| "map_put k v (x # xs) =
    (if k < fst x then (k, v) # x # xs else if k = fst x then (k, v) # xs else x # map_put k v xs)"

definition map_erase :: "string \<Rightarrow> (string \<times> 'a) list \<Rightarrow> (string \<times> 'a) list" where
  "map_erase k m = filter (\<lambda>x. fst x \<noteq> k) m"

section \<open>Directory entries\<close>

abbreviation (input) REG_MAX_PATH :: nat where "REG_MAX_PATH \<equiv> 2048"
abbreviation (input) REG_MAX_NAME :: nat where "REG_MAX_NAME \<equiv> 255"

datatype 'v dentry = CDirEntry (m_strName: string) (m_mapChilds: "(string \<times> 'v dentry) list")
  (m_mapProps: "(int \<rightharpoonup> 'v) option")

definition new_entry :: "string \<Rightarrow> 'v dentry" where
  "new_entry strName = CDirEntry strName [] (Some Map.empty)"

definition set_childs :: "(string \<times> 'v dentry) list \<Rightarrow> 'v dentry \<Rightarrow> 'v dentry" where
  "set_childs cs e = CDirEntry (m_strName e) cs (m_mapProps e)"

definition set_props :: "(int \<rightharpoonup> 'v) option \<Rightarrow> 'v dentry \<Rightarrow> 'v dentry" where
  "set_props ps e = CDirEntry (m_strName e) (m_mapChilds e) ps"

definition GetChild :: "string \<Rightarrow> 'v dentry \<Rightarrow> 'v dentry option" where
  "GetChild strName e = (if length strName > REG_MAX_NAME then None else map_of (m_mapChilds e) strName)"

definition GetChild_ref :: "string \<Rightarrow> 'v dentry \<Rightarrow> gint32 \<times> 'v dentry option" where
  "GetChild_ref strName e =
    (if length strName > REG_MAX_NAME then (- ENAMETOOLONG, None)
     else case map_of (m_mapChilds e) strName of Some c \<Rightarrow> (0, Some c) | None \<Rightarrow> (- ENOENT, None))"

definition RemoveAllChildren :: "'v dentry \<Rightarrow> gint32 \<times> 'v dentry" where
  "RemoveAllChildren e = (0, set_childs [] e)"

definition AddChild_ent :: "'v dentry option \<Rightarrow> 'v dentry \<Rightarrow> gint32 \<times> 'v dentry" where
  "AddChild_ent pEnt e =
    (case pEnt of
       None \<Rightarrow> (- EINVAL, e)
     | Some c \<Rightarrow>
         if map_of (m_mapChilds e) (m_strName c) \<noteq> None then (- EEXIST, e)
         else (0, set_childs (map_put (m_strName c) c (m_mapChilds e)) e))"

definition AddChild :: "string \<Rightarrow> 'v dentry \<Rightarrow> gint32 \<times> 'v dentry" where
  "AddChild strName e =
    (if length strName > REG_MAX_NAME then (- EINVAL, e)
     else AddChild_ent (Some (new_entry strName)) e)"

definition RemoveChild :: "string \<Rightarrow> 'v dentry \<Rightarrow> gint32 \<times> 'v dentry" where
  "RemoveChild strName e =
    (if length strName > REG_MAX_NAME then (- EINVAL, e)
     else if map_of (m_mapChilds e) strName \<noteq> None then (0, set_childs (map_erase strName (m_mapChilds e)) e)
     else (- ENOENT, e))"

definition GetChildren :: "'v dentry \<Rightarrow> gint32 \<times> 'v dentry list" where
  "GetChildren e = (int (length (m_mapChilds e)), map snd (m_mapChilds e))"

text \<open>The properties: all three dereference the configuration without a test for null.\<close>

definition ent_GetProperty :: "int \<Rightarrow> 'v dentry \<Rightarrow> (gint32 \<times> 'v option) run" where
  "ent_GetProperty iProp e =
    (case m_mapProps e of
       None \<Rightarrow> Inl Fault_Null
     | Some m \<Rightarrow> Inr (case m iProp of None \<Rightarrow> (- ENOENT, None) | Some v \<Rightarrow> (0, Some v)))"

definition ent_SetProperty :: "int \<Rightarrow> 'v \<Rightarrow> 'v dentry \<Rightarrow> (gint32 \<times> 'v dentry) run" where
  "ent_SetProperty iProp oVar e =
    (case m_mapProps e of
       None \<Rightarrow> Inl Fault_Null
     | Some m \<Rightarrow> Inr (0, set_props (Some (m(iProp \<mapsto> oVar))) e))"

definition ent_RemoveProp :: "int \<Rightarrow> 'v dentry \<Rightarrow> (gint32 \<times> 'v dentry) run" where
  "ent_RemoveProp iProp e =
    (case m_mapProps e of
       None \<Rightarrow> Inl Fault_Null
     | Some m \<Rightarrow> Inr (if m iProp = None then (- ENOENT, e) else (0, set_props (Some (m(iProp := None))) e)))"

definition RemoveAllProps :: "'v dentry \<Rightarrow> 'v dentry" where
  "RemoveAllProps e = (case m_mapProps e of None \<Rightarrow> e | Some m \<Rightarrow> set_props (Some Map.empty) e)"

section \<open>Pointers into the tree\<close>

type_synonym path = "string list"

primrec entry_at :: "path \<Rightarrow> 'v dentry \<Rightarrow> 'v dentry option" where
  "entry_at [] e = Some e"
| "entry_at (n # p) e = (case map_of (m_mapChilds e) n of None \<Rightarrow> None | Some c \<Rightarrow> entry_at p c)"

primrec update_at :: "path \<Rightarrow> ('v dentry \<Rightarrow> 'v dentry) \<Rightarrow> 'v dentry \<Rightarrow> 'v dentry" where
  "update_at [] f e = f e"
| "update_at (n # p) f e =
    (case map_of (m_mapChilds e) n of
       None \<Rightarrow> e
     | Some c \<Rightarrow> set_childs (map_put n (update_at p f c) (m_mapChilds e)) e)"

text \<open>\<^verbatim>\<open>GetFullPath\<close> climbs to the root and puts the names in front of each other and of what \<open>strPath\<close> holds already.\<close>

function full_path_loop :: "'v dentry \<Rightarrow> path \<Rightarrow> string \<Rightarrow> string run" where
  "full_path_loop root p strPath =
    (if p = [] then Inr strPath
     else case entry_at p root of
       None \<Rightarrow> Inl Fault_Null
     | Some pde \<Rightarrow>
         full_path_loop root (butlast p)
           ((if strPath \<noteq> '''' then m_strName pde @ ''/'' else m_strName pde) @ strPath))"
  by auto
termination by (relation "measure (\<lambda>(root, p, strPath). length p)") auto

declare full_path_loop.simps [simp del]

definition GetFullPath :: "'v dentry \<Rightarrow> path \<Rightarrow> string \<Rightarrow> (gint32 \<times> string) run" where
  "GetFullPath root p strPath =
    (case full_path_loop root p strPath of
       Inl x \<Rightarrow> Inl x
     | Inr strPath' \<Rightarrow> Inr (0, if strPath' \<noteq> '''' then CHR ''/'' # strPath' else ''/''))"

section \<open>Parsing of paths\<close>

primrec rfind :: "char \<Rightarrow> string \<Rightarrow> nat option" where
  "rfind c [] = None"
| "rfind c (x # xs) =
    (case rfind c xs of Some i \<Rightarrow> Some (Suc i) | None \<Rightarrow> if x = c then Some 0 else None)"

lemma rfind_Some_less: "rfind c s = Some i \<Longrightarrow> i < length s"
  by (induction s arbitrary: i) (auto split: option.splits if_splits)

function namei_loop :: "string \<Rightarrow> string list \<Rightarrow> string list" where
  "namei_loop strTemp vecComponents =
    (if strTemp = '''' then vecComponents
     else case rfind (CHR ''/'') strTemp of
       None \<Rightarrow> vecComponents @ [strTemp]
     | Some pos \<Rightarrow>
         if pos > 0 \<and> pos + 1 = length strTemp then namei_loop (take pos strTemp) vecComponents
         else if pos = 0 \<and> 1 = length strTemp then vecComponents @ [strTemp]
         else if pos > 0 then namei_loop (take pos strTemp) (vecComponents @ [drop (pos + 1) strTemp])
         else namei_loop (take (pos + 1) strTemp) (vecComponents @ [drop (pos + 1) strTemp]))"
  by auto
termination
  by (relation "measure (\<lambda>(s, cs). length s)") (auto dest: rfind_Some_less simp: Suc_lessI)

declare namei_loop.simps [simp del]

definition Namei :: "string \<Rightarrow> gint32 \<times> string list" where
  "Namei strPath =
    (if strPath = '''' \<or> length strPath > REG_MAX_PATH then (- EINVAL, [])
     else let vecComponents = namei_loop strPath [] in
       (0, if length vecComponents > 1 then rev vecComponents else vecComponents))"

section \<open>The registry\<close>

record 'v registry =
  m_pRootDir :: "'v dentry"
  m_pCurDir :: path

definition CRegistry :: "'v registry" where
  "CRegistry = \<lparr>m_pRootDir = CDirEntry ''/'' [] (Some Map.empty), m_pCurDir = []\<rparr>"

definition cur_entry :: "'v registry \<Rightarrow> 'v dentry run" where
  "cur_entry r = (case entry_at (m_pCurDir r) (m_pRootDir r) of None \<Rightarrow> Inl Fault_Null | Some e \<Rightarrow> Inr e)"

definition put_cur :: "'v dentry \<Rightarrow> 'v registry \<Rightarrow> 'v registry" where
  "put_cur e r = r\<lparr>m_pRootDir := update_at (m_pCurDir r) (\<lambda>_. e) (m_pRootDir r)\<rparr>"

primrec get_entry_loop :: "'v dentry \<Rightarrow> string list \<Rightarrow> path \<Rightarrow> (gint32 \<times> path) run" where
  "get_entry_loop root [] pCurDir = Inr (0, pCurDir)"
| "get_entry_loop root (c # vecComp) pCurDir =
    (if c = ''.'' then get_entry_loop root vecComp pCurDir
     else if c = ''..'' then
       (if pCurDir = [] then Inr (- ENOENT, pCurDir)
        else get_entry_loop root vecComp (butlast pCurDir))
     else if c = ''/'' then get_entry_loop root vecComp []
     else case entry_at pCurDir root of
       None \<Rightarrow> Inl Fault_Null
     | Some e \<Rightarrow>
         (case GetChild c e of
            None \<Rightarrow> Inr (- ENOENT, pCurDir)
          | Some _ \<Rightarrow> get_entry_loop root vecComp (pCurDir @ [c])))"

text \<open>The second component is \<^verbatim>\<open>pDir\<close>, set on success only.\<close>

definition GetEntry :: "string \<Rightarrow> 'v registry \<Rightarrow> (gint32 \<times> path option) run" where
  "GetEntry strDir r =
    (if length strDir > REG_MAX_PATH then Inr (- EINVAL, None)
     else let (ret, vecComp) = Namei strDir in
       if ERROR ret then Inr (ret, None)
       else case get_entry_loop (m_pRootDir r) vecComp (m_pCurDir r) of
         Inl x \<Rightarrow> Inl x
       | Inr (ret, pCurDir) \<Rightarrow> Inr (ret, if SUCCEEDED ret then Some pCurDir else None))"

definition ChangeDir :: "string \<Rightarrow> 'v registry \<Rightarrow> (gint32 \<times> 'v registry) run" where
  "ChangeDir strDir r =
    (case GetEntry strDir r of
       Inl x \<Rightarrow> Inl x
     | Inr (ret, pDir) \<Rightarrow> Inr (ret, case pDir of None \<Rightarrow> r | Some p \<Rightarrow> r\<lparr>m_pCurDir := p\<rparr>))"

definition ListDir :: "'v registry \<Rightarrow> (gint32 \<times> string list) run" where
  "ListDir r =
    (case cur_entry r of
       Inl x \<Rightarrow> Inl x
     | Inr e \<Rightarrow> Inr (0, map (m_strName \<circ> snd) (m_mapChilds e)))"

definition MakeEntry :: "string \<Rightarrow> 'v registry \<Rightarrow> (gint32 \<times> 'v registry) run" where
  "MakeEntry strName r =
    (if length strName > REG_MAX_NAME then Inr (- EINVAL, r)
     else let (ret, vecComp) = Namei strName in
       if ret < 0 then Inr (ret, r)
       else if length vecComp > 1 then Inr (- EINVAL, r)
       else if vecComp ! 0 = ''/'' then Inr (- EINVAL, r)
       else case cur_entry r of
         Inl x \<Rightarrow> Inl x
       | Inr e \<Rightarrow>
           let (ret, e') = AddChild strName e in
           Inr (ret, put_cur e' r))"

primrec existing_loop :: "string list \<Rightarrow> 'v dentry \<Rightarrow> gint32" where
  "existing_loop [] pCurDir = 0"
| "existing_loop (c # vecComp) pCurDir =
    (case GetChild c pCurDir of None \<Rightarrow> - ENOENT | Some pChild \<Rightarrow> existing_loop vecComp pChild)"

text \<open>Where a path starts: at the root when its first component is \<^verbatim>\<open>/\<close>, else at the current directory.\<close>

definition start_of :: "string list \<Rightarrow> path \<Rightarrow> path \<times> string list" where
  "start_of vecComp pCurDir = (if vecComp ! 0 = ''/'' then ([], tl vecComp) else (pCurDir, vecComp))"

definition ExistingDir :: "string \<Rightarrow> 'v registry \<Rightarrow> gint32 run" where
  "ExistingDir strPath r =
    (if length strPath > REG_MAX_PATH then Inr (- EINVAL)
     else if strPath = '''' then Inr (- EINVAL)
     else let (ret, vecComp) = Namei strPath in
       if ret < 0 then Inr ret
       else let (pCurDir, names) = start_of vecComp (m_pCurDir r) in
         case entry_at pCurDir (m_pRootDir r) of
           None \<Rightarrow> Inl Fault_Null
         | Some e \<Rightarrow> Inr (existing_loop names e))"

text \<open>
  \<^verbatim>\<open>MakeDir\<close> walks along the path and creates what is missing; \<open>pRollback\<close> is the parent of the first entry it
  created. The result has the status, the tree, \<^verbatim>\<open>pCurDir\<close>, \<^verbatim>\<open>pParent\<close> and \<^verbatim>\<open>pRollback\<close>.
\<close>

primrec make_loop :: "string list \<Rightarrow> 'v dentry \<Rightarrow> path \<Rightarrow> path option \<Rightarrow> path option
    \<Rightarrow> (gint32 \<times> 'v dentry \<times> path \<times> path option \<times> path option) run" where
  "make_loop [] root pCurDir pParent pRollback = Inr (0, root, pCurDir, pParent, pRollback)"
| "make_loop (c # vecComp) root pCurDir pParent pRollback =
    (case entry_at pCurDir root of
       None \<Rightarrow> Inl Fault_Null
     | Some e \<Rightarrow>
         (case GetChild c e of
            Some _ \<Rightarrow> make_loop vecComp root (pCurDir @ [c]) (Some pCurDir) pRollback
          | None \<Rightarrow>
              (let pRollback = (if pRollback = None then Some pCurDir else pRollback);
                   (ret, e') = AddChild c e;
                   root = update_at pCurDir (\<lambda>_. e') root in
               if ret < 0 then Inr (ret, root, pCurDir, Some pCurDir, pRollback)
               else if GetChild c e' = None then Inr (- EFAULT, root, pCurDir, Some pCurDir, pRollback)
               else make_loop vecComp root (pCurDir @ [c]) (Some pCurDir) pRollback)))"

function rollback_loop :: "'v dentry \<Rightarrow> path option \<Rightarrow> path option \<Rightarrow> 'v dentry run" where
  "rollback_loop root pRollback pLeaf =
    (if pRollback = pLeaf then Inr root
     else case pLeaf of
       None \<Rightarrow> Inl Fault_Null
     | Some p \<Rightarrow>
         (case entry_at p root of
            None \<Rightarrow> Inl Fault_Null
          | Some e \<Rightarrow>
              if p = [] then rollback_loop root pRollback None
              else rollback_loop (update_at (butlast p) (\<lambda>d. snd (RemoveChild (m_strName e) d)) root)
                     pRollback (Some (butlast p))))"
  by pat_completeness auto
termination
  by (relation "measure (\<lambda>(root, rb, pLeaf). case pLeaf of None \<Rightarrow> 0 | Some p \<Rightarrow> Suc (length p))") auto

declare rollback_loop.simps [simp del]

definition MakeDir :: "string \<Rightarrow> 'v registry \<Rightarrow> (gint32 \<times> 'v registry) run" where
  "MakeDir strPath r =
    (if strPath = '''' \<or> length strPath > REG_MAX_PATH then Inr (- EINVAL, r)
     else let (ret, vecComp) = Namei strPath in
       if ret < 0 then Inr (ret, r)
       else let (pCurDir, names) = start_of vecComp (m_pCurDir r) in
         case make_loop names (m_pRootDir r) pCurDir None None of
           Inl x \<Rightarrow> Inl x
         | Inr (ret, root, pCurDir, pParent, pRollback) \<Rightarrow>
             if ERROR ret then
               (case rollback_loop root pRollback pParent of
                  Inl x \<Rightarrow> Inl x
                | Inr root \<Rightarrow> Inr (ret, r\<lparr>m_pRootDir := root\<rparr>))
             else Inr (ret, r\<lparr>m_pRootDir := root, m_pCurDir := pCurDir\<rparr>))"

text \<open>Properties of the current directory.\<close>

definition reg_GetProperty :: "int \<Rightarrow> 'v registry \<Rightarrow> (gint32 \<times> 'v option) run" where
  "reg_GetProperty iProp r = (case cur_entry r of Inl x \<Rightarrow> Inl x | Inr e \<Rightarrow> ent_GetProperty iProp e)"

definition reg_SetProperty :: "int \<Rightarrow> 'v \<Rightarrow> 'v registry \<Rightarrow> (gint32 \<times> 'v registry) run" where
  "reg_SetProperty iProp oVal r =
    (case cur_entry r of
       Inl x \<Rightarrow> Inl x
     | Inr e \<Rightarrow> map_sum id (\<lambda>(ret, e'). (ret, put_cur e' r)) (ent_SetProperty iProp oVal e))"

definition reg_RemoveProperty :: "int \<Rightarrow> 'v registry \<Rightarrow> (gint32 \<times> 'v registry) run" where
  "reg_RemoveProperty iProp r =
    (case cur_entry r of
       Inl x \<Rightarrow> Inl x
     | Inr e \<Rightarrow> map_sum id (\<lambda>(ret, e'). (ret, put_cur e' r)) (ent_RemoveProp iProp e))"

text \<open>
  \<^verbatim>\<open>RemoveDir\<close> enters the directory, empties it and clears its properties, then goes up and erases it. The root
  directory has no parent and stays, with no properties to point to.
\<close>

definition RemoveDir :: "string \<Rightarrow> 'v registry \<Rightarrow> (gint32 \<times> 'v registry) run" where
  "RemoveDir strPath r =
    (case ChangeDir strPath r of
       Inl x \<Rightarrow> Inl x
     | Inr (ret, r) \<Rightarrow>
         if ERROR ret then Inr (ret, r)
         else case cur_entry r of
           Inl x \<Rightarrow> Inl x
         | Inr e \<Rightarrow>
             (let (ret, e1) = RemoveAllChildren e; r = put_cur (set_props None e1) r in
              if m_pCurDir r = [] then Inr (ret, r)
              else let pParent = butlast (m_pCurDir r); strName = m_strName e in
                case ChangeDir ''..'' r of
                  Inl x \<Rightarrow> Inl x
                | Inr (_, r) \<Rightarrow>
                    Inr (ret, r\<lparr>m_pRootDir := update_at pParent (\<lambda>d. snd (RemoveChild strName d)) (m_pRootDir r)\<rparr>)))"

text \<open>The calls of a client and their answers.\<close>

datatype 'v reg_op = Op_MakeEntry string | Op_MakeDir string | Op_ChangeDir string | Op_RemoveDir string
  | Op_ExistingDir string | Op_ListDir | Op_GetProperty int | Op_SetProperty int 'v | Op_RemoveProperty int

type_synonym 'v reg_answer = "gint32 \<times> 'v option \<times> string list"

definition code_only :: "gint32 \<times> 's \<Rightarrow> 'v reg_answer \<times> 's" where
  "code_only x = ((fst x, None, []), snd x)"

primrec reg_step :: "'v reg_op \<Rightarrow> 'v registry \<Rightarrow> ('v reg_answer \<times> 'v registry) run" where
  "reg_step (Op_MakeEntry s) r = map_sum id code_only (MakeEntry s r)"
| "reg_step (Op_MakeDir s) r = map_sum id code_only (MakeDir s r)"
| "reg_step (Op_ChangeDir s) r = map_sum id code_only (ChangeDir s r)"
| "reg_step (Op_RemoveDir s) r = map_sum id code_only (RemoveDir s r)"
| "reg_step (Op_ExistingDir s) r = map_sum id (\<lambda>ret. ((ret, None, []), r)) (ExistingDir s r)"
| "reg_step Op_ListDir r = map_sum id (\<lambda>(ret, l). ((ret, None, l), r)) (ListDir r)"
| "reg_step (Op_GetProperty i) r = map_sum id (\<lambda>(ret, v). ((ret, v, []), r)) (reg_GetProperty i r)"
| "reg_step (Op_SetProperty i v) r = map_sum id code_only (reg_SetProperty i v r)"
| "reg_step (Op_RemoveProperty i) r = map_sum id code_only (reg_RemoveProperty i r)"

section \<open>Facts about ordered maps and the tree\<close>

abbreviation keys_ok :: "(string \<times> 'a) list \<Rightarrow> bool" where
  "keys_ok m \<equiv> sorted_wrt (<) (map fst m)"

lemma map_of_map_put [simp]: "map_of (map_put k v m) = (map_of m)(k \<mapsto> v)"
  by (induction m) auto

lemma map_of_map_erase [simp]: "map_of (map_erase k m) = (map_of m)(k := None)"
  unfolding map_erase_def by (induction m) auto

lemma map_put_set: "x \<in> set (map_put k v m) \<Longrightarrow> x = (k, v) \<or> x \<in> set m"
  by (induction m) (auto split: if_splits)

lemma map_erase_set [simp]: "x \<in> set (map_erase k m) \<longleftrightarrow> x \<in> set m \<and> fst x \<noteq> k"
  by (simp add: map_erase_def)

lemma keys_ok_erase: "keys_ok m \<Longrightarrow> keys_ok (map_erase k m)"
  unfolding map_erase_def by (induction m) auto

lemma keys_ok_put: "keys_ok m \<Longrightarrow> keys_ok (map_put k v m)"
proof (induction m)
  case (Cons x xs)
  have "fst x < fst y" if "fst x < k" "y \<in> set (map_put k v xs)" for y
    using map_put_set[OF that(2)] that(1) Cons.prems by auto
  with Cons show ?case by (auto simp: not_less order.order_iff_strict dest: order.strict_trans)
qed simp

lemma map_of_keys_ok: "keys_ok m \<Longrightarrow> (k, v) \<in> set m \<Longrightarrow> map_of m k = Some v"
  by (rule map_of_is_SomeI) (auto simp: strict_sorted_iff)

lemma map_put_same: "keys_ok m \<Longrightarrow> map_of m k = Some v \<Longrightarrow> map_put k v m = m"
proof (induction m)
  case (Cons x xs)
  show ?case
  proof (cases "k = fst x")
    case True with Cons.prems show ?thesis by (cases x) simp
  next
    case False
    with Cons.prems have "(k, v) \<in> set xs" by (cases x) (auto dest: map_of_SomeD)
    with Cons.prems have "fst x < k" by auto
    with False Cons show ?thesis by (auto split: if_splits)
  qed
qed simp

lemma map_put_put: "map_put k v (map_put k w m) = map_put k v m"
  by (induction m) auto

lemma map_erase_put: "keys_ok m \<Longrightarrow> map_of m k = None \<Longrightarrow> map_erase k (map_put k v m) = m"
  unfolding map_erase_def by (induction m) (auto simp: filter_id_conv map_of_eq_None_iff)

lemma dentry_sel_simps [simp]:
  "m_strName (set_childs cs e) = m_strName e" "m_mapChilds (set_childs cs e) = cs"
  "m_mapProps (set_childs cs e) = m_mapProps e" "m_strName (set_props ps e) = m_strName e"
  "m_mapChilds (set_props ps e) = m_mapChilds e" "m_mapProps (set_props ps e) = ps"
  "m_strName (new_entry n) = n" "m_mapChilds (new_entry n) = []" "m_mapProps (new_entry n) = Some Map.empty"
  by (simp_all add: set_childs_def set_props_def new_entry_def)

lemma set_childs_same [simp]: "set_childs (m_mapChilds e) e = e"
  by (cases e) (simp add: set_childs_def)

lemma set_childs_twice [simp]: "set_childs xs (set_childs ys e) = set_childs xs e"
  by (simp add: set_childs_def)

text \<open>The invariant of a tree: ordered children that know their names, none too long, all with properties.\<close>

fun dentry_wf :: "'v dentry \<Rightarrow> bool" where
  "dentry_wf (CDirEntry n cs ps) \<longleftrightarrow> keys_ok cs \<and>
    (\<forall>x\<in>set cs. m_strName (snd x) = fst x \<and> length (fst x) \<le> REG_MAX_NAME \<and> m_mapProps (snd x) \<noteq> None
      \<and> dentry_wf (snd x))"

declare dentry_wf.simps [simp del]

lemma dentry_wf_iff:
  "dentry_wf e \<longleftrightarrow> keys_ok (m_mapChilds e) \<and>
    (\<forall>n c. (n, c) \<in> set (m_mapChilds e) \<longrightarrow>
      m_strName c = n \<and> length n \<le> REG_MAX_NAME \<and> m_mapProps c \<noteq> None \<and> dentry_wf c)"
  by (cases e) (auto simp: dentry_wf.simps)

lemma dentry_wf_child:
  assumes "dentry_wf e" "map_of (m_mapChilds e) n = Some c"
  shows "m_strName c = n" "length n \<le> REG_MAX_NAME" "m_mapProps c \<noteq> None" "dentry_wf c"
  using assms dentry_wf_iff[of e] map_of_SomeD[OF assms(2)] by blast+

lemma dentry_wf_set_props [simp]: "dentry_wf (set_props ps e) = dentry_wf e"
  by (subst (1 2) dentry_wf_iff) simp

lemma dentry_wf_put:
  assumes "dentry_wf e" "dentry_wf c" "m_strName c = n" "length n \<le> REG_MAX_NAME" "m_mapProps c \<noteq> None"
  shows "dentry_wf (set_childs (map_put n c (m_mapChilds e)) e)"
  using assms unfolding dentry_wf_iff[of e] dentry_wf_iff[of "set_childs _ e"]
  by (auto simp: keys_ok_put dest!: map_put_set)

lemma dentry_wf_erase: "dentry_wf e \<Longrightarrow> dentry_wf (set_childs (map_erase n (m_mapChilds e)) e)"
  unfolding dentry_wf_iff[of e] dentry_wf_iff[of "set_childs _ e"] by (auto simp: keys_ok_erase)

lemma dentry_wf_new [simp]: "dentry_wf (new_entry n)"
  by (subst dentry_wf_iff) simp

lemma dentry_wf_empty [simp]: "dentry_wf (set_childs [] e)"
  by (subst dentry_wf_iff) simp

lemma GetChild_wf: "dentry_wf e \<Longrightarrow> GetChild n e = map_of (m_mapChilds e) n"
  using dentry_wf_child(2)[of e n] by (cases "map_of (m_mapChilds e) n") (auto simp: GetChild_def)

lemma entry_at_append: "entry_at (p @ q) e = (case entry_at p e of None \<Rightarrow> None | Some d \<Rightarrow> entry_at q d)"
  by (induction p arbitrary: e) (auto split: option.splits)

lemma entry_at_wf: "dentry_wf e \<Longrightarrow> entry_at p e = Some d \<Longrightarrow> dentry_wf d"
proof (induction p arbitrary: e)
  case (Cons n p)
  then show ?case using dentry_wf_child(4)[OF Cons.prems(1)] by (auto split: option.splits)
qed simp

lemma entry_at_last:
  assumes "dentry_wf root" "entry_at p root = Some e" "p \<noteq> []"
  shows "m_strName e = last p" "length (last p) \<le> REG_MAX_NAME" "m_mapProps e \<noteq> None"
    "\<exists>d. entry_at (butlast p) root = Some d \<and> map_of (m_mapChilds d) (last p) = Some e"
proof -
  have "entry_at (butlast p @ [last p]) root = Some e" using assms by simp
  then obtain d where d: "entry_at (butlast p) root = Some d" "map_of (m_mapChilds d) (last p) = Some e"
    unfolding entry_at_append by (auto split: option.splits)
  note c = dentry_wf_child[OF entry_at_wf[OF assms(1) d(1)] d(2)]
  show "m_strName e = last p" "length (last p) \<le> REG_MAX_NAME" "m_mapProps e \<noteq> None" using c by auto
  show "\<exists>d. entry_at (butlast p) root = Some d \<and> map_of (m_mapChilds d) (last p) = Some e" using d by blast
qed

text \<open>Writing at one path changes what is below it and nothing else.\<close>

lemma entry_at_update:
  "entry_at p root = Some e \<Longrightarrow>
   map_option m_mapProps (entry_at q (update_at p f root)) =
     (if prefix p q then map_option m_mapProps (entry_at (drop (length p) q) (f e))
      else map_option m_mapProps (entry_at q root))"
proof (induction p arbitrary: q root)
  case (Cons n p)
  then obtain c where c: "map_of (m_mapChilds root) n = Some c" "entry_at p c = Some e"
    by (auto split: option.splits)
  show ?case
  proof (cases q)
    case (Cons m q')
    then show ?thesis using Cons.IH[OF c(2), of q'] c(1) by (cases "m = n") auto
  qed (use c in simp)
qed simp

lemma update_at_wf:
  "dentry_wf root \<Longrightarrow> entry_at p root = Some e \<Longrightarrow> dentry_wf (f e) \<Longrightarrow> m_strName (f e) = m_strName e \<Longrightarrow>
   (p \<noteq> [] \<Longrightarrow> m_mapProps (f e) \<noteq> None) \<Longrightarrow> dentry_wf (update_at p f root)"
proof (induction p arbitrary: root)
  case (Cons n p)
  then obtain c where c: "map_of (m_mapChilds root) n = Some c" "entry_at p c = Some e"
    by (auto split: option.splits)
  note w = dentry_wf_child[OF Cons.prems(1) c(1)]
  have "m_strName (update_at p f c) = n \<and> m_mapProps (update_at p f c) \<noteq> None"
  proof (cases p)
    case Nil with c Cons.prems w show ?thesis by simp
  next
    case (Cons m p') with w c show ?thesis by (auto split: option.splits)
  qed
  then show ?case using Cons.IH[OF w(4) c(2)] Cons.prems c(1) w by (simp add: dentry_wf_put)
qed simp

lemma update_at_same: "dentry_wf root \<Longrightarrow> entry_at p root = Some e \<Longrightarrow> f e = e \<Longrightarrow> update_at p f root = root"
proof (induction p arbitrary: root)
  case (Cons n p)
  then obtain c where c: "map_of (m_mapChilds root) n = Some c" "entry_at p c = Some e"
    by (auto split: option.splits)
  note w = dentry_wf_child[OF Cons.prems(1) c(1)]
  have "keys_ok (m_mapChilds root)" using Cons.prems(1) dentry_wf_iff by blast
  then show ?case using Cons.IH[OF w(4) c(2) Cons.prems(3)] c(1) by (simp add: map_put_same)
qed simp

lemma entry_at_updated: "entry_at p root = Some e \<Longrightarrow> entry_at p (update_at p f root) = Some (f e)"
  by (induction p arbitrary: root) (auto split: option.splits)

lemma update_at_update: "entry_at p root = Some e \<Longrightarrow> update_at p g (update_at p f root) = update_at p (g \<circ> f) root"
  by (induction p arbitrary: root) (auto simp: map_put_put split: option.splits)

lemma update_at_cong: "entry_at p root = Some e \<Longrightarrow> f e = g e \<Longrightarrow> update_at p f root = update_at p g root"
  by (induction p arbitrary: root) (auto split: option.splits)

section \<open>Paths as their components\<close>

text \<open>The reference for \<^verbatim>\<open>Namei\<close>: cut at the slashes, drop empty names, keep a leading slash as the first component.\<close>

primrec split_slash :: "string \<Rightarrow> string list" where
  "split_slash [] = [[]]"
| "split_slash (c # s) =
    (if c = CHR ''/'' then [] # split_slash s else (c # hd (split_slash s)) # tl (split_slash s))"

definition names_of :: "string \<Rightarrow> string list" where
  "names_of s = filter (\<lambda>n. n \<noteq> []) (split_slash s)"

definition root_of :: "string \<Rightarrow> string list" where
  "root_of s = (if s \<noteq> [] \<and> hd s = CHR ''/'' then [''/''] else [])"

definition components :: "string \<Rightarrow> string list" where
  "components s = root_of s @ names_of s"

lemma split_slash_ne [simp]: "split_slash s \<noteq> []"
  by (induction s) auto

lemma split_slash_plain: "CHR ''/'' \<notin> set s \<Longrightarrow> split_slash s = [s]"
  by (induction s) auto

lemma split_slash_append: "split_slash (xs @ CHR ''/'' # ys) = split_slash xs @ split_slash ys"
  by (induction xs) auto

lemma rfind_None: "rfind c s = None \<longleftrightarrow> c \<notin> set s"
  by (induction s) (auto split: option.splits)

lemma rfind_Some: "rfind c s = Some i \<Longrightarrow> i < length s \<and> s ! i = c \<and> c \<notin> set (drop (Suc i) s)"
proof (induction s arbitrary: i)
  case (Cons x s)
  then show ?case using rfind_None[of c s] by (cases "rfind c s") (auto split: if_splits)
qed simp

lemma rfind_split:
  assumes "rfind (CHR ''/'') s = Some i"
  shows "s = take i s @ CHR ''/'' # drop (Suc i) s" "CHR ''/'' \<notin> set (drop (Suc i) s)"
  using rfind_Some[OF assms] id_take_nth_drop[of i s] by auto

lemma names_of_cut:
  assumes "rfind (CHR ''/'') s = Some i"
  shows "names_of s = names_of (take i s) @ (if drop (Suc i) s = [] then [] else [drop (Suc i) s])"
proof -
  have "split_slash s = split_slash (take i s) @ [drop (Suc i) s]"
    using split_slash_append[of "take i s" "drop (Suc i) s"] split_slash_plain rfind_split[OF assms] by metis
  then show ?thesis by (simp add: names_of_def)
qed

lemma root_of_take [simp]: "0 < i \<Longrightarrow> root_of (take i s) = root_of s"
  by (cases s) (auto simp: root_of_def take_Cons')

lemma namei_loop_components: "s \<noteq> [] \<Longrightarrow> rev (namei_loop s acc) = components s @ rev acc"
proof (induction s acc rule: namei_loop.induct)
  case (1 s acc)
  show ?case
  proof (cases "rfind (CHR ''/'') s")
    case None
    moreover have "CHR ''/'' \<notin> set s" using None by (simp add: rfind_None)
    moreover from this 1 have "names_of s = [s]" "root_of s = []"
      by (auto simp: names_of_def root_of_def split_slash_plain dest: hd_in_set)
    ultimately show ?thesis using 1 by (subst namei_loop.simps) (simp add: components_def)
  next
    case (Some i)
    note cut = names_of_cut[OF Some] and i = rfind_Some[OF Some]
    have slash: "s = CHR ''/'' # drop 1 s" if "i = 0" using rfind_split(1)[OF Some] that by simp
    have split0: "names_of [] = []" by (simp add: names_of_def)
    have root0: "root_of s = [''/'']" if "i = 0" using slash[OF that] by (simp add: root_of_def) (metis list.discI list.sel(1))
    consider "i > 0" "Suc i = length s" | "i = 0" "length s = 1" | "i > 0" "Suc i \<noteq> length s" | "i = 0" "length s \<noteq> 1"
      by blast
    then show ?thesis
    proof cases
      case 1
      then have "rev (namei_loop (take i s) acc) = components (take i s) @ rev acc"
        using "1.IH"(1)[OF _ Some] "1.prems" by auto
      then show ?thesis using 1 Some cut "1.prems" by (subst namei_loop.simps) (simp add: components_def)
    next
      case 2
      then have "s = ''/''" using slash by (cases s) auto
      with 2 Some cut root0 split0 show ?thesis by (subst namei_loop.simps) (simp add: components_def)
    next
      case 3
      then have "rev (namei_loop (take i s) (acc @ [drop (i + 1) s])) = components (take i s) @ rev (acc @ [drop (i + 1) s])"
        using "1.IH"(2)[OF _ Some] "1.prems" by auto
      then show ?thesis using 3 Some cut i "1.prems" by (subst namei_loop.simps) (simp add: components_def)
    next
      case 4
      then have "rev (namei_loop (take (i + 1) s) (acc @ [drop (i + 1) s]))
          = components (take (i + 1) s) @ rev (acc @ [drop (i + 1) s])"
        using "1.IH"(3)[OF _ Some] "1.prems" by auto
      moreover have "take (Suc 0) s = ''/''" using slash 4(1) "1.prems" by (cases s) auto
      moreover have "components ''/'' = [''/'']" by (simp add: components_def root_of_def names_of_def)
      ultimately show ?thesis using 4 Some cut i "1.prems" root0 split0
        by (subst namei_loop.simps) (simp add: components_def)
    qed
  qed
qed

lemma Namei_components:
  "Namei s = (if s = [] \<or> length s > REG_MAX_PATH then (- EINVAL, []) else (0, components s))"
proof (cases "s = []")
  case False
  then have r: "rev (namei_loop s []) = components s" by (simp add: namei_loop_components)
  have "components s = namei_loop s []" if "\<not> length (namei_loop s []) > 1"
    using that r by (cases "namei_loop s []") auto
  with r False show ?thesis by (simp add: Namei_def Let_def)
qed (simp add: Namei_def)

lemma components_nonempty: "s \<noteq> [] \<Longrightarrow> components s \<noteq> []"
  by (cases s) (auto simp: components_def root_of_def names_of_def)

lemma split_slash_no_slash: "n \<in> set (split_slash s) \<Longrightarrow> CHR ''/'' \<notin> set n"
proof (induction s arbitrary: n)
  case (Cons c s)
  from Cons.prems consider "c = CHR ''/''" "n \<in> set ([] # split_slash s)"
    | "c \<noteq> CHR ''/''" "n = c # hd (split_slash s)" | "c \<noteq> CHR ''/''" "n \<in> set (tl (split_slash s))"
    by (auto split: if_splits)
  then show ?case
    using Cons.IH[of "hd (split_slash s)"] Cons.IH[of n] list.set_sel(2)[of "split_slash s" n] by cases auto
qed simp

lemma names_of_plain: "n \<in> set (names_of s) \<Longrightarrow> n \<noteq> [] \<and> CHR ''/'' \<notin> set n"
  by (auto simp: names_of_def split_slash_no_slash)

lemma start_of_components:
  assumes "s \<noteq> []"
  shows "start_of (components s) cwd = (if hd s = CHR ''/'' then [] else cwd, names_of s)"
proof (cases "hd s = CHR ''/''")
  case False
  then have c: "components s = names_of s" using assms by (simp add: components_def root_of_def)
  then have "names_of s ! 0 \<in> set (names_of s)" using components_nonempty[OF assms] by simp
  then have "names_of s ! 0 \<noteq> ''/''" using names_of_plain[of "names_of s ! 0" s] by auto
  with c False show ?thesis by (simp add: start_of_def)
qed (use assms in \<open>simp add: start_of_def components_def root_of_def\<close>)

section \<open>The abstract registry\<close>

text \<open>A map from paths to properties and a current path; every operation is stated on paths alone.\<close>

record 'v dirs =
  d_map :: "path \<rightharpoonup> (int \<rightharpoonup> 'v) option"
  d_cwd :: path

definition view :: "'v registry \<Rightarrow> 'v dirs" where
  "view r = \<lparr>d_map = (\<lambda>p. map_option m_mapProps (entry_at p (m_pRootDir r))), d_cwd = m_pCurDir r\<rparr>"

primrec spec_walk :: "(path \<rightharpoonup> 'a) \<Rightarrow> string list \<Rightarrow> path \<Rightarrow> gint32 \<times> path" where
  "spec_walk D [] p = (0, p)"
| "spec_walk D (c # cs) p =
    (if c = ''.'' then spec_walk D cs p
     else if c = ''..'' then (if p = [] then (- ENOENT, p) else spec_walk D cs (butlast p))
     else if c = ''/'' then spec_walk D cs []
     else if p @ [c] \<in> dom D then spec_walk D cs (p @ [c]) else (- ENOENT, p))"

definition spec_resolve :: "string \<Rightarrow> 'v dirs \<Rightarrow> gint32 \<times> path" where
  "spec_resolve s S =
    (if s = [] \<or> length s > REG_MAX_PATH then (- EINVAL, d_cwd S) else spec_walk (d_map S) (components s) (d_cwd S))"

definition spec_chdir :: "string \<Rightarrow> 'v dirs \<Rightarrow> gint32 \<times> 'v dirs" where
  "spec_chdir s S = (let (ret, p) = spec_resolve s S in (ret, if ret = 0 then S\<lparr>d_cwd := p\<rparr> else S))"

definition spec_target :: "string \<Rightarrow> 'v dirs \<Rightarrow> path" where
  "spec_target s S = (if hd s = CHR ''/'' then [] else d_cwd S) @ names_of s"

definition spec_exists :: "string \<Rightarrow> 'v dirs \<Rightarrow> gint32" where
  "spec_exists s S =
    (if s = [] \<or> length s > REG_MAX_PATH then - EINVAL else if spec_target s S \<in> dom (d_map S) then 0 else - ENOENT)"

text \<open>Creation along a path makes every missing directory above and at the target, or none.\<close>

definition spec_mkdir :: "string \<Rightarrow> 'v dirs \<Rightarrow> gint32 \<times> 'v dirs" where
  "spec_mkdir s S =
    (if s = [] \<or> length s > REG_MAX_PATH \<or> (\<exists>n\<in>set (names_of s). length n > REG_MAX_NAME) then (- EINVAL, S)
     else (0, S\<lparr>d_map := (\<lambda>q. if prefix q (spec_target s S) \<and> q \<notin> dom (d_map S) then Some (Some Map.empty) else d_map S q),
                d_cwd := spec_target s S\<rparr>))"

definition spec_mkentry :: "string \<Rightarrow> 'v dirs \<Rightarrow> gint32 \<times> 'v dirs" where
  "spec_mkentry s S =
    (if s = [] \<or> length s > REG_MAX_NAME \<or> length (components s) > 1 \<or> components s = [''/''] then (- EINVAL, S)
     else if d_cwd S @ [s] \<in> dom (d_map S) then (- EEXIST, S)
     else (0, S\<lparr>d_map := (d_map S)(d_cwd S @ [s] \<mapsto> Some Map.empty)\<rparr>))"

definition spec_rmdir :: "string \<Rightarrow> 'v dirs \<Rightarrow> gint32 \<times> 'v dirs" where
  "spec_rmdir s S =
    (let (ret, p) = spec_resolve s S in
     if ret < 0 then (ret, S)
     else if p = [] then (0, S\<lparr>d_map := [[] \<mapsto> None], d_cwd := []\<rparr>)
     else (0, S\<lparr>d_map := (\<lambda>q. if prefix p q then None else d_map S q), d_cwd := butlast p\<rparr>))"

definition spec_props :: "'v dirs \<Rightarrow> (int \<rightharpoonup> 'v) run" where
  "spec_props S = (case d_map S (d_cwd S) of Some (Some m) \<Rightarrow> Inr m | _ \<Rightarrow> Inl Fault_Null)"

definition spec_put :: "(int \<rightharpoonup> 'v) \<Rightarrow> 'v dirs \<Rightarrow> 'v dirs" where
  "spec_put m S = S\<lparr>d_map := (d_map S)(d_cwd S \<mapsto> Some m)\<rparr>"

definition spec_list :: "'v dirs \<Rightarrow> string list" where
  "spec_list S = sorted_list_of_set {n. d_cwd S @ [n] \<in> dom (d_map S)}"

primrec spec_step :: "'v reg_op \<Rightarrow> 'v dirs \<Rightarrow> ('v reg_answer \<times> 'v dirs) run" where
  "spec_step (Op_MakeEntry s) S = Inr (code_only (spec_mkentry s S))"
| "spec_step (Op_MakeDir s) S = Inr (code_only (spec_mkdir s S))"
| "spec_step (Op_ChangeDir s) S = Inr (code_only (spec_chdir s S))"
| "spec_step (Op_RemoveDir s) S = Inr (code_only (spec_rmdir s S))"
| "spec_step (Op_ExistingDir s) S = Inr ((spec_exists s S, None, []), S)"
| "spec_step Op_ListDir S = Inr ((0, None, spec_list S), S)"
| "spec_step (Op_GetProperty i) S =
    map_sum id (\<lambda>m. ((if m i = None then - ENOENT else 0, m i, []), S)) (spec_props S)"
| "spec_step (Op_SetProperty i v) S =
    map_sum id (\<lambda>m. ((0, None, []), spec_put (m(i \<mapsto> v)) S)) (spec_props S)"
| "spec_step (Op_RemoveProperty i) S =
    map_sum id (\<lambda>m. if m i = None then ((- ENOENT, None, []), S)
      else ((0, None, []), spec_put (m(i := None)) S)) (spec_props S)"

text \<open>The invariant: a well-formed tree, and a current directory that exists.\<close>

definition reg_inv :: "'v registry \<Rightarrow> bool" where
  "reg_inv r \<longleftrightarrow> dentry_wf (m_pRootDir r) \<and> entry_at (m_pCurDir r) (m_pRootDir r) \<noteq> None"

definition refines :: "('v reg_answer \<times> 'v registry) run \<Rightarrow> ('v reg_answer \<times> 'v dirs) run \<Rightarrow> bool" where
  "refines c a \<longleftrightarrow> map_sum id (map_prod id view) c = a \<and> (\<forall>x r. c = Inr (x, r) \<longrightarrow> reg_inv r)"

lemma CRegistry_inv: "reg_inv CRegistry"
  by (simp add: reg_inv_def CRegistry_def) (subst dentry_wf_iff, simp)

section \<open>The operations against the abstract registry\<close>

abbreviation props_at :: "'v dentry \<Rightarrow> path \<rightharpoonup> (int \<rightharpoonup> 'v) option" where
  "props_at root \<equiv> \<lambda>p. map_option m_mapProps (entry_at p root)"

lemma entry_at_prefix: "entry_at q root \<noteq> None \<Longrightarrow> prefix p q \<Longrightarrow> entry_at p root \<noteq> None"
  by (auto simp: prefix_def entry_at_append split: option.splits)

lemma entry_at_butlast: "entry_at p root \<noteq> None \<Longrightarrow> entry_at (butlast p) root \<noteq> None"
  by (erule entry_at_prefix) (rule prefixeq_butlast)

lemma entry_at_child:
  "dentry_wf root \<Longrightarrow> entry_at p root = Some e \<Longrightarrow> GetChild c e = entry_at (p @ [c]) root"
  by (simp add: GetChild_wf entry_at_wf entry_at_append split: option.splits)

lemma get_entry_loop_walk:
  assumes "dentry_wf root"
  shows "entry_at p root \<noteq> None \<Longrightarrow>
    get_entry_loop root cs p = Inr (spec_walk (props_at root) cs p) \<and>
    entry_at (snd (spec_walk (props_at root) cs p)) root \<noteq> None \<and>
    fst (spec_walk (props_at root) cs p) \<in> {0, - ENOENT}"
proof (induction cs arbitrary: p)
  case (Cons c cs)
  from Cons.prems obtain e where e: "entry_at p root = Some e" by auto
  show ?case
    using Cons.IH[of p] Cons.IH[of "[]"] Cons.IH[of "butlast p"] Cons.IH[of "p @ [c]"]
      entry_at_butlast[OF Cons.prems] entry_at_child[OF assms e, of c] e
    by (cases "entry_at (p @ [c]) root") (simp_all add: dom_def)
qed simp

lemma GetEntry_spec:
  assumes "reg_inv r"
  shows "GetEntry s r = Inr (fst (spec_resolve s (view r)),
      if fst (spec_resolve s (view r)) = 0 then Some (snd (spec_resolve s (view r))) else None)"
    "fst (spec_resolve s (view r)) \<in> {0, - EINVAL, - ENOENT}"
    "entry_at (snd (spec_resolve s (view r))) (m_pRootDir r) \<noteq> None"
  using get_entry_loop_walk[of "m_pRootDir r" "m_pCurDir r" "components s"] assms
  by (auto simp: GetEntry_def Namei_components spec_resolve_def view_def reg_inv_def case_prod_unfold)

lemma view_simps [simp]:
  "view (r\<lparr>m_pCurDir := p\<rparr>) = (view r)\<lparr>d_cwd := p\<rparr>" "d_cwd (view r) = m_pCurDir r"
  "d_map (view r) = props_at (m_pRootDir r)"
  "view (r\<lparr>m_pRootDir := t\<rparr>) = (view r)\<lparr>d_map := props_at t\<rparr>"
  by (simp_all add: view_def)

lemma ChangeDir_spec:
  assumes "reg_inv r"
  shows "ChangeDir s r = Inr (fst (spec_resolve s (view r)),
    if fst (spec_resolve s (view r)) = 0 then r\<lparr>m_pCurDir := snd (spec_resolve s (view r))\<rparr> else r)"
  using GetEntry_spec(1)[OF assms, of s] by (simp add: ChangeDir_def)

lemma refinesI:
  "c = Inr (x, r) \<Longrightarrow> reg_inv r \<Longrightarrow> a = Inr (x, view r) \<Longrightarrow> refines c a"
  by (simp add: refines_def)

lemma ChangeDir_refines:
  assumes "reg_inv r"
  shows "refines (reg_step (Op_ChangeDir s) r) (spec_step (Op_ChangeDir s) (view r))"
proof -
  note g = GetEntry_spec(3)[OF assms, of s] and c = ChangeDir_spec[OF assms, of s]
  obtain ret p where sp: "spec_resolve s (view r) = (ret, p)" by (cases "spec_resolve s (view r)")
  show ?thesis
    by (rule refinesI[where x = "(ret, None, [])" and r = "if ret = 0 then r\<lparr>m_pCurDir := p\<rparr> else r"])
      (use g c sp assms in \<open>auto simp: code_only_def spec_chdir_def reg_inv_def\<close>)
qed

text \<open>Adding one child.\<close>

lemma AddChild_new:
  "map_of (m_mapChilds e) n = None \<Longrightarrow> length n \<le> REG_MAX_NAME \<Longrightarrow>
   AddChild n e = (0, set_childs (map_put n (new_entry n) (m_mapChilds e)) e)"
  by (simp add: AddChild_def AddChild_ent_def)

lemma add_child_props:
  assumes "entry_at p root = Some e" "map_of (m_mapChilds e) n = None"
  shows "props_at (update_at p (\<lambda>_. set_childs (map_put n (new_entry n) (m_mapChilds e)) e) root)
    = (props_at root)(p @ [n] \<mapsto> Some Map.empty)"
proof
  fix q
  let ?e = "set_childs (map_put n (new_entry n) (m_mapChilds e)) e"
  have "props_at ?e s = (if s = [n] then Some (Some Map.empty) else props_at e s)" for s
  proof (cases s)
    case (Cons m s')
    then show ?thesis using assms(2) by (cases "m = n"; cases s') auto
  qed simp
  moreover have "entry_at q root = entry_at (drop (length p) q) e" if "prefix p q"
    using that assms(1) by (auto simp: prefix_def entry_at_append)
  moreover have "drop (length p) q = [n] \<longleftrightarrow> q = p @ [n]" if "prefix p q"
    using that by (auto simp: prefix_def)
  ultimately show "props_at (update_at p (\<lambda>_. ?e) root) q = ((props_at root)(p @ [n] \<mapsto> Some Map.empty)) q"
    unfolding entry_at_update[OF assms(1)] by auto
qed

lemma add_child_wf:
  assumes "dentry_wf root" "entry_at p root = Some e" "length n \<le> REG_MAX_NAME"
  shows "dentry_wf (update_at p (\<lambda>_. set_childs (map_put n (new_entry n) (m_mapChilds e)) e) root)"
proof (rule update_at_wf[OF assms(1,2)])
  show "dentry_wf (set_childs (map_put n (new_entry n) (m_mapChilds e)) e)"
    using dentry_wf_put[OF entry_at_wf[OF assms(1,2)]] assms(3) by simp
qed (use entry_at_last[OF assms(1,2)] in auto)

lemma props_at_entry: "props_at t p = props_at u p \<Longrightarrow> entry_at p t = None \<longleftrightarrow> entry_at p u = None"
  by (metis option.map_disc_iff)

lemma put_cur_simps [simp]: "m_pCurDir (put_cur e r) = m_pCurDir r"
  by (simp add: put_cur_def)

lemma cur_entry_inv:
  assumes "reg_inv r"
  obtains e where "cur_entry r = Inr e" "entry_at (m_pCurDir r) (m_pRootDir r) = Some e" "dentry_wf e"
    "d_map (view r) (d_cwd (view r)) = Some (m_mapProps e)"
  using assms entry_at_wf[of "m_pRootDir r" "m_pCurDir r"] by (auto simp: reg_inv_def cur_entry_def)

lemma MakeEntry_refines:
  assumes "reg_inv r"
  shows "refines (reg_step (Op_MakeEntry s) r) (spec_step (Op_MakeEntry s) (view r))"
proof -
  from assms have wf: "dentry_wf (m_pRootDir r)" by (simp add: reg_inv_def)
  obtain e where e: "cur_entry r = Inr e" "entry_at (m_pCurDir r) (m_pRootDir r) = Some e" "dentry_wf e"
    by (rule cur_entry_inv[OF assms])
  have comp0: "components s ! 0 = ''/'' \<longleftrightarrow> components s = [''/'']" if "s \<noteq> []" "\<not> length (components s) > 1"
    using components_nonempty[OF that(1)] that(2) by (cases "components s") auto
  have dom: "m_pCurDir r @ [s] \<in> dom (props_at (m_pRootDir r)) \<longleftrightarrow> map_of (m_mapChilds e) s \<noteq> None"
    using e(2) by (auto simp: entry_at_append dom_def split: option.splits)
  consider (bad) "s = [] \<or> length s > REG_MAX_NAME \<or> length (components s) > 1 \<or> components s = [''/'']"
    | (dup) "s \<noteq> []" "length s \<le> REG_MAX_NAME" "\<not> length (components s) > 1" "components s \<noteq> [''/'']"
        "map_of (m_mapChilds e) s \<noteq> None"
    | (new) "s \<noteq> []" "length s \<le> REG_MAX_NAME" "\<not> length (components s) > 1" "components s \<noteq> [''/'']"
        "map_of (m_mapChilds e) s = None"
    by (meson not_le)
  then show ?thesis
  proof cases
    case bad
    then have "MakeEntry s r = Inr (- EINVAL, r)" by (auto simp: MakeEntry_def Namei_components)
    with bad assms show ?thesis by (auto simp: refines_def spec_mkentry_def code_only_def)
  next
    case dup
    then have "AddChild s e = (- EEXIST, e)" by (simp add: AddChild_def AddChild_ent_def)
    then have "MakeEntry s r = Inr (- EEXIST, put_cur e r)"
      using dup e comp0 by (simp add: MakeEntry_def Namei_components)
    moreover have "put_cur e r = r" using update_at_same[OF wf e(2)] by (simp add: put_cur_def)
    ultimately show ?thesis using dup dom assms by (simp add: refines_def spec_mkentry_def code_only_def)
  next
    case new
    let ?e = "set_childs (map_put s (new_entry s) (m_mapChilds e)) e"
    have m: "MakeEntry s r = Inr (0, put_cur ?e r)"
      using new e comp0 AddChild_new[of e s] by (simp add: MakeEntry_def Namei_components)
    have "reg_inv (put_cur ?e r)"
      using add_child_wf[OF wf e(2) new(2)] entry_at_updated[OF e(2)] by (simp add: reg_inv_def put_cur_def)
    with m show ?thesis
      using new dom add_child_props[OF e(2) new(5)]
      by (intro refinesI) (auto simp: spec_mkentry_def code_only_def put_cur_def)
  qed
qed

subsection \<open>\<^verbatim>\<open>MakeDir\<close>\<close>

lemma prefix_appended: "prefix xs (xs @ ys)"
  by simp

lemma fill_step:
  "D pc = None \<Longrightarrow> prefix pc t \<Longrightarrow>
   (\<lambda>q. if prefix q t \<and> q \<notin> dom (D(pc \<mapsto> x)) then Some x else (D(pc \<mapsto> x)) q) =
   (\<lambda>q. if prefix q t \<and> q \<notin> dom D then Some x else D q)"
  by (rule ext) auto

lemma make_loop_ok:
  assumes "\<forall>n\<in>set names. length n \<le> REG_MAX_NAME"
  shows "dentry_wf root \<Longrightarrow> entry_at p root \<noteq> None \<Longrightarrow>
    \<exists>root' par' rb'. make_loop names root p par rb = Inr (0, root', p @ names, par', rb') \<and>
      dentry_wf root' \<and> entry_at (p @ names) root' \<noteq> None \<and>
      props_at root' = (\<lambda>q. if prefix q (p @ names) \<and> q \<notin> dom (props_at root) then Some (Some Map.empty) else props_at root q)"
  using assms
proof (induction names arbitrary: root p par rb)
  case Nil
  have "q \<in> dom (props_at root)" if "prefix q p" for q
    using entry_at_prefix[OF Nil.prems(2) that] by (simp add: dom_def)
  then have "props_at root = (\<lambda>q. if prefix q p \<and> q \<notin> dom (props_at root) then Some (Some Map.empty) else props_at root q)"
    by (intro ext if_not_P[symmetric]) blast
  with Nil show ?case by simp
next
  case (Cons c names)
  from Cons.prems obtain e where e: "entry_at p root = Some e" by auto
  have pre: "prefix q (p @ [c]) \<longleftrightarrow> prefix q p \<or> q = p @ [c]" for q by auto
  have old: "q \<in> dom (props_at root)" if "prefix q p" for q
    using entry_at_prefix[OF Cons.prems(2) that] by (simp add: dom_def)
  show ?case
  proof (cases "GetChild c e")
    case (Some d)
    then have "entry_at (p @ [c]) root \<noteq> None" using entry_at_child[OF Cons.prems(1) e, of c] by simp
    from Cons.IH[OF Cons.prems(1) this, of "Some p" rb] Some e Cons.prems(3) show ?thesis by auto
  next
    case None
    have len: "length c \<le> REG_MAX_NAME" using Cons.prems(3) by simp
    have none: "map_of (m_mapChilds e) c = None" using None len by (simp add: GetChild_def)
    define root1 where "root1 = update_at p (\<lambda>_. set_childs (map_put c (new_entry c) (m_mapChilds e)) e) root"
    note props = add_child_props[OF e none, folded root1_def]
    have absent: "props_at root (p @ [c]) = None" using e none by (simp add: entry_at_append)
    have wf1: "dentry_wf root1" unfolding root1_def by (rule add_child_wf[OF Cons.prems(1) e len])
    have at1: "entry_at (p @ [c]) root1 \<noteq> None" using fun_cong[OF props, of "p @ [c]"] by auto
    obtain root' par' rb' where
      r': "make_loop names root1 (p @ [c]) (Some p) (if rb = None then Some p else rb) = Inr (0, root', (p @ [c]) @ names, par', rb')"
        "dentry_wf root'" "entry_at ((p @ [c]) @ names) root' \<noteq> None"
        "props_at root' = (\<lambda>q. if prefix q ((p @ [c]) @ names) \<and> q \<notin> dom (props_at root1) then Some (Some Map.empty) else props_at root1 q)"
      using Cons.IH[OF wf1 at1] Cons.prems(3) by force
    have "make_loop (c # names) root p par rb = Inr (0, root', p @ c # names, par', rb')"
      using r'(1) e None AddChild_new[OF none len] len by (simp add: root1_def GetChild_def)
    moreover have "props_at root' = (\<lambda>q. if prefix q (p @ c # names) \<and> q \<notin> dom (props_at root) then Some (Some Map.empty) else props_at root q)"
      using trans[OF r'(4) arg_cong[where f = "\<lambda>D q. if prefix q ((p @ [c]) @ names) \<and> q \<notin> dom D
        then Some (Some Map.empty) else D q", OF props]]
      unfolding fill_step[of "props_at root", OF absent prefix_appended] by simp
    ultimately show ?thesis using r'(2,3) by auto
  qed
qed

lemma rollback_refl [simp]: "rollback_loop root rb rb = Inr root"
  by (subst rollback_loop.simps) simp

text \<open>One turn of the roll-back undoes one turn of the creation.\<close>

lemma rollback_step:
  assumes wf: "dentry_wf root" and e: "entry_at p root = Some e" and none: "map_of (m_mapChilds e) c = None"
    and len: "length c \<le> REG_MAX_NAME" and rb: "rb \<noteq> Some (p @ [c])"
  shows "rollback_loop (update_at p (\<lambda>_. set_childs (map_put c (new_entry c) (m_mapChilds e)) e) root) rb (Some (p @ [c]))
    = rollback_loop root rb (Some p)"
proof -
  let ?e = "set_childs (map_put c (new_entry c) (m_mapChilds e)) e"
  let ?root = "update_at p (\<lambda>_. ?e) root"
  have "keys_ok (m_mapChilds e)" using entry_at_wf[OF wf e] dentry_wf_iff by blast
  then have "snd (RemoveChild c ?e) = e"
    using none len by (simp add: RemoveChild_def map_erase_put)
  then have "update_at p (\<lambda>d. snd (RemoveChild c d)) ?root = root"
    using update_at_update[OF e] update_at_same[OF wf e] by simp
  moreover have "entry_at (p @ [c]) ?root = Some (new_entry c)"
    using entry_at_updated[OF e] by (simp add: entry_at_append)
  ultimately show ?thesis using rb by (subst rollback_loop.simps) simp
qed

lemma make_loop_fail:
  assumes "\<exists>n\<in>set names. length n > REG_MAX_NAME"
  shows "dentry_wf root \<Longrightarrow> entry_at p root = Some e \<Longrightarrow>
    (\<forall>q. rb = Some q \<longrightarrow> length q < length p \<and> m_mapChilds e = []) \<Longrightarrow>
    \<exists>root' pc par' rb'. make_loop names root p par rb = Inr (- EINVAL, root', pc, par', rb') \<and>
      rollback_loop root' rb' par' = (if rb = None then Inr root else rollback_loop root rb (Some p))"
  using assms
proof (induction names arbitrary: root p e par rb)
  case (Cons c names)
  note wf = Cons.prems(1) and e = Cons.prems(2)
  show ?case
  proof (cases "GetChild c e")
    case (Some d)
    then have rb: "rb = None" and len: "length c \<le> REG_MAX_NAME"
      using Cons.prems(3) by (cases rb; auto simp: GetChild_def split: if_splits)+
    have "entry_at (p @ [c]) root = Some d" using entry_at_child[OF wf e, of c] Some by simp
    then show ?thesis using Cons.IH[OF wf, of "p @ [c]" d rb "Some p"] Cons.prems(4) Some e rb len by auto
  next
    case None
    show ?thesis
    proof (cases "length c > REG_MAX_NAME")
      case True
      then have "make_loop (c # names) root p par rb
          = Inr (- EINVAL, root, p, Some p, if rb = None then Some p else rb)"
        using None e update_at_same[OF wf e] by (simp add: AddChild_def)
      then show ?thesis by auto
    next
      case False
      then have len: "length c \<le> REG_MAX_NAME" by simp
      have none: "map_of (m_mapChilds e) c = None" using None len by (simp add: GetChild_def)
      let ?root = "update_at p (\<lambda>_. set_childs (map_put c (new_entry c) (m_mapChilds e)) e) root"
      let ?rb = "if rb = None then Some p else rb"
      have at1: "entry_at (p @ [c]) ?root = Some (new_entry c)"
        using entry_at_updated[OF e] by (simp add: entry_at_append)
      have rb1: "?rb = Some q \<longrightarrow> length q < length (p @ [c]) \<and> m_mapChilds (new_entry c) = []" for q
        using Cons.prems(3) by auto
      have long: "\<exists>n\<in>set names. length n > REG_MAX_NAME" using Cons.prems(4) len by simp
      obtain root' pc par' rb' where
        r': "make_loop names ?root (p @ [c]) (Some p) ?rb = Inr (- EINVAL, root', pc, par', rb')"
          "rollback_loop root' rb' par' = rollback_loop ?root ?rb (Some (p @ [c]))"
        using Cons.IH[OF add_child_wf[OF wf e len] at1 allI[OF rb1] long, of "Some p"]
        by (auto simp del: rollback_loop.simps split: if_splits)
      have "?rb \<noteq> Some (p @ [c])" using rb1[of "p @ [c]"] by auto
      from r'(2)[unfolded rollback_step[OF wf e none len this]]
      have "rollback_loop root' rb' par' = (if rb = None then Inr root else rollback_loop root rb (Some p))" by simp
      moreover have "make_loop (c # names) root p par rb = Inr (- EINVAL, root', pc, par', rb')"
        using r'(1) e None AddChild_new[OF none len] len by (simp add: GetChild_def)
      ultimately show ?thesis by blast
    qed
  qed
qed simp

lemma MakeDir_fails:
  assumes "reg_inv r" "s \<noteq> []" "\<exists>n\<in>set (names_of s). length n > REG_MAX_NAME"
  shows "MakeDir s r = Inr (- EINVAL, r)"
proof (cases "length s > REG_MAX_PATH")
  case False
  let ?p = "if hd s = CHR ''/'' then [] else m_pCurDir r"
  from assms(1) have wf: "dentry_wf (m_pRootDir r)" and "entry_at ?p (m_pRootDir r) \<noteq> None"
    by (auto simp: reg_inv_def)
  then obtain e where e: "entry_at ?p (m_pRootDir r) = Some e" by auto
  obtain root' pc par' rb' where
    "make_loop (names_of s) (m_pRootDir r) ?p None None = Inr (- EINVAL, root', pc, par', rb')"
    "rollback_loop root' rb' par' = Inr (m_pRootDir r)"
    using make_loop_fail[OF assms(3) wf e, of None None] by auto
  then show ?thesis using False assms(2) by (simp add: MakeDir_def Namei_components start_of_components)
qed (simp add: MakeDir_def)

lemma MakeDir_refines:
  assumes "reg_inv r"
  shows "refines (reg_step (Op_MakeDir s) r) (spec_step (Op_MakeDir s) (view r))"
proof -
  let ?p = "if hd s = CHR ''/'' then [] else m_pCurDir r"
  from assms have wf: "dentry_wf (m_pRootDir r)" and at: "entry_at ?p (m_pRootDir r) \<noteq> None"
    by (auto simp: reg_inv_def)
  show ?thesis
  proof (cases "s = [] \<or> length s > REG_MAX_PATH \<or> (\<exists>n\<in>set (names_of s). length n > REG_MAX_NAME)")
    case True
    then have "MakeDir s r = Inr (- EINVAL, r)"
      by (cases "s = [] \<or> length s > REG_MAX_PATH") (use MakeDir_fails[OF assms, of s] in \<open>simp_all add: MakeDir_def\<close>)
    with True assms show ?thesis by (auto simp: refines_def spec_mkdir_def code_only_def)
  next
    case False
    then have "\<forall>n\<in>set (names_of s). length n \<le> REG_MAX_NAME" by auto
    from make_loop_ok[OF this wf at, of None None] obtain root' par' rb' where
      m: "make_loop (names_of s) (m_pRootDir r) ?p None None = Inr (0, root', ?p @ names_of s, par', rb')"
        "dentry_wf root'" "entry_at (?p @ names_of s) root' \<noteq> None"
        "props_at root' = (\<lambda>q. if prefix q (?p @ names_of s) \<and> q \<notin> dom (props_at (m_pRootDir r))
          then Some (Some Map.empty) else props_at (m_pRootDir r) q)"
      by blast
    show ?thesis
      by (rule refinesI[where x = "(0, None, [])" and r = "r\<lparr>m_pRootDir := root', m_pCurDir := ?p @ names_of s\<rparr>"])
        (use False m in \<open>auto simp: MakeDir_def Namei_components start_of_components spec_mkdir_def
          spec_target_def code_only_def reg_inv_def view_def\<close>)
  qed
qed

subsection \<open>\<^verbatim>\<open>RemoveDir\<close> and the queries\<close>

lemma replace_props:
  assumes "entry_at p root = Some e" "entry_at p root' = Some e" "m_mapChilds e' = []"
  shows "props_at (update_at p (\<lambda>_. e') root)
    = (\<lambda>q. if q = p then Some (m_mapProps e') else if prefix p q then None else props_at root q)"
proof
  fix q
  have "props_at e' s = (if s = [] then Some (m_mapProps e') else None)" for s
    using assms(3) by (cases s) auto
  moreover have "drop (length p) q = [] \<longleftrightarrow> q = p" if "prefix p q" using that by (auto simp: prefix_def)
  ultimately show "props_at (update_at p (\<lambda>_. e') root) q
      = (if q = p then Some (m_mapProps e') else if prefix p q then None else props_at root q)"
    unfolding entry_at_update[OF assms(1)] by auto
qed

text \<open>Erasing a child hides everything below it.\<close>

lemma erase_child_props:
  assumes "entry_at p root = Some d"
  shows "props_at (update_at p (\<lambda>d. set_childs (map_erase n (m_mapChilds d)) d) root)
    = (\<lambda>q. if prefix (p @ [n]) q then None else props_at root q)"
proof
  fix q
  have sub: "props_at (set_childs (map_erase n (m_mapChilds d)) d) s = (if prefix [n] s then None else props_at d s)" for s
    by (cases s) auto
  show "props_at (update_at p (\<lambda>d. set_childs (map_erase n (m_mapChilds d)) d) root) q
      = (if prefix (p @ [n]) q then None else props_at root q)"
  proof (cases "prefix p q")
    case True
    then obtain s where s: "q = p @ s" by (auto simp: prefix_def)
    then show ?thesis using sub assms unfolding entry_at_update[OF assms] by (simp add: entry_at_append)
  next
    case False
    then have "\<not> prefix (p @ [n]) q" by (auto simp: prefix_def)
    with False show ?thesis unfolding entry_at_update[OF assms] by simp
  qed
qed

lemma update_at_snoc:
  "entry_at q t = Some d \<Longrightarrow> map_of (m_mapChilds d) n = Some e \<Longrightarrow>
   update_at (q @ [n]) f t = update_at q (\<lambda>d. set_childs (map_put n (f e) (m_mapChilds d)) d) t"
  by (induction q arbitrary: t) (auto split: option.splits)

lemma RemoveDir_refines:
  assumes "reg_inv r"
  shows "refines (reg_step (Op_RemoveDir s) r) (spec_step (Op_RemoveDir s) (view r))"
proof -
  obtain ret p where sp: "spec_resolve s (view r) = (ret, p)" by (cases "spec_resolve s (view r)")
  note g = GetEntry_spec(2,3)[OF assms, of s, unfolded sp] and c = ChangeDir_spec[OF assms, of s, unfolded sp]
  from assms have wf: "dentry_wf (m_pRootDir r)" by (simp add: reg_inv_def)
  consider "ret < 0" | "ret = 0" "p = []" | "ret = 0" "p \<noteq> []" using g(1) by auto
  then show ?thesis
  proof cases
    case 1
    with c have "RemoveDir s r = Inr (ret, r)" by (simp add: RemoveDir_def)
    with 1 sp assms show ?thesis by (simp add: refines_def spec_rmdir_def code_only_def)
  next
    case 2
    let ?e = "set_props None (set_childs [] (m_pRootDir r))"
    have "RemoveDir s r = Inr (0, r\<lparr>m_pRootDir := ?e, m_pCurDir := []\<rparr>)"
      using c 2 by (simp add: RemoveDir_def RemoveAllChildren_def cur_entry_def put_cur_def)
    moreover have "props_at ?e = [[] \<mapsto> None]"
    proof
      fix q show "props_at ?e q = [[] \<mapsto> None] q" by (cases q) auto
    qed
    ultimately show ?thesis using 2 sp
      by (intro refinesI) (auto simp: code_only_def spec_rmdir_def reg_inv_def view_def)
  next
    case 3
    from g(2) obtain e where e: "entry_at p (m_pRootDir r) = Some e" by auto
    let ?e = "set_props None (set_childs [] e)"
    define root1 where "root1 = update_at p (\<lambda>_. ?e) (m_pRootDir r)"
    note last = entry_at_last[OF wf e 3(2)]
    from last(4) obtain d where d: "entry_at (butlast p) (m_pRootDir r) = Some d" "map_of (m_mapChilds d) (last p) = Some e" by auto
    have root1: "root1 = update_at (butlast p) (\<lambda>d. set_childs (map_put (last p) ?e (m_mapChilds d)) d) (m_pRootDir r)"
      using update_at_snoc[OF d, of "\<lambda>_. ?e"] 3(2) by (simp add: root1_def)
    let ?rm = "\<lambda>d. snd (RemoveChild (m_strName e) d)"
    define root2 where "root2 = update_at (butlast p) ?rm root1"
    have rm1: "?rm (set_childs (map_put (last p) ?e (m_mapChilds d)) d)
        = set_childs (map_erase (last p) (map_put (last p) ?e (m_mapChilds d))) d"
      using last by (simp add: RemoveChild_def)
    have er: "map_erase (last p) (map_put (last p) ?e m) = map_erase (last p) m" for m :: "(string \<times> 'a dentry) list"
      unfolding map_erase_def by (induction m) auto
    have root2: "root2 = update_at (butlast p) (\<lambda>d. set_childs (map_erase (last p) (m_mapChilds d)) d) (m_pRootDir r)"
      unfolding root2_def root1 update_at_update[OF d(1)] using rm1 er by (intro update_at_cong[OF d(1)]) simp
    have at1: "entry_at p root1 = Some ?e" unfolding root1_def by (rule entry_at_updated[OF e])
    have up: "ChangeDir ''..'' (r\<lparr>m_pCurDir := p, m_pRootDir := root1\<rparr>) = Inr (0, r\<lparr>m_pCurDir := butlast p, m_pRootDir := root1\<rparr>)"
    proof -
      have "Namei ''..'' = (0, [''..''])" by (simp add: Namei_components components_def root_of_def names_of_def)
      then show ?thesis using 3(2) by (cases r) (simp add: ChangeDir_def GetEntry_def)
    qed
    have m: "RemoveDir s r = Inr (0, r\<lparr>m_pCurDir := butlast p, m_pRootDir := root2\<rparr>)"
      using c 3 e up by (simp add: RemoveDir_def RemoveAllChildren_def cur_entry_def put_cur_def Let_def root1_def[symmetric] root2_def)
    have props: "props_at root2 = (\<lambda>q. if prefix p q then None else props_at (m_pRootDir r) q)"
      unfolding root2 erase_child_props[OF d(1)] using 3(2) by simp
    have wf2: "dentry_wf root2"
      unfolding root2 using entry_at_last(3)[OF wf d(1)]
      by (intro update_at_wf[OF wf d(1)]) (simp_all add: dentry_wf_erase[OF entry_at_wf[OF wf d(1)]])
    have "\<not> prefix p (butlast p)" using 3(2) by (auto dest!: prefix_length_le simp flip: length_greater_0_conv)
    then have "entry_at (butlast p) root2 \<noteq> None"
      using fun_cong[OF props, of "butlast p"] d(1) by auto
    with m wf2 sp 3 props show ?thesis
      by (intro refinesI) (auto simp: code_only_def spec_rmdir_def reg_inv_def view_def cong: if_cong)
  qed
qed

lemma existing_loop_iff:
  "dentry_wf e \<Longrightarrow> existing_loop names e = (if entry_at names e \<noteq> None then 0 else - ENOENT)"
proof (induction names arbitrary: e)
  case (Cons c names)
  then show ?case using dentry_wf_child(4)[OF Cons.prems, of c]
    by (cases "map_of (m_mapChilds e) c") (simp_all add: GetChild_wf[OF Cons.prems])
qed simp

lemma ExistingDir_refines:
  assumes "reg_inv r"
  shows "refines (reg_step (Op_ExistingDir s) r) (spec_step (Op_ExistingDir s) (view r))"
proof -
  let ?p = "if hd s = CHR ''/'' then [] else m_pCurDir r"
  from assms have wf: "dentry_wf (m_pRootDir r)" and "entry_at ?p (m_pRootDir r) \<noteq> None"
    by (auto simp: reg_inv_def)
  then obtain e where e: "entry_at ?p (m_pRootDir r) = Some e" by auto
  have "entry_at (?p @ names_of s) (m_pRootDir r) = entry_at (names_of s) e" using e by (simp add: entry_at_append)
  then have "spec_target s (view r) \<in> dom (d_map (view r)) \<longleftrightarrow> entry_at (names_of s) e \<noteq> None"
    by (simp only: spec_target_def view_simps dom_def mem_Collect_eq option.map_disc_iff not_False_eq_True)
  then have "ExistingDir s r = Inr (spec_exists s (view r))"
    using e existing_loop_iff[OF entry_at_wf[OF wf e]]
    by (simp add: ExistingDir_def Namei_components start_of_components spec_exists_def del: view_simps)
  with assms show ?thesis by (simp add: refines_def)
qed

lemma ListDir_refines:
  assumes "reg_inv r"
  shows "refines (reg_step Op_ListDir r) (spec_step Op_ListDir (view r))"
proof -
  obtain e where e: "cur_entry r = Inr e" "entry_at (m_pCurDir r) (m_pRootDir r) = Some e" "dentry_wf e"
    by (rule cur_entry_inv[OF assms])
  have names: "map (m_strName \<circ> snd) (m_mapChilds e) = map fst (m_mapChilds e)"
    using e(3) dentry_wf_iff[of e] by auto
  have dom: "{n. m_pCurDir r @ [n] \<in> dom (props_at (m_pRootDir r))} = set (map fst (m_mapChilds e))"
    using e(2) by (force simp: entry_at_append dom_def map_of_eq_None_iff split: option.splits)
  have "sorted_list_of_set (set (map fst (m_mapChilds e))) = map fst (m_mapChilds e)"
    using e(3) dentry_wf_iff[of e] by (intro sorted_list_of_set.idem_if_sorted_distinct) (auto simp: strict_sorted_iff)
  then have "ListDir r = Inr (0, spec_list (view r))"
    using e(1) names dom by (simp add: ListDir_def spec_list_def)
  with assms show ?thesis by (simp add: refines_def)
qed

lemma put_props:
  assumes "reg_inv r" "entry_at (m_pCurDir r) (m_pRootDir r) = Some e"
  shows "reg_inv (put_cur (set_props (Some m) e) r)"
    "view (put_cur (set_props (Some m) e) r) = spec_put m (view r)"
proof -
  let ?p = "m_pCurDir r" and ?e = "set_props (Some m) e"
  from assms have wf: "dentry_wf (m_pRootDir r)" by (simp add: reg_inv_def)
  have "dentry_wf (update_at ?p (\<lambda>_. ?e) (m_pRootDir r))"
    using entry_at_wf[OF wf assms(2)] by (intro update_at_wf[OF wf assms(2)]) simp_all
  then show "reg_inv (put_cur ?e r)" using entry_at_updated[OF assms(2)] by (simp add: reg_inv_def put_cur_def)
  have "props_at ?e s = (if s = [] then Some (Some m) else props_at e s)" for s by (cases s) auto
  then have "props_at (update_at ?p (\<lambda>_. ?e) (m_pRootDir r)) = (props_at (m_pRootDir r))(?p \<mapsto> Some m)"
    using assms(2) entry_at_update[OF assms(2)] by (intro ext) (auto simp: prefix_def entry_at_append)
  then show "view (put_cur ?e r) = spec_put m (view r)" by (simp add: put_cur_def spec_put_def)
qed

lemma property_ops_refine:
  assumes "reg_inv r"
  shows "refines (reg_step (Op_GetProperty i) r) (spec_step (Op_GetProperty i) (view r))"
    "refines (reg_step (Op_SetProperty i v) r) (spec_step (Op_SetProperty i v) (view r))"
    "refines (reg_step (Op_RemoveProperty i) r) (spec_step (Op_RemoveProperty i) (view r))"
proof -
  obtain e where e: "cur_entry r = Inr e" "entry_at (m_pCurDir r) (m_pRootDir r) = Some e"
    "d_map (view r) (d_cwd (view r)) = Some (m_mapProps e)"
    by (rule cur_entry_inv[OF assms])
  have id: "put_cur e r = r"
    using assms update_at_same[OF _ e(2)] by (simp add: put_cur_def reg_inv_def)
  note put = put_props[OF assms e(2)]
  show "refines (reg_step (Op_GetProperty i) r) (spec_step (Op_GetProperty i) (view r))"
    using e assms by (cases "m_mapProps e")
      (auto simp: refines_def reg_GetProperty_def ent_GetProperty_def spec_props_def split: option.splits)
  show "refines (reg_step (Op_SetProperty i v) r) (spec_step (Op_SetProperty i v) (view r))"
    using e put by (cases "m_mapProps e")
      (auto simp: refines_def reg_SetProperty_def ent_SetProperty_def spec_props_def code_only_def)
  show "refines (reg_step (Op_RemoveProperty i) r) (spec_step (Op_RemoveProperty i) (view r))"
    using e put id assms by (cases "m_mapProps e")
      (auto simp: refines_def reg_RemoveProperty_def ent_RemoveProp_def spec_props_def code_only_def)
qed

subsection \<open>Full paths\<close>

definition plain_name :: "string \<Rightarrow> bool" where
  "plain_name n \<longleftrightarrow> n \<noteq> [] \<and> CHR ''/'' \<notin> set n \<and> n \<noteq> ''.'' \<and> n \<noteq> ''..''"

definition slash_path :: "path \<Rightarrow> string" where
  "slash_path p = concat (map (\<lambda>n. CHR ''/'' # n) p)"

lemma full_path_loop_eq:
  "dentry_wf root \<Longrightarrow> entry_at p root \<noteq> None \<Longrightarrow> \<forall>n\<in>set p. n \<noteq> [] \<Longrightarrow> p \<noteq> [] \<or> acc \<noteq> [] \<Longrightarrow>
   \<exists>s. full_path_loop root p acc = Inr s \<and> CHR ''/'' # s = slash_path p @ (if acc = [] then [] else CHR ''/'' # acc)"
proof (induction p arbitrary: acc rule: rev_induct)
  case Nil
  then show ?case by (subst full_path_loop.simps) (simp add: slash_path_def)
next
  case (snoc n p)
  obtain e where e: "entry_at (p @ [n]) root = Some e" using snoc.prems(2) by auto
  have name: "m_strName e = n" using entry_at_last(1)[OF snoc.prems(1) e] by simp
  have at: "entry_at p root \<noteq> None" using snoc.prems(2) by (rule entry_at_prefix) simp
  define acc' where "acc' = (if acc \<noteq> [] then n @ ''/'' else n) @ acc"
  have ne: "acc' \<noteq> []" using snoc.prems(3) by (simp add: acc'_def)
  have "full_path_loop root (p @ [n]) acc = full_path_loop root p acc'"
    unfolding acc'_def using e name by (subst full_path_loop.simps) simp
  moreover obtain s where "full_path_loop root p acc' = Inr s" "CHR ''/'' # s = slash_path p @ CHR ''/'' # acc'"
    using snoc.IH[of acc'] snoc.prems(1,3) at ne by auto
  ultimately show ?case by (simp add: slash_path_def acc'_def)
qed

lemma GetFullPath_eq:
  assumes "dentry_wf root" "entry_at p root \<noteq> None" "\<forall>n\<in>set p. n \<noteq> []"
  shows "GetFullPath root p '''' = Inr (0, if p = [] then ''/'' else slash_path p)"
proof (cases "p = []")
  case False
  then obtain s where "full_path_loop root p [] = Inr s" "CHR ''/'' # s = slash_path p"
    using full_path_loop_eq[OF assms, of "[]"] by auto
  moreover from this have "s \<noteq> []" using assms(3) False by (cases p) (auto simp: slash_path_def)
  ultimately show ?thesis using False by (simp add: GetFullPath_def)
qed (simp add: GetFullPath_def full_path_loop.simps)

lemma names_of_slash: "names_of (CHR ''/'' # s) = names_of s"
  by (simp add: names_of_def)

lemma names_of_slash_path: "\<forall>n\<in>set p. plain_name n \<Longrightarrow> names_of (slash_path p) = p"
proof (induction p)
  case (Cons n p)
  then have n: "split_slash n = [n]" "n \<noteq> []" by (auto simp: plain_name_def split_slash_plain)
  have "names_of (n @ slash_path p) = n # names_of (slash_path p)"
  proof (cases p)
    case (Cons m p')
    then have "slash_path p = CHR ''/'' # (m @ slash_path p')" by (simp add: slash_path_def)
    then show ?thesis using n split_slash_append[of n "m @ slash_path p'"] by (simp add: names_of_def)
  qed (use n in \<open>simp add: names_of_def slash_path_def\<close>)
  with Cons show ?case using names_of_slash[of "n @ slash_path p"] by (simp add: slash_path_def)
qed (simp add: slash_path_def names_of_def)

lemma spec_walk_plain:
  "\<forall>n\<in>set names. plain_name n \<Longrightarrow> (\<forall>q. prefix q (p @ names) \<longrightarrow> q \<in> dom D) \<Longrightarrow> spec_walk D names p = (0, p @ names)"
proof (induction names arbitrary: p)
  case (Cons n names)
  have "prefix (p @ [n]) (p @ n # names)" by simp
  with Cons.prems(2) have "p @ [n] \<in> dom D" by blast
  moreover from Cons.prems(1) have plain: "plain_name n" by simp
  then have "n \<noteq> ''/''" by (auto simp: plain_name_def)
  moreover have "spec_walk D names (p @ [n]) = (0, (p @ [n]) @ names)"
    using Cons.prems by (intro Cons.IH) simp_all
  ultimately show ?case using plain by (simp add: plain_name_def)
qed simp

section \<open>Properties\<close>

definition sample_reg :: "nat registry" where
  "sample_reg = \<lparr>m_pRootDir = CDirEntry ''/'' [(''a'', CDirEntry ''a'' [(''b'', CDirEntry ''b'' [] (Some Map.empty))]
    (Some [3 \<mapsto> 7]))] (Some Map.empty), m_pCurDir = [''a'']\<rparr>"

lemma sample_reg_inv: "reg_inv sample_reg"
  by (simp add: reg_inv_def sample_reg_def dentry_wf.simps)

text \<open>C13. The registry implements a map from paths to property maps with a current path: in every state with the
  invariant, each of the nine operations gives the status, the answer, the fault and the state that the specification
  on paths gives, on every branch, and keeps the invariant.\<close>

theorem registry_refines_paths:
  assumes "reg_inv r"
  shows "refines (reg_step op r) (spec_step op (view r))"
  using MakeEntry_refines[OF assms] MakeDir_refines[OF assms] ChangeDir_refines[OF assms] RemoveDir_refines[OF assms]
    ExistingDir_refines[OF assms] ListDir_refines[OF assms] property_ops_refine[OF assms]
  by (cases op) blast+

theorem registry_refines_paths_witness:
  "refines (reg_step (Op_RemoveDir ''../a/b'') sample_reg) (spec_step (Op_RemoveDir ''../a/b'') (view sample_reg)) \<and>
   refines (reg_step (Op_SetProperty 3 9) sample_reg) (spec_step (Op_SetProperty 3 9) (view sample_reg))"
  using registry_refines_paths[OF sample_reg_inv, of "Op_RemoveDir ''../a/b''"]
    registry_refines_paths[OF sample_reg_inv, of "Op_SetProperty 3 9"] by simp

text \<open>C23. \<^verbatim>\<open>MakeDir\<close> is atomic: it always returns, and either it makes the target the current directory, or it
  fails with \<^verbatim>\<open>-EINVAL\<close> and its roll-back leaves the registry exactly as it was.\<close>

theorem make_dir_atomic:
  assumes "reg_inv r"
  shows "\<exists>ret r'. MakeDir s r = Inr (ret, r') \<and>
    (ret = 0 \<and> reg_inv r' \<and> m_pCurDir r' = spec_target s (view r) \<or> ret = - EINVAL \<and> r' = r)"
proof (cases "s = [] \<or> length s > REG_MAX_PATH \<or> (\<exists>n\<in>set (names_of s). length n > REG_MAX_NAME)")
  case True
  then have "MakeDir s r = Inr (- EINVAL, r)"
    by (cases "s = [] \<or> length s > REG_MAX_PATH") (use MakeDir_fails[OF assms, of s] in \<open>simp_all add: MakeDir_def\<close>)
  then show ?thesis by auto
next
  case False
  then have "spec_step (Op_MakeDir s) (view r) = Inr ((0, None, []), snd (spec_mkdir s (view r)))"
    "d_cwd (snd (spec_mkdir s (view r))) = spec_target s (view r)"
    by (auto simp: spec_mkdir_def code_only_def)
  with MakeDir_refines[OF assms, of s] obtain r' where "MakeDir s r = Inr (0, r')" "reg_inv r'" "m_pCurDir r' = spec_target s (view r)"
    by (cases "MakeDir s r") (auto simp: refines_def code_only_def simp flip: view_simps(2))
  then show ?thesis by auto
qed

theorem make_dir_atomic_witness:
  "\<exists>ret r'. MakeDir ''b/c'' sample_reg = Inr (ret, r') \<and>
    (ret = 0 \<and> reg_inv r' \<and> m_pCurDir r' = spec_target ''b/c'' (view sample_reg) \<or> ret = - EINVAL \<and> r' = sample_reg)"
  by (rule make_dir_atomic[OF sample_reg_inv])

text \<open>C26. The full path of a directory leads back to it: for an entry whose names are proper (not empty, no slash,
  neither \<^verbatim>\<open>.\<close> nor \<^verbatim>\<open>..\<close>) \<^verbatim>\<open>GetFullPath\<close>, called with an empty string, returns a path, and if it is no longer than the limit, \<^verbatim>\<open>GetEntry\<close> and
  \<^verbatim>\<open>ExistingDir\<close> find that entry from any current directory.\<close>

theorem full_path_roundtrip:
  assumes "reg_inv r" "entry_at p (m_pRootDir r) \<noteq> None" "\<forall>n\<in>set p. plain_name n"
  shows "\<exists>s. GetFullPath (m_pRootDir r) p '''' = Inr (0, s) \<and>
    (length s \<le> REG_MAX_PATH \<longrightarrow> GetEntry s r = Inr (0, Some p) \<and> ExistingDir s r = Inr 0)"
proof -
  let ?s = "if p = [] then ''/'' else slash_path p"
  have c: "components ?s = ''/'' # p" "?s \<noteq> []" "hd ?s = CHR ''/''" "names_of ?s = p"
    using names_of_slash_path[OF assms(3)]
    by (cases p; auto simp: components_def root_of_def names_of_def slash_path_def)+
  have "spec_walk (props_at (m_pRootDir r)) p [] = (0, p)"
    using spec_walk_plain[OF assms(3), of "[]" "props_at (m_pRootDir r)"] entry_at_prefix[OF assms(2)] by (simp add: dom_def)
  then have "GetEntry ?s r = Inr (0, Some p)" if "length ?s \<le> REG_MAX_PATH"
    using GetEntry_spec(1)[OF assms(1), of ?s] c that by (simp add: spec_resolve_def del: if_split)
  moreover have "ExistingDir ?s r = Inr 0" if "length ?s \<le> REG_MAX_PATH"
    using ExistingDir_refines[OF assms(1), of ?s] assms(2) c that
    by (cases "ExistingDir ?s r") (auto simp: refines_def spec_exists_def spec_target_def dom_def simp del: if_split)
  moreover have "GetFullPath (m_pRootDir r) p '''' = Inr (0, ?s)"
    using GetFullPath_eq[of "m_pRootDir r" p] assms by (auto simp: reg_inv_def plain_name_def)
  ultimately show ?thesis by blast
qed

theorem full_path_roundtrip_witness:
  "\<exists>s. GetFullPath (m_pRootDir sample_reg) [''a'', ''b''] '''' = Inr (0, s) \<and>
    (length s \<le> REG_MAX_PATH \<longrightarrow> GetEntry s sample_reg = Inr (0, Some [''a'', ''b'']) \<and> ExistingDir s sample_reg = Inr 0)"
  by (rule full_path_roundtrip[OF sample_reg_inv]) (simp_all add: sample_reg_def plain_name_def)

text \<open>\<^verbatim>\<open>Namei\<close> cuts a path at its slashes: for every path within the limit it returns the names between
  the slashes in order, without empty ones, with a leading slash kept as the component of the root; the empty path and a longer one are refused.\<close>

lemma namei_cuts_at_slashes:
  "Namei s = (if s = [] \<or> length s > REG_MAX_PATH then (- EINVAL, [])
    else (0, root_of s @ filter (\<lambda>n. n \<noteq> []) (split_slash s)))"
  using Namei_components[of s] by (simp add: components_def names_of_def)

text \<open>Removing the root directory succeeds and leaves it without its properties, so that the next access to a property
  of the root dereferences a null pointer.\<close>

lemma remove_root_loses_props:
  assumes "reg_inv r"
  shows "\<exists>r'. RemoveDir ''/'' r = Inr (0, r') \<and> reg_inv r' \<and> m_pCurDir r' = [] \<and> reg_SetProperty iProp oVal r' = Inl Fault_Null"
proof -
  have c: "components ''/'' = [''/'']" by (simp add: components_def root_of_def names_of_def)
  have "GetEntry ''/'' r = Inr (0, Some [])" using GetEntry_spec(1)[OF assms, of "''/''"] c by (simp add: spec_resolve_def)
  then have "RemoveDir ''/'' r = Inr (0, r\<lparr>m_pCurDir := [], m_pRootDir := set_props None (set_childs [] (m_pRootDir r))\<rparr>)"
    by (simp add: RemoveDir_def ChangeDir_def RemoveAllChildren_def cur_entry_def put_cur_def)
  then show ?thesis by (simp add: reg_inv_def reg_SetProperty_def cur_entry_def ent_SetProperty_def)
qed

end
