(* ===== verification/Config.thy ===== *)
theory Config
  imports Wire "HOL-Library.AList"
begin

text \<open>
  The configuration database that carries the parameters of every request (\<^verbatim>\<open>CConfigDb2\<close>, \<^verbatim>\<open>combase/config.cpp\<close>): a map from
  property ids to values, and its wire format.

  The hash map is the list of its pairs in the order of iteration, without duplicate keys. Values are \<open>prop_val\<close>; what objects
  and D-Bus messages do is the record \<open>cfg_codec\<close>. The buffer under construction is \<open>ser_buf\<close>: the bytes up to the write
  position \<^verbatim>\<open>pLoc\<close> and the size of the buffer; a write that does not fit in the size is \<open>Fault_Range\<close>, as is a read outside
  the bytes that are handed to \<^verbatim>\<open>Deserialize\<close>. The variable \<^verbatim>\<open>dwValSize\<close> there, which nothing uses, is left out, and
  memory never runs out. \<^verbatim>\<open>QPAGE\<close> is half a page of 4096 bytes.
\<close>

section \<open>Values and properties\<close>

datatype ('o, 'm) prop_val =
    PNone | PByte byte | PUInt16 "16 word" | PUInt32 "32 word" | PUInt64 "64 word" | PFloat "32 word"
  | PDouble "64 word" | PString "byte list" | PDMsg "'m option" | PObj "'o option" | PByteArr "byte list option"

fun prop_type :: "('o, 'm) prop_val \<Rightarrow> byte" where
  "prop_type PNone = 0"
| "prop_type (PByte _) = 1"
| "prop_type (PUInt16 _) = 2"
| "prop_type (PUInt32 _) = 3"
| "prop_type (PUInt64 _) = 4"
| "prop_type (PFloat _) = 5"
| "prop_type (PDouble _) = 6"
| "prop_type (PString _) = 7"
| "prop_type (PDMsg _) = 8"
| "prop_type (PObj _) = 9"
| "prop_type (PByteArr _) = 10"

type_synonym ('o, 'm) cfgdb = "(32 word \<times> ('o, 'm) prop_val) list"

definition cfg_GetProperty :: "32 word \<Rightarrow> ('o, 'm) cfgdb \<Rightarrow> gint32 \<times> ('o, 'm) prop_val option" where
  "cfg_GetProperty iProp db = (case map_of db iProp of None \<Rightarrow> (- ENOENT, None) | Some v \<Rightarrow> (0, Some v))"

definition cfg_SetProperty :: "32 word \<Rightarrow> ('o, 'm) prop_val \<Rightarrow> ('o, 'm) cfgdb \<Rightarrow> gint32 \<times> ('o, 'm) cfgdb" where
  "cfg_SetProperty iProp oVar db = (0, AList.update iProp oVar db)"

definition cfg_GetPropertyType :: "32 word \<Rightarrow> ('o, 'm) cfgdb \<Rightarrow> gint32 \<times> byte option" where
  "cfg_GetPropertyType iProp db =
    (case map_of db iProp of None \<Rightarrow> (- ENOENT, None) | Some v \<Rightarrow> (0, Some (prop_type v)))"

definition cfg_RemoveProperty :: "32 word \<Rightarrow> ('o, 'm) cfgdb \<Rightarrow> gint32 \<times> ('o, 'm) cfgdb" where
  "cfg_RemoveProperty iProp db = (if map_of db iProp = None then (- ENOENT, db) else (0, AList.delete iProp db))"

definition cfg_GetPropIds :: "('o, 'm) cfgdb \<Rightarrow> gint32 \<times> 32 word list" where
  "cfg_GetPropIds db = (if db = [] then (- ENOENT, []) else (0, map fst db))"

definition cfg_RemoveAll :: "('o, 'm) cfgdb \<Rightarrow> ('o, 'm) cfgdb" where
  "cfg_RemoveAll db = []"

text \<open>The non-const \<^verbatim>\<open>GetProperty( gint32 )\<close> inserts an empty value for an unknown id, as \<^verbatim>\<open>operator[]\<close> does.\<close>

definition cfg_at :: "32 word \<Rightarrow> ('o, 'm) cfgdb \<Rightarrow> ('o, 'm) prop_val \<times> ('o, 'm) cfgdb" where
  "cfg_at iProp db = (case map_of db iProp of Some v \<Rightarrow> (v, db) | None \<Rightarrow> (PNone, AList.update iProp PNone db))"

definition cfg_at_const :: "32 word \<Rightarrow> ('o, 'm) cfgdb \<Rightarrow> ('o, 'm) prop_val run" where
  "cfg_at_const iProp db = (case map_of db iProp of Some v \<Rightarrow> Inr v | None \<Rightarrow> Inl Fault_Throw)"

definition cfg_GetPropertyPtr :: "32 word \<Rightarrow> ('o, 'm) cfgdb \<Rightarrow> ('o, 'm) prop_val option" where
  "cfg_GetPropertyPtr iProp db = map_of db iProp"

definition cfg_size :: "('o, 'm) cfgdb \<Rightarrow> nat" where
  "cfg_size db = length db"

definition cfg_exist :: "32 word \<Rightarrow> ('o, 'm) cfgdb \<Rightarrow> bool" where
  "cfg_exist iProp db \<longleftrightarrow> map_of db iProp \<noteq> None"

section \<open>Serialization\<close>

text \<open>
  What the classes of the objects and D-Bus provide: the bytes of an object or the status of its failure, creating an object
  of a class and reading it back, and the same for messages, where a null message has no bytes.
\<close>

record ('o, 'm) cfg_codec =
  c_ser :: "'o \<Rightarrow> gint32 + byte list"
  c_des :: "32 word \<Rightarrow> byte list \<Rightarrow> gint32 + 'o"
  c_mser :: "'m \<Rightarrow> gint32 + byte list"
  c_mdes :: "byte list \<Rightarrow> gint32 + 'm"

record ser_buf =
  sb_out :: "byte list"
  sb_size :: nat

abbreviation (input) QPAGE :: nat where "QPAGE \<equiv> 2048"
abbreviation (input) clsid_CConfigDb2 :: nat where "clsid_CConfigDb2 \<equiv> 0x917"
abbreviation (input) clsid_Invalid :: nat where "clsid_Invalid \<equiv> 0xFFFFFFFF"
abbreviation (input) CFGDB_MAX_ITEM :: nat where "CFGDB_MAX_ITEM \<equiv> 1024"
abbreviation (input) CFGDB_MAX_SIZE :: nat where "CFGDB_MAX_SIZE \<equiv> 16777216"
abbreviation (input) WORD32 :: nat where "WORD32 \<equiv> 4294967296"

text \<open>\<^verbatim>\<open>RESIZE_BUF\<close>: the status of \<^verbatim>\<open>Resize\<close> is not looked at, so beyond the limit the buffer just keeps its size.\<close>

definition RESIZE_BUF :: "nat \<Rightarrow> ser_buf \<Rightarrow> ser_buf" where
  "RESIZE_BUF n s = (if n mod WORD32 > MAX_BYTES_PER_BUFFER then s else s\<lparr>sb_size := n mod WORD32\<rparr>)"

definition sb_free :: "ser_buf \<Rightarrow> nat" where
  "sb_free s = sb_size s - length (sb_out s)"

text \<open>\<^verbatim>\<open>memcpy\<close> to the write position.\<close>

definition sb_put :: "byte list \<Rightarrow> ser_buf \<Rightarrow> ser_buf run" where
  "sb_put bs s = (if length bs > sb_free s then Inl Fault_Range else Inr (s\<lparr>sb_out := sb_out s @ bs\<rparr>))"

text \<open>Values of a fixed size get one more half page when they do not fit.\<close>

definition sb_fixed :: "byte list \<Rightarrow> ser_buf \<Rightarrow> ser_buf run" where
  "sb_fixed bs s = sb_put bs (if sb_free s < length bs then RESIZE_BUF (sb_size s + QPAGE) s else s)"

text \<open>Values with a length of four bytes in front: room for both is made before anything is written.\<close>

definition sb_room :: "nat \<Rightarrow> ser_buf \<Rightarrow> ser_buf" where
  "sb_room len s =
    (if sb_free s < len + 4 then RESIZE_BUF (sb_size s + (len + 4 + QPAGE - sb_free s) mod WORD32) s else s)"

definition sb_counted :: "byte list \<Rightarrow> ser_buf \<Rightarrow> ser_buf run" where
  "sb_counted bs s =
    (case sb_put (be_bytes 4 (length bs)) (sb_room (length bs) s) of
       Inl x \<Rightarrow> Inl x
     | Inr s \<Rightarrow> sb_put bs s)"

definition ser_string :: "byte list \<Rightarrow> ser_buf \<Rightarrow> (gint32 \<times> ser_buf) run" where
  "ser_string str s = map_sum id (Pair 0) (sb_counted (take (length str mod WORD32) str) s)"

definition ser_dmsg :: "('o, 'm) cfg_codec \<Rightarrow> 'm option \<Rightarrow> ser_buf \<Rightarrow> (gint32 \<times> ser_buf) run" where
  "ser_dmsg c pMsg s =
    (case pMsg of
       None \<Rightarrow> Inr (- EINVAL, s)
     | Some msg \<Rightarrow>
         (case c_mser c msg of
            Inl ret \<Rightarrow> Inr (ret, s)
          | Inr bs \<Rightarrow> map_sum id (Pair 0) (sb_counted bs s)))"

text \<open>A null object is a default header, written with no test for room and not converted to network order.\<close>

definition ser_obj :: "('o, 'm) cfg_codec \<Rightarrow> 'o option \<Rightarrow> ser_buf \<Rightarrow> (gint32 \<times> ser_buf) run" where
  "ser_obj c pObj s =
    (case pObj of
       None \<Rightarrow> map_sum id (Pair 0) (sb_put [0, 0, 0, 0, 0, 0, 0, 0, 1, 0, 0, 0] s)
     | Some obj \<Rightarrow>
         (case c_ser c obj of
            Inl ret \<Rightarrow> Inr (ret, s)
          | Inr bs \<Rightarrow>
              let len = length bs in
              map_sum id (Pair 0)
                (sb_put bs (if sb_free s < len then RESIZE_BUF (sb_size s + max QPAGE ((len + QPAGE) mod WORD32)) s else s))))"

text \<open>A byte array of length zero leaves after its length is copied, with the write position in front of it.\<close>

definition ser_bytes :: "byte list option \<Rightarrow> ser_buf \<Rightarrow> (gint32 \<times> ser_buf) run" where
  "ser_bytes pBuf s =
    (let bs = (case pBuf of None \<Rightarrow> [] | Some bs \<Rightarrow> bs) in
     if bs = [] then
       (case sb_put (be_bytes 4 0) (sb_room 0 s) of
          Inl x \<Rightarrow> Inl x
        | Inr _ \<Rightarrow> Inr (0, sb_room 0 s))
     else map_sum id (Pair 0) (sb_counted bs s))"

definition ser_value :: "('o, 'm) cfg_codec \<Rightarrow> ('o, 'm) prop_val \<Rightarrow> ser_buf \<Rightarrow> (gint32 \<times> ser_buf) run" where
  "ser_value c v s =
    (case v of
       PByte x \<Rightarrow> map_sum id (Pair 0) (sb_fixed [x] s)
     | PUInt16 x \<Rightarrow> map_sum id (Pair 0) (sb_fixed (be_bytes 2 (unat x)) s)
     | PUInt32 x \<Rightarrow> map_sum id (Pair 0) (sb_fixed (be_bytes 4 (unat x)) s)
     | PFloat x \<Rightarrow> map_sum id (Pair 0) (sb_fixed (be_bytes 4 (unat x)) s)
     | PUInt64 x \<Rightarrow> map_sum id (Pair 0) (sb_fixed (be_bytes 8 (unat x)) s)
     | PDouble x \<Rightarrow> map_sum id (Pair 0) (sb_fixed (be_bytes 8 (unat x)) s)
     | PString x \<Rightarrow> ser_string x s
     | PDMsg x \<Rightarrow> ser_dmsg c x s
     | PObj x \<Rightarrow> ser_obj c x s
     | PByteArr x \<Rightarrow> ser_bytes x s
     | PNone \<Rightarrow> Inr (- EINVAL, s))"

definition ser_item :: "('o, 'm) cfg_codec \<Rightarrow> 32 word \<times> ('o, 'm) prop_val \<Rightarrow> ser_buf \<Rightarrow> (gint32 \<times> ser_buf) run" where
  "ser_item c kv s =
    (case sb_fixed (be_bytes 4 (unat (fst kv))) s of
       Inl x \<Rightarrow> Inl x
     | Inr s \<Rightarrow>
         if snd kv = PNone then Inr (- EFAULT, s)
         else case sb_fixed [prop_type (snd kv)] s of
           Inl x \<Rightarrow> Inl x
         | Inr s \<Rightarrow> ser_value c (snd kv) s)"

primrec ser_items :: "('o, 'm) cfg_codec \<Rightarrow> ('o, 'm) cfgdb \<Rightarrow> ser_buf \<Rightarrow> (gint32 \<times> ser_buf) run" where
  "ser_items c [] s = Inr (0, s)"
| "ser_items c (kv # db) s =
    (case ser_item c kv s of
       Inl x \<Rightarrow> Inl x
     | Inr (ret, s) \<Rightarrow> if ERROR ret then Inr (ret, s) else ser_items c db s)"

text \<open>The header in network order: class, size, version 2 with three reserved bytes, and the number of items.\<close>

definition cfg_header :: "nat \<Rightarrow> nat \<Rightarrow> byte list" where
  "cfg_header dwSize dwCount = be_bytes 4 clsid_CConfigDb2 @ be_bytes 4 dwSize @ [2, 0, 0, 0] @ be_bytes 4 dwCount"

text \<open>
  \<open>buf\<close> is what the buffer holds before; \<^verbatim>\<open>dwSize\<close> is zero in the header until the end, where it is patched. The
  bytes of the result are those up to the write position.
\<close>

definition cfg_Serialize :: "('o, 'm) cfg_codec \<Rightarrow> ('o, 'm) cfgdb \<Rightarrow> byte list \<Rightarrow> (gint32 \<times> byte list) run" where
  "cfg_Serialize c db buf =
    (let dwOrigOff = length buf; n = dwOrigOff + 16 + QPAGE in
     if n > MAX_BYTES_PER_BUFFER then Inr (- E2BIG, buf)
     else case sb_put (cfg_header 0 (length db)) \<lparr>sb_out = buf, sb_size = n\<rparr> of
       Inl x \<Rightarrow> Inl x
     | Inr s \<Rightarrow>
         (case ser_items c db s of
            Inl x \<Rightarrow> Inl x
          | Inr (ret, s) \<Rightarrow>
              if SUCCEEDED ret then
                let out = sb_out s; dwSize = length out - dwOrigOff - 12 in
                Inr (ret, take (dwOrigOff + 4) out @ be_bytes 4 dwSize @ drop (dwOrigOff + 8) out)
              else Inr (ret, sb_out s)))"

section \<open>Deserialization\<close>

text \<open>Reading \<open>n\<close> bytes at \<^verbatim>\<open>pLoc\<close>, with the rest of the input.\<close>

definition rd :: "nat \<Rightarrow> byte list \<Rightarrow> (nat \<times> byte list) run" where
  "rd n bs = (if length bs < n then Inl Fault_Range else Inr (be_nat (take n bs), drop n bs))"

definition des_num :: "nat \<Rightarrow> (nat \<Rightarrow> ('o, 'm) prop_val) \<Rightarrow> byte list \<Rightarrow> (gint32 \<times> ('o, 'm) prop_val \<times> byte list) run" where
  "des_num n f bs = map_sum id (\<lambda>(x, rest). (0, f x, rest)) (rd n bs)"

text \<open>A length and that many bytes, with the two tests that strings, messages and byte arrays share.\<close>

definition des_counted :: "byte list \<Rightarrow> (gint32 \<times> byte list \<times> byte list)" where
  "des_counted bs =
    (if length bs < 4 then (- E2BIG, [], bs)
     else let len = be_nat (take 4 bs); rest = drop 4 bs in
       if length rest < len then (- E2BIG, [], rest)
       else (0, take len rest, drop len rest))"

definition des_string :: "byte list \<Rightarrow> (gint32 \<times> ('o, 'm) prop_val \<times> byte list) run" where
  "des_string bs = (let (ret, str, rest) = des_counted bs in Inr (ret, if ERROR ret then PNone else PString str, rest))"

text \<open>
  The message is assigned to the variant as a plain \<^verbatim>\<open>DBusMessage*\<close>, for which C++ takes the assignment of a
  \<^verbatim>\<open>bool\<close>: a standard conversion goes before the one to \<^verbatim>\<open>DMsgPtr\<close>.
\<close>

definition des_dmsg :: "('o, 'm) cfg_codec \<Rightarrow> byte list \<Rightarrow> (gint32 \<times> ('o, 'm) prop_val \<times> byte list) run" where
  "des_dmsg c bs =
    (let (ret, body, rest) = des_counted bs in
     if ERROR ret then Inr (ret, PNone, rest)
     else case c_mdes c body of
       Inl ret \<Rightarrow> Inr (ret, PNone, rest)
     | Inr msg \<Rightarrow> Inr (0, PByte 1, rest))"

definition des_obj :: "('o, 'm) cfg_codec \<Rightarrow> byte list \<Rightarrow> (gint32 \<times> ('o, 'm) prop_val \<times> byte list) run" where
  "des_obj c bs =
    (if length bs < 12 then Inl Fault_Range
     else let dwClsid = be_nat (take 4 bs); len = (be_nat (take 4 (drop 4 bs)) + 12) mod WORD32 in
       if length bs < len then Inr (- E2BIG, PNone, bs)
       else if len = 0 \<or> dwClsid = clsid_Invalid then Inr (0, PObj None, drop len bs)
       else case c_des c (word_of_nat dwClsid) (take len bs) of
         Inl ret \<Rightarrow> Inr (ret, PNone, bs)
       | Inr obj \<Rightarrow> Inr (0, PObj (Some obj), drop len bs))"

definition des_bytes :: "byte list \<Rightarrow> (gint32 \<times> ('o, 'm) prop_val \<times> byte list) run" where
  "des_bytes bs =
    (let (ret, body, rest) = des_counted bs in
     if ERROR ret then Inr (ret, PNone, rest)
     else if length body > MAX_BYTES_PER_BUFFER then Inr (- E2BIG, PNone, rest)
     else Inr (0, PByteArr (Some body), rest))"

definition des_value :: "('o, 'm) cfg_codec \<Rightarrow> byte \<Rightarrow> byte list \<Rightarrow> (gint32 \<times> ('o, 'm) prop_val \<times> byte list) run" where
  "des_value c byType bs =
    (if byType = 1 then des_num 1 (\<lambda>x. PByte (word_of_nat x)) bs
     else if byType = 2 then des_num 2 (\<lambda>x. PUInt16 (word_of_nat x)) bs
     else if byType = 3 then des_num 4 (\<lambda>x. PUInt32 (word_of_nat x)) bs
     else if byType = 5 then des_num 4 (\<lambda>x. PFloat (word_of_nat x)) bs
     else if byType = 4 then des_num 8 (\<lambda>x. PUInt64 (word_of_nat x)) bs
     else if byType = 6 then des_num 8 (\<lambda>x. PDouble (word_of_nat x)) bs
     else if byType = 7 then des_string bs
     else if byType = 8 then des_dmsg c bs
     else if byType = 9 then des_obj c bs
     else if byType = 10 then des_bytes bs
     else Inr (- EINVAL, PNone, bs))"

text \<open>One round of the loop reads the key and the type, none of them tested against the end.\<close>

primrec des_items :: "('o, 'm) cfg_codec \<Rightarrow> nat \<Rightarrow> byte list \<Rightarrow> ('o, 'm) cfgdb \<Rightarrow> (gint32 \<times> ('o, 'm) cfgdb) run" where
  "des_items c 0 bs db = Inr (0, db)"
| "des_items c (Suc n) bs db =
    (case rd 4 bs of
       Inl x \<Rightarrow> Inl x
     | Inr (iKey, bs) \<Rightarrow>
         (case rd 1 bs of
            Inl x \<Rightarrow> Inl x
          | Inr (byType, bs) \<Rightarrow>
              (case des_value c (word_of_nat byType) bs of
                 Inl x \<Rightarrow> Inl x
               | Inr (ret, oVar, bs) \<Rightarrow>
                   if ERROR ret then Inr (ret, db)
                   else des_items c n bs (snd (cfg_SetProperty (word_of_nat iKey) oVar db)))))"

definition cfg_Deserialize :: "('o, 'm) cfg_codec \<Rightarrow> byte list \<Rightarrow> ('o, 'm) cfgdb \<Rightarrow> (gint32 \<times> ('o, 'm) cfgdb) run" where
  "cfg_Deserialize c bs db =
    (if bs = [] then Inr (- EINVAL, db)
     else if length bs < 16 then Inl Fault_Range
     else let dwClsid = be_nat (take 4 bs); dwSize = be_nat (take 4 (drop 4 bs)); bVersion = bs ! 8;
              dwCount = be_nat (take 4 (drop 12 bs)) in
       if dwClsid \<noteq> clsid_CConfigDb2 \<or> dwCount > CFGDB_MAX_ITEM \<or> dwSize + 12 > length bs \<or> dwSize > CFGDB_MAX_SIZE
       then Inr (- EINVAL, db)
       else if bVersion \<noteq> 2 then Inr (- EINVAL, db)
       else des_items c dwCount (drop 16 bs) db)"

text \<open>\<^verbatim>\<open>Clone\<close> goes through the wire format; it does not clear the target first.\<close>

definition cfg_Clone :: "('o, 'm) cfg_codec \<Rightarrow> ('o, 'm) cfgdb \<Rightarrow> ('o, 'm) cfgdb \<Rightarrow> (gint32 \<times> ('o, 'm) cfgdb) run" where
  "cfg_Clone c rhs db =
    (case cfg_Serialize c rhs [] of
       Inl x \<Rightarrow> Inl x
     | Inr (ret, buf) \<Rightarrow> if ret < 0 then Inr (ret, db) else cfg_Deserialize c buf db)"

text \<open>The assignment operator copies the map itself.\<close>

definition cfg_assign :: "('o, 'm) cfgdb \<Rightarrow> ('o, 'm) cfgdb \<Rightarrow> ('o, 'm) cfgdb" where
  "cfg_assign rhs db = rhs"

section \<open>The wire format\<close>

fun enc_prop :: "('o, 'm) cfg_codec \<Rightarrow> ('o, 'm) prop_val \<Rightarrow> byte list" where
  "enc_prop c (PByte x) = [x]"
| "enc_prop c (PUInt16 x) = be_bytes 2 (unat x)"
| "enc_prop c (PUInt32 x) = be_bytes 4 (unat x)"
| "enc_prop c (PFloat x) = be_bytes 4 (unat x)"
| "enc_prop c (PUInt64 x) = be_bytes 8 (unat x)"
| "enc_prop c (PDouble x) = be_bytes 8 (unat x)"
| "enc_prop c (PString s) = be_bytes 4 (length s) @ s"
| "enc_prop c (PByteArr (Some bs)) = be_bytes 4 (length bs) @ bs"
| "enc_prop c (PObj (Some obj)) = (case c_ser c obj of Inr bs \<Rightarrow> bs | Inl _ \<Rightarrow> [])"
| "enc_prop c (PDMsg (Some msg)) = (case c_mser c msg of Inr bs \<Rightarrow> be_bytes 4 (length bs) @ bs | Inl _ \<Rightarrow> [])"
| "enc_prop c _ = []"

definition enc_item :: "('o, 'm) cfg_codec \<Rightarrow> 32 word \<times> ('o, 'm) prop_val \<Rightarrow> byte list" where
  "enc_item c kv = be_bytes 4 (unat (fst kv)) @ [prop_type (snd kv)] @ enc_prop c (snd kv)"

definition enc_items :: "('o, 'm) cfg_codec \<Rightarrow> ('o, 'm) cfgdb \<Rightarrow> byte list" where
  "enc_items c db = concat (map (enc_item c) db)"

text \<open>
  Values that the wire carries: no empty value or empty byte array, no message, no null object; an object serializes to
  bytes that start with its header, not the invalid class and with the size of the rest, and reads back as itself.
\<close>

definition prop_ok :: "('o, 'm) cfg_codec \<Rightarrow> ('o, 'm) prop_val \<Rightarrow> bool" where
  "prop_ok c v \<longleftrightarrow>
    (case v of
       PNone \<Rightarrow> False
     | PDMsg _ \<Rightarrow> False
     | PByteArr bs \<Rightarrow> bs \<noteq> None \<and> bs \<noteq> Some []
     | PObj x \<Rightarrow>
         (case x of None \<Rightarrow> False
          | Some obj \<Rightarrow>
              (case c_ser c obj of Inl _ \<Rightarrow> False
               | Inr bs \<Rightarrow> 12 \<le> length bs \<and> be_nat (take 4 (drop 4 bs)) + 12 = length bs
                   \<and> be_nat (take 4 bs) \<noteq> clsid_Invalid \<and> c_des c (word_of_nat (be_nat (take 4 bs))) bs = Inr obj))
     | _ \<Rightarrow> True)"

section \<open>Writing\<close>

text \<open>The capacity never exceeds twice the bytes written and half a page, so that it stays within the limit of a
  buffer as long as the message is below half of it.\<close>

definition sb_inv :: "ser_buf \<Rightarrow> bool" where
  "sb_inv s \<longleftrightarrow> 8 \<le> length (sb_out s) \<and> length (sb_out s) \<le> sb_size s \<and> sb_size s \<le> 2 * length (sb_out s) + QPAGE"

abbreviation (input) HALF_LIMIT :: nat where "HALF_LIMIT \<equiv> 8387584"

lemma RESIZE_BUF_small: "n \<le> MAX_BYTES_PER_BUFFER \<Longrightarrow> RESIZE_BUF n s = s\<lparr>sb_size := n\<rparr>"
  by (simp add: RESIZE_BUF_def)

text \<open>What a successful write does: the bytes are appended and the invariant holds.\<close>

definition writes :: "byte list \<Rightarrow> ser_buf \<Rightarrow> ser_buf run \<Rightarrow> bool" where
  "writes bs s r \<longleftrightarrow> (\<exists>s'. r = Inr s' \<and> sb_out s' = sb_out s @ bs \<and> sb_inv s')"

lemma sb_fixed_writes:
  assumes "sb_inv s" "length bs \<le> 8" "length (sb_out s) + length bs \<le> HALF_LIMIT"
  shows "writes bs s (sb_fixed bs s)"
proof (cases "sb_free s < length bs")
  case True
  then have "RESIZE_BUF (sb_size s + QPAGE) s = s\<lparr>sb_size := sb_size s + QPAGE\<rparr>"
    using assms by (intro RESIZE_BUF_small) (simp add: sb_inv_def sb_free_def)
  with True assms show ?thesis by (auto simp: writes_def sb_fixed_def sb_put_def sb_free_def sb_inv_def)
qed (use assms in \<open>auto simp: writes_def sb_fixed_def sb_put_def sb_free_def sb_inv_def\<close>)

lemma sb_counted_writes:
  assumes "sb_inv s" "length (sb_out s) + 4 + length bs \<le> HALF_LIMIT"
  shows "writes (be_bytes 4 (length bs) @ bs) s (sb_counted bs s)"
proof (cases "sb_free s < length bs + 4")
  case True
  then have eq: "sb_size s + (length bs + 4 + QPAGE - sb_free s) mod WORD32 = length (sb_out s) + length bs + 4 + QPAGE"
    using assms by (simp add: sb_inv_def sb_free_def)
  have "sb_room (length bs) s = s\<lparr>sb_size := length (sb_out s) + length bs + 4 + QPAGE\<rparr>"
    unfolding sb_room_def eq using True assms by (simp add: RESIZE_BUF_small)
  with assms show ?thesis by (auto simp: writes_def sb_counted_def sb_put_def sb_free_def sb_inv_def length_be_bytes)
qed (use assms in \<open>auto simp: writes_def sb_counted_def sb_room_def sb_put_def sb_free_def sb_inv_def length_be_bytes\<close>)

lemma ser_obj_writes:
  assumes "sb_inv s" "length (sb_out s) + length bs \<le> HALF_LIMIT"
  shows "writes bs s (sb_put bs (if sb_free s < length bs
    then RESIZE_BUF (sb_size s + max QPAGE ((length bs + QPAGE) mod WORD32)) s else s))"
proof (cases "sb_free s < length bs")
  case True
  have eq: "sb_size s + max QPAGE ((length bs + QPAGE) mod WORD32) = sb_size s + (length bs + QPAGE)"
    using assms by simp
  have "RESIZE_BUF (sb_size s + (length bs + QPAGE)) s = s\<lparr>sb_size := sb_size s + (length bs + QPAGE)\<rparr>"
    using True assms by (intro RESIZE_BUF_small) (simp add: sb_inv_def sb_free_def)
  with True assms eq show ?thesis by (auto simp: writes_def sb_put_def sb_free_def sb_inv_def)
qed (use assms in \<open>auto simp: writes_def sb_put_def sb_free_def sb_inv_def\<close>)

lemma writes_ret: "writes bs s r \<Longrightarrow> \<exists>s'. map_sum id (Pair (0::gint32)) r = Inr (0, s') \<and> sb_out s' = sb_out s @ bs \<and> sb_inv s'"
  by (auto simp: writes_def)

lemma ser_value_ok:
  assumes "prop_ok c v" "sb_inv s" "length (sb_out s) + length (enc_prop c v) \<le> HALF_LIMIT"
  shows "\<exists>s'. ser_value c v s = Inr (0, s') \<and> sb_out s' = sb_out s @ enc_prop c v \<and> sb_inv s'"
proof (cases v)
  case (PString str)
  then have "length str mod WORD32 = length str" using assms(3) by simp
  with PString assms(3) show ?thesis
    using writes_ret[OF sb_counted_writes[OF assms(2), of str]] by (simp add: ser_value_def ser_string_def)
next
  case (PByteArr x)
  with assms(1) obtain b bs where "x = Some (b # bs)" by (cases x; cases "the x") (auto simp: prop_ok_def)
  with PByteArr assms(3) show ?thesis
    using writes_ret[OF sb_counted_writes[OF assms(2), of "b # bs"]] by (simp add: ser_value_def ser_bytes_def)
next
  case (PObj x)
  with assms(1) obtain obj bs where "x = Some obj" "c_ser c obj = Inr bs" by (auto simp: prop_ok_def split: option.splits sum.splits)
  with PObj assms(3) show ?thesis
    using writes_ret[OF ser_obj_writes[OF assms(2), of bs]] by (simp add: ser_value_def ser_obj_def Let_def)
qed (use assms sb_fixed_writes[OF assms(2), THEN writes_ret, of "enc_prop c v"] in
    \<open>simp_all add: ser_value_def prop_ok_def\<close>)

lemma ser_items_ok:
  "\<forall>x\<in>set db. prop_ok c (snd x) \<Longrightarrow> sb_inv s \<Longrightarrow> length (sb_out s) + length (enc_items c db) \<le> HALF_LIMIT \<Longrightarrow>
   \<exists>s'. ser_items c db s = Inr (0, s') \<and> sb_out s' = sb_out s @ enc_items c db \<and> sb_inv s'"
proof (induction db arbitrary: s)
  case (Cons kv db)
  let ?key = "be_bytes 4 (unat (fst kv))"
  have len: "length (sb_out s) + 5 + length (enc_prop c (snd kv)) + length (enc_items c db) \<le> HALF_LIMIT"
    using Cons.prems(3) by (simp add: enc_items_def enc_item_def)
  obtain s1 where s1: "sb_fixed ?key s = Inr s1" "sb_out s1 = sb_out s @ ?key" "sb_inv s1"
    using sb_fixed_writes[OF Cons.prems(2), of ?key] len by (auto simp: writes_def)
  obtain s2 where s2: "sb_fixed [prop_type (snd kv)] s1 = Inr s2" "sb_out s2 = sb_out s1 @ [prop_type (snd kv)]" "sb_inv s2"
    using sb_fixed_writes[OF s1(3), of "[prop_type (snd kv)]"] s1(2) len by (auto simp: writes_def)
  obtain s3 where s3: "ser_value c (snd kv) s2 = Inr (0, s3)" "sb_out s3 = sb_out s2 @ enc_prop c (snd kv)" "sb_inv s3"
    using ser_value_ok[of c "snd kv" s2] s2 s1 len Cons.prems(1) by auto
  have "snd kv \<noteq> PNone" using Cons.prems(1) by (auto simp: prop_ok_def)
  then have "ser_item c kv s = Inr (0, s3)" using s1 s2 s3 by (simp add: ser_item_def)
  moreover obtain s' where "ser_items c db s3 = Inr (0, s')" "sb_out s' = sb_out s3 @ enc_items c db" "sb_inv s'"
    using Cons.IH[of s3] Cons.prems(1) s1 s2 s3 len by auto
  ultimately show ?case using s1 s2 s3 by (simp add: enc_items_def enc_item_def)
qed (simp add: enc_items_def)

lemma length_cfg_header [simp]: "length (cfg_header n m) = 16"
  by (simp add: cfg_header_def)

lemma cfg_Serialize_ok:
  assumes "\<forall>x\<in>set db. prop_ok c (snd x)" "length buf + 16 + length (enc_items c db) \<le> HALF_LIMIT"
  shows "cfg_Serialize c db buf = Inr (0, buf @ cfg_header (4 + length (enc_items c db)) (length db) @ enc_items c db)"
proof -
  let ?s = "\<lparr>sb_out = buf @ cfg_header 0 (length db), sb_size = length buf + 16 + QPAGE\<rparr>"
  have "sb_inv ?s" by (simp add: sb_inv_def)
  from ser_items_ok[OF assms(1) this] assms(2) obtain s' where
    s': "ser_items c db ?s = Inr (0, s')" "sb_out s' = sb_out ?s @ enc_items c db" by auto
  have "sb_put (cfg_header 0 (length db)) \<lparr>sb_out = buf, sb_size = length buf + 16 + QPAGE\<rparr> = Inr ?s"
    by (simp add: sb_put_def sb_free_def)
  with s' assms(2) show ?thesis by (simp add: cfg_Serialize_def Let_def cfg_header_def)
qed

section \<open>Reading\<close>

lemma rd_append: "rd n (be_bytes n v @ rest) = Inr (be_nat (be_bytes n v), rest)"
  by (simp add: rd_def)

lemma des_num_append: "des_num n f (be_bytes n v @ rest) = Inr (0, f (be_nat (be_bytes n v)), rest)"
  by (simp add: des_num_def rd_append)

lemma des_counted_append: "length bs < 2 ^ 32 \<Longrightarrow> des_counted (be_bytes 4 (length bs) @ bs @ rest) = (0, bs, rest)"
  using be_nat_bytes[of "length bs" 4] by (simp add: des_counted_def Let_def)

lemma des_obj_append:
  assumes "12 \<le> length bs" "be_nat (take 4 (drop 4 bs)) + 12 = length bs" "be_nat (take 4 bs) \<noteq> clsid_Invalid"
    "c_des c (word_of_nat (be_nat (take 4 bs))) bs = Inr obj" "length bs < 2 ^ 32"
  shows "des_obj c (bs @ rest) = Inr (0, PObj (Some obj), rest)"
proof -
  have "bs \<noteq> []" using assms(1) by auto
  with assms show ?thesis by (simp add: des_obj_def Let_def)
qed

lemma des_value_ok:
  assumes "prop_ok c v" "length (enc_prop c v) \<le> HALF_LIMIT"
  shows "des_value c (prop_type v) (enc_prop c v @ rest) = Inr (0, v, rest)"
proof (cases v)
  case (PByte x)
  then show ?thesis by (simp add: des_value_def des_num_def rd_def be_nat_one)
next
  case (PByteArr x)
  with assms(1) obtain bs where "x = Some bs" by (auto simp: prop_ok_def)
  with PByteArr assms(2) show ?thesis by (simp add: des_value_def des_bytes_def des_counted_append)
next
  case (PObj x)
  with assms(1) obtain obj bs where x: "x = Some obj" "c_ser c obj = Inr bs" by (auto simp: prop_ok_def split: option.splits sum.splits)
  with PObj assms have "des_obj c (bs @ rest) = Inr (0, PObj (Some obj), rest)"
    by (intro des_obj_append) (simp_all add: prop_ok_def)
  with PObj x show ?thesis by (simp add: des_value_def)
qed (use assms in \<open>simp_all add: des_value_def des_num_append prop_ok_def des_string_def des_counted_append\<close>)

lemma des_items_ok:
  "\<forall>x\<in>set db. prop_ok c (snd x) \<Longrightarrow> length (enc_items c db) \<le> HALF_LIMIT \<Longrightarrow>
   des_items c (length db) (enc_items c db) db0 = Inr (0, fold (\<lambda>x. AList.update (fst x) (snd x)) db db0)"
proof (induction db arbitrary: db0)
  case (Cons kv db)
  have len: "length (enc_prop c (snd kv)) \<le> HALF_LIMIT" "length (enc_items c db) \<le> HALF_LIMIT"
    using Cons.prems(2) by (simp_all add: enc_items_def enc_item_def)
  have "rd 1 (prop_type (snd kv) # rest) = Inr (unat (prop_type (snd kv)), rest)" for rest
    by (simp add: rd_def be_nat_one)
  then show ?case
    using Cons des_value_ok[of c "snd kv" "enc_items c db"] len
    by (simp add: enc_items_def enc_item_def rd_append cfg_SetProperty_def)
qed (simp add: enc_items_def)

lemma cfg_Deserialize_ok:
  assumes "\<forall>x\<in>set db. prop_ok c (snd x)" "16 + length (enc_items c db) \<le> HALF_LIMIT" "length db \<le> CFGDB_MAX_ITEM"
  shows "cfg_Deserialize c (cfg_header (4 + length (enc_items c db)) (length db) @ enc_items c db) db0
    = Inr (0, fold (\<lambda>x. AList.update (fst x) (snd x)) db db0)"
proof -
  let ?n = "4 + length (enc_items c db)"
  have "be_nat (be_bytes 4 ?n) = ?n" "be_nat (be_bytes 4 (length db)) = length db"
    "be_nat (be_bytes 4 clsid_CConfigDb2) = clsid_CConfigDb2"
    using assms(2,3) by (auto intro!: be_nat_bytes)
  then show ?thesis
    using assms des_items_ok[OF assms(1), of db0] by (simp add: cfg_Deserialize_def Let_def cfg_header_def nth_append)
qed

lemma update_fresh: "k \<notin> fst ` set db \<Longrightarrow> AList.update k v db = db @ [(k, v)]"
  by (induction db) auto

lemma fold_update_fresh:
  "distinct (map fst (db0 @ db)) \<Longrightarrow> fold (\<lambda>x. AList.update (fst x) (snd x)) db db0 = db0 @ db"
proof (induction db arbitrary: db0)
  case (Cons x db)
  then show ?case using Cons.IH[of "db0 @ [x]"] by (cases x) (simp add: update_fresh)
qed simp

lemma fold_update_map_of:
  "distinct (map fst db) \<Longrightarrow> map_of (fold (\<lambda>x. AList.update (fst x) (snd x)) db db0) = map_of db0 ++ map_of db"
proof (induction db arbitrary: db0)
  case (Cons x db)
  then show ?case using Cons.IH[of "AList.update (fst x) (snd x) db0"]
    by (auto simp: AList.update_conv' fun_eq_iff map_add_def map_of_eq_None_iff split: option.splits dest: map_of_SomeD intro: rev_image_eqI)
qed simp

text \<open>A configuration with one item.\<close>

lemma cfg_Serialize_one:
  assumes "v \<noteq> PNone"
    "ser_value c v \<lparr>sb_out = cfg_header 0 1 @ be_bytes 4 (unat k) @ [prop_type v], sb_size = 2064\<rparr> = Inr (0, s)"
    "sb_out s = cfg_header 0 1 @ rest"
  shows "cfg_Serialize c [(k, v)] [] = Inr (0, cfg_header (4 + length rest) 1 @ rest)"
proof -
  have "ser_item c (k, v) \<lparr>sb_out = cfg_header 0 1, sb_size = 2064\<rparr> = Inr (0, s)"
    using assms(1,2) by (simp add: ser_item_def sb_fixed_def sb_put_def sb_free_def)
  moreover have "sb_put (cfg_header 0 1) \<lparr>sb_out = [], sb_size = 2064\<rparr> = Inr \<lparr>sb_out = cfg_header 0 1, sb_size = 2064\<rparr>"
    by (simp add: sb_put_def sb_free_def)
  ultimately show ?thesis using assms(3) by (simp add: cfg_Serialize_def Let_def) (simp add: cfg_header_def)
qed

lemma cfg_Deserialize_one:
  assumes "length rest \<le> HALF_LIMIT"
  shows "cfg_Deserialize c (cfg_header (4 + length rest) 1 @ rest) db = des_items c 1 rest db"
proof -
  have "be_nat (be_bytes 4 (4 + length rest)) = 4 + length rest" "be_nat (be_bytes 4 1) = 1"
    "be_nat (be_bytes 4 clsid_CConfigDb2) = clsid_CConfigDb2"
    using assms by (auto intro!: be_nat_bytes)
  then show ?thesis using assms by (simp add: cfg_Deserialize_def Let_def cfg_header_def nth_append)
qed

lemma des_items_one:
  "des_items c 1 (be_bytes 4 (unat k) @ ty # rest) db =
    (case des_value c ty rest of
       Inl x \<Rightarrow> Inl x
     | Inr (ret, v, bs) \<Rightarrow> if ERROR ret then Inr (ret, db) else Inr (0, AList.update k v db))"
proof -
  have "rd 1 (ty # rest) = Inr (unat ty, rest)" by (simp add: rd_def be_nat_one)
  then show ?thesis
    by (simp add: rd_append cfg_SetProperty_def split: sum.splits prod.splits)
qed

section \<open>Properties\<close>

definition sample_cfg_codec :: "(nat, nat) cfg_codec" where
  "sample_cfg_codec = \<lparr>c_ser = (\<lambda>x. Inr (be_bytes 4 0x900 @ be_bytes 4 4 @ [1, 0, 0, 0] @ be_bytes 4 x)),
     c_des = (\<lambda>cls bs. Inr (be_nat (drop 12 bs))), c_mser = (\<lambda>x. Inr [word_of_nat x]), c_mdes = (\<lambda>bs. Inr (be_nat bs))\<rparr>"

definition sample_cfg :: "(nat, nat) cfgdb" where
  "sample_cfg = [(5, PUInt32 7), (9, PString [65, 66]), (3, PObj (Some 4)), (1, PByteArr (Some [1, 2]))]"

lemma sample_cfg_facts:
  "\<forall>x\<in>set sample_cfg. prop_ok sample_cfg_codec (snd x)" "distinct (map fst sample_cfg)"
  "length sample_cfg \<le> CFGDB_MAX_ITEM" "16 + length (enc_items sample_cfg_codec sample_cfg) \<le> HALF_LIMIT"
  using be_nat_bytes[of "0x900" 4] be_nat_bytes[of 4 4]
  by (simp_all add: sample_cfg_def sample_cfg_codec_def prop_ok_def enc_items_def enc_item_def)

text \<open>C15. A configuration survives the wire: for pairwise different ids, at most 1024 of them, values that the format
  carries and a message below half the limit of a buffer, \<^verbatim>\<open>Serialize\<close> succeeds after any content of the buffer; reading its bytes back into any
  configuration succeeds and overrides exactly the ids sent, and \<^verbatim>\<open>Clone\<close> into an empty one gives the same configuration.\<close>

theorem config_roundtrip:
  assumes "\<forall>x\<in>set db. prop_ok c (snd x)" "distinct (map fst db)" "length db \<le> CFGDB_MAX_ITEM"
    "length buf + 16 + length (enc_items c db) \<le> HALF_LIMIT"
  shows "\<exists>bs. cfg_Serialize c db buf = Inr (0, buf @ bs) \<and>
    (\<forall>db0. \<exists>db1. cfg_Deserialize c bs db0 = Inr (0, db1) \<and> map_of db1 = map_of db0 ++ map_of db) \<and>
    cfg_Clone c db [] = Inr (0, db)"
proof -
  have lim: "length ([] :: byte list) + 16 + length (enc_items c db) \<le> HALF_LIMIT"
    "16 + length (enc_items c db) \<le> HALF_LIMIT" using assms(4) by simp_all
  note des = cfg_Deserialize_ok[OF assms(1) lim(2) assms(3)]
  have "cfg_Clone c db [] = Inr (0, db)"
    using cfg_Serialize_ok[OF assms(1) lim(1)] des[of "[]"] fold_update_fresh[of "[]" db] assms(2)
    by (simp add: cfg_Clone_def)
  then show ?thesis
    using cfg_Serialize_ok[OF assms(1,4)] des fold_update_map_of[OF assms(2)] by blast
qed

theorem config_roundtrip_witness:
  "\<exists>bs. cfg_Serialize sample_cfg_codec sample_cfg [7] = Inr (0, [7] @ bs) \<and>
    (\<forall>db0. \<exists>db1. cfg_Deserialize sample_cfg_codec bs db0 = Inr (0, db1) \<and> map_of db1 = map_of db0 ++ map_of sample_cfg) \<and>
    cfg_Clone sample_cfg_codec sample_cfg [] = Inr (0, sample_cfg)"
  using config_roundtrip[OF sample_cfg_facts(1,2,3), of "[7]"] sample_cfg_facts(4)
  by (simp add: sample_cfg_def sample_cfg_codec_def enc_items_def enc_item_def)

text \<open>Two kinds of values are lost: a configuration that holds an empty byte array is serialized with success, but its
  bytes are refused with \<^verbatim>\<open>-E2BIG\<close>; and a D-Bus message that its own serializer carries over comes back as the byte 1.\<close>

lemma config_loses_values:
  assumes "b = None \<or> b = Some []" "c_mser c msg = Inr bs" "length bs \<le> 1000" "c_mdes c bs = Inr msg"
  shows "(\<exists>out. cfg_Serialize c [(k, PByteArr b)] [] = Inr (0, out) \<and> cfg_Deserialize c out [] = Inr (- E2BIG, [])) \<and>
    cfg_Clone c [(k, PDMsg (Some msg))] [] = Inr (0, [(k, PByte 1)])"
proof
  let ?key = "be_bytes 4 (unat k)"
  let ?s = "\<lambda>ty. \<lparr>sb_out = cfg_header 0 1 @ ?key @ [ty], sb_size = 2064\<rparr>"
  have "ser_value c (PByteArr b) (?s 10) = Inr (0, ?s 10)"
    using assms(1) by (auto simp: ser_value_def ser_bytes_def sb_put_def sb_room_def sb_free_def)
  then have "cfg_Serialize c [(k, PByteArr b)] [] = Inr (0, cfg_header (4 + length (?key @ [10])) 1 @ ?key @ [10])"
    by (intro cfg_Serialize_one[where s = "?s 10"]) simp_all
  moreover have "cfg_Deserialize c (cfg_header (4 + length (?key @ [10])) 1 @ ?key @ [10]) [] = Inr (- E2BIG, [])"
    using des_items_one[of c k 10 "[]"]
    by (subst cfg_Deserialize_one) (simp_all add: des_value_def des_bytes_def des_counted_def)
  ultimately show "\<exists>out. cfg_Serialize c [(k, PByteArr b)] [] = Inr (0, out) \<and> cfg_Deserialize c out [] = Inr (- E2BIG, [])"
    by blast
next
  let ?key = "be_bytes 4 (unat k)" and ?body = "be_bytes 4 (length bs) @ bs"
  let ?s = "\<lparr>sb_out = cfg_header 0 1 @ ?key @ [8], sb_size = 2064\<rparr>"
  have "ser_value c (PDMsg (Some msg)) ?s = Inr (0, ?s\<lparr>sb_out := cfg_header 0 1 @ ?key @ [8] @ ?body\<rparr>)"
    using assms(2,3) by (simp add: ser_value_def ser_dmsg_def sb_counted_def sb_room_def sb_put_def sb_free_def)
  then have "cfg_Serialize c [(k, PDMsg (Some msg))] [] =
      Inr (0, cfg_header (4 + length (?key @ 8 # ?body)) 1 @ ?key @ 8 # ?body)"
    by (intro cfg_Serialize_one[where s = "?s\<lparr>sb_out := cfg_header 0 1 @ ?key @ [8] @ ?body\<rparr>"]) simp_all
  moreover have "des_value c 8 ?body = Inr (0, PByte 1, [])"
    using des_counted_append[of bs "[]"] assms(3,4) by (simp add: des_value_def des_dmsg_def)
  then have "cfg_Deserialize c (cfg_header (4 + length (?key @ 8 # ?body)) 1 @ ?key @ 8 # ?body) [] = Inr (0, [(k, PByte 1)])"
    using des_items_one[of c k 8 ?body "[]"] assms(3) by (subst cfg_Deserialize_one) simp_all
  ultimately show "cfg_Clone c [(k, PDMsg (Some msg))] [] = Inr (0, [(k, PByte 1)])"
    by (simp add: cfg_Clone_def)
qed

text \<open>The status of \<^verbatim>\<open>Resize\<close> is ignored: a string longer than the limit of a buffer is not refused,
  \<^verbatim>\<open>Serialize\<close> writes it beyond the end of the memory.\<close>

lemma config_overrun:
  assumes "length str > MAX_BYTES_PER_BUFFER" "length str < WORD32"
  shows "cfg_Serialize c ((k, PString str) # db) [] = Inl Fault_Range"
proof -
  have "sb_size (RESIZE_BUF n s) \<le> MAX_BYTES_PER_BUFFER" if "sb_size s \<le> MAX_BYTES_PER_BUFFER" for n s
    using that by (simp add: RESIZE_BUF_def)
  then have size: "sb_size (sb_room n s) \<le> MAX_BYTES_PER_BUFFER" if "sb_size s \<le> MAX_BYTES_PER_BUFFER" for n s
    using that by (simp add: sb_room_def)
  have room: "sb_free (sb_room (length str) s) < length str" if "sb_size s \<le> MAX_BYTES_PER_BUFFER" for s
    using size[OF that, of "length str"] assms(1) by (simp add: sb_free_def)
  have "sb_counted str s = Inl Fault_Range" if "sb_size s \<le> MAX_BYTES_PER_BUFFER" for s
    using room[OF that] by (auto simp: sb_counted_def sb_put_def sb_free_def)
  then have "ser_items c ((k, PString str) # db) \<lparr>sb_out = cfg_header 0 n, sb_size = 2064\<rparr> = Inl Fault_Range" for n
    using assms(2) by (simp add: ser_item_def sb_fixed_def sb_put_def sb_free_def ser_value_def ser_string_def)
  then show ?thesis by (simp add: cfg_Serialize_def Let_def sb_put_def sb_free_def del: ser_items.simps)
qed

end
