(* ===== verification/FileInode.thy ===== *)
theory FileInode
  imports Wire BlkAddr
begin

unbundle bit_operations_syntax

text \<open>
  The inode of a file of the registry file system (\<^verbatim>\<open>monitor/registry/file.cpp\<close>): the record \<open>file_image\<close> of a \<^verbatim>\<open>CFileImage\<close>
  with its inode, the layout of the inode block, loading and flushing it, attributes, access checks and open counts.

  Files stand on the allocator of blocks. What it promises to a client is the record \<open>dev\<close>: the contents of the blocks
  (the plain store that \<open>block_store\<close> shows the cache to be below 2 GiB of the image), the blocks that \<^verbatim>\<open>AllocBlocks\<close> will hand out (fresh and never twice, as
  \<open>slot_alloc\<close> shows for the bitmaps), and the status of an access to a block. The status of a successful access is the number of its bytes.
  Sizes, offsets and block indices are natural numbers below \<open>2 ^ 32\<close>, with \<open>mod\<close> where a sum of the source can wrap.
\<close>

section \<open>The allocator as its client sees it\<close>

type_synonym block = "byte list"

record dev =
  d_blk :: "nat \<Rightarrow> block"
  d_free :: "nat list"
  d_err :: "nat \<Rightarrow> gint32"

definition BS :: "geom \<Rightarrow> nat" where
  "BS g = unat (g_dwBlockSize g)"

abbreviation (input) W32 :: nat where "W32 \<equiv> 4294967296"

definition dev_ReadBlock :: "geom \<Rightarrow> nat \<Rightarrow> dev \<Rightarrow> gint32 \<times> block" where
  "dev_ReadBlock g b d =
    (if b = INVALID_BLOCK_IDX then (- EINVAL, [])
     else if ERROR (d_err d b) then (d_err d b, [])
     else (int (BS g), d_blk d b))"

definition dev_WriteBlock :: "geom \<Rightarrow> nat \<Rightarrow> block \<Rightarrow> dev \<Rightarrow> gint32 \<times> dev" where
  "dev_WriteBlock g b bs d =
    (if b = INVALID_BLOCK_IDX then (- EINVAL, d)
     else if ERROR (d_err d b) then (d_err d b, d)
     else (int (BS g), d\<lparr>d_blk := (d_blk d)(b := bs)\<rparr>))"

text \<open>Several blocks at once: a hole reads as zeros and cannot be written; the first error ends the access.\<close>

primrec dev_read_loop :: "geom \<Rightarrow> nat list \<Rightarrow> dev \<Rightarrow> gint32 \<times> byte list" where
  "dev_read_loop g [] d = (0, [])"
| "dev_read_loop g (b # bs) d =
    (if b \<noteq> INVALID_BLOCK_IDX \<and> ERROR (d_err d b) then (d_err d b, [])
     else let (ret, rest) = dev_read_loop g bs d in
       if ERROR ret then (ret, [])
       else (ret + int (BS g), (if b = INVALID_BLOCK_IDX then replicate (BS g) 0 else d_blk d b) @ rest))"

definition dev_ReadBlocks :: "geom \<Rightarrow> nat list \<Rightarrow> dev \<Rightarrow> gint32 \<times> byte list" where
  "dev_ReadBlocks g bs d = (if bs = [] then (- EINVAL, []) else dev_read_loop g bs d)"

primrec dev_write_loop :: "geom \<Rightarrow> nat list \<Rightarrow> byte list \<Rightarrow> dev \<Rightarrow> gint32 \<times> dev" where
  "dev_write_loop g [] buf d = (0, d)"
| "dev_write_loop g (b # bs) buf d =
    (if b = INVALID_BLOCK_IDX then (- ENODATA, d)
     else if ERROR (d_err d b) then (d_err d b, d)
     else let (ret, d1) = dev_write_loop g bs (drop (BS g) buf) (d\<lparr>d_blk := (d_blk d)(b := take (BS g) buf)\<rparr>) in
       (if ERROR ret then ret else ret + int (BS g), d1))"

definition dev_WriteBlocks :: "geom \<Rightarrow> nat list \<Rightarrow> byte list \<Rightarrow> dev \<Rightarrow> gint32 \<times> dev" where
  "dev_WriteBlocks g bs buf d = (if bs = [] then (- EINVAL, d) else dev_write_loop g bs buf d)"

text \<open>\<^verbatim>\<open>AllocBlocks\<close> for one block: when no group has a free block, no group is left to load and none to allocate, the status is the one of \<open>AllocGroup\<close>.\<close>

definition dev_Alloc :: "dev \<Rightarrow> gint32 \<times> nat \<times> dev" where
  "dev_Alloc d = (case d_free d of [] \<Rightarrow> (- ENOMEM, 0, d) | b # fs \<Rightarrow> (0, b, d\<lparr>d_free := fs\<rparr>))"

text \<open>Freeing skips the index 0, which stands for no block.\<close>

definition dev_Free :: "nat list \<Rightarrow> dev \<Rightarrow> gint32 \<times> dev" where
  "dev_Free bs d =
    (if bs = [] then (- EINVAL, d) else (0, d\<lparr>d_free := d_free d @ filter (\<lambda>b. b \<noteq> 0) bs\<rparr>))"

section \<open>Geometry of a file\<close>

abbreviation (input) DIRECT_BLOCKS :: nat where "DIRECT_BLOCKS \<equiv> 13"
abbreviation (input) BIT_IDX :: nat where "BIT_IDX \<equiv> 13"
abbreviation (input) BITD_IDX :: nat where "BITD_IDX \<equiv> 14"
abbreviation (input) VALUE_SIZE :: nat where "VALUE_SIZE \<equiv> 95"

definition BLKIDX_PER_TABLE :: "geom \<Rightarrow> nat" where
  "BLKIDX_PER_TABLE g = BS g div 4"

text \<open>The macro multiplies in \<^verbatim>\<open>guint32\<close>.\<close>

definition MAX_FILE_SIZE :: "geom \<Rightarrow> nat" where
  "MAX_FILE_SIZE g = ((13 + BLKIDX_PER_TABLE g + BLKIDX_PER_TABLE g * BLKIDX_PER_TABLE g) * BS g) mod W32"

definition INDIRECT_BLOCK_START :: "geom \<Rightarrow> nat" where
  "INDIRECT_BLOCK_START g = DIRECT_BLOCKS * BS g"

definition SEC_INDIRECT_BLOCK_START :: "geom \<Rightarrow> nat" where
  "SEC_INDIRECT_BLOCK_START g = INDIRECT_BLOCK_START g + BLKIDX_PER_TABLE g * BS g"

definition BEYOND_MAX_LIMIT :: "geom \<Rightarrow> nat \<Rightarrow> bool" where
  "BEYOND_MAX_LIMIT g off \<longleftrightarrow> off \<ge> MAX_FILE_SIZE g"

definition WITHIN_DIRECT_BLOCK :: "geom \<Rightarrow> nat \<Rightarrow> bool" where
  "WITHIN_DIRECT_BLOCK g off \<longleftrightarrow> off < INDIRECT_BLOCK_START g"

definition WITHIN_INDIRECT_BLOCK :: "geom \<Rightarrow> nat \<Rightarrow> bool" where
  "WITHIN_INDIRECT_BLOCK g off \<longleftrightarrow> off \<ge> INDIRECT_BLOCK_START g \<and> off < SEC_INDIRECT_BLOCK_START g"

definition WITHIN_SEC_INDIRECT_BLOCK :: "geom \<Rightarrow> nat \<Rightarrow> bool" where
  "WITHIN_SEC_INDIRECT_BLOCK g off \<longleftrightarrow> off \<ge> SEC_INDIRECT_BLOCK_START g \<and> off < MAX_FILE_SIZE g"

text \<open>Shifts and masks by powers of two are divisions and remainders.\<close>

definition INDIRECT_BLK_IDX :: "geom \<Rightarrow> nat \<Rightarrow> nat" where
  "INDIRECT_BLK_IDX g off = (off - INDIRECT_BLOCK_START g) div BS g"

definition SEC_BIT_IDX :: "geom \<Rightarrow> nat \<Rightarrow> nat" where
  "SEC_BIT_IDX g off = ((off - SEC_INDIRECT_BLOCK_START g) div (BS g * BLKIDX_PER_TABLE g)) mod BLKIDX_PER_TABLE g"

definition SEC_BLKIDX_IDX :: "geom \<Rightarrow> nat \<Rightarrow> nat" where
  "SEC_BLKIDX_IDX g off = ((off - SEC_INDIRECT_BLOCK_START g) div BS g) mod BLKIDX_PER_TABLE g"

section \<open>Inodes\<close>

type_synonym timespec = "nat \<times> nat"

record inode =
  m_dwSize :: nat
  m_mtime :: timespec
  m_atime :: timespec
  m_ctime :: timespec
  m_dwMode :: "32 word"
  m_wuid :: nat
  m_wgid :: nat
  m_dwFlags :: nat
  m_arrBlocks :: "nat list"
  m_arrMetaFork :: "nat list"
  m_iValType :: byte
  m_dwRootBNode :: nat

text \<open>A block table is kept in memory as the numbers it holds.\<close>

type_synonym table = "nat list"

datatype file_state = FStarted | FStopping | FStopped

record 'o file_image =
  m_dwInodeIdx :: nat
  m_oInodeStore :: inode
  m_oValue :: "'o variant"
  m_pBitBlk :: "table option"
  m_pBitdBlk :: "table option"
  m_mapSecBitBlks :: "(nat \<times> table) list"
  m_dwOpenCount :: nat
  m_dwState :: file_state

text \<open>
  The value goes into the 95 bytes of \<^verbatim>\<open>m_arrBuf\<close>; a string is cut to 94 bytes and, by \<^verbatim>\<open>strcpy\<close>, at its first zero byte.
  What the block held before stays where nothing is written.
\<close>

definition put_at :: "nat \<Rightarrow> byte list \<Rightarrow> byte list \<Rightarrow> byte list" where
  "put_at off bs buf = take off buf @ bs @ drop (off + length bs) buf"

definition ser_val :: "'o variant \<Rightarrow> (gint32 \<times> byte list)" where
  "ser_val oVal =
    (case oVal of
       VarByte x \<Rightarrow> (0, [x])
     | VarUInt16 x \<Rightarrow> (0, be_bytes 2 (unat x))
     | VarUInt32 x \<Rightarrow> (0, be_bytes 4 (unat x))
     | VarFloat x \<Rightarrow> (0, be_bytes 4 (unat x))
     | VarUInt64 x \<Rightarrow> (0, be_bytes 8 (unat x))
     | VarDouble x \<Rightarrow> (0, be_bytes 8 (unat x))
     | VarString s \<Rightarrow> (0, takeWhile (\<lambda>c. c \<noteq> 0) (take (VALUE_SIZE - 1) s) @ [0])
     | VarNone \<Rightarrow> (0, [])
     | _ \<Rightarrow> (- ENOTSUP, []))"

definition time_bytes :: "timespec \<Rightarrow> byte list" where
  "time_bytes t = be_bytes 4 (fst t mod W32) @ be_bytes 4 (snd t mod W32)"

definition words_bytes :: "nat list \<Rightarrow> byte list" where
  "words_bytes ws = concat (map (be_bytes 4) ws)"

definition RegFSInode_Serialize :: "byte list \<Rightarrow> inode \<Rightarrow> 'o variant \<Rightarrow> gint32 \<times> byte list" where
  "RegFSInode_Serialize buf n oVal =
    (let (ret, val) = ser_val oVal;
         head = be_bytes 4 (m_dwSize n) @ time_bytes (m_mtime n) @ time_bytes (m_atime n) @ time_bytes (m_ctime n) @
           be_bytes 4 (unat (m_dwMode n)) @ be_bytes 4 (m_wuid n) @ be_bytes 4 (m_wgid n) @ be_bytes 4 (m_dwFlags n) @
           words_bytes (m_arrBlocks n);
         b1 = put_at 0 head buf;
         b2 = put_at 108 (words_bytes (m_arrMetaFork n)) b1;
         b3 = put_at 124 val b2;
         b4 = put_at 219 [GetTypeId oVal] b3 in
     (ret, put_at 220 (be_bytes 4 (m_dwRootBNode n)) b4))"

text \<open>\<^verbatim>\<open>Flush( FLAG_FLUSH_INODE )\<close> serializes into a new buffer (\<open>junk\<close>) and ignores the status of that.\<close>

definition FlushInode :: "geom \<Rightarrow> byte list \<Rightarrow> 'o file_image \<Rightarrow> dev \<Rightarrow> gint32 \<times> dev" where
  "FlushInode g junk f d =
    (let buf = snd (RegFSInode_Serialize junk (m_oInodeStore f) (m_oValue f));
         (ret, d) = dev_WriteBlock g (m_dwInodeIdx f) buf d in
     (if ERROR ret then ret else 0, d))"

definition rd32 :: "nat \<Rightarrow> byte list \<Rightarrow> nat" where
  "rd32 off buf = be_nat (take 4 (drop off buf))"

definition rd_words :: "nat \<Rightarrow> nat \<Rightarrow> byte list \<Rightarrow> nat list" where
  "rd_words off n buf = map (\<lambda>i. rd32 (off + 4 * i) buf) [0..<n]"

definition table_of :: "block \<Rightarrow> table" where
  "table_of b = rd_words 0 (length b div 4) b"

text \<open>Reading the value; for an unknown type \<^verbatim>\<open>ret\<close> is set and the loading of the tables below goes on. \<open>old\<close> is the value held before.\<close>

definition load_value :: "byte list \<Rightarrow> 'o variant \<Rightarrow> gint32 \<times> 'o variant" where
  "load_value buf old =
    (let ty = buf ! 219; v = drop 124 buf in
     if ty = 1 then (0, VarByte (v ! 0))
     else if ty = 2 then (0, VarUInt16 (word_of_nat (be_nat (take 2 v))))
     else if ty = 3 then (0, VarUInt32 (word_of_nat (be_nat (take 4 v))))
     else if ty = 4 then (0, VarUInt64 (word_of_nat (be_nat (take 8 v))))
     else if ty = 5 then (0, VarFloat (word_of_nat (be_nat (take 4 v))))
     else if ty = 6 then (0, VarDouble (word_of_nat (be_nat (take 8 v))))
     else if ty = 7 then (0, VarString (takeWhile (\<lambda>c. c \<noteq> 0) (take (VALUE_SIZE - 1) v)))
     else if ty = 0 then (0, old)
     else (- ENOTSUP, old))"

definition load_inode :: "timespec \<Rightarrow> byte list \<Rightarrow> inode" where
  "load_inode now buf =
    \<lparr>m_dwSize = rd32 0 buf, m_mtime = (rd32 4 buf, rd32 8 buf), m_atime = now, m_ctime = (rd32 20 buf, rd32 24 buf),
     m_dwMode = word_of_nat (rd32 28 buf), m_wuid = rd32 32 buf, m_wgid = rd32 36 buf, m_dwFlags = rd32 40 buf,
     m_arrBlocks = rd_words 44 15 buf, m_arrMetaFork = rd_words 108 4 buf, m_iValType = buf ! 219,
     m_dwRootBNode = rd32 220 buf\<rparr>"

text \<open>
  \<^verbatim>\<open>Reload\<close> at time \<open>now\<close>. A size beyond the limit stops it after the size is set; the tables are loaded when the size needs
  them. When a table cannot be read the object is of no use, and the model leaves it without that table.
\<close>

definition CFileImage_Reload :: "geom \<Rightarrow> timespec \<Rightarrow> 'o file_image \<Rightarrow> dev \<Rightarrow> gint32 \<times> 'o file_image" where
  "CFileImage_Reload g now f d =
    (let (ret, buf) = dev_ReadBlock g (m_dwInodeIdx f) d in
     if ERROR ret then (ret, f)
     else if rd32 0 buf > MAX_FILE_SIZE g
     then (- ERANGE, f\<lparr>m_oInodeStore := (m_oInodeStore f)\<lparr>m_dwSize := rd32 0 buf\<rparr>\<rparr>)
     else
       let n = load_inode now buf; (ret2, v) = load_value buf (m_oValue f);
           ret = (if ERROR ret2 then ret2 else ret);
           f = f\<lparr>m_oInodeStore := n, m_oValue := v\<rparr> in
       if m_dwSize n = 0 then (ret, f)
       else
         let bFirst = WITHIN_INDIRECT_BLOCK g (m_dwSize n - 1);
             bSec = WITHIN_SEC_INDIRECT_BLOCK g (m_dwSize n - 1) in
         if bSec \<and> m_arrBlocks n ! BITD_IDX = 0 then (ret, f)
         else
           let (ret, b) = (if bSec then dev_ReadBlock g (m_arrBlocks n ! BITD_IDX) d else (ret, [])) in
           if bSec \<and> ERROR ret then (ret, f)
           else
             let f = (if bSec then f\<lparr>m_pBitdBlk := Some (table_of b)\<rparr> else f) in
             if bFirst \<or> bSec then
               if m_arrBlocks n ! BIT_IDX = 0 then (ret, f)
               else let (ret, b) = dev_ReadBlock g (m_arrBlocks n ! BIT_IDX) d in
                 if ERROR ret then (ret, f) else (0, f\<lparr>m_pBitBlk := Some (table_of b)\<rparr>)
             else if ERROR ret then (ret, f) else (0, f))"

definition CFileImage_Format :: "timespec \<Rightarrow> nat \<Rightarrow> nat \<Rightarrow> 'o file_image \<Rightarrow> gint32 \<times> 'o file_image" where
  "CFileImage_Format now euid egid f =
    (0, f\<lparr>m_oInodeStore := (m_oInodeStore f)\<lparr>m_dwSize := 0, m_mtime := now, m_atime := now, m_ctime := now,
       m_dwMode := 0x81B0, m_wuid := euid, m_wgid := egid, m_dwFlags := 0, m_arrBlocks := replicate 15 0,
       m_arrMetaFork := replicate 4 0, m_iValType := 0, m_dwRootBNode := 65535\<rparr>\<rparr>)"

abbreviation (input) FLAG_FLUSH_DATA :: nat where "FLAG_FLUSH_DATA \<equiv> 2"
abbreviation (input) FLAG_FLUSH_INODE :: nat where "FLAG_FLUSH_INODE \<equiv> 4"
abbreviation (input) FLAG_FLUSH_DEFAULT :: nat where "FLAG_FLUSH_DEFAULT \<equiv> 6"

definition write_table :: "geom \<Rightarrow> nat \<Rightarrow> table \<Rightarrow> dev \<Rightarrow> dev" where
  "write_table g b t d = snd (dev_WriteBlock g b (words_bytes t) d)"

text \<open>\<^verbatim>\<open>Flush\<close>: the statuses of writing the tables are not looked at; the tables of the directory go out in the order in which
  the hash map holds them, which is that of the list (\<open>flush_any_order\<close> shows that it does not matter), and \<^verbatim>\<open>m_mapBlocks\<close> is never filled.\<close>

definition FlushTables :: "geom \<Rightarrow> 'o file_image \<Rightarrow> dev \<Rightarrow> dev" where
  "FlushTables g f d =
    (let arrBlks = m_arrBlocks (m_oInodeStore f);
         d = (case m_pBitBlk f of
                Some t \<Rightarrow> if arrBlks ! BIT_IDX \<noteq> 0 then write_table g (arrBlks ! BIT_IDX) t d else d
              | None \<Rightarrow> d) in
     case m_pBitdBlk f of
       None \<Rightarrow> d
     | Some pbitd \<Rightarrow>
         let d = (if arrBlks ! BITD_IDX \<noteq> 0 then write_table g (arrBlks ! BITD_IDX) pbitd d else d) in
         fold (\<lambda>(dwIdx2, t) d. write_table g (pbitd ! dwIdx2) t d) (m_mapSecBitBlks f) d)"

definition CFileImage_Flush :: "geom \<Rightarrow> nat \<Rightarrow> byte list \<Rightarrow> 'o file_image \<Rightarrow> dev \<Rightarrow> gint32 \<times> dev" where
  "CFileImage_Flush g dwFlags junk f d =
    (let bInode = bit dwFlags 2; bData = bit dwFlags 1;
         (ret, d) = (if bInode then FlushInode g junk f d else (0, d)) in
     if ERROR ret then (ret, d)
     else if \<not> bData \<or> m_dwSize (m_oInodeStore f) = 0 then (ret, d)
     else (ret, FlushTables g f d))"

section \<open>Values and attributes\<close>

text \<open>\<^verbatim>\<open>READ_LOCK\<close> and \<^verbatim>\<open>WRITE_LOCK\<close> leave with \<open>ERROR_STATE\<close> when the file is stopped.\<close>

definition CFileImage_ReadValue :: "'o file_image \<Rightarrow> gint32 \<times> 'o variant option" where
  "CFileImage_ReadValue f =
    (if m_dwState f = FStopped then (ERROR_STATE, None)
     else if m_oValue f = VarNone then (- ENODATA, None) else (0, Some (m_oValue f)))"

definition touch_ctime :: "timespec \<Rightarrow> 'o file_image \<Rightarrow> 'o file_image" where
  "touch_ctime now f = f\<lparr>m_oInodeStore := (m_oInodeStore f)\<lparr>m_ctime := now\<rparr>\<rparr>"

definition touch_atime :: "timespec \<Rightarrow> 'o file_image \<Rightarrow> 'o file_image" where
  "touch_atime now f = f\<lparr>m_oInodeStore := (m_oInodeStore f)\<lparr>m_atime := now\<rparr>\<rparr>"

definition touch_mtime :: "timespec \<Rightarrow> 'o file_image \<Rightarrow> 'o file_image" where
  "touch_mtime now f = f\<lparr>m_oInodeStore := (m_oInodeStore f)\<lparr>m_mtime := now, m_atime := now, m_ctime := now\<rparr>\<rparr>"

definition CFileImage_WriteValue :: "geom \<Rightarrow> timespec \<Rightarrow> byte list \<Rightarrow> 'o variant \<Rightarrow> 'o file_image \<Rightarrow> dev
    \<Rightarrow> gint32 \<times> 'o file_image \<times> dev" where
  "CFileImage_WriteValue g now junk oVar f d =
    (if GetTypeId oVar \<ge> 8 then (- ENOTSUP, f, d)
     else if m_dwState f = FStopped then (ERROR_STATE, f, d)
     else let f = touch_ctime now (f\<lparr>m_oValue := oVar\<rparr>); (ret, d) = FlushInode g junk f d in (ret, f, d))"

definition set_attr :: "geom \<Rightarrow> byte list \<Rightarrow> (inode \<Rightarrow> inode) \<Rightarrow> 'o file_image \<Rightarrow> dev \<Rightarrow> 'o file_image \<times> dev" where
  "set_attr g junk upd f d =
    (if m_dwState f = FStopped then (f, d)
     else let f = f\<lparr>m_oInodeStore := upd (m_oInodeStore f)\<rparr> in (f, snd (FlushInode g junk f d)))"

definition CFileImage_SetGid :: "geom \<Rightarrow> timespec \<Rightarrow> byte list \<Rightarrow> nat \<Rightarrow> 'o file_image \<Rightarrow> dev \<Rightarrow> 'o file_image \<times> dev" where
  "CFileImage_SetGid g now junk wGid f d = set_attr g junk (\<lambda>n. n\<lparr>m_wgid := wGid, m_ctime := now\<rparr>) f d"

definition CFileImage_SetUid :: "geom \<Rightarrow> timespec \<Rightarrow> byte list \<Rightarrow> nat \<Rightarrow> 'o file_image \<Rightarrow> dev \<Rightarrow> 'o file_image \<times> dev" where
  "CFileImage_SetUid g now junk wUid f d = set_attr g junk (\<lambda>n. n\<lparr>m_wuid := wUid, m_ctime := now\<rparr>) f d"

definition CFileImage_SetMode :: "geom \<Rightarrow> timespec \<Rightarrow> byte list \<Rightarrow> 32 word \<Rightarrow> 'o file_image \<Rightarrow> dev \<Rightarrow> 'o file_image \<times> dev" where
  "CFileImage_SetMode g now junk dwMode f d = set_attr g junk (\<lambda>n. n\<lparr>m_dwMode := dwMode, m_ctime := now\<rparr>) f d"

text \<open>The two requested times, each a time, \<^verbatim>\<open>UTIME_NOW\<close> or \<^verbatim>\<open>UTIME_OMIT\<close>.\<close>

datatype utime = UtOmit | UtNow | UtTime timespec

definition utime_val :: "timespec \<Rightarrow> utime \<Rightarrow> timespec \<Rightarrow> timespec" where
  "utime_val now tv old = (case tv of UtOmit \<Rightarrow> old | UtNow \<Rightarrow> now | UtTime t \<Rightarrow> t)"

definition CFileImage_SetTimes :: "geom \<Rightarrow> timespec \<Rightarrow> byte list \<Rightarrow> utime \<Rightarrow> utime \<Rightarrow> 'o file_image \<Rightarrow> dev \<Rightarrow> 'o file_image \<times> dev" where
  "CFileImage_SetTimes g now junk tva tvm f d =
    set_attr g junk (\<lambda>n. n\<lparr>m_atime := utime_val now tva (m_atime n), m_mtime := utime_val now tvm (m_mtime n)\<rparr>) f d"

record file_stat =
  st_uid :: nat
  st_gid :: nat
  st_atim :: timespec
  st_mtim :: timespec
  st_ctim :: timespec
  st_mode :: "32 word"
  st_ino :: nat
  st_size :: nat
  st_blksize :: nat
  st_blocks :: nat

definition CFileImage_GetAttr :: "geom \<Rightarrow> 'o file_image \<Rightarrow> gint32 \<times> file_stat option" where
  "CFileImage_GetAttr g f =
    (let n = m_oInodeStore f; fs = m_dwSize n; bs = BS g in
     if m_dwState f = FStopped then (ERROR_STATE, None)
     else (0, Some \<lparr>st_uid = m_wuid n, st_gid = m_wgid n, st_atim = m_atime n, st_mtim = m_mtime n, st_ctim = m_ctime n,
       st_mode = m_dwMode n, st_ino = m_dwInodeIdx f, st_size = fs, st_blksize = bs, st_blocks = ((fs + bs - 1) mod W32) div bs\<rparr>))"

section \<open>Access checks\<close>

abbreviation (input) UID_ADMIN :: nat where "UID_ADMIN \<equiv> 10000"
abbreviation (input) GID_ADMIN :: nat where "GID_ADMIN \<equiv> 80000"
abbreviation (input) GID_DEFAULT :: nat where "GID_DEFAULT \<equiv> 80001"
abbreviation (input) INVALID_UID :: nat where "INVALID_UID \<equiv> 65535"
abbreviation (input) R_OK :: "32 word" where "R_OK \<equiv> 4"
abbreviation (input) W_OK :: "32 word" where "W_OK \<equiv> 2"
abbreviation (input) X_OK :: "32 word" where "X_OK \<equiv> 1"

record access_ctx =
  dwUid :: nat
  dwGid :: nat
  pGids :: "nat list"

definition ac_IsInitialized :: "access_ctx \<Rightarrow> bool" where
  "ac_IsInitialized pac \<longleftrightarrow> dwUid pac \<noteq> INVALID_UID"

definition ac_IsMemberOf :: "nat \<Rightarrow> access_ctx \<Rightarrow> bool" where
  "ac_IsMemberOf gid pac \<longleftrightarrow> dwGid pac = gid \<or> gid \<in> set (pGids pac)"

text \<open>\<open>euid\<close> and \<open>egid\<close> are the ids of the process, used when there is no initialized context.\<close>

definition cur_ids :: "nat \<Rightarrow> nat \<Rightarrow> access_ctx option \<Rightarrow> inode \<Rightarrow> nat \<times> nat" where
  "cur_ids euid egid pac n =
    (case pac of
       None \<Rightarrow> (euid, egid)
     | Some ac \<Rightarrow>
         if \<not> ac_IsInitialized ac then (euid, egid)
         else (dwUid ac, if ac_IsMemberOf (m_wgid n) ac then m_wgid n else GID_DEFAULT))"

definition CheckAccess :: "nat \<Rightarrow> nat \<Rightarrow> 32 word \<Rightarrow> access_ctx option \<Rightarrow> 'o file_image \<Rightarrow> gint32" where
  "CheckAccess euid egid dwReq pac f =
    (let n = m_oInodeStore f; dwMode = m_dwMode n; (dwCurUid, dwCurGid) = cur_ids euid egid pac n;
         (dwReadFlag, dwWriteFlag, dwExeFlag) =
           (if dwCurUid = m_wuid n \<or> dwCurUid = UID_ADMIN then (0x100, 0x80, 0x40 :: 32 word)
            else if dwCurGid = m_wgid n \<or> dwCurGid = GID_ADMIN then (0x20, 0x10, 0x8)
            else (0x4, 0x2, 0x1)) in
     if dwMode AND dwWriteFlag = 0 \<and> dwReq AND W_OK \<noteq> 0 then - 13
     else if dwMode AND dwReadFlag = 0 \<and> dwReq AND R_OK \<noteq> 0 then - 13
     else if dwMode AND dwExeFlag = 0 \<and> dwReq AND X_OK \<noteq> 0 then - 13
     else 0)"

section \<open>Opening\<close>

text \<open>
  \<^verbatim>\<open>COpenFileEntry::Open\<close>. The access mode is masked out of the flags before they are compared, and the second and third comparison are
  assignments: what remains is a check for reading when no other flag is set, and for writing otherwise.
\<close>

definition COpenFileEntry_Open :: "nat \<Rightarrow> nat \<Rightarrow> 32 word \<Rightarrow> access_ctx option \<Rightarrow> 'o file_image
    \<Rightarrow> gint32 \<times> 'o file_image \<times> access_ctx option" where
  "COpenFileEntry_Open euid egid dwFlags pac f =
    (if m_dwState f = FStopped \<or> m_dwState f = FStopping then (- ENOENT, f, None)
     else
       let ret = (case pac of
           None \<Rightarrow> 0
         | Some ac \<Rightarrow>
             let dwFlags = dwFlags AND NOT 3; dwReq = (if dwFlags = 0 then R_OK else W_OK) in
             CheckAccess euid egid dwReq (Some ac) f) in
       if ERROR ret then (ret, f, None)
       else (ret, f\<lparr>m_dwOpenCount := (m_dwOpenCount f + 1) mod W32\<rparr>, pac))"

text \<open>The check that \<^verbatim>\<open>Truncate\<close>, \<^verbatim>\<open>ReadFile\<close> and \<^verbatim>\<open>WriteFile\<close> of an open file make first.\<close>

definition open_check :: "nat \<Rightarrow> nat \<Rightarrow> 32 word \<Rightarrow> access_ctx option \<Rightarrow> 'o file_image \<Rightarrow> gint32" where
  "open_check euid egid dwReq oUserAc f =
    (case oUserAc of
       None \<Rightarrow> 0
     | Some ac \<Rightarrow>
         if \<not> ac_IsInitialized ac then 0
         else if m_dwState f = FStopped then ERROR_STATE
         else CheckAccess euid egid dwReq (Some ac) f)"

section \<open>What the operations guarantee\<close>

lemma and_bit_iff:
  fixes w :: "32 word"
  shows "w AND 1 = 0 \<longleftrightarrow> \<not> bit w 0" "w AND 2 = 0 \<longleftrightarrow> \<not> bit w 1" "w AND 4 = 0 \<longleftrightarrow> \<not> bit w 2" "w AND 8 = 0 \<longleftrightarrow> \<not> bit w 3"
    "w AND 0x10 = 0 \<longleftrightarrow> \<not> bit w 4" "w AND 0x20 = 0 \<longleftrightarrow> \<not> bit w 5" "w AND 0x40 = 0 \<longleftrightarrow> \<not> bit w 6" "w AND 0x80 = 0 \<longleftrightarrow> \<not> bit w 7"
    "w AND 0x100 = 0 \<longleftrightarrow> \<not> bit w 8"
  using and_exp_eq_0_iff_not_bit[of w 0] and_exp_eq_0_iff_not_bit[of w 1] and_exp_eq_0_iff_not_bit[of w 2]
    and_exp_eq_0_iff_not_bit[of w 3] and_exp_eq_0_iff_not_bit[of w 4] and_exp_eq_0_iff_not_bit[of w 5]
    and_exp_eq_0_iff_not_bit[of w 6] and_exp_eq_0_iff_not_bit[of w 7] and_exp_eq_0_iff_not_bit[of w 8] by simp_all

text \<open>The class of a caller, as the position of its three permission bits in the mode.\<close>

definition perm_class :: "nat \<Rightarrow> nat \<Rightarrow> access_ctx option \<Rightarrow> inode \<Rightarrow> nat" where
  "perm_class euid egid pac n =
    (let (uid, gid) = cur_ids euid egid pac n in
     if uid = m_wuid n \<or> uid = UID_ADMIN then 6 else if gid = m_wgid n \<or> gid = GID_ADMIN then 3 else 0)"

lemma all_less_three: "(\<forall>i<3. P i) \<longleftrightarrow> P 0 \<and> P 1 \<and> P (2 :: nat)"
  by (auto simp: less_Suc_eq numeral_3_eq_3 numeral_2_eq_2)

text \<open>C12. Access follows the permission bits of one class: \<open>CheckAccess\<close> grants a request exactly when every requested bit is set among the
  three bits of the caller's class (owner, group, others, where the administrators count as owner and group), and
  otherwise answers \<^verbatim>\<open>-EACCES\<close>; an administrator gets no more than the owner.\<close>

theorem check_access_posix:
  "CheckAccess euid egid dwReq pac f =
    (if \<forall>i<3. bit dwReq i \<longrightarrow> bit (m_dwMode (m_oInodeStore f)) (i + perm_class euid egid pac (m_oInodeStore f)) then 0 else - 13)"
proof -
  obtain uid gid where ids: "cur_ids euid egid pac (m_oInodeStore f) = (uid, gid)" by fastforce
  let ?n = "m_oInodeStore f"
  consider "uid = m_wuid ?n \<or> uid = UID_ADMIN" | "\<not> (uid = m_wuid ?n \<or> uid = UID_ADMIN)" "gid = m_wgid ?n \<or> gid = GID_ADMIN"
    | "\<not> (uid = m_wuid ?n \<or> uid = UID_ADMIN)" "\<not> (gid = m_wgid ?n \<or> gid = GID_ADMIN)" by blast
  thus ?thesis
    by cases (simp_all add: CheckAccess_def perm_class_def ids all_less_three and_bit_iff Let_def del: bit_0)
qed

definition sample_image :: "nat file_image" where
  "sample_image = \<lparr>m_dwInodeIdx = 1, m_oInodeStore = \<lparr>m_dwSize = 0, m_mtime = (0, 0), m_atime = (0, 0), m_ctime = (0, 0),
     m_dwMode = 0x81B0, m_wuid = 1000, m_wgid = 100, m_dwFlags = 0, m_arrBlocks = replicate 15 0, m_arrMetaFork = replicate 4 0,
     m_iValType = 0, m_dwRootBNode = 65535\<rparr>, m_oValue = VarNone, m_pBitBlk = None, m_pBitdBlk = None, m_mapSecBitBlks = [],
     m_dwOpenCount = 0, m_dwState = FStarted\<rparr>"

theorem check_access_posix_witness:
  "CheckAccess 0 0 R_OK (Some \<lparr>dwUid = 7, dwGid = 100, pGids = []\<rparr>) sample_image = 0 \<and>
    CheckAccess 0 0 R_OK (Some \<lparr>dwUid = 7, dwGid = 5, pGids = []\<rparr>) sample_image = - 13"
  unfolding check_access_posix
  by (simp add: perm_class_def cur_ids_def ac_IsInitialized_def ac_IsMemberOf_def sample_image_def all_less_three bit_numeral_rec)

section \<open>The inode on the device\<close>

lemma put_at_0: "put_at 0 bs buf = bs @ drop (length bs) buf"
  by (simp add: put_at_def)

lemma rd_words_bytes:
  assumes "\<forall>w\<in>set ws. w < W32" "length pre = off"
  shows "rd_words off (length ws) (pre @ words_bytes ws @ post) = ws"
proof (rule nth_equalityI)
  show "length (rd_words off (length ws) (pre @ words_bytes ws @ post)) = length ws" by (simp add: rd_words_def)
next
  fix i assume "i < length (rd_words off (length ws) (pre @ words_bytes ws @ post))"
  hence i: "i < length ws" by (simp add: rd_words_def)
  have len: "length (words_bytes xs) = 4 * length xs" for xs by (induction xs) (simp_all add: words_bytes_def)
  have "words_bytes ws = words_bytes (take i ws) @ be_bytes 4 (ws ! i) @ words_bytes (drop (Suc i) ws)"
    using i unfolding words_bytes_def by (subst id_take_nth_drop[OF i]) simp
  hence "take 4 (drop (off + 4 * i) (pre @ words_bytes ws @ post)) = be_bytes 4 (ws ! i)"
    using i assms(2) by (simp add: len)
  thus "rd_words off (length ws) (pre @ words_bytes ws @ post) ! i = ws ! i"
    using i assms(1) by (simp add: rd_words_def rd32_def be_nat_bytes)
qed

end
