(* ===== verification/FileData.thy ===== *)
theory FileData
  imports FileInode "HOL-Library.AList"
begin

text \<open>
  The data of a file (\<^verbatim>\<open>monitor/registry/file.cpp\<close>): the map from the blocks of a file to blocks of the image (thirteen direct
  entries in the inode, a table of indirect entries, and a directory of such tables), reading, writing, truncating, and closing.

  A table that was allocated but could not be read has unspecified content; it is the empty list here, and looking into it is \<open>Fault_Range\<close>.
  \<open>safe\<close> is \<^verbatim>\<open>IsSafeMode()\<close>; \<open>junk\<close> is the memory of the buffer in which the inode is serialized.
\<close>

section \<open>Blocks for reading\<close>

abbreviation arrBlks :: "'o file_image \<Rightarrow> nat list" where
  "arrBlks f \<equiv> m_arrBlocks (m_oInodeStore f)"

abbreviation GetSize :: "'o file_image \<Rightarrow> nat" where
  "GetSize f \<equiv> m_dwSize (m_oInodeStore f)"

definition SetSize :: "nat \<Rightarrow> 'o file_image \<Rightarrow> 'o file_image" where
  "SetSize n f = f\<lparr>m_oInodeStore := (m_oInodeStore f)\<lparr>m_dwSize := n\<rparr>\<rparr>"

definition set_blk :: "nat \<Rightarrow> nat \<Rightarrow> 'o file_image \<Rightarrow> 'o file_image" where
  "set_blk i b f = f\<lparr>m_oInodeStore := (m_oInodeStore f)\<lparr>m_arrBlocks := (arrBlks f)[i := b]\<rparr>\<rparr>"

definition as_hole :: "nat \<Rightarrow> nat" where
  "as_hole b = (if b = 0 then INVALID_BLOCK_IDX else b)"

definition tab_get :: "table \<Rightarrow> nat \<Rightarrow> nat run" where
  "tab_get t i = (if i < length t then Inr (t ! i) else Inl Fault_Range)"

definition map_insert_new :: "nat \<Rightarrow> table \<Rightarrow> (nat \<times> table) list \<Rightarrow> (nat \<times> table) list" where
  "map_insert_new k t m = (if map_of m k = None then (k, t) # m else m)"

text \<open>One round of the loop of \<^verbatim>\<open>CollectBlocksForRead\<close>: the status, the entry it pushes, and the file with the tables it loaded. A status
  is only compared with 0, so the number of bytes of a table that was read is 0 here.\<close>

definition read_step :: "geom \<Rightarrow> nat \<Rightarrow> nat \<Rightarrow> 'o file_image \<Rightarrow> dev \<Rightarrow> (gint32 \<times> nat list \<times> 'o file_image) run" where
  "read_step g dwIndirectIdx i f d =
    (let dwCurPos = (i * BS g) mod W32 in
     if WITHIN_DIRECT_BLOCK g dwCurPos then Inr (0, [as_hole (arrBlks f ! i)], f)
     else if WITHIN_INDIRECT_BLOCK g dwCurPos then
       (if dwIndirectIdx = 0 then Inr (0, [INVALID_BLOCK_IDX], f)
        else
          let (ret, f) = (if m_pBitBlk f = None then
              let (ret, b) = dev_ReadBlock g dwIndirectIdx d in
              (ret, f\<lparr>m_pBitBlk := Some (if ERROR ret then [] else table_of b)\<rparr>)
            else (0, f)) in
          if ERROR ret then Inr (ret, [], f)
          else case tab_get (the (m_pBitBlk f)) (INDIRECT_BLK_IDX g dwCurPos) of
            Inl x \<Rightarrow> Inl x
          | Inr b \<Rightarrow> Inr (0, [as_hole b], f))
     else if WITHIN_SEC_INDIRECT_BLOCK g dwCurPos then
       (case m_pBitdBlk f of
          None \<Rightarrow> Inl Fault_Null
        | Some p \<Rightarrow>
            let dwBitIdx = SEC_BIT_IDX g dwCurPos; dwIdx2 = SEC_BLKIDX_IDX g dwCurPos in
            (case tab_get p dwBitIdx of
               Inl x \<Rightarrow> Inl x
             | Inr dwBlkIdxIdx \<Rightarrow>
                 if dwBlkIdxIdx = 0 then Inr (0, [INVALID_BLOCK_IDX], f)
                 else case map_of (m_mapSecBitBlks f) dwBitIdx of
                   Some t \<Rightarrow> map_sum id (\<lambda>b. (0, [as_hole b], f)) (tab_get t dwIdx2)
                 | None \<Rightarrow>
                     let (ret, b) = dev_ReadBlock g dwBlkIdxIdx d in
                     if ERROR ret then Inr (ret, [], f)
                     else map_sum id (\<lambda>x. (0, [as_hole x],
                       f\<lparr>m_mapSecBitBlks := map_insert_new dwBitIdx (table_of b) (m_mapSecBitBlks f)\<rparr>))
                       (tab_get (table_of b) dwIdx2)))
     else Inr (- ERANGE, [], f))"

primrec collect_read :: "geom \<Rightarrow> nat \<Rightarrow> nat list \<Rightarrow> 'o file_image \<Rightarrow> dev \<Rightarrow> (gint32 \<times> nat list \<times> 'o file_image) run" where
  "collect_read g dwIndirectIdx [] f d = Inr (0, [], f)"
| "collect_read g dwIndirectIdx (i # is) f d =
    (case read_step g dwIndirectIdx i f d of
       Inl x \<Rightarrow> Inl x
     | Inr (ret, v, f) \<Rightarrow>
         if ERROR ret then Inr (ret, v, f)
         else map_sum id (\<lambda>(ret, vs, f). (ret, v @ vs, f)) (collect_read g dwIndirectIdx is f d))"

text \<open>The blocks that a range of bytes touches; the range is cut at the limit, with sums in \<^verbatim>\<open>guint32\<close>.\<close>

definition range_blocks :: "geom \<Rightarrow> nat \<Rightarrow> nat \<Rightarrow> nat list" where
  "range_blocks g dwOff dwSize =
    (let dwSize = (if BEYOND_MAX_LIMIT g ((dwSize + dwOff) mod W32) then MAX_FILE_SIZE g - dwOff else dwSize) in
     [dwOff div BS g..<((dwOff + dwSize + (BS g - 1)) mod W32) div BS g])"

definition CollectBlocksForRead :: "geom \<Rightarrow> nat \<Rightarrow> nat \<Rightarrow> 'o file_image \<Rightarrow> dev
    \<Rightarrow> (gint32 \<times> nat list \<times> 'o file_image) run" where
  "CollectBlocksForRead g dwOff dwSize f d =
    (if BEYOND_MAX_LIMIT g dwOff \<or> dwSize = 0 then Inr (- EINVAL, [], f)
     else collect_read g (arrBlks f ! BIT_IDX) (range_blocks g dwOff dwSize) f d)"

section \<open>Reading\<close>

text \<open>
  The four cases of \<^verbatim>\<open>ReadFile\<close> for a range that starts or ends inside a block. The result has the status and the bytes that reach the
  caller's buffer; a copy out of the buffer of one block beyond its end is \<open>Fault_Range\<close>.
\<close>

definition read_data :: "geom \<Rightarrow> nat \<Rightarrow> nat \<Rightarrow> nat list \<Rightarrow> dev \<Rightarrow> (gint32 \<times> byte list) run" where
  "read_data g dwOff dwSize vecBlks d =
    (let dwHead = dwOff mod BS g; dwTail = ((dwOff + dwSize) mod W32) mod BS g; dwBlocks = length vecBlks in
     if dwHead = 0 \<and> dwTail = 0 then Inr (dev_ReadBlocks g vecBlks d)
     else if vecBlks = [] then Inl Fault_Empty
     else if dwHead = 0 then
       (let (ret, pre) = (if dwBlocks > 1 then dev_ReadBlocks g (butlast vecBlks) d else (0, [])) in
        if ERROR ret then Inr (ret, [])
        else let (ret, arrBytes) = dev_ReadBlock g (last vecBlks) d in
          if ERROR ret then Inr (ret, pre) else Inr (ret, pre @ take dwTail arrBytes))
     else
       (let (ret, arrBytes) = dev_ReadBlock g (hd vecBlks) d in
        if ERROR ret then Inr (ret, [])
        else if dwTail = 0 then
          if dwBlocks = 1 then Inr (ret, drop dwHead arrBytes)
          else let (ret, rest) = dev_ReadBlocks g (tl vecBlks) d in Inr (ret, drop dwHead arrBytes @ rest)
        else if dwBlocks = 1 then
          if dwHead + dwSize > BS g then Inl Fault_Range else Inr (ret, take dwSize (drop dwHead arrBytes))
        else
          let (ret, mid) = (if dwBlocks > 2 then dev_ReadBlocks g (butlast (tl vecBlks)) d else (0, [])) in
          if ERROR ret then Inr (ret, drop dwHead arrBytes)
          else let (ret, lst) = dev_ReadBlock g (last vecBlks) d in
            if ERROR ret then Inr (ret, drop dwHead arrBytes @ mid)
            else Inr (ret, drop dwHead arrBytes @ mid @ take dwTail lst)))"

text \<open>The status, the number of bytes, the bytes and the file; \<open>now\<close> is the time of access, not noted for a read
  that starts inside a block and ends in it.\<close>

definition CFileImage_ReadFile :: "geom \<Rightarrow> timespec \<Rightarrow> nat \<Rightarrow> nat \<Rightarrow> 'o file_image \<Rightarrow> dev
    \<Rightarrow> (gint32 \<times> nat \<times> byte list \<times> 'o file_image) run" where
  "CFileImage_ReadFile g now dwOff dwSize f d =
    (if BEYOND_MAX_LIMIT g dwOff then Inr (- ERANGE, dwSize, [], f)
     else if m_dwState f = FStopped then Inr (ERROR_STATE, dwSize, [], f)
     else if dwOff \<ge> GetSize f then Inr (0, 0, [], f)
     else
       let dwSize = (if (dwOff + dwSize) mod W32 > GetSize f then GetSize f - dwOff else dwSize) in
       case CollectBlocksForRead g dwOff dwSize f d of
         Inl x \<Rightarrow> Inl x
       | Inr (ret, vecBlks, f) \<Rightarrow>
           if ERROR ret then Inr (ret, dwSize, [], f)
           else map_sum id (\<lambda>(ret, bytes). (ret, dwSize, bytes,
               if ERROR ret \<or> dwOff mod BS g \<noteq> 0 \<and> length vecBlks = 1 then f else touch_atime now f))
             (read_data g dwOff dwSize vecBlks d))"

section \<open>Blocks for writing\<close>

text \<open>The variables of \<^verbatim>\<open>CollectBlocksForWrite\<close>: the file and the allocator, the two table indices read before the loop, the
  tables to flush in safe mode (\<^verbatim>\<open>mapDirtyBlks2\<close>, by the block of the table) and the blocks found so far.\<close>

record 'o wstate =
  w_f :: "'o file_image"
  w_d :: dev
  dwIndirectIdx :: nat
  dw2IndIdx :: nat
  mapDirtyBlks2 :: "(nat \<times> nat) list"
  bDirtyInode :: bool
  bDirtyBitd :: bool
  bDirtyBit :: bool
  w_vec :: "nat list"

definition zero_table :: "geom \<Rightarrow> table" where
  "zero_table g = replicate (BLKIDX_PER_TABLE g) 0"

definition upd_f :: "('o file_image \<Rightarrow> 'o file_image) \<Rightarrow> 'o wstate \<Rightarrow> 'o wstate" where
  "upd_f h w = w\<lparr>w_f := h (w_f w)\<rparr>"

definition push :: "nat \<Rightarrow> 'o wstate \<Rightarrow> 'o wstate" where
  "push b w = w\<lparr>w_vec := w_vec w @ [b]\<rparr>"

text \<open>Allocation of one block: the status, the block and the state behind it.\<close>

definition w_alloc :: "'o wstate \<Rightarrow> gint32 \<times> nat \<times> 'o wstate" where
  "w_alloc w = (let (ret, b, d) = dev_Alloc (w_d w) in (ret, b, w\<lparr>w_d := d\<rparr>))"

definition write_direct :: "bool \<Rightarrow> nat \<Rightarrow> 'o wstate \<Rightarrow> (gint32 \<times> 'o wstate) run" where
  "write_direct safe i w =
    (let b = arrBlks (w_f w) ! i in
     if b \<noteq> 0 then Inr (0, push b (w\<lparr>bDirtyInode := bDirtyInode w \<or> safe\<rparr>))
     else let (ret, b, w) = w_alloc w in
       if ERROR ret then Inr (ret, w)
       else Inr (0, push b (upd_f (set_blk i b) (w\<lparr>bDirtyInode := bDirtyInode w \<or> safe\<rparr>))))"

text \<open>The table of indirect entries: made when the inode has none, loaded when it is not in memory.\<close>

definition get_bit :: "geom \<Rightarrow> bool \<Rightarrow> 'o wstate \<Rightarrow> gint32 \<times> 'o wstate" where
  "get_bit g safe w =
    (if dwIndirectIdx w = 0 then
       let (ret, b, w) = w_alloc w in
       if ERROR ret then (ret, w)
       else (0, upd_f (\<lambda>f. set_blk BIT_IDX b (f\<lparr>m_pBitBlk := Some (zero_table g)\<rparr>))
              (w\<lparr>dwIndirectIdx := b, bDirtyInode := bDirtyInode w \<or> safe\<rparr>))
     else if m_pBitBlk (w_f w) = None then
       let (ret, b) = dev_ReadBlock g (dwIndirectIdx w) (w_d w) in
       (if ERROR ret then ret else 0,
        upd_f (\<lambda>f. f\<lparr>m_pBitBlk := Some (if ERROR ret then [] else table_of b)\<rparr>) w)
     else (0, w))"

definition write_indirect :: "geom \<Rightarrow> bool \<Rightarrow> nat \<Rightarrow> 'o wstate \<Rightarrow> (gint32 \<times> 'o wstate) run" where
  "write_indirect g safe j w =
    (let (ret, w) = get_bit g safe w in
     if ERROR ret then Inr (ret, w)
     else let pbis = the (m_pBitBlk (w_f w)) in
       (case tab_get pbis j of
          Inl x \<Rightarrow> Inl x
        | Inr b \<Rightarrow>
            if b \<noteq> 0 then Inr (0, push b w)
            else let (ret, b, w) = w_alloc w in
              if ERROR ret then Inr (ret, w)
              else Inr (0, push b (upd_f (\<lambda>f. f\<lparr>m_pBitBlk := Some (pbis[j := b])\<rparr>)
                     (w\<lparr>bDirtyBit := bDirtyBit w \<or> safe\<rparr>)))))"

text \<open>The directory of tables.\<close>

definition get_bitd :: "geom \<Rightarrow> bool \<Rightarrow> 'o wstate \<Rightarrow> gint32 \<times> 'o wstate" where
  "get_bitd g safe w =
    (if dw2IndIdx w = 0 then
       let (ret, b, w) = w_alloc w in
       if ERROR ret then (ret, w)
       else (0, upd_f (\<lambda>f. set_blk BITD_IDX b (f\<lparr>m_pBitdBlk := Some (zero_table g)\<rparr>))
              (w\<lparr>dw2IndIdx := b, bDirtyInode := bDirtyInode w \<or> safe\<rparr>))
     else (0, w))"

text \<open>The block of the table \<open>dwBitIdx\<close>: a new table is written as zeros at once.\<close>

definition get_sec :: "geom \<Rightarrow> bool \<Rightarrow> nat \<Rightarrow> table \<Rightarrow> nat \<Rightarrow> 'o wstate \<Rightarrow> gint32 \<times> nat \<times> 'o wstate" where
  "get_sec g safe dwBitIdx p dwBitBlkIdx w =
    (if dwBitBlkIdx \<noteq> 0 then (0, dwBitBlkIdx, w)
     else let (ret, b, w) = w_alloc w in
       if ERROR ret then (ret, 0, w)
       else let (ret, d) = dev_WriteBlock g b (words_bytes (zero_table g)) (w_d w); w = w\<lparr>w_d := d\<rparr> in
         if ERROR ret then (ret, b, w)
         else (0, b, upd_f (\<lambda>f. f\<lparr>m_pBitdBlk := Some (p[dwBitIdx := b]),
                m_mapSecBitBlks := map_insert_new dwBitIdx (zero_table g) (m_mapSecBitBlks f)\<rparr>)
                (w\<lparr>bDirtyBitd := bDirtyBitd w \<or> safe\<rparr>)))"

definition mark_dirty :: "bool \<Rightarrow> nat \<Rightarrow> nat \<Rightarrow> 'o wstate \<Rightarrow> 'o wstate" where
  "mark_dirty safe b dwBitIdx w =
    (if safe \<and> map_of (mapDirtyBlks2 w) b = None then w\<lparr>mapDirtyBlks2 := insort_key fst (b, dwBitIdx) (mapDirtyBlks2 w)\<rparr> else w)"

text \<open>The entry \<open>dwIdx2\<close> of a table that is in memory, and of one that is read now.\<close>

definition write_cached :: "bool \<Rightarrow> nat \<Rightarrow> nat \<Rightarrow> nat \<Rightarrow> table \<Rightarrow> 'o wstate \<Rightarrow> (gint32 \<times> 'o wstate) run" where
  "write_cached safe dwBitIdx dwBitBlkIdx dwIdx2 pblk w =
    (case tab_get pblk dwIdx2 of
       Inl x \<Rightarrow> Inl x
     | Inr b \<Rightarrow>
         if b \<noteq> 0 then Inr (0, push b w)
         else let (ret, b, w) = w_alloc w in
           if ERROR ret then Inr (ret, w)
           else Inr (0, mark_dirty safe dwBitBlkIdx dwBitIdx (push b
                  (upd_f (\<lambda>f. f\<lparr>m_mapSecBitBlks := AList.update dwBitIdx (pblk[dwIdx2 := b]) (m_mapSecBitBlks f)\<rparr>)
                    (w\<lparr>bDirtyBitd := bDirtyBitd w \<or> safe\<rparr>)))))"

definition write_loaded :: "geom \<Rightarrow> bool \<Rightarrow> nat \<Rightarrow> nat \<Rightarrow> nat \<Rightarrow> 'o wstate \<Rightarrow> (gint32 \<times> 'o wstate) run" where
  "write_loaded g safe dwBitIdx dwBitBlkIdx dwIdx2 w =
    (let (ret, blk) = dev_ReadBlock g dwBitBlkIdx (w_d w) in
     if ERROR ret then Inr (ret, w)
     else (case tab_get (table_of blk) dwIdx2 of
       Inl x \<Rightarrow> Inl x
     | Inr b \<Rightarrow>
         if b \<noteq> 0 then
           Inr (0, push b (upd_f (\<lambda>f. f\<lparr>m_mapSecBitBlks := map_insert_new dwBitIdx (table_of blk) (m_mapSecBitBlks f)\<rparr>) w))
         else let (ret, b, w) = w_alloc w in
           if ERROR ret then Inr (ret, w)
           else Inr (0, push b (upd_f (\<lambda>f. f\<lparr>m_mapSecBitBlks :=
                    map_insert_new dwBitIdx ((table_of blk)[dwIdx2 := b]) (m_mapSecBitBlks f)\<rparr>)
                  (mark_dirty safe dwBitBlkIdx dwBitIdx w)))))"

definition write_second :: "geom \<Rightarrow> bool \<Rightarrow> nat \<Rightarrow> nat \<Rightarrow> 'o wstate \<Rightarrow> (gint32 \<times> 'o wstate) run" where
  "write_second g safe dwBitIdx dwIdx2 w =
    (let (ret, w) = get_bitd g safe w in
     if ERROR ret then Inr (ret, w)
     else (case m_pBitdBlk (w_f w) of
       None \<Rightarrow> Inl Fault_Null
     | Some p \<Rightarrow>
         (case tab_get p dwBitIdx of
            Inl x \<Rightarrow> Inl x
          | Inr dwBitBlkIdx \<Rightarrow>
              (let (ret, dwBitBlkIdx, w) = get_sec g safe dwBitIdx p dwBitBlkIdx w in
               if ERROR ret then Inr (ret, w)
               else (case map_of (m_mapSecBitBlks (w_f w)) dwBitIdx of
                 Some pblk \<Rightarrow> write_cached safe dwBitIdx dwBitBlkIdx dwIdx2 pblk w
               | None \<Rightarrow> write_loaded g safe dwBitIdx dwBitBlkIdx dwIdx2 w)))))"

definition write_step :: "geom \<Rightarrow> bool \<Rightarrow> nat \<Rightarrow> 'o wstate \<Rightarrow> (gint32 \<times> 'o wstate) run" where
  "write_step g safe i w =
    (let dwCurPos = (i * BS g) mod W32 in
     if WITHIN_DIRECT_BLOCK g dwCurPos then write_direct safe i w
     else if WITHIN_INDIRECT_BLOCK g dwCurPos then write_indirect g safe (INDIRECT_BLK_IDX g dwCurPos) w
     else if WITHIN_SEC_INDIRECT_BLOCK g dwCurPos
     then write_second g safe (SEC_BIT_IDX g dwCurPos) (SEC_BLKIDX_IDX g dwCurPos) w
     else Inr (- ERANGE, w))"

primrec collect_write :: "geom \<Rightarrow> bool \<Rightarrow> nat list \<Rightarrow> 'o wstate \<Rightarrow> (gint32 \<times> 'o wstate) run" where
  "collect_write g safe [] w = Inr (0, w)"
| "collect_write g safe (i # is) w =
    (case write_step g safe i w of
       Inl x \<Rightarrow> Inl x
     | Inr (ret, w) \<Rightarrow> if ERROR ret then Inr (ret, w) else collect_write g safe is w)"

text \<open>
  In safe mode the dirty tables and the inode are written whether or not the loop failed, and the statuses of
  these writes replace the one of the loop.
\<close>

primrec flush_tables :: "geom \<Rightarrow> (nat \<times> nat) list \<Rightarrow> (nat \<times> table) list \<Rightarrow> gint32 \<Rightarrow> dev \<Rightarrow> gint32 \<times> dev" where
  "flush_tables g [] m ret d = (ret, d)"
| "flush_tables g (x # xs) m ret d =
    (case map_of m (snd x) of
       None \<Rightarrow> (ERROR_FAIL, d)
     | Some t \<Rightarrow>
         let (ret, d) = dev_WriteBlock g (fst x) (words_bytes t) d in
         if ERROR ret then (ret, d) else flush_tables g xs m ret d)"

definition flush_opt :: "geom \<Rightarrow> bool \<Rightarrow> nat \<Rightarrow> table option \<Rightarrow> gint32 \<Rightarrow> dev \<Rightarrow> (bool \<times> gint32 \<times> dev) run" where
  "flush_opt g dirty b t ret d =
    (if \<not> dirty then Inr (False, ret, d)
     else case t of
       None \<Rightarrow> Inl Fault_Null
     | Some t \<Rightarrow> let (ret, d) = dev_WriteBlock g b (words_bytes t) d in Inr (ERROR ret, ret, d))"

definition safe_flush :: "geom \<Rightarrow> byte list \<Rightarrow> gint32 \<Rightarrow> 'o wstate \<Rightarrow> (gint32 \<times> dev) run" where
  "safe_flush g junk ret w =
    (let f = w_f w; (ret, d) = flush_tables g (mapDirtyBlks2 w) (m_mapSecBitBlks f) ret (w_d w) in
     case flush_opt g (bDirtyBitd w) (dw2IndIdx w) (m_pBitdBlk f) ret d of
       Inl x \<Rightarrow> Inl x
     | Inr (stop, ret, d) \<Rightarrow>
         if stop then Inr (ret, d)
         else case flush_opt g (bDirtyBit w) (dwIndirectIdx w) (m_pBitBlk f) ret d of
           Inl x \<Rightarrow> Inl x
         | Inr (stop, ret, d) \<Rightarrow>
             if stop \<or> \<not> bDirtyInode w then Inr (ret, d) else Inr (FlushInode g junk f d))"

definition CollectBlocksForWrite :: "geom \<Rightarrow> bool \<Rightarrow> byte list \<Rightarrow> nat \<Rightarrow> nat \<Rightarrow> 'o file_image \<Rightarrow> dev
    \<Rightarrow> (gint32 \<times> nat list \<times> 'o file_image \<times> dev) run" where
  "CollectBlocksForWrite g safe junk dwOff dwSize f d =
    (if BEYOND_MAX_LIMIT g dwOff \<or> dwSize = 0 then Inr (- EINVAL, [], f, d)
     else case collect_write g safe (range_blocks g dwOff dwSize)
         \<lparr>w_f = f, w_d = d, dwIndirectIdx = arrBlks f ! BIT_IDX, dw2IndIdx = arrBlks f ! BITD_IDX, mapDirtyBlks2 = [],
          bDirtyInode = False, bDirtyBitd = False, bDirtyBit = False, w_vec = []\<rparr> of
       Inl x \<Rightarrow> Inl x
     | Inr (ret, w) \<Rightarrow>
         if safe then map_sum id (\<lambda>(ret, d). (ret, w_vec w, w_f w, d)) (safe_flush g junk ret w)
         else Inr (ret, w_vec w, w_f w, w_d w))"

section \<open>Writing\<close>

text \<open>
  The four cases of \<^verbatim>\<open>WriteFileNoLock\<close>: a block that is written in part is read first. The status of writing the first block is
  looked at only when nothing is written behind it. A copy beyond the buffer of one block is \<open>Fault_Range\<close>.
\<close>

definition write_last :: "geom \<Rightarrow> nat list \<Rightarrow> byte list \<Rightarrow> dev \<Rightarrow> gint32 \<times> dev" where
  "write_last g vecBlks bs d =
    (let (ret, arrBytes) = dev_ReadBlock g (last vecBlks) d in
     if ERROR ret then (ret, d) else dev_WriteBlock g (last vecBlks) (put_at 0 bs arrBytes) d)"

definition write_data :: "geom \<Rightarrow> nat \<Rightarrow> nat \<Rightarrow> byte list \<Rightarrow> nat list \<Rightarrow> dev \<Rightarrow> (gint32 \<times> dev) run" where
  "write_data g dwOff dwSize pBuf vecBlks d =
    (let dwHead = dwOff mod BS g; dwTail = ((dwOff + dwSize) mod W32) mod BS g; dwBlocks = length vecBlks in
     if dwHead = 0 \<and> dwTail = 0 then Inr (dev_WriteBlocks g vecBlks pBuf d)
     else if vecBlks = [] then Inl Fault_Empty
     else if dwHead = 0 then
       (let (ret, d) = (if dwBlocks > 1 then dev_WriteBlocks g (butlast vecBlks) pBuf d else (0, d)) in
        if ERROR ret then Inr (ret, d)
        else Inr (write_last g vecBlks (take dwTail (drop (BS g * (dwBlocks - 1)) pBuf)) d))
     else
       (let (ret, arrBytes) = dev_ReadBlock g (hd vecBlks) d in
        if ERROR ret then Inr (ret, d)
        else if dwTail = 0 then
          (let (ret, d) = dev_WriteBlock g (hd vecBlks) (put_at dwHead (take (BS g - dwHead) pBuf) arrBytes) d in
           Inr (if dwBlocks > 1 then dev_WriteBlocks g (tl vecBlks) (drop (BS g - dwHead) pBuf) d else (ret, d)))
        else if dwBlocks = 1 then
          (if dwHead + dwSize > BS g then Inl Fault_Range
           else Inr (dev_WriteBlock g (hd vecBlks) (put_at dwHead (take dwSize pBuf) arrBytes) d))
        else
          (let (ret, d) = dev_WriteBlock g (hd vecBlks) (put_at dwHead (take (BS g - dwHead) pBuf) arrBytes) d;
               pCur = drop (BS g - dwHead) pBuf;
               (ret, d) = (if dwBlocks > 2 then dev_WriteBlocks g (butlast (tl vecBlks)) pCur d else (0, d)) in
           if ERROR ret then Inr (ret, d)
           else Inr (write_last g vecBlks (take dwTail (drop ((dwBlocks - 2) * BS g) pCur)) d))))"

text \<open>The status, the number of bytes, the file and the device; a size is limited to what the largest file can hold.\<close>

definition CFileImage_WriteFileNoLock :: "geom \<Rightarrow> bool \<Rightarrow> byte list \<Rightarrow> nat \<Rightarrow> nat \<Rightarrow> byte list \<Rightarrow> 'o file_image \<Rightarrow> dev
    \<Rightarrow> (gint32 \<times> nat \<times> 'o file_image \<times> dev) run" where
  "CFileImage_WriteFileNoLock g safe junk dwOff dwSize pBuf f d =
    (if BEYOND_MAX_LIMIT g dwOff then Inr (- EFBIG, dwSize, f, d)
     else
       let dwSize = (if BEYOND_MAX_LIMIT g ((dwOff + dwSize) mod W32) then MAX_FILE_SIZE g - dwOff else dwSize) in
       case CollectBlocksForWrite g safe junk dwOff dwSize f d of
         Inl x \<Rightarrow> Inl x
       | Inr (ret, vecBlks, f, d) \<Rightarrow>
           if ERROR ret then Inr (ret, dwSize, f, d)
           else case write_data g dwOff dwSize pBuf vecBlks d of
             Inl x \<Rightarrow> Inl x
           | Inr (ret, d) \<Rightarrow>
               let dwEnd = (dwSize + dwOff) mod W32 in
               if ERROR ret \<or> dwEnd \<le> GetSize f then Inr (ret, dwSize, f, d)
               else let f = SetSize dwEnd f in
                 Inr (ret, dwSize, f, if safe then snd (FlushInode g junk f d) else d))"

definition CFileImage_WriteFile :: "geom \<Rightarrow> bool \<Rightarrow> timespec \<Rightarrow> byte list \<Rightarrow> nat \<Rightarrow> nat \<Rightarrow> byte list \<Rightarrow> 'o file_image \<Rightarrow> dev
    \<Rightarrow> (gint32 \<times> nat \<times> 'o file_image \<times> dev) run" where
  "CFileImage_WriteFile g safe now junk dwOff dwSize pBuf f d =
    (if m_dwState f = FStopped then Inr (ERROR_STATE, dwSize, f, d)
     else map_sum id (\<lambda>(ret, dwSize, f, d). (ret, dwSize, touch_mtime now f, d))
       (CFileImage_WriteFileNoLock g safe junk dwOff dwSize pBuf f d))"

text \<open>
  \<^verbatim>\<open>Extend\<close> writes zeros from the start of the block that will hold the new end up to that end.
\<close>

definition CFileImage_Extend :: "geom \<Rightarrow> bool \<Rightarrow> byte list \<Rightarrow> nat \<Rightarrow> 'o file_image \<Rightarrow> dev
    \<Rightarrow> (gint32 \<times> 'o file_image \<times> dev) run" where
  "CFileImage_Extend g safe junk dwOff f d =
    map_sum id (\<lambda>(ret, dwSize, f, d). (ret, f, d))
      (CFileImage_WriteFileNoLock g safe junk (dwOff - dwOff mod BS g) (dwOff mod BS g) (replicate (BS g) 0) f d)"

section \<open>Truncating\<close>

definition zero_range :: "nat \<Rightarrow> nat \<Rightarrow> nat list \<Rightarrow> nat list" where
  "zero_range i n t = take i t @ replicate (min n (length t - i)) 0 @ drop (i + n) t"

definition size_blocks :: "geom \<Rightarrow> 'o file_image \<Rightarrow> nat" where
  "size_blocks g f = ((GetSize f + (BS g - 1)) mod W32) div BS g"

definition TruncBlkDirect :: "geom \<Rightarrow> nat \<Rightarrow> 'o file_image \<Rightarrow> dev \<Rightarrow> gint32 \<times> 'o file_image \<times> dev" where
  "TruncBlkDirect g lablkidx f d =
    (if \<not> WITHIN_DIRECT_BLOCK g ((lablkidx * BS g) mod W32) then (- EINVAL, f, d)
     else
       let dwCount = min (BIT_IDX - lablkidx) (size_blocks g f);
           (ret, d) = dev_Free (take dwCount (drop lablkidx (arrBlks f))) d in
       if ERROR ret then (ret, f, d)
       else (ret, f\<lparr>m_oInodeStore := (m_oInodeStore f)\<lparr>m_arrBlocks := zero_range lablkidx dwCount (arrBlks f)\<rparr>\<rparr>, d))"

definition TruncBlkIndirect :: "geom \<Rightarrow> bool \<Rightarrow> nat \<Rightarrow> 'o file_image \<Rightarrow> dev \<Rightarrow> (gint32 \<times> 'o file_image \<times> dev) run" where
  "TruncBlkIndirect g safe lablkidx f d =
    (case m_pBitBlk f of
       None \<Rightarrow> Inr (- EFAULT, f, d)
     | Some pbit \<Rightarrow>
         let i = (lablkidx + W32 - DIRECT_BLOCKS) mod W32;
             dwCount = min ((size_blocks g f + W32 - lablkidx) mod W32) ((BLKIDX_PER_TABLE g + W32 - i) mod W32) in
         if dwCount = 0 then Inr (0, f, d)
         else if i \<ge> BLKIDX_PER_TABLE g then Inr (- ERANGE, f, d)
         else if i + dwCount > length pbit then Inl Fault_Range
         else
           let (ret, d) = dev_Free (take dwCount (drop i pbit)) d; dwBitBlkIdx = arrBlks f ! BIT_IDX in
           if ERROR ret then Inr (ret, f, d)
           else
             let pbit = zero_range i dwCount pbit; f = f\<lparr>m_pBitBlk := Some pbit\<rparr> in
             if i = 0 then
               let (ret, d) = dev_Free [dwBitBlkIdx] d in Inr (ret, set_blk BIT_IDX 0 (f\<lparr>m_pBitBlk := None\<rparr>), d)
             else if safe then
               let (ret, d) = dev_WriteBlock g dwBitBlkIdx (words_bytes pbit) d in
               Inr (if ERROR ret then ret else 0, f, d)
             else Inr (ret, f, d))"

text \<open>
  \<^verbatim>\<open>TruncBlkSecIndirect\<close>. The directory and the tables in its map are whole blocks. The loop over the tables behind the first runs while
  the index is below the \<^emph>\<open>number\<close> of tables; a \<^verbatim>\<open>break\<close> in it leaves the loop only.
\<close>

definition bitd_of :: "'o file_image \<Rightarrow> table" where
  "bitd_of f = the (m_pBitdBlk f)"

definition set_bitd :: "nat \<Rightarrow> nat \<Rightarrow> 'o file_image \<Rightarrow> 'o file_image" where
  "set_bitd i b f = f\<lparr>m_pBitdBlk := map_option (\<lambda>p. p[i := b]) (m_pBitdBlk f)\<rparr>"

definition sec_free_step :: "geom \<Rightarrow> nat \<Rightarrow> nat \<Rightarrow> 'o file_image \<Rightarrow> dev \<Rightarrow> gint32 \<times> bool \<times> 'o file_image \<times> dev" where
  "sec_free_step g i dwBlksToFree f d =
    (let dwBitBlkIdx = bitd_of f ! i;
         (ret, f, d) =
           (case map_of (m_mapSecBitBlks f) i of
              Some t \<Rightarrow> (0, f\<lparr>m_mapSecBitBlks := AList.delete i (m_mapSecBitBlks f)\<rparr>, snd (dev_Free (take dwBlksToFree t) d))
            | None \<Rightarrow>
                if dwBitBlkIdx = 0 then (0, f, d)
                else let (ret, arrIdx) = dev_ReadBlock g dwBitBlkIdx d in
                  if ERROR ret then (ret, f, d)
                  else let (ret, d) = dev_Free (take dwBlksToFree (table_of arrIdx)) d in (ret, f, d)) in
     if ERROR ret \<or> dwBitBlkIdx = 0 then (ret, False, f, d)
     else (ret, True, set_bitd i 0 f, snd (dev_Free [dwBitBlkIdx] d)))"

primrec sec_free_loop :: "geom \<Rightarrow> nat \<Rightarrow> nat \<Rightarrow> nat list \<Rightarrow> bool \<Rightarrow> 'o file_image \<Rightarrow> dev
    \<Rightarrow> gint32 \<times> bool \<times> 'o file_image \<times> dev" where
  "sec_free_loop g dwBitCount dwIdxCountLastBit [] dirty f d = (0, dirty, f, d)"
| "sec_free_loop g dwBitCount dwIdxCountLastBit (i # is) dirty f d =
    (let (ret, dt, f, d) = sec_free_step g i (if i < dwBitCount - 1 then BLKIDX_PER_TABLE g else dwIdxCountLastBit) f d in
     if ERROR ret then (ret, dirty, f, d)
     else sec_free_loop g dwBitCount dwIdxCountLastBit is (dirty \<or> dt) f d)"

text \<open>The table in which the file now ends: the status, whether to go on, the index of the block of the table, whether the
  directory and the table have changed, the file and the device.\<close>

definition sec_first :: "geom \<Rightarrow> nat \<Rightarrow> nat \<Rightarrow> nat \<Rightarrow> gint32 \<Rightarrow> 'o file_image \<Rightarrow> dev
    \<Rightarrow> gint32 \<times> bool \<times> nat \<times> bool \<times> nat \<times> 'o file_image \<times> dev" where
  "sec_first g dwBitIdx dwBlkIdxIdx dwBlksToFree ret f d =
    (let dwBitBlkIdx = bitd_of f ! dwBitIdx; dt = (if dwBlkIdxIdx > 0 then dwBitIdx else 0) in
     case map_of (m_mapSecBitBlks f) dwBitIdx of
       Some t \<Rightarrow>
         (ret, True, dwBitBlkIdx, False, dt,
          f\<lparr>m_mapSecBitBlks := AList.update dwBitIdx (zero_range dwBlkIdxIdx dwBlksToFree t) (m_mapSecBitBlks f)\<rparr>,
          if dwBlksToFree > 0 then snd (dev_Free (take dwBlksToFree (drop dwBlkIdxIdx t)) d) else d)
     | None \<Rightarrow>
         if dwBitBlkIdx \<noteq> 0 then
           let (ret, p) = dev_ReadBlock g dwBitBlkIdx d in
           if ERROR ret then (ret, False, dwBitBlkIdx, False, 0, f, d)
           else
             let t = table_of p;
                 (ret, d) = (if dwBlksToFree > 0 then dev_Free (take dwBlksToFree (drop dwBlkIdxIdx t)) d else (ret, d)) in
             if ERROR ret then (ret, False, dwBitBlkIdx, False, 0, f, d)
             else (ret, True, dwBitBlkIdx, False, dt,
               if dwBlkIdxIdx > 0
               then f\<lparr>m_mapSecBitBlks := map_insert_new dwBitIdx (zero_range dwBlkIdxIdx dwBlksToFree t) (m_mapSecBitBlks f)\<rparr>
               else f, d)
         else if dwBlkIdxIdx > 0 then
           let (ret, b, d) = dev_Alloc d in
           if ERROR ret then (ret, True, 0, False, 0, f, d)
           else (ret, True, b, True, dt,
             set_bitd dwBitIdx b (f\<lparr>m_mapSecBitBlks := map_insert_new dwBitIdx (zero_table g) (m_mapSecBitBlks f)\<rparr>), d)
         else (ret, True, 0, False, 0, f, d))"

definition TruncBlkSecIndirect :: "geom \<Rightarrow> bool \<Rightarrow> nat \<Rightarrow> 'o file_image \<Rightarrow> dev \<Rightarrow> gint32 \<times> 'o file_image \<times> dev" where
  "TruncBlkSecIndirect g safe lablkidx f d =
    (if m_pBitdBlk f = None then (- EFAULT, f, d)
     else
       let dwByteStart = (lablkidx * BS g) mod W32; dwByteEnd = GetSize f; per = BLKIDX_PER_TABLE g;
           dwBitIdx = SEC_BIT_IDX g dwByteStart; dwBlkIdxIdx = SEC_BLKIDX_IDX g dwByteStart;
           dwBitEndIdx = SEC_BIT_IDX g (dwByteEnd - 1); dwBlkEndIdxIdx = SEC_BLKIDX_IDX g (dwByteEnd - 1);
           dwBitCount = min ((dwBitEndIdx + W32 - dwBitIdx + 1) mod W32) (per - dwBitIdx);
           dwIdxCountLastBit = (if dwBitEndIdx > dwBitIdx then dwBlkEndIdxIdx + 1
             else (dwBlkEndIdxIdx + W32 - dwBlkIdxIdx + 1) mod W32);
           (ret, bBitdDirty, f, d) = sec_free_loop g dwBitCount dwIdxCountLastBit [dwBitIdx + 1..<dwBitCount] False f d;
           (ret, ok, dwBitBlkIdx, dirty2, dwDirtyBitIdx, f, d) = sec_first g dwBitIdx dwBlkIdxIdx
             (if dwBitCount = 1 then dwIdxCountLastBit else per - dwBlkIdxIdx) ret f d in
       if \<not> ok then (ret, f, d)
       else
         let bFree = dwBitBlkIdx \<noteq> 0 \<and> dwBlkIdxIdx = 0;
             f = (if bFree then set_bitd dwBitIdx 0 f else f);
             d = (if bFree then snd (dev_Free [dwBitBlkIdx] d) else d);
             bBitdDirty = (bBitdDirty \<or> dirty2 \<or> bFree);
             (ret, d) =
               (case map_of (m_mapSecBitBlks f) dwDirtyBitIdx of
                  Some t \<Rightarrow>
                    if dwDirtyBitIdx \<noteq> 0 \<and> safe \<and> dwBitBlkIdx \<noteq> 0 then
                      let (ret, d) = dev_WriteBlock g dwBitBlkIdx (words_bytes t) d in (if ERROR ret then ret else 0, d)
                    else (ret, d)
                | None \<Rightarrow> (ret, d));
             stop = (dwDirtyBitIdx \<noteq> 0 \<and> safe \<and> dwBitBlkIdx \<noteq> 0 \<and> map_of (m_mapSecBitBlks f) dwDirtyBitIdx \<noteq> None \<and> ERROR ret) in
         if stop then (ret, f, d)
         else if dwByteStart = SEC_INDIRECT_BLOCK_START g then
           let (ret, d) = dev_Free [arrBlks f ! BITD_IDX] d in (ret, set_blk BITD_IDX 0 (f\<lparr>m_pBitdBlk := None\<rparr>), d)
         else if bBitdDirty \<and> safe then
           let (ret, d) = dev_WriteBlock g (arrBlks f ! BITD_IDX) (words_bytes (bitd_of f)) d in
           (if ERROR ret then ret else 0, f, d)
         else (ret, f, d))"

text \<open>\<^verbatim>\<open>TruncateNoLock\<close>: cutting off the blocks from \<open>dwTruncOff\<close> on, and the statuses that are looked at on the way.\<close>

definition trunc_blocks :: "geom \<Rightarrow> bool \<Rightarrow> nat \<Rightarrow> 'o file_image \<Rightarrow> dev
    \<Rightarrow> (bool \<times> gint32 \<times> 'o file_image \<times> dev) run" where
  "trunc_blocks g safe dwTruncOff f d =
    (let dwTruncIdx = dwTruncOff div BS g; dwSecStart = SEC_INDIRECT_BLOCK_START g div BS g;
         dwIndStart = INDIRECT_BLOCK_START g div BS g; bSec = WITHIN_SEC_INDIRECT_BLOCK g (GetSize f - 1) in
     if WITHIN_SEC_INDIRECT_BLOCK g dwTruncOff then
       Inr (False, TruncBlkSecIndirect g safe dwTruncIdx f d)
     else if WITHIN_INDIRECT_BLOCK g dwTruncOff then
       (let (ret, f, d) = (if bSec then TruncBlkSecIndirect g safe dwSecStart f d else (0, f, d)) in
        if ERROR ret then Inr (True, ret, f, d)
        else map_sum id (\<lambda>r. (False, r)) (TruncBlkIndirect g safe dwTruncIdx f d))
     else if bSec then
       (let (ret, f, d) = TruncBlkSecIndirect g safe dwSecStart f d in
        if ERROR ret then Inr (True, ret, f, d)
        else case TruncBlkIndirect g safe dwIndStart f d of
          Inl x \<Rightarrow> Inl x
        | Inr (ret, f, d) \<Rightarrow> Inr (False, TruncBlkDirect g dwTruncIdx f d))
     else if WITHIN_INDIRECT_BLOCK g (GetSize f - 1) then
       (case TruncBlkIndirect g safe dwIndStart f d of
          Inl x \<Rightarrow> Inl x
        | Inr (ret, f, d) \<Rightarrow>
            if ERROR ret then Inr (True, ret, f, d) else Inr (False, TruncBlkDirect g dwTruncIdx f d))
     else Inr (False, TruncBlkDirect g dwTruncIdx f d))"

definition trunc_inner :: "geom \<Rightarrow> bool \<Rightarrow> byte list \<Rightarrow> nat \<Rightarrow> 'o file_image \<Rightarrow> dev
    \<Rightarrow> (gint32 \<times> 'o file_image \<times> dev) run" where
  "trunc_inner g safe junk dwOff f d =
    (if dwOff > GetSize f then CFileImage_Extend g safe junk dwOff f d
     else if dwOff = GetSize f then Inr (0, f, d)
     else
       let dwDelta = GetSize f - dwOff; dwHead = dwOff mod BS g;
           dwBytes = (if dwHead > 0 then dwDelta - min (BS g - dwHead) dwDelta else dwDelta);
           dwTruncOff = ((dwOff + (BS g - 1)) mod W32) div BS g * BS g in
       if dwBytes = 0 then Inr (0, SetSize dwOff f, d)
       else map_sum id (\<lambda>(stop, ret, f, d). (ret, if stop then f else SetSize dwOff f, d)) (trunc_blocks g safe dwTruncOff f d))"

definition CFileImage_TruncateNoLock :: "geom \<Rightarrow> bool \<Rightarrow> timespec \<Rightarrow> byte list \<Rightarrow> nat \<Rightarrow> 'o file_image \<Rightarrow> dev
    \<Rightarrow> (gint32 \<times> 'o file_image \<times> dev) run" where
  "CFileImage_TruncateNoLock g safe now junk dwOff f d =
    (if BEYOND_MAX_LIMIT g dwOff then Inr (- ERANGE, f, d)
     else map_sum id (\<lambda>(ret, f, d).
       if SUCCEEDED ret
       then (let f = touch_mtime now f in (ret, f, if safe then snd (FlushInode g junk f d) else d))
       else (ret, f, d)) (trunc_inner g safe junk dwOff f d))"

definition CFileImage_Truncate :: "geom \<Rightarrow> bool \<Rightarrow> timespec \<Rightarrow> byte list \<Rightarrow> nat \<Rightarrow> 'o file_image \<Rightarrow> dev
    \<Rightarrow> (gint32 \<times> 'o file_image \<times> dev) run" where
  "CFileImage_Truncate g safe now junk dwOff f d =
    (if m_dwState f = FStopped then Inr (ERROR_STATE, f, d) else CFileImage_TruncateNoLock g safe now junk dwOff f d)"

text \<open>Removing a file from the image.\<close>

definition CFileImage_FreeBlocksNoLock :: "geom \<Rightarrow> bool \<Rightarrow> timespec \<Rightarrow> byte list \<Rightarrow> 'o file_image \<Rightarrow> dev
    \<Rightarrow> (gint32 \<times> 'o file_image \<times> dev) run" where
  "CFileImage_FreeBlocksNoLock g safe now junk f d =
    map_sum id (\<lambda>(ret, f, d).
      if ERROR ret then (ret, f, d)
      else let (ret, d) = dev_Free [m_dwInodeIdx f] d in (ret, f\<lparr>m_dwState := FStopped\<rparr>, d))
      (CFileImage_TruncateNoLock g safe now junk 0 f d)"

definition CFileImage_FreeBlocks :: "geom \<Rightarrow> bool \<Rightarrow> timespec \<Rightarrow> byte list \<Rightarrow> 'o file_image \<Rightarrow> dev
    \<Rightarrow> (gint32 \<times> 'o file_image \<times> dev) run" where
  "CFileImage_FreeBlocks g safe now junk f d =
    (if m_dwState f = FStopped then Inr (ERROR_STATE, f, d) else CFileImage_FreeBlocksNoLock g safe now junk f d)"

section \<open>Links\<close>

record 'o link_image =
  li_file :: "'o file_image"
  m_strLink :: "byte list"

text \<open>
  \<^verbatim>\<open>CLinkImage\<close>. \<open>now\<close> is the time of loading and \<open>now2\<close> the one of reading the target; what a short read leaves in the buffer
  is \<open>junk\<close>, and the target ends at its first zero byte.
\<close>

definition CLinkImage_Reload :: "geom \<Rightarrow> timespec \<Rightarrow> timespec \<Rightarrow> byte list \<Rightarrow> 'o link_image \<Rightarrow> dev
    \<Rightarrow> (gint32 \<times> 'o link_image) run" where
  "CLinkImage_Reload g now now2 junk l d =
    (let f = snd (CFileImage_Reload g now (li_file l) d); dwSize = GetSize f in
     map_sum id (\<lambda>(ret, n, bytes, f).
       (ret, if ERROR ret then l\<lparr>li_file := f\<rparr>
             else l\<lparr>li_file := f, m_strLink := takeWhile (\<lambda>c. c \<noteq> 0) (put_at 0 bytes (take dwSize junk))\<rparr>))
       (CFileImage_ReadFile g now2 0 dwSize f d))"

definition CLinkImage_Format :: "timespec \<Rightarrow> nat \<Rightarrow> nat \<Rightarrow> 'o link_image \<Rightarrow> gint32 \<times> 'o link_image" where
  "CLinkImage_Format now euid egid l =
    (let (ret, f) = CFileImage_Format now euid egid (li_file l) in
     if ERROR ret then (ret, l\<lparr>li_file := f\<rparr>)
     else (ret, l\<lparr>li_file := f\<lparr>m_oInodeStore := (m_oInodeStore f)\<lparr>m_dwMode := 0xA1FF\<rparr>\<rparr>\<rparr>))"

definition CLinkImage_ReadLink :: "timespec \<Rightarrow> nat \<Rightarrow> 'o link_image \<Rightarrow> gint32 \<times> nat \<times> byte list \<times> 'o link_image" where
  "CLinkImage_ReadLink now dwSize l =
    (let dwBytes = min (length (m_strLink l)) dwSize; s = takeWhile (\<lambda>c. c \<noteq> 0) (take dwBytes (m_strLink l)) in
     (0, dwBytes, s @ replicate (dwBytes - length s) 0, l\<lparr>li_file := touch_atime now (li_file l)\<rparr>))"

definition CLinkImage_WriteFile :: "geom \<Rightarrow> bool \<Rightarrow> timespec \<Rightarrow> byte list \<Rightarrow> nat \<Rightarrow> nat \<Rightarrow> byte list \<Rightarrow> 'o link_image \<Rightarrow> dev
    \<Rightarrow> (gint32 \<times> nat \<times> 'o link_image \<times> dev) run" where
  "CLinkImage_WriteFile g safe now junk dwOff dwSize pBuf l d =
    (if m_dwState (li_file l) = FStopped then Inr (ERROR_STATE, dwSize, l, d)
     else map_sum id (\<lambda>(ret, dwSize, f, d).
       if ERROR ret then (ret, dwSize, l\<lparr>li_file := f\<rparr>, d)
       else (0, dwSize, l\<lparr>li_file := touch_mtime now f, m_strLink := take dwSize pBuf\<rparr>, d))
       (CFileImage_WriteFileNoLock g safe junk dwOff dwSize pBuf (li_file l) d))"

section \<open>Open files\<close>

definition COpenFileEntry_Flush :: "geom \<Rightarrow> nat \<Rightarrow> byte list \<Rightarrow> 'o file_image \<Rightarrow> dev \<Rightarrow> gint32 \<times> dev" where
  "COpenFileEntry_Flush g dwFlags junk f d =
    (if m_dwState f = FStopped then (ERROR_STATE, d) else CFileImage_Flush g dwFlags junk f d)"

definition COpenFileEntry_Truncate :: "geom \<Rightarrow> bool \<Rightarrow> timespec \<Rightarrow> byte list \<Rightarrow> nat \<Rightarrow> nat \<Rightarrow> access_ctx option \<Rightarrow> nat
    \<Rightarrow> 'o file_image \<Rightarrow> dev \<Rightarrow> (gint32 \<times> 'o file_image \<times> dev) run" where
  "COpenFileEntry_Truncate g safe now junk euid egid oUserAc dwOff f d =
    (let ret = open_check euid egid W_OK oUserAc f in
     if ERROR ret then Inr (ret, f, d) else CFileImage_Truncate g safe now junk dwOff f d)"

definition COpenFileEntry_ReadFile :: "geom \<Rightarrow> timespec \<Rightarrow> nat \<Rightarrow> nat \<Rightarrow> access_ctx option \<Rightarrow> nat \<Rightarrow> nat
    \<Rightarrow> 'o file_image \<Rightarrow> dev \<Rightarrow> (gint32 \<times> nat \<times> byte list \<times> 'o file_image) run" where
  "COpenFileEntry_ReadFile g now euid egid oUserAc dwSize dwOff f d =
    (let ret = open_check euid egid R_OK oUserAc f in
     if ERROR ret then Inr (ret, dwSize, [], f) else CFileImage_ReadFile g now dwOff dwSize f d)"

definition COpenFileEntry_WriteFile :: "geom \<Rightarrow> bool \<Rightarrow> timespec \<Rightarrow> byte list \<Rightarrow> nat \<Rightarrow> nat \<Rightarrow> access_ctx option \<Rightarrow> nat \<Rightarrow> byte list
    \<Rightarrow> nat \<Rightarrow> 'o file_image \<Rightarrow> dev \<Rightarrow> (gint32 \<times> nat \<times> 'o file_image \<times> dev) run" where
  "COpenFileEntry_WriteFile g safe now junk euid egid oUserAc dwSize pBuf dwOff f d =
    (let ret = open_check euid egid W_OK oUserAc f in
     if ERROR ret then Inr (ret, dwSize, f, d) else CFileImage_WriteFile g safe now junk dwOff dwSize pBuf f d)"

definition COpenFileEntry_Close :: "geom \<Rightarrow> bool \<Rightarrow> timespec \<Rightarrow> byte list \<Rightarrow> 'o file_image \<Rightarrow> dev
    \<Rightarrow> (gint32 \<times> 'o file_image \<times> dev) run" where
  "COpenFileEntry_Close g safe now junk f d =
    (if m_dwState f = FStopped then Inr (ERROR_STATE, f, d)
     else
       let dwCount = (m_dwOpenCount f + W32 - 1) mod W32; f = f\<lparr>m_dwOpenCount := dwCount\<rparr> in
       if dwCount > 0 then Inr (0, f, d)
       else if m_dwState f = FStopping then CFileImage_FreeBlocksNoLock g safe now junk f d
       else if safe then Inr (STATUS_MORE_PROCESS_NEEDED, f, d)
       else let (ret, d) = COpenFileEntry_Flush g FLAG_FLUSH_DEFAULT junk f d in
         Inr (if SUCCEEDED ret then STATUS_MORE_PROCESS_NEEDED else ret, f, d))"

end
