(* ===== verification/FileView.thy ===== *)
theory FileView
  imports FileData
begin

text \<open>
  What the block tables of a file mean: the block of the image that each slot of the file stands for (\<open>loc\<close>), the invariant that keeps the slots
  and the free blocks apart, and the proof that reading blocks follows the map and changes nothing but what is cached.
\<close>

section \<open>Positions\<close>

text \<open>Block sizes for which no size computed from the geometry wraps; 512, 1024 and 2048 are such, 4096 is not.\<close>

definition geom_ok :: "geom \<Rightarrow> bool" where
  "geom_ok g \<longleftrightarrow> 512 \<le> BS g \<and> 0 < BLKIDX_PER_TABLE g \<and> BS g = 4 * BLKIDX_PER_TABLE g \<and>
     (14 + BLKIDX_PER_TABLE g + BLKIDX_PER_TABLE g * BLKIDX_PER_TABLE g) * BS g \<le> W32"

definition nblocks :: "geom \<Rightarrow> nat" where
  "nblocks g = 13 + BLKIDX_PER_TABLE g + BLKIDX_PER_TABLE g * BLKIDX_PER_TABLE g"

lemma BS_pos: "geom_ok g \<Longrightarrow> 0 < BS g"
  by (simp add: geom_ok_def)

lemma max_size: "geom_ok g \<Longrightarrow> MAX_FILE_SIZE g = nblocks g * BS g" "geom_ok g \<Longrightarrow> nblocks g * BS g + BS g \<le> W32"
  by (auto simp: geom_ok_def MAX_FILE_SIZE_def nblocks_def algebra_simps)

lemma sec_start: "SEC_INDIRECT_BLOCK_START g = (13 + BLKIDX_PER_TABLE g) * BS g"
  by (simp add: SEC_INDIRECT_BLOCK_START_def INDIRECT_BLOCK_START_def algebra_simps)

lemma block_pos:
  assumes "geom_ok g" "i < nblocks g"
  shows "(i * BS g) mod W32 = i * BS g"
proof -
  have "i * BS g \<le> nblocks g * BS g" using assms(2) by (intro mult_le_mono1) simp
  hence "i * BS g < W32" using max_size(2)[OF assms(1)] BS_pos[OF assms(1)] by linarith
  thus ?thesis by simp
qed

lemma within_block:
  assumes "geom_ok g"
  shows "WITHIN_DIRECT_BLOCK g (i * BS g) \<longleftrightarrow> i < 13"
    and "WITHIN_INDIRECT_BLOCK g (i * BS g) \<longleftrightarrow> 13 \<le> i \<and> i < 13 + BLKIDX_PER_TABLE g"
    and "WITHIN_SEC_INDIRECT_BLOCK g (i * BS g) \<longleftrightarrow> 13 + BLKIDX_PER_TABLE g \<le> i \<and> i < nblocks g"
  using BS_pos[OF assms]
  by (simp_all add: WITHIN_DIRECT_BLOCK_def WITHIN_INDIRECT_BLOCK_def WITHIN_SEC_INDIRECT_BLOCK_def sec_start
      INDIRECT_BLOCK_START_def max_size(1)[OF assms])

definition tab_no :: "geom \<Rightarrow> nat \<Rightarrow> nat" where
  "tab_no g i = (i - (13 + BLKIDX_PER_TABLE g)) div BLKIDX_PER_TABLE g"

definition tab_ent :: "geom \<Rightarrow> nat \<Rightarrow> nat" where
  "tab_ent g i = (i - (13 + BLKIDX_PER_TABLE g)) mod BLKIDX_PER_TABLE g"

lemma tab_bounds:
  assumes "geom_ok g"
  shows "tab_ent g i < BLKIDX_PER_TABLE g" and "i < nblocks g \<Longrightarrow> tab_no g i < BLKIDX_PER_TABLE g"
proof -
  have P: "0 < BLKIDX_PER_TABLE g" using assms by (simp add: geom_ok_def)
  thus "tab_ent g i < BLKIDX_PER_TABLE g" by (simp add: tab_ent_def)
  assume "i < nblocks g"
  hence "i - (13 + BLKIDX_PER_TABLE g) < BLKIDX_PER_TABLE g * BLKIDX_PER_TABLE g" using P unfolding nblocks_def
    by (metis add.commute less_diff_conv2 less_imp_le_nat linorder_not_less diff_is_0_eq mult_pos_pos)
  thus "tab_no g i < BLKIDX_PER_TABLE g" by (simp add: tab_no_def less_mult_imp_div_less)
qed

lemma tab_inj:
  assumes "geom_ok g" "13 + BLKIDX_PER_TABLE g \<le> i" "13 + BLKIDX_PER_TABLE g \<le> j"
    "tab_no g i = tab_no g j" "tab_ent g i = tab_ent g j"
  shows "i = j"
proof -
  have "i - (13 + BLKIDX_PER_TABLE g) = j - (13 + BLKIDX_PER_TABLE g)"
    using assms(4,5) unfolding tab_no_def tab_ent_def by (metis div_mult_mod_eq)
  thus ?thesis using assms(2,3) by simp
qed

lemma block_idx:
  assumes "geom_ok g"
  shows "INDIRECT_BLK_IDX g (i * BS g) = i - 13"
    and "i < nblocks g \<Longrightarrow> SEC_BIT_IDX g (i * BS g) = tab_no g i"
    and "SEC_BLKIDX_IDX g (i * BS g) = tab_ent g i"
proof -
  have B: "0 < BS g" by (rule BS_pos[OF assms])
  have off: "i * BS g - (13 + BLKIDX_PER_TABLE g) * BS g = (i - (13 + BLKIDX_PER_TABLE g)) * BS g" by (simp add: diff_mult_distrib)
  show "INDIRECT_BLK_IDX g (i * BS g) = i - 13"
    using B by (simp add: INDIRECT_BLK_IDX_def INDIRECT_BLOCK_START_def flip: diff_mult_distrib)
  show "SEC_BLKIDX_IDX g (i * BS g) = tab_ent g i"
    using B by (simp add: SEC_BLKIDX_IDX_def sec_start tab_ent_def off)
  assume "i < nblocks g"
  thus "SEC_BIT_IDX g (i * BS g) = tab_no g i"
    using B tab_bounds(2)[OF assms] by (simp add: SEC_BIT_IDX_def sec_start off div_mult2_eq tab_no_def)
qed

text \<open>The blocks of a range that lies below the limit.\<close>

lemma range_blocks_eq:
  assumes "geom_ok g" "dwOff + dwSize \<le> MAX_FILE_SIZE g"
  shows "range_blocks g dwOff dwSize = [dwOff div BS g..<(dwOff + dwSize + (BS g - 1)) div BS g]"
proof -
  have "dwOff + dwSize + (BS g - 1) < W32"
    using assms(2) max_size[OF assms(1)] BS_pos[OF assms(1)] by linarith
  moreover have "(dwSize + dwOff) mod W32 = dwSize + dwOff" using calculation by simp
  moreover have "MAX_FILE_SIZE g \<le> dwSize + dwOff \<Longrightarrow> MAX_FILE_SIZE g - dwOff = dwSize" using assms(2) by simp
  ultimately show ?thesis by (simp add: range_blocks_def BEYOND_MAX_LIMIT_def)
qed

lemma range_below:
  assumes "geom_ok g" "dwOff + dwSize \<le> MAX_FILE_SIZE g" "i < (dwOff + dwSize + (BS g - 1)) div BS g"
  shows "i < nblocks g"
proof -
  have "i * BS g + BS g \<le> (dwOff + dwSize + (BS g - 1)) div BS g * BS g"
    using assms(3) by (metis Suc_leI add.commute mult_Suc mult_le_mono1)
  also have "\<dots> \<le> dwOff + dwSize + (BS g - 1)" by simp
  finally have "i * BS g < nblocks g * BS g" using assms(2) max_size(1)[OF assms(1)] BS_pos[OF assms(1)] by linarith
  thus ?thesis by simp
qed

section \<open>The slots of a file\<close>

datatype slot = SIno | SBit | SDir | STab nat | SBlk nat

definition slots :: "geom \<Rightarrow> slot set" where
  "slots g = {SIno, SBit, SDir} \<union> STab ` {..<BLKIDX_PER_TABLE g} \<union> SBlk ` {..<nblocks g}"

definition ind_entry :: "nat \<Rightarrow> 'o file_image \<Rightarrow> dev \<Rightarrow> nat" where
  "ind_entry j f d =
    (if arrBlks f ! BIT_IDX = 0 then 0
     else (case m_pBitBlk f of Some t \<Rightarrow> t | None \<Rightarrow> table_of (d_blk d (arrBlks f ! BIT_IDX))) ! j)"

definition tab_loc :: "'o file_image \<Rightarrow> nat \<Rightarrow> nat" where
  "tab_loc f k = (case m_pBitdBlk f of None \<Rightarrow> 0 | Some p \<Rightarrow> p ! k)"

definition sec_entry :: "nat \<Rightarrow> nat \<Rightarrow> 'o file_image \<Rightarrow> dev \<Rightarrow> nat" where
  "sec_entry k l f d =
    (if tab_loc f k = 0 then 0
     else (case map_of (m_mapSecBitBlks f) k of Some t \<Rightarrow> t | None \<Rightarrow> table_of (d_blk d (tab_loc f k))) ! l)"

definition blk_at :: "geom \<Rightarrow> 'o file_image \<Rightarrow> dev \<Rightarrow> nat \<Rightarrow> nat" where
  "blk_at g f d i =
    (if i < 13 then arrBlks f ! i
     else if i < 13 + BLKIDX_PER_TABLE g then ind_entry (i - 13) f d
     else sec_entry (tab_no g i) (tab_ent g i) f d)"

fun loc :: "geom \<Rightarrow> 'o file_image \<Rightarrow> dev \<Rightarrow> slot \<Rightarrow> nat" where
  "loc g f d SIno = m_dwInodeIdx f"
| "loc g f d SBit = arrBlks f ! BIT_IDX"
| "loc g f d SDir = arrBlks f ! BITD_IDX"
| "loc g f d (STab k) = tab_loc f k"
| "loc g f d (SBlk i) = blk_at g f d i"

text \<open>What is at a byte of the file: a hole is zero.\<close>

definition content :: "geom \<Rightarrow> 'o file_image \<Rightarrow> dev \<Rightarrow> nat \<Rightarrow> byte" where
  "content g f d k =
    (let b = blk_at g f d (k div BS g) in if b = 0 then 0 else d_blk d b ! (k mod BS g))"

section \<open>The invariant\<close>

text \<open>Slots and free blocks are apart: no block has two uses.\<close>

definition blk_ok :: "nat \<Rightarrow> bool" where
  "blk_ok b \<longleftrightarrow> b \<noteq> INVALID_BLOCK_IDX \<and> b < W32"

definition apart :: "slot set \<Rightarrow> (slot \<Rightarrow> nat) \<Rightarrow> nat list \<Rightarrow> bool" where
  "apart S L fr \<longleftrightarrow>
    (\<forall>s\<in>S. blk_ok (L s)) \<and> (\<forall>s\<in>S. \<forall>s'\<in>S. L s = L s' \<longrightarrow> L s \<noteq> 0 \<longrightarrow> s = s') \<and>
    distinct fr \<and> (\<forall>b\<in>set fr. 0 < b \<and> blk_ok b \<and> (\<forall>s\<in>S. L s \<noteq> b))"

text \<open>The device has whole blocks and works, and what is cached is whole tables that exist.\<close>

definition dev_ok :: "geom \<Rightarrow> dev \<Rightarrow> bool" where
  "dev_ok g d \<longleftrightarrow> (\<forall>b. length (d_blk d b) = BS g) \<and> (\<forall>b. \<not> ERROR (d_err d b))"

definition cache_ok :: "geom \<Rightarrow> 'o file_image \<Rightarrow> bool" where
  "cache_ok g f \<longleftrightarrow> length (arrBlks f) = 15 \<and>
    (\<forall>t. m_pBitBlk f = Some t \<longrightarrow> length t = BLKIDX_PER_TABLE g \<and> arrBlks f ! BIT_IDX \<noteq> 0) \<and>
    (m_pBitdBlk f = None \<longleftrightarrow> arrBlks f ! BITD_IDX = 0) \<and>
    (\<forall>p. m_pBitdBlk f = Some p \<longrightarrow> length p = BLKIDX_PER_TABLE g) \<and>
    (\<forall>k t. map_of (m_mapSecBitBlks f) k = Some t \<longrightarrow> length t = BLKIDX_PER_TABLE g \<and> k < BLKIDX_PER_TABLE g \<and> tab_loc f k \<noteq> 0)"

definition file_ok :: "geom \<Rightarrow> 'o file_image \<Rightarrow> dev \<Rightarrow> bool" where
  "file_ok g f d \<longleftrightarrow> geom_ok g \<and> dev_ok g d \<and> cache_ok g f \<and> apart (slots g) (loc g f d) (d_free d)"

lemma file_okD:
  assumes "file_ok g f d"
  shows "geom_ok g" "dev_ok g d" "cache_ok g f" "apart (slots g) (loc g f d) (d_free d)"
  using assms by (simp_all add: file_ok_def)

lemma apart_bound: "apart S L fr \<Longrightarrow> s \<in> S \<Longrightarrow> blk_ok (L s)"
  by (simp add: apart_def)

lemma apart_inj: "apart S L fr \<Longrightarrow> s \<in> S \<Longrightarrow> s' \<in> S \<Longrightarrow> L s = L s' \<Longrightarrow> L s \<noteq> 0 \<Longrightarrow> s = s'"
  by (simp add: apart_def)

lemma apart_free: "apart S L fr \<Longrightarrow> b \<in> set fr \<Longrightarrow> s \<in> S \<Longrightarrow> L s \<noteq> b"
  by (simp add: apart_def)

lemma apart_cong: "apart S L fr \<Longrightarrow> (\<And>s. s \<in> S \<Longrightarrow> L' s = L s) \<Longrightarrow> apart S L' fr"
  by (simp add: apart_def)

text \<open>A fresh block may take an empty slot.\<close>

lemma apart_take:
  assumes "apart S L (b # fr)" "s0 \<in> S" "L s0 = 0" and L': "\<And>s. s \<in> S \<Longrightarrow> L' s = (L(s0 := b)) s"
  shows "apart S L' fr"
proof -
  have b: "blk_ok b" "\<forall>s\<in>S. L s \<noteq> b" "b \<notin> set fr" "distinct fr" using assms(1) by (auto simp: apart_def)
  have inj: "s = s'" if "s \<in> S" "s' \<in> S" "L' s = L' s'" "L' s \<noteq> 0" for s s'
    using that b(2) apart_inj[OF assms(1)] L' by (metis fun_upd_apply)
  have "\<forall>s\<in>S. blk_ok (L' s)" using b(1) assms(1) L' by (auto simp: apart_def)
  moreover have "\<forall>c\<in>set fr. 0 < c \<and> blk_ok c \<and> (\<forall>s\<in>S. L' s \<noteq> c)"
    using b(3) assms(1) L' by (auto simp: apart_def)
  ultimately show ?thesis using inj b(4) by (auto simp: apart_def)
qed

lemma slots_mem [simp]:
  "SIno \<in> slots g" "SBit \<in> slots g" "SDir \<in> slots g" "STab k \<in> slots g \<longleftrightarrow> k < BLKIDX_PER_TABLE g"
  "SBlk i \<in> slots g \<longleftrightarrow> i < nblocks g"
  by (auto simp: slots_def)

lemma tab_loc_simps [simp]:
  "tab_loc (f\<lparr>m_pBitBlk := x\<rparr>) k = tab_loc f k" "tab_loc (f\<lparr>m_mapSecBitBlks := m\<rparr>) k = tab_loc f k"
  "tab_loc (f\<lparr>m_oInodeStore := n\<rparr>) k = tab_loc f k"
  by (simp_all add: tab_loc_def)

lemma loc_blocks: "(\<And>i. blk_at g f' d' i = blk_at g f d i) \<Longrightarrow> m_oInodeStore f' = m_oInodeStore f \<Longrightarrow>
    m_dwInodeIdx f' = m_dwInodeIdx f \<Longrightarrow> m_pBitdBlk f' = m_pBitdBlk f \<Longrightarrow> loc g f' d' s = loc g f d s"
  by (cases s) (simp_all add: tab_loc_def)

lemma read_ok: "dev_ok g d \<Longrightarrow> b \<noteq> INVALID_BLOCK_IDX \<Longrightarrow> dev_ReadBlock g b d = (int (BS g), d_blk d b)"
  by (simp add: dev_ReadBlock_def dev_ok_def)

lemma write_ok: "dev_ok g d \<Longrightarrow> b \<noteq> INVALID_BLOCK_IDX \<Longrightarrow>
    dev_WriteBlock g b bs d = (int (BS g), d\<lparr>d_blk := (d_blk d)(b := bs)\<rparr>)"
  by (simp add: dev_WriteBlock_def dev_ok_def)

lemma length_table: "geom_ok g \<Longrightarrow> length b = BS g \<Longrightarrow> length (table_of b) = BLKIDX_PER_TABLE g"
  by (simp add: table_of_def rd_words_def geom_ok_def)

lemma zero_table_simps [simp]: "length (zero_table g) = BLKIDX_PER_TABLE g" "j < BLKIDX_PER_TABLE g \<Longrightarrow> zero_table g ! j = 0"
  by (simp_all add: zero_table_def)

lemma map_of_insert_new: "map_of (map_insert_new k t m) j = (if j = k \<and> map_of m k = None then Some t else map_of m j)"
  by (auto simp: map_insert_new_def)

section \<open>Loading tables\<close>

text \<open>Two files are the same but for the tables that are cached.\<close>

definition same_map :: "geom \<Rightarrow> 'o file_image \<Rightarrow> dev \<Rightarrow> 'o file_image \<Rightarrow> bool" where
  "same_map g f d f' \<longleftrightarrow> file_ok g f' d \<and> m_oInodeStore f' = m_oInodeStore f \<and> m_dwState f' = m_dwState f \<and>
     m_dwInodeIdx f' = m_dwInodeIdx f \<and> m_pBitdBlk f' = m_pBitdBlk f \<and> (\<forall>i. blk_at g f' d i = blk_at g f d i)"

lemma same_map_refl: "file_ok g f d \<Longrightarrow> same_map g f d f"
  by (simp add: same_map_def)

lemma same_map_trans: "same_map g f d f' \<Longrightarrow> same_map g f' d f'' \<Longrightarrow> same_map g f d f''"
  by (simp add: same_map_def)

lemma load_bit:
  assumes "file_ok g f d" "m_pBitBlk f = None" "arrBlks f ! BIT_IDX \<noteq> 0"
  shows "same_map g f d (f\<lparr>m_pBitBlk := Some (table_of (d_blk d (arrBlks f ! BIT_IDX)))\<rparr>)" (is "same_map g f d ?f")
proof -
  note ok = file_okD[OF assms(1)]
  have B: "blk_at g ?f d = blk_at g f d"
    using assms(2,3) by (intro ext) (auto simp: blk_at_def ind_entry_def sec_entry_def split: option.split)
  have "loc g ?f d s = loc g f d s" for s by (rule loc_blocks) (simp_all add: B)
  moreover have "cache_ok g ?f" using ok(2,3) assms(3) length_table[OF ok(1)] by (simp add: cache_ok_def dev_ok_def)
  ultimately have "file_ok g ?f d" using ok by (auto simp: file_ok_def intro: apart_cong)
  thus ?thesis by (simp add: same_map_def B)
qed

lemma load_sec:
  assumes "file_ok g f d" "tab_loc f k \<noteq> 0" "k < BLKIDX_PER_TABLE g"
  shows "same_map g f d (f\<lparr>m_mapSecBitBlks := map_insert_new k (table_of (d_blk d (tab_loc f k))) (m_mapSecBitBlks f)\<rparr>)"
    (is "same_map g f d ?f")
proof -
  note ok = file_okD[OF assms(1)]
  have B: "blk_at g ?f d = blk_at g f d"
    by (intro ext) (auto simp: blk_at_def ind_entry_def sec_entry_def map_of_insert_new split: option.split)
  have "loc g ?f d s = loc g f d s" for s by (rule loc_blocks) (simp_all add: B)
  moreover have "cache_ok g ?f"
    using ok(2,3) assms(2,3) length_table[OF ok(1)] by (auto simp: cache_ok_def dev_ok_def map_of_insert_new)
  ultimately have "file_ok g ?f d" using ok by (auto simp: file_ok_def intro: apart_cong)
  thus ?thesis by (simp add: same_map_def B)
qed

lemma loc_invalid:
  assumes "file_ok g f d" "s \<in> slots g" shows "loc g f d s \<noteq> INVALID_BLOCK_IDX"
  using apart_bound[OF file_okD(4)[OF assms(1)] assms(2)] by (simp add: blk_ok_def)

section \<open>Collecting blocks for reading\<close>

lemma read_step_ok:
  assumes ok: "file_ok g f d" and i: "i < nblocks g" and dir: "13 + BLKIDX_PER_TABLE g \<le> i \<Longrightarrow> m_pBitdBlk f \<noteq> None"
  shows "\<exists>f'. read_step g (arrBlks f ! BIT_IDX) i f d = Inr (0, [as_hole (blk_at g f d i)], f') \<and> same_map g f d f'"
proof -
  note okD = file_okD[OF ok]
  note pos = block_pos[OF okD(1) i] within_block[OF okD(1)] block_idx(1,3)[OF okD(1)] block_idx(2)[OF okD(1) i]
  have c: "cache_ok g f" by (rule okD(3))
  consider "i < 13" | "13 \<le> i" "i < 13 + BLKIDX_PER_TABLE g" | "13 + BLKIDX_PER_TABLE g \<le> i" by linarith
  thus ?thesis
  proof cases
    case 1
    thus ?thesis using same_map_refl[OF ok] by (simp add: read_step_def pos blk_at_def)
  next
    case 2
    let ?b = "arrBlks f ! BIT_IDX"
    have j: "i - 13 < BLKIDX_PER_TABLE g" using 2 by linarith
    show ?thesis
    proof (cases "?b = 0 \<or> m_pBitBlk f \<noteq> None")
      case True
      thus ?thesis using same_map_refl[OF ok] 2 j c
        by (cases "?b = 0") (auto simp: read_step_def pos blk_at_def ind_entry_def as_hole_def tab_get_def cache_ok_def)
    next
      case False
      hence f: "m_pBitBlk f = None" "?b \<noteq> 0" by auto
      have "?b \<noteq> INVALID_BLOCK_IDX" using loc_invalid[OF ok, of SBit] by simp
      moreover have "i - 13 < length (table_of (d_blk d ?b))" using j okD(1,2) by (simp add: length_table dev_ok_def)
      ultimately show ?thesis using load_bit[OF ok f] f 2
        by (simp add: read_step_def pos blk_at_def ind_entry_def tab_get_def read_ok[OF okD(2)])
    qed
  next
    case 3
    let ?k = "tab_no g i" and ?l = "tab_ent g i" and ?b = "tab_loc f (tab_no g i)"
    have k: "?k < BLKIDX_PER_TABLE g" "?l < BLKIDX_PER_TABLE g" using tab_bounds[OF okD(1)] i by auto
    obtain p where Some: "m_pBitdBlk f = Some p" using dir[OF 3] by auto
    have p: "tab_get p ?k = Inr ?b" using Some c k by (auto simp: cache_ok_def tab_loc_def tab_get_def)
    have blk: "blk_at g f d i = sec_entry ?k ?l f d" using 3 by (simp add: blk_at_def)
    have w: "\<not> i < 13" "\<not> (13 \<le> i \<and> i < 13 + BLKIDX_PER_TABLE g)" using 3 by linarith+
    note step = read_step_def pos Some p Let_def w 3 i blk sec_entry_def
    consider "?b = 0" | t where "?b \<noteq> 0" "map_of (m_mapSecBitBlks f) ?k = Some t"
      | "?b \<noteq> 0" "map_of (m_mapSecBitBlks f) ?k = None" by (cases "map_of (m_mapSecBitBlks f) ?k") auto
    thus ?thesis
    proof cases
      case 1
      thus ?thesis using same_map_refl[OF ok] by (simp add: step as_hole_def)
    next
      case 2
      hence "tab_get t ?l = Inr (t ! ?l)" using c k by (simp add: cache_ok_def tab_get_def)
      thus ?thesis using same_map_refl[OF ok] 2 by (simp add: step)
    next
      case T: 3
      have "?b \<noteq> INVALID_BLOCK_IDX" using loc_invalid[OF ok, of "STab ?k"] k by simp
      hence r: "dev_ReadBlock g ?b d = (int (BS g), d_blk d ?b)" by (rule read_ok[OF okD(2)])
      have "tab_get (table_of (d_blk d ?b)) ?l = Inr (table_of (d_blk d ?b) ! ?l)"
        using k okD(1,2) by (simp add: length_table dev_ok_def tab_get_def)
      thus ?thesis using load_sec[OF ok T(1) k(1)] T by (simp add: step r)
    qed
  qed
qed

lemma collect_read_ok:
  assumes "file_ok g f d" "\<forall>i\<in>set is. i < nblocks g" "\<forall>i\<in>set is. 13 + BLKIDX_PER_TABLE g \<le> i \<longrightarrow> m_pBitdBlk f \<noteq> None"
  shows "\<exists>f'. collect_read g (arrBlks f ! BIT_IDX) is f d = Inr (0, map (\<lambda>i. as_hole (blk_at g f d i)) is, f') \<and> same_map g f d f'"
  using assms
proof (induction "is" arbitrary: f)
  case (Cons i "is")
  obtain f1 where 1: "read_step g (arrBlks f ! BIT_IDX) i f d = Inr (0, [as_hole (blk_at g f d i)], f1)" "same_map g f d f1"
    using read_step_ok[of g f d i] Cons.prems by auto
  hence f1: "file_ok g f1 d" "m_oInodeStore f1 = m_oInodeStore f" "m_pBitdBlk f1 = m_pBitdBlk f" "\<forall>i. blk_at g f1 d i = blk_at g f d i"
    by (auto simp: same_map_def)
  show ?case using Cons.IH[OF f1(1)] Cons.prems f1 1 same_map_trans[OF 1(2)] by auto
qed (simp add: same_map_refl)

section \<open>Reading data\<close>

definition block_data :: "geom \<Rightarrow> dev \<Rightarrow> nat \<Rightarrow> byte list" where
  "block_data g d b = (if b = INVALID_BLOCK_IDX then replicate (BS g) 0 else d_blk d b)"

definition blocks_data :: "geom \<Rightarrow> dev \<Rightarrow> nat list \<Rightarrow> byte list" where
  "blocks_data g d bs = concat (map (block_data g d) bs)"

lemma length_block_data: "dev_ok g d \<Longrightarrow> length (block_data g d b) = BS g"
  by (simp add: block_data_def dev_ok_def)

lemma length_blocks_data: "dev_ok g d \<Longrightarrow> length (blocks_data g d bs) = length bs * BS g"
  by (induction bs) (simp_all add: blocks_data_def length_block_data)

lemma blocks_data_simps [simp]:
  "blocks_data g d [] = []" "blocks_data g d (b # bs) = block_data g d b @ blocks_data g d bs"
  "blocks_data g d (bs @ cs) = blocks_data g d bs @ blocks_data g d cs"
  by (simp_all add: blocks_data_def)

lemma nth_blocks_data:
  assumes "dev_ok g d" "k < length bs * BS g"
  shows "blocks_data g d bs ! k = block_data g d (bs ! (k div BS g)) ! (k mod BS g)"
  using assms(2)
proof (induction bs arbitrary: k)
  case (Cons b bs)
  have B: "0 < BS g" using Cons.prems by (cases "BS g") auto
  show ?case
  proof (cases "k < BS g")
    case False
    hence "k div BS g = Suc ((k - BS g) div BS g)" "k mod BS g = (k - BS g) mod BS g"
      using B by (simp_all add: le_div_geq le_mod_geq)
    thus ?thesis using Cons.IH[of "k - BS g"] Cons.prems False by (simp add: nth_append length_block_data[OF assms(1)])
  qed (simp add: nth_append length_block_data[OF assms(1)])
qed simp

lemma read_loop_ok: "dev_ok g d \<Longrightarrow> dev_read_loop g bs d = (int (length bs * BS g), blocks_data g d bs)"
proof (induction bs)
  case (Cons b bs)
  have "int (length bs * BS g) \<ge> 0" by (rule of_nat_0_le_iff)
  hence "\<not> int (length bs * BS g) < 0" by linarith
  thus ?case using Cons by (simp add: dev_ok_def block_data_def algebra_simps del: of_nat_mult)
qed simp

lemma read_blocks_ok: "dev_ok g d \<Longrightarrow> bs \<noteq> [] \<Longrightarrow> dev_ReadBlocks g bs d = (int (length bs * BS g), blocks_data g d bs)"
  by (simp add: dev_ReadBlocks_def read_loop_ok)

lemma div_up:
  fixes B :: nat assumes "a mod B \<noteq> 0" shows "0 < B \<Longrightarrow> (a + (B - 1)) div B = Suc (a div B)"
proof -
  assume B: "0 < B"
  define q where "q = a div B * B"
  have "a = q + a mod B" "a mod B < B" using B by (simp_all add: q_def)
  hence "B + q \<le> a + (B - 1)" "a + (B - 1) < B + (B + q)" using assms by linarith+
  thus ?thesis unfolding q_def by (intro div_nat_eqI) (simp_all add: mult.commute)
qed

text \<open>The number of blocks of a range, by where it starts and ends in its blocks.\<close>

lemma range_length:
  fixes B :: nat
  assumes "0 < B" "0 < n" and len: "len = (off + n + (B - 1)) div B - off div B"
  shows "len > 0" and "(off + n) mod B = 0 \<Longrightarrow> off mod B + n = len * B"
    and "(off + n) mod B \<noteq> 0 \<Longrightarrow> off mod B + n = (len - 1) * B + (off + n) mod B"
proof -
  define h where "h = off mod B"
  have off: "off = off div B * B + h" by (simp add: h_def)
  have "(off + n + (B - 1)) div B = off div B + (h + n + (B - 1)) div B"
  proof -
    have "off + n + (B - 1) = off div B * B + (h + n + (B - 1))" using off by simp
    thus ?thesis using assms(1) by (simp only: div_mult_self3[OF less_imp_neq[OF assms(1), symmetric]])
  qed
  hence L: "len = (h + n + (B - 1)) div B" using len by simp
  have m: "(off + n) mod B = (h + n) mod B" by (subst off) (simp add: add.assoc)
  have q: "h + n = (h + n) div B * B + (h + n) mod B" by simp
  show "len > 0" using assms(1,2) L by (simp add: div_greater_zero_iff)
  have z: "(x * B + (B - 1)) div B = x" for x using assms(1) by (intro div_nat_eqI) (auto simp: mult.commute)
  have nz: "(x * B + r + (B - 1)) div B = Suc x" if "0 < r" "r < B" for x r
    using that by (intro div_nat_eqI) (auto simp: mult.commute)
  show "(off + n) mod B = 0 \<Longrightarrow> off mod B + n = len * B" using z[of "(h + n) div B"] L m q by (simp add: h_def)
  assume "(off + n) mod B \<noteq> 0"
  hence "len = Suc ((h + n) div B)" using nz[of "(h + n) mod B" "(h + n) div B"] L m q assms(1) by simp
  thus "off mod B + n = (len - 1) * B + (off + n) mod B" using q m by (simp add: h_def)
qed

lemma block_last: "bs \<noteq> [] \<Longrightarrow> blocks_data g d bs = blocks_data g d (butlast bs) @ block_data g d (last bs)"
  by (induction bs) auto

lemma block_first: "bs \<noteq> [] \<Longrightarrow> blocks_data g d bs = block_data g d (hd bs) @ blocks_data g d (tl bs)"
  by (cases bs) auto

lemma block_ends:
  assumes "length bs > 1"
  shows "blocks_data g d bs = block_data g d (hd bs) @ blocks_data g d (butlast (tl bs)) @ block_data g d (last bs)"
    and "tl bs \<noteq> []" and "bs \<noteq> []" and "last (tl bs) = last bs" and "length (butlast (tl bs)) = length bs - 2"
    and "butlast bs \<noteq> []"
proof -
  show ne: "tl bs \<noteq> []" "bs \<noteq> []" "last (tl bs) = last bs" "length (butlast (tl bs)) = length bs - 2" "butlast bs \<noteq> []"
    using assms by (cases bs, auto)+
  show "blocks_data g d bs = block_data g d (hd bs) @ blocks_data g d (butlast (tl bs)) @ block_data g d (last bs)"
    using block_first[OF ne(2)] block_last[OF ne(1)] ne(3) by simp
qed

lemma read_data_ok:
  assumes d: "dev_ok g d" and B: "0 < BS g" and n: "0 < dwSize" "dwOff + dwSize < W32"
    and len: "length bs = (dwOff + dwSize + (BS g - 1)) div BS g - dwOff div BS g"
    and hd: "dwOff mod BS g \<noteq> 0 \<Longrightarrow> hd bs \<noteq> INVALID_BLOCK_IDX"
    and lst: "(dwOff + dwSize) mod BS g \<noteq> 0 \<Longrightarrow> last bs \<noteq> INVALID_BLOCK_IDX"
  shows "\<exists>ret. read_data g dwOff dwSize bs d = Inr (ret, take dwSize (drop (dwOff mod BS g) (blocks_data g d bs))) \<and> ret > 0"
proof -
  note R = range_length[OF B n(1) len]
  define h where "h = dwOff mod BS g"
  define t where "t = (dwOff + dwSize) mod BS g"
  have m: "(dwOff + dwSize) mod W32 = dwOff + dwSize" using n(2) by simp
  have ne: "bs \<noteq> []" using R(1) by auto
  have h: "h < BS g" "t < BS g" using B by (simp_all add: h_def t_def)
  note def = read_data_def Let_def m h_def[symmetric] t_def[symmetric]
  have rb: "dev_ReadBlock g b d = (int (BS g), block_data g d b)" if "b \<noteq> INVALID_BLOCK_IDX" for b
    using read_ok[OF d that] that by (simp add: block_data_def)
  note rbs = read_blocks_ok[OF d]
  have Z: "\<And>k. \<not> int (k * BS g) < 0" by (simp add: linorder_not_less del: of_nat_mult)
  note L = length_blocks_data[OF d] length_block_data[OF d]
  have "length bs = 1 \<or> length bs > 1" using R(1) by linarith
  then consider "h = 0" "t = 0" | "h = 0" "t \<noteq> 0" "length bs = 1" | "h = 0" "t \<noteq> 0" "length bs > 1"
    | "h \<noteq> 0" "t = 0" "length bs = 1" | "h \<noteq> 0" "t = 0" "length bs > 1" | "h \<noteq> 0" "t \<noteq> 0" "length bs = 1"
    | "h \<noteq> 0" "t \<noteq> 0" "length bs > 1" by blast
  thus ?thesis
  proof cases
    case 1
    hence "dwSize = length bs * BS g" using R(2) by (simp add: h_def t_def)
    hence "take dwSize (blocks_data g d bs) = blocks_data g d bs" using L(1) by simp
    thus ?thesis using 1 rbs[OF ne] B ne by (simp add: def)
  next
    case 2
    hence s: "dwSize = t" "last bs \<noteq> INVALID_BLOCK_IDX" using R(3) lst by (simp_all add: h_def t_def)
    have "butlast bs = []" using 2 by (cases bs) auto
    moreover have "take t (blocks_data g d bs) = take dwSize (blocks_data g d bs)" using s by simp
    ultimately show ?thesis using 2 s(2) rb[OF s(2)] B ne block_last[OF ne, of g d] by (simp add: def)
  next
    case 3
    hence s: "dwSize = (length bs - 1) * BS g + t" "last bs \<noteq> INVALID_BLOCK_IDX" using R(3) lst by (simp_all add: h_def t_def)
    have "take dwSize (blocks_data g d bs) = blocks_data g d (butlast bs) @ take t (block_data g d (last bs))"
      by (subst block_last[OF ne]) (simp add: s L)
    thus ?thesis using 3 rbs[OF block_ends(6)] rb[OF s(2)] s(2) B ne Z by (simp add: def del: of_nat_mult)
  next
    case 4
    hence s: "h + dwSize = BS g" "hd bs \<noteq> INVALID_BLOCK_IDX" using R(2) hd by (simp_all add: h_def t_def)
    have "blocks_data g d bs = block_data g d (hd bs)" using 4 by (cases bs) auto
    moreover have "take dwSize (drop h (block_data g d (hd bs))) = drop h (block_data g d (hd bs))" using s L(2) by simp
    ultimately show ?thesis using 4 s(2) rb[OF s(2)] B ne by (simp add: def)
  next
    case 5
    hence s: "h + dwSize = length bs * BS g" "hd bs \<noteq> INVALID_BLOCK_IDX" using R(2) hd by (simp_all add: h_def t_def)
    have "take dwSize (drop h (blocks_data g d bs)) = drop h (blocks_data g d bs)" using s L(1) by simp
    moreover have "drop h (blocks_data g d bs) = drop h (block_data g d (hd bs)) @ blocks_data g d (tl bs)"
      using block_first[OF ne, of g d] h L(2) by simp
    ultimately show ?thesis using 5 s(2) rb[OF s(2)] rbs[OF block_ends(2)] B ne by (simp add: def del: of_nat_mult)
  next
    case 6
    hence s: "h + dwSize = t" "hd bs \<noteq> INVALID_BLOCK_IDX" using R(3) hd by (simp_all add: h_def t_def)
    have "blocks_data g d bs = block_data g d (hd bs)" using 6 by (cases bs) auto
    moreover have "\<not> h + dwSize > BS g" using s h by simp
    ultimately show ?thesis using 6 s(2) rb[OF s(2)] B ne by (simp add: def)
  next
    case 7
    note E = block_ends[OF 7(3)]
    have s: "h + dwSize = (length bs - 1) * BS g + t" "hd bs \<noteq> INVALID_BLOCK_IDX" "last bs \<noteq> INVALID_BLOCK_IDX"
      using 7 R(3) hd lst by (simp_all add: h_def t_def)
    have "(length bs - 1) * BS g = BS g + (length bs - 2) * BS g" using 7(3) by (cases "length bs - 1") auto
    hence s2: "dwSize = (BS g - h) + (length bs - 2) * BS g + t" using s(1) h by linarith
    have out: "take dwSize (drop h (blocks_data g d bs)) =
        drop h (block_data g d (hd bs)) @ blocks_data g d (butlast (tl bs)) @ take t (block_data g d (last bs))"
    proof -
      define M where "M = blocks_data g d (butlast (tl bs))"
      have "length M = (length bs - 2) * BS g" unfolding M_def by (simp only: L(1) E(5))
      hence s3: "dwSize = (BS g - h) + length M + t" using s2 by simp
      show ?thesis using h unfolding M_def[symmetric] s3 E(1) by (simp add: L(2))
    qed
    have mid: "(if length bs > 2 then dev_ReadBlocks g (butlast (tl bs)) d else (0, [])) =
        (int ((length bs - 2) * BS g), blocks_data g d (butlast (tl bs)))"
    proof (cases "length bs > 2")
      case True
      hence "butlast (tl bs) \<noteq> []" using E(5) by (metis length_0_conv zero_less_diff less_numeral_extra(3))
      thus ?thesis using True rbs E(5) by simp
    next
      case False
      hence "butlast (tl bs) = []" using E(5) by (metis length_0_conv diff_is_0_eq linorder_not_less)
      thus ?thesis using False by simp
    qed
    show ?thesis using 7 s(2,3) rb E(3) B Z out by (simp add: def mid del: of_nat_mult)
  qed
qed

lemma range_fits:
  fixes B :: nat
  assumes "0 < B" "0 < n" and len: "len = (off + n + (B - 1)) div B - off div B"
  shows "off mod B + n \<le> len * B"
proof (cases "(off + n) mod B = 0")
  case False
  have "(off + n) mod B \<le> B" using assms(1) by (simp add: less_imp_le)
  hence "off mod B + n \<le> (len - 1) * B + B" using range_length(3)[OF assms False] by linarith
  also have "\<dots> = len * B" using range_length(1)[OF assms] by (cases len) auto
  finally show ?thesis .
qed (use range_length(2)[OF assms] in simp)

lemma in_range:
  fixes B :: nat
  assumes "0 < B" "off \<le> k" "k < off + n" shows "off div B \<le> k div B" "k div B < (off + n + (B - 1)) div B"
proof -
  show "off div B \<le> k div B" by (rule div_le_mono[OF assms(2)])
  have "k + B \<le> off + n + (B - 1)" using assms by linarith
  hence "(k + B) div B \<le> (off + n + (B - 1)) div B" by (rule div_le_mono)
  thus "k div B < (off + n + (B - 1)) div B" using div_add_self2[of B k] assms(1) by linarith
qed

section \<open>Reading a file\<close>

text \<open>The size is within the limit, and a file that reaches into the tables of the directory has a directory.\<close>

definition size_ok :: "geom \<Rightarrow> 'o file_image \<Rightarrow> bool" where
  "size_ok g f \<longleftrightarrow> GetSize f \<le> MAX_FILE_SIZE g \<and> (GetSize f > SEC_INDIRECT_BLOCK_START g \<longrightarrow> m_pBitdBlk f \<noteq> None)"

text \<open>Changes of the inode that leave its blocks alone.\<close>

lemma blk_at_inode:
  assumes "m_arrBlocks n = arrBlks f"
  shows "blk_at g (f\<lparr>m_oInodeStore := n\<rparr>) d = blk_at g f d"
  using assms by (intro ext) (simp add: blk_at_def ind_entry_def sec_entry_def cong: option.case_cong)

lemma file_ok_inode:
  assumes "file_ok g f d" "m_arrBlocks n = arrBlks f"
  shows "file_ok g (f\<lparr>m_oInodeStore := n\<rparr>) d"
proof -
  have "loc g (f\<lparr>m_oInodeStore := n\<rparr>) d s = loc g f d s" for s by (cases s) (simp_all add: blk_at_inode[OF assms(2)] assms(2))
  moreover have "cache_ok g (f\<lparr>m_oInodeStore := n\<rparr>)" using file_okD(3)[OF assms(1)] assms(2) by (simp add: cache_ok_def)
  ultimately show ?thesis using file_okD[OF assms(1)] by (auto simp: file_ok_def intro: apart_cong)
qed

lemma content_cong: "(\<And>i. blk_at g f' d i = blk_at g f d i) \<Longrightarrow> content g f' d = content g f d"
  by (intro ext) (simp add: content_def)

lemma touch_atime_simps: "blk_at g (touch_atime now f) d = blk_at g f d" "GetSize (touch_atime now f) = GetSize f"
    "file_ok g f d \<Longrightarrow> file_ok g (touch_atime now f) d" "m_dwState (touch_atime now f) = m_dwState f"
    "m_pBitdBlk (touch_atime now f) = m_pBitdBlk f"
  by (simp_all add: touch_atime_def blk_at_inode file_ok_inode)

lemma touch_mtime_simps: "blk_at g (touch_mtime now f) d = blk_at g f d" "GetSize (touch_mtime now f) = GetSize f"
    "file_ok g f d \<Longrightarrow> file_ok g (touch_mtime now f) d" "m_dwState (touch_mtime now f) = m_dwState f"
    "m_pBitdBlk (touch_mtime now f) = m_pBitdBlk f"
  by (simp_all add: touch_mtime_def blk_at_inode file_ok_inode)

lemma size_ok_dir:
  assumes "geom_ok g" "size_ok g f" "dwOff + n \<le> GetSize f" "i < (dwOff + n + (BS g - 1)) div BS g" "13 + BLKIDX_PER_TABLE g \<le> i"
  shows "m_pBitdBlk f \<noteq> None"
proof -
  have B: "0 < BS g" by (rule BS_pos[OF assms(1)])
  have "(13 + BLKIDX_PER_TABLE g) * BS g \<le> i * BS g" using assms(5) by (rule mult_le_mono1)
  moreover have "i * BS g + BS g \<le> dwOff + n + (BS g - 1)"
  proof -
    have "Suc i * BS g \<le> (dwOff + n + (BS g - 1)) div BS g * BS g" using assms(4) by (intro mult_le_mono1) simp
    also have "\<dots> \<le> dwOff + n + (BS g - 1)" by simp
    finally show ?thesis by simp
  qed
  ultimately have "SEC_INDIRECT_BLOCK_START g < GetSize f" using assms(3) B unfolding sec_start by linarith
  thus ?thesis using assms(2) by (simp add: size_ok_def)
qed

text \<open>The bytes of the blocks of a range are the content of the file.\<close>

lemma content_range:
  assumes ok: "file_ok g f d" and n: "0 < n" "dwOff + n \<le> MAX_FILE_SIZE g"
    and bs: "bs = map (\<lambda>i. as_hole (blk_at g f d i)) [dwOff div BS g..<(dwOff + n + (BS g - 1)) div BS g]"
  shows "take n (drop (dwOff mod BS g) (blocks_data g d bs)) = map (content g f d) [dwOff..<dwOff + n]"
proof (rule nth_equalityI)
  note okD = file_okD[OF ok]
  have B: "0 < BS g" by (rule BS_pos[OF okD(1)])
  have len: "length bs = (dwOff + n + (BS g - 1)) div BS g - dwOff div BS g" by (simp add: bs)
  have L: "length (blocks_data g d bs) = length bs * BS g" by (rule length_blocks_data[OF okD(2)])
  have tot: "dwOff mod BS g + n \<le> length bs * BS g" by (rule range_fits[OF B n(1) len])
  show "length (take n (drop (dwOff mod BS g) (blocks_data g d bs))) = length (map (content g f d) [dwOff..<dwOff + n])"
    using tot by (simp add: L)
  fix k assume "k < length (take n (drop (dwOff mod BS g) (blocks_data g d bs)))"
  hence k: "k < n" by simp
  define x where "x = dwOff mod BS g + k"
  have x: "x < length bs * BS g" using tot k by (simp add: x_def)
  have xb: "x div BS g < length bs" using x B by (simp add: less_mult_imp_div_less)
  have eq: "dwOff + k = dwOff div BS g * BS g + x" by (simp add: x_def)
  have dm: "(dwOff + k) div BS g = dwOff div BS g + x div BS g" "(dwOff + k) mod BS g = x mod BS g"
    using B unfolding eq by simp_all
  have v: "bs ! (x div BS g) = as_hole (blk_at g f d ((dwOff + k) div BS g))" using xb len by (simp add: bs dm(1))
  have "(dwOff + k) div BS g < nblocks g"
    using xb len by (intro range_below[OF okD(1) n(2)]) (simp add: dm(1))
  hence "blk_at g f d ((dwOff + k) div BS g) \<noteq> INVALID_BLOCK_IDX"
    using loc_invalid[OF ok, of "SBlk ((dwOff + k) div BS g)"] by simp
  moreover have "x mod BS g < BS g" using B by simp
  ultimately have "block_data g d (bs ! (x div BS g)) ! (x mod BS g) = content g f d (dwOff + k)"
    by (simp add: v block_data_def as_hole_def content_def Let_def dm(2))
  moreover have "drop (dwOff mod BS g) (blocks_data g d bs) ! k = blocks_data g d bs ! x"
    using x unfolding x_def by (intro nth_drop) (simp add: L)
  ultimately show "take n (drop (dwOff mod BS g) (blocks_data g d bs)) ! k = map (content g f d) [dwOff..<dwOff + n] ! k"
    using k nth_blocks_data[OF okD(2) x] by simp
qed

lemma collect_for_read_ok:
  assumes ok: "file_ok g f d" "size_ok g f" and n: "0 < n" "dwOff + n \<le> GetSize f"
  shows "\<exists>f1. CollectBlocksForRead g dwOff n f d =
      Inr (0, map (\<lambda>i. as_hole (blk_at g f d i)) [dwOff div BS g..<(dwOff + n + (BS g - 1)) div BS g], f1) \<and> same_map g f d f1"
proof -
  note okD = file_okD[OF ok(1)]
  have max: "dwOff + n \<le> MAX_FILE_SIZE g" using n ok(2) by (simp add: size_ok_def)
  define R where "R = [dwOff div BS g..<(dwOff + n + (BS g - 1)) div BS g]"
  have inb: "\<forall>i\<in>set R. i < nblocks g" using range_below[OF okD(1) max] by (simp add: R_def)
  have dir: "\<forall>i\<in>set R. 13 + BLKIDX_PER_TABLE g \<le> i \<longrightarrow> m_pBitdBlk f \<noteq> None"
  proof (intro ballI impI)
    fix i assume "i \<in> set R" "13 + BLKIDX_PER_TABLE g \<le> i"
    thus "m_pBitdBlk f \<noteq> None" by (intro size_ok_dir[OF okD(1) ok(2) n(2)]) (simp_all add: R_def)
  qed
  obtain f1 where c: "collect_read g (arrBlks f ! BIT_IDX) R f d = Inr (0, map (\<lambda>i. as_hole (blk_at g f d i)) R, f1)" "same_map g f d f1"
    using collect_read_ok[OF ok(1) inb dir] by auto
  have "CollectBlocksForRead g dwOff n f d = collect_read g (arrBlks f ! BIT_IDX) R f d"
    using n max range_blocks_eq[OF okD(1) max] by (simp add: CollectBlocksForRead_def BEYOND_MAX_LIMIT_def R_def)
  thus ?thesis using c by (simp add: R_def)
qed

lemma read_file_ok:
  assumes ok: "file_ok g f d" "size_ok g f" and st: "m_dwState f \<noteq> FStopped"
    and n: "dwOff < GetSize f" "0 < dwSize" "dwOff + dwSize < W32" "n = min dwSize (GetSize f - dwOff)"
    and head: "dwOff mod BS g \<noteq> 0 \<Longrightarrow> blk_at g f d (dwOff div BS g) \<noteq> 0"
    and tail: "(dwOff + n) mod BS g \<noteq> 0 \<Longrightarrow> blk_at g f d ((dwOff + n) div BS g) \<noteq> 0"
  shows "\<exists>ret f'. CFileImage_ReadFile g now dwOff dwSize f d = Inr (ret, n, map (content g f d) [dwOff..<dwOff + n], f') \<and>
    ret > 0 \<and> file_ok g f' d \<and> size_ok g f' \<and> GetSize f' = GetSize f \<and> (\<forall>k. content g f' d k = content g f d k)"
proof -
  note okD = file_okD[OF ok(1)]
  have B: "0 < BS g" by (rule BS_pos[OF okD(1)])
  have n0: "0 < n" and lt: "dwOff + n < W32" and le: "dwOff + n \<le> GetSize f" using n by auto
  have max: "dwOff + n \<le> MAX_FILE_SIZE g" "dwOff < MAX_FILE_SIZE g" using le n ok(2) by (auto simp: size_ok_def)
  define R where "R = [dwOff div BS g..<(dwOff + n + (BS g - 1)) div BS g]"
  define bs where "bs = map (\<lambda>i. as_hole (blk_at g f d i)) R"
  obtain f1 where col: "CollectBlocksForRead g dwOff n f d = Inr (0, bs, f1)" "same_map g f d f1"
    using collect_for_read_ok[OF ok n0 le] unfolding bs_def R_def by blast
  have len: "length bs = (dwOff + n + (BS g - 1)) div BS g - dwOff div BS g" by (simp add: bs_def R_def)
  note L = range_length[OF B n0 len]
  have Rne: "dwOff div BS g < (dwOff + n + (BS g - 1)) div BS g" using L(1) len by linarith
  have inv: "as_hole (blk_at g f d i) \<noteq> INVALID_BLOCK_IDX" if "blk_at g f d i \<noteq> 0" "i < nblocks g" for i
    using loc_invalid[OF ok(1), of "SBlk i"] that by (simp add: as_hole_def)
  have hd: "hd bs \<noteq> INVALID_BLOCK_IDX" if "dwOff mod BS g \<noteq> 0"
  proof -
    have "hd bs = as_hole (blk_at g f d (dwOff div BS g))" using Rne by (simp add: bs_def R_def hd_map upt_conv_Cons)
    thus ?thesis using inv[OF head[OF that]] range_below[OF okD(1) max(1) Rne] by simp
  qed
  have last: "last bs \<noteq> INVALID_BLOCK_IDX" if t: "(dwOff + n) mod BS g \<noteq> 0"
  proof -
    have e: "(dwOff + n + (BS g - 1)) div BS g = Suc ((dwOff + n) div BS g)" by (rule div_up[OF t B])
    hence "last bs = as_hole (blk_at g f d ((dwOff + n) div BS g))" using Rne by (simp add: bs_def R_def)
    thus ?thesis using inv[OF tail[OF t]] range_below[OF okD(1) max(1)] e by simp
  qed
  obtain ret where r: "read_data g dwOff n bs d = Inr (ret, map (content g f d) [dwOff..<dwOff + n])" "ret > 0"
    using read_data_ok[OF okD(2) B n0 lt len hd last] content_range[OF ok(1) n0 max(1) bs_def[unfolded R_def]] by auto
  have nr: "(if (dwOff + dwSize) mod W32 > GetSize f then GetSize f - dwOff else dwSize) = n" using n by auto
  have f1: "file_ok g f1 d" "m_oInodeStore f1 = m_oInodeStore f" "m_pBitdBlk f1 = m_pBitdBlk f"
    "\<And>i. blk_at g f1 d i = blk_at g f d i" using col(2) by (auto simp: same_map_def)
  have same: "file_ok g f' d \<and> size_ok g f' \<and> GetSize f' = GetSize f \<and> (\<forall>k. content g f' d k = content g f d k)"
    if "f' = f1 \<or> f' = touch_atime now f1" for f'
  proof -
    have "blk_at g f' d i = blk_at g f d i" for i using that f1(4) touch_atime_simps(1)[of g now f1 d] by auto
    hence "\<forall>k. content g f' d k = content g f d k" using content_cong[of g f' d f] by simp
    thus ?thesis using that f1 ok(2) by (auto simp: size_ok_def touch_atime_simps)
  qed
  have "CFileImage_ReadFile g now dwOff dwSize f d = Inr (ret, n, map (content g f d) [dwOff..<dwOff + n],
      if dwOff mod BS g \<noteq> 0 \<and> length bs = 1 then f1 else touch_atime now f1)"
    using st n(1) max(2) r by (simp add: CFileImage_ReadFile_def BEYOND_MAX_LIMIT_def Let_def nr col(1))
  thus ?thesis using r(2) same by auto
qed

end
