(* ===== verification/FileWrite.thy ===== *)
theory FileWrite
  imports FileView
begin

text \<open>
  Writing a file: \<open>CollectBlocksForWrite\<close> gives every block of the range a block of its own, fresh where there was none, and
  leaves every other slot as it was; then the data go where reading finds them.
\<close>

section \<open>Growing a file\<close>

text \<open>The file and the device after some steps of allocation: \<open>used\<close> are the blocks taken, \<open>I\<close> the blocks of the file that may be new.\<close>

definition more_cached :: "'o file_image \<Rightarrow> 'o file_image \<Rightarrow> bool" where
  "more_cached f f' \<longleftrightarrow> (m_pBitBlk f \<noteq> None \<longrightarrow> m_pBitBlk f' \<noteq> None) \<and>
    (\<forall>k. map_of (m_mapSecBitBlks f) k \<noteq> None \<longrightarrow> map_of (m_mapSecBitBlks f') k \<noteq> None)"

definition grow :: "geom \<Rightarrow> nat set \<Rightarrow> nat list \<Rightarrow> 'o file_image \<Rightarrow> dev \<Rightarrow> 'o file_image \<Rightarrow> dev \<Rightarrow> bool" where
  "grow g I used f d f' d' \<longleftrightarrow> file_ok g f' d' \<and> d_free d = used @ d_free d' \<and> d_err d' = d_err d \<and>
    (\<forall>b. b \<notin> set used \<longrightarrow> d_blk d' b = d_blk d b) \<and>
    (\<forall>s\<in>slots g. loc g f' d' s = loc g f d s \<or> loc g f d s = 0 \<and> loc g f' d' s \<in> set used) \<and>
    (\<forall>i<nblocks g. i \<notin> I \<longrightarrow> blk_at g f' d' i = blk_at g f d i) \<and>
    m_oInodeStore f' = (m_oInodeStore f)\<lparr>m_arrBlocks := arrBlks f'\<rparr> \<and> m_dwInodeIdx f' = m_dwInodeIdx f \<and>
    m_dwState f' = m_dwState f \<and> m_oValue f' = m_oValue f \<and> (m_pBitdBlk f \<noteq> None \<longrightarrow> m_pBitdBlk f' \<noteq> None) \<and>
    more_cached f f'"

lemma growD:
  assumes "grow g I used f d f' d'"
  shows "file_ok g f' d'" "d_free d = used @ d_free d'" "d_err d' = d_err d" "b \<notin> set used \<Longrightarrow> d_blk d' b = d_blk d b"
    "s \<in> slots g \<Longrightarrow> loc g f' d' s = loc g f d s \<or> loc g f d s = 0 \<and> loc g f' d' s \<in> set used"
    "i < nblocks g \<Longrightarrow> i \<notin> I \<Longrightarrow> blk_at g f' d' i = blk_at g f d i"
    "m_oInodeStore f' = (m_oInodeStore f)\<lparr>m_arrBlocks := arrBlks f'\<rparr>" "m_dwState f' = m_dwState f"
    "m_pBitdBlk f \<noteq> None \<Longrightarrow> m_pBitdBlk f' \<noteq> None" "m_dwInodeIdx f' = m_dwInodeIdx f" "m_oValue f' = m_oValue f"
    "more_cached f f'"
  using assms by (simp_all add: grow_def)

lemma free_pos: "file_ok g f d \<Longrightarrow> b \<in> set (d_free d) \<Longrightarrow> 0 < b \<and> blk_ok b"
  by (simp add: file_ok_def apart_def)

lemma fresh: "file_ok g f d \<Longrightarrow> b \<in> set (d_free d) \<Longrightarrow> s \<in> slots g \<Longrightarrow> loc g f d s \<noteq> b"
  by (simp add: file_ok_def apart_def)

lemma grow_keeps:
  assumes "grow g I used f d f' d'" "s \<in> slots g" "loc g f d s \<noteq> 0" shows "loc g f' d' s = loc g f d s"
  using growD(5)[OF assms(1,2)] assms(3) by auto

lemma grow_refl: "same_map g f d f' \<Longrightarrow> m_oValue f' = m_oValue f \<Longrightarrow> more_cached f f' \<Longrightarrow> grow g {} [] f d f' d"
proof -
  assume s: "same_map g f d f'" "m_oValue f' = m_oValue f" "more_cached f f'"
  have "loc g f' d s = loc g f d s" for s using s by (intro loc_blocks) (auto simp: same_map_def)
  thus ?thesis using s by (simp add: grow_def same_map_def)
qed

lemma grow_trans:
  assumes ok: "file_ok g f d" and 1: "grow g I u1 f d f1 d1" and 2: "grow g J u2 f1 d1 f2 d2"
  shows "grow g (I \<union> J) (u1 @ u2) f d f2 d2"
proof -
  have "loc g f2 d2 s = loc g f d s \<or> loc g f d s = 0 \<and> loc g f2 d2 s \<in> set (u1 @ u2)" if s: "s \<in> slots g" for s
  proof (cases "loc g f1 d1 s = loc g f d s")
    case True
    thus ?thesis using growD(5)[OF 2 s] by auto
  next
    case False
    hence a: "loc g f d s = 0" "loc g f1 d1 s \<in> set u1" using growD(5)[OF 1 s] by auto
    hence "loc g f1 d1 s \<noteq> 0" using free_pos[OF ok, of "loc g f1 d1 s"] growD(2)[OF 1] by auto
    thus ?thesis using grow_keeps[OF 2 s] a by simp
  qed
  moreover have "m_oInodeStore f2 = (m_oInodeStore f)\<lparr>m_arrBlocks := arrBlks f2\<rparr>"
    by (subst growD(7)[OF 2], subst growD(7)[OF 1]) simp
  moreover have "more_cached f f2" using growD(12)[OF 1] growD(12)[OF 2] unfolding more_cached_def by blast
  moreover have "\<And>b. b \<notin> set (u1 @ u2) \<Longrightarrow> d_blk d2 b = d_blk d b" using growD(4)[OF 1] growD(4)[OF 2] by auto
  moreover have "\<And>i. i < nblocks g \<Longrightarrow> i \<notin> I \<union> J \<Longrightarrow> blk_at g f2 d2 i = blk_at g f d i"
    using growD(6)[OF 1] growD(6)[OF 2] by auto
  ultimately show ?thesis
    using growD(2,3,8,9,10,11)[OF 1] growD(1,2,3,8,9,10,11)[OF 2] unfolding grow_def by auto
qed

text \<open>Taking one fresh block for one empty slot.\<close>

lemma grow_take:
  assumes ok: "file_ok g f d" and free: "d_free d = b # fs" and s0: "s0 \<in> slots g" "loc g f d s0 = 0"
    and d': "d_free d' = fs" "d_err d' = d_err d" "\<And>c. c \<noteq> b \<Longrightarrow> d_blk d' c = d_blk d c" "length (d_blk d' b) = BS g"
    and f': "cache_ok g f'" "m_oInodeStore f' = (m_oInodeStore f)\<lparr>m_arrBlocks := arrBlks f'\<rparr>" "m_dwInodeIdx f' = m_dwInodeIdx f"
      "m_dwState f' = m_dwState f" "m_oValue f' = m_oValue f" "m_pBitdBlk f \<noteq> None \<Longrightarrow> m_pBitdBlk f' \<noteq> None" "more_cached f f'"
    and loc: "\<And>s. s \<in> slots g \<Longrightarrow> loc g f' d' s = ((loc g f d)(s0 := b)) s"
    and I: "\<And>i. s0 = SBlk i \<Longrightarrow> i \<in> I"
  shows "grow g I [b] f d f' d'"
proof -
  note okD = file_okD[OF ok]
  have "apart (slots g) (loc g f' d') fs"
    using apart_take[OF okD(4)[unfolded free] s0, of "loc g f' d'"] loc by blast
  moreover have "length (d_blk d' c) = BS g" for c using d'(3)[of c] d'(4) okD(2) by (cases "c = b") (simp_all add: dev_ok_def)
  hence "dev_ok g d'" using okD(2) d'(2) by (simp add: dev_ok_def)
  ultimately have "file_ok g f' d'" using okD(1) f'(1) d'(1) by (simp add: file_ok_def)
  moreover have "blk_at g f' d' i = blk_at g f d i" if "i < nblocks g" "i \<notin> I" for i
    using loc[of "SBlk i"] I[of i] that by (auto simp: fun_upd_def split: if_splits)
  ultimately show ?thesis using free d' f' loc s0(2) by (auto simp: grow_def)
qed

text \<open>The map depends on the device only where a table is not cached.\<close>

lemma blk_at_dev:
  assumes bit: "arrBlks f ! BIT_IDX \<noteq> 0 \<Longrightarrow> m_pBitBlk f = None \<Longrightarrow> d_blk d' (arrBlks f ! BIT_IDX) = d_blk d (arrBlks f ! BIT_IDX)"
    and tab: "\<And>k. k < BLKIDX_PER_TABLE g \<Longrightarrow> tab_loc f k \<noteq> 0 \<Longrightarrow> map_of (m_mapSecBitBlks f) k = None \<Longrightarrow>
      d_blk d' (tab_loc f k) = d_blk d (tab_loc f k)"
    and g: "geom_ok g" "i < nblocks g"
  shows "blk_at g f d' i = blk_at g f d i"
proof -
  have "ind_entry j f d' = ind_entry j f d" for j using bit by (auto simp: ind_entry_def split: option.split)
  moreover have "sec_entry (tab_no g i) l f d' = sec_entry (tab_no g i) l f d" for l
    using tab[of "tab_no g i"] tab_bounds(2)[OF g] by (auto simp: sec_entry_def split: option.split)
  ultimately show ?thesis by (simp add: blk_at_def)
qed

lemma entry_free [simp]: "ind_entry j f (d\<lparr>d_free := fs\<rparr>) = ind_entry j f d" "sec_entry k l f (d\<lparr>d_free := fs\<rparr>) = sec_entry k l f d"
  by (simp_all add: ind_entry_def sec_entry_def cong: option.case_cong)

lemma set_blk_simps [simp]:
  "m_oInodeStore (set_blk i b f) = (m_oInodeStore f)\<lparr>m_arrBlocks := (arrBlks f)[i := b]\<rparr>" "m_pBitBlk (set_blk i b f) = m_pBitBlk f"
  "m_pBitdBlk (set_blk i b f) = m_pBitdBlk f" "m_mapSecBitBlks (set_blk i b f) = m_mapSecBitBlks f"
  "m_dwInodeIdx (set_blk i b f) = m_dwInodeIdx f" "m_dwState (set_blk i b f) = m_dwState f" "m_oValue (set_blk i b f) = m_oValue f"
  "tab_loc (set_blk i b f) k = tab_loc f k"
  by (simp_all add: set_blk_def tab_loc_def)

section \<open>The ways to take a block\<close>

lemma take_direct:
  assumes ok: "file_ok g f d" and free: "d_free d = b # fs" and i: "i < 13" "arrBlks f ! i = 0"
  shows "grow g {i} [b] f d (set_blk i b f) (d\<lparr>d_free := fs\<rparr>)"
proof (rule grow_take[where ?s0.0 = "SBlk i", OF ok free])
  have c: "length (arrBlks f) = 15" using file_okD(3)[OF ok] by (simp add: cache_ok_def)
  show "SBlk i \<in> slots g" using i by (simp add: nblocks_def)
  show "loc g f d (SBlk i) = 0" using i by (simp add: blk_at_def)
  show "cache_ok g (set_blk i b f)" using file_okD(3)[OF ok] i by (simp add: cache_ok_def)
  show "loc g (set_blk i b f) (d\<lparr>d_free := fs\<rparr>) s = ((loc g f d)(SBlk i := b)) s" for s
    using i c by (cases s) (auto simp: blk_at_def ind_entry_def sec_entry_def cong: option.case_cong)
qed (use file_okD(2)[OF ok] i in \<open>simp_all add: dev_ok_def more_cached_def update_conv'\<close>)

lemma take_bit:
  assumes ok: "file_ok g f d" and free: "d_free d = b # fs" and z: "arrBlks f ! BIT_IDX = 0"
  shows "grow g {} [b] f d (set_blk BIT_IDX b (f\<lparr>m_pBitBlk := Some (zero_table g)\<rparr>)) (d\<lparr>d_free := fs\<rparr>)" (is "grow g {} [b] f d ?f ?d")
proof (rule grow_take[where ?s0.0 = SBit, OF ok free])
  have c: "length (arrBlks f) = 15" using file_okD(3)[OF ok] by (simp add: cache_ok_def)
  show "cache_ok g ?f" using file_okD(3)[OF ok] free_pos[OF ok, of b] free by (simp add: cache_ok_def)
  have s: "blk_at g ?f ?d i = blk_at g f d i" for i
    using z c by (auto simp: blk_at_def ind_entry_def sec_entry_def cong: option.case_cong)
  show "loc g ?f ?d s = ((loc g f d)(SBit := b)) s" for s
    using c by (cases s) (auto simp: s)
qed (use file_okD(2)[OF ok] z in \<open>simp_all add: dev_ok_def more_cached_def update_conv'\<close>)

lemma take_ind:
  assumes ok: "file_ok g f d" and free: "d_free d = b # fs" and t: "m_pBitBlk f = Some t" "t ! j = 0" "j < BLKIDX_PER_TABLE g"
  shows "grow g {13 + j} [b] f d (f\<lparr>m_pBitBlk := Some (t[j := b])\<rparr>) (d\<lparr>d_free := fs\<rparr>)" (is "grow g _ [b] f d ?f ?d")
proof (rule grow_take[where ?s0.0 = "SBlk (13 + j)", OF ok free])
  have c: "length t = BLKIDX_PER_TABLE g" "arrBlks f ! BIT_IDX \<noteq> 0" using file_okD(3)[OF ok] t by (auto simp: cache_ok_def)
  show "SBlk (13 + j) \<in> slots g" using t(3) by (simp add: nblocks_def)
  show "loc g f d (SBlk (13 + j)) = 0" using t by (simp add: blk_at_def ind_entry_def)
  show "cache_ok g ?f" using file_okD(3)[OF ok] t c by (simp add: cache_ok_def)
  have s: "blk_at g ?f ?d i = (if i = 13 + j then b else blk_at g f d i)" for i
    using t c by (auto simp: blk_at_def ind_entry_def sec_entry_def nth_list_update cong: option.case_cong)
  show "loc g ?f ?d s = ((loc g f d)(SBlk (13 + j) := b)) s" for s
    by (cases s) (auto simp: s)
qed (use file_okD(2)[OF ok] in \<open>simp_all add: dev_ok_def more_cached_def update_conv'\<close>)

lemma take_dir:
  assumes ok: "file_ok g f d" and free: "d_free d = b # fs" and z: "arrBlks f ! BITD_IDX = 0"
  shows "grow g {} [b] f d (set_blk BITD_IDX b (f\<lparr>m_pBitdBlk := Some (zero_table g)\<rparr>)) (d\<lparr>d_free := fs\<rparr>)" (is "grow g {} [b] f d ?f ?d")
proof (rule grow_take[where ?s0.0 = SDir, OF ok free])
  have c: "length (arrBlks f) = 15" using file_okD(3)[OF ok] by (simp add: cache_ok_def)
  have n: "m_pBitdBlk f = None" using file_okD(3)[OF ok] z by (simp add: cache_ok_def)
  hence t: "tab_loc f k = 0" for k by (simp add: tab_loc_def)
  hence "map_of (m_mapSecBitBlks f) k = None" for k using file_okD(3)[OF ok] by (auto simp: cache_ok_def)
  thus "cache_ok g ?f" using file_okD(3)[OF ok] free_pos[OF ok, of b] free c by (simp add: cache_ok_def)
  have t': "tab_loc ?f k = 0" if "k < BLKIDX_PER_TABLE g" for k using that by (simp add: tab_loc_def set_blk_def)
  show "loc g ?f ?d s = ((loc g f d)(SDir := b)) s" if "s \<in> slots g" for s
    using that c t' t tab_bounds(2)[OF file_okD(1)[OF ok]]
    by (cases s) (auto simp: blk_at_def ind_entry_def sec_entry_def cong: option.case_cong)
qed (use file_okD(2)[OF ok] z in \<open>simp_all add: dev_ok_def more_cached_def update_conv'\<close>)

lemma length_words_bytes [simp]: "length (words_bytes t) = 4 * length t"
  by (induction t) (simp_all add: words_bytes_def)

lemma cache_tab: "cache_ok g f \<Longrightarrow> map_of (m_mapSecBitBlks f) k = Some t \<Longrightarrow>
    length t = BLKIDX_PER_TABLE g \<and> k < BLKIDX_PER_TABLE g \<and> tab_loc f k \<noteq> 0"
  unfolding cache_ok_def by blast

lemma no_tab: "cache_ok g f \<Longrightarrow> tab_loc f k = 0 \<Longrightarrow> map_of (m_mapSecBitBlks f) k = None"
  using cache_tab[of g f k] by (cases "map_of (m_mapSecBitBlks f) k") auto

text \<open>A fresh table: its block is written as zeros.\<close>

lemma take_tab:
  assumes ok: "file_ok g f d" and free: "d_free d = b # fs" and p: "m_pBitdBlk f = Some p" "p ! k = 0" "k < BLKIDX_PER_TABLE g"
    and x: "length x = BS g"
  shows "grow g {} [b] f d (f\<lparr>m_pBitdBlk := Some (p[k := b]), m_mapSecBitBlks := map_insert_new k (zero_table g) (m_mapSecBitBlks f)\<rparr>)
    (d\<lparr>d_free := fs, d_blk := (d_blk d)(b := x)\<rparr>)" (is "grow g {} [b] f d ?f ?d")
proof (rule grow_take[where ?s0.0 = "STab k", OF ok free])
  note okD = file_okD[OF ok]
  have len: "length p = BLKIDX_PER_TABLE g" using okD(3) p by (simp add: cache_ok_def)
  have b: "0 < b" using free_pos[OF ok, of b] free by simp
  have t0: "tab_loc f k = 0" using p by (simp add: tab_loc_def)
  hence m: "map_of (m_mapSecBitBlks f) k = None" by (rule no_tab[OF okD(3)])
  have t: "tab_loc ?f j = (if j = k then b else tab_loc f j)" if "j < BLKIDX_PER_TABLE g" for j
    using that p len by (simp add: tab_loc_def nth_list_update)
  show "cache_ok g ?f" unfolding cache_ok_def
  proof (intro conjI allI impI)
    fix j u assume "map_of (m_mapSecBitBlks ?f) j = Some u"
    hence "length u = BLKIDX_PER_TABLE g \<and> j < BLKIDX_PER_TABLE g \<and> (j = k \<or> tab_loc f j \<noteq> 0)"
      using cache_tab[OF okD(3), of j u] p(3) by (auto simp: map_of_insert_new split: if_splits)
    thus "length u = BLKIDX_PER_TABLE g" "j < BLKIDX_PER_TABLE g" "tab_loc ?f j \<noteq> 0" using t b by auto
  qed (use okD(3) p len in \<open>auto simp: cache_ok_def\<close>)
  have same: "d_blk ?d (loc g f d s) = d_blk d (loc g f d s)" if "s \<in> slots g" for s
    using fresh[OF ok _ that, of b] free by simp
  have blk: "blk_at g ?f ?d i = blk_at g f d i" if i: "i < nblocks g" for i
  proof -
    note k = tab_bounds[OF okD(1), of i]
    have "blk_at g ?f ?d i = blk_at g f ?d i"
      using t[OF k(2)[OF i]] t0 b k(1) m
      by (auto simp: blk_at_def ind_entry_def sec_entry_def map_of_insert_new cong: option.case_cong)
    also have "\<dots> = blk_at g f d i" using same[of SBit] same[of "STab j" for j] by (intro blk_at_dev okD(1) i) auto
    finally show ?thesis .
  qed
  show "loc g ?f ?d s = ((loc g f d)(STab k := b)) s" if "s \<in> slots g" for s
    using that t blk by (cases s) auto
  show "length (d_blk ?d b) = BS g" by (simp add: x)
qed (use p in \<open>simp_all add: tab_loc_def more_cached_def map_of_insert_new\<close>)

lemma take_sec:
  assumes ok: "file_ok g f d" and free: "d_free d = b # fs" and i: "i < nblocks g" "13 + BLKIDX_PER_TABLE g \<le> i"
    and t: "map_of (m_mapSecBitBlks f) (tab_no g i) = Some t" "t ! tab_ent g i = 0"
  shows "grow g {i} [b] f d (f\<lparr>m_mapSecBitBlks := AList.update (tab_no g i) (t[tab_ent g i := b]) (m_mapSecBitBlks f)\<rparr>)
    (d\<lparr>d_free := fs\<rparr>)" (is "grow g _ [b] f d ?f ?d")
proof (rule grow_take[where ?s0.0 = "SBlk i", OF ok free])
  note okD = file_okD[OF ok]
  note k = tab_bounds[OF okD(1)]
  have c: "length t = BLKIDX_PER_TABLE g" "tab_loc f (tab_no g i) \<noteq> 0" using okD(3) t by (auto simp: cache_ok_def)
  show "SBlk i \<in> slots g" using i by simp
  show "loc g f d (SBlk i) = 0" using t i by (simp add: blk_at_def sec_entry_def)
  show "cache_ok g ?f" using okD(3) t by (auto simp: cache_ok_def update_conv' split: if_splits)
  have s: "blk_at g ?f ?d j = (if j = i then b else blk_at g f d j)" for j
  proof (cases "13 + BLKIDX_PER_TABLE g \<le> j")
    case True
    have "t[tab_ent g i := b] ! tab_ent g j = (if tab_ent g j = tab_ent g i then b else t ! tab_ent g j)"
      using c(1) k(1)[of i] by simp
    moreover have "tab_no g j = tab_no g i \<Longrightarrow> tab_ent g j = tab_ent g i \<Longrightarrow> j = i"
      using tab_inj[OF okD(1) True i(2)] by blast
    ultimately show ?thesis using True t c by (auto simp: blk_at_def sec_entry_def update_conv' cong: option.case_cong)
  next
    case False
    thus ?thesis using i by (auto simp: blk_at_def ind_entry_def cong: option.case_cong)
  qed
  show "loc g ?f ?d u = ((loc g f d)(SBlk i := b)) u" for u
    by (cases u) (auto simp: s)
qed (use file_okD(2)[OF ok] in \<open>simp_all add: dev_ok_def more_cached_def update_conv'\<close>)

section \<open>Steps of the collection\<close>

text \<open>The variables are in step with the file: the indices of the two tables, and what is marked dirty exists and is cached.\<close>

definition wok :: "geom \<Rightarrow> 'o wstate \<Rightarrow> bool" where
  "wok g w \<longleftrightarrow> file_ok g (w_f w) (w_d w) \<and> dwIndirectIdx w = arrBlks (w_f w) ! BIT_IDX \<and> dw2IndIdx w = arrBlks (w_f w) ! BITD_IDX \<and>
    (\<forall>(b, k)\<in>set (mapDirtyBlks2 w). tab_loc (w_f w) k = b \<and> map_of (m_mapSecBitBlks (w_f w)) k \<noteq> None) \<and>
    (bDirtyBitd w \<longrightarrow> m_pBitdBlk (w_f w) \<noteq> None) \<and> (bDirtyBit w \<longrightarrow> m_pBitBlk (w_f w) \<noteq> None)"

definition wgrow :: "geom \<Rightarrow> nat set \<Rightarrow> nat \<Rightarrow> 'o wstate \<Rightarrow> 'o wstate \<Rightarrow> bool" where
  "wgrow g I n w w' \<longleftrightarrow> wok g w' \<and> (\<exists>used. length used \<le> n \<and> grow g I used (w_f w) (w_d w) (w_f w') (w_d w'))"

lemma wok_file: "wok g w \<Longrightarrow> file_ok g (w_f w) (w_d w)"
  by (simp add: wok_def)

lemma wgrow_trans:
  assumes "wok g w" "wgrow g I n w w1" "wgrow g J m w1 w2" shows "wgrow g (I \<union> J) (n + m) w w2"
proof -
  obtain u1 u2 where "length u1 \<le> n" "grow g I u1 (w_f w) (w_d w) (w_f w1) (w_d w1)"
    "length u2 \<le> m" "grow g J u2 (w_f w1) (w_d w1) (w_f w2) (w_d w2)" using assms(2,3) by (auto simp: wgrow_def)
  hence "length (u1 @ u2) \<le> n + m \<and> grow g (I \<union> J) (u1 @ u2) (w_f w) (w_d w) (w_f w2) (w_d w2)"
    using grow_trans[OF wok_file[OF assms(1)]] by auto
  thus ?thesis using assms(3) unfolding wgrow_def by blast
qed

lemma wgrow_free: "wgrow g I n w w' \<Longrightarrow> length (d_free (w_d w)) \<le> length (d_free (w_d w')) + n"
  by (auto simp: wgrow_def grow_def)

lemma dirty_kept:
  assumes "wok g w" "grow g I u (w_f w) (w_d w) f' d'" "(b, k) \<in> set (mapDirtyBlks2 w)"
  shows "tab_loc f' k = b \<and> map_of (m_mapSecBitBlks f') k \<noteq> None"
proof -
  have t: "tab_loc (w_f w) k = b" "map_of (m_mapSecBitBlks (w_f w)) k \<noteq> None" using assms(1,3) by (auto simp: wok_def)
  then obtain t where "map_of (m_mapSecBitBlks (w_f w)) k = Some t" by auto
  hence "k < BLKIDX_PER_TABLE g" "b \<noteq> 0" using cache_tab[OF file_okD(3)[OF wok_file[OF assms(1)]]] t by auto
  hence "loc g f' d' (STab k) = b" using grow_keeps[OF assms(2), of "STab k"] t by simp
  thus ?thesis using growD(12)[OF assms(2)] t(2) by (simp add: more_cached_def)
qed

text \<open>From a step of the file to a step of the variables.\<close>

lemma wgrowI:
  assumes w: "wok g w" and gr: "grow g I u (w_f w) (w_d w) (w_f w') (w_d w')" "length u \<le> n"
    and i: "dwIndirectIdx w' = arrBlks (w_f w') ! BIT_IDX" "dw2IndIdx w' = arrBlks (w_f w') ! BITD_IDX"
    and m: "\<And>b k. (b, k) \<in> set (mapDirtyBlks2 w') \<Longrightarrow> (b, k) \<in> set (mapDirtyBlks2 w) \<or>
      tab_loc (w_f w') k = b \<and> map_of (m_mapSecBitBlks (w_f w')) k \<noteq> None"
    and b: "bDirtyBitd w' \<Longrightarrow> bDirtyBitd w \<or> m_pBitdBlk (w_f w') \<noteq> None" "bDirtyBit w' \<Longrightarrow> bDirtyBit w \<or> m_pBitBlk (w_f w') \<noteq> None"
  shows "wgrow g I n w w'"
proof -
  have "bDirtyBitd w' \<Longrightarrow> m_pBitdBlk (w_f w') \<noteq> None" using b(1) growD(9)[OF gr(1)] w by (auto simp: wok_def)
  moreover have "bDirtyBit w' \<Longrightarrow> m_pBitBlk (w_f w') \<noteq> None" using b(2) growD(12)[OF gr(1)] w by (auto simp: wok_def more_cached_def)
  moreover have "\<forall>(b, k)\<in>set (mapDirtyBlks2 w'). tab_loc (w_f w') k = b \<and> map_of (m_mapSecBitBlks (w_f w')) k \<noteq> None"
    using m dirty_kept[OF w gr(1)] by fast
  ultimately have "wok g w'" using growD(1)[OF gr(1)] i by (auto simp: wok_def)
  thus ?thesis using gr by (auto simp: wgrow_def)
qed

lemma w_alloc_eq: "d_free (w_d w) = b # fs \<Longrightarrow> w_alloc w = (0, b, w\<lparr>w_d := (w_d w)\<lparr>d_free := fs\<rparr>\<rparr>)"
  by (simp add: w_alloc_def dev_Alloc_def)

definition step_ok :: "geom \<Rightarrow> nat \<Rightarrow> nat \<Rightarrow> 'o wstate \<Rightarrow> (gint32 \<times> 'o wstate) run \<Rightarrow> bool" where
  "step_ok g i n w r \<longleftrightarrow> (\<exists>w'. r = Inr (0, w') \<and> wgrow g {i} n w w' \<and>
     w_vec w' = w_vec w @ [blk_at g (w_f w') (w_d w') i] \<and> blk_at g (w_f w') (w_d w') i \<noteq> 0)"

lemma wgrow_refl: "wok g w \<Longrightarrow> w_f w' = w_f w \<Longrightarrow> w_d w' = w_d w \<Longrightarrow> wok g w' \<Longrightarrow> wgrow g I n w w'"
  unfolding wgrow_def
  by (rule conjI, assumption, rule exI[of _ "[]"]) (auto simp: grow_def wok_def more_cached_def)

lemma write_direct_ok:
  assumes w: "wok g w" and i: "i < 13" and free: "d_free (w_d w) \<noteq> []"
  shows "step_ok g i 1 w (write_direct safe i w)"
proof (cases "arrBlks (w_f w) ! i = 0")
  case False
  let ?w = "push (arrBlks (w_f w) ! i) (w\<lparr>bDirtyInode := bDirtyInode w \<or> safe\<rparr>)"
  have "wgrow g {i} 1 w ?w" using w by (intro wgrow_refl) (auto simp: push_def wok_def)
  thus ?thesis using False i by (auto simp: step_ok_def write_direct_def push_def blk_at_def)
next
  case True
  then obtain b fs where free: "d_free (w_d w) = b # fs" using free by (cases "d_free (w_d w)") auto
  note ok = wok_file[OF w]
  let ?w = "push b (upd_f (set_blk i b) (w\<lparr>w_d := (w_d w)\<lparr>d_free := fs\<rparr>, bDirtyInode := bDirtyInode w \<or> safe\<rparr>))"
  have g: "grow g {i} [b] (w_f w) (w_d w) (set_blk i b (w_f w)) ((w_d w)\<lparr>d_free := fs\<rparr>)" by (rule take_direct[OF ok free i True])
  have len: "length (arrBlks (w_f w)) = 15" using file_okD(3)[OF ok] by (simp add: cache_ok_def)
  have "wgrow g {i} 1 w ?w" using g w i by (intro wgrowI[where u = "[b]"]) (auto simp: push_def upd_f_def wok_def)
  moreover have "b \<noteq> 0" using free_pos[OF ok, of b] free by simp
  ultimately show ?thesis using True i len
    by (auto simp: step_ok_def write_direct_def w_alloc_eq[OF free] push_def upd_f_def blk_at_def)
qed

lemma step_ok_after:
  assumes "wok g w" "wgrow g {} m w w1" "w_vec w1 = w_vec w" "step_ok g i n w1 r" shows "step_ok g i (m + n) w r"
  using assms wgrow_trans[OF assms(1,2)] unfolding step_ok_def by fastforce

lemma get_bit_ok:
  assumes w: "wok g w" and free: "d_free (w_d w) \<noteq> []"
  shows "\<exists>w'. get_bit g safe w = (0, w') \<and> wgrow g {} 1 w w' \<and> w_vec w' = w_vec w \<and> m_pBitBlk (w_f w') \<noteq> None"
proof -
  note ok = wok_file[OF w]
  note idx = w[unfolded wok_def, THEN conjunct2, THEN conjunct1]
  consider "arrBlks (w_f w) ! BIT_IDX = 0" | "arrBlks (w_f w) ! BIT_IDX \<noteq> 0" "m_pBitBlk (w_f w) = None"
    | "arrBlks (w_f w) ! BIT_IDX \<noteq> 0" "m_pBitBlk (w_f w) \<noteq> None" by blast
  thus ?thesis
  proof cases
    case 1
    then obtain b fs where free: "d_free (w_d w) = b # fs" using free by (cases "d_free (w_d w)") auto
    let ?f = "set_blk BIT_IDX b ((w_f w)\<lparr>m_pBitBlk := Some (zero_table g)\<rparr>)"
    let ?w = "w\<lparr>w_d := (w_d w)\<lparr>d_free := fs\<rparr>, dwIndirectIdx := b, bDirtyInode := bDirtyInode w \<or> safe, w_f := ?f\<rparr>"
    have "length (arrBlks (w_f w)) = 15" using file_okD(3)[OF ok] by (simp add: cache_ok_def)
    hence "wgrow g {} 1 w ?w" using take_bit[OF ok free 1] w by (intro wgrowI[where u = "[b]"]) (auto simp: wok_def)
    moreover have "get_bit g safe w = (0, ?w)" using 1 idx by (simp add: get_bit_def w_alloc_eq[OF free] upd_f_def)
    ultimately show ?thesis by simp
  next
    case 2
    let ?f = "(w_f w)\<lparr>m_pBitBlk := Some (table_of (d_blk (w_d w) (arrBlks (w_f w) ! BIT_IDX)))\<rparr>"
    have "arrBlks (w_f w) ! BIT_IDX \<noteq> INVALID_BLOCK_IDX" using loc_invalid[OF ok, of SBit] by simp
    hence "get_bit g safe w = (0, w\<lparr>w_f := ?f\<rparr>)" using 2 idx
      by (simp add: get_bit_def read_ok[OF file_okD(2)[OF ok]] upd_f_def)
    moreover have "grow g {} [] (w_f w) (w_d w) ?f (w_d w)" using load_bit[OF ok 2(2,1)] by (intro grow_refl) (simp_all add: more_cached_def)
    hence "wgrow g {} 1 w (w\<lparr>w_f := ?f\<rparr>)" using w by (intro wgrowI[where u = "[]"]) (auto simp: wok_def)
    ultimately show ?thesis by simp
  next
    case 3
    hence "get_bit g safe w = (0, w)" using idx by (auto simp: get_bit_def)
    moreover have "wgrow g {} 1 w w" using w by (intro wgrow_refl) auto
    ultimately show ?thesis using 3 by blast
  qed
qed

lemma write_indirect_ok:
  assumes w: "wok g w" and j: "j < BLKIDX_PER_TABLE g" and free: "length (d_free (w_d w)) \<ge> 2"
  shows "step_ok g (13 + j) 2 w (write_indirect g safe j w)"
proof -
  obtain w1 where 1: "get_bit g safe w = (0, w1)" "wgrow g {} 1 w w1" "w_vec w1 = w_vec w" "m_pBitBlk (w_f w1) \<noteq> None"
    using get_bit_ok[OF w, of safe] free by (cases "d_free (w_d w)") auto
  then obtain t where t: "m_pBitBlk (w_f w1) = Some t" by auto
  have w1: "wok g w1" using 1(2) by (simp add: wgrow_def)
  note ok = wok_file[OF w1]
  have len: "length t = BLKIDX_PER_TABLE g" "arrBlks (w_f w1) ! BIT_IDX \<noteq> 0" using file_okD(3)[OF ok] t by (simp_all add: cache_ok_def)
  have tg: "tab_get t j = Inr (t ! j)" using j len by (simp add: tab_get_def)
  have "step_ok g (13 + j) 1 w1 (write_indirect g safe j w)"
  proof (cases "t ! j = 0")
    case False
    have "wgrow g {13 + j} 1 w1 (push (t ! j) w1)" using w1 by (intro wgrow_refl) (auto simp: push_def wok_def)
    thus ?thesis using False t tg j len
      by (auto simp: step_ok_def write_indirect_def 1(1) push_def blk_at_def ind_entry_def)
  next
    case True
    obtain b fs where free: "d_free (w_d w1) = b # fs" using wgrow_free[OF 1(2)] free by (cases "d_free (w_d w1)") auto
    let ?f = "(w_f w1)\<lparr>m_pBitBlk := Some (t[j := b])\<rparr>"
    let ?w = "push b (w1\<lparr>w_d := (w_d w1)\<lparr>d_free := fs\<rparr>, bDirtyBit := bDirtyBit w1 \<or> safe, w_f := ?f\<rparr>)"
    have "wgrow g {13 + j} 1 w1 ?w" using take_ind[OF ok free t True j] w1
      by (intro wgrowI[where u = "[b]"]) (auto simp: push_def wok_def)
    moreover have "write_indirect g safe j w = Inr (0, ?w)" using True t tg
      by (simp add: write_indirect_def 1(1) w_alloc_eq[OF free] push_def upd_f_def)
    moreover have "b \<noteq> 0" using free_pos[OF ok, of b] free by simp
    ultimately show ?thesis using len j by (auto simp: step_ok_def push_def blk_at_def ind_entry_def)
  qed
  from step_ok_after[OF w 1(2,3) this] show ?thesis by (simp add: numeral_2_eq_2)
qed

lemma get_bitd_ok:
  assumes w: "wok g w" and free: "d_free (w_d w) \<noteq> []"
  shows "\<exists>w'. get_bitd g safe w = (0, w') \<and> wgrow g {} 1 w w' \<and> w_vec w' = w_vec w \<and> m_pBitdBlk (w_f w') \<noteq> None"
proof (cases "arrBlks (w_f w) ! BITD_IDX = 0")
  case True
  note ok = wok_file[OF w]
  obtain b fs where free: "d_free (w_d w) = b # fs" using free by (cases "d_free (w_d w)") auto
  let ?f = "set_blk BITD_IDX b ((w_f w)\<lparr>m_pBitdBlk := Some (zero_table g)\<rparr>)"
  let ?w = "w\<lparr>w_d := (w_d w)\<lparr>d_free := fs\<rparr>, dw2IndIdx := b, bDirtyInode := bDirtyInode w \<or> safe, w_f := ?f\<rparr>"
  have "length (arrBlks (w_f w)) = 15" using file_okD(3)[OF ok] by (simp add: cache_ok_def)
  hence "wgrow g {} 1 w ?w" using take_dir[OF ok free True] w by (intro wgrowI[where u = "[b]"]) (auto simp: wok_def)
  moreover have "get_bitd g safe w = (0, ?w)" using True w by (simp add: get_bitd_def wok_def w_alloc_eq[OF free] upd_f_def)
  ultimately show ?thesis by simp
next
  case False
  hence "m_pBitdBlk (w_f w) \<noteq> None" using file_okD(3)[OF wok_file[OF w]] by (simp add: cache_ok_def)
  moreover have "get_bitd g safe w = (0, w)" using False w by (simp add: get_bitd_def wok_def)
  moreover have "wgrow g {} 1 w w" using w by (intro wgrow_refl) auto
  ultimately show ?thesis by blast
qed

lemma get_sec_ok:
  assumes w: "wok g w" and free: "d_free (w_d w) \<noteq> []" and p: "m_pBitdBlk (w_f w) = Some p" and k: "k < BLKIDX_PER_TABLE g"
  shows "\<exists>w'. get_sec g safe k p (p ! k) w = (0, tab_loc (w_f w') k, w') \<and> wgrow g {} 1 w w' \<and> w_vec w' = w_vec w \<and>
    tab_loc (w_f w') k \<noteq> 0 \<and> m_pBitdBlk (w_f w') \<noteq> None"
proof (cases "p ! k = 0")
  case True
  note ok = wok_file[OF w]
  obtain b fs where free: "d_free (w_d w) = b # fs" using free by (cases "d_free (w_d w)") auto
  have b: "b \<noteq> 0" "b \<noteq> INVALID_BLOCK_IDX" using free_pos[OF ok, of b] free by (auto simp: blk_ok_def)
  let ?x = "words_bytes (zero_table g)"
  let ?f = "(w_f w)\<lparr>m_pBitdBlk := Some (p[k := b]), m_mapSecBitBlks := map_insert_new k (zero_table g) (m_mapSecBitBlks (w_f w))\<rparr>"
  let ?w = "w\<lparr>w_d := (w_d w)\<lparr>d_free := fs, d_blk := (d_blk (w_d w))(b := ?x)\<rparr>, bDirtyBitd := bDirtyBitd w \<or> safe, w_f := ?f\<rparr>"
  have len: "length p = BLKIDX_PER_TABLE g" using file_okD(3)[OF ok] p by (simp add: cache_ok_def)
  have "length ?x = BS g" using file_okD(1)[OF ok] by (simp add: geom_ok_def)
  hence "wgrow g {} 1 w ?w" using take_tab[OF ok free p True k] w by (intro wgrowI[where u = "[b]"]) (auto simp: wok_def)
  moreover have d: "dev_ok g ((w_d w)\<lparr>d_free := fs\<rparr>)" using file_okD(2)[OF ok] by (simp add: dev_ok_def)
  have "get_sec g safe k p (p ! k) w = (0, b, ?w)" using True
    by (simp add: get_sec_def w_alloc_eq[OF free] upd_f_def write_ok[OF d b(2)])
  moreover have "tab_loc ?f k = b" using len k by (simp add: tab_loc_def)
  ultimately show ?thesis using b(1) by (intro exI[of _ ?w]) auto
next
  case False
  have t: "tab_loc (w_f w) k = p ! k" using p by (simp add: tab_loc_def)
  have "get_sec g safe k p (p ! k) w = (0, tab_loc (w_f w) k, w)" using False t by (simp add: get_sec_def)
  moreover have "wgrow g {} 1 w w" using w by (intro wgrow_refl) auto
  ultimately show ?thesis using False t p by (intro exI[of _ w]) auto
qed

lemma write_cached_ok:
  assumes w: "wok g w" and free: "d_free (w_d w) \<noteq> []" and i: "i < nblocks g" "13 + BLKIDX_PER_TABLE g \<le> i"
    and t: "map_of (m_mapSecBitBlks (w_f w)) (tab_no g i) = Some t"
  shows "step_ok g i 1 w (write_cached safe (tab_no g i) (tab_loc (w_f w) (tab_no g i)) (tab_ent g i) t w)"
proof -
  note ok = wok_file[OF w]
  let ?k = "tab_no g i" and ?l = "tab_ent g i"
  have len: "length t = BLKIDX_PER_TABLE g" "tab_loc (w_f w) ?k \<noteq> 0" using cache_tab[OF file_okD(3)[OF ok] t] by auto
  have tg: "tab_get t ?l = Inr (t ! ?l)" using len tab_bounds(1)[OF file_okD(1)[OF ok]] by (simp add: tab_get_def)
  show ?thesis
  proof (cases "t ! ?l = 0")
    case False
    have "wgrow g {i} 1 w (push (t ! ?l) w)" using w by (intro wgrow_refl) (auto simp: push_def wok_def)
    thus ?thesis using False tg i t len by (auto simp: step_ok_def write_cached_def push_def blk_at_def sec_entry_def)
  next
    case True
    obtain b fs where free: "d_free (w_d w) = b # fs" using free by (cases "d_free (w_d w)") auto
    let ?f = "(w_f w)\<lparr>m_mapSecBitBlks := AList.update ?k (t[?l := b]) (m_mapSecBitBlks (w_f w))\<rparr>"
    let ?w = "mark_dirty safe (tab_loc (w_f w) ?k) ?k (push b (w\<lparr>w_d := (w_d w)\<lparr>d_free := fs\<rparr>, bDirtyBitd := bDirtyBitd w \<or> safe, w_f := ?f\<rparr>))"
    have f: "w_f ?w = ?f" "w_d ?w = (w_d w)\<lparr>d_free := fs\<rparr>" "w_vec ?w = w_vec w @ [b]"
      "dwIndirectIdx ?w = dwIndirectIdx w" "dw2IndIdx ?w = dw2IndIdx w" "bDirtyBit ?w = bDirtyBit w"
      by (simp_all add: mark_dirty_def push_def)
    have "m_pBitdBlk (w_f w) \<noteq> None" using len(2) by (auto simp: tab_loc_def split: option.splits)
    hence "wgrow g {i} 1 w ?w" using take_sec[OF ok free i t True] w
      by (intro wgrowI[where u = "[b]"])
        (auto simp: f wok_def mark_dirty_def push_def set_insort_key update_conv' split: if_splits)
    moreover have "write_cached safe ?k (tab_loc (w_f w) ?k) ?l t w = Inr (0, ?w)" using True tg
      by (simp add: write_cached_def w_alloc_eq[OF free] upd_f_def)
    moreover have "b \<noteq> 0" using free_pos[OF ok, of b] free by simp
    moreover have "blk_at g ?f ((w_d w)\<lparr>d_free := fs\<rparr>) i = b"
      using len i tab_bounds(1)[OF file_okD(1)[OF ok]] by (simp add: blk_at_def sec_entry_def update_conv')
    ultimately show ?thesis by (auto simp: step_ok_def f)
  qed
qed

lemma write_loaded_ok:
  assumes w: "wok g w" and free: "d_free (w_d w) \<noteq> []" and i: "i < nblocks g" "13 + BLKIDX_PER_TABLE g \<le> i"
    and k: "tab_loc (w_f w) (tab_no g i) \<noteq> 0" "map_of (m_mapSecBitBlks (w_f w)) (tab_no g i) = None"
  shows "step_ok g i 1 w (write_loaded g safe (tab_no g i) (tab_loc (w_f w) (tab_no g i)) (tab_ent g i) w)"
proof -
  note ok = wok_file[OF w]
  note okD = file_okD[OF ok]
  let ?k = "tab_no g i" and ?l = "tab_ent g i" and ?m = "m_mapSecBitBlks (w_f w)"
  note kb = tab_bounds(2)[OF okD(1) i(1)] tab_bounds(1)[OF okD(1), of i]
  define t where "t = table_of (d_blk (w_d w) (tab_loc (w_f w) ?k))"
  let ?f1 = "(w_f w)\<lparr>m_mapSecBitBlks := map_insert_new ?k t ?m\<rparr>"
  have len: "length t = BLKIDX_PER_TABLE g" using okD(1,2) unfolding t_def by (intro length_table) (simp_all add: dev_ok_def)
  have tg: "tab_get t ?l = Inr (t ! ?l)" using len kb by (simp add: tab_get_def)
  have "tab_loc (w_f w) ?k \<noteq> INVALID_BLOCK_IDX" using loc_invalid[OF ok, of "STab ?k"] kb by simp
  hence rd: "dev_ReadBlock g (tab_loc (w_f w) ?k) (w_d w) = (int (BS g), d_blk (w_d w) (tab_loc (w_f w) ?k))"
    by (rule read_ok[OF okD(2)])
  have g1: "grow g {} [] (w_f w) (w_d w) ?f1 (w_d w)"
    using load_sec[OF ok k(1) kb(1)] unfolding t_def by (intro grow_refl) (simp_all add: more_cached_def map_of_insert_new)
  have m1: "map_of (m_mapSecBitBlks ?f1) ?k = Some t" using k(2) by (simp add: map_of_insert_new)
  show ?thesis
  proof (cases "t ! ?l = 0")
    case False
    let ?w = "push (t ! ?l) (w\<lparr>w_f := ?f1\<rparr>)"
    have "grow g {i} [] (w_f w) (w_d w) ?f1 (w_d w)" using g1 by (auto simp: grow_def)
    hence "wgrow g {i} 1 w ?w" using w by (intro wgrowI[where u = "[]"]) (auto simp: push_def wok_def)
    moreover have "write_loaded g safe ?k (tab_loc (w_f w) ?k) ?l w = Inr (0, ?w)" using False tg
      by (simp add: write_loaded_def rd t_def[symmetric] upd_f_def)
    moreover have "blk_at g ?f1 (w_d w) i = t ! ?l" using i k m1 by (simp add: blk_at_def sec_entry_def)
    ultimately show ?thesis using False by (auto simp: step_ok_def push_def)
  next
    case True
    obtain b fs where free: "d_free (w_d w) = b # fs" using free by (cases "d_free (w_d w)") auto
    let ?f = "(w_f w)\<lparr>m_mapSecBitBlks := map_insert_new ?k (t[?l := b]) ?m\<rparr>"
    let ?w = "push b (upd_f (\<lambda>f. f\<lparr>m_mapSecBitBlks := map_insert_new ?k (t[?l := b]) (m_mapSecBitBlks f)\<rparr>)
       (mark_dirty safe (tab_loc (w_f w) ?k) ?k (w\<lparr>w_d := (w_d w)\<lparr>d_free := fs\<rparr>\<rparr>)))"
    have f: "w_f ?w = ?f" "w_d ?w = (w_d w)\<lparr>d_free := fs\<rparr>" "w_vec ?w = w_vec w @ [b]"
      "dwIndirectIdx ?w = dwIndirectIdx w" "dw2IndIdx ?w = dw2IndIdx w" "bDirtyBit ?w = bDirtyBit w" "bDirtyBitd ?w = bDirtyBitd w"
      by (simp_all add: mark_dirty_def push_def upd_f_def)
    have up: "AList.update ?k (t[?l := b]) (map_insert_new ?k t ?m) = map_insert_new ?k (t[?l := b]) ?m"
      using k(2) by (simp add: map_insert_new_def)
    have "grow g {i} [b] ?f1 (w_d w) ?f ((w_d w)\<lparr>d_free := fs\<rparr>)"
      using take_sec[OF growD(1)[OF g1] free i m1 True] by (simp add: up)
    hence "grow g {i} [b] (w_f w) (w_d w) ?f ((w_d w)\<lparr>d_free := fs\<rparr>)" using grow_trans[OF ok g1] by force
    hence "wgrow g {i} 1 w ?w" using w k(2)
      by (intro wgrowI[where u = "[b]"])
        (auto simp: f wok_def mark_dirty_def push_def upd_f_def set_insort_key map_of_insert_new split: if_splits)
    moreover have "write_loaded g safe ?k (tab_loc (w_f w) ?k) ?l w = Inr (0, ?w)" using True tg
      by (simp add: write_loaded_def rd t_def[symmetric] w_alloc_eq[OF free])
    moreover have "b \<noteq> 0" using free_pos[OF ok, of b] free by simp
    moreover have "blk_at g ?f ((w_d w)\<lparr>d_free := fs\<rparr>) i = b"
      using len i k kb by (simp add: blk_at_def sec_entry_def map_of_insert_new)
    ultimately show ?thesis by (auto simp: step_ok_def f)
  qed
qed

lemma write_second_ok:
  assumes w: "wok g w" and free: "length (d_free (w_d w)) \<ge> 3" and i: "i < nblocks g" "13 + BLKIDX_PER_TABLE g \<le> i"
  shows "step_ok g i 3 w (write_second g safe (tab_no g i) (tab_ent g i) w)"
proof -
  let ?k = "tab_no g i" and ?l = "tab_ent g i"
  obtain w1 where 1: "get_bitd g safe w = (0, w1)" "wgrow g {} 1 w w1" "w_vec w1 = w_vec w" "m_pBitdBlk (w_f w1) \<noteq> None"
    using get_bitd_ok[OF w, of safe] free by (cases "d_free (w_d w)") auto
  then obtain p where p: "m_pBitdBlk (w_f w1) = Some p" by auto
  have w1: "wok g w1" and f1: "length (d_free (w_d w1)) \<ge> 2" using 1(2) wgrow_free[OF 1(2)] free by (simp_all add: wgrow_def)
  note ok1 = file_okD[OF wok_file[OF w1]]
  have k: "?k < BLKIDX_PER_TABLE g" by (rule tab_bounds(2)[OF ok1(1) i(1)])
  obtain w2 where 2: "get_sec g safe ?k p (p ! ?k) w1 = (0, tab_loc (w_f w2) ?k, w2)" "wgrow g {} 1 w1 w2" "w_vec w2 = w_vec w1"
    "tab_loc (w_f w2) ?k \<noteq> 0"
    using get_sec_ok[OF w1 _ p k, of safe] f1 by (cases "d_free (w_d w1)") auto
  have w2: "wok g w2" and f2: "d_free (w_d w2) \<noteq> []" using 2(2) wgrow_free[OF 2(2)] f1 by (auto simp: wgrow_def)
  have tg: "tab_get p ?k = Inr (p ! ?k)" using ok1(3) p k by (simp add: tab_get_def cache_ok_def)
  have "step_ok g i 1 w2 (write_second g safe ?k ?l w)"
  proof (cases "map_of (m_mapSecBitBlks (w_f w2)) ?k")
    case None
    thus ?thesis using write_loaded_ok[OF w2 f2 i 2(4) None, of safe] by (simp add: write_second_def 1(1) p tg 2(1))
  next
    case (Some t)
    thus ?thesis using write_cached_ok[OF w2 f2 i Some, of safe] by (simp add: write_second_def 1(1) p tg 2(1))
  qed
  hence "step_ok g i (1 + 1) w1 (write_second g safe ?k ?l w)" by (rule step_ok_after[OF w1 2(2,3)])
  from step_ok_after[OF w 1(2,3) this] show ?thesis by (simp add: numeral_3_eq_3)
qed

lemma wgrow_mono: "wgrow g I n w w' \<Longrightarrow> n \<le> m \<Longrightarrow> wgrow g I m w w'"
  unfolding wgrow_def by (meson order.trans)

lemma step_ok_mono: "step_ok g i n w r \<Longrightarrow> n \<le> m \<Longrightarrow> step_ok g i m w r"
  unfolding step_ok_def by (metis wgrow_mono)

lemma write_step_ok:
  assumes w: "wok g w" and i: "i < nblocks g" and free: "length (d_free (w_d w)) \<ge> 3"
  shows "step_ok g i 3 w (write_step g safe i w)"
proof -
  note okD = file_okD[OF wok_file[OF w]]
  note pos = block_pos[OF okD(1) i] within_block[OF okD(1)] block_idx(1,3)[OF okD(1)] block_idx(2)[OF okD(1) i]
  consider "i < 13" | "13 \<le> i" "i < 13 + BLKIDX_PER_TABLE g" | "13 + BLKIDX_PER_TABLE g \<le> i" by linarith
  thus ?thesis
  proof cases
    case 1
    have "d_free (w_d w) \<noteq> []" using free by auto
    from step_ok_mono[OF write_direct_ok[OF w 1 this], of 3 safe] show ?thesis using 1 by (simp add: write_step_def pos)
  next
    case 2
    hence "step_ok g (13 + (i - 13)) 2 w (write_indirect g safe (i - 13) w)"
      using free by (intro write_indirect_ok w) linarith+
    from step_ok_mono[OF this, of 3] show ?thesis using 2 by (simp add: write_step_def pos)
  next
    case 3
    have "\<not> i < 13" "\<not> (13 \<le> i \<and> i < 13 + BLKIDX_PER_TABLE g)" using 3 by linarith+
    thus ?thesis using write_second_ok[OF w free i 3] 3 i by (simp add: write_step_def pos)
  qed
qed

lemma collect_write_ok:
  assumes "wok g w" "\<forall>i\<in>set is. i < nblocks g" "3 * length is \<le> length (d_free (w_d w))"
  shows "\<exists>w'. collect_write g safe is w = Inr (0, w') \<and> wgrow g (set is) (3 * length is) w w' \<and>
    w_vec w' = w_vec w @ map (blk_at g (w_f w') (w_d w')) is \<and> (\<forall>i\<in>set is. blk_at g (w_f w') (w_d w') i \<noteq> 0)"
  using assms
proof (induction "is" arbitrary: w)
  case Nil
  thus ?case by (auto intro!: wgrow_refl)
next
  case (Cons i "is")
  have i: "i < nblocks g" and free: "3 \<le> length (d_free (w_d w))" using Cons.prems by auto
  obtain w1 where 1: "write_step g safe i w = Inr (0, w1)" "wgrow g {i} 3 w w1" "w_vec w1 = w_vec w @ [blk_at g (w_f w1) (w_d w1) i]"
    "blk_at g (w_f w1) (w_d w1) i \<noteq> 0" using write_step_ok[OF Cons.prems(1) i free, of safe] by (auto simp: step_ok_def)
  have w1: "wok g w1" "3 * length is \<le> length (d_free (w_d w1))" using 1(2) wgrow_free[OF 1(2)] Cons.prems(3) by (auto simp: wgrow_def)
  obtain w2 where 2: "collect_write g safe is w1 = Inr (0, w2)" "wgrow g (set is) (3 * length is) w1 w2"
    "w_vec w2 = w_vec w1 @ map (blk_at g (w_f w2) (w_d w2)) is" "\<forall>i\<in>set is. blk_at g (w_f w2) (w_d w2) i \<noteq> 0"
    using Cons.IH[OF w1(1) _ w1(2)] Cons.prems(2) by auto
  have "blk_at g (w_f w2) (w_d w2) i = blk_at g (w_f w1) (w_d w1) i"
    using 2(2) grow_keeps[where s = "SBlk i" and g = g] 1(4) i by (fastforce simp: wgrow_def)
  moreover have "wgrow g (set (i # is)) (3 * length (i # is)) w w2"
    using wgrow_trans[OF Cons.prems(1) 1(2) 2(2)] by simp
  ultimately show ?case using 1 2 by (intro exI[of _ w2]) simp
qed

section \<open>Writing tables and the inode\<close>

text \<open>A device that holds the same data of the file, and whose other blocks are the same.\<close>

definition flushed :: "geom \<Rightarrow> 'o file_image \<Rightarrow> dev \<Rightarrow> dev \<Rightarrow> bool" where
  "flushed g f d d' \<longleftrightarrow> file_ok g f d' \<and> d_free d' = d_free d \<and> d_err d' = d_err d \<and>
    (\<forall>i<nblocks g. blk_at g f d' i = blk_at g f d i \<and> (blk_at g f d i \<noteq> 0 \<longrightarrow> d_blk d' (blk_at g f d i) = d_blk d (blk_at g f d i))) \<and>
    (\<forall>b. (\<forall>s\<in>slots g. loc g f d s \<noteq> b) \<longrightarrow> d_blk d' b = d_blk d b)"

lemma flushed_refl: "file_ok g f d \<Longrightarrow> flushed g f d d"
  by (simp add: flushed_def)

lemma loc_flushed: "flushed g f d d' \<Longrightarrow> s \<in> slots g \<Longrightarrow> loc g f d' s = loc g f d s"
  by (cases s) (auto simp: flushed_def)

lemma flushed_other: "flushed g f d d' \<Longrightarrow> \<forall>s\<in>slots g. loc g f d s \<noteq> b \<Longrightarrow> d_blk d' b = d_blk d b"
  by (simp add: flushed_def)

lemma flushed_trans:
  assumes 1: "flushed g f d d1" and 2: "flushed g f d1 d2"
  shows "flushed g f d d2"
proof -
  have "d_blk d2 b = d_blk d b" if "\<forall>s\<in>slots g. loc g f d s \<noteq> b" for b
    using flushed_other[OF 1 that] flushed_other[OF 2, of b] loc_flushed[OF 1] that by simp
  thus ?thesis using 1 2 by (simp add: flushed_def)
qed

lemma flushed_blk: "flushed g f d d' \<Longrightarrow> i < nblocks g \<Longrightarrow> blk_at g f d i \<noteq> 0 \<Longrightarrow>
    d_blk d' (blk_at g f d i) = d_blk d (blk_at g f d i)"
  by (simp add: flushed_def)

lemma flushed_content: "flushed g f d d' \<Longrightarrow> k div BS g < nblocks g \<Longrightarrow> content g f d' k = content g f d k"
  by (simp add: flushed_def content_def Let_def)

lemma meta_write:
  assumes ok: "file_ok g f d" and x: "length x = BS g"
    and s: "s = SIno \<or> s = SDir \<or> s = SBit \<and> m_pBitBlk f \<noteq> None \<or>
      (\<exists>k. s = STab k \<and> k < BLKIDX_PER_TABLE g \<and> map_of (m_mapSecBitBlks f) k \<noteq> None)"
  shows "flushed g f d (d\<lparr>d_blk := (d_blk d)(loc g f d s := x)\<rparr>)" (is "flushed g f d ?d")
proof -
  note okD = file_okD[OF ok]
  have S: "s \<in> slots g" using s by auto
  have o: "d_blk ?d (loc g f d u) = d_blk d (loc g f d u)" if "u \<in> slots g" "loc g f d u \<noteq> 0" "u \<noteq> s" for u
    using apart_inj[OF okD(4) that(1) S _ that(2)] that(3) by auto
  have b: "blk_at g f ?d i = blk_at g f d i" if i: "i < nblocks g" for i
  proof (rule blk_at_dev[OF _ _ okD(1) i])
    show "d_blk ?d (arrBlks f ! BIT_IDX) = d_blk d (arrBlks f ! BIT_IDX)" if "arrBlks f ! BIT_IDX \<noteq> 0" "m_pBitBlk f = None"
      using o[of SBit] that s by auto
    show "d_blk ?d (tab_loc f k) = d_blk d (tab_loc f k)"
      if "k < BLKIDX_PER_TABLE g" "tab_loc f k \<noteq> 0" "map_of (m_mapSecBitBlks f) k = None" for k
    proof -
      have "STab k \<noteq> s" using that s by auto
      thus ?thesis using o[of "STab k"] that by simp
    qed
  qed
  have l: "loc g f ?d u = loc g f d u" if "u \<in> slots g" for u using that b by (cases u) auto
  have "dev_ok g ?d" using okD(2) x by (simp add: dev_ok_def)
  hence "file_ok g f ?d" using okD l by (auto simp: file_ok_def intro: apart_cong)
  moreover have "d_blk ?d (blk_at g f d i) = d_blk d (blk_at g f d i)" if "i < nblocks g" "blk_at g f d i \<noteq> 0" for i
    using o[of "SBlk i"] that s by auto
  moreover have "d_blk ?d c = d_blk d c" if "\<forall>s\<in>slots g. loc g f d s \<noteq> c" for c using that S by auto
  ultimately show ?thesis using b by (simp add: flushed_def)
qed

text \<open>The serialized inode fills a block.\<close>

lemma length_put_at [simp]: "off + length bs \<le> length buf \<Longrightarrow> length (put_at off bs buf) = length buf"
  by (simp add: put_at_def)

lemma length_ser_val: "length (snd (ser_val v)) \<le> 95"
proof (cases v)
  case (VarString s)
  have "length (takeWhile (\<lambda>c. c \<noteq> 0) (take 94 s)) \<le> length (take 94 s)" by (rule length_takeWhile_le)
  thus ?thesis using VarString by (simp add: ser_val_def)
qed (simp_all add: ser_val_def)

definition inode_wf :: "inode \<Rightarrow> bool" where
  "inode_wf n \<longleftrightarrow> length (m_arrBlocks n) = 15 \<and> length (m_arrMetaFork n) = 4"

lemma length_Serialize:
  assumes "inode_wf n" "224 \<le> length junk" shows "length (snd (RegFSInode_Serialize junk n v)) = length junk"
proof -
  obtain r val where v: "ser_val v = (r, val)" by fastforce
  have "length val \<le> 95" using length_ser_val[of v] v by simp
  thus ?thesis using assms by (simp add: RegFSInode_Serialize_def v Let_def inode_wf_def time_bytes_def)
qed

lemma FlushInode_ok:
  assumes ok: "file_ok g f d" and n: "inode_wf (m_oInodeStore f)" and j: "length junk = BS g"
  shows "\<exists>d'. FlushInode g junk f d = (0, d') \<and> flushed g f d d'"
proof -
  let ?x = "snd (RegFSInode_Serialize junk (m_oInodeStore f) (m_oValue f))"
  have "512 \<le> BS g" using file_okD(1)[OF ok] by (simp add: geom_ok_def)
  hence x: "length ?x = BS g" using length_Serialize[OF n, of junk] j by simp
  have "m_dwInodeIdx f \<noteq> INVALID_BLOCK_IDX" using loc_invalid[OF ok, of SIno] by simp
  hence "FlushInode g junk f d = (0, d\<lparr>d_blk := (d_blk d)(m_dwInodeIdx f := ?x)\<rparr>)"
    by (simp add: FlushInode_def write_ok[OF file_okD(2)[OF ok]])
  thus ?thesis using meta_write[OF ok x, of SIno] by simp
qed

lemma flush_tables_ok:
  assumes "file_ok g f d" "\<forall>(b, k)\<in>set xs. tab_loc f k = b \<and> map_of (m_mapSecBitBlks f) k \<noteq> None" "\<not> ERROR ret"
  shows "\<exists>ret' d'. flush_tables g xs (m_mapSecBitBlks f) ret d = (ret', d') \<and> \<not> ERROR ret' \<and> flushed g f d d'"
  using assms
proof (induction xs arbitrary: ret d)
  case Nil
  thus ?case by (simp add: flushed_refl)
next
  case (Cons x xs)
  note okD = file_okD[OF Cons.prems(1)]
  obtain b k where x: "x = (b, k)" by fastforce
  obtain t where t: "map_of (m_mapSecBitBlks f) k = Some t" "tab_loc f k = b" using Cons.prems(2) x by auto
  have c: "length t = BLKIDX_PER_TABLE g" "k < BLKIDX_PER_TABLE g" using cache_tab[OF okD(3) t(1)] by auto
  have "b \<noteq> INVALID_BLOCK_IDX" using loc_invalid[OF Cons.prems(1), of "STab k"] c t by simp
  hence wr: "dev_WriteBlock g b (words_bytes t) d = (int (BS g), d\<lparr>d_blk := (d_blk d)(b := words_bytes t)\<rparr>)"
    by (rule write_ok[OF okD(2)])
  have "length (words_bytes t) = BS g" using c okD(1) by (simp add: geom_ok_def)
  hence fl: "flushed g f d (d\<lparr>d_blk := (d_blk d)(b := words_bytes t)\<rparr>)"
    using meta_write[OF Cons.prems(1), of "words_bytes t" "STab k"] t c by simp
  hence ok1: "file_ok g f (d\<lparr>d_blk := (d_blk d)(b := words_bytes t)\<rparr>)" by (simp add: flushed_def)
  have "\<forall>(b, k)\<in>set xs. tab_loc f k = b \<and> map_of (m_mapSecBitBlks f) k \<noteq> None" using Cons.prems(2) by simp
  from Cons.IH[OF ok1 this, of "int (BS g)"] show ?case using fl x t wr by (auto intro: flushed_trans)
qed

lemma flush_opt_ok:
  assumes ok: "file_ok g f d" and s: "s = SBit \<and> t = m_pBitBlk f \<or> s = SDir \<and> t = m_pBitdBlk f"
    and t: "dirty \<Longrightarrow> t \<noteq> None" and b: "b = loc g f d s" and r: "\<not> ERROR ret"
  shows "\<exists>ret' d'. flush_opt g dirty b t ret d = Inr (False, ret', d') \<and> \<not> ERROR ret' \<and> flushed g f d d'"
proof (cases dirty)
  case False
  thus ?thesis using r flushed_refl[OF ok] by (simp add: flush_opt_def)
next
  case True
  note okD = file_okD[OF ok]
  obtain u where u: "t = Some u" using t True by auto
  have "length u = BLKIDX_PER_TABLE g" using okD(3) s u by (auto simp: cache_ok_def)
  hence len: "length (words_bytes u) = BS g" using okD(1) by (simp add: geom_ok_def)
  have "b \<noteq> INVALID_BLOCK_IDX" using loc_invalid[OF ok, of s] s b by auto
  moreover have "flushed g f d (d\<lparr>d_blk := (d_blk d)(b := words_bytes u)\<rparr>)"
  proof -
    have "s = SDir \<or> s = SBit \<and> m_pBitBlk f \<noteq> None" using s u by (metis option.distinct(1))
    thus ?thesis unfolding b by (intro meta_write[OF ok len]) blast
  qed
  ultimately show ?thesis using True u write_ok[OF okD(2)] by (simp add: flush_opt_def)
qed

lemma safe_flush_ok:
  assumes w: "wok g w" and n: "inode_wf (m_oInodeStore (w_f w))" and j: "length junk = BS g" and r: "\<not> ERROR ret"
  shows "\<exists>ret' d'. safe_flush g junk ret w = Inr (ret', d') \<and> \<not> ERROR ret' \<and> flushed g (w_f w) (w_d w) d'"
proof -
  let ?f = "w_f w" and ?d = "w_d w"
  have ok: "file_ok g ?f ?d" by (rule wok_file[OF w])
  obtain r1 d1 where 1: "flush_tables g (mapDirtyBlks2 w) (m_mapSecBitBlks ?f) ret ?d = (r1, d1)" "\<not> ERROR r1" "flushed g ?f ?d d1"
    using flush_tables_ok[OF ok _ r, of "mapDirtyBlks2 w"] w by (auto simp: wok_def)
  hence ok1: "file_ok g ?f d1" by (simp add: flushed_def)
  obtain r2 d2 where 2: "flush_opt g (bDirtyBitd w) (dw2IndIdx w) (m_pBitdBlk ?f) r1 d1 = Inr (False, r2, d2)" "\<not> ERROR r2"
    "flushed g ?f d1 d2"
    using flush_opt_ok[OF ok1, of SDir "m_pBitdBlk ?f" "bDirtyBitd w" "dw2IndIdx w" r1] w 1(2) by (auto simp: wok_def)
  hence ok2: "file_ok g ?f d2" by (simp add: flushed_def)
  obtain r3 d3 where 3: "flush_opt g (bDirtyBit w) (dwIndirectIdx w) (m_pBitBlk ?f) r2 d2 = Inr (False, r3, d3)" "\<not> ERROR r3"
    "flushed g ?f d2 d3"
    using flush_opt_ok[OF ok2, of SBit "m_pBitBlk ?f" "bDirtyBit w" "dwIndirectIdx w" r2] w 2(2) by (auto simp: wok_def)
  hence ok3: "file_ok g ?f d3" by (simp add: flushed_def)
  have f3: "flushed g ?f ?d d3" using 1 2 3 flushed_trans by blast
  obtain d4 where 4: "FlushInode g junk ?f d3 = (0, d4)" "flushed g ?f d3 d4" using FlushInode_ok[OF ok3 n j] by auto
  show ?thesis using 1 2 3 4 f3 flushed_trans[OF f3 4(2)] by (auto simp: safe_flush_def)
qed

lemma collect_blocks_ok:
  assumes ok: "file_ok g f d" and n: "inode_wf (m_oInodeStore f)" "0 < dwSize" "dwOff + dwSize \<le> MAX_FILE_SIZE g"
    and j: "length junk = BS g" and R: "R = range_blocks g dwOff dwSize" and free: "3 * length R \<le> length (d_free d)"
  shows "\<exists>ret f' d1 d' used. CollectBlocksForWrite g safe junk dwOff dwSize f d = Inr (ret, map (blk_at g f' d') R, f', d') \<and> \<not> ERROR ret \<and>
    (\<forall>i\<in>set R. blk_at g f' d' i \<noteq> 0) \<and> grow g (set R) used f d f' d1 \<and> length used \<le> 3 * length R \<and> flushed g f' d1 d'"
proof -
  note okD = file_okD[OF ok]
  let ?w = "\<lparr>w_f = f, w_d = d, dwIndirectIdx = arrBlks f ! BIT_IDX, dw2IndIdx = arrBlks f ! BITD_IDX, mapDirtyBlks2 = [],
     bDirtyInode = False, bDirtyBitd = False, bDirtyBit = False, w_vec = []\<rparr>"
  have w: "wok g ?w" using ok by (simp add: wok_def)
  have inb: "\<forall>i\<in>set R. i < nblocks g"
    using range_below[OF okD(1) n(3)] unfolding R range_blocks_eq[OF okD(1) n(3)] by simp
  obtain w' where 1: "collect_write g safe R ?w = Inr (0, w')" "wgrow g (set R) (3 * length R) ?w w'"
    "w_vec w' = map (blk_at g (w_f w') (w_d w')) R" "\<forall>i\<in>set R. blk_at g (w_f w') (w_d w') i \<noteq> 0"
    using collect_write_ok[OF w inb, of safe] free by auto
  obtain used where gr: "grow g (set R) used f d (w_f w') (w_d w')" "length used \<le> 3 * length R" using 1(2) by (auto simp: wgrow_def)
  have w': "wok g w'" using 1(2) by (simp add: wgrow_def)
  have "\<not> BEYOND_MAX_LIMIT g dwOff" using n(2,3) by (simp add: BEYOND_MAX_LIMIT_def)
  hence C: "CollectBlocksForWrite g safe junk dwOff dwSize f d =
     (if safe then map_sum id (\<lambda>(ret, d). (ret, w_vec w', w_f w', d)) (safe_flush g junk 0 w')
      else Inr (0, w_vec w', w_f w', w_d w'))"
    using n(2) 1(1) by (simp add: CollectBlocksForWrite_def R[symmetric])
  have len: "length (arrBlks (w_f w')) = 15" using file_okD(3)[OF wok_file[OF w']] by (simp add: cache_ok_def)
  have nf: "inode_wf (m_oInodeStore (w_f w'))" by (subst growD(7)[OF gr(1)]) (use n(1) len in \<open>simp add: inode_wf_def\<close>)
  show ?thesis
  proof (cases safe)
    case False
    thus ?thesis using C 1 gr flushed_refl[OF wok_file[OF w']] by auto
  next
    case True
    obtain r d' where 2: "safe_flush g junk 0 w' = Inr (r, d')" "\<not> ERROR r" "flushed g (w_f w') (w_d w') d'"
      using safe_flush_ok[OF w' nf j, of 0] by auto
    have e: "blk_at g (w_f w') d' i = blk_at g (w_f w') (w_d w') i" if "i \<in> set R" for i using 2(3) inb that by (simp add: flushed_def)
    hence "map (blk_at g (w_f w') d') R = w_vec w'" "\<forall>i\<in>set R. blk_at g (w_f w') d' i \<noteq> 0" using 1(3,4) by auto
    thus ?thesis using C True 2 gr by (intro exI[of _ r] exI[of _ "w_f w'"] exI[of _ "w_d w'"] exI[of _ d'] exI[of _ used]) simp
  qed
qed

section \<open>Writing data\<close>

text \<open>Only the blocks \<open>bs\<close> have changed.\<close>

definition wrote :: "geom \<Rightarrow> nat set \<Rightarrow> dev \<Rightarrow> dev \<Rightarrow> bool" where
  "wrote g bs d d' \<longleftrightarrow> dev_ok g d' \<and> d_free d' = d_free d \<and> d_err d' = d_err d \<and> (\<forall>b. b \<notin> bs \<longrightarrow> d_blk d' b = d_blk d b)"

lemma wrote_refl: "dev_ok g d \<Longrightarrow> wrote g bs d d"
  by (simp add: wrote_def)

lemma wrote_trans: "wrote g A d d1 \<Longrightarrow> wrote g B d1 d2 \<Longrightarrow> wrote g (A \<union> B) d d2"
  by (simp add: wrote_def)

lemma wrote_data: "wrote g A d d' \<Longrightarrow> A \<inter> set bs = {} \<Longrightarrow> blocks_data g d' bs = blocks_data g d bs"
proof (induction bs)
  case (Cons b bs)
  thus ?case by (auto simp: wrote_def block_data_def)
qed simp

lemma wrote_block: "wrote g A d d' \<Longrightarrow> b \<notin> A \<Longrightarrow> block_data g d' b = block_data g d b"
  by (simp add: wrote_def block_data_def)

lemma write_one:
  assumes "dev_ok g d" "b \<noteq> INVALID_BLOCK_IDX" "length x = BS g"
  shows "\<exists>d'. dev_WriteBlock g b x d = (int (BS g), d') \<and> wrote g {b} d d' \<and> block_data g d' b = x"
  using assms by (simp add: write_ok) (simp add: wrote_def dev_ok_def block_data_def)

lemma write_loop_ok:
  assumes "dev_ok g d" "distinct bs" "INVALID_BLOCK_IDX \<notin> set bs" "length bs * BS g \<le> length buf"
  shows "\<exists>d'. dev_write_loop g bs buf d = (int (length bs * BS g), d') \<and> wrote g (set bs) d d' \<and>
    blocks_data g d' bs = take (length bs * BS g) buf"
  using assms
proof (induction bs arbitrary: buf d)
  case (Cons b bs)
  let ?d = "d\<lparr>d_blk := (d_blk d)(b := take (BS g) buf)\<rparr>"
  have ok: "dev_ok g ?d" using Cons.prems(1,4) by (simp add: dev_ok_def)
  obtain d' where 1: "dev_write_loop g bs (drop (BS g) buf) ?d = (int (length bs * BS g), d')" "wrote g (set bs) ?d d'"
    "blocks_data g d' bs = take (length bs * BS g) (drop (BS g) buf)"
  proof -
    have l: "length bs * BS g \<le> length (drop (BS g) buf)" using Cons.prems(4) by simp
    have "distinct bs" "INVALID_BLOCK_IDX \<notin> set bs" using Cons.prems(2,3) by auto
    thus ?thesis using that Cons.IH[OF ok _ _ l] by blast
  qed
  have "wrote g {b} d ?d" using ok by (simp add: wrote_def)
  hence w: "wrote g (set (b # bs)) d d'" using wrote_trans[OF _ 1(2)] by fastforce
  have "block_data g d' b = take (BS g) buf" using 1(2) Cons.prems(2,3) by (auto simp: wrote_def block_data_def)
  hence bd: "blocks_data g d' (b # bs) = take (length (b # bs) * BS g) buf" using 1(3) by (simp add: take_add)
  have "int (length bs * BS g) \<ge> 0" by (rule of_nat_0_le_iff)
  hence "\<not> int (length bs * BS g) < 0" by linarith
  moreover have "\<not> ERROR (d_err d b)" using Cons.prems(1) by (simp add: dev_ok_def)
  ultimately have "dev_write_loop g (b # bs) buf d = (int (length (b # bs) * BS g), d')"
    using Cons.prems(3) 1(1) by (auto simp: algebra_simps simp del: of_nat_mult)
  thus ?case using w bd by blast
qed (simp add: wrote_refl)

lemma write_blocks_ok:
  assumes "dev_ok g d" "distinct bs" "INVALID_BLOCK_IDX \<notin> set bs" "length bs * BS g \<le> length buf" "bs \<noteq> []"
  shows "\<exists>d'. dev_WriteBlocks g bs buf d = (int (length bs * BS g), d') \<and> wrote g (set bs) d d' \<and>
    blocks_data g d' bs = take (length bs * BS g) buf"
  using write_loop_ok[OF assms(1-4)] assms(5) by (simp add: dev_WriteBlocks_def)

lemma write_last_ok:
  assumes d: "dev_ok g d" and b: "last bs \<noteq> INVALID_BLOCK_IDX" and x: "length x \<le> BS g" and B: "0 < BS g"
  shows "\<exists>ret d'. write_last g bs x d = (ret, d') \<and> ret > 0 \<and> wrote g {last bs} d d' \<and>
    block_data g d' (last bs) = put_at 0 x (block_data g d (last bs))"
proof -
  have e: "block_data g d (last bs) = d_blk d (last bs)" using b by (simp add: block_data_def)
  have "length (put_at 0 x (d_blk d (last bs))) = BS g" using d x by (simp add: dev_ok_def)
  from write_one[OF d b this] show ?thesis
    by (auto simp: write_last_def read_ok[OF d b] e B)
qed

text \<open>Pieces of a range put together.\<close>

lemma put_at_front: "length a \<le> length x \<Longrightarrow> put_at 0 x (a @ b) = take (length a) x @ put_at 0 (drop (length a) x) b"
  by (simp add: put_at_def)

lemma put_at_first: "h \<le> length a \<Longrightarrow> length a \<le> h + length x \<Longrightarrow>
    put_at h x (a @ b) = put_at h (take (length a - h) x) a @ put_at 0 (drop (length a - h) x) b"
  by (simp add: put_at_def add.commute)

lemma put_at_all: "length x = length a \<Longrightarrow> put_at 0 x a = x"
  by (simp add: put_at_def)

lemma write_data_ok:
  assumes d: "dev_ok g d" and B: "0 < BS g" and n: "0 < dwSize" "dwOff + dwSize < W32" "dwSize \<le> length buf"
    and len: "length bs = (dwOff + dwSize + (BS g - 1)) div BS g - dwOff div BS g"
    and bs: "distinct bs" "INVALID_BLOCK_IDX \<notin> set bs"
  shows "\<exists>ret d'. write_data g dwOff dwSize buf bs d = Inr (ret, d') \<and> ret > 0 \<and> wrote g (set bs) d d' \<and>
    blocks_data g d' bs = put_at (dwOff mod BS g) (take dwSize buf) (blocks_data g d bs)"
proof -
  note R = range_length[OF B n(1) len]
  define h where "h = dwOff mod BS g"
  define t where "t = (dwOff + dwSize) mod BS g"
  have m: "(dwOff + dwSize) mod W32 = dwOff + dwSize" using n(2) by simp
  have ne: "bs \<noteq> []" using R(1) by auto
  have h: "h < BS g" "t < BS g" using B by (simp_all add: h_def t_def)
  note def = write_data_def Let_def m h_def[symmetric] t_def[symmetric]
  have inv: "hd bs \<noteq> INVALID_BLOCK_IDX" "last bs \<noteq> INVALID_BLOCK_IDX" using bs(2) ne by (metis hd_in_set, metis last_in_set)
  have rd: "dev_ReadBlock g (hd bs) d = (int (BS g), block_data g d (hd bs))"
    using read_ok[OF d inv(1)] inv(1) by (simp add: block_data_def)
  have Z: "\<And>k. \<not> int (k * BS g) < 0" by (simp add: linorder_not_less del: of_nat_mult)
  note L = length_blocks_data[OF d] length_block_data[OF d]
  have bz: "int (BS g) > 0" using B by simp
  have "length bs = 1 \<or> length bs > 1" using R(1) by linarith
  then consider "h = 0" "t = 0" | "h = 0" "t \<noteq> 0" "length bs = 1" | "h = 0" "t \<noteq> 0" "length bs > 1"
    | "h \<noteq> 0" "t = 0" "length bs = 1" | "h \<noteq> 0" "t = 0" "length bs > 1" | "h \<noteq> 0" "t \<noteq> 0" "length bs = 1"
    | "h \<noteq> 0" "t \<noteq> 0" "length bs > 1" by blast
  thus ?thesis
  proof cases
    case 1
    hence s: "dwSize = length bs * BS g" using R(2) by (simp add: h_def t_def)
    then obtain d' where "dev_WriteBlocks g bs buf d = (int dwSize, d')" "wrote g (set bs) d d'"
      "blocks_data g d' bs = take dwSize buf"
      using write_blocks_ok[OF d bs _ ne, of buf] n(3) unfolding s[symmetric] by blast
    moreover have "put_at 0 (take dwSize buf) (blocks_data g d bs) = take dwSize buf"
      using s n(3) by (intro put_at_all) (simp add: L)
    ultimately show ?thesis using 1 n(1) by (simp add: def)
  next
    case 2
    hence s: "dwSize = t" using R(3) by (simp add: h_def t_def)
    obtain b where b: "bs = [b]" using 2(3) by (cases bs) auto
    have "length (take t buf) \<le> BS g" using h by simp
    from write_last_ok[OF d inv(2) this B] obtain ret d' where
      "write_last g bs (take t buf) d = (ret, d')" "ret > 0" "wrote g {b} d d'"
      "block_data g d' b = put_at 0 (take t buf) (block_data g d b)" by (auto simp: b)
    moreover have "take t buf = take dwSize buf" using s by simp
    ultimately show ?thesis using 2 by (simp add: def b)
  next
    case 3
    define N where "N = (length bs - 1) * BS g"
    have s: "dwSize = N + t" using R(3) 3 by (simp add: h_def t_def N_def)
    have dis: "last bs \<notin> set (butlast bs)" "set bs = set (butlast bs) \<union> {last bs}" "distinct (butlast bs)"
      using bs(1) append_butlast_last_id[OF ne] by (metis distinct_append disjoint_insert(1) list.set(2) distinct.simps(2) disjoint_iff list.set_intros(1), metis set_append list.set empty_set list.simps(15), metis distinct_butlast)
    obtain d1 where 1: "dev_WriteBlocks g (butlast bs) buf d = (int N, d1)" "wrote g (set (butlast bs)) d d1"
      "blocks_data g d1 (butlast bs) = take N buf"
      using write_blocks_ok[OF d dis(3) _ _ block_ends(6)[OF 3(3)], of buf] bs(2) dis(2) n(3) s by (auto simp: N_def)
    have x: "length (take t (drop N buf)) \<le> BS g" using h by simp
    have d1: "dev_ok g d1" using 1(2) by (simp add: wrote_def)
    obtain ret d' where 2: "write_last g bs (take t (drop N buf)) d1 = (ret, d')" "ret > 0" "wrote g {last bs} d1 d'"
      "block_data g d' (last bs) = put_at 0 (take t (drop N buf)) (block_data g d1 (last bs))"
      using write_last_ok[OF d1 inv(2) x B] by auto
    have "blocks_data g d' bs = take N buf @ put_at 0 (take t (drop N buf)) (block_data g d (last bs))"
      using block_last[OF ne, of g d'] wrote_data[OF 2(3), of "butlast bs"] dis(1) 1(3) 2(4) wrote_block[OF 1(2) dis(1)] by simp
    also have "\<dots> = put_at 0 (take dwSize buf) (blocks_data g d bs)"
    proof -
      have A: "length (blocks_data g d (butlast bs)) = N" by (simp only: L(1) N_def length_butlast)
      have "take N (take dwSize buf) = take N buf" "drop N (take dwSize buf) = take t (drop N buf)" using s by (simp_all add: drop_take)
      thus ?thesis using put_at_front[of "blocks_data g d (butlast bs)" "take dwSize buf" "block_data g d (last bs)"] n(3) s
        unfolding block_last[OF ne, of g d] A by simp
    qed
    finally have fin: "blocks_data g d' bs = put_at 0 (take dwSize buf) (blocks_data g d bs)" .
    have "wrote g (set bs) d d'" using wrote_trans[OF 1(2) 2(3)] dis(2) by simp
    moreover have "BS g * (length bs - 1) = N" by (simp add: N_def)
    ultimately show ?thesis using 3 1(1) 2(1,2) fin by (simp add: def ne)
  next
    case 4
    hence s: "h + dwSize = BS g" using R(2) by (simp add: h_def t_def)
    obtain b where b: "bs = [b]" using 4(3) by (cases bs) auto
    have e: "BS g - h = dwSize" using s by simp
    have "length (put_at h (take dwSize buf) (block_data g d b)) = BS g" using s n(3) by (simp add: L)
    from write_one[OF d _ this, of b] inv(1) b obtain d' where
      "dev_WriteBlock g b (put_at h (take dwSize buf) (block_data g d b)) d = (int (BS g), d')" "wrote g {b} d d'"
      "block_data g d' b = put_at h (take dwSize buf) (block_data g d b)" by auto
    thus ?thesis using 4 rd bz by (simp add: def b e)
  next
    case 5
    define K where "K = BS g - h"
    have s: "dwSize = K + (length bs - 1) * BS g"
    proof -
      have "h + dwSize = length bs * BS g" using 5 R(2) by (simp add: h_def t_def)
      moreover have "length bs * BS g = BS g + (length bs - 1) * BS g" using 5(3) by (cases "length bs") auto
      ultimately show ?thesis using h by (simp add: K_def)
    qed
    note E = block_ends[OF 5(3)]
    have dis: "hd bs \<notin> set (tl bs)" "set bs = insert (hd bs) (set (tl bs))" "distinct (tl bs)"
      using bs(1) ne by (cases bs, auto)+
    let ?x = "put_at h (take K buf) (block_data g d (hd bs))"
    have "length ?x = BS g" using h n(3) s by (simp add: L K_def)
    then obtain d1 where 1: "dev_WriteBlock g (hd bs) ?x d = (int (BS g), d1)" "wrote g {hd bs} d d1" "block_data g d1 (hd bs) = ?x"
      using write_one[OF d inv(1)] by blast
    have d1: "dev_ok g d1" using 1(2) by (simp add: wrote_def)
    have l: "length (tl bs) * BS g \<le> length (drop K buf)" using n(3) s by simp
    obtain d' where 2: "dev_WriteBlocks g (tl bs) (drop K buf) d1 = (int (length (tl bs) * BS g), d')" "wrote g (set (tl bs)) d1 d'"
      "blocks_data g d' (tl bs) = take (length (tl bs) * BS g) (drop K buf)"
      using write_blocks_ok[OF d1 dis(3) _ l E(2)] bs(2) dis(2) by auto
    have "blocks_data g d' bs = ?x @ take (length (tl bs) * BS g) (drop K buf)"
      using block_first[OF ne, of g d'] wrote_block[OF 2(2) dis(1)] 1(3) 2(3) by simp
    also have "\<dots> = put_at h (take dwSize buf) (blocks_data g d bs)"
    proof -
      have "take K (take dwSize buf) = take K buf" "drop K (take dwSize buf) = take (length (tl bs) * BS g) (drop K buf)"
        using s by (simp_all add: drop_take)
      moreover have "put_at 0 (drop K (take dwSize buf)) (blocks_data g d (tl bs)) = drop K (take dwSize buf)"
        using s n(3) by (intro put_at_all) (simp add: L)
      ultimately show ?thesis
        using put_at_first[of h "block_data g d (hd bs)" "take dwSize buf" "blocks_data g d (tl bs)"] h n(3) s
        unfolding block_first[OF ne, of g d] L(2) K_def[symmetric] by (simp add: K_def)
    qed
    finally have fin: "blocks_data g d' bs = put_at h (take dwSize buf) (blocks_data g d bs)" .
    have "wrote g (set bs) d d'" using wrote_trans[OF 1(2) 2(2)] dis(2) by simp
    moreover have "int (length (tl bs) * BS g) > 0"
    proof -
      have "length (tl bs) > 0" using 5(3) by simp
      hence "length (tl bs) * BS g > 0" using B by (rule mult_pos_pos)
      thus ?thesis by linarith
    qed
    ultimately show ?thesis using 5 1(1) 2(1) rd fin
      by (simp add: def ne K_def[symmetric] del: of_nat_mult)
  next
    case 6
    hence s: "h + dwSize = t" using R(3) by (simp add: h_def t_def)
    obtain b where b: "bs = [b]" using 6(3) by (cases bs) auto
    have "length (put_at h (take dwSize buf) (block_data g d b)) = BS g" using s h n(3) by (simp add: L)
    from write_one[OF d _ this, of b] inv(1) b obtain d' where
      "dev_WriteBlock g b (put_at h (take dwSize buf) (block_data g d b)) d = (int (BS g), d')" "wrote g {b} d d'"
      "block_data g d' b = put_at h (take dwSize buf) (block_data g d b)" by auto
    moreover have "\<not> h + dwSize > BS g" using s h by simp
    ultimately show ?thesis using 6 rd bz by (simp add: def b)
  next
    case 7
    define K where "K = BS g - h"
    define N where "N = (length bs - 2) * BS g"
    note E = block_ends[OF 7(3)]
    define M where "M = butlast (tl bs)"
    have Ml: "length M * BS g = N" by (simp only: M_def E(5) N_def)
    have s: "dwSize = K + N + t"
    proof -
      have "h + dwSize = (length bs - 1) * BS g + t" using 7 R(3) by (simp add: h_def t_def)
      moreover have "(length bs - 1) * BS g = BS g + N" using 7(3) unfolding N_def by (cases "length bs - 1") auto
      ultimately show ?thesis using h by (simp add: K_def)
    qed
    have split: "bs = hd bs # M @ [last bs]"
      using E(2,3,4) by (metis M_def append_butlast_last_id list.collapse)
    have dis: "hd bs \<notin> set M" "hd bs \<noteq> last bs" "last bs \<notin> set M" "distinct M" "set bs = {hd bs} \<union> set M \<union> {last bs}"
    proof -
      have "distinct (hd bs # M @ [last bs])" using bs(1) arg_cong[OF split, of distinct] by blast
      thus "hd bs \<notin> set M" "hd bs \<noteq> last bs" "last bs \<notin> set M" "distinct M" by auto
      have "set bs = set (hd bs # M @ [last bs])" by (rule arg_cong[OF split])
      thus "set bs = {hd bs} \<union> set M \<union> {last bs}" by auto
    qed
    let ?x = "put_at h (take K buf) (block_data g d (hd bs))"
    have "length ?x = BS g" using h n(3) s by (simp add: L K_def)
    then obtain d1 where 1: "dev_WriteBlock g (hd bs) ?x d = (int (BS g), d1)" "wrote g {hd bs} d d1" "block_data g d1 (hd bs) = ?x"
      using write_one[OF d inv(1)] by blast
    have d1: "dev_ok g d1" using 1(2) by (simp add: wrote_def)
    obtain r2 d2 where 2: "(if length bs > 2 then dev_WriteBlocks g M (drop K buf) d1 else (0, d1)) = (r2, d2)" "\<not> ERROR r2"
      "wrote g (set M) d1 d2" "blocks_data g d2 M = take N (drop K buf)"
    proof (cases "length bs > 2")
      case True
      have l: "length M * BS g \<le> length (drop K buf)" using Ml n(3) s by simp
      have "M \<noteq> []" "INVALID_BLOCK_IDX \<notin> set M" using True E(5) bs(2) dis(5) by (auto simp: M_def[symmetric])
      from write_blocks_ok[OF d1 dis(4) this(2) l this(1)] show ?thesis
        using that[of "int N"] True unfolding Ml by auto
    next
      case False
      hence "length M = 0" "N = 0" using E(5) by (simp_all add: M_def N_def del: length_butlast)
      hence "M = []" "N = 0" by simp_all
      thus ?thesis using that[of 0 d1] False wrote_refl[OF d1] by simp
    qed
    have d2: "dev_ok g d2" using 2(3) by (simp add: wrote_def)
    have y: "length (take t (drop N (drop K buf))) \<le> BS g" using h by simp
    obtain ret d' where 3: "write_last g bs (take t (drop N (drop K buf))) d2 = (ret, d')" "ret > 0" "wrote g {last bs} d2 d'"
      "block_data g d' (last bs) = put_at 0 (take t (drop N (drop K buf))) (block_data g d2 (last bs))"
      using write_last_ok[OF d2 inv(2) y B] by auto
    have e: "blocks_data g e bs = block_data g e (hd bs) @ blocks_data g e M @ block_data g e (last bs)" for e
      by (subst split) simp
    have "blocks_data g d' bs = ?x @ take N (drop K buf) @ put_at 0 (take t (drop N (drop K buf))) (block_data g d (last bs))"
      unfolding e 3(4) using wrote_block[OF 3(3), of "hd bs"] wrote_block[OF 2(3) dis(1)] 1(3) wrote_data[OF 3(3), of M] dis(3) 2(4)
        wrote_block[OF 2(3) dis(3)] wrote_block[OF 1(2), of "last bs"] dis(2) by auto
    also have "\<dots> = put_at h (take dwSize buf) (blocks_data g d bs)"
    proof -
      have A: "length (blocks_data g d M) = N" by (simp only: L(1) Ml)
      have Q: "put_at 0 (drop K (take dwSize buf)) (blocks_data g d M @ block_data g d (last bs)) =
          take N (drop K (take dwSize buf)) @ put_at 0 (drop N (drop K (take dwSize buf))) (block_data g d (last bs))"
        using put_at_front[of "blocks_data g d M" "drop K (take dwSize buf)"] s n(3) unfolding A by simp
      have P: "put_at h (take dwSize buf) (block_data g d (hd bs) @ blocks_data g d M @ block_data g d (last bs)) =
          put_at h (take K (take dwSize buf)) (block_data g d (hd bs)) @
          put_at 0 (drop K (take dwSize buf)) (blocks_data g d M @ block_data g d (last bs))"
        using put_at_first[of h "block_data g d (hd bs)" "take dwSize buf" "blocks_data g d M @ block_data g d (last bs)"] h n(3) s
        unfolding L(2) K_def[symmetric] by (simp add: K_def)
      have c: "take K (take dwSize buf) = take K buf" "drop K (take dwSize buf) = take (N + t) (drop K buf)"
        by (simp_all add: drop_take s)
      have c': "take N (take (N + t) X) = take N X" "drop N (take (N + t) X) = take t (drop N X)" for X :: "byte list"
        by (simp_all add: drop_take)
      show ?thesis unfolding e P Q by (simp only: c c')
    qed
    finally have fin: "blocks_data g d' bs = put_at h (take dwSize buf) (blocks_data g d bs)" .
    have "wrote g (set bs) d d'" using wrote_trans[OF wrote_trans[OF 1(2) 2(3)] 3(3)] dis(5) by simp
    moreover have "write_data g dwOff dwSize buf bs d = Inr (write_last g bs (take t (drop N (drop K buf))) d2)"
      using 7 1(1) 2(1,2) rd ne unfolding def K_def[symmetric] N_def[symmetric] M_def[symmetric]
      by (simp del: drop_drop split del: if_split)
    ultimately show ?thesis using 3(1,2) fin by (simp add: h_def del: drop_drop)
  qed
qed

section \<open>Writing a file\<close>

text \<open>Writing data leaves the map alone.\<close>

lemma data_write:
  assumes ok: "file_ok g f d" and w: "wrote g (set (map (blk_at g f d) R)) d d'"
    and R: "\<forall>i\<in>set R. i < nblocks g \<and> blk_at g f d i \<noteq> 0"
  shows "file_ok g f d'" and "i < nblocks g \<Longrightarrow> blk_at g f d' i = blk_at g f d i"
    and "i < nblocks g \<Longrightarrow> i \<notin> set R \<Longrightarrow> blk_at g f d i \<noteq> 0 \<Longrightarrow> d_blk d' (blk_at g f d i) = d_blk d (blk_at g f d i)"
proof -
  note okD = file_okD[OF ok]
  have o: "d_blk d' (loc g f d s) = d_blk d (loc g f d s)" if "s \<in> slots g" "loc g f d s \<noteq> 0" "\<And>i. i \<in> set R \<Longrightarrow> s \<noteq> SBlk i" for s
  proof -
    have "loc g f d s \<notin> set (map (blk_at g f d) R)"
    proof
      assume "loc g f d s \<in> set (map (blk_at g f d) R)"
      then obtain i where i: "i \<in> set R" "loc g f d s = loc g f d (SBlk i)" by auto
      hence "s = SBlk i" using apart_inj[OF okD(4) that(1) _ i(2) that(2)] R by simp
      thus False using that(3) i(1) by simp
    qed
    thus ?thesis using w by (simp add: wrote_def)
  qed
  show b: "blk_at g f d' i = blk_at g f d i" if i: "i < nblocks g" for i
    using o[of SBit] o[of "STab k" for k] by (intro blk_at_dev okD(1) i) auto
  have "loc g f d' s = loc g f d s" if "s \<in> slots g" for s using that b by (cases s) auto
  thus "file_ok g f d'" using okD w by (auto simp: file_ok_def wrote_def intro: apart_cong)
  show "d_blk d' (blk_at g f d i) = d_blk d (blk_at g f d i)" if "i < nblocks g" "i \<notin> set R" "blk_at g f d i \<noteq> 0"
    using o[of "SBlk i"] that by auto
qed

lemma put_at_nth: "h + length x \<le> length D \<Longrightarrow> j < length D \<Longrightarrow> put_at h x D ! j = (if h \<le> j \<and> j < h + length x then x ! (j - h) else D ! j)"
  by (auto simp: put_at_def nth_append min_def)

text \<open>The bytes of a block of the range after the write.\<close>

lemma block_nth:
  assumes ok: "dev_ok g d" and B: "0 < BS g" and i: "lo \<le> i" "i < hi" and v: "v = map b [lo..<hi]"
    and nz: "b i \<noteq> INVALID_BLOCK_IDX" and k: "k div BS g = i"
  shows "k - lo * BS g < length v * BS g" and "d_blk d (b i) ! (k mod BS g) = blocks_data g d v ! (k - lo * BS g)"
proof -
  have kk: "k = i * BS g + k mod BS g" using k by auto
  have x: "k - lo * BS g = (i - lo) * BS g + k mod BS g" using i(1) by (subst kk) (simp add: diff_mult_distrib)
  have m: "k mod BS g < BS g" using B by simp
  have q: "(k - lo * BS g) div BS g = i - lo" "(k - lo * BS g) mod BS g = k mod BS g" using m unfolding x by simp_all
  have "(i - lo) * BS g + k mod BS g < Suc (i - lo) * BS g" using m by simp
  also have "\<dots> \<le> (hi - lo) * BS g" using i by (intro mult_le_mono1) linarith
  finally show l: "k - lo * BS g < length v * BS g" unfolding x v by simp
  from nth_blocks_data[OF ok l] show "d_blk d (b i) ! (k mod BS g) = blocks_data g d v ! (k - lo * BS g)"
    using i nz unfolding q by (simp add: v block_data_def)
qed

lemma write_nolock_ok:
  assumes ok: "file_ok g f d" "size_ok g f" "inode_wf (m_oInodeStore f)"
    and n: "0 < dwSize" "dwOff + dwSize \<le> MAX_FILE_SIZE g" "dwSize \<le> length buf" and j: "length junk = BS g"
    and R: "R = range_blocks g dwOff dwSize" and free: "3 * length R \<le> length (d_free d)"
  shows "\<exists>ret f' d'. CFileImage_WriteFileNoLock g safe junk dwOff dwSize buf f d = Inr (ret, dwSize, f', d') \<and> ret > 0 \<and>
    file_ok g f' d' \<and> size_ok g f' \<and> inode_wf (m_oInodeStore f') \<and> GetSize f' = max (GetSize f) (dwOff + dwSize) \<and>
    m_dwState f' = m_dwState f \<and> (\<forall>i\<in>set R. blk_at g f' d' i \<noteq> 0) \<and> length (d_free d) \<le> length (d_free d') + 3 * length R \<and>
    (\<forall>k<MAX_FILE_SIZE g. dwOff \<le> k \<and> k < dwOff + dwSize \<longrightarrow> content g f' d' k = buf ! (k - dwOff)) \<and>
    (\<forall>k<MAX_FILE_SIZE g. (k < dwOff \<or> dwOff + dwSize \<le> k) \<and> (k div BS g \<in> set R \<longrightarrow> blk_at g f d (k div BS g) \<noteq> 0) \<longrightarrow>
      content g f' d' k = content g f d k) \<and>
    (\<exists>used. d_free d = used @ d_free d') \<and> (\<forall>b. b \<notin> set (d_free d) \<and> (\<forall>s\<in>slots g. loc g f d s \<noteq> b) \<longrightarrow> d_blk d' b = d_blk d b)"
proof -
  note okD = file_okD[OF ok(1)]
  have B: "0 < BS g" by (rule BS_pos[OF okD(1)])
  have lt: "dwOff + dwSize < W32" using n(2) max_size[OF okD(1)] B by linarith
  define lo hi where "lo = dwOff div BS g" and "hi = (dwOff + dwSize + (BS g - 1)) div BS g"
  have Rq: "R = [lo..<hi]" unfolding R range_blocks_eq[OF okD(1) n(2)] by (simp add: lo_def hi_def)
  have inb: "i < nblocks g" if "i \<in> set R" for i using that range_below[OF okD(1) n(2)] by (simp add: Rq hi_def)
  obtain r1 f1 d1 d2 used where C: "CollectBlocksForWrite g safe junk dwOff dwSize f d = Inr (r1, map (blk_at g f1 d2) R, f1, d2)"
    "\<not> ERROR r1" "\<forall>i\<in>set R. blk_at g f1 d2 i \<noteq> 0" "grow g (set R) used f d f1 d1" "flushed g f1 d1 d2" "length used \<le> 3 * length R"
    using collect_blocks_ok[OF ok(1,3) n(1,2) j R free, of safe] by blast
  define v where "v = map (blk_at g f1 d2) R"
  have ok2: "file_ok g f1 d2" using C(5) by (simp add: flushed_def)
  note ok2D = file_okD[OF ok2]
  have inj: "inj_on (blk_at g f1 d2) (set R)"
  proof (rule inj_onI)
    fix x y assume xy: "x \<in> set R" "y \<in> set R" "blk_at g f1 d2 x = blk_at g f1 d2 y"
    thus "x = y" using apart_inj[OF ok2D(4), of "SBlk x" "SBlk y"] inb C(3) by auto
  qed
  have vd: "distinct v" "INVALID_BLOCK_IDX \<notin> set v"
    using inj loc_invalid[OF ok2, of "SBlk i" for i] inb by (auto simp: v_def distinct_map Rq)
  have vl: "length v = (dwOff + dwSize + (BS g - 1)) div BS g - dwOff div BS g" by (simp add: v_def Rq lo_def hi_def)
  obtain ret d3 where W: "write_data g dwOff dwSize buf v d2 = Inr (ret, d3)" "ret > 0" "wrote g (set v) d2 d3"
    "blocks_data g d3 v = put_at (dwOff mod BS g) (take dwSize buf) (blocks_data g d2 v)"
    using write_data_ok[OF ok2D(2) B n(1) lt n(3) vl vd] by auto
  have RR: "\<forall>i\<in>set R. i < nblocks g \<and> blk_at g f1 d2 i \<noteq> 0" using inb C(3) by auto
  note DW = data_write[OF ok2 W(3)[unfolded v_def] RR]
  have fr: "length (d_free d) \<le> length (d_free d3) + 3 * length R"
    using growD(2)[OF C(4)] C(5,6) W(3) by (simp add: flushed_def wrote_def)
  have sz: "GetSize f1 = GetSize f" by (subst growD(7)[OF C(4)]) simp
  have old: "blk_at g f1 d1 i = blk_at g f d i" "blk_at g f1 d2 i = blk_at g f d i" "d_blk d2 (blk_at g f d i) = d_blk d (blk_at g f d i)"
    if i: "i < nblocks g" "blk_at g f d i \<noteq> 0" for i
  proof -
    show 1: "blk_at g f1 d1 i = blk_at g f d i" using grow_keeps[OF C(4), of "SBlk i"] i by simp
    show "blk_at g f1 d2 i = blk_at g f d i" using C(5) i 1 by (simp add: flushed_def)
    have "blk_at g f d i \<notin> set used" using fresh[OF ok(1), of "blk_at g f d i" "SBlk i"] growD(2)[OF C(4)] i by auto
    hence "d_blk d1 (blk_at g f d i) = d_blk d (blk_at g f d i)" by (rule growD(4)[OF C(4)])
    thus "d_blk d2 (blk_at g f d i) = d_blk d (blk_at g f d i)" using flushed_blk[OF C(5) i(1), unfolded 1] i(2) by simp
  qed
  have others: "d_blk d3 b = d_blk d b \<and> (\<forall>s\<in>slots g. loc g f1 d3 s \<noteq> b)"
    if b: "b \<notin> set (d_free d)" "\<forall>s\<in>slots g. loc g f d s \<noteq> b" for b
  proof -
    have u: "b \<notin> set used" using b(1) growD(2)[OF C(4)] by auto
    have 1: "\<forall>s\<in>slots g. loc g f1 d1 s \<noteq> b" using growD(5)[OF C(4)] b(2) u by metis
    hence 2: "\<forall>s\<in>slots g. loc g f1 d2 s \<noteq> b" using loc_flushed[OF C(5)] by simp
    have "blk_at g f1 d2 i \<noteq> b" if "i \<in> set R" for i using 2 inb[OF that] by (auto dest: bspec[of _ _ "SBlk i"])
    hence "b \<notin> set v" by (auto simp: v_def)
    hence "d_blk d3 b = d_blk d b" using W(3) flushed_other[OF C(5) 1] growD(4)[OF C(4) u] by (simp add: wrote_def)
    moreover have "loc g f1 d3 s = loc g f1 d2 s" if "s \<in> slots g" for s using that DW(2) by (cases s) auto
    ultimately show ?thesis using 2 by simp
  qed
  have used: "\<exists>used. d_free d = used @ d_free d3" using growD(2)[OF C(4)] C(5) W(3) by (simp add: flushed_def wrote_def)
  define h where "h = dwOff mod BS g"
  have off: "lo * BS g + h = dwOff" by (simp add: lo_def h_def)
  have LD: "length (blocks_data g d2 v) = length v * BS g" by (rule length_blocks_data[OF ok2D(2)])
  have fit: "h + length (take dwSize buf) \<le> length (blocks_data g d2 v)"
    using range_fits[OF B n(1) vl] n(3) by (simp add: LD h_def)
  have inr: "content g f1 d3 k = (if dwOff \<le> k \<and> k < dwOff + dwSize then buf ! (k - dwOff)
      else d_blk d2 (blk_at g f1 d2 (k div BS g)) ! (k mod BS g))" if k: "k div BS g \<in> set R" for k
  proof -
    let ?i = "k div BS g" and ?x = "k - lo * BS g"
    have i: "lo \<le> ?i" "?i < hi" using k by (auto simp: Rq)
    have nz: "blk_at g f1 d2 ?i \<noteq> INVALID_BLOCK_IDX" using loc_invalid[OF ok2, of "SBlk ?i"] inb[OF k] by simp
    have d3: "dev_ok g d3" using W(3) by (simp add: wrote_def)
    note BN = block_nth[OF _ B i v_def[unfolded Rq] nz refl]
    have "lo * BS g \<le> ?i * BS g" using i(1) by (rule mult_le_mono1)
    also have "\<dots> \<le> k" by simp
    finally have ge: "lo * BS g \<le> k" .
    have "content g f1 d3 k = d_blk d3 (blk_at g f1 d2 ?i) ! (k mod BS g)"
      using bspec[OF RR k] DW(2)[OF inb[OF k]] by (simp add: content_def Let_def)
    also have "\<dots> = put_at h (take dwSize buf) (blocks_data g d2 v) ! ?x"
      unfolding BN(2)[OF d3] W(4) h_def ..
    also have "\<dots> = (if h \<le> ?x \<and> ?x < h + length (take dwSize buf) then take dwSize buf ! (?x - h) else blocks_data g d2 v ! ?x)"
      using BN(1)[OF ok2D(2)] by (intro put_at_nth[OF fit]) (simp add: LD)
    also have "(h \<le> ?x \<and> ?x < h + length (take dwSize buf)) = (dwOff \<le> k \<and> k < dwOff + dwSize)" using off ge n(3) by auto
    also have "blocks_data g d2 v ! ?x = d_blk d2 (blk_at g f1 d2 ?i) ! (k mod BS g)" using BN(2)[OF ok2D(2)] by simp
    also have "?x - h = k - dwOff" using off by simp
    finally show ?thesis using n(3) by auto
  qed
  have new: "content g f1 d3 k = buf ! (k - dwOff)" if k: "dwOff \<le> k" "k < dwOff + dwSize" for k
    using inr[of k] in_range[OF B k] k by (simp add: Rq lo_def hi_def)
  have same: "content g f1 d3 k = content g f d k" if k: "k < MAX_FILE_SIZE g" "k < dwOff \<or> dwOff + dwSize \<le> k"
    "k div BS g \<in> set R \<Longrightarrow> blk_at g f d (k div BS g) \<noteq> 0" for k
  proof -
    let ?i = "k div BS g"
    have i: "?i < nblocks g" using k(1) max_size(1)[OF okD(1)] by (simp add: less_mult_imp_div_less)
    show ?thesis
    proof (cases "?i \<in> set R")
      case True
      show ?thesis using inr[OF True] k(2) old(2,3)[OF i k(3)[OF True]] k(3)[OF True] by (auto simp: content_def)
    next
      case False
      have b: "blk_at g f1 d3 ?i = blk_at g f d ?i" using DW(2)[OF i] C(5) i growD(6)[OF C(4) i False] by (simp add: flushed_def)
      moreover have "d_blk d3 (blk_at g f d ?i) = d_blk d (blk_at g f d ?i)" if "blk_at g f d ?i \<noteq> 0"
        using DW(3)[OF i False] old[OF i that] that by simp
      ultimately show ?thesis by (simp add: content_def Let_def)
    qed
  qed
  let ?stop = "dwOff + dwSize"
  have nf1: "inode_wf (m_oInodeStore f1)"
    using file_okD(3)[OF ok2] ok(3) by (subst growD(7)[OF C(4)]) (simp add: inode_wf_def cache_ok_def)
  have dir: "m_pBitdBlk f1 \<noteq> None" if "GetSize f > SEC_INDIRECT_BLOCK_START g \<or> ?stop > SEC_INDIRECT_BLOCK_START g"
  proof (cases "GetSize f > SEC_INDIRECT_BLOCK_START g")
    case True
    thus ?thesis using ok(2) growD(9)[OF C(4)] by (simp add: size_ok_def)
  next
    case False
    let ?i = "(?stop - 1) div BS g"
    have r: "?i \<in> set R" using in_range[OF B, of dwOff "?stop - 1" dwSize] n(1) by (simp add: Rq lo_def hi_def)
    have "(13 + BLKIDX_PER_TABLE g) * BS g \<le> ?stop - 1" using False that unfolding sec_start by linarith
    hence "13 + BLKIDX_PER_TABLE g \<le> ?i" using B by (simp add: less_eq_div_iff_mult_less_eq)
    hence "tab_loc f1 (tab_no g ?i) \<noteq> 0" using RR r by (auto simp: blk_at_def sec_entry_def split: if_splits)
    thus ?thesis by (auto simp: tab_loc_def split: option.splits)
  qed
  have nb: "\<not> BEYOND_MAX_LIMIT g dwOff" using n(1,2) by (simp add: BEYOND_MAX_LIMIT_def)
  have cl: "(if BEYOND_MAX_LIMIT g ((dwOff + dwSize) mod W32) then MAX_FILE_SIZE g - dwOff else dwSize) = dwSize"
    using n(2) lt by (simp add: BEYOND_MAX_LIMIT_def)
  have e: "(dwSize + dwOff) mod W32 = ?stop" using lt by (simp add: add.commute)
  show ?thesis
  proof (cases "?stop \<le> GetSize f")
    case True
    have "CFileImage_WriteFileNoLock g safe junk dwOff dwSize buf f d = Inr (ret, dwSize, f1, d3)"
      using nb True sz W(1,2) C(1,2) unfolding CFileImage_WriteFileNoLock_def Let_def cl e by (simp add: v_def)
    moreover have "size_ok g f1" using ok(2) sz dir by (auto simp: size_ok_def)
    ultimately show ?thesis using W(2) DW(1,2) RR nf1 sz True growD(8)[OF C(4)] same new fr others used by (simp add: max_absorb1)
  next
    case False
    let ?f = "SetSize ?stop f1"
    define d4 where "d4 = (if safe then snd (FlushInode g junk ?f d3) else d3)"
    have "CFileImage_WriteFileNoLock g safe junk dwOff dwSize buf f d = Inr (ret, dwSize, ?f, d4)"
      using nb False sz W(1,2) C(1,2) unfolding CFileImage_WriteFileNoLock_def Let_def cl e d4_def by (simp add: v_def)
    moreover have fok: "file_ok g ?f d3" using file_ok_inode[OF DW(1)] by (simp add: SetSize_def)
    have bl: "blk_at g ?f d3 = blk_at g f1 d3" by (simp add: SetSize_def blk_at_inode)
    have nf: "inode_wf (m_oInodeStore ?f)" using nf1 by (simp add: SetSize_def inode_wf_def)
    have fl: "flushed g ?f d3 d4"
      using FlushInode_ok[OF fok nf j] flushed_refl[OF fok] unfolding d4_def by (cases safe) auto
    have "content g ?f d4 k = content g f1 d3 k" if "k < MAX_FILE_SIZE g" for k
    proof -
      have "k div BS g < nblocks g" using that max_size(1)[OF okD(1)] by (simp add: less_mult_imp_div_less)
      thus ?thesis using flushed_content[OF fl] bl by (simp add: content_def)
    qed
    moreover have "size_ok g ?f" using n(2) dir by (auto simp: size_ok_def SetSize_def)
    moreover have "file_ok g ?f d4" using fl by (simp add: flushed_def)
    moreover have "\<forall>i\<in>set R. blk_at g ?f d4 i \<noteq> 0" using fl bl RR DW(2) by (simp add: flushed_def)
    moreover have "GetSize ?f = max (GetSize f) ?stop" "m_dwState ?f = m_dwState f" using False growD(8)[OF C(4)] by (simp_all add: SetSize_def)
    moreover have "length (d_free d) \<le> length (d_free d4) + 3 * length R" "\<exists>used. d_free d = used @ d_free d4"
      using fr used fl by (simp_all add: flushed_def)
    moreover have "d_blk d4 b = d_blk d b" if "b \<notin> set (d_free d) \<and> (\<forall>s\<in>slots g. loc g f d s \<noteq> b)" for b
    proof -
      have o: "d_blk d3 b = d_blk d b" "\<forall>s\<in>slots g. loc g f1 d3 s \<noteq> b" using others[of b] that by simp_all
      have "loc g ?f d3 s = loc g f1 d3 s" for s using bl by (cases s) (simp_all add: SetSize_def tab_loc_def)
      thus ?thesis using flushed_other[OF fl, of b] o by simp
    qed
    ultimately show ?thesis using W(2) nf same new by simp
  qed
qed

text \<open>A file that has just been formatted is sound.\<close>

lemma format_ok:
  assumes g: "geom_ok g" and d: "dev_ok g d"
    and free: "distinct (d_free d)" "\<forall>b\<in>set (d_free d). 0 < b \<and> blk_ok b" "m_dwInodeIdx f \<notin> set (d_free d)" "blk_ok (m_dwInodeIdx f)"
    and c: "m_pBitBlk f = None" "m_pBitdBlk f = None" "m_mapSecBitBlks f = []"
    and f': "f' = snd (CFileImage_Format now euid egid f)"
  shows "file_ok g f' d" "size_ok g f'" "inode_wf (m_oInodeStore f')" "GetSize f' = 0" "blk_at g f' d i = 0"
proof -
  have f: "arrBlks f' = replicate 15 0" "GetSize f' = 0" "m_pBitBlk f' = None" "m_pBitdBlk f' = None" "m_mapSecBitBlks f' = []"
    "m_dwInodeIdx f' = m_dwInodeIdx f" "length (m_arrMetaFork (m_oInodeStore f')) = 4"
    using c by (simp_all add: f' CFileImage_Format_def)
  have t: "tab_loc f' k = 0" for k by (simp add: tab_loc_def f)
  have z: "loc g f' d s = (if s = SIno then m_dwInodeIdx f else 0)" for s
    by (cases s) (auto simp: f t blk_at_def ind_entry_def sec_entry_def)
  have "blk_ok 0" by (simp add: blk_ok_def)
  hence "apart (slots g) (loc g f' d) (d_free d)" using free by (auto simp: apart_def z)
  moreover have "cache_ok g f'" by (simp add: cache_ok_def f)
  ultimately show "file_ok g f' d" using g d by (simp add: file_ok_def)
  show "size_ok g f'" "inode_wf (m_oInodeStore f')" "GetSize f' = 0" by (simp_all add: size_ok_def inode_wf_def f)
  show "blk_at g f' d i = 0" using z[of "SBlk i"] by simp
qed

definition demo_file :: "nat file_image" where
  "demo_file = snd (CFileImage_Format (1, 2) 0 0
     \<lparr>m_dwInodeIdx = 40, m_oInodeStore = load_inode (0, 0) (replicate 512 0), m_oValue = VarNone, m_pBitBlk = None, m_pBitdBlk = None,
      m_mapSecBitBlks = [], m_dwOpenCount = 1, m_dwState = FStarted\<rparr>)"

definition demo_dev :: dev where
  "demo_dev = \<lparr>d_blk = (\<lambda>b. replicate 512 7), d_free = [50, 51, 52, 53, 54, 55], d_err = (\<lambda>b. 0)\<rparr>"

lemma BS_default [simp]: "BS default_geom = 512" "BLKIDX_PER_TABLE default_geom = 128" "MAX_FILE_SIZE default_geom = 8460800"
  by (simp_all add: BS_def BLKIDX_PER_TABLE_def MAX_FILE_SIZE_def default_geom_def)

lemma demo_ok: "file_ok default_geom demo_file demo_dev" "size_ok default_geom demo_file" "inode_wf (m_oInodeStore demo_file)"
  "GetSize demo_file = 0" "m_dwState demo_file \<noteq> FStopped"
proof -
  have g: "geom_ok default_geom" by (simp add: geom_ok_def)
  have d: "dev_ok default_geom demo_dev" by (simp add: dev_ok_def demo_dev_def)
  note F = format_ok[OF g d _ _ _ _ _ _ _ demo_file_def]
  show "file_ok default_geom demo_file demo_dev" "size_ok default_geom demo_file" "inode_wf (m_oInodeStore demo_file)" "GetSize demo_file = 0"
    by (rule F; simp add: demo_dev_def blk_ok_def)+
  show "m_dwState demo_file \<noteq> FStopped" by (simp add: demo_file_def CFileImage_Format_def)
qed

lemma demo_written:
  "\<exists>ret f' d'. CFileImage_WriteFile default_geom False (5, 6) (replicate 512 0) 0 3 [1, 2, 3] demo_file demo_dev = Inr (ret, 3, f', d') \<and>
    file_ok default_geom f' d' \<and> size_ok default_geom f' \<and> inode_wf (m_oInodeStore f') \<and> m_dwState f' \<noteq> FStopped \<and> GetSize f' = 3 \<and>
    blk_at default_geom f' d' 0 \<noteq> 0 \<and> 3 \<le> length (d_free d') \<and> content default_geom f' d' 2 = 3"
proof -
  have r: "range_blocks default_geom 0 3 = [0]" by (simp add: range_blocks_def BEYOND_MAX_LIMIT_def)
  have l: "length [1, 2, 3 :: byte] \<ge> 3" "length (replicate 512 (0 :: byte)) = BS default_geom" by simp_all
  have fr: "length (d_free demo_dev) = 6" by (simp add: demo_dev_def)
  obtain ret f1 d' where W: "CFileImage_WriteFileNoLock default_geom False (replicate 512 0) 0 3 [1, 2, 3] demo_file demo_dev = Inr (ret, 3, f1, d')"
    "file_ok default_geom f1 d'" "size_ok default_geom f1" "inode_wf (m_oInodeStore f1)" "GetSize f1 = 3" "m_dwState f1 = m_dwState demo_file"
    "blk_at default_geom f1 d' 0 \<noteq> 0" "3 \<le> length (d_free d')" "content default_geom f1 d' 2 = 3"
    using write_nolock_ok[OF demo_ok(1,2,3) _ _ l refl, of 0 False] by (auto simp: fr r demo_ok(4))
  have i: "inode_wf (m_oInodeStore (touch_mtime (5, 6) f1))" using W(4) by (simp add: touch_mtime_def inode_wf_def)
  have "content default_geom (touch_mtime (5, 6) f1) d' = content default_geom f1 d'"
    by (intro content_cong) (simp add: touch_mtime_simps)
  thus ?thesis using W demo_ok(5) i by (auto simp: CFileImage_WriteFile_def touch_mtime_simps size_ok_def)
qed

text \<open>C3. Writing a file: with enough free blocks, in safe mode and out of it, \<open>WriteFile\<close> puts the bytes of the caller at their offset, extends the
  size to the end of the range, leaves every byte outside the range as it was, except in the blocks of the range that the file did not have, and keeps the block map sound (no block
  with two uses, none both used and free). A block that belongs neither to the file nor to the free ones keeps its content, and the blocks taken are the first free ones. What a block
  that is new to the file holds outside the range is not said: it is what an earlier owner left there.\<close>

theorem write_file_content:
  assumes "file_ok g f d" "size_ok g f" "inode_wf (m_oInodeStore f)" "m_dwState f \<noteq> FStopped"
    and "0 < dwSize" "dwOff + dwSize \<le> MAX_FILE_SIZE g" "dwSize \<le> length buf" "length junk = BS g"
    and "3 * length (range_blocks g dwOff dwSize) \<le> length (d_free d)"
  shows "\<exists>ret f' d'. CFileImage_WriteFile g safe now junk dwOff dwSize buf f d = Inr (ret, dwSize, f', d') \<and> ret > 0 \<and>
    file_ok g f' d' \<and> size_ok g f' \<and> GetSize f' = max (GetSize f) (dwOff + dwSize) \<and>
    (\<forall>k<MAX_FILE_SIZE g. dwOff \<le> k \<and> k < dwOff + dwSize \<longrightarrow> content g f' d' k = buf ! (k - dwOff)) \<and>
    (\<forall>k<MAX_FILE_SIZE g. (k < dwOff \<or> dwOff + dwSize \<le> k) \<and>
      (k div BS g \<in> set (range_blocks g dwOff dwSize) \<longrightarrow> blk_at g f d (k div BS g) \<noteq> 0) \<longrightarrow> content g f' d' k = content g f d k) \<and>
    (\<exists>used. d_free d = used @ d_free d') \<and>
    (\<forall>b. b \<notin> set (d_free d) \<and> (\<forall>s\<in>slots g. loc g f d s \<noteq> b) \<longrightarrow> d_blk d' b = d_blk d b)"
proof -
  obtain ret f' d' where W: "CFileImage_WriteFileNoLock g safe junk dwOff dwSize buf f d = Inr (ret, dwSize, f', d')" "ret > 0"
    "file_ok g f' d'" "size_ok g f'" "GetSize f' = max (GetSize f) (dwOff + dwSize)"
    "\<forall>k<MAX_FILE_SIZE g. dwOff \<le> k \<and> k < dwOff + dwSize \<longrightarrow> content g f' d' k = buf ! (k - dwOff)"
    "\<forall>k<MAX_FILE_SIZE g. (k < dwOff \<or> dwOff + dwSize \<le> k) \<and>
      (k div BS g \<in> set (range_blocks g dwOff dwSize) \<longrightarrow> blk_at g f d (k div BS g) \<noteq> 0) \<longrightarrow> content g f' d' k = content g f d k"
    "\<exists>used. d_free d = used @ d_free d'" "\<forall>b. b \<notin> set (d_free d) \<and> (\<forall>s\<in>slots g. loc g f d s \<noteq> b) \<longrightarrow> d_blk d' b = d_blk d b"
    using write_nolock_ok[OF assms(1,2,3,5,6,7,8) refl assms(9), of safe] by blast
  have c: "content g (touch_mtime now f') d' = content g f' d'" by (intro content_cong) (simp add: touch_mtime_simps)
  have "CFileImage_WriteFile g safe now junk dwOff dwSize buf f d = Inr (ret, dwSize, touch_mtime now f', d')"
    using W(1) assms(4) by (simp add: CFileImage_WriteFile_def)
  moreover have "size_ok g (touch_mtime now f')" using W(4) by (simp add: size_ok_def touch_mtime_simps)
  moreover have "file_ok g (touch_mtime now f') d'" "GetSize (touch_mtime now f') = max (GetSize f) (dwOff + dwSize)"
    using W(3,5) by (simp_all add: touch_mtime_simps)
  ultimately show ?thesis using W(2,6-9) unfolding c[symmetric] by blast
qed

theorem write_file_content_witness:
  "\<exists>ret f' d'. CFileImage_WriteFile default_geom True (5, 6) (replicate 512 0) 100 3 [1, 2, 3] demo_file demo_dev = Inr (ret, 3, f', d')
    \<and> GetSize f' = 103 \<and> content default_geom f' d' 101 = 2"
proof -
  have r: "range_blocks default_geom 100 3 = [0]" by (simp add: range_blocks_def BEYOND_MAX_LIMIT_def)
  obtain ret f' d' where W: "CFileImage_WriteFile default_geom True (5, 6) (replicate 512 0) 100 3 [1, 2, 3] demo_file demo_dev = Inr (ret, 3, f', d')"
    "GetSize f' = max 0 (100 + 3)" "\<forall>k<8460800. 100 \<le> k \<and> k < 103 \<longrightarrow> content default_geom f' d' k = [1, 2, 3] ! (k - 100)"
    using write_file_content[OF demo_ok(1,2,3,5), of 3 100 "[1, 2, 3]" "replicate 512 0" True "(5, 6)"]
    by (auto simp: r demo_dev_def demo_ok(4))
  thus ?thesis by simp
qed

text \<open>C4. What is written is read back: after \<open>WriteFile\<close>, \<open>ReadFile\<close> of the same range returns the bytes, for any alignment and for
  ranges that go through direct blocks, the table of indirect blocks and the directory of tables.\<close>

theorem write_then_read:
  assumes "file_ok g f d" "size_ok g f" "inode_wf (m_oInodeStore f)" "m_dwState f \<noteq> FStopped"
    and n: "0 < dwSize" "dwOff + dwSize \<le> MAX_FILE_SIZE g" "dwSize \<le> length buf" and "length junk = BS g"
    and "3 * length (range_blocks g dwOff dwSize) \<le> length (d_free d)"
  shows "\<exists>ret f' d' ret2 f''. CFileImage_WriteFile g safe now junk dwOff dwSize buf f d = Inr (ret, dwSize, f', d') \<and> ret > 0 \<and>
    CFileImage_ReadFile g now2 dwOff dwSize f' d' = Inr (ret2, dwSize, take dwSize buf, f'') \<and> ret2 > 0"
proof -
  note g = file_okD(1)[OF assms(1)]
  note B = BS_pos[OF g]
  obtain ret f1 d' where W: "CFileImage_WriteFileNoLock g safe junk dwOff dwSize buf f d = Inr (ret, dwSize, f1, d')" "ret > 0"
    "file_ok g f1 d'" "size_ok g f1" "GetSize f1 = max (GetSize f) (dwOff + dwSize)" "m_dwState f1 = m_dwState f"
    "\<forall>i\<in>set (range_blocks g dwOff dwSize). blk_at g f1 d' i \<noteq> 0"
    "\<forall>k<MAX_FILE_SIZE g. dwOff \<le> k \<and> k < dwOff + dwSize \<longrightarrow> content g f1 d' k = buf ! (k - dwOff)"
    using write_nolock_ok[OF assms(1,2,3,5,6,7,8) refl assms(9), of safe] by blast
  define f' where "f' = touch_mtime now f1"
  have F: "file_ok g f' d'" "size_ok g f'" "m_dwState f' \<noteq> FStopped" "dwOff < GetSize f'" "dwOff + dwSize < W32"
    "dwSize = min dwSize (GetSize f' - dwOff)" "content g f' d' = content g f1 d'"
    using W assms(4) n max_size[OF g] B
    by (auto simp: f'_def touch_mtime_simps size_ok_def intro!: content_cong)
  have nz: "blk_at g f' d' i \<noteq> 0" if "dwOff div BS g \<le> i" "i < (dwOff + dwSize + (BS g - 1)) div BS g" for i
    using W(7) that unfolding range_blocks_eq[OF g n(2)] by (simp add: f'_def touch_mtime_simps)
  have ends: "dwOff div BS g < (dwOff + dwSize + (BS g - 1)) div BS g" using in_range[OF B le_refl, of dwOff dwSize] n(1) by simp
  have "blk_at g f' d' (dwOff div BS g) \<noteq> 0" by (rule nz[OF le_refl ends])
  moreover have "blk_at g f' d' ((dwOff + dwSize) div BS g) \<noteq> 0" if "(dwOff + dwSize) mod BS g \<noteq> 0"
    using div_up[OF that B] by (intro nz) (simp_all add: div_le_mono)
  ultimately obtain ret2 f'' where
    "CFileImage_ReadFile g now2 dwOff dwSize f' d' = Inr (ret2, dwSize, map (content g f' d') [dwOff..<dwOff + dwSize], f'')" "ret2 > 0"
    using read_file_ok[OF F(1-4) n(1) F(5,6)] by blast
  moreover have "map (content g f' d') [dwOff..<dwOff + dwSize] = take dwSize buf"
    using W(8) n by (intro nth_equalityI) (simp_all add: F(7))
  moreover have "CFileImage_WriteFile g safe now junk dwOff dwSize buf f d = Inr (ret, dwSize, f', d')"
    using W(1) assms(4) by (simp add: CFileImage_WriteFile_def f'_def)
  ultimately show ?thesis using W(2) by auto
qed

theorem write_then_read_witness:
  "\<exists>ret f' d' ret2 f''. CFileImage_WriteFile default_geom False (5, 6) (replicate 512 0) 100 3 [1, 2, 3] demo_file demo_dev = Inr (ret, 3, f', d')
    \<and> CFileImage_ReadFile default_geom (7, 8) 100 3 f' d' = Inr (ret2, 3, [1, 2, 3], f'')"
proof -
  have r: "range_blocks default_geom 100 3 = [0]" by (simp add: range_blocks_def BEYOND_MAX_LIMIT_def)
  show ?thesis
    using write_then_read[OF demo_ok(1,2,3,5), of 3 100 "[1, 2, 3]" "replicate 512 0" False "(5, 6)" "(7, 8)"]
    by (auto simp: r demo_dev_def)
qed

text \<open>C11. Reading a file returns its content: for a file whose block map is sound, with directory and tables cached or not, \<open>ReadFile\<close> delivers
  the bytes of the range cut at the end of the file, whatever the alignment of the range, and changes neither map nor content. A hole may
  lie in the range where it covers whole blocks.\<close>

theorem read_file_content:
  assumes "file_ok g f d" "size_ok g f" "m_dwState f \<noteq> FStopped"
    and "dwOff < GetSize f" "0 < dwSize" "dwOff + dwSize < W32" "n = min dwSize (GetSize f - dwOff)"
    and "dwOff mod BS g \<noteq> 0 \<Longrightarrow> blk_at g f d (dwOff div BS g) \<noteq> 0"
    and "(dwOff + n) mod BS g \<noteq> 0 \<Longrightarrow> blk_at g f d ((dwOff + n) div BS g) \<noteq> 0"
  shows "\<exists>ret f'. CFileImage_ReadFile g now dwOff dwSize f d = Inr (ret, n, map (content g f d) [dwOff..<dwOff + n], f') \<and>
    ret > 0 \<and> file_ok g f' d \<and> size_ok g f' \<and> GetSize f' = GetSize f \<and> (\<forall>k. content g f' d k = content g f d k)"
  by (rule read_file_ok[OF assms])

theorem read_file_content_witness:
  "\<exists>ret f' d' ret2 f''. CFileImage_WriteFile default_geom False (5, 6) (replicate 512 0) 0 3 [1, 2, 3] demo_file demo_dev = Inr (ret, 3, f', d')
    \<and> CFileImage_ReadFile default_geom (7, 8) 0 600 f' d' = Inr (ret2, 3, map (content default_geom f' d') [0..<3], f'')"
proof -
  obtain ret f' d' where F: "CFileImage_WriteFile default_geom False (5, 6) (replicate 512 0) 0 3 [1, 2, 3] demo_file demo_dev = Inr (ret, 3, f', d')"
    "file_ok default_geom f' d'" "size_ok default_geom f'" "m_dwState f' \<noteq> FStopped" "GetSize f' = 3" "blk_at default_geom f' d' 0 \<noteq> 0"
    using demo_written by blast
  have "\<exists>ret2 f''. CFileImage_ReadFile default_geom (7, 8) 0 600 f' d' = Inr (ret2, 3, map (content default_geom f' d') [0..<0 + 3], f'') \<and>
     ret2 > 0 \<and> file_ok default_geom f'' d' \<and> size_ok default_geom f'' \<and> GetSize f'' = GetSize f' \<and>
     (\<forall>k. content default_geom f'' d' k = content default_geom f' d' k)"
    by (rule read_file_content[OF F(2-4)]) (use F in simp_all)
  thus ?thesis using F(1) by auto
qed

end
