(* ===== verification/FileFaults.thy ===== *)
theory FileFaults
  imports FileWrite "HOL-Library.Multiset"
begin

text \<open>
  Where the file layer does not do what a file system promises (\<^verbatim>\<open>monitor/registry/file.cpp\<close>): extending a file, holes, a full image,
  truncation behind the first table of the directory, and the limit of 4096-byte blocks.
\<close>

section \<open>Extending\<close>

text \<open>C39. Extending a file with \<^verbatim>\<open>Truncate\<close> destroys data: the zeros are written from the start of the block of the new end, so what the file
  held in that block is zero afterwards although the call succeeds; when the new end is on a block boundary
  nothing is written and the call fails with \<^verbatim>\<open>-EINVAL\<close>.\<close>

theorem extend_zeroes_data:
  assumes "file_ok g f d" "size_ok g f" "inode_wf (m_oInodeStore f)" "m_dwState f \<noteq> FStopped" "length junk = BS g"
    and off: "GetSize f < dwOff" "dwOff < MAX_FILE_SIZE g" and free: "3 \<le> length (d_free d)"
  shows "if dwOff mod BS g = 0
    then CFileImage_Truncate g safe now junk dwOff f d = Inr (- EINVAL, f, d)
    else \<exists>ret f' d'. CFileImage_Truncate g safe now junk dwOff f d = Inr (ret, f', d') \<and> ret > 0 \<and> GetSize f' = dwOff \<and>
      (\<forall>k. dwOff - dwOff mod BS g \<le> k \<and> k < dwOff \<longrightarrow> content g f' d' k = 0)"
proof -
  note okg = file_okD(1)[OF assms(1)]
  note B = BS_pos[OF okg]
  have nb: "\<not> BEYOND_MAX_LIMIT g dwOff" "\<not> BEYOND_MAX_LIMIT g (dwOff - dwOff mod BS g)" using off(2) by (simp_all add: BEYOND_MAX_LIMIT_def)
  have lt: "dwOff < W32" using off(2) max_size[OF okg] B by linarith
  show ?thesis
  proof (cases "dwOff mod BS g = 0")
    case True
    have "(dwOff + 0) mod W32 = dwOff" using lt by simp
    hence "CFileImage_Extend g safe junk dwOff f d = Inr (- EINVAL, f, d)"
      using True nb(1) by (simp add: CFileImage_Extend_def CFileImage_WriteFileNoLock_def CollectBlocksForWrite_def)
    thus ?thesis using True off nb assms(4)
      by (simp add: CFileImage_Truncate_def CFileImage_TruncateNoLock_def trunc_inner_def)
  next
    case False
    define h where "h = dwOff mod BS g"
    have h: "0 < h" "h < BS g" "h \<le> dwOff" using False B by (simp_all add: h_def)
    have e: "dwOff - h + h = dwOff" using h by simp
    have z: "(dwOff - h) mod BS g = 0" "(dwOff - h) div BS g = dwOff div BS g" unfolding h_def
      by (simp_all add: minus_mod_eq_mult_div B less_imp_neq[OF B, symmetric])
    have "(dwOff + (BS g - 1)) div BS g = Suc (dwOff div BS g)" by (rule div_up[OF False B])
    hence R: "range_blocks g (dwOff - h) h = [dwOff div BS g]"
      using range_blocks_eq[OF okg, of "dwOff - h" h] off(2) by (simp add: e z)
    have "dwOff - h + h \<le> MAX_FILE_SIZE g" "h \<le> length (replicate (BS g) (0 :: byte))" using off h e by simp_all
    from write_nolock_ok[OF assms(1-3) h(1) this assms(5) R[symmetric], of safe] free obtain ret f' d' where
      W: "CFileImage_WriteFileNoLock g safe junk (dwOff - h) h (replicate (BS g) 0) f d = Inr (ret, h, f', d')" "ret > 0"
        "GetSize f' = max (GetSize f) dwOff"
        "\<forall>k<MAX_FILE_SIZE g. dwOff - h \<le> k \<and> k < dwOff \<longrightarrow> content g f' d' k = replicate (BS g) 0 ! (k - (dwOff - h))"
      by (auto simp: e)
    have "CFileImage_Truncate g safe now junk dwOff f d = Inr (ret, f', d')"
      using W(1,2) off nb(1) assms(4)
      by (simp add: CFileImage_Truncate_def CFileImage_TruncateNoLock_def trunc_inner_def CFileImage_Extend_def h_def)
    moreover have "content g f' d' k = 0" if "dwOff - h \<le> k" "k < dwOff" for k using W(4) that off(2) h by simp
    ultimately show ?thesis using False W(2,3) off(1) by (auto simp: h_def)
  qed
qed

theorem extend_zeroes_data_witness:
  "\<exists>ret f1 d1 ret2 f' d'. CFileImage_WriteFile default_geom False (5, 6) (replicate 512 0) 0 3 [1, 2, 3] demo_file demo_dev = Inr (ret, 3, f1, d1) \<and> content default_geom f1 d1 2 = 3
    \<and> CFileImage_Truncate default_geom False (7, 8) (replicate 512 0) 10 f1 d1 = Inr (ret2, f', d') \<and> ret2 > 0 \<and> content default_geom f' d' 2 = 0"
proof -
  obtain ret f1 d1 where F: "CFileImage_WriteFile default_geom False (5, 6) (replicate 512 0) 0 3 [1, 2, 3] demo_file demo_dev = Inr (ret, 3, f1, d1)"
    "file_ok default_geom f1 d1" "size_ok default_geom f1" "inode_wf (m_oInodeStore f1)" "m_dwState f1 \<noteq> FStopped" "GetSize f1 = 3"
    "3 \<le> length (d_free d1)" "content default_geom f1 d1 2 = 3" using demo_written by blast
  obtain ret2 f' d' where "CFileImage_Truncate default_geom False (7, 8) (replicate 512 0) 10 f1 d1 = Inr (ret2, f', d')" "ret2 > 0"
    "content default_geom f' d' 2 = 0"
    using extend_zeroes_data[OF F(2-5), of "replicate 512 0" 10 False "(7, 8)"] F(6,7) by auto
  thus ?thesis using F(1,8) by blast
qed

section \<open>Holes\<close>

text \<open>A hole cannot be read from its middle: a read that starts inside a block the file does not have fails with \<^verbatim>\<open>-EINVAL\<close>, while the same hole
  reads as zeros when whole blocks are read.\<close>

lemma read_hole_fails:
  assumes ok: "file_ok g f d" "size_ok g f" and st: "m_dwState f \<noteq> FStopped"
    and n: "dwOff < GetSize f" "0 < dwSize" "dwOff + dwSize < W32"
    and hole: "dwOff mod BS g \<noteq> 0" "blk_at g f d (dwOff div BS g) = 0"
  shows "\<exists>f'. CFileImage_ReadFile g now dwOff dwSize f d = Inr (- EINVAL, min dwSize (GetSize f - dwOff), [], f')"
proof -
  note B = BS_pos[OF file_okD(1)[OF ok(1)]]
  define m where "m = min dwSize (GetSize f - dwOff)"
  have m: "0 < m" "dwOff + m \<le> GetSize f" "dwOff + m < W32" using n by (auto simp: m_def)
  have max: "\<not> BEYOND_MAX_LIMIT g dwOff" using n ok(2) by (simp add: BEYOND_MAX_LIMIT_def size_ok_def)
  obtain f1 where c: "CollectBlocksForRead g dwOff m f d =
      Inr (0, map (\<lambda>i. as_hole (blk_at g f d i)) [dwOff div BS g..<(dwOff + m + (BS g - 1)) div BS g], f1)"
    using collect_for_read_ok[OF ok m(1,2)] by blast
  have "dwOff div BS g < (dwOff + m + (BS g - 1)) div BS g" using in_range(2)[OF B le_refl, of dwOff m] m(1) by simp
  hence "[dwOff div BS g..<(dwOff + m + (BS g - 1)) div BS g] = dwOff div BS g # [Suc (dwOff div BS g)..<(dwOff + m + (BS g - 1)) div BS g]"
    by (rule upt_conv_Cons)
  then obtain bs where c: "CollectBlocksForRead g dwOff m f d = Inr (0, INVALID_BLOCK_IDX # bs, f1)"
    using c hole(2) by (simp add: as_hole_def)
  have "(if (dwOff + dwSize) mod W32 > GetSize f then GetSize f - dwOff else dwSize) = m" using n by (auto simp: m_def)
  thus ?thesis using st n(1) max hole(1) c m(3)
    by (auto simp: CFileImage_ReadFile_def read_data_def dev_ReadBlock_def Let_def m_def[symmetric])
qed

section \<open>A full image\<close>

lemma range_two:
  assumes "geom_ok g" "Suc i < 13" shows "range_blocks g (i * BS g) (2 * BS g) = [i, Suc i]"
proof -
  have B: "0 < BS g" by (rule BS_pos[OF assms(1)])
  have "(i + 2) * BS g \<le> nblocks g * BS g" using assms(2) by (intro mult_le_mono1) (simp add: nblocks_def)
  hence m: "i * BS g + 2 * BS g \<le> MAX_FILE_SIZE g" using max_size(1)[OF assms(1)] by (simp add: add_mult_distrib)
  have "(i * BS g + 2 * BS g + (BS g - 1)) div BS g = i + 2"
    using B by (intro div_nat_eqI) (simp_all add: mult.commute)
  thus ?thesis using B unfolding range_blocks_eq[OF assms(1) m] by (simp add: upt_conv_Cons)
qed

lemma collect_two:
  assumes "geom_ok g" "Suc i < 13" "arrBlks f ! i \<noteq> 0" "arrBlks f ! Suc i = 0" "d_free d = []" "w_f w = f" "w_d w = d" "w_vec w = []"
  shows "collect_write g safe [i, Suc i] w = Inr (- ENOMEM, push (arrBlks f ! i) (w\<lparr>bDirtyInode := bDirtyInode w \<or> safe\<rparr>))"
proof -
  have p: "(i * BS g) mod W32 = i * BS g" "(Suc i * BS g) mod W32 = Suc i * BS g"
    using assms(2) by (intro block_pos[OF assms(1)]; simp add: nblocks_def)+
  show ?thesis using assms(2-)
    unfolding collect_write.simps write_step_def p within_block[OF assms(1)] Let_def
    by (simp add: write_direct_def w_alloc_def dev_Alloc_def push_def)
qed

text \<open>C40. In safe mode a write to a full image reports success: two blocks are written, the file has the first and no block is left for the second. The
  status of the failed allocation is overwritten by the one of flushing the inode, the size grows over the second block, and
  that block reads as zeros. Out of safe mode the same call fails with \<^verbatim>\<open>-ENOMEM\<close>.\<close>

theorem full_image_reported_as_success:
  assumes ok: "file_ok g f d" "inode_wf (m_oInodeStore f)" "m_dwState f \<noteq> FStopped" "length junk = BS g"
    and i: "Suc i < 13" "arrBlks f ! i \<noteq> 0" "arrBlks f ! Suc i = 0" and full: "d_free d = []" and buf: "2 * BS g \<le> length buf"
  shows "(\<exists>f' d'. CFileImage_WriteFile g True now junk (i * BS g) (2 * BS g) buf f d = Inr (int (BS g), 2 * BS g, f', d') \<and>
      GetSize f' = max (GetSize f) ((i + 2) * BS g) \<and> (\<forall>k. Suc i * BS g \<le> k \<and> k < (i + 2) * BS g \<longrightarrow> content g f' d' k = 0)) \<and>
    (\<exists>f' d'. CFileImage_WriteFile g False now junk (i * BS g) (2 * BS g) buf f d = Inr (- ENOMEM, 2 * BS g, f', d'))"
proof -
  note okD = file_okD[OF ok(1)]
  have B: "0 < BS g" by (rule BS_pos[OF okD(1)])
  let ?b = "arrBlks f ! i" and ?off = "i * BS g" and ?n = "2 * BS g"
  have mult: "(i + 2) * BS g = ?off + ?n" by (simp add: add_mult_distrib)
  have "(i + 2) * BS g \<le> 14 * BS g" using i(1) by (intro mult_le_mono1) simp
  also have "\<dots> < nblocks g * BS g" using okD(1) B by (intro mult_strict_right_mono) (auto simp: nblocks_def geom_ok_def)
  finally have lim: "?off + ?n < MAX_FILE_SIZE g" unfolding mult max_size(1)[OF okD(1)] .
  have lt: "?off + ?n < W32" using lim max_size[OF okD(1)] by linarith
  have nb: "\<not> BEYOND_MAX_LIMIT g ?off" "\<not> BEYOND_MAX_LIMIT g ((?off + ?n) mod W32)" using lim lt by (simp_all add: BEYOND_MAX_LIMIT_def)
  have s: "blk_at g f d i = ?b" using i(1) by (simp add: blk_at_def)
  have inv: "?b \<noteq> INVALID_BLOCK_IDX" using loc_invalid[OF ok(1), of "SBlk i"] i(1) s by (simp add: nblocks_def)
  note two = collect_two[OF okD(1) i full] range_two[OF okD(1) i(1)]
  obtain d1 where F: "FlushInode g junk f d = (0, d1)" "flushed g f d d1" using FlushInode_ok[OF ok(1,2,4)] by blast
  have safe: "CollectBlocksForWrite g True junk ?off ?n f d = Inr (0, [?b], f, d1)"
    using nb B F(1) by (simp add: CollectBlocksForWrite_def two safe_flush_def flush_opt_def push_def del: collect_write.simps)
  have unsafe: "CollectBlocksForWrite g False junk ?off ?n f d = Inr (- ENOMEM, [?b], f, d)"
    using nb B by (simp add: CollectBlocksForWrite_def two push_def del: collect_write.simps)
  have "dev_ok g d1" using F(2) by (simp add: flushed_def file_ok_def)
  from write_blocks_ok[OF this, of "[?b]" buf] buf inv obtain d2 where
    W: "dev_WriteBlocks g [?b] buf d1 = (int (BS g), d2)" by auto
  have "(?off + ?n) mod W32 mod BS g = 0" using lt by (simp flip: add_mult_distrib)
  hence wd: "write_data g ?off ?n buf [?b] d1 = Inr (int (BS g), d2)" using W by (simp add: write_data_def)
  have e: "(?n + ?off) mod W32 = ?off + ?n" using lt by (simp add: add.commute)
  have cl: "(if BEYOND_MAX_LIMIT g ((?off + ?n) mod W32) then MAX_FILE_SIZE g - ?off else ?n) = ?n" using nb(2) by simp
  define f2 where "f2 = (if ?off + ?n \<le> GetSize f then f else SetSize (?off + ?n) f)"
  have "\<exists>d3. CFileImage_WriteFileNoLock g True junk ?off ?n buf f d = Inr (int (BS g), ?n, f2, d3)"
    using nb(1) safe wd unfolding CFileImage_WriteFileNoLock_def Let_def cl e by (simp add: f2_def)
  then obtain d3 where f2: "CFileImage_WriteFileNoLock g True junk ?off ?n buf f d = Inr (int (BS g), ?n, f2, d3)" by blast
  have sz: "GetSize (touch_mtime now f2) = max (GetSize f) (?off + ?n)" by (simp add: touch_mtime_simps f2_def SetSize_def max_def)
  have arr: "arrBlks (touch_mtime now f2) = arrBlks f" by (simp add: touch_mtime_def f2_def SetSize_def)
  have zero: "content g (touch_mtime now f2) d3 k = 0" if k: "Suc i * BS g \<le> k" "k < (i + 2) * BS g" for k
  proof -
    have "k div BS g = Suc i" using k B by (intro div_nat_eqI) (simp_all add: mult.commute)
    thus ?thesis using i(1,3) arr by (simp add: content_def blk_at_def)
  qed
  have "CFileImage_WriteFile g True now junk ?off ?n buf f d = Inr (int (BS g), ?n, touch_mtime now f2, d3)"
    using f2 ok(3) by (simp add: CFileImage_WriteFile_def)
  moreover have "CFileImage_WriteFile g False now junk ?off ?n buf f d = Inr (- ENOMEM, ?n, touch_mtime now f, d)"
    using nb(1) unsafe ok(3) unfolding CFileImage_WriteFile_def CFileImage_WriteFileNoLock_def Let_def cl by simp
  ultimately show ?thesis using sz zero unfolding mult by blast
qed

lemma no_free: "file_ok g f d \<Longrightarrow> file_ok g f (d\<lparr>d_free := []\<rparr>)"
proof -
  assume ok: "file_ok g f d"
  have l: "loc g f (d\<lparr>d_free := []\<rparr>) s = loc g f d s" for s by (cases s) (simp_all add: blk_at_def)
  have "apart (slots g) (loc g f (d\<lparr>d_free := []\<rparr>)) []" using file_okD(4)[OF ok] by (simp add: apart_def l)
  thus ?thesis using file_okD[OF ok] by (simp add: file_ok_def dev_ok_def)
qed

theorem full_image_reported_as_success_witness:
  "\<exists>f' d'. CFileImage_WriteFile default_geom True (5, 6) (replicate 512 0) 0 1024 (replicate 1024 9) (set_blk 0 50 demo_file)
     (demo_dev\<lparr>d_free := []\<rparr>) = Inr (512, 1024, f', d') \<and> GetSize f' = 1024 \<and> content default_geom f' d' 600 = 0"
proof -
  let ?f = "set_blk 0 50 demo_file"
  have z: "arrBlks demo_file = replicate 15 0" by (simp add: demo_file_def CFileImage_Format_def)
  have "grow default_geom {0} [50] demo_file demo_dev ?f (demo_dev\<lparr>d_free := [51, 52, 53, 54, 55]\<rparr>)"
    by (rule take_direct[OF demo_ok(1)]) (simp_all add: demo_dev_def z)
  hence ok: "file_ok default_geom ?f (demo_dev\<lparr>d_free := []\<rparr>)" using no_free[OF growD(1)] by fastforce
  have f: "inode_wf (m_oInodeStore ?f)" "m_dwState ?f \<noteq> FStopped" "GetSize ?f = 0"
    using demo_ok by (simp_all add: inode_wf_def)
  show ?thesis
    using full_image_reported_as_success[OF ok f(1,2), of "replicate 512 0" 0 "replicate 1024 9" "(5, 6)"] z f(3) by auto
qed

section \<open>Truncation at the start of a table of the directory\<close>

abbreviation tab_start :: "geom \<Rightarrow> nat \<Rightarrow> nat" where
  "tab_start g k \<equiv> (13 + BLKIDX_PER_TABLE g + k * BLKIDX_PER_TABLE g) * BS g"

text \<open>The table in which a byte lies.\<close>

lemma tab_of_byte:
  assumes g: "geom_ok g" and x: "tab_start g 0 \<le> x" "x < MAX_FILE_SIZE g"
  shows "SEC_BIT_IDX g x = tab_no g (x div BS g)" "SEC_BLKIDX_IDX g x = tab_ent g (x div BS g)"
    "tab_no g (x div BS g) < BLKIDX_PER_TABLE g" "tab_ent g (x div BS g) < BLKIDX_PER_TABLE g"
proof -
  have B: "0 < BS g" by (rule BS_pos[OF g])
  have i: "x div BS g < nblocks g" using x(2) max_size(1)[OF g] by (simp add: less_mult_imp_div_less)
  show b: "tab_no g (x div BS g) < BLKIDX_PER_TABLE g" "tab_ent g (x div BS g) < BLKIDX_PER_TABLE g"
    using tab_bounds[OF g] i by auto
  obtain y where y: "x = (13 + BLKIDX_PER_TABLE g) * BS g + y" using x(1) le_Suc_ex by fastforce
  have q: "x div BS g = 13 + BLKIDX_PER_TABLE g + y div BS g" using B unfolding y by simp
  have s: "x - SEC_INDIRECT_BLOCK_START g = y" unfolding sec_start y by simp
  show "SEC_BLKIDX_IDX g x = tab_ent g (x div BS g)" by (simp add: SEC_BLKIDX_IDX_def s tab_ent_def q)
  have "SEC_BIT_IDX g x = tab_no g (x div BS g) mod BLKIDX_PER_TABLE g"
    by (simp add: SEC_BIT_IDX_def s tab_no_def q div_mult2_eq)
  thus "SEC_BIT_IDX g x = tab_no g (x div BS g)" using b(1) by simp
qed

text \<open>Truncation to the start of the cached table \<open>k\<close>, when no table behind it is visited.\<close>

lemma truncate_at_table:
  assumes ok: "file_ok g f d" "size_ok g f" and st: "m_dwState f \<noteq> FStopped"
    and k: "0 < k" "map_of (m_mapSecBitBlks f) k = Some t"
    and sz: "tab_start g k < GetSize f" "m = tab_no g ((GetSize f - 1) div BS g)" "m \<le> 2 * k"
    and n: "n = (if m = k then tab_ent g ((GetSize f - 1) div BS g) + 1 else BLKIDX_PER_TABLE g)"
  shows "CFileImage_Truncate g False now junk (tab_start g k) f d = Inr (0,
      touch_mtime now (SetSize (tab_start g k) (set_bitd k 0
        (f\<lparr>m_mapSecBitBlks := AList.update k (zero_range 0 n t) (m_mapSecBitBlks f)\<rparr>))),
      snd (dev_Free [tab_loc f k] (snd (dev_Free (take n t) d))))" and "k \<le> m" and "0 < n"
proof -
  note okD = file_okD[OF ok(1)]
  define P where "P = BLKIDX_PER_TABLE g"
  define i where "i = 13 + P + k * P"
  have B: "0 < BS g" "0 < P" using okD(1) BS_pos by (simp_all add: P_def geom_ok_def)
  have kP: "k < P" "tab_loc f k \<noteq> 0" using cache_tab[OF okD(3) k(2)] by (simp_all add: P_def)
  have kk: "k * P < P * P" using kP(1) B by (intro mult_strict_right_mono)
  have i: "i < nblocks g" "13 + BLKIDX_PER_TABLE g \<le> i"
    using kk unfolding i_def nblocks_def P_def[symmetric] by linarith+
  have st_eq: "tab_start g k = i * BS g" by (simp add: i_def P_def)
  have pos: "(i * BS g) mod W32 = i * BS g" by (rule block_pos[OF okD(1) i(1)])
  have ik: "tab_no g i = k" "tab_ent g i = 0" using B by (simp_all add: tab_no_def tab_ent_def i_def P_def)
  let ?x = "GetSize f - 1"
  have x: "tab_start g 0 \<le> ?x" "?x < MAX_FILE_SIZE g" "i * BS g \<le> ?x"
  proof -
    show 1: "i * BS g \<le> ?x" using sz(1) unfolding st_eq by simp
    have "(13 + P) * BS g \<le> i * BS g" by (intro mult_le_mono1) (simp add: i_def)
    hence "(13 + P) * BS g \<le> ?x" using 1 by (rule le_trans)
    thus "tab_start g 0 \<le> ?x" by (simp add: P_def)
    show "?x < MAX_FILE_SIZE g" using ok(2) sz(1) unfolding size_ok_def by linarith
  qed
  note T = tab_of_byte[OF okD(1) x(1,2), folded sz(2)]
  define e where "e = tab_ent g (?x div BS g)"
  have "i \<le> ?x div BS g" using x(3) B by (simp add: less_eq_div_iff_mult_less_eq)
  thus km: "k \<le> m" unfolding sz(2) ik(1)[symmetric] tab_no_def by (intro div_le_mono) simp
  show "0 < n" using B n by (simp add: P_def)
  have mP: "m < W32" "P < W32" "e < P" "m < P"
  proof -
    show "e < P" "m < P" using T(3,4) by (simp_all add: e_def P_def)
    have "P \<le> nblocks g" by (simp add: nblocks_def P_def)
    moreover have "nblocks g \<le> nblocks g * BS g" using B(1) by simp
    ultimately have "P \<le> nblocks g * BS g" by (rule le_trans)
    thus "P < W32" using max_size(2)[OF okD(1)] B by linarith
    thus "m < W32" using T(3) by (simp add: P_def)
  qed
  have cnt: "min ((m + W32 - k + 1) mod W32) (P - k) = m - k + 1"
  proof -
    have "m + W32 - k + 1 = (m - k + 1) + W32" using km by simp
    moreover have "m - k + 1 < W32" using mP by linarith
    ultimately have "(m + W32 - k + 1) mod W32 = m - k + 1" by (simp only: mod_add_self2 mod_less)
    thus ?thesis using mP km by simp
  qed
  have nn: "(if m - k + 1 = 1 then (if k < m then e + 1 else (e + W32 - 0 + 1) mod W32) else P - 0) = n"
  proof -
    have "e + W32 - 0 + 1 = (e + 1) + W32" "e + 1 < W32" using mP by linarith+
    hence "(e + W32 - 0 + 1) mod W32 = e + 1" by (simp only: mod_add_self2 mod_less)
    thus ?thesis using km by (simp only: n e_def P_def[symmetric] split: if_split) auto
  qed
  have upt: "[k + 1..<m - k + 1] = []" using sz(3) by simp
  have z: "SEC_BIT_IDX g (i * BS g) = k" "SEC_BLKIDX_IDX g (i * BS g) = 0" using block_idx(2)[OF okD(1) i(1)] block_idx(3)[OF okD(1)] ik by simp_all
  have nS: "i * BS g \<noteq> SEC_INDIRECT_BLOCK_START g" using k(1) B unfolding sec_start i_def P_def by simp
  have dir: "m_pBitdBlk f \<noteq> None" using kP(2) by (auto simp: tab_loc_def split: option.splits)
  let ?f1 = "set_bitd k 0 (f\<lparr>m_mapSecBitBlks := AList.update k (zero_range 0 n t) (m_mapSecBitBlks f)\<rparr>)"
  let ?d1 = "snd (dev_Free [tab_loc f k] (snd (dev_Free (take n t) d)))"
  have bt: "bitd_of f ! k = tab_loc f k" using dir by (auto simp: bitd_of_def tab_loc_def)
  have first: "sec_first g k 0 n 0 f d = (0, True, tab_loc f k, False, 0,
      f\<lparr>m_mapSecBitBlks := AList.update k (zero_range 0 n t) (m_mapSecBitBlks f)\<rparr>, snd (dev_Free (take n t) d))"
    using k(2) \<open>0 < n\<close> by (simp add: sec_first_def bt)
  have tr: "TruncBlkSecIndirect g False i f d = (0, ?f1, ?d1)"
    using dir kP(2) nS
    unfolding TruncBlkSecIndirect_def Let_def pos z T(1,2) e_def[symmetric] P_def[symmetric] cnt upt sec_free_loop.simps split_beta fst_conv snd_conv
    unfolding nn first fst_conv snd_conv
    by (simp split: option.split)
  have size: "GetSize f - i * BS g > 0" "i * BS g < GetSize f" using sz(1)[unfolded st_eq] by linarith+
  have bl: "\<not> BEYOND_MAX_LIMIT g (i * BS g)" using within_block(3)[OF okD(1), of i] i P_def by (simp add: WITHIN_SEC_INDIRECT_BLOCK_def BEYOND_MAX_LIMIT_def)
  have w: "WITHIN_SEC_INDIRECT_BLOCK g (i * BS g)" using within_block(3)[OF okD(1), of i] i P_def by simp
  have r: "((i * BS g + (BS g - 1)) mod W32) div BS g * BS g = i * BS g"
  proof -
    have "i * BS g + BS g \<le> nblocks g * BS g" using i(1) by (metis Suc_leI add.commute mult_Suc mult_le_mono1)
    hence "i * BS g + (BS g - 1) < W32" using max_size(2)[OF okD(1)] B by linarith
    moreover have "(i * BS g + (BS g - 1)) div BS g = i" using B by (intro div_nat_eqI) (simp_all add: mult.commute)
    ultimately show ?thesis by simp
  qed
  have h: "i * BS g mod BS g = 0" "i * BS g div BS g = i" using B by simp_all
  show "CFileImage_Truncate g False now junk (tab_start g k) f d = Inr (0, touch_mtime now (SetSize (tab_start g k) ?f1), ?d1)"
    using st bl size
    unfolding CFileImage_Truncate_def CFileImage_TruncateNoLock_def trunc_inner_def trunc_blocks_def st_eq Let_def r h
    by (simp add: w tr)
qed

text \<open>Tables written by \<^verbatim>\<open>Flush\<close>: the one whose entry in the directory is 0 goes to block 0.\<close>

lemma write_table_zero:
  assumes "dev_ok g d" "length (words_bytes u) = BS g"
  shows "dev_ok g (write_table g b u d)" "b = 0 \<Longrightarrow> d_blk (write_table g b u d) 0 = words_bytes u"
    "b \<noteq> 0 \<Longrightarrow> d_blk (write_table g b u d) 0 = d_blk d 0"
  using assms by (auto simp: write_table_def dev_WriteBlock_def dev_ok_def)

lemma fold_tables_zero:
  assumes "dev_ok g d" "\<forall>(j, u)\<in>set xs. length (words_bytes u) = BS g \<and> (p ! j = 0 \<longleftrightarrow> j = k)" "distinct (map fst xs)"
  shows "d_blk (fold (\<lambda>(j, u) d. write_table g (p ! j) u d) xs d) 0 =
    (case map_of xs k of None \<Rightarrow> d_blk d 0 | Some u \<Rightarrow> words_bytes u)"
  using assms
proof (induction xs arbitrary: d)
  case (Cons x xs)
  obtain j u where x: "x = (j, u)" by fastforce
  note W = write_table_zero[OF Cons.prems(1), of u "p ! j"]
  have u: "length (words_bytes u) = BS g" "p ! j = 0 \<longleftrightarrow> j = k" using Cons.prems(2) x by auto
  have IH: "d_blk (fold (\<lambda>(j, u) d. write_table g (p ! j) u d) xs (write_table g (p ! j) u d)) 0 =
      (case map_of xs k of None \<Rightarrow> d_blk (write_table g (p ! j) u d) 0 | Some u \<Rightarrow> words_bytes u)"
    using Cons.prems W(1)[OF u(1)] by (intro Cons.IH) auto
  have "j = k \<Longrightarrow> map_of xs k = None" using Cons.prems(3) x by (auto simp: map_of_eq_None_iff)
  thus ?case using IH W(2,3)[OF u(1)] u(2) x by (auto split: option.split)
qed simp

text \<open>The order in which the hash map is gone through does not matter: the tables lie in different blocks.\<close>

lemma write_tables_commute:
  "b \<noteq> b' \<Longrightarrow> write_table g b t (write_table g b' t' d) = write_table g b' t' (write_table g b t d)"
  by (simp add: write_table_def dev_WriteBlock_def fun_upd_twist)

lemma flush_any_order:
  assumes ok: "file_ok g f d" and m: "distinct (map fst (m_mapSecBitBlks f))" "mset m = mset (m_mapSecBitBlks f)"
  shows "FlushTables g (f\<lparr>m_mapSecBitBlks := m\<rparr>) d' = FlushTables g f d'"
proof -
  note okD = file_okD[OF ok]
  have s: "set m = set (m_mapSecBitBlks f)" by (rule mset_eq_setD[OF m(2)])
  have "fold (\<lambda>(j, u) d. write_table g (p ! j) u d) m = fold (\<lambda>(j, u) d. write_table g (p ! j) u d) (m_mapSecBitBlks f)"
    if p: "m_pBitdBlk f = Some p" for p
  proof (rule fold_multiset_equiv[OF _ m(2)])
    fix x y assume x: "x \<in> set m" and y: "y \<in> set m"
    obtain j u j' u' where e: "x = (j, u)" "y = (j', u')" by fastforce
    have M: "map_of (m_mapSecBitBlks f) j = Some u" "map_of (m_mapSecBitBlks f) j' = Some u'" using x y m(1) by (simp_all add: s e)
    have L: "tab_loc f j = p ! j" "tab_loc f j' = p ! j'" by (simp_all add: tab_loc_def p)
    have "j = j' \<Longrightarrow> x = y" using M e by simp
    moreover have "p ! j \<noteq> p ! j'" if "j \<noteq> j'"
      using apart_inj[OF okD(4), of "STab j" "STab j'"] cache_tab[OF okD(3) M(1)] cache_tab[OF okD(3) M(2)] that by (auto simp: L)
    ultimately have "x = y \<or> p ! j \<noteq> p ! j'" by blast
    thus "(\<lambda>(j, u) d. write_table g (p ! j) u d) x \<circ> (\<lambda>(j, u) d. write_table g (p ! j) u d) y =
        (\<lambda>(j, u) d. write_table g (p ! j) u d) y \<circ> (\<lambda>(j, u) d. write_table g (p ! j) u d) x"
      using write_tables_commute by (auto simp: e fun_eq_iff)
  qed
  thus ?thesis by (simp add: FlushTables_def Let_def split: option.split)
qed

text \<open>C37. Truncation can destroy the first block of the image: when a file is cut to the start of a table of the directory (not the first),
  the block of that table is freed and its entry cleared, but the table stays in the map of cached tables; the next
  flush, e.g. the one of \<^verbatim>\<open>Close\<close>, writes it to the block its entry names, which is now block 0, the first block of the bitmap of group 0.\<close>

theorem truncate_then_flush_hits_block_zero:
  assumes "file_ok g f d" "size_ok g f" "inode_wf (m_oInodeStore f)" "m_dwState f \<noteq> FStopped" "length junk = BS g"
    and k: "0 < k" "map_of (m_mapSecBitBlks f) k = Some t" "distinct (map fst (m_mapSecBitBlks f))"
    and sz: "tab_start g k < GetSize f" "tab_no g ((GetSize f - 1) div BS g) = k" and ino: "m_dwInodeIdx f \<noteq> 0"
  shows "\<exists>f' d' d'' u. CFileImage_Truncate g False now junk (tab_start g k) f d = Inr (0, f', d') \<and>
    COpenFileEntry_Flush g FLAG_FLUSH_DEFAULT junk f' d' = (0, d'') \<and> d_blk d' 0 = d_blk d 0 \<and> d_blk d'' 0 = words_bytes u \<and>
    u = zero_range 0 (tab_ent g ((GetSize f - 1) div BS g) + 1) t"
proof -
  note okD = file_okD[OF assms(1)]
  define n where "n = tab_ent g ((GetSize f - 1) div BS g) + 1"
  define u where "u = zero_range 0 n t"
  define m where "m = AList.update k u (m_mapSecBitBlks f)"
  define f' where "f' = touch_mtime now (SetSize (tab_start g k) (set_bitd k 0 (f\<lparr>m_mapSecBitBlks := m\<rparr>)))"
  define d' where "d' = snd (dev_Free [tab_loc f k] (snd (dev_Free (take n t) d)))"
  have T: "CFileImage_Truncate g False now junk (tab_start g k) f d = Inr (0, f', d')"
    unfolding f'_def d'_def u_def m_def
    by (rule truncate_at_table(1)[OF assms(1,2,4) k(1,2) sz(1) sz(2)[symmetric]]) (simp_all add: n_def)
  have d': "dev_ok g d'" "d_blk d' = d_blk d" using okD(2) by (auto simp: d'_def dev_Free_def dev_ok_def)
  obtain p where p: "m_pBitdBlk f = Some p" using cache_tab[OF okD(3) k(2)] by (auto simp: tab_loc_def split: option.splits)
  have f': "m_pBitdBlk f' = Some (p[k := 0])" "m_mapSecBitBlks f' = m" "arrBlks f' = arrBlks f" "m_pBitBlk f' = m_pBitBlk f"
    "m_dwInodeIdx f' = m_dwInodeIdx f" "m_dwState f' = m_dwState f" "GetSize f' = tab_start g k" "inode_wf (m_oInodeStore f')"
    using p assms(3) unfolding f'_def by (simp_all add: touch_mtime_def SetSize_def set_bitd_def inode_wf_def)
  have lt: "length t = BLKIDX_PER_TABLE g" "k < BLKIDX_PER_TABLE g" using cache_tab[OF okD(3) k(2)] by auto
  have ent: "n \<le> length t"
  proof -
    have "tab_ent g ((GetSize f - 1) div BS g) < BLKIDX_PER_TABLE g" by (rule tab_bounds(1)[OF okD(1)])
    thus ?thesis by (simp add: n_def lt)
  qed
  have B4: "4 * BLKIDX_PER_TABLE g = BS g" using okD(1) by (simp add: geom_ok_def)
  have lu: "length (words_bytes u) = BS g" using ent lt B4 by (simp add: u_def zero_range_def)
  have dm: "distinct (map fst m)" unfolding m_def by (rule distinct_update[OF k(3)])
  have tabs: "\<forall>(j, v)\<in>set m. length (words_bytes v) = BS g \<and> (p[k := 0] ! j = 0 \<longleftrightarrow> j = k)"
  proof clarify
    fix j v assume "(j, v) \<in> set m"
    hence jv: "map_of m j = Some v" using dm by simp
    show "length (words_bytes v) = BS g \<and> (p[k := 0] ! j = 0 \<longleftrightarrow> j = k)"
    proof (cases "j = k")
      case True
      thus ?thesis using jv lu lt okD(3) p by (simp add: m_def update_conv' cache_ok_def)
    next
      case False
      hence "map_of (m_mapSecBitBlks f) j = Some v" using jv by (simp add: m_def update_conv')
      from cache_tab[OF okD(3) this] show ?thesis using False p B4 by (simp add: tab_loc_def)
    qed
  qed
  have inoI: "m_dwInodeIdx f \<noteq> INVALID_BLOCK_IDX" using loc_invalid[OF assms(1), of SIno] by simp
  have "512 \<le> BS g" using okD(1) by (simp add: geom_ok_def)
  hence lx: "length (snd (RegFSInode_Serialize junk (m_oInodeStore f') (m_oValue f'))) = BS g"
    using length_Serialize[OF f'(8), of junk] assms(5) by simp
  define x where "x = snd (RegFSInode_Serialize junk (m_oInodeStore f') (m_oValue f'))"
  define d1 where "d1 = d'\<lparr>d_blk := (d_blk d')(m_dwInodeIdx f := x)\<rparr>"
  have FI: "FlushInode g junk f' d' = (0, d1)" using write_ok[OF d'(1) inoI] by (simp add: FlushInode_def f'(5) x_def d1_def)
  have d1: "dev_ok g d1" using d'(1) lx by (simp add: d1_def x_def dev_ok_def)
  define d2 where "d2 = (case m_pBitBlk f of Some t \<Rightarrow> if arrBlks f ! BIT_IDX \<noteq> 0 then write_table g (arrBlks f ! BIT_IDX) t d1 else d1 | None \<Rightarrow> d1)"
  have d2: "dev_ok g d2" using d1 okD(3) write_table_zero(1)[OF d1] B4 by (auto simp: d2_def cache_ok_def split: option.splits)
  define d3 where "d3 = (if arrBlks f ! BITD_IDX \<noteq> 0 then write_table g (arrBlks f ! BITD_IDX) (p[k := 0]) d2 else d2)"
  have "length p = BLKIDX_PER_TABLE g" using okD(3) p by (simp add: cache_ok_def)
  hence d3: "dev_ok g d3" using d2 write_table_zero(1)[OF d2, of "p[k := 0]"] B4 by (simp add: d3_def)
  define d'' where "d'' = fold (\<lambda>(j, v) d. write_table g (p[k := 0] ! j) v d) m d3"
  have b6: "bit (6 :: nat) 2" "bit (6 :: nat) 1" "bit (Suc 0) 0" by (simp_all add: bit_iff_odd)
  have "tab_start g k \<noteq> 0" using BS_pos[OF okD(1)] by simp
  hence "COpenFileEntry_Flush g FLAG_FLUSH_DEFAULT junk f' d' = (0, d'')"
    using assms(4) by (simp add: COpenFileEntry_Flush_def CFileImage_Flush_def FI f' FlushTables_def d''_def d3_def d2_def Let_def b6)
  moreover have "d_blk d'' 0 = words_bytes u"
    using fold_tables_zero[OF d3 tabs dm] unfolding d''_def by (simp add: m_def update_conv')
  ultimately show ?thesis using T d'(2) by (auto simp: u_def n_def)
qed

text \<open>Truncation leaves blocks behind: when a file is cut at the start of table \<open>k\<close> and ends in a table between \<open>k + 1\<close> and \<open>2 * k\<close>, the loop
  over the tables to free (which compares an index with a number of tables) does nothing, so every block of the tables behind \<open>k\<close> stays in the map
  of the file beyond its end, neither free nor reachable.\<close>

lemma truncate_keeps_tables:
  assumes "file_ok g f d" "size_ok g f" "m_dwState f \<noteq> FStopped"
    and k: "0 < k" "map_of (m_mapSecBitBlks f) k = Some t"
    and sz: "tab_start g k < GetSize f" "m = tab_no g ((GetSize f - 1) div BS g)" "k < m" "m \<le> 2 * k"
  shows "\<exists>f' d'. CFileImage_Truncate g False now junk (tab_start g k) f d = Inr (0, f', d') \<and> GetSize f' = tab_start g k \<and>
    (\<forall>i<nblocks g. 13 + BLKIDX_PER_TABLE g \<le> i \<and> k < tab_no g i \<and> blk_at g f d i \<noteq> 0 \<longrightarrow>
      blk_at g f' d' i = blk_at g f d i \<and> blk_at g f d i \<notin> set (d_free d'))"
proof -
  note okD = file_okD[OF assms(1)]
  let ?P = "BLKIDX_PER_TABLE g"
  let ?f1 = "set_bitd k 0 (f\<lparr>m_mapSecBitBlks := AList.update k (zero_range 0 ?P t) (m_mapSecBitBlks f)\<rparr>)"
  let ?f' = "touch_mtime now (SetSize (tab_start g k) ?f1)"
  let ?d' = "snd (dev_Free [tab_loc f k] (snd (dev_Free (take ?P t) d)))"
  have T: "CFileImage_Truncate g False now junk (tab_start g k) f d = Inr (0, ?f', ?d')"
    by (rule truncate_at_table(1)[OF assms(1-3) k sz(1,2,4)]) (use sz(3) in simp)
  have kt: "length t = ?P" "k < ?P" "tab_loc f k \<noteq> 0" using cache_tab[OF okD(3) k(2)] by auto
  obtain p where p: "m_pBitdBlk f = Some p" using kt(3) by (auto simp: tab_loc_def split: option.splits)
  have blk: "d_blk ?d' = d_blk d" by (simp add: dev_Free_def)
  have tl: "tab_loc ?f' j = tab_loc f j" if "j \<noteq> k" for j
    using p that by (simp add: touch_mtime_def SetSize_def) (simp add: set_bitd_def tab_loc_def)
  have keep: "blk_at g ?f' ?d' i = blk_at g f d i" if "13 + ?P \<le> i" "k < tab_no g i" for i
    using that tl[of "tab_no g i"] blk
    by (simp add: blk_at_def sec_entry_def touch_mtime_def SetSize_def set_bitd_def update_conv' cong: option.case_cong)
  have free: "blk_at g f d i \<notin> set (d_free ?d')"
    if i: "i < nblocks g" "13 + ?P \<le> i" "k < tab_no g i" "blk_at g f d i \<noteq> 0" for i
  proof
    assume "blk_at g f d i \<in> set (d_free ?d')"
    hence "blk_at g f d i \<in> set (d_free d) \<or> blk_at g f d i = tab_loc f k \<or> blk_at g f d i \<in> set t"
      by (auto simp: dev_Free_def split: if_splits dest: in_set_takeD)
    moreover have "blk_at g f d i \<notin> set (d_free d)" using fresh[OF assms(1), of "blk_at g f d i" "SBlk i"] i(1) by auto
    moreover have "blk_at g f d i \<noteq> tab_loc f k" using apart_inj[OF okD(4), of "SBlk i" "STab k"] i kt by auto
    moreover have "blk_at g f d i \<notin> set t"
    proof
      assume "blk_at g f d i \<in> set t"
      then obtain l where l: "l < ?P" "t ! l = blk_at g f d i" using kt(1) by (auto simp: in_set_conv_nth)
      define j where "j = 13 + ?P + (k * ?P + l)"
      have kk: "(k * ?P + l) div ?P = k" "(k * ?P + l) mod ?P = l" using l(1) by simp_all
      have jk: "tab_no g j = k" "tab_ent g j = l" using kk by (simp_all add: tab_no_def tab_ent_def j_def)
      have "Suc k * ?P \<le> ?P * ?P" using kt(2) by (intro mult_le_mono1) simp
      hence j: "j < nblocks g" using l(1) by (simp add: j_def nblocks_def)
      have "blk_at g f d j = blk_at g f d i" using jk k(2) kt l(2) by (simp add: blk_at_def sec_entry_def j_def)
      hence "SBlk j = SBlk i" using apart_inj[OF okD(4), of "SBlk j" "SBlk i"] i j by simp
      thus False using jk(1) i(3) by simp
    qed
    ultimately show False by blast
  qed
  have "GetSize ?f' = tab_start g k" by (simp add: touch_mtime_simps SetSize_def)
  thus ?thesis using T keep free by blast
qed

text \<open>A file with two tables of the directory, and a block in the second.\<close>

lemma demo_tables:
  "\<exists>f d. file_ok default_geom f d \<and> map_of (m_mapSecBitBlks f) 1 = Some (zero_table default_geom) \<and>
     distinct (map fst (m_mapSecBitBlks f)) \<and> m_pBitdBlk f \<noteq> None \<and> inode_wf (m_oInodeStore f) \<and> m_dwState (f :: nat file_image) \<noteq> FStopped \<and>
     m_dwInodeIdx f = 40 \<and> blk_at default_geom f d 397 = 53"
proof -
  let ?g = default_geom and ?z = "zero_table default_geom" and ?w = "words_bytes (zero_table default_geom)"
  have z: "arrBlks demo_file = replicate 15 0" "m_mapSecBitBlks demo_file = []" "m_dwInodeIdx demo_file = 40"
    by (simp_all add: demo_file_def CFileImage_Format_def)
  have fr: "d_free demo_dev = [50, 51, 52, 53, 54, 55]" by (simp add: demo_dev_def)
  define f1 d1 where "f1 = set_blk BITD_IDX 50 (demo_file\<lparr>m_pBitdBlk := Some ?z\<rparr>)" and "d1 = demo_dev\<lparr>d_free := [51, 52, 53, 54, 55]\<rparr>"
  have 1: "file_ok ?g f1 d1" unfolding f1_def d1_def
    by (rule growD(1)[OF take_dir[OF demo_ok(1) fr]]) (simp add: z)
  have f1: "m_pBitdBlk f1 = Some ?z" "d_free d1 = [51, 52, 53, 54, 55]" "m_mapSecBitBlks f1 = []" by (simp_all add: f1_def d1_def z)
  have w: "length ?w = BS ?g" by simp
  define f2 d2 where "f2 = f1\<lparr>m_pBitdBlk := Some (?z[1 := 51]), m_mapSecBitBlks := map_insert_new 1 ?z (m_mapSecBitBlks f1)\<rparr>"
    and "d2 = d1\<lparr>d_free := [52, 53, 54, 55], d_blk := (d_blk d1)(51 := ?w)\<rparr>"
  have 2: "file_ok ?g f2 d2" unfolding f2_def d2_def
    by (rule growD(1)[OF take_tab[OF 1 f1(2,1) _ _ w]]) simp_all
  have f2: "m_pBitdBlk f2 = Some (?z[1 := 51])" "d_free d2 = [52, 53, 54, 55]" "m_mapSecBitBlks f2 = [(1, ?z)]"
    by (simp_all add: f2_def d2_def f1(3) map_insert_new_def)
  define f3 d3 where "f3 = f2\<lparr>m_pBitdBlk := Some (?z[1 := 51, 2 := 52]), m_mapSecBitBlks := map_insert_new 2 ?z (m_mapSecBitBlks f2)\<rparr>"
    and "d3 = d2\<lparr>d_free := [53, 54, 55], d_blk := (d_blk d2)(52 := ?w)\<rparr>"
  have 3: "file_ok ?g f3 d3" unfolding f3_def d3_def
    by (rule growD(1)[OF take_tab[OF 2 f2(2,1) _ _ w]]) simp_all
  have f3: "d_free d3 = [53, 54, 55]" "m_mapSecBitBlks f3 = [(2, ?z), (1, ?z)]" "m_pBitdBlk f3 = Some (?z[1 := 51, 2 := 52])"
    by (simp_all add: f3_def d3_def f2(3) map_insert_new_def)
  have n: "tab_no ?g 397 = 2" "tab_ent ?g 397 = 0" by (simp_all add: tab_no_def tab_ent_def)
  define f4 d4 where "f4 = f3\<lparr>m_mapSecBitBlks := AList.update 2 (?z[0 := 53]) (m_mapSecBitBlks f3)\<rparr>" and "d4 = d3\<lparr>d_free := [54, 55]\<rparr>"
  have 4: "file_ok ?g f4 d4" unfolding f4_def d4_def
    by (rule growD(1)[OF take_sec[OF 3 f3(1), of 397 ?z, unfolded n]]) (simp_all add: nblocks_def f3)
  have "inode_wf (m_oInodeStore f4)" "m_dwState f4 \<noteq> FStopped" "m_dwInodeIdx f4 = 40"
    using demo_ok(3,5) by (simp_all add: f4_def f3_def f2_def f1_def z inode_wf_def)
  moreover have "blk_at ?g f4 d4 397 = 53" by (simp add: blk_at_def sec_entry_def n f4_def f3 tab_loc_def)
  ultimately show ?thesis using 4 by (intro exI[of _ f4] exI[of _ d4]) (simp add: f4_def f3)
qed

lemma tab_start_default: "tab_start default_geom 1 = 137728" "tab_start default_geom 2 = 203264"
  by simp_all

theorem truncate_then_flush_hits_block_zero_witness:
  "\<exists>(f :: nat file_image) d f' d' d'' u. file_ok default_geom f d \<and>
    CFileImage_Truncate default_geom False (7, 8) (replicate 512 0) 137728 f d = Inr (0, f', d') \<and>
    COpenFileEntry_Flush default_geom FLAG_FLUSH_DEFAULT (replicate 512 0) f' d' = (0, d'') \<and> d_blk d'' 0 = words_bytes u"
proof -
  obtain f :: "nat file_image" and d where F: "file_ok default_geom f d" "map_of (m_mapSecBitBlks f) 1 = Some (zero_table default_geom)"
    "distinct (map fst (m_mapSecBitBlks f))" "m_pBitdBlk f \<noteq> None" "inode_wf (m_oInodeStore f)" "m_dwState f \<noteq> FStopped" "m_dwInodeIdx f = 40"
    using demo_tables by blast
  let ?f = "SetSize 137729 f"
  have ok: "file_ok default_geom ?f d" "size_ok default_geom ?f" "inode_wf (m_oInodeStore ?f)" "m_dwState ?f \<noteq> FStopped"
    using F by (simp_all add: SetSize_def file_ok_inode size_ok_def inode_wf_def)
  have m: "map_of (m_mapSecBitBlks ?f) 1 = Some (zero_table default_geom)" "distinct (map fst (m_mapSecBitBlks ?f))" "GetSize ?f = 137729"
    "m_dwInodeIdx ?f \<noteq> 0" using F by (simp_all add: SetSize_def)
  have "tab_no default_geom ((GetSize ?f - 1) div BS default_geom) = 1" by (simp add: m tab_no_def)
  from truncate_then_flush_hits_block_zero[OF ok, of "replicate 512 0" 1, OF _ _ m(1,2) _ this m(4), of "(7, 8)"] m(3)
  obtain f' d' d'' u where "CFileImage_Truncate default_geom False (7, 8) (replicate 512 0) 137728 ?f d = Inr (0, f', d')"
    "COpenFileEntry_Flush default_geom FLAG_FLUSH_DEFAULT (replicate 512 0) f' d' = (0, d'')" "d_blk d'' 0 = words_bytes u"
    by (auto simp: tab_start_default)
  thus ?thesis using ok(1) by blast
qed

end
