(* ===== verification/DirNode.thy ===== *)
theory DirNode
  imports FileData "HOL-Library.List_Lexorder"
begin

text \<open>
  The nodes of the B+ tree in which a directory of the registry file system keeps its entries (\<^verbatim>\<open>monitor/registry/dir.cpp\<close>,
  \<^verbatim>\<open>blkalloc.h\<close>): slots with their keys, the binary search, the operations on the slots of one node, and the bytes of a node.

  A key is the array of 96 characters as it is in memory; what it stands for is the C string in it, compared over at
  most 95 characters. Counts are kept as the 16-bit numbers they are.
\<close>

section \<open>Keys\<close>

abbreviation (input) REGFS_NAME_LENGTH :: nat where "REGFS_NAME_LENGTH \<equiv> 96"
abbreviation (input) INVALID_BNODE_IDX :: nat where "INVALID_BNODE_IDX \<equiv> 65535"

definition BNODE_SIZE :: "geom \<Rightarrow> nat" where
  "BNODE_SIZE g = unat (g_dwRegFsPageSize g)"

definition MAX_PTRS_PER_NODE :: "geom \<Rightarrow> nat" where
  "MAX_PTRS_PER_NODE g = BNODE_SIZE g div 104 - 2"

definition MAX_KEYS_PER_NODE :: "geom \<Rightarrow> nat" where
  "MAX_KEYS_PER_NODE g = MAX_PTRS_PER_NODE g - 1"

definition MIN_KEYS :: "geom \<Rightarrow> bool \<Rightarrow> nat" where
  "MIN_KEYS g root = (if root then 1 else (MAX_PTRS_PER_NODE g + 1) div 2 - 1)"

definition SPLIT_POS :: "geom \<Rightarrow> bool \<Rightarrow> nat" where
  "SPLIT_POS g leaf = (if leaf then MAX_PTRS_PER_NODE g div 2 else (MAX_PTRS_PER_NODE g + 1) div 2 - 1)"

text \<open>\<^verbatim>\<open>strncmp\<close> compares unsigned characters up to the first zero; the result is positive, zero or negative.\<close>

definition char_at :: "byte list \<Rightarrow> byte" where
  "char_at s = (case s of [] \<Rightarrow> 0 | c # _ \<Rightarrow> c)"

primrec strncmp :: "nat \<Rightarrow> byte list \<Rightarrow> byte list \<Rightarrow> int" where
  "strncmp 0 a b = 0"
| "strncmp (Suc n) a b =
    (if char_at a \<noteq> char_at b then int (unat (char_at a)) - int (unat (char_at b))
     else if char_at a = 0 then 0
     else strncmp n (tl a) (tl b))"

definition COMPARE_KEY :: "byte list \<Rightarrow> byte list \<Rightarrow> int" where
  "COMPARE_KEY a b = strncmp (REGFS_NAME_LENGTH - 1) a b"

definition c_str :: "byte list \<Rightarrow> byte list" where
  "c_str s = takeWhile (\<lambda>c. c \<noteq> 0) s"

text \<open>\<^verbatim>\<open>strncpy\<close> fills the rest of its 95 characters with zeros.\<close>

definition COPY_KEY :: "byte list \<Rightarrow> byte list" where
  "COPY_KEY src = (let s = take (REGFS_NAME_LENGTH - 1) (c_str src) in s @ replicate (REGFS_NAME_LENGTH - length s) 0)"

definition CLEAR_KEY :: "byte list \<Rightarrow> byte list" where
  "CLEAR_KEY k = k[0 := 0, REGFS_NAME_LENGTH - 1 := 0]"

section \<open>Slots and nodes\<close>

text \<open>
  \<^verbatim>\<open>KEYPTR_SLOT\<close>: the first four bytes of the union are the node of a child or the inode of a file; \<open>sl_rest\<close> are the other
  four, which begin with the type of the file.
\<close>

record keyptr_slot =
  szKey :: "byte list"
  sl_idx :: nat
  sl_rest :: "byte list"

definition byFileType :: "keyptr_slot \<Rightarrow> byte" where
  "byFileType s = hd (sl_rest s)"

definition new_slot :: keyptr_slot where
  "new_slot = \<lparr>szKey = replicate 96 0, sl_idx = INVALID_BNODE_IDX, sl_rest = replicate 4 0\<rparr>"

definition zero_slot :: keyptr_slot where
  "zero_slot = \<lparr>szKey = replicate 96 0, sl_idx = 0, sl_rest = replicate 4 0\<rparr>"

text \<open>\<^verbatim>\<open>RegFSBNode\<close> and the fields of \<^verbatim>\<open>CBPlusNode\<close>: the slots of the buffer, one more than a full node needs; the parent is the index of
  its node.\<close>

record bnode =
  m_vecSlots :: "keyptr_slot list"
  m_wNumKeys :: nat
  m_wNumPtrs :: nat
  m_wThisBNodeIdx :: nat
  m_wParentBNode :: nat
  m_wNextLeaf :: nat
  m_bLeaf :: bool
  m_wFreeBNodeIdx :: nat
  m_pParent :: "nat option"
  m_bFreed :: bool

definition CBPlusNode :: "geom \<Rightarrow> nat \<Rightarrow> bnode" where
  "CBPlusNode g dwBNodeIdx =
    \<lparr>m_vecSlots = replicate (MAX_PTRS_PER_NODE g + 1) zero_slot, m_wNumKeys = 0, m_wNumPtrs = 0,
     m_wThisBNodeIdx = dwBNodeIdx mod 65536, m_wParentBNode = INVALID_BNODE_IDX, m_wNextLeaf = INVALID_BNODE_IDX,
     m_bLeaf = False, m_wFreeBNodeIdx = INVALID_BNODE_IDX, m_pParent = None, m_bFreed = False\<rparr>"

definition inc16 :: "nat \<Rightarrow> nat" where "inc16 n = (n + 1) mod 65536"
definition dec16 :: "nat \<Rightarrow> nat" where "dec16 n = (n + 65535) mod 65536"

definition IncKeyCount :: "bnode \<Rightarrow> bnode" where "IncKeyCount n = n\<lparr>m_wNumKeys := inc16 (m_wNumKeys n)\<rparr>"
definition DecKeyCount :: "bnode \<Rightarrow> bnode" where "DecKeyCount n = n\<lparr>m_wNumKeys := dec16 (m_wNumKeys n)\<rparr>"
definition IncChildCount :: "bnode \<Rightarrow> bnode" where "IncChildCount n = n\<lparr>m_wNumPtrs := inc16 (m_wNumPtrs n)\<rparr>"
definition DecChildCount :: "bnode \<Rightarrow> bnode" where "DecChildCount n = n\<lparr>m_wNumPtrs := dec16 (m_wNumPtrs n)\<rparr>"

definition IsRoot :: "bnode \<Rightarrow> bool" where "IsRoot n \<longleftrightarrow> m_pParent n = None"

text \<open>\<^verbatim>\<open>GetSlot\<close> and \<^verbatim>\<open>GetKey\<close> give a null pointer outside their limits, which the callers use without a test.\<close>

definition GetSlot :: "geom \<Rightarrow> bnode \<Rightarrow> nat \<Rightarrow> keyptr_slot run" where
  "GetSlot g n idx =
    (if (if IsRoot n then idx > (if m_bLeaf n then MAX_KEYS_PER_NODE g else MAX_PTRS_PER_NODE g)
         else idx > (if m_bLeaf n then m_wNumKeys n else m_wNumPtrs n))
     then Inl Fault_Null
     else if idx < length (m_vecSlots n) then Inr (m_vecSlots n ! idx) else Inl Fault_Range)"

definition GetKey :: "bnode \<Rightarrow> nat \<Rightarrow> byte list run" where
  "GetKey n idx =
    (if idx \<ge> m_wNumKeys n then Inl Fault_Null
     else if idx < length (m_vecSlots n) then Inr (szKey (m_vecSlots n ! idx)) else Inl Fault_Range)"

definition put_slot :: "nat \<Rightarrow> keyptr_slot \<Rightarrow> bnode \<Rightarrow> bnode" where
  "put_slot i s n = n\<lparr>m_vecSlots := (m_vecSlots n)[i := s]\<rparr>"

definition put_key :: "nat \<Rightarrow> byte list \<Rightarrow> bnode \<Rightarrow> bnode" where
  "put_key i k n = n\<lparr>m_vecSlots := (m_vecSlots n)[i := (m_vecSlots n ! i)\<lparr>szKey := k\<rparr>]\<rparr>"

definition put_ptr :: "nat \<Rightarrow> nat \<Rightarrow> bnode \<Rightarrow> bnode" where
  "put_ptr i b n = n\<lparr>m_vecSlots := (m_vecSlots n)[i := (m_vecSlots n ! i)\<lparr>sl_idx := b\<rparr>]\<rparr>"

section \<open>Binary search\<close>

definition cmp_at :: "bnode \<Rightarrow> byte list \<Rightarrow> nat \<Rightarrow> int run" where
  "cmp_at n k i = map_sum id (COMPARE_KEY k) (GetKey n i)"

text \<open>
  The index of the key, or the place where it belongs as a negative number: \<open>-( i + 0x10000 )\<close> before the key \<open>i\<close>, \<open>-( i + 1 )\<close>
  behind it. With the upper index below the lower the loop would read outside the keys or run for ever.
\<close>

function BinSearch :: "bnode \<Rightarrow> byte list \<Rightarrow> nat \<Rightarrow> nat \<Rightarrow> int run" where
  "BinSearch n k iLower iUpper =
    (if iUpper < iLower then Inl Fault_Range
     else if iUpper = iLower then
       map_sum id (\<lambda>iRet. if iRet < 0 then - (int iLower + 0x10000) else if iRet > 0 then - (int iLower + 1) else int iLower)
         (cmp_at n k iLower)
     else if iUpper = iLower + 1 then
       (case cmp_at n k iLower of
          Inl x \<Rightarrow> Inl x
        | Inr iRet \<Rightarrow>
            if iRet < 0 then Inr (- (int iLower + 0x10000))
            else if iRet = 0 then Inr (int iLower)
            else map_sum id (\<lambda>iRet. if iRet < 0 then - (int iUpper + 0x10000) else if iRet = 0 then int iUpper else - (int iUpper + 1))
              (cmp_at n k iUpper))
     else
       let iCur = (iLower + iUpper) div 2 in
       (case cmp_at n k iCur of
          Inl x \<Rightarrow> Inl x
        | Inr iRet \<Rightarrow>
            if iRet = 0 then Inr (int iCur)
            else if iRet < 0 then BinSearch n k iLower (iCur - 1)
            else BinSearch n k (iCur + 1) iUpper))"
  by pat_completeness auto
termination by (relation "measure (\<lambda>(n, k, l, u). u - l)") auto

text \<open>The callers turn a negative answer into the place.\<close>

definition place_of :: "int \<Rightarrow> nat" where
  "place_of i = (let d = nat (- i) in if d \<ge> 0x10000 then d - 0x10000 else d)"

section \<open>Operations on the slots of a node\<close>

definition RemoveSlotAt :: "geom \<Rightarrow> nat \<Rightarrow> bnode \<Rightarrow> gint32 \<times> keyptr_slot \<times> bnode" where
  "RemoveSlotAt g idx n =
    (let dwCount = m_wNumKeys n; vec = m_vecSlots n in
     if idx \<ge> MAX_KEYS_PER_NODE g then (- EINVAL, new_slot, n)
     else if dwCount = 0 then (- ENOMEM, new_slot, n)
     else if idx > dwCount then (- ENOENT, new_slot, n)
     else
       let n = DecKeyCount (n\<lparr>m_vecSlots := take idx vec @ drop (idx + 1) (take (dwCount + 1) vec) @ drop dwCount vec\<rparr>) in
       (0, vec ! idx, if m_bLeaf n then n else DecChildCount n))"

abbreviation (input) EOVERFLOW :: gint32 where "EOVERFLOW \<equiv> 75"

definition AppendSlot :: "geom \<Rightarrow> keyptr_slot \<Rightarrow> bnode \<Rightarrow> gint32 \<times> bnode" where
  "AppendSlot g pKey n =
    (let dwCount = m_wNumKeys n in
     if \<not> m_bLeaf n \<and> m_wNumPtrs n = MAX_PTRS_PER_NODE g then (- EOVERFLOW, n)
     else if m_bLeaf n \<and> dwCount = MAX_KEYS_PER_NODE g then (- EOVERFLOW, n)
     else if m_bLeaf n then (0, IncKeyCount (put_slot dwCount pKey n))
     else (0, IncKeyCount (IncChildCount
       (put_slot (dwCount + 1) (new_slot\<lparr>sl_idx := sl_idx pKey\<rparr>) (put_key dwCount (COPY_KEY (szKey pKey)) n)))))"

text \<open>The part of \<^verbatim>\<open>InsertSlotAt\<close> that concerns the node alone: where the slots move, and the number of keys.\<close>

definition insert_slot :: "geom \<Rightarrow> nat \<Rightarrow> keyptr_slot \<Rightarrow> bnode \<Rightarrow> gint32 \<times> bnode" where
  "insert_slot g idx pKey n =
    (let dwCount = (if m_bLeaf n then m_wNumKeys n else m_wNumPtrs n); vec = m_vecSlots n in
     if idx > dwCount then (- EINVAL, n)
     else if dwCount \<ge> (if m_bLeaf n then MAX_KEYS_PER_NODE g else MAX_PTRS_PER_NODE g) + 1 then (- ENOMEM, n)
     else
       let n = n\<lparr>m_vecSlots := take idx vec @ pKey # take (dwCount - idx) (drop idx vec) @ drop (dwCount + 1) vec\<rparr> in
       (0, if char_at (szKey pKey) \<noteq> 0 then IncKeyCount n else n))"

section \<open>The bytes of a node\<close>

definition slot_bytes :: "keyptr_slot \<Rightarrow> byte list" where
  "slot_bytes s = szKey s @ be_bytes 4 (sl_idx s) @ sl_rest s"

definition slot_of_bytes :: "byte list \<Rightarrow> keyptr_slot" where
  "slot_of_bytes b = \<lparr>szKey = take 96 b, sl_idx = be_nat (take 4 (drop 96 b)), sl_rest = take 4 (drop 100 b)\<rparr>"

definition used_slots :: "bnode \<Rightarrow> nat" where
  "used_slots n = (if m_bLeaf n then m_wNumKeys n else m_wNumPtrs n)"

text \<open>\<^verbatim>\<open>hton\<close> into a buffer; \<^verbatim>\<open>m_bLeaf\<close> takes one byte, and the byte behind it stays.\<close>

definition RegFSBNode_hton :: "geom \<Rightarrow> bnode \<Rightarrow> byte list \<Rightarrow> gint32 \<times> byte list" where
  "RegFSBNode_hton g n pSrc =
    (if length pSrc < BNODE_SIZE g then (- EINVAL, pSrc)
     else
       let off = 104 * MAX_PTRS_PER_NODE g; b = put_at 0 (concat (map slot_bytes (take (used_slots n) (m_vecSlots n)))) pSrc;
           b = put_at off (concat (map (be_bytes 2) [m_wNumKeys n, m_wNumPtrs n, m_wThisBNodeIdx n, m_wParentBNode n, m_wNextLeaf n])) b;
           b = put_at (off + 10) [if m_bLeaf n then 1 else 0] b in
       (0, put_at (off + 12) (be_bytes 2 (m_wFreeBNodeIdx n)) b))"

definition rd16 :: "nat \<Rightarrow> byte list \<Rightarrow> nat" where
  "rd16 off buf = be_nat (take 2 (drop off buf))"

definition MAX_BNODE_NUMBER :: "geom \<Rightarrow> nat" where
  "MAX_BNODE_NUMBER g = MAX_FILE_SIZE g div BNODE_SIZE g"

text \<open>\<^verbatim>\<open>ntoh\<close> replaces the fields one by one, so an error leaves the node with some of them.\<close>

definition RegFSBNode_ntoh :: "geom \<Rightarrow> byte list \<Rightarrow> bnode \<Rightarrow> gint32 \<times> bnode" where
  "RegFSBNode_ntoh g pSrc n =
    (if length pSrc < BNODE_SIZE g then (- EINVAL, n)
     else
       let off = 104 * MAX_PTRS_PER_NODE g;
           n = n\<lparr>m_wNumKeys := rd16 off pSrc, m_wNumPtrs := rd16 (off + 2) pSrc, m_wThisBNodeIdx := rd16 (off + 4) pSrc,
                 m_wParentBNode := rd16 (off + 6) pSrc, m_wNextLeaf := rd16 (off + 8) pSrc, m_bLeaf := pSrc ! (off + 10) \<noteq> 0\<rparr> in
       if m_wNumPtrs n > MAX_PTRS_PER_NODE g \<or> m_wNumKeys n > MAX_KEYS_PER_NODE g then (- ERANGE, n)
       else if m_wParentBNode n > MAX_BNODE_NUMBER g \<and> m_wParentBNode n \<noteq> INVALID_BNODE_IDX then (- ERANGE, n)
       else if m_wNextLeaf n > MAX_BNODE_NUMBER g \<and> m_wNextLeaf n \<noteq> INVALID_BNODE_IDX then (- ERANGE, n)
       else
         let dwCount = used_slots n in
         (0, n\<lparr>m_wFreeBNodeIdx := rd16 (off + 12) pSrc,
               m_vecSlots := map (\<lambda>i. slot_of_bytes (take 104 (drop (104 * i) pSrc))) [0..<dwCount] @ drop dwCount (m_vecSlots n)\<rparr>))"

section \<open>The order of keys\<close>

definition kstr :: "byte list \<Rightarrow> byte list" where
  "kstr k = take 95 (c_str k)"

lemma c_str_char: "c_str a = (if char_at a = 0 then [] else char_at a # c_str (tl a))"
  by (cases a) (simp_all add: c_str_def char_at_def)

lemma strncmp_order:
  "strncmp n a b < 0 \<longleftrightarrow> take n (c_str a) < take n (c_str b)" "strncmp n a b = 0 \<longleftrightarrow> take n (c_str a) = take n (c_str b)"
proof (induction n arbitrary: a b)
  case (Suc n)
  have pos: "0 < x" if "x \<noteq> 0" for x :: byte using that by (simp add: word_gt_0)
  have neq: "int (unat x) - int (unat y) < 0 \<longleftrightarrow> x < y" "int (unat x) - int (unat y) = 0 \<longleftrightarrow> x = y" for x y :: byte
    by (simp_all only: word_less_nat_alt word_unat_eq_iff) linarith+
  {
    case 1
    show ?case
      using Suc.IH(1)[of "tl a" "tl b"] pos[of "char_at b"] pos[of "char_at a"]
      by (simp only: strncmp.simps neq if_distrib[of "\<lambda>x. x < 0"] c_str_char[of a] c_str_char[of b] split: if_split) auto
  next
    case 2
    show ?case
      using Suc.IH(2)[of "tl a" "tl b"]
      by (simp only: strncmp.simps neq if_distrib[of "\<lambda>x. x = 0"] c_str_char[of a] c_str_char[of b] split: if_split) auto
  }
qed simp_all

lemma COMPARE_KEY_order:
  "COMPARE_KEY a b < 0 \<longleftrightarrow> kstr a < kstr b" "COMPARE_KEY a b = 0 \<longleftrightarrow> kstr a = kstr b" "COMPARE_KEY a b > 0 \<longleftrightarrow> kstr b < kstr a"
  using strncmp_order[of 95 a b] linorder_less_linear[of "kstr a" "kstr b"]
  by (auto simp: COMPARE_KEY_def kstr_def)

lemma c_str_no_zero: "0 \<notin> set (c_str k)"
  by (auto simp: c_str_def dest: set_takeWhileD)

lemma kstr_COPY_KEY [simp]: "kstr (COPY_KEY k) = kstr k"
proof -
  have "c_str (take 95 (c_str k) @ replicate (Suc m) 0) = take 95 (c_str k)" for m
    using c_str_no_zero[of k] unfolding c_str_def[of "_ @ _"]
    by (subst takeWhile_append2) (auto dest: in_set_takeD simp: takeWhile_eq_Nil_iff)
  moreover obtain m where "96 - length (take 95 (c_str k)) = Suc m" by (cases "96 - length (take 95 (c_str k))") auto
  ultimately show ?thesis by (simp add: COPY_KEY_def kstr_def Let_def)
qed

section \<open>Searching a node\<close>

abbreviation nkey :: "bnode \<Rightarrow> nat \<Rightarrow> byte list" where
  "nkey n i \<equiv> kstr (szKey (m_vecSlots n ! i))"

definition keys_sorted :: "bnode \<Rightarrow> bool" where
  "keys_sorted n \<longleftrightarrow> m_wNumKeys n \<le> length (m_vecSlots n) \<and> (\<forall>i j. i < j \<and> j < m_wNumKeys n \<longrightarrow> nkey n i < nkey n j)"

lemma cmp_at_key: "i < m_wNumKeys n \<Longrightarrow> m_wNumKeys n \<le> length (m_vecSlots n) \<Longrightarrow>
    cmp_at n k i = Inr (COMPARE_KEY k (szKey (m_vecSlots n ! i)))"
  by (simp add: cmp_at_def GetKey_def)

text \<open>The answer for a range of keys: either the index of the key, or the place before which all keys are smaller and from which
  on all are greater.\<close>

definition found_at :: "bnode \<Rightarrow> byte list \<Rightarrow> nat \<Rightarrow> nat \<Rightarrow> int \<Rightarrow> bool" where
  "found_at n k lo hi i \<longleftrightarrow>
    (if i \<ge> 0 then lo \<le> nat i \<and> nat i \<le> hi \<and> nkey n (nat i) = kstr k
     else lo \<le> place_of i \<and> place_of i \<le> hi + 1 \<and>
       (\<forall>j. lo \<le> j \<and> j < place_of i \<longrightarrow> nkey n j < kstr k) \<and> (\<forall>j. place_of i \<le> j \<and> j \<le> hi \<longrightarrow> kstr k < nkey n j))"

lemma place_of_simps [simp]:
  "place_of (- int i - 65536) = i" "i < 65535 \<Longrightarrow> place_of (- int i - 1) = Suc i" "place_of (- 65536 - int i) = i"
  "i < 65535 \<Longrightarrow> place_of (- 1 - int i) = Suc i" "place_of (- 65537 - int i) = Suc i"
  by (auto simp: place_of_def Let_def)

lemma keys_above: "keys_sorted n \<Longrightarrow> i \<le> j \<Longrightarrow> j < m_wNumKeys n \<Longrightarrow> kstr k < nkey n i \<Longrightarrow> kstr k < nkey n j"
  by (metis keys_sorted_def le_neq_implies_less order_less_trans)

lemma keys_below: "keys_sorted n \<Longrightarrow> j \<le> i \<Longrightarrow> i < m_wNumKeys n \<Longrightarrow> nkey n i < kstr k \<Longrightarrow> nkey n j < kstr k"
  by (metis keys_sorted_def le_neq_implies_less order_less_trans)

declare BinSearch.simps [simp del]

lemma found_before: "keys_sorted n \<Longrightarrow> lo \<le> hi \<Longrightarrow> hi < m_wNumKeys n \<Longrightarrow> m_wNumKeys n < 65535 \<Longrightarrow> kstr k < nkey n lo \<Longrightarrow>
    found_at n k lo hi (- (int lo + 65536))"
  using keys_above[of n lo _ k] by (auto simp: found_at_def)

lemma found_behind: "keys_sorted n \<Longrightarrow> lo \<le> hi \<Longrightarrow> hi < m_wNumKeys n \<Longrightarrow> m_wNumKeys n < 65535 \<Longrightarrow> nkey n hi < kstr k \<Longrightarrow>
    found_at n k lo hi (- (int hi + 1))"
  using keys_below[of n _ hi k] by (auto simp: found_at_def)

lemma found_here: "lo \<le> i \<Longrightarrow> i \<le> hi \<Longrightarrow> kstr k = nkey n i \<Longrightarrow> found_at n k lo hi (int i)"
  by (auto simp: found_at_def)

lemma found_left:
  assumes "found_at n k lo (m - 1) i" "lo < m" "m \<le> hi" "\<And>j. m \<le> j \<Longrightarrow> j \<le> hi \<Longrightarrow> kstr k < nkey n j"
  shows "found_at n k lo hi i"
proof (cases "i \<ge> 0")
  case False
  have "kstr k < nkey n j" if "place_of i \<le> j" "j \<le> hi" for j
    using assms(1,4) that False by (cases "m \<le> j") (auto simp: found_at_def)
  thus ?thesis using assms(1-3) False by (auto simp: found_at_def)
qed (use assms in \<open>auto simp: found_at_def\<close>)

lemma found_right:
  assumes "found_at n k (m + 1) hi i" "lo \<le> m" "\<And>j. lo \<le> j \<Longrightarrow> j \<le> m \<Longrightarrow> nkey n j < kstr k"
  shows "found_at n k lo hi i"
proof (cases "i \<ge> 0")
  case False
  have "nkey n j < kstr k" if "lo \<le> j" "j < place_of i" for j
    using assms(1,3) that False by (cases "j \<le> m") (auto simp: found_at_def)
  thus ?thesis using assms(1,2) False by (auto simp: found_at_def)
qed (use assms in \<open>auto simp: found_at_def\<close>)

lemma bin_search_found:
  assumes "keys_sorted n" "m_wNumKeys n < 65535" "lo \<le> hi" "hi < m_wNumKeys n"
  shows "\<exists>i. BinSearch n k lo hi = Inr i \<and> found_at n k lo hi i"
  using assms
proof (induction n k lo hi rule: BinSearch.induct)
  case (1 n k lo hi)
  note sorted = \<open>keys_sorted n\<close> and bound = \<open>m_wNumKeys n < 65535\<close> and le = \<open>lo \<le> hi\<close> and hi = \<open>hi < m_wNumKeys n\<close>
  have cmp: "cmp_at n k i = Inr (COMPARE_KEY k (szKey (m_vecSlots n ! i)))" if "i < m_wNumKeys n" for i
    using sorted that by (intro cmp_at_key) (simp_all add: keys_sorted_def)
  have ord: "COMPARE_KEY k b < 0 \<longleftrightarrow> kstr k < kstr b" "COMPARE_KEY k b = 0 \<longleftrightarrow> kstr k = kstr b" "0 < COMPARE_KEY k b \<longleftrightarrow> kstr b < kstr k" for b
    by (rule COMPARE_KEY_order)+
  let ?mid = "(lo + hi) div 2"
  note unfold = BinSearch.simps[of n k lo hi]
  consider "hi = lo" | "hi = lo + 1" | "lo + 1 < hi" using le by linarith
  thus ?case
  proof cases
    assume h: "hi = lo"
    show ?thesis
      using found_before[OF sorted le hi bound, of k] found_behind[OF sorted le hi bound, of k] found_here[of lo lo hi k n] hi h
      unfolding unfold by (auto simp: cmp ord not_less_iff_gr_or_eq)
  next
    assume h: "hi = lo + 1"
    have lt: "nkey n lo < nkey n hi" using sorted h hi by (simp add: keys_sorted_def)
    have mid: "found_at n k lo hi (- (int hi + 65536))" if "nkey n lo < kstr k" "kstr k < nkey n hi"
      using that bound hi h by (auto simp: found_at_def le_Suc_eq less_Suc_eq)
    show ?thesis
      using found_before[OF sorted le hi bound, of k] found_behind[OF sorted le hi bound, of k] found_here[of lo lo hi k n]
        found_here[of lo hi hi k n] mid hi h unfolding unfold by (auto simp: cmp ord not_less_iff_gr_or_eq)
  next
    assume h: "lo + 1 < hi"
    hence m: "lo \<le> ?mid - 1" "?mid + 1 \<le> hi" "?mid < m_wNumKeys n" "?mid - 1 < m_wNumKeys n" using hi by auto
    have nz: "\<not> hi < lo" "hi \<noteq> lo" "hi \<noteq> lo + 1" using h by auto
    have nz': "hi \<noteq> Suc lo" using h by auto
    consider "kstr k = nkey n ?mid" | "kstr k < nkey n ?mid" | "nkey n ?mid < kstr k" by fastforce
    thus ?thesis
    proof cases
      assume e: "kstr k = nkey n ?mid"
      show ?thesis using found_here[of lo ?mid hi k n] m e unfolding unfold by (simp add: nz nz' cmp[OF m(3)] ord Let_def)
    next
      assume e: "kstr k < nkey n ?mid"
      hence c: "COMPARE_KEY k (szKey (m_vecSlots n ! ?mid)) < 0" by (simp add: ord)
      obtain i where i: "BinSearch n k lo (?mid - 1) = Inr i" "found_at n k lo (?mid - 1) i"
        using "1.IH"(1)[OF nz refl cmp[OF m(3)] _ c sorted bound m(1,4)] c by auto
      have "found_at n k lo hi i"
        by (rule found_left[OF i(2)]) (use m h keys_above[OF sorted _ _ e] hi in auto)
      thus ?thesis using i(1) c unfolding unfold by (simp add: nz nz' cmp[OF m(3)] Let_def)
    next
      assume e: "nkey n ?mid < kstr k"
      hence c: "COMPARE_KEY k (szKey (m_vecSlots n ! ?mid)) > 0" by (simp add: ord)
      obtain i where i: "BinSearch n k (?mid + 1) hi = Inr i" "found_at n k (?mid + 1) hi i"
        using "1.IH"(2)[OF nz refl cmp[OF m(3)] _ _ sorted bound m(2) hi] c by auto
      have "found_at n k lo hi i"
        by (rule found_right[OF i(2)]) (use m keys_below[OF sorted _ m(3) e] in auto)
      thus ?thesis using i(1) c unfolding unfold by (simp add: nz nz' cmp[OF m(3)] Let_def)
    qed
  qed
qed

section \<open>Writing and reading a node\<close>

definition node_storable :: "geom \<Rightarrow> bnode \<Rightarrow> bool" where
  "node_storable g n \<longleftrightarrow>
    m_wNumKeys n \<le> MAX_KEYS_PER_NODE g \<and> m_wNumPtrs n \<le> MAX_PTRS_PER_NODE g \<and> used_slots n \<le> length (m_vecSlots n) \<and>
    (\<forall>s\<in>set (take (used_slots n) (m_vecSlots n)). length (szKey s) = 96 \<and> sl_idx s < W32 \<and> length (sl_rest s) = 4) \<and>
    m_wThisBNodeIdx n < 65536 \<and> m_wParentBNode n < 65536 \<and> m_wNextLeaf n < 65536 \<and> m_wFreeBNodeIdx n < 65536 \<and>
    (m_wParentBNode n \<le> MAX_BNODE_NUMBER g \<or> m_wParentBNode n = INVALID_BNODE_IDX) \<and>
    (m_wNextLeaf n \<le> MAX_BNODE_NUMBER g \<or> m_wNextLeaf n = INVALID_BNODE_IDX)"

definition page_ok :: "geom \<Rightarrow> bool" where
  "page_ok g \<longleftrightarrow> 1024 \<le> BNODE_SIZE g \<and> BNODE_SIZE g \<le> 65536"

lemma slot_back: "length (szKey s) = 96 \<Longrightarrow> sl_idx s < W32 \<Longrightarrow> length (sl_rest s) = 4 \<Longrightarrow> slot_of_bytes (slot_bytes s) = s"
  by (simp add: slot_of_bytes_def slot_bytes_def be_nat_bytes)

lemma length_slot_bytes: "length (szKey s) = 96 \<Longrightarrow> length (sl_rest s) = 4 \<Longrightarrow> length (slot_bytes s) = 104"
  by (simp add: slot_bytes_def)

lemma take_chunk:
  assumes "\<forall>x\<in>set xs. length (f x) = k" "i < length xs"
  shows "take k (drop (k * i) (concat (map f xs) @ ys)) = f (xs ! i)"
  using assms
proof (induction xs arbitrary: i)
  case (Cons x xs)
  show ?case using Cons.IH[of "i - 1"] Cons.prems by (cases i) auto
qed simp

lemma length_chunks: "\<forall>x\<in>set xs. length (f x) = k \<Longrightarrow> length (concat (map f xs)) = k * length xs"
  by (induction xs) auto

lemma page_room: "page_ok g \<Longrightarrow> 104 * MAX_PTRS_PER_NODE g + 14 \<le> BNODE_SIZE g \<and> MAX_PTRS_PER_NODE g \<le> 628"
  unfolding page_ok_def MAX_PTRS_PER_NODE_def by auto

lemma drop_put_at: "off + length bs \<le> i \<Longrightarrow> off \<le> length buf \<Longrightarrow> drop i (put_at off bs buf) = drop i buf"
  by (simp add: put_at_def)

lemma take_drop_put_at: "i + n \<le> off \<Longrightarrow> off \<le> length buf \<Longrightarrow> take n (drop i (put_at off bs buf)) = take n (drop i buf)"
  by (simp add: put_at_def take_drop)

lemma read_put_at: "off \<le> length buf \<Longrightarrow> i + n \<le> length bs \<Longrightarrow>
    take n (drop (off + i) (put_at off bs buf)) = take n (drop i bs)"
  by (simp add: put_at_def)

lemma length_put_at': "off + length bs \<le> length buf \<Longrightarrow> length (put_at off bs buf) = length buf"
  by (simp add: put_at_def)

lemma node_bytes_back:
  assumes "page_ok g" "node_storable g n" "BNODE_SIZE g \<le> length buf"
  shows "\<exists>b. RegFSBNode_hton g n buf = (0, b) \<and> length b = length buf \<and>
    RegFSBNode_ntoh g b n0 = (0, n\<lparr>m_vecSlots := take (used_slots n) (m_vecSlots n) @ drop (used_slots n) (m_vecSlots n0),
      m_pParent := m_pParent n0, m_bFreed := m_bFreed n0\<rparr>)"
proof -
  let ?off = "104 * MAX_PTRS_PER_NODE g" and ?u = "used_slots n" and ?S = "take (used_slots n) (m_vecSlots n)"
  let ?ss = "concat (map slot_bytes ?S)"
  let ?ws = "[m_wNumKeys n, m_wNumPtrs n, m_wThisBNodeIdx n, m_wParentBNode n, m_wNextLeaf n]"
  let ?w = "concat (map (be_bytes 2) ?ws)"
  define b1 where "b1 = put_at 0 ?ss buf"
  define b2 where "b2 = put_at ?off ?w b1"
  define b3 where "b3 = put_at (?off + 10) [if m_bLeaf n then 1 else 0 :: byte] b2"
  define b where "b = put_at (?off + 12) (be_bytes 2 (m_wFreeBNodeIdx n)) b3"
  note st = assms(2)[unfolded node_storable_def]
  have room: "?off + 14 \<le> length buf" "MAX_PTRS_PER_NODE g \<le> 628" using page_room[OF assms(1)] assms(3) by auto
  have chunks: "\<forall>s\<in>set ?S. length (slot_bytes s) = 104" using st by (auto intro: length_slot_bytes)
  have u: "?u \<le> MAX_PTRS_PER_NODE g" "length ?S = ?u" using st by (auto simp: used_slots_def MAX_KEYS_PER_NODE_def)
  have ls: "length ?ss = 104 * ?u" using length_chunks[OF chunks] u(2) by simp
  have lw: "length ?w = 10" by simp
  have L1: "length b1 = length buf" unfolding b1_def using room u ls by (intro length_put_at') simp
  have L2: "length b2 = length buf" unfolding b2_def using room lw L1 by (subst length_put_at') simp_all
  have L3: "length b3 = length buf" unfolding b3_def using room L2 by (subst length_put_at') simp_all
  have L: "length b = length buf" unfolding b_def using room L3 by (subst length_put_at') simp_all
  have hton: "RegFSBNode_hton g n buf = (0, b)"
    using assms(3) by (simp add: RegFSBNode_hton_def Let_def b_def b3_def b2_def b1_def not_less)
  have low: "take m (drop i b) = take m (drop i b2)" if "i + m \<le> ?off + 10" for i m
    using that room L2 L3 by (simp add: b_def b3_def take_drop_put_at)
  have w: "rd16 (?off + 2 * j) b = ?ws ! j" if j: "j < 5" for j
  proof -
    have "take 2 (drop (?off + 2 * j) b) = take 2 (drop (2 * j) ?w)"
      unfolding b2_def using j room L1 by (subst low, simp, simp only: b2_def, subst read_put_at) simp_all
    also have "\<dots> = be_bytes 2 (?ws ! j)" using take_chunk[of ?ws "be_bytes 2" 2 j "[]"] j by simp
    finally have e: "rd16 (?off + 2 * j) b = be_nat (be_bytes 2 (?ws ! j))" by (simp add: rd16_def)
    have cnt: "m_wNumKeys n < 65536" "m_wNumPtrs n < 65536" using st room by (auto simp: MAX_KEYS_PER_NODE_def)
    consider "j = 0" | "j = 1" | "j = 2" | "j = 3" | "j = 4" using j by linarith
    hence "?ws ! j < 65536" using st cnt by cases auto
    thus ?thesis unfolding e by (intro be_nat_bytes) simp
  qed
  have leaf: "b ! (?off + 10) \<noteq> 0 \<longleftrightarrow> m_bLeaf n"
    using room L2 L3 by (simp add: b_def b3_def put_at_def nth_append min_def)
  have free: "rd16 (?off + 12) b = m_wFreeBNodeIdx n"
    using room L3 st read_put_at[of "?off + 12" b3 0 2 "be_bytes 2 (m_wFreeBNodeIdx n)"]
    by (simp add: rd16_def b_def be_nat_bytes)
  have slots: "map (\<lambda>i. slot_of_bytes (take 104 (drop (104 * i) b))) [0..<?u] = ?S"
  proof (rule nth_equalityI)
    show "length (map (\<lambda>i. slot_of_bytes (take 104 (drop (104 * i) b))) [0..<?u]) = length ?S" using u by simp
    fix i assume "i < length (map (\<lambda>i. slot_of_bytes (take 104 (drop (104 * i) b))) [0..<?u])"
    hence i: "i < ?u" by simp
    have e: "104 * i + 104 \<le> ?off" using i u(1) by simp
    have "take 104 (drop (104 * i) b) = take 104 (drop (104 * i) b1)"
      using e room L1 by (subst low) (simp_all add: b2_def take_drop_put_at)
    also have "\<dots> = slot_bytes (?S ! i)"
      using take_chunk[OF chunks, of i "drop (length ?ss) buf"] i u(2) by (simp add: b1_def put_at_0)
    finally show "map (\<lambda>i. slot_of_bytes (take 104 (drop (104 * i) b))) [0..<?u] ! i = ?S ! i"
      using st i u(2) nth_mem[of i ?S] by (simp add: slot_back)
  qed
  have ws: "rd16 ?off b = m_wNumKeys n" "rd16 (?off + 2) b = m_wNumPtrs n" "rd16 (?off + 4) b = m_wThisBNodeIdx n"
    "rd16 (?off + 6) b = m_wParentBNode n" "rd16 (?off + 8) b = m_wNextLeaf n"
    using w[of 0] w[of 1] w[of 2] w[of 3] w[of 4] by simp_all
  have "RegFSBNode_ntoh g b n0 = (0, n\<lparr>m_vecSlots := ?S @ drop ?u (m_vecSlots n0), m_pParent := m_pParent n0, m_bFreed := m_bFreed n0\<rparr>)"
    using st assms(3) slots unfolding RegFSBNode_ntoh_def Let_def ws free leaf L used_slots_def by auto
  thus ?thesis using hton L by blast
qed

section \<open>Properties of nodes\<close>

definition sample_slot :: "byte \<Rightarrow> nat \<Rightarrow> keyptr_slot" where
  "sample_slot c i = \<lparr>szKey = COPY_KEY [c], sl_idx = i, sl_rest = [1, 0, 0, 0]\<rparr>"

definition sample_leaf :: bnode where
  "sample_leaf = (CBPlusNode default_geom 0)\<lparr>m_bLeaf := True, m_wNumKeys := 3,
     m_vecSlots := [sample_slot 97 50, sample_slot 99 51, sample_slot 101 52] @ replicate 35 zero_slot\<rparr>"

lemma sample_key: "c \<noteq> 0 \<Longrightarrow> kstr (szKey (sample_slot c i)) = [c]"
  by (simp add: sample_slot_def) (simp add: kstr_def c_str_def)

lemma sample_leaf_sorted: "keys_sorted sample_leaf"
proof -
  have k: "nkey sample_leaf 0 = [97]" "nkey sample_leaf 1 = [99]" "nkey sample_leaf 2 = [101]"
    by (simp_all add: sample_leaf_def sample_key)
  have "nkey sample_leaf i < nkey sample_leaf j" if "i < j" "j < 3" for i j
  proof -
    have "i = 0 \<and> j = 1 \<or> i = 0 \<and> j = 2 \<or> i = 1 \<and> j = 2" using that by arith
    thus ?thesis using k by auto
  qed
  thus ?thesis by (simp add: keys_sorted_def sample_leaf_def)
qed

text \<open>C24. \<open>BinSearch\<close> over the keys of a node always returns, reads no key outside the node, and is exact: a non-negative
  answer is the index of the key, and a negative one encodes the only place where the key belongs, with all smaller keys before it and all
  greater ones from it on.\<close>

theorem bin_search_exact:
  assumes "keys_sorted n" "0 < m_wNumKeys n" "m_wNumKeys n < 65535"
  shows "\<exists>i. BinSearch n k 0 (m_wNumKeys n - 1) = Inr i \<and>
    (if i \<ge> 0 then nat i < m_wNumKeys n \<and> nkey n (nat i) = kstr k
     else place_of i \<le> m_wNumKeys n \<and> (\<forall>j<place_of i. nkey n j < kstr k) \<and>
       (\<forall>j. place_of i \<le> j \<and> j < m_wNumKeys n \<longrightarrow> kstr k < nkey n j))"
proof -
  obtain i where i: "BinSearch n k 0 (m_wNumKeys n - 1) = Inr i" "found_at n k 0 (m_wNumKeys n - 1) i"
    using bin_search_found[OF assms(1,3), of 0 "m_wNumKeys n - 1"] assms(2) by auto
  thus ?thesis using assms(2) by (intro exI[of _ i]) (auto simp: found_at_def split: if_splits)
qed

theorem bin_search_exact_witness:
  "\<exists>i. BinSearch sample_leaf [100] 0 2 = Inr i \<and> (if i \<ge> 0 then nkey sample_leaf (nat i) = [100] else place_of i \<le> 3)"
proof -
  have "m_wNumKeys sample_leaf = 3" by (simp add: sample_leaf_def)
  moreover have "kstr [100] = [100 :: byte]" by (simp add: kstr_def c_str_def)
  ultimately show ?thesis using bin_search_exact[OF sample_leaf_sorted, of "[100]"] by (auto split: if_splits)
qed

text \<open>C25. A node survives the image: \<open>ntoh\<close> reads back what \<open>hton\<close> wrote, with every used slot and field, into any node and whatever the
  buffer held, and \<open>hton\<close> does not change the size of the buffer.\<close>

theorem node_bytes_roundtrip:
  assumes "page_ok g" "node_storable g n" "BNODE_SIZE g \<le> length buf"
  shows "\<exists>b. RegFSBNode_hton g n buf = (0, b) \<and> length b = length buf \<and>
    RegFSBNode_ntoh g b n0 = (0, n\<lparr>m_vecSlots := take (used_slots n) (m_vecSlots n) @ drop (used_slots n) (m_vecSlots n0),
      m_pParent := m_pParent n0, m_bFreed := m_bFreed n0\<rparr>)"
  by (rule node_bytes_back[OF assms])

theorem node_bytes_roundtrip_witness:
  "\<exists>b. RegFSBNode_hton default_geom sample_leaf (replicate 4096 0) = (0, b) \<and>
    m_wNumKeys (snd (RegFSBNode_ntoh default_geom b (CBPlusNode default_geom 7))) = 3"
proof -
  have s: "BNODE_SIZE default_geom = 4096" by (simp add: BNODE_SIZE_def default_geom_def)
  have p: "page_ok default_geom" by (simp add: page_ok_def s)
  have "node_storable default_geom sample_leaf"
    by (simp add: node_storable_def sample_leaf_def used_slots_def MAX_KEYS_PER_NODE_def MAX_PTRS_PER_NODE_def s CBPlusNode_def
        sample_slot_def COPY_KEY_def c_str_def)
  thus ?thesis
    using node_bytes_roundtrip[OF p, of sample_leaf "replicate 4096 0" "CBPlusNode default_geom 7"] by (auto simp: s sample_leaf_def)
qed

end
