(* ===== verification/DirTree.thy ===== *)
theory DirTree
  imports DirNode
begin

text \<open>
  The B+ tree of a directory (\<^verbatim>\<open>monitor/registry/dir.cpp\<close>): \<^verbatim>\<open>CBPlusNode\<close> with its links to parent and children, the pool of free
  nodes \<^verbatim>\<open>CFreeBNodePool\<close>, and the tree operations of \<^verbatim>\<open>CDirImage\<close>. The nodes lie in the file of the directory, which is
  written and cut by the operations of \<open>FileData\<close>.

  The objects \<open>dr_obj\<close> are found by the index of their node; \<open>m_mapChilds\<close> are the indices for which the map of the directory holds an
  object, and a pointer to a parent is an index. A new node takes the place of a freed one with its index. Loops along the tree get a number of
  rounds, and running out of them is \<open>Fault_Block\<close>; what a file answers when it is loaded or removed is an argument.
\<close>

section \<open>The directory\<close>

record free_bnodes =
  m_arrFreeBNIdx :: "nat list"
  m_bNextBNode :: bool

record 'o dir =
  dr_img :: "'o file_image"
  dr_dev :: dev
  dr_obj :: "nat \<Rightarrow> bnode"
  m_mapChilds :: "nat set"
  m_pRootNode :: nat
  m_vecFreeBNodes :: "(nat \<times> free_bnodes) list"
  m_setDirtyNodes :: "nat set"
  m_mapFiles :: "nat set"

text \<open>What an operation depends on besides the directory: the geometry, the mode, the time and the memory of new buffers.\<close>

record fs_env =
  e_g :: geom
  e_safe :: bool
  e_now :: timespec
  e_junk :: "byte list"

definition upd_node :: "nat \<Rightarrow> (bnode \<Rightarrow> bnode) \<Rightarrow> 'o dir \<Rightarrow> 'o dir" where
  "upd_node i h s = s\<lparr>dr_obj := (dr_obj s)(i := h (dr_obj s i))\<rparr>"

definition SetDirty :: "nat \<Rightarrow> 'o dir \<Rightarrow> 'o dir" where
  "SetDirty i s = s\<lparr>m_setDirtyNodes := insert i (m_setDirtyNodes s)\<rparr>"

definition safe_dirty :: "fs_env \<Rightarrow> nat \<Rightarrow> 'o dir \<Rightarrow> 'o dir" where
  "safe_dirty v i s = (if e_safe v then SetDirty i s else s)"

abbreviation (input) INODE_DIRTY :: nat where "INODE_DIRTY \<equiv> 4294967294"

text \<open>Leaving the block of a function on an error.\<close>

definition and_then :: "(gint32 \<times> 's) run \<Rightarrow> ('s \<Rightarrow> (gint32 \<times> 's) run) \<Rightarrow> (gint32 \<times> 's) run" where
  "and_then r k = (case r of Inl x \<Rightarrow> Inl x | Inr (ret, s) \<Rightarrow> if ERROR ret then Inr (ret, s) else k s)"

section \<open>The file of the directory\<close>

definition BNODE_IDX_TO_POS :: "geom \<Rightarrow> nat \<Rightarrow> nat" where
  "BNODE_IDX_TO_POS g idx = (idx * 2 ^ find_shift (g_dwRegFsPageSize g)) mod W32"

definition dir_write :: "fs_env \<Rightarrow> nat \<Rightarrow> byte list \<Rightarrow> 'o dir \<Rightarrow> (gint32 \<times> 'o dir) run" where
  "dir_write v idx bytes s =
    map_sum id (\<lambda>(ret, _, f, d). (ret, s\<lparr>dr_img := f, dr_dev := d\<rparr>))
      (CFileImage_WriteFileNoLock (e_g v) (e_safe v) (e_junk v) (BNODE_IDX_TO_POS (e_g v) idx) (BNODE_SIZE (e_g v)) bytes
        (dr_img s) (dr_dev s))"

definition dir_truncate :: "fs_env \<Rightarrow> nat \<Rightarrow> 'o dir \<Rightarrow> (gint32 \<times> 'o dir) run" where
  "dir_truncate v dwOff s =
    map_sum id (\<lambda>(ret, f, d). (ret, s\<lparr>dr_img := f, dr_dev := d\<rparr>))
      (CFileImage_TruncateNoLock (e_g v) (e_safe v) (e_now v) (e_junk v) dwOff (dr_img s) (dr_dev s))"

definition CBPlusNode_Format :: "fs_env \<Rightarrow> nat \<Rightarrow> 'o dir \<Rightarrow> (gint32 \<times> 'o dir) run" where
  "CBPlusNode_Format v i s =
    (let (ret, b) = RegFSBNode_hton (e_g v) (dr_obj s i) (replicate (BNODE_SIZE (e_g v)) 0) in
     if ERROR ret then Inr (ret, s) else and_then (dir_write v (m_wThisBNodeIdx (dr_obj s i)) b s) (\<lambda>s. Inr (0, s)))"

section \<open>Children\<close>

definition AddChildDirect :: "nat \<Rightarrow> nat \<Rightarrow> 'o dir \<Rightarrow> gint32 \<times> 'o dir" where
  "AddChildDirect this c s =
    (if c \<in> m_mapChilds s then (- EEXIST, s)
     else let s = (if this \<noteq> c then upd_node c (\<lambda>n. n\<lparr>m_pParent := Some this\<rparr>) s else s) in
       (0, s\<lparr>m_mapChilds := insert c (m_mapChilds s)\<rparr>))"

definition RemoveChildDirect :: "nat \<Rightarrow> 'o dir \<Rightarrow> gint32 \<times> 'o dir" where
  "RemoveChildDirect c s =
    (if c \<notin> m_mapChilds s then (- ENOENT, s)
     else let s = upd_node c (\<lambda>n. n\<lparr>m_pParent := None\<rparr>) s in (0, s\<lparr>m_mapChilds := m_mapChilds s - {c}\<rparr>))"

definition CBPlusNode_RemoveChild :: "nat \<Rightarrow> nat \<Rightarrow> 'o dir \<Rightarrow> gint32 \<times> 'o dir" where
  "CBPlusNode_RemoveChild this idx s =
    (let n = dr_obj s this in
     if idx \<ge> m_wNumPtrs n then (- EINVAL, s)
     else if m_bLeaf n then (- ENOTSUP, s)
     else RemoveChildDirect (sl_idx (m_vecSlots n ! idx)) s)"

definition GetChildDirect :: "nat \<Rightarrow> 'o dir \<Rightarrow> nat option" where
  "GetChildDirect c s = (if c \<in> m_mapChilds s then Some c else None)"

definition CBPlusNode_GetChild :: "nat \<Rightarrow> nat \<Rightarrow> 'o dir \<Rightarrow> nat option" where
  "CBPlusNode_GetChild this idx s =
    (let n = dr_obj s this in
     if idx \<ge> m_wNumPtrs n then None else GetChildDirect (sl_idx (m_vecSlots n ! idx)) s)"

definition GetParentSlotIdx :: "nat \<Rightarrow> 'o dir \<Rightarrow> nat option" where
  "GetParentSlotIdx this s =
    (case m_pParent (dr_obj s this) of
       None \<Rightarrow> None
     | Some p \<Rightarrow> find (\<lambda>i. sl_idx (m_vecSlots (dr_obj s p) ! i) = m_wThisBNodeIdx (dr_obj s this)) [0..<m_wNumPtrs (dr_obj s p)])"

section \<open>The pool of free nodes\<close>

definition fb_GetMaxCount :: "geom \<Rightarrow> nat" where
  "fb_GetMaxCount g = (BNODE_SIZE g - 4) div 2"

definition fb_IsFull :: "geom \<Rightarrow> free_bnodes \<Rightarrow> bool" where
  "fb_IsFull g p \<longleftrightarrow> length (m_arrFreeBNIdx p) = fb_GetMaxCount g"

definition GetLastBNodeIdx :: "free_bnodes \<Rightarrow> nat" where
  "GetLastBNodeIdx p = (if m_arrFreeBNIdx p = [] then INVALID_BNODE_IDX else last (m_arrFreeBNIdx p))"

definition PushFreeBNode :: "geom \<Rightarrow> nat \<Rightarrow> free_bnodes \<Rightarrow> gint32 \<times> free_bnodes" where
  "PushFreeBNode g wBNodeIdx p =
    (if fb_IsFull g p then (- ENOMEM, p) else (0, p\<lparr>m_arrFreeBNIdx := m_arrFreeBNIdx p @ [wBNodeIdx mod 65536]\<rparr>))"

definition PopFreeBNode :: "free_bnodes \<Rightarrow> gint32 \<times> nat \<times> free_bnodes" where
  "PopFreeBNode p =
    (if m_arrFreeBNIdx p = [] then (- ENOENT, INVALID_BNODE_IDX, p)
     else (0, last (m_arrFreeBNIdx p), p\<lparr>m_arrFreeBNIdx := butlast (m_arrFreeBNIdx p)\<rparr>))"

definition FREE_BNODES_hton :: "geom \<Rightarrow> free_bnodes \<Rightarrow> gint32 \<times> byte list" where
  "FREE_BNODES_hton g p =
    (let n = length (m_arrFreeBNIdx p) in
     if n > fb_GetMaxCount g then (- EOVERFLOW, [])
     else (0, be_bytes 2 n @ [if m_bNextBNode p then 1 else 0, 0] @ concat (map (be_bytes 2) (m_arrFreeBNIdx p)) @
       replicate (2 * (fb_GetMaxCount g - n)) 255))"

definition FREE_BNODES_ntoh :: "geom \<Rightarrow> byte list \<Rightarrow> (free_bnodes option)" where
  "FREE_BNODES_ntoh g b =
    (let n = rd16 0 b in
     if n > fb_GetMaxCount g then None
     else Some \<lparr>m_arrFreeBNIdx = map (\<lambda>i. rd16 (4 + 2 * i) b) [0..<n], m_bNextBNode = (b ! 2 \<noteq> 0)\<rparr>)"

definition GetHeadFreeBNode :: "'o dir \<Rightarrow> nat" where
  "GetHeadFreeBNode s = m_wFreeBNodeIdx (dr_obj s (m_pRootNode s))"

definition SetHeadFreeBNode :: "fs_env \<Rightarrow> nat \<Rightarrow> 'o dir \<Rightarrow> 'o dir" where
  "SetHeadFreeBNode v i s =
    safe_dirty v (m_wThisBNodeIdx (dr_obj s (m_pRootNode s))) (upd_node (m_pRootNode s) (\<lambda>n. n\<lparr>m_wFreeBNodeIdx := i mod 65536\<rparr>) s)"

definition InitPoolStore :: "fs_env \<Rightarrow> nat \<Rightarrow> 'o dir \<Rightarrow> (gint32 \<times> 'o dir) run" where
  "InitPoolStore v dwBNodeIdx s =
    (let fb = \<lparr>m_arrFreeBNIdx = [], m_bNextBNode = False\<rparr> in
     if dwBNodeIdx = INVALID_BNODE_IDX then Inr (- EINVAL, s)
     else and_then (if e_safe v then Inr (0, SetDirty dwBNodeIdx s)
                    else let (ret, b) = FREE_BNODES_hton (e_g v) fb in
                      if ERROR ret then Inr (ret, s) else dir_write v dwBNodeIdx b s)
       (\<lambda>s. let s = (if m_vecFreeBNodes s = [] then SetHeadFreeBNode v dwBNodeIdx s else s) in
         Inr (0, s\<lparr>m_vecFreeBNodes := (dwBNodeIdx, fb) # m_vecFreeBNodes s\<rparr>)))"

definition ReleaseFreeBNode :: "fs_env \<Rightarrow> nat \<Rightarrow> 'o dir \<Rightarrow> (gint32 \<times> 'o dir) run" where
  "ReleaseFreeBNode v dwBNodeIdx s =
    (let dwPos = BNODE_IDX_TO_POS (e_g v) dwBNodeIdx in
     if dwBNodeIdx = INVALID_BNODE_IDX then Inr (- EINVAL, s)
     else if (dwPos + BNODE_SIZE (e_g v)) mod W32 \<ge> GetSize (dr_img s) then dir_truncate v dwPos s
     else Inr (ERROR_FAIL, s))"

text \<open>A full page gets its last entry as the next page, which then takes the node.\<close>

definition pool_push :: "fs_env \<Rightarrow> nat \<Rightarrow> 'o dir \<Rightarrow> (gint32 \<times> 'o dir) run" where
  "pool_push v dwBNodeIdx s =
    (case m_vecFreeBNodes s of
       [] \<Rightarrow> Inr (- ENOENT, s)
     | (i, pfb) # rest \<Rightarrow>
         let (ret, pfb) = PushFreeBNode (e_g v) dwBNodeIdx pfb in
         Inr (ret, safe_dirty v i (s\<lparr>m_vecFreeBNodes := (i, pfb) # rest\<rparr>)))"

definition pool_PutFreeBNode :: "fs_env \<Rightarrow> nat \<Rightarrow> 'o dir \<Rightarrow> (gint32 \<times> 'o dir) run" where
  "pool_PutFreeBNode v dwBNodeIdx s =
    (case ReleaseFreeBNode v dwBNodeIdx s of
       Inl x \<Rightarrow> Inl x
     | Inr (ret, s) \<Rightarrow>
         if SUCCEEDED ret then Inr (ret, s)
         else if GetHeadFreeBNode s = INVALID_BNODE_IDX then InitPoolStore v dwBNodeIdx s
         else (case m_vecFreeBNodes s of
             [] \<Rightarrow> Inr (- ENOENT, s)
           | (i, pfb) # rest \<Rightarrow>
               if fb_IsFull (e_g v) pfb then
                 and_then (InitPoolStore v (GetLastBNodeIdx pfb) (s\<lparr>m_vecFreeBNodes := (i, pfb\<lparr>m_bNextBNode := True\<rparr>) # rest\<rparr>))
                   (\<lambda>s. pool_push v dwBNodeIdx (SetDirty i s))
               else pool_push v dwBNodeIdx s))"

text \<open>Empty pages are dropped, and the page below one no longer points to it; the last page is handed out itself.\<close>

primrec pool_get :: "fs_env \<Rightarrow> nat \<Rightarrow> bool \<Rightarrow> (nat \<times> free_bnodes) list \<Rightarrow> 'o dir \<Rightarrow> gint32 \<times> nat \<times> 'o dir" where
  "pool_get v dwFirstFree popped [] s = (0, dwFirstFree, SetHeadFreeBNode v INVALID_BNODE_IDX (s\<lparr>m_vecFreeBNodes := []\<rparr>))"
| "pool_get v dwFirstFree popped (x # rest) s =
    (let pfb = (snd x)\<lparr>m_bNextBNode := m_bNextBNode (snd x) \<and> \<not> popped\<rparr> in
     if m_arrFreeBNIdx pfb = [] then pool_get v dwFirstFree True rest s
     else
       let (ret, i, pfb) = PopFreeBNode pfb in
       (ret, i, safe_dirty v (fst x) (s\<lparr>m_vecFreeBNodes := (fst x, pfb) # rest\<rparr>)))"

definition pool_GetFreeBNode :: "fs_env \<Rightarrow> 'o dir \<Rightarrow> gint32 \<times> nat \<times> 'o dir" where
  "pool_GetFreeBNode v s =
    (let dwFirstFree = GetHeadFreeBNode s in
     if dwFirstFree = INVALID_BNODE_IDX then (- ENOENT, INVALID_BNODE_IDX, s)
     else pool_get v dwFirstFree False (m_vecFreeBNodes s) s)"

text \<open>A new node: its index is a free one or the one behind the end of the file. The result has the index of the object.\<close>

definition GetFreeBNode :: "fs_env \<Rightarrow> bool \<Rightarrow> 'o dir \<Rightarrow> (gint32 \<times> nat \<times> 'o dir) run" where
  "GetFreeBNode v bLeaf s =
    (let (ret, i, s) = pool_GetFreeBNode v s; dwOff = GetSize (dr_img s); page = BNODE_SIZE (e_g v) in
     if ERROR ret \<and> (dwOff + page) mod W32 > MAX_FILE_SIZE (e_g v) then Inr (- EFBIG, 0, s)
     else
       let dwBNodeIdx = (if ERROR ret then ((dwOff + page + (W32 - 1)) mod W32) div page else i) mod 65536;
           s = upd_node dwBNodeIdx (\<lambda>_. (CBPlusNode (e_g v) dwBNodeIdx)\<lparr>m_bLeaf := bLeaf\<rparr>) s in
       map_sum id (\<lambda>(ret, s). (ret, dwBNodeIdx, s)) (CBPlusNode_Format v dwBNodeIdx s))"

definition dir_PutFreeBNode :: "fs_env \<Rightarrow> nat \<Rightarrow> 'o dir \<Rightarrow> (gint32 \<times> 'o dir) run" where
  "dir_PutFreeBNode v i s =
    pool_PutFreeBNode v (m_wThisBNodeIdx (dr_obj s i)) (upd_node i (\<lambda>n. n\<lparr>m_bFreed := True\<rparr>) s)"

definition set_root_inode :: "nat \<Rightarrow> 'o dir \<Rightarrow> 'o dir" where
  "set_root_inode i s = s\<lparr>dr_img := (dr_img s)\<lparr>m_oInodeStore := (m_oInodeStore (dr_img s))\<lparr>m_dwRootBNode := i\<rparr>\<rparr>\<rparr>"

definition ReplaceRootBNode :: "fs_env \<Rightarrow> nat \<Rightarrow> 'o dir \<Rightarrow> 'o dir" where
  "ReplaceRootBNode v new s =
    (let old = m_pRootNode s; idx = m_wThisBNodeIdx (dr_obj s new);
         s = set_root_inode idx (s\<lparr>m_pRootNode := new\<rparr>);
         s = upd_node new (\<lambda>n. n\<lparr>m_wFreeBNodeIdx := m_wFreeBNodeIdx (dr_obj s old)\<rparr>) s;
         s = snd (AddChildDirect new idx s);
         s = snd (RemoveChildDirect (m_wThisBNodeIdx (dr_obj s old)) s) in
     safe_dirty v INODE_DIRTY s)"

section \<open>Inserting\<close>

definition InsertSlotAt :: "fs_env \<Rightarrow> nat \<Rightarrow> nat \<Rightarrow> keyptr_slot \<Rightarrow> 'o dir \<Rightarrow> (gint32 \<times> 'o dir) run" where
  "InsertSlotAt v this idx pKey s =
    (let (ret, n) = insert_slot (e_g v) idx pKey (dr_obj s this) in
     if ERROR ret then Inr (ret, s)
     else if \<not> m_bLeaf n \<and> sl_idx pKey \<noteq> INVALID_BNODE_IDX then
       if sl_idx pKey \<notin> m_mapChilds s then Inl Fault_Null
       else Inr (0, upd_node this (\<lambda>_. IncChildCount n) s)
     else Inr (0, upd_node this (\<lambda>_. n) s))"

text \<open>\<^verbatim>\<open>MoveBNodeStore\<close>: the slots, then the links of the children that moved.\<close>

definition move_child :: "nat \<Rightarrow> nat \<Rightarrow> nat \<Rightarrow> nat \<Rightarrow> 'o dir \<Rightarrow> 'o dir" where
  "move_child dst src iSrc iDst s =
    (let (ret, s') = CBPlusNode_RemoveChild src iSrc s in
     if ERROR ret then s' else snd (AddChildDirect dst (sl_idx (m_vecSlots (dr_obj s' dst) ! iDst)) s'))"

definition MoveBNodeStore :: "fs_env \<Rightarrow> nat \<Rightarrow> nat \<Rightarrow> nat \<Rightarrow> nat \<Rightarrow> nat \<Rightarrow> 'o dir \<Rightarrow> gint32 \<times> 'o dir" where
  "MoveBNodeStore v dst src dwSrcOff dwCount dwDstOff s =
    (let g = e_g v; leaf = m_bLeaf (dr_obj s dst); dwLimit = (if leaf then MAX_KEYS_PER_NODE g else MAX_PTRS_PER_NODE g) in
     if dwSrcOff + dwCount > dwLimit + 1 \<or> dwDstOff + dwCount > dwLimit + 1 then (- EINVAL, s)
     else
       let dwActCount = m_wNumKeys (dr_obj s src); moved = take dwCount (drop dwSrcOff (m_vecSlots (dr_obj s src)));
           s = upd_node dst (\<lambda>n. n\<lparr>m_vecSlots := take dwDstOff (m_vecSlots n) @ moved @ drop (dwDstOff + dwCount) (m_vecSlots n)\<rparr>) s in
       if leaf then
         let s = upd_node src (\<lambda>n. n\<lparr>m_wNumKeys := (dwActCount + W32 - dwCount) mod 65536\<rparr>) s in
         (0, upd_node dst (\<lambda>n. n\<lparr>m_wNumKeys := (m_wNumKeys n + dwCount) mod 65536\<rparr>) s)
       else
         let s = fold (\<lambda>i. move_child dst src (i + dwSrcOff) (i + dwDstOff)) [0..<dwCount] s;
             s = upd_node src (\<lambda>n. n\<lparr>m_wNumKeys := (dwActCount + W32 - dwCount + 1) mod 65536\<rparr>) s;
             s = upd_node dst (\<lambda>n. n\<lparr>m_wNumKeys := (m_wNumKeys n + dwCount + W32 - 1) mod 65536\<rparr>) s;
             s = upd_node src (\<lambda>n. n\<lparr>m_wNumPtrs := (m_wNumPtrs n + W32 - dwCount) mod 65536\<rparr>) s in
         (0, upd_node dst (\<lambda>n. n\<lparr>m_wNumPtrs := (m_wNumPtrs n + dwCount) mod 65536\<rparr>) s))"

primrec replace_up :: "nat \<Rightarrow> fs_env \<Rightarrow> nat option \<Rightarrow> byte list \<Rightarrow> byte list \<Rightarrow> 'o dir \<Rightarrow> 'o dir run" where
  "replace_up 0 v pParent k nk s = Inl Fault_Block"
| "replace_up (Suc m) v pParent k nk s =
    (case pParent of
       None \<Rightarrow> Inr s
     | Some p \<Rightarrow>
         let n = dr_obj s p in
         if m_wNumKeys n = 0 then Inr s
         else (case BinSearch n k 0 (m_wNumKeys n - 1) of
             Inl x \<Rightarrow> Inl x
           | Inr iRet \<Rightarrow>
               if iRet < 0 then replace_up m v (m_pParent n) k nk s
               else map_sum id (\<lambda>_. safe_dirty v (m_wThisBNodeIdx n) (upd_node p (put_key (nat iRet) (COPY_KEY nk)) s))
                 (GetSlot (e_g v) n (nat iRet))))"

definition ReplaceNonLeafKey :: "nat \<Rightarrow> fs_env \<Rightarrow> nat \<Rightarrow> byte list \<Rightarrow> byte list \<Rightarrow> 'o dir \<Rightarrow> 'o dir run" where
  "ReplaceNonLeafKey m v this k nk s =
    (let n = dr_obj s this in if \<not> m_bLeaf n \<or> IsRoot n then Inr s else replace_up m v (m_pParent n) k nk s)"

definition InsertOnly :: "nat \<Rightarrow> fs_env \<Rightarrow> nat \<Rightarrow> keyptr_slot \<Rightarrow> 'o dir \<Rightarrow> (gint32 \<times> 'o dir) run" where
  "InsertOnly m v this pKey s =
    (let n = dr_obj s this; dwCount = m_wNumKeys n; dirty = (\<lambda>(ret, s). (ret, if SUCCEEDED ret then SetDirty (m_wThisBNodeIdx n) s else s)) in
     if dwCount = 0 then map_sum id dirty (InsertSlotAt v this 0 pKey s)
     else (case BinSearch n (szKey pKey) 0 (dwCount - 1) of
         Inl x \<Rightarrow> Inl x
       | Inr iRet \<Rightarrow>
           if iRet \<ge> 0 then Inr (- EEXIST, s)
           else let dwIdx = place_of iRet in
             if dwIdx > MAX_KEYS_PER_NODE (e_g v) then Inr (ERROR_FAIL, s)
             else (case (if dwIdx = 0 \<and> m_bLeaf n then map_sum id szKey (GetSlot (e_g v) n 0) else Inr []) of
                 Inl x \<Rightarrow> Inl x
               | Inr strOldKey \<Rightarrow>
                   map_sum id dirty (and_then (InsertSlotAt v this dwIdx pKey s)
                     (\<lambda>s. if dwIdx \<noteq> 0 then Inr (0, s)
                           else map_sum id (\<lambda>s. (0, s)) (ReplaceNonLeafKey m v this strOldKey (szKey pKey) s))))))"

section \<open>Splitting\<close>

text \<open>The first part of \<^verbatim>\<open>Split\<close>: the parent, a new root when the node is the root (\<open>bOld\<close> then stands for \<^verbatim>\<open>pOldRoot\<close>).\<close>

definition split_parent :: "fs_env \<Rightarrow> nat \<Rightarrow> 'o dir \<Rightarrow> (gint32 \<times> nat \<times> bool \<times> 'o dir) run" where
  "split_parent v this s =
    (case m_pParent (dr_obj s this) of
       Some p \<Rightarrow> Inr (0, p, False, s)
     | None \<Rightarrow> map_sum id (\<lambda>(ret, new, s). if ERROR ret then (ret, 0, False, s) else (0, new, True, ReplaceRootBNode v new s))
         (GetFreeBNode v False s))"

text \<open>The key that goes up: the parent gets the split key at the place of the node, and the key that was there belongs to the new
  sibling. The result has the place in the parent and the key for the sibling.\<close>

definition split_ascend :: "fs_env \<Rightarrow> nat \<Rightarrow> nat \<Rightarrow> bool \<Rightarrow> byte list \<Rightarrow> nat \<Rightarrow> 'o dir \<Rightarrow> (gint32 \<times> nat \<times> byte list \<times> 'o dir) run" where
  "split_ascend v this p bOld k dwSlotIdx s =
    (let dwChilds = m_wNumPtrs (dr_obj s p); none = szKey new_slot in
     if dwChilds = 0 then
       map_sum id (\<lambda>_.
         let s = upd_node p (\<lambda>n. IncChildCount (put_ptr 0 (m_wThisBNodeIdx (dr_obj s this)) (IncKeyCount (put_key 0 (COPY_KEY k) n)))) s in
         (0, 0, none, if bOld then snd (AddChildDirect p (m_wThisBNodeIdx (dr_obj s this)) s) else s))
       (GetSlot (e_g v) (dr_obj s p) 0)
     else if dwSlotIdx < dwChilds - 1 then
       map_sum id (\<lambda>ks. (0, dwSlotIdx, COPY_KEY (szKey ks), upd_node p (put_key dwSlotIdx (COPY_KEY k)) s))
         (GetSlot (e_g v) (dr_obj s p) dwSlotIdx)
     else if dwSlotIdx + 1 = dwChilds then
       map_sum id (\<lambda>_. (0, dwSlotIdx, CLEAR_KEY none, upd_node p (\<lambda>n. IncKeyCount (put_key dwSlotIdx (COPY_KEY k) n)) s))
         (GetSlot (e_g v) (dr_obj s p) dwSlotIdx)
     else Inr (ERROR_FAIL, dwSlotIdx, none, s))"

text \<open>What the new sibling takes over, and how the two are linked.\<close>

definition split_move :: "fs_env \<Rightarrow> nat \<Rightarrow> nat \<Rightarrow> 'o dir \<Rightarrow> (gint32 \<times> 'o dir) run" where
  "split_move v this sib s =
    (let n = dr_obj s this; leaf = m_bLeaf n; pos = SPLIT_POS (e_g v) leaf;
         (start, cnt) = (if leaf then (pos, (m_wNumKeys n + W32 - pos) mod W32)
           else (pos + 1, (m_wNumPtrs n + W32 - (pos + 1)) mod W32)) in
     and_then (Inr (MoveBNodeStore v sib this start cnt 0 s))
       (\<lambda>s. if leaf then
           let s = upd_node sib (\<lambda>n. n\<lparr>m_wNextLeaf := m_wNextLeaf (dr_obj s this)\<rparr>) s in
           Inr (0, upd_node this (\<lambda>n. n\<lparr>m_wNextLeaf := m_wThisBNodeIdx (dr_obj s sib)\<rparr>) s)
         else Inr (0, upd_node this (\<lambda>n. DecKeyCount (put_key pos (CLEAR_KEY (szKey (m_vecSlots n ! pos))) n)) s)))"

definition split_once :: "fs_env \<Rightarrow> nat \<Rightarrow> nat \<Rightarrow> 'o dir \<Rightarrow> (gint32 \<times> nat \<times> nat \<times> 'o dir) run" where
  "split_once v this dwSlotIdx s =
    (case split_parent v this s of
       Inl x \<Rightarrow> Inl x
     | Inr (ret, p, bOld, s) \<Rightarrow>
         if ERROR ret then Inr (ret, 0, 0, s)
         else (case GetSlot (e_g v) (dr_obj s this) (SPLIT_POS (e_g v) (m_bLeaf (dr_obj s this))) of
             Inl x \<Rightarrow> Inl x
           | Inr pSplitKs \<Rightarrow>
               (case split_ascend v this p bOld (szKey pSplitKs) (if bOld then 0 else dwSlotIdx) s of
                  Inl x \<Rightarrow> Inl x
                | Inr (ret, dwSlotIdx, k, s) \<Rightarrow>
                    if ERROR ret then Inr (ret, 0, 0, s)
                    else (case GetFreeBNode v (m_bLeaf (dr_obj s this)) s of
                        Inl x \<Rightarrow> Inl x
                      | Inr (ret, sib, s) \<Rightarrow>
                          if ERROR ret then Inr (ret, 0, 0, s)
                          else map_sum id (\<lambda>(ret, s). (ret, p, sib, s)) (and_then (split_move v this sib s)
                            (\<lambda>s. and_then (Inr (AddChildDirect p (m_wThisBNodeIdx (dr_obj s sib)) s))
                              (\<lambda>s. InsertSlotAt v p (dwSlotIdx + 1)
                                (new_slot\<lparr>szKey := k, sl_idx := m_wThisBNodeIdx (dr_obj s sib)\<rparr>) s)))))))"

text \<open>\<^verbatim>\<open>Split\<close>, which goes on with the parent when it has become too large.\<close>

primrec Split :: "nat \<Rightarrow> fs_env \<Rightarrow> nat \<Rightarrow> nat \<Rightarrow> 'o dir \<Rightarrow> (gint32 \<times> 'o dir) run" where
  "Split 0 v this dwSlotIdx s = Inl Fault_Block"
| "Split (Suc m) v this dwSlotIdx s =
    (if IsRoot (dr_obj s this) \<and> m_bLeaf (dr_obj s this) then Inr (ERROR_FAIL, s)
     else (case split_once v this dwSlotIdx s of
         Inl x \<Rightarrow> Inl x
       | Inr (ret, p, sib, s) \<Rightarrow>
           if ERROR ret then Inr (ret, s)
           else
             let dirty = (\<lambda>s. Inr (0, safe_dirty v (m_wThisBNodeIdx (dr_obj s sib)) (safe_dirty v (m_wThisBNodeIdx (dr_obj s p)) s))) in
             if m_wNumKeys (dr_obj s p) = MAX_PTRS_PER_NODE (e_g v) then
               (case m_pParent (dr_obj s p) of
                  None \<Rightarrow> and_then (Split m v p 0 s) dirty
                | Some _ \<Rightarrow>
                    (case GetParentSlotIdx p s of
                       None \<Rightarrow> Inr (- ENOENT, s)
                     | Some i \<Rightarrow> and_then (Split m v p i s) dirty))
             else dirty s))"

section \<open>Insertion and search in the tree\<close>

text \<open>
  \<^verbatim>\<open>Insert\<close>. The search among the keys of an inner node includes the place behind the last key, and the status of
  the insertion below is dropped: the result is the index.
\<close>

primrec Insert :: "nat \<Rightarrow> fs_env \<Rightarrow> nat \<Rightarrow> keyptr_slot \<Rightarrow> 'o dir \<Rightarrow> (gint32 \<times> 'o dir) run" where
  "Insert 0 v this pSlot s = Inl Fault_Block"
| "Insert (Suc m) v this pSlot s =
    (let n = dr_obj s this; dwCount = m_wNumKeys n in
     if \<not> m_bLeaf n then
       (case BinSearch n (szKey pSlot) 0 dwCount of
          Inl x \<Rightarrow> Inl x
        | Inr ret \<Rightarrow>
            let ret = (if ret < 0 then place_of ret else nat ret) in
            (case CBPlusNode_GetChild this ret s of
               None \<Rightarrow> Inr (- EFAULT, s)
             | Some c \<Rightarrow> map_sum id (\<lambda>(_, s). (int ret, s)) (Insert m v c pSlot s)))
     else if dwCount \<noteq> MAX_KEYS_PER_NODE (e_g v) then InsertOnly m v this pSlot s
     else if IsRoot n then
       and_then (InsertOnly m v this pSlot s)
         (\<lambda>s. case GetFreeBNode v False s of
            Inl x \<Rightarrow> Inl x
          | Inr (ret, new, s) \<Rightarrow>
              if ERROR ret then Inr (ret, s)
              else let old = m_pRootNode s; s = ReplaceRootBNode v new s in
                and_then (Inr (AddChildDirect new (m_wThisBNodeIdx (dr_obj s old)) s)) (\<lambda>s. Split m v this 0 s))
     else
       and_then (InsertOnly m v this pSlot s)
         (\<lambda>s. case GetParentSlotIdx this s of None \<Rightarrow> Inr (- ENOENT, s) | Some i \<Rightarrow> Split m v this i s))"

text \<open>The way down of \<^verbatim>\<open>SearchNoLock\<close>: the node where the search ends.\<close>

primrec search_down :: "nat \<Rightarrow> byte list \<Rightarrow> nat \<Rightarrow> 'o dir \<Rightarrow> (gint32 \<times> nat) run" where
  "search_down 0 k i s = Inl Fault_Block"
| "search_down (Suc m) k i s =
    (let n = dr_obj s i in
     if m_bLeaf n \<or> m_wNumKeys n = 0 then Inr (0, i)
     else (case BinSearch n k 0 (m_wNumKeys n - 1) of
         Inl x \<Rightarrow> Inl x
       | Inr r \<Rightarrow>
           if r \<ge> 0 then (case CBPlusNode_GetChild i (nat r + 1) s of None \<Rightarrow> Inl Fault_Null | Some c \<Rightarrow> search_down m k c s)
           else (case CBPlusNode_GetChild i (place_of r) s of None \<Rightarrow> Inr (- EFAULT, i) | Some c \<Rightarrow> search_down m k c s)))"

text \<open>\<^verbatim>\<open>SearchNoLock\<close>: the status, the inode of the file and the node. A file that is not in memory is made and
  loaded: \<open>mk\<close> is the status of \<^verbatim>\<open>CFileImage::Create\<close>, which sets the caller's pointer when it succeeds, and \<open>load\<close> that of \<^verbatim>\<open>Reload\<close>. A file whose
  reload fails is not recorded, but the pointer stays set.\<close>

definition SearchNoLock :: "nat \<Rightarrow> fs_env \<Rightarrow> (keyptr_slot \<Rightarrow> gint32) \<Rightarrow> (keyptr_slot \<Rightarrow> gint32) \<Rightarrow> byte list \<Rightarrow> 'o dir \<Rightarrow> (gint32 \<times> nat option \<times> nat option \<times> 'o dir) run" where
  "SearchNoLock m v mk load k s =
    (case search_down m k (m_pRootNode s) s of
       Inl x \<Rightarrow> Inl x
     | Inr (ret, i) \<Rightarrow>
         if ERROR ret then Inr (ret, None, None, s)
         else
           let n = dr_obj s i in
           if m_wNumKeys n = 0 then Inr (ERROR_FALSE, None, Some i, s)
           else (case BinSearch n k 0 (m_wNumKeys n - 1) of
               Inl x \<Rightarrow> Inl x
             | Inr r \<Rightarrow>
                 if r < 0 then Inr (ERROR_FALSE, None, Some i, s)
                 else (case GetSlot (e_g v) n (nat r) of
                     Inl x \<Rightarrow> Inl x
                   | Inr pks \<Rightarrow>
                       if sl_idx pks \<in> m_mapFiles s then Inr (0, Some (sl_idx pks), Some i, s)
                       else if ERROR (mk pks) then Inr (mk pks, None, Some i, s)
                       else if ERROR (load pks) then Inr (load pks, Some (sl_idx pks), Some i, s)
                       else Inr (0, Some (sl_idx pks), Some i, s\<lparr>m_mapFiles := insert (sl_idx pks) (m_mapFiles s)\<rparr>))))"

section \<open>Listing\<close>

primrec first_leaf :: "nat \<Rightarrow> nat option \<Rightarrow> 'o dir \<Rightarrow> nat option run" where
  "first_leaf 0 pCurNode s = Inl Fault_Block"
| "first_leaf (Suc m) pCurNode s =
    (case pCurNode of
       None \<Rightarrow> Inr None
     | Some i \<Rightarrow> if m_bLeaf (dr_obj s i) then Inr (Some i) else first_leaf m (CBPlusNode_GetChild i 0 s) s)"

primrec get_slots :: "geom \<Rightarrow> bnode \<Rightarrow> nat list \<Rightarrow> keyptr_slot list run" where
  "get_slots g n [] = Inr []"
| "get_slots g n (i # is) =
    (case GetSlot g n i of Inl x \<Rightarrow> Inl x | Inr s \<Rightarrow> map_sum id ((#) s) (get_slots g n is))"

primrec list_leaves :: "nat \<Rightarrow> fs_env \<Rightarrow> nat option \<Rightarrow> 'o dir \<Rightarrow> keyptr_slot list run" where
  "list_leaves 0 v pCurNode s = Inl Fault_Block"
| "list_leaves (Suc m) v pCurNode s =
    (case pCurNode of
       None \<Rightarrow> Inr []
     | Some i \<Rightarrow>
         let n = dr_obj s i in
         (case get_slots (e_g v) n [0..<m_wNumKeys n] of
            Inl x \<Rightarrow> Inl x
          | Inr es \<Rightarrow>
              if m_wNextLeaf n = INVALID_BNODE_IDX then Inr es
              else map_sum id ((@) es) (list_leaves m v (GetChildDirect (m_wNextLeaf n) s) s)))"

definition CDirImage_ListDir :: "nat \<Rightarrow> fs_env \<Rightarrow> 'o dir \<Rightarrow> (gint32 \<times> keyptr_slot list \<times> 'o dir) run" where
  "CDirImage_ListDir m v s =
    (if m_dwState (dr_img s) = FStopped then Inr (ERROR_STATE, [], s)
     else case first_leaf m (Some (m_pRootNode s)) s of
       Inl x \<Rightarrow> Inl x
     | Inr i \<Rightarrow> map_sum id (\<lambda>es. (0, es, s\<lparr>dr_img := touch_atime (e_now v) (dr_img s)\<rparr>)) (list_leaves m v i s))"

section \<open>Rebalancing\<close>

text \<open>\<^verbatim>\<open>StealFromRight\<close>: the first slot of the right child goes to the left one.\<close>

definition StealFromRight :: "nat \<Rightarrow> fs_env \<Rightarrow> nat \<Rightarrow> nat \<Rightarrow> 'o dir \<Rightarrow> (gint32 \<times> 'o dir) run" where
  "StealFromRight m v this i s =
    (let g = e_g v; done = (\<lambda>l r s. (0, safe_dirty v (m_wThisBNodeIdx (dr_obj s l)) (safe_dirty v (m_wThisBNodeIdx (dr_obj s r)) s))) in
     if i \<ge> MAX_KEYS_PER_NODE g then Inr (- EINVAL, s)
     else case (CBPlusNode_GetChild this i s, CBPlusNode_GetChild this (i + 1) s) of
       (Some l, Some r) \<Rightarrow>
         if m_bLeaf (dr_obj s r) then
           let (ret, oKey, n) = RemoveSlotAt g 0 (dr_obj s r) in
           if ERROR ret then Inr (ret, s)
           else
             let s = safe_dirty v (m_wThisBNodeIdx n) (upd_node r (\<lambda>_. n) s) in
             (case GetSlot g n 0 of
                Inl x \<Rightarrow> Inl x
              | Inr pRightKs \<Rightarrow>
                  let s = upd_node l (\<lambda>n. snd (AppendSlot g oKey n)) s in
                  map_sum id (done l r) (ReplaceNonLeafKey m v r (szKey oKey) (szKey pRightKs) s))
         else
           (case (GetSlot g (dr_obj s this) i, GetSlot g (dr_obj s r) 0) of
              (Inr pParentKs, Inr pRightKs) \<Rightarrow>
                let (ret, s) = RemoveChildDirect (sl_idx pRightKs) s in
                if ERROR ret then Inr (ret, s)
                else
                  let s = snd (AddChildDirect l (sl_idx pRightKs) s); (ret, oKey, n) = RemoveSlotAt g 0 (dr_obj s r) in
                  if ERROR ret then Inr (ret, s)
                  else
                    let s = safe_dirty v (m_wThisBNodeIdx n) (upd_node r (\<lambda>_. n) s);
                        s = upd_node this (put_key i (COPY_KEY (szKey oKey))) s;
                        s = upd_node l (\<lambda>n. snd (AppendSlot g (oKey\<lparr>szKey := COPY_KEY (szKey pParentKs)\<rparr>) n)) s in
                    Inr (done l r s)
            | _ \<Rightarrow> Inl Fault_Null)
     | _ \<Rightarrow> Inr (- ENOENT, s))"

text \<open>\<^verbatim>\<open>StealFromLeft\<close>: the last slot of the left child goes to the right one. The status of removing it is not looked at.\<close>

definition StealFromLeft :: "nat \<Rightarrow> fs_env \<Rightarrow> nat \<Rightarrow> nat \<Rightarrow> 'o dir \<Rightarrow> (gint32 \<times> 'o dir) run" where
  "StealFromLeft m v this i s =
    (let g = e_g v; done = (\<lambda>l r s. (0, safe_dirty v (m_wThisBNodeIdx (dr_obj s l)) (safe_dirty v (m_wThisBNodeIdx (dr_obj s r)) s))) in
     if i = 0 \<or> i \<ge> MAX_PTRS_PER_NODE g then Inr (- EINVAL, s)
     else case (CBPlusNode_GetChild this (i - 1) s, CBPlusNode_GetChild this i s) of
       (Some l, Some r) \<Rightarrow>
         let nl = dr_obj s l; last = m_wNumKeys nl - 1 in
         (case (GetSlot g (dr_obj s this) (i - 1), GetSlot g nl last) of
            (Inr pParentKs, Inr pLeftKs) \<Rightarrow>
              if m_bLeaf nl then
                (case GetSlot g (dr_obj s r) 0 of
                   Inl x \<Rightarrow> Inl x
                 | Inr old \<Rightarrow>
                     let oSteal = pLeftKs\<lparr>szKey := COPY_KEY (szKey pLeftKs)\<rparr>; s = upd_node l DecKeyCount s in
                     (case InsertSlotAt v r 0 oSteal s of
                        Inl x \<Rightarrow> Inl x
                      | Inr (_, s) \<Rightarrow> map_sum id (done l r) (ReplaceNonLeafKey m v r (szKey old) (szKey oSteal) s)))
              else
                (case GetSlot g nl (m_wNumKeys nl) of
                   Inl x \<Rightarrow> Inl x
                 | Inr pLeftKs0 \<Rightarrow>
                     let oSteal = new_slot\<lparr>szKey := COPY_KEY (szKey pParentKs), sl_idx := sl_idx pLeftKs0\<rparr>;
                         s = upd_node this (put_key (i - 1) (COPY_KEY (szKey pLeftKs))) s;
                         (ret, s) = RemoveChildDirect (sl_idx oSteal) s in
                     if ERROR ret then Inr (ret, s)
                     else
                       let s = snd (AddChildDirect r (sl_idx oSteal) s);
                           s = upd_node l (put_key last (CLEAR_KEY (szKey pLeftKs))) s;
                           (ret, _, n) = RemoveSlotAt g (m_wNumKeys (dr_obj s l)) (dr_obj s l);
                           s = (if SUCCEEDED ret then safe_dirty v (m_wThisBNodeIdx n) (upd_node l (\<lambda>_. n) s) else s) in
                       map_sum id (\<lambda>(_, s). done l r s) (InsertSlotAt v r 0 oSteal s))
          | _ \<Rightarrow> Inl Fault_Null)
     | _ \<Rightarrow> Inr (- ENOENT, s))"

text \<open>\<^verbatim>\<open>ShiftKeyPtr\<close> removes the key \<open>dwIdx\<close> and the pointer behind it; it reads the slots behind the used ones.\<close>

definition ShiftKeyPtr :: "geom \<Rightarrow> nat \<Rightarrow> bnode \<Rightarrow> gint32 \<times> bnode" where
  "ShiftKeyPtr g dwIdx n =
    (let dwCount = m_wNumKeys n; vec = m_vecSlots n in
     if dwIdx \<ge> dwCount \<or> m_bLeaf n then (- EINVAL, n)
     else
       let keys = fold (\<lambda>i v. v[i := (v ! i)\<lparr>szKey := COPY_KEY (szKey (v ! (i + 1)))\<rparr>]) [dwIdx..<dwCount] vec;
           ptrs = fold (\<lambda>i v. v[i := (v ! i)\<lparr>sl_idx := sl_idx (v ! (i + 1))\<rparr>]) [dwIdx + 1..<dwCount + 1] keys in
       (0, DecChildCount (DecKeyCount (n\<lparr>m_vecSlots := ptrs\<rparr>))))"

definition FreeRootBNode :: "fs_env \<Rightarrow> 'o dir \<Rightarrow> (gint32 \<times> 'o dir) run" where
  "FreeRootBNode v s =
    and_then (dir_truncate v (BNODE_SIZE (e_g v)) s)
      (\<lambda>s. let s = upd_node 0 (\<lambda>_. CBPlusNode (e_g v) 0) (s\<lparr>m_pRootNode := 0\<rparr>) in
        and_then (CBPlusNode_Format v 0 s)
          (\<lambda>s. let s = (set_root_inode 0 s)\<lparr>m_vecFreeBNodes := [], m_mapChilds := {}\<rparr> in
            if e_safe v then Inr (0, SetDirty 0 (SetDirty INODE_DIRTY s))
            else
              let (ret, d) = CFileImage_Flush (e_g v) FLAG_FLUSH_DEFAULT (e_junk v) (dr_img s) (dr_dev s); s = s\<lparr>dr_dev := d\<rparr> in
              if ERROR ret then Inr (0, s)
              else map_sum id (\<lambda>(_, s). (0, s)) (CBPlusNode_Format v 0 s)))"

text \<open>\<^verbatim>\<open>MergeChilds\<close>: the successor goes into its predecessor. \<open>reb\<close> is the rebalancing of the node itself.\<close>

definition merge_move :: "fs_env \<Rightarrow> nat \<Rightarrow> nat \<Rightarrow> nat \<Rightarrow> nat \<Rightarrow> 'o dir \<Rightarrow> (gint32 \<times> 'o dir) run" where
  "merge_move v this iPred p q s =
    (if m_bLeaf (dr_obj s p) then
       and_then (Inr (MoveBNodeStore v p q 0 (m_wNumKeys (dr_obj s q)) (m_wNumKeys (dr_obj s p)) s))
         (\<lambda>s. Inr (0, upd_node p (\<lambda>n. n\<lparr>m_wNextLeaf := m_wNextLeaf (dr_obj s q)\<rparr>) s))
     else
       (case (GetSlot (e_g v) (dr_obj s this) iPred, GetSlot (e_g v) (dr_obj s p) (m_wNumKeys (dr_obj s p))) of
          (Inr pPredKs, Inr _) \<Rightarrow>
            let s = upd_node p (\<lambda>n. IncKeyCount (put_key (m_wNumKeys n) (COPY_KEY (szKey pPredKs)) n)) s in
            Inr (MoveBNodeStore v p q 0 (m_wNumKeys (dr_obj s q) + 1) (m_wNumKeys (dr_obj s p)) s)
        | _ \<Rightarrow> Inl Fault_Null))"

definition MergeChilds :: "(nat \<Rightarrow> 'o dir \<Rightarrow> (gint32 \<times> 'o dir) run) \<Rightarrow> fs_env \<Rightarrow> nat \<Rightarrow> nat \<Rightarrow> nat \<Rightarrow> 'o dir \<Rightarrow> (gint32 \<times> 'o dir) run" where
  "MergeChilds reb v this iPred iSucc s =
    (let g = e_g v in
     if iPred \<ge> MAX_PTRS_PER_NODE g - 1 \<or> iSucc \<le> iPred \<or> iSucc \<ge> MAX_PTRS_PER_NODE g then Inr (- EINVAL, s)
     else case (CBPlusNode_GetChild this iPred s, CBPlusNode_GetChild this iSucc s) of
       (Some p, Some q) \<Rightarrow>
         if m_wNumKeys (dr_obj s p) + m_wNumKeys (dr_obj s q) + (if m_bLeaf (dr_obj s q) then 0 else 1) > MAX_KEYS_PER_NODE g
         then Inr (- EOVERFLOW, s)
         else and_then (merge_move v this iPred p q s)
           (\<lambda>s. case GetSlot g (dr_obj s this) iSucc of
              Inl x \<Rightarrow> Inl x
            | Inr pSuccKs \<Rightarrow>
                let (ret, n) = ShiftKeyPtr g iPred (dr_obj s this) in
                if ERROR ret then Inr (ret, s)
                else
                  let (ret, s) = RemoveChildDirect (sl_idx pSuccKs) (upd_node this (\<lambda>_. n) s) in
                  if ERROR ret then Inl Fault_Null
                  else and_then (dir_PutFreeBNode v (sl_idx pSuccKs) s)
                    (\<lambda>s. if m_wNumKeys (dr_obj s this) \<ge> MIN_KEYS g (IsRoot (dr_obj s this)) then Inr (0, s) else reb this s))
     | _ \<Rightarrow> Inl Fault_Null)"

definition RebalanceChild :: "nat \<Rightarrow> (nat \<Rightarrow> 'o dir \<Rightarrow> (gint32 \<times> 'o dir) run) \<Rightarrow> fs_env \<Rightarrow> nat \<Rightarrow> nat \<Rightarrow> 'o dir \<Rightarrow> (gint32 \<times> 'o dir) run" where
  "RebalanceChild m reb v this idx s =
    (let n = dr_obj s this; dwLimit = MIN_KEYS (e_g v) False; dwCount = m_wNumKeys n;
         rich = (\<lambda>c. case c of None \<Rightarrow> False | Some i \<Rightarrow> m_wNumKeys (dr_obj s i) > dwLimit);
         after = (\<lambda>dirty (ret, s). (ret,
           if SUCCEEDED ret then safe_dirty v (m_wThisBNodeIdx n) (case dirty of None \<Rightarrow> s | Some c \<Rightarrow> safe_dirty v (m_wThisBNodeIdx (dr_obj s c)) s)
           else s)) in
     if idx = 0 \<and> dwCount = 1 \<and> \<not> IsRoot n then Inr (ERROR_FAIL, s)
     else if idx < dwCount then
       (if rich (CBPlusNode_GetChild this (idx + 1) s) then map_sum id (after None) (StealFromRight m v this idx s)
        else map_sum id (after (CBPlusNode_GetChild this idx s)) (MergeChilds reb v this idx (idx + 1) s))
     else if idx \<noteq> dwCount then Inr (- ERANGE, s)
     else if rich (CBPlusNode_GetChild this (idx - 1) s) then map_sum id (after None) (StealFromLeft m v this idx s)
     else map_sum id (after (CBPlusNode_GetChild this (idx - 1) s)) (MergeChilds reb v this (idx - 1) idx s))"

primrec Rebalance :: "nat \<Rightarrow> fs_env \<Rightarrow> nat \<Rightarrow> 'o dir \<Rightarrow> (gint32 \<times> 'o dir) run" where
  "Rebalance 0 v this s = Inl Fault_Block"
| "Rebalance (Suc m) v this s =
    (let n = dr_obj s this in
     if IsRoot n \<and> m_bLeaf n then FreeRootBNode v s
     else if IsRoot n then
       (if m_wNumKeys n \<noteq> 0 then Inr (ERROR_FAIL, s)
        else
          let new = sl_idx (m_vecSlots n ! 0); (ret, s) = CBPlusNode_RemoveChild this 0 s in
          if ERROR ret then Inr (ret, s)
          else let old = m_pRootNode s in dir_PutFreeBNode v old (ReplaceRootBNode v new s))
     else
       (case (m_pParent n, GetParentSlotIdx this s) of
          (Some p, Some i) \<Rightarrow> RebalanceChild m (Rebalance m v) v p i s
        | _ \<Rightarrow> Inr (- ENOENT, s)))"

section \<open>Removing\<close>

text \<open>\<^verbatim>\<open>GetSuccKey( 0 )\<close>: the first key below a node, or behind it when the leaves there are empty.\<close>

primrec succ_leaf :: "nat \<Rightarrow> nat option \<Rightarrow> 'o dir \<Rightarrow> byte list option run" where
  "succ_leaf 0 i s = Inl Fault_Block"
| "succ_leaf (Suc m) i s =
    (case i of
       None \<Rightarrow> Inr None
     | Some i \<Rightarrow>
         let n = dr_obj s i in
         if m_wNumKeys n > 0 then map_sum id Some (GetKey n 0)
         else if m_wNextLeaf n = INVALID_BNODE_IDX then Inr None
         else succ_leaf m (GetChildDirect (m_wNextLeaf n) s) s)"

definition GetSuccKey :: "nat \<Rightarrow> nat \<Rightarrow> 'o dir \<Rightarrow> byte list option run" where
  "GetSuccKey m i s = (case first_leaf m (Some i) s of Inl x \<Rightarrow> Inl x | Inr l \<Rightarrow> succ_leaf m l s)"

text \<open>
  When the node was freed by the removal below it, the key is looked for again from the root. A key not found at the first node ends the search, since the
  old index \<open>idx\<close> is negated instead of the new one; only the index 0 leads on, to the first child.
\<close>

primrec refresh_key :: "nat \<Rightarrow> byte list \<Rightarrow> nat \<Rightarrow> nat \<Rightarrow> nat option \<Rightarrow> 'o dir \<Rightarrow> 'o dir run" where
  "refresh_key 0 k idx suc cur s = Inl Fault_Block"
| "refresh_key (Suc m) k idx suc cur s =
    (case cur of
       None \<Rightarrow> Inr s
     | Some i \<Rightarrow>
         let n = dr_obj s i in
         if m_bLeaf n then Inr s
         else (case BinSearch n k 0 (m_wNumKeys n - 1) of
             Inl x \<Rightarrow> Inl x
           | Inr iRet \<Rightarrow>
               if iRet < 0 then (if idx = 0 then refresh_key m k idx suc (CBPlusNode_GetChild i 0 s) s else Inr s)
               else (case (if m_bFreed (dr_obj s suc) then CBPlusNode_GetChild i (idx + 1) s else Some suc) of
                   None \<Rightarrow> Inr s
                 | Some c \<Rightarrow> map_sum id (\<lambda>pKey. case pKey of None \<Rightarrow> s | Some pk \<Rightarrow> upd_node i (put_key (nat iRet) (COPY_KEY pk)) s)
                     (GetSuccKey m c s))))"

text \<open>\<^verbatim>\<open>RemoveFile\<close>: the status and the inode that was removed. \<open>chk\<close> is the status of loading the file and of the tests on it
  (a directory that is not empty, a file that is being removed).\<close>

primrec RemoveFile :: "nat \<Rightarrow> fs_env \<Rightarrow> (keyptr_slot \<Rightarrow> gint32) \<Rightarrow> nat \<Rightarrow> byte list \<Rightarrow> 'o dir \<Rightarrow> (gint32 \<times> nat option \<times> 'o dir) run" where
  "RemoveFile 0 v chk this k s = Inl Fault_Block"
| "RemoveFile (Suc m) v chk this k s =
    (let n = dr_obj s this; g = e_g v in
     if char_at k = 0 then Inr (- EINVAL, None, s)
     else if m_wNumKeys n = 0 then Inr (- ENOENT, None, s)
     else (case BinSearch n k 0 (m_wNumKeys n - 1) of
         Inl x \<Rightarrow> Inl x
       | Inr r \<Rightarrow>
           if r \<ge> 0 \<and> m_bLeaf n then
             (case GetSlot g n (nat r) of
                Inl x \<Rightarrow> Inl x
              | Inr pSlot \<Rightarrow>
                  if ERROR (chk pSlot) then Inr (chk pSlot, None, s)
                  else
                    let s = s\<lparr>m_mapFiles := m_mapFiles s - {sl_idx pSlot}\<rparr>; (ret, _, n) = RemoveSlotAt g (nat r) n;
                        s = (if SUCCEEDED ret then safe_dirty v (m_wThisBNodeIdx n) (upd_node this (\<lambda>_. n) s) else s) in
                    if m_wNumKeys n \<ge> MIN_KEYS g False \<or> IsRoot n then Inr (0, Some (sl_idx pSlot), s)
                    else map_sum id (\<lambda>(ret, s). (ret, Some (sl_idx pSlot), s)) (Rebalance m v this s))
           else if r \<ge> 0 then
             (case CBPlusNode_GetChild this (nat r + 1) s of
                None \<Rightarrow> Inl Fault_Null
              | Some suc \<Rightarrow>
                  (case RemoveFile m v chk suc k s of
                     Inl x \<Rightarrow> Inl x
                   | Inr (ret, f, s) \<Rightarrow>
                       if ERROR ret then Inr (ret, f, s)
                       else if m_bFreed (dr_obj s this) then
                         map_sum id (\<lambda>s. (ret, f, safe_dirty v (m_wThisBNodeIdx n) s)) (refresh_key m k (nat r) suc (Some (m_pRootNode s)) s)
                       else (case CBPlusNode_GetChild this (nat r + 1) s of
                           None \<Rightarrow> Inr (ret, f, safe_dirty v (m_wThisBNodeIdx n) s)
                         | Some suc \<Rightarrow>
                             (case GetSuccKey m suc s of
                                Inl x \<Rightarrow> Inl x
                              | Inr None \<Rightarrow> Inl Fault_Null
                              | Inr (Some pk) \<Rightarrow> Inr (ret, f, safe_dirty v (m_wThisBNodeIdx n) (upd_node this (put_key (nat r) (COPY_KEY pk)) s))))))
           else if m_bLeaf n then Inr (- ENOENT, None, s)
           else (case CBPlusNode_GetChild this (place_of r) s of None \<Rightarrow> Inl Fault_Null | Some c \<Rightarrow> RemoveFile m v chk c k s)))"

end
