(* ===== verification/DirView.thy ===== *)
theory DirView
  imports DirTree
begin

text \<open>
  The shape of the B+ tree of a directory, and search. Each node has a level and a range of keys (\<open>shape\<close>): the children of an
  inner node divide its range at its keys, and a leaf holds the entries whose keys lie in its range. From this follow that a search ends in the only
  leaf that can hold a key, and that the chain of leaves lists all entries in order.
\<close>

section \<open>The invariant\<close>

record shape =
  lv :: "nat \<Rightarrow> nat"
  from_key :: "nat \<Rightarrow> byte list"
  to_key :: "nat \<Rightarrow> byte list option"

definition below :: "byte list \<Rightarrow> byte list option \<Rightarrow> bool" where
  "below k h = (case h of None \<Rightarrow> True | Some b \<Rightarrow> k < b)"

definition in_node :: "shape \<Rightarrow> nat \<Rightarrow> byte list \<Rightarrow> bool" where
  "in_node G i k \<longleftrightarrow> from_key G i \<le> k \<and> below k (to_key G i)"

abbreviation nptr :: "bnode \<Rightarrow> nat \<Rightarrow> nat" where
  "nptr n j \<equiv> sl_idx (m_vecSlots n ! j)"

definition child_from :: "shape \<Rightarrow> bnode \<Rightarrow> nat \<Rightarrow> nat \<Rightarrow> byte list" where
  "child_from G n i j = (if j = 0 then from_key G i else nkey n (j - 1))"

definition child_to :: "shape \<Rightarrow> bnode \<Rightarrow> nat \<Rightarrow> nat \<Rightarrow> byte list option" where
  "child_to G n i j = (if j = m_wNumKeys n then to_key G i else Some (nkey n j))"

definition keys_ok :: "geom \<Rightarrow> shape \<Rightarrow> nat set \<Rightarrow> bnode \<Rightarrow> nat \<Rightarrow> bool" where
  "keys_ok g G fat n i \<longleftrightarrow>
    m_wThisBNodeIdx n = i \<and> i < INVALID_BNODE_IDX \<and> length (m_vecSlots n) = MAX_PTRS_PER_NODE g + 1 \<and> keys_sorted n \<and>
    m_wNumKeys n \<le> (if i \<in> fat then MAX_PTRS_PER_NODE g else MAX_KEYS_PER_NODE g) \<and>
    (\<forall>j<m_wNumKeys n. in_node G i (nkey n j) \<and> nkey n j \<noteq> []) \<and> (m_bLeaf n \<longleftrightarrow> lv G i = 0)"

definition leaf_ok :: "shape \<Rightarrow> nat set \<Rightarrow> (nat \<Rightarrow> bnode) \<Rightarrow> nat \<Rightarrow> bool" where
  "leaf_ok G M D i \<longleftrightarrow>
    (case to_key G i of
       None \<Rightarrow> m_wNextLeaf (D i) = INVALID_BNODE_IDX
     | Some k \<Rightarrow> m_wNextLeaf (D i) \<in> M \<and> m_bLeaf (D (m_wNextLeaf (D i))) \<and> from_key G (m_wNextLeaf (D i)) = k)"

definition inner_ok :: "shape \<Rightarrow> nat set \<Rightarrow> nat set \<Rightarrow> (nat \<Rightarrow> bnode) \<Rightarrow> nat \<Rightarrow> bool" where
  "inner_ok G thin M D i \<longleftrightarrow>
    m_wNumPtrs (D i) = m_wNumKeys (D i) + 1 \<and> (m_wNumKeys (D i) = 0 \<longrightarrow> i \<in> thin) \<and>
    (\<forall>j<m_wNumKeys (D i). from_key G i < nkey (D i) j) \<and>
    (\<forall>j\<le>m_wNumKeys (D i). nptr (D i) j \<in> M \<and> m_pParent (D (nptr (D i) j)) = Some i \<and> lv G (nptr (D i) j) + 1 = lv G i \<and>
      from_key G (nptr (D i) j) = child_from G (D i) i j \<and> to_key G (nptr (D i) j) = child_to G (D i) i j)"

definition place_ok :: "shape \<Rightarrow> nat set \<Rightarrow> (nat \<Rightarrow> bnode) \<Rightarrow> nat \<Rightarrow> nat \<Rightarrow> bool" where
  "place_ok G M D r i \<longleftrightarrow>
    (if i = r then m_pParent (D i) = None \<and> from_key G i = [] \<and> to_key G i = None
     else lv G i < lv G r \<and> (\<exists>p\<in>M. m_pParent (D i) = Some p \<and> \<not> m_bLeaf (D p) \<and> (\<exists>j\<le>m_wNumKeys (D p). nptr (D p) j = i)))"

definition tree_ok :: "geom \<Rightarrow> shape \<Rightarrow> nat set \<Rightarrow> nat set \<Rightarrow> nat set \<Rightarrow> (nat \<Rightarrow> bnode) \<Rightarrow> nat \<Rightarrow> bool" where
  "tree_ok g G fat thin M D r \<longleftrightarrow> r \<in> M \<and> finite M \<and>
    (\<forall>i\<in>M. keys_ok g G fat (D i) i \<and> (if m_bLeaf (D i) then leaf_ok G M D i else inner_ok G thin M D i) \<and> place_ok G M D r i)"

lemma tree_okD:
  assumes "tree_ok g G fat thin M D r"
  shows "r \<in> M" "finite M" "i \<in> M \<Longrightarrow> keys_ok g G fat (D i) i" "i \<in> M \<Longrightarrow> m_bLeaf (D i) \<Longrightarrow> leaf_ok G M D i"
    "i \<in> M \<Longrightarrow> \<not> m_bLeaf (D i) \<Longrightarrow> inner_ok G thin M D i" "i \<in> M \<Longrightarrow> place_ok G M D r i"
  using assms by (auto simp: tree_ok_def split: if_splits)

lemma keys_okD:
  assumes "keys_ok g G fat n i"
  shows "m_wThisBNodeIdx n = i" "i < INVALID_BNODE_IDX" "length (m_vecSlots n) = MAX_PTRS_PER_NODE g + 1" "keys_sorted n"
    "m_wNumKeys n \<le> MAX_PTRS_PER_NODE g" "i \<notin> fat \<Longrightarrow> m_wNumKeys n \<le> MAX_KEYS_PER_NODE g"
    "j < m_wNumKeys n \<Longrightarrow> in_node G i (nkey n j)" "j < m_wNumKeys n \<Longrightarrow> nkey n j \<noteq> []" "m_bLeaf n \<longleftrightarrow> lv G i = 0"
  using assms by (auto simp: keys_ok_def MAX_KEYS_PER_NODE_def split: if_splits)

lemma inner_okD:
  assumes "inner_ok G thin M D i"
  shows "m_wNumPtrs (D i) = m_wNumKeys (D i) + 1" "m_wNumKeys (D i) = 0 \<Longrightarrow> i \<in> thin"
    "j < m_wNumKeys (D i) \<Longrightarrow> from_key G i < nkey (D i) j"
    "j \<le> m_wNumKeys (D i) \<Longrightarrow> nptr (D i) j \<in> M" "j \<le> m_wNumKeys (D i) \<Longrightarrow> m_pParent (D (nptr (D i) j)) = Some i"
    "j \<le> m_wNumKeys (D i) \<Longrightarrow> lv G (nptr (D i) j) + 1 = lv G i"
    "j \<le> m_wNumKeys (D i) \<Longrightarrow> from_key G (nptr (D i) j) = child_from G (D i) i j"
    "j \<le> m_wNumKeys (D i) \<Longrightarrow> to_key G (nptr (D i) j) = child_to G (D i) i j"
  using assms by (auto simp: inner_ok_def)

lemma below_trans: "k' \<le> k \<Longrightarrow> below k h \<Longrightarrow> below k' h"
  by (auto simp: below_def split: option.splits)

text \<open>The range of a child lies in that of its node.\<close>

lemma child_in_node:
  assumes "keys_ok g G fat (D i) i" "inner_ok G thin M D i" "j \<le> m_wNumKeys (D i)" "in_node G (nptr (D i) j) k"
  shows "in_node G i k"
proof -
  note I = inner_okD[OF assms(2)] and K = keys_okD[OF assms(1)]
  have "from_key G i \<le> k"
  proof (cases "j = 0")
    case False
    have "from_key G i < nkey (D i) (j - 1)" using I(3)[of "j - 1"] assms(3) False by simp
    also have "\<dots> \<le> k" using assms(4) I(7)[OF assms(3)] False by (simp add: in_node_def child_from_def)
    finally show ?thesis by simp
  qed (use assms(4) I(7)[OF assms(3)] in \<open>simp add: in_node_def child_from_def\<close>)
  moreover have "below k (to_key G i)"
    using assms(3,4) I(8)[OF assms(3)] K(7)[of j] below_trans[of k "nkey (D i) j" "to_key G i"]
    by (auto simp: in_node_def child_to_def below_def split: if_splits)
  ultimately show ?thesis by (simp add: in_node_def)
qed

lemma keys_less: "keys_sorted n \<Longrightarrow> i < j \<Longrightarrow> j < m_wNumKeys n \<Longrightarrow> nkey n i < nkey n j"
  by (simp add: keys_sorted_def)

text \<open>A key lies in the range of one child only.\<close>

lemma child_unique:
  assumes "keys_ok g G fat (D i) i" "inner_ok G thin M D i" "j \<le> m_wNumKeys (D i)" "j' \<le> m_wNumKeys (D i)"
    and "in_node G (nptr (D i) j) k" "in_node G (nptr (D i) j') k"
  shows "j = j'"
proof (rule ccontr)
  note I = inner_okD[OF assms(2)] and K = keys_okD[OF assms(1)]
  have no: False if "a < b" "b \<le> m_wNumKeys (D i)" "in_node G (nptr (D i) a) k" "in_node G (nptr (D i) b) k" for a b
  proof -
    have "k < nkey (D i) a" using that I(8)[of a] by (simp add: in_node_def child_to_def below_def)
    also have "nkey (D i) a \<le> nkey (D i) (b - 1)"
    proof (cases "a = b - 1")
      case False
      hence "a < b - 1" "b - 1 < m_wNumKeys (D i)" using that(1,2) by linarith+
      thus ?thesis using keys_less[OF K(4)] less_imp_le by blast
    qed simp
    also have "\<dots> \<le> k" using that I(7)[of b] by (simp add: in_node_def child_from_def)
    finally show False by simp
  qed
  assume "j \<noteq> j'"
  thus False using no[of j j'] no[of j' j] assms by (meson nat_neq_iff)
qed

lemma parentE:
  assumes "tree_ok g G fat thin M D r" "i \<in> M" "i \<noteq> r"
  obtains p j where "p \<in> M" "m_pParent (D i) = Some p" "\<not> m_bLeaf (D p)" "j \<le> m_wNumKeys (D p)" "nptr (D p) j = i" "lv G i < lv G r"
  using tree_okD(6)[OF assms(1,2)] assms(3) unfolding place_ok_def by auto

text \<open>Two nodes of a level whose ranges share a key are the same.\<close>

lemma node_unique:
  assumes t: "tree_ok g G fat thin M D r" and "i \<in> M" "i' \<in> M" "lv G i = lv G i'" "in_node G i k" "in_node G i' k"
  shows "i = i'"
  using assms(2-6)
proof (induction "lv G r - lv G i" arbitrary: i i')
  case 0
  thus ?case using tree_okD(6)[OF t, of i] tree_okD(6)[OF t, of i'] by (auto simp: place_ok_def split: if_splits)
next
  case (Suc d)
  have r: "i \<noteq> r" "i' \<noteq> r" using Suc.hyps(2) Suc.prems(3) by auto
  obtain p j where p: "p \<in> M" "\<not> m_bLeaf (D p)" "j \<le> m_wNumKeys (D p)" "nptr (D p) j = i" by (rule parentE[OF t Suc.prems(1) r(1)])
  obtain p' j' where p': "p' \<in> M" "\<not> m_bLeaf (D p')" "j' \<le> m_wNumKeys (D p')" "nptr (D p') j' = i'"
    by (rule parentE[OF t Suc.prems(2) r(2)])
  note I = tree_okD(5)[OF t p(1,2)] and I' = tree_okD(5)[OF t p'(1,2)] and K = tree_okD(3)[OF t p(1)] and K' = tree_okD(3)[OF t p'(1)]
  have l: "lv G i + 1 = lv G p" "lv G i' + 1 = lv G p'" using inner_okD(6)[OF I p(3)] inner_okD(6)[OF I' p'(3)] p(4) p'(4) by simp_all
  have "in_node G p k" "in_node G p' k"
    using child_in_node[OF K I p(3)] child_in_node[OF K' I' p'(3)] Suc.prems p(4) p'(4) by simp_all
  hence "p = p'" using Suc.hyps(1)[of p p'] Suc.hyps(2) Suc.prems(3) l p(1) p'(1) by simp
  thus ?case using child_unique[OF K I p(3), of j' k] p p' Suc.prems by simp
qed

section \<open>Search\<close>

lemma page_bounds: "page_ok g \<Longrightarrow> 7 \<le> MAX_PTRS_PER_NODE g \<and> MAX_PTRS_PER_NODE g \<le> 628"
  unfolding page_ok_def MAX_PTRS_PER_NODE_def by auto

text \<open>The child to which the search goes on.\<close>

definition child_place :: "int \<Rightarrow> nat" where
  "child_place r = (if r \<ge> 0 then nat r + 1 else place_of r)"

lemma search_child:
  assumes P: "page_ok g" and K: "keys_ok g G fat (D i) i" and I: "inner_ok G thin M D i" and "i \<notin> thin" "in_node G i (kstr k)"
  shows "\<exists>r. BinSearch (D i) k 0 (m_wNumKeys (D i) - 1) = Inr r \<and> child_place r \<le> m_wNumKeys (D i) \<and>
    in_node G (nptr (D i) (child_place r)) (kstr k)"
proof -
  note k = keys_okD[OF K] and n = inner_okD[OF I]
  have c: "0 < m_wNumKeys (D i)" "m_wNumKeys (D i) < 65535" using n(2) assms(4) k(5) page_bounds[OF P] by auto
  obtain r where r: "BinSearch (D i) k 0 (m_wNumKeys (D i) - 1) = Inr r" "found_at (D i) k 0 (m_wNumKeys (D i) - 1) r"
    using bin_search_found[OF k(4) c(2), of 0 "m_wNumKeys (D i) - 1" k] c(1) by auto
  let ?j = "child_place r"
  have j: "?j \<le> m_wNumKeys (D i)" using r(2) c(1) by (auto simp: found_at_def child_place_def split: if_splits)
  have "child_from G (D i) i ?j \<le> kstr k"
    using r(2) assms(5) by (auto simp: found_at_def child_place_def child_from_def in_node_def intro: less_imp_le split: if_splits)
  moreover have "below (kstr k) (child_to G (D i) i ?j)"
  proof (cases "?j = m_wNumKeys (D i)")
    case True thus ?thesis using assms(5) by (simp add: child_to_def in_node_def)
  next
    case False
    hence "kstr k < nkey (D i) ?j"
      using j r(2) c(1) keys_less[OF k(4), of "nat r" ?j] by (auto simp: found_at_def child_place_def split: if_splits)
    thus ?thesis using False by (simp add: child_to_def below_def)
  qed
  ultimately show ?thesis using r(1) j n(7,8)[OF j] by (auto simp: in_node_def)
qed

lemma GetChild_ok: "inner_ok G thin (m_mapChilds s) (dr_obj s) i \<Longrightarrow> j \<le> m_wNumKeys (dr_obj s i) \<Longrightarrow>
    CBPlusNode_GetChild i j s = Some (nptr (dr_obj s i) j)"
  by (auto simp: CBPlusNode_GetChild_def GetChildDirect_def inner_ok_def Let_def)

abbreviation dir_tree :: "geom \<Rightarrow> shape \<Rightarrow> nat set \<Rightarrow> nat set \<Rightarrow> 'o dir \<Rightarrow> bool" where
  "dir_tree g G fat thin s \<equiv> tree_ok g G fat thin (m_mapChilds s) (dr_obj s) (m_pRootNode s)"

lemma search_down_ok:
  assumes P: "page_ok g" and t: "dir_tree g G fat {} s" and "i \<in> m_mapChilds s" "in_node G i (kstr k)" "lv G i < m"
  shows "\<exists>l. search_down m k i s = Inr (0, l) \<and> l \<in> m_mapChilds s \<and> m_bLeaf (dr_obj s l) \<and> in_node G l (kstr k)"
  using assms(3-5)
proof (induction m arbitrary: i)
  case (Suc m)
  show ?case
  proof (cases "m_bLeaf (dr_obj s i)")
    case True thus ?thesis using Suc.prems by (simp add: Let_def)
  next
    case False
    note I = tree_okD(5)[OF t Suc.prems(1) False] and K = tree_okD(3)[OF t Suc.prems(1)]
    obtain r where r: "BinSearch (dr_obj s i) k 0 (m_wNumKeys (dr_obj s i) - 1) = Inr r" "child_place r \<le> m_wNumKeys (dr_obj s i)"
      "in_node G (nptr (dr_obj s i) (child_place r)) (kstr k)"
      using search_child[where D = "dr_obj s", OF P K I _ Suc.prems(2)] by auto
    have nz: "m_wNumKeys (dr_obj s i) \<noteq> 0" using inner_okD(2)[OF I] by auto
    have "search_down (Suc m) k i s = search_down m k (nptr (dr_obj s i) (child_place r)) s"
      using False nz r(1) GetChild_ok[OF I r(2)] by (simp add: Let_def child_place_def split: if_splits)
    moreover have "nptr (dr_obj s i) (child_place r) \<in> m_mapChilds s" "lv G (nptr (dr_obj s i) (child_place r)) < m"
      using inner_okD(4,6)[OF I r(2)] Suc.prems(3) by simp_all
    ultimately show ?thesis using Suc.IH r(3) by metis
  qed
qed simp

section \<open>Entries\<close>

definition dir_entries :: "nat set \<Rightarrow> (nat \<Rightarrow> bnode) \<Rightarrow> keyptr_slot set" where
  "dir_entries M D = (\<Union>i\<in>{i \<in> M. m_bLeaf (D i)}. set (take (m_wNumKeys (D i)) (m_vecSlots (D i))))"

lemma in_slots: "e \<in> set (take n xs) \<Longrightarrow> n \<le> length xs \<Longrightarrow> \<exists>j<n. xs ! j = e"
  by (auto simp: in_set_conv_nth)

text \<open>An entry lies in the one leaf that can hold its key.\<close>

lemma entry_leaf:
  assumes t: "tree_ok g G fat thin M D r" and l: "l \<in> M" "m_bLeaf (D l)" "in_node G l k"
    and e: "e \<in> dir_entries M D" "kstr (szKey e) = k"
  shows "\<exists>j<m_wNumKeys (D l). m_vecSlots (D l) ! j = e"
proof -
  obtain i where i: "i \<in> M" "m_bLeaf (D i)" "e \<in> set (take (m_wNumKeys (D i)) (m_vecSlots (D i)))"
    using e(1) by (auto simp: dir_entries_def)
  note K = keys_okD[OF tree_okD(3)[OF t i(1)]] and L = keys_okD[OF tree_okD(3)[OF t l(1)]]
  have "m_wNumKeys (D i) \<le> length (m_vecSlots (D i))" using K(3,5) by simp
  then obtain j where j: "j < m_wNumKeys (D i)" "m_vecSlots (D i) ! j = e" using in_slots[OF i(3)] by auto
  have "in_node G i k" using K(7)[OF j(1)] j(2) e(2) by simp
  moreover have "lv G i = lv G l" using K(9) L(9) i(2) l(2) by simp
  ultimately have "i = l" using node_unique[OF t i(1) l(1)] l(3) by blast
  thus ?thesis using j by blast
qed

lemma entry_in: "l \<in> M \<Longrightarrow> m_bLeaf (D l) \<Longrightarrow> j < m_wNumKeys (D l) \<Longrightarrow> m_wNumKeys (D l) \<le> length (m_vecSlots (D l)) \<Longrightarrow>
    m_vecSlots (D l) ! j \<in> dir_entries M D"
proof -
  assume a: "l \<in> M" "m_bLeaf (D l)" "j < m_wNumKeys (D l)" "m_wNumKeys (D l) \<le> length (m_vecSlots (D l))"
  have "m_vecSlots (D l) ! j \<in> set (take (m_wNumKeys (D l)) (m_vecSlots (D l)))"
    using nth_mem[of j "take (m_wNumKeys (D l)) (m_vecSlots (D l))"] a(3,4) by simp
  thus ?thesis using a(1,2) by (auto simp: dir_entries_def)
qed

text \<open>Entries with the same key are the same.\<close>

lemma entries_inject:
  assumes t: "tree_ok g G fat thin M D r" and e: "e \<in> dir_entries M D" "e' \<in> dir_entries M D" "kstr (szKey e) = kstr (szKey e')"
  shows "e = e'"
proof -
  obtain i where i: "i \<in> M" "m_bLeaf (D i)" "e \<in> set (take (m_wNumKeys (D i)) (m_vecSlots (D i)))"
    using e(1) by (auto simp: dir_entries_def)
  note K = keys_okD[OF tree_okD(3)[OF t i(1)]]
  obtain j where j: "j < m_wNumKeys (D i)" "m_vecSlots (D i) ! j = e" using in_slots[OF i(3)] K(3,5) by auto
  have "in_node G i (kstr (szKey e))" using K(7)[OF j(1)] j(2) by simp
  then obtain j' where j': "j' < m_wNumKeys (D i)" "m_vecSlots (D i) ! j' = e'"
    using entry_leaf[OF t i(1,2) _ e(2)] e(3) by auto
  have "j = j'" using keys_less[OF K(4), of j j'] keys_less[OF K(4), of j' j] j j' e(3) by (metis less_irrefl nat_neq_iff)
  thus ?thesis using j j' by simp
qed

lemma root_range: "tree_ok g G fat thin M D r \<Longrightarrow> in_node G r k"
  using tree_okD(6)[of g G fat thin M D r r] tree_okD(1)[of g G fat thin M D r] by (simp add: place_ok_def in_node_def below_def)

lemma leaf_slot:
  assumes P: "page_ok g" and t: "tree_ok g G fat thin M D r" and "l \<in> M" "m_bLeaf (D l)" "j < m_wNumKeys (D l)" "fat = {}"
  shows "GetSlot g (D l) j = Inr (m_vecSlots (D l) ! j)"
  using keys_okD[OF tree_okD(3)[OF t assms(3)]] assms(4-6) by (auto simp: GetSlot_def MAX_KEYS_PER_NODE_def)

lemma search_leaf:
  assumes P: "page_ok g" and t: "tree_ok g G fat thin M D r" and l: "l \<in> M" "0 < m_wNumKeys (D l)"
  shows "\<exists>i. BinSearch (D l) k 0 (m_wNumKeys (D l) - 1) = Inr i \<and> found_at (D l) k 0 (m_wNumKeys (D l) - 1) i"
  using bin_search_found[of "D l" 0 "m_wNumKeys (D l) - 1" k] keys_okD(4,5)[OF tree_okD(3)[OF t l(1)]] page_bounds[OF P] l(2) by auto

section \<open>What a search finds\<close>

text \<open>The leaf that can hold a key, and what the binary search finds in it.\<close>

lemma search_target:
  assumes P: "page_ok g" and t: "dir_tree g G {} {} s" and "lv G (m_pRootNode s) < m"
  obtains l where "search_down m k (m_pRootNode s) s = Inr (0, l)" "l \<in> m_mapChilds s" "m_bLeaf (dr_obj s l)" "in_node G l (kstr k)"
  using search_down_ok[OF P t tree_okD(1)[OF t] root_range[OF t] assms(3)] by blast

lemma leaf_hit:
  assumes P: "page_ok g" and t: "dir_tree g G {} {} s" and l: "l \<in> m_mapChilds s" "m_bLeaf (dr_obj s l)" "in_node G l (kstr k)"
    and e: "e \<in> dir_entries (m_mapChilds s) (dr_obj s)" "kstr (szKey e) = kstr k"
  shows "\<exists>i\<ge>0. 0 < m_wNumKeys (dr_obj s l) \<and> BinSearch (dr_obj s l) k 0 (m_wNumKeys (dr_obj s l) - 1) = Inr i \<and>
    GetSlot g (dr_obj s l) (nat i) = Inr e"
proof -
  let ?n = "dr_obj s l"
  obtain j where j: "j < m_wNumKeys ?n" "m_vecSlots ?n ! j = e" using entry_leaf[OF t l e] by blast
  hence nz: "0 < m_wNumKeys ?n" by simp
  note K = keys_okD[OF tree_okD(3)[OF t l(1)]]
  obtain i where i: "BinSearch ?n k 0 (m_wNumKeys ?n - 1) = Inr i" "found_at ?n k 0 (m_wNumKeys ?n - 1) i"
    using search_leaf[OF P t l(1) nz] by blast
  have k: "nkey ?n j = kstr k" using j(2) e(2) by simp
  have i0: "i \<ge> 0"
  proof (rule ccontr)
    assume "\<not> i \<ge> 0"
    hence "\<not> j < place_of i" "\<not> place_of i \<le> j" using i(2) j(1) k by (auto simp: found_at_def)
    thus False by simp
  qed
  hence f: "nat i < m_wNumKeys ?n" "nkey ?n (nat i) = kstr k" using i(2) nz by (auto simp: found_at_def)
  have "nat i = j" using keys_less[OF K(4), of "nat i" j] keys_less[OF K(4), of j "nat i"] f j(1) k by (metis less_irrefl nat_neq_iff)
  hence "GetSlot g ?n (nat i) = Inr e" using leaf_slot[OF P t l(1,2) f(1)] j(2) by simp
  thus ?thesis using i0 i(1) nz by blast
qed

lemma leaf_miss:
  assumes P: "page_ok g" and t: "dir_tree g G {} {} s" and l: "l \<in> m_mapChilds s" "m_bLeaf (dr_obj s l)" "0 < m_wNumKeys (dr_obj s l)"
    and e: "\<forall>e\<in>dir_entries (m_mapChilds s) (dr_obj s). kstr (szKey e) \<noteq> kstr k"
  shows "\<exists>i<0. BinSearch (dr_obj s l) k 0 (m_wNumKeys (dr_obj s l) - 1) = Inr i \<and>
    found_at (dr_obj s l) k 0 (m_wNumKeys (dr_obj s l) - 1) i"
proof -
  let ?n = "dr_obj s l"
  note K = keys_okD[OF tree_okD(3)[OF t l(1)]]
  obtain i where i: "BinSearch ?n k 0 (m_wNumKeys ?n - 1) = Inr i" "found_at ?n k 0 (m_wNumKeys ?n - 1) i"
    using search_leaf[OF P t l(1,3)] by blast
  have "i < 0"
  proof (rule ccontr)
    assume "\<not> i < 0"
    hence f: "nat i < m_wNumKeys ?n" "nkey ?n (nat i) = kstr k" using i(2) l(3) by (auto simp: found_at_def)
    have "m_vecSlots ?n ! nat i \<in> dir_entries (m_mapChilds s) (dr_obj s)" using entry_in[of l _ "dr_obj s", OF l(1,2) f(1)] K(3,5) by simp
    thus False using e f(2) by blast
  qed
  thus ?thesis using i by blast
qed

text \<open>What a search that meets the entry answers: the status, the file, and the files in memory afterwards. It depends on the entry alone.\<close>

definition found_file :: "(keyptr_slot \<Rightarrow> gint32) \<Rightarrow> (keyptr_slot \<Rightarrow> gint32) \<Rightarrow> 'o dir \<Rightarrow> keyptr_slot \<Rightarrow> gint32 \<times> nat option \<times> nat set" where
  "found_file mk load s e =
    (if sl_idx e \<in> m_mapFiles s then (0, Some (sl_idx e), m_mapFiles s)
     else if ERROR (mk e) then (mk e, None, m_mapFiles s)
     else if ERROR (load e) then (load e, Some (sl_idx e), m_mapFiles s)
     else (0, Some (sl_idx e), insert (sl_idx e) (m_mapFiles s)))"

section \<open>Listing\<close>

text \<open>No range is empty.\<close>

lemma from_in_node:
  assumes t: "tree_ok g G fat thin M D r" and "i \<in> M"
  shows "in_node G i (from_key G i)"
  using assms(2)
proof (induction "lv G r - lv G i" arbitrary: i)
  case 0
  hence "i = r" using tree_okD(6)[OF t, of i] by (auto simp: place_ok_def split: if_splits)
  thus ?case using root_range[OF t] by simp
next
  case (Suc d)
  have "i \<noteq> r" using Suc.hyps(2) by auto
  obtain p j where p: "p \<in> M" "\<not> m_bLeaf (D p)" "j \<le> m_wNumKeys (D p)" "nptr (D p) j = i"
    by (rule parentE[OF t Suc.prems \<open>i \<noteq> r\<close>])
  note I = tree_okD(5)[OF t p(1,2)] and K = tree_okD(3)[OF t p(1)]
  have "lv G i + 1 = lv G p" using inner_okD(6)[OF I p(3)] p(4) by simp
  hence IH: "in_node G p (from_key G p)" using Suc.hyps(1)[of p] Suc.hyps(2) p(1) by simp
  have f: "from_key G i = child_from G (D p) p j" "to_key G i = child_to G (D p) p j"
    using inner_okD(7,8)[OF I p(3)] p(4) by simp_all
  have "below (child_from G (D p) p j) (child_to G (D p) p j)"
  proof (cases "j = 0")
    case True
    show ?thesis using True IH inner_okD(3)[OF I, of 0] by (auto simp: child_from_def child_to_def in_node_def below_def)
  next
    case False
    have "in_node G p (nkey (D p) (j - 1))" using keys_okD(7)[OF K, of "j - 1"] False p(3) by simp
    thus ?thesis using False p(3) keys_less[OF keys_okD(4)[OF K], of "j - 1" j]
      by (auto simp: child_from_def child_to_def in_node_def below_def)
  qed
  thus ?case by (simp add: in_node_def f)
qed

definition key_order :: "keyptr_slot list \<Rightarrow> bool" where
  "key_order es \<longleftrightarrow> sorted_wrt (\<lambda>a b. kstr (szKey a) < kstr (szKey b)) es"

lemma key_order_unique:
  assumes "key_order xs" "key_order ys" "set xs = set ys"
  shows "xs = ys"
proof -
  have s: "sorted (map (\<lambda>e. kstr (szKey e)) zs) \<and> distinct (map (\<lambda>e. kstr (szKey e)) zs)" if "key_order zs" for zs
    using that strict_sorted_iff[of "map (\<lambda>e. kstr (szKey e)) zs"] unfolding key_order_def sorted_wrt_map by blast
  hence "inj_on (\<lambda>e. kstr (szKey e)) (set xs \<union> set ys)" using assms by (simp add: distinct_map)
  thus ?thesis using s assms by (intro map_sorted_distinct_set_unique) auto
qed

lemma get_slots_map: "\<forall>i\<in>set is. GetSlot g n i = Inr (f i) \<Longrightarrow> get_slots g n is = Inr (map f is)"
  by (induction "is") auto

text \<open>The entries of a leaf in their order.\<close>

definition leaf_entries :: "bnode \<Rightarrow> keyptr_slot list" where
  "leaf_entries n = take (m_wNumKeys n) (m_vecSlots n)"

lemma leaf_entries_order: "keys_sorted n \<Longrightarrow> key_order (leaf_entries n)"
  by (auto simp: key_order_def leaf_entries_def sorted_wrt_iff_nth_less keys_sorted_def)

lemma leaf_entries_slots:
  assumes P: "page_ok g" and t: "tree_ok g G {} thin M D r" and l: "l \<in> M" "m_bLeaf (D l)"
  shows "get_slots g (D l) [0..<m_wNumKeys (D l)] = Inr (leaf_entries (D l))"
proof -
  have "get_slots g (D l) [0..<m_wNumKeys (D l)] = Inr (map ((!) (m_vecSlots (D l))) [0..<m_wNumKeys (D l)])"
    by (rule get_slots_map) (use leaf_slot[OF P t l] in auto)
  moreover have "m_wNumKeys (D l) \<le> length (m_vecSlots (D l))" using keys_okD(4)[OF tree_okD(3)[OF t l(1)]] by (simp add: keys_sorted_def)
  ultimately show ?thesis by (auto simp: leaf_entries_def intro: nth_equalityI)
qed

lemma leaf_entries_set:
  assumes t: "tree_ok g G fat thin M D r" and l: "l \<in> M" "m_bLeaf (D l)"
  shows "set (leaf_entries (D l)) = {e \<in> dir_entries M D. in_node G l (kstr (szKey e))}"
proof (intro set_eqI iffI)
  note K = keys_okD[OF tree_okD(3)[OF t l(1)]]
  have n: "m_wNumKeys (D l) \<le> length (m_vecSlots (D l))" using K(4) by (simp add: keys_sorted_def)
  fix e
  show "e \<in> {e \<in> dir_entries M D. in_node G l (kstr (szKey e))}" if e: "e \<in> set (leaf_entries (D l))"
  proof -
    obtain j where j: "j < m_wNumKeys (D l)" "m_vecSlots (D l) ! j = e" using in_slots[OF e[unfolded leaf_entries_def] n] by blast
    show ?thesis using entry_in[of l M D j] l j n K(7)[OF j(1)] by simp
  qed
  show "e \<in> set (leaf_entries (D l))" if e: "e \<in> {e \<in> dir_entries M D. in_node G l (kstr (szKey e))}"
  proof -
    obtain j where "j < m_wNumKeys (D l)" "m_vecSlots (D l) ! j = e" using entry_leaf[OF t l, of _ e] e by blast
    thus ?thesis using n by (auto simp: leaf_entries_def in_set_conv_nth)
  qed
qed

definition leaves_from :: "shape \<Rightarrow> nat set \<Rightarrow> (nat \<Rightarrow> bnode) \<Rightarrow> nat \<Rightarrow> nat set" where
  "leaves_from G M D i = {l \<in> M. m_bLeaf (D l) \<and> from_key G i \<le> from_key G l}"

lemma key_order_append:
  "key_order (xs @ ys) \<longleftrightarrow> key_order xs \<and> key_order ys \<and> (\<forall>x\<in>set xs. \<forall>y\<in>set ys. kstr (szKey x) < kstr (szKey y))"
  by (simp add: key_order_def sorted_wrt_append)

lemma list_leaves_ok:
  assumes P: "page_ok (e_g v)" and t: "dir_tree (e_g v) G {} thin s" and "i \<in> m_mapChilds s" "m_bLeaf (dr_obj s i)"
    and "card (leaves_from G (m_mapChilds s) (dr_obj s) i) \<le> m"
  shows "\<exists>es. list_leaves m v (Some i) s = Inr es \<and> key_order es \<and>
    set es = {e \<in> dir_entries (m_mapChilds s) (dr_obj s). from_key G i \<le> kstr (szKey e)}"
  using assms(3-5)
proof (induction m arbitrary: i)
  case 0
  have "finite (leaves_from G (m_mapChilds s) (dr_obj s) i)" using tree_okD(2)[OF t] by (simp add: leaves_from_def)
  moreover have "i \<in> leaves_from G (m_mapChilds s) (dr_obj s) i" using 0 by (simp add: leaves_from_def)
  ultimately show ?case using "0.prems"(3) by auto
next
  case (Suc m)
  let ?n = "dr_obj s i" and ?M = "m_mapChilds s" and ?D = "dr_obj s"
  note K = keys_okD[OF tree_okD(3)[OF t Suc.prems(1)]] and L = tree_okD(4)[OF t Suc.prems(1,2)]
  have here: "get_slots (e_g v) ?n [0..<m_wNumKeys ?n] = Inr (leaf_entries ?n)" by (rule leaf_entries_slots[OF P t Suc.prems(1,2)])
  have S: "set (leaf_entries ?n) = {e \<in> dir_entries ?M ?D. in_node G i (kstr (szKey e))}" by (rule leaf_entries_set[OF t Suc.prems(1,2)])
  have O: "key_order (leaf_entries ?n)" by (rule leaf_entries_order[OF K(4)])
  show ?case
  proof (cases "to_key G i")
    case None
    hence "m_wNextLeaf ?n = INVALID_BNODE_IDX" using L by (simp add: leaf_ok_def)
    hence "list_leaves (Suc m) v (Some i) s = Inr (leaf_entries ?n)" by (simp add: Let_def here)
    thus ?thesis using S O None by (simp add: in_node_def below_def)
  next
    case (Some k)
    let ?j = "m_wNextLeaf ?n"
    have j: "?j \<in> ?M" "m_bLeaf (?D ?j)" "from_key G ?j = k" using L Some by (simp_all add: leaf_ok_def)
    have nj: "?j \<noteq> INVALID_BNODE_IDX" using keys_okD(2)[OF tree_okD(3)[OF t j(1)]] by simp
    have lt: "from_key G i < k" using from_in_node[OF t Suc.prems(1)] Some by (simp add: in_node_def below_def)
    have "leaves_from G ?M ?D ?j \<subset> leaves_from G ?M ?D i"
  proof (rule psubsetI)
      show "leaves_from G ?M ?D ?j \<subseteq> leaves_from G ?M ?D i" using lt j(3) by (auto simp: leaves_from_def)
      have "i \<in> leaves_from G ?M ?D i" "i \<notin> leaves_from G ?M ?D ?j" using lt j(3) Suc.prems(1,2) by (auto simp: leaves_from_def)
      thus "leaves_from G ?M ?D ?j \<noteq> leaves_from G ?M ?D i" by blast
    qed
    hence "card (leaves_from G ?M ?D ?j) \<le> m"
      using psubset_card_mono[of "leaves_from G ?M ?D i" "leaves_from G ?M ?D ?j"] Suc.prems(3) tree_okD(2)[OF t]
      by (simp add: leaves_from_def)
    then obtain es where es: "list_leaves m v (Some ?j) s = Inr es" "key_order es"
      "set es = {e \<in> dir_entries ?M ?D. k \<le> kstr (szKey e)}"
      using Suc.IH[OF j(1,2)] j(3) by auto
    have "list_leaves (Suc m) v (Some i) s = Inr (leaf_entries ?n @ es)"
      using nj j(1) es(1) here by (simp add: Let_def GetChildDirect_def)
    moreover have "set (leaf_entries ?n @ es) = {e \<in> dir_entries ?M ?D. from_key G i \<le> kstr (szKey e)}"
      using S es(3) Some lt by (auto simp: in_node_def below_def)
    moreover have "key_order (leaf_entries ?n @ es)"
      using S es(2,3) O Some by (auto simp: key_order_append in_node_def below_def)
    ultimately show ?thesis by blast
  qed
qed

lemma first_leaf_ok:
  assumes t: "dir_tree g G fat thin s" and "i \<in> m_mapChilds s" "lv G i < m"
  shows "\<exists>l. first_leaf m (Some i) s = Inr (Some l) \<and> l \<in> m_mapChilds s \<and> m_bLeaf (dr_obj s l) \<and> from_key G l = from_key G i"
  using assms(2,3)
proof (induction m arbitrary: i)
  case (Suc m)
  show ?case
  proof (cases "m_bLeaf (dr_obj s i)")
    case True thus ?thesis using Suc.prems by simp
  next
    case False
    note I = tree_okD(5)[OF t Suc.prems(1) False]
    let ?c = "nptr (dr_obj s i) 0"
    have c: "?c \<in> m_mapChilds s" "lv G ?c + 1 = lv G i" "from_key G ?c = from_key G i"
      using inner_okD(4,6,7)[OF I, of 0] by (simp_all add: child_from_def)
    obtain l where "first_leaf m (Some ?c) s = Inr (Some l)" "l \<in> m_mapChilds s" "m_bLeaf (dr_obj s l)" "from_key G l = from_key G ?c"
      using Suc.IH[OF c(1)] c(2) Suc.prems(2) by auto
    thus ?thesis using False GetChild_ok[OF I, of 0] c(3) by simp
  qed
qed simp

section \<open>Properties of directories\<close>

text \<open>A small directory of two levels.\<close>

definition sample_dir :: "nat dir" where
  "sample_dir = \<lparr>dr_img = sample_image, dr_dev = \<lparr>d_blk = (\<lambda>_. []), d_free = [], d_err = (\<lambda>_. 0)\<rparr>,
     dr_obj = (\<lambda>i. (CBPlusNode default_geom i)\<lparr>m_bLeaf := i \<noteq> 0, m_wNumKeys := if i = 0 then 1 else 2,
       m_wNumPtrs := if i = 0 then 2 else 0, m_pParent := if i = 0 then None else Some 0,
       m_wNextLeaf := if i = 1 then 2 else INVALID_BNODE_IDX,
       m_vecSlots := (if i = 0 then [sample_slot 109 1, sample_slot 0 2]
         else if i = 1 then [sample_slot 97 51, sample_slot 99 52] else [sample_slot 109 53, sample_slot 120 54]) @ replicate 36 zero_slot\<rparr>),
     m_mapChilds = {0, 1, 2}, m_pRootNode = 0, m_vecFreeBNodes = [], m_setDirtyNodes = {}, m_mapFiles = {}\<rparr>"

definition sample_shape :: shape where
  "sample_shape = \<lparr>lv = (\<lambda>i. if i = 0 then 1 else 0), from_key = (\<lambda>i. if i = 2 then [109] else []),
     to_key = (\<lambda>i. if i = 1 then Some [109] else None)\<rparr>"

lemma sample_page: "page_ok default_geom" "MAX_PTRS_PER_NODE default_geom = 37" "MAX_KEYS_PER_NODE default_geom = 36"
  by (simp_all add: page_ok_def MAX_KEYS_PER_NODE_def MAX_PTRS_PER_NODE_def BNODE_SIZE_def default_geom_def)

lemma upto_one: "(\<forall>j\<le>Suc 0. P j) \<longleftrightarrow> P 0 \<and> P (Suc 0)" "(\<exists>j\<le>Suc 0. P j) \<longleftrightarrow> P 0 \<or> P (Suc 0)"
  "(\<forall>j<Suc (Suc 0). P j) \<longleftrightarrow> P 0 \<and> P (Suc 0)" "(\<forall>i j. i < j \<and> j < Suc (Suc 0) \<longrightarrow> Q i j) \<longleftrightarrow> Q 0 (Suc 0)"
  "(\<forall>i j. i < j \<and> j < Suc 0 \<longrightarrow> Q i j) \<longleftrightarrow> True"
  by (auto simp: le_Suc_eq less_Suc_eq numeral_2_eq_2)

lemma sample_dir_tree: "dir_tree default_geom sample_shape {} {} sample_dir"
proof -
  let ?D = "dr_obj sample_dir" and ?M = "{0, Suc 0, 2} :: nat set"
  have keys: "nkey (?D 0) 0 = [109]" "nkey (?D (Suc 0)) 0 = [97]" "nkey (?D (Suc 0)) (Suc 0) = [99]" "nkey (?D 2) 0 = [109]" "nkey (?D 2) (Suc 0) = [120]"
    by (simp_all add: sample_dir_def sample_key)
  have ptrs: "nptr (?D 0) 0 = Suc 0" "nptr (?D 0) (Suc 0) = 2" by (simp_all add: sample_dir_def sample_slot_def)
  have cnt: "m_wNumKeys (?D 0) = Suc 0" "m_wNumPtrs (?D 0) = Suc (Suc 0)" "m_wNumKeys (?D (Suc 0)) = Suc (Suc 0)" "m_wNumKeys (?D 2) = Suc (Suc 0)"
    and leaf: "\<not> m_bLeaf (?D 0)" "m_bLeaf (?D (Suc 0))" "m_bLeaf (?D 2)"
    and par: "m_pParent (?D 0) = None" "m_pParent (?D (Suc 0)) = Some 0" "m_pParent (?D 2) = Some 0"
    and len: "length (m_vecSlots (?D i)) = 38" and idx: "m_wThisBNodeIdx (?D i) = i mod 65536"
    and nxt: "m_wNextLeaf (?D (Suc 0)) = 2" "m_wNextLeaf (?D 2) = INVALID_BNODE_IDX" for i
    by (simp_all add: sample_dir_def CBPlusNode_def)
  have K: "keys_ok default_geom sample_shape {} (?D i) i" if "i \<in> ?M" for i
    using that keys by (auto simp: keys_ok_def keys_sorted_def len idx cnt leaf sample_page upto_one sample_shape_def in_node_def below_def)
  have I: "inner_ok sample_shape {} ?M ?D 0"
    using keys ptrs by (simp add: inner_ok_def cnt upto_one par sample_shape_def child_from_def child_to_def)
  have L: "leaf_ok sample_shape ?M ?D (Suc 0)" "leaf_ok sample_shape ?M ?D 2"
    using nxt leaf by (simp_all add: leaf_ok_def sample_shape_def)
  have P: "place_ok sample_shape ?M ?D 0 i" if "i \<in> ?M" for i
    using that ptrs by (auto simp: place_ok_def par leaf cnt upto_one sample_shape_def)
  have "tree_ok default_geom sample_shape {} {} ?M ?D 0"
    using K I L P leaf unfolding tree_ok_def by simp
  thus ?thesis by (simp add: sample_dir_def)
qed

lemma sample_entries:
  "dir_entries (m_mapChilds sample_dir) (dr_obj sample_dir) =
    set [sample_slot 97 51, sample_slot 99 52, sample_slot 109 53, sample_slot 120 54]"
proof -
  have "{i \<in> m_mapChilds sample_dir. m_bLeaf (dr_obj sample_dir i)} = {Suc 0, 2}" by (auto simp: sample_dir_def)
  moreover have "take (m_wNumKeys (dr_obj sample_dir (Suc 0))) (m_vecSlots (dr_obj sample_dir (Suc 0))) = [sample_slot 97 51, sample_slot 99 52]"
    "take (m_wNumKeys (dr_obj sample_dir 2)) (m_vecSlots (dr_obj sample_dir 2)) = [sample_slot 109 53, sample_slot 120 54]"
    by (simp_all add: sample_dir_def)
  ultimately show ?thesis unfolding dir_entries_def by auto
qed

text \<open>C9. Search in a directory is exact. In a tree of any height that keeps the B+ tree's invariant, \<open>SearchNoLock\<close> goes down from the root to the
  one leaf that can hold the name. When the directory has an entry of that name it returns the entry's file: the one already loaded, or the one it makes,
  loads and records. When the file cannot be made it returns that status and no file, when it cannot be reloaded that status with the file; neither records
  the file. When the directory has no such entry it returns \<open>ERROR_FALSE\<close>, and changes nothing.\<close>

theorem dir_search_exact:
  assumes P: "page_ok (e_g v)" and t: "dir_tree (e_g v) G {} {} s" and m: "lv G (m_pRootNode s) < m"
  shows "(\<forall>e\<in>dir_entries (m_mapChilds s) (dr_obj s). kstr (szKey e) = kstr k \<longrightarrow>
      (\<exists>l s'. SearchNoLock m v mk load k s =
          Inr (fst (found_file mk load s e), fst (snd (found_file mk load s e)), Some l, s') \<and>
        m_mapFiles s' = snd (snd (found_file mk load s e)) \<and> dr_obj s' = dr_obj s \<and> dr_img s' = dr_img s)) \<and>
    ((\<forall>e\<in>dir_entries (m_mapChilds s) (dr_obj s). kstr (szKey e) \<noteq> kstr k) \<longrightarrow>
      (\<exists>l. SearchNoLock m v mk load k s = Inr (ERROR_FALSE, None, Some l, s)))"
proof (intro conjI ballI impI)
  obtain l where l: "search_down m k (m_pRootNode s) s = Inr (0, l)" "l \<in> m_mapChilds s" "m_bLeaf (dr_obj s l)" "in_node G l (kstr k)"
    by (rule search_target[OF P t m])
  show "\<exists>l s'. SearchNoLock m v mk load k s =
          Inr (fst (found_file mk load s e), fst (snd (found_file mk load s e)), Some l, s') \<and>
        m_mapFiles s' = snd (snd (found_file mk load s e)) \<and> dr_obj s' = dr_obj s \<and> dr_img s' = dr_img s"
    if e: "e \<in> dir_entries (m_mapChilds s) (dr_obj s)" "kstr (szKey e) = kstr k" for e
  proof -
    obtain i where i: "i \<ge> 0" "0 < m_wNumKeys (dr_obj s l)" "BinSearch (dr_obj s l) k 0 (m_wNumKeys (dr_obj s l) - 1) = Inr i"
      "GetSlot (e_g v) (dr_obj s l) (nat i) = Inr e" using leaf_hit[OF P t l(2-4) e] by blast
    show ?thesis using l(1) i by (auto simp: SearchNoLock_def Let_def found_file_def)
  qed
  show "\<exists>l. SearchNoLock m v mk load k s = Inr (ERROR_FALSE, None, Some l, s)"
    if e: "\<forall>e\<in>dir_entries (m_mapChilds s) (dr_obj s). kstr (szKey e) \<noteq> kstr k"
  proof (cases "m_wNumKeys (dr_obj s l) = 0")
    case True thus ?thesis using l(1) by (simp add: SearchNoLock_def Let_def)
  next
    case False
    then obtain i where i: "i < 0" "BinSearch (dr_obj s l) k 0 (m_wNumKeys (dr_obj s l) - 1) = Inr i"
      using leaf_miss[OF P t l(2,3) _ e] by blast
    show ?thesis using l(1) i False by (simp add: SearchNoLock_def Let_def)
  qed
qed

definition sample_fs :: fs_env where
  "sample_fs = \<lparr>e_g = default_geom, e_safe = False, e_now = (0, 0), e_junk = []\<rparr>"

theorem dir_search_exact_witness:
  "(\<exists>l s'. SearchNoLock 2 sample_fs (\<lambda>_. 0) (\<lambda>_. 0) [120] sample_dir = Inr (0, Some 54, Some l, s') \<and> m_mapFiles s' = {54}) \<and>
    (\<exists>l. SearchNoLock 2 sample_fs (\<lambda>_. 0) (\<lambda>_. 0) [98] sample_dir = Inr (ERROR_FALSE, None, Some l, sample_dir))"
proof -
  note S = dir_search_exact[of sample_fs sample_shape sample_dir 2]
  have P: "page_ok (e_g sample_fs)" "dir_tree (e_g sample_fs) sample_shape {} {} sample_dir" "lv sample_shape (m_pRootNode sample_dir) < 2"
    using sample_page(1) sample_dir_tree by (simp_all add: sample_fs_def sample_dir_def sample_shape_def)
  have K: "kstr [c] = [c]" if "c \<noteq> 0" for c :: byte using that by (simp add: kstr_def c_str_def)
  have F: "found_file (\<lambda>_. 0) (\<lambda>_. 0) sample_dir (sample_slot 120 54) = (0, Some 54, {54})" "m_mapFiles sample_dir = {}"
    by (simp_all add: found_file_def sample_slot_def sample_dir_def)
  have "sample_slot 120 54 \<in> dir_entries (m_mapChilds sample_dir) (dr_obj sample_dir)" "kstr (szKey (sample_slot 120 54)) = kstr [120]"
    by (simp_all add: sample_entries sample_key K)
  hence "\<exists>l s'. SearchNoLock 2 sample_fs (\<lambda>_. 0) (\<lambda>_. 0) [120] sample_dir = Inr (0, Some 54, Some l, s') \<and> m_mapFiles s' = {54}"
    using S[OF P, of "[120]" "\<lambda>_. 0" "\<lambda>_. 0"] F by fastforce
  moreover have "\<forall>e\<in>dir_entries (m_mapChilds sample_dir) (dr_obj sample_dir). kstr (szKey e) \<noteq> kstr [98]"
    by (simp add: sample_entries sample_key K)
  ultimately show ?thesis using S[OF P, of "[98]" "\<lambda>_. 0" "\<lambda>_. 0"] by blast
qed

text \<open>C10. \<open>ListDir\<close> goes down to the first leaf and along the chain of leaves, and returns every entry of the directory once, in the order of the names;
  of the directory it changes the time of access only. As many rounds as there are nodes are enough.\<close>

theorem list_dir_complete:
  assumes P: "page_ok (e_g v)" and t: "dir_tree (e_g v) G {} thin s" and "m_dwState (dr_img s) \<noteq> FStopped"
    and "lv G (m_pRootNode s) < m" "card (m_mapChilds s) \<le> m"
  shows "\<exists>es. CDirImage_ListDir m v s = Inr (0, es, s\<lparr>dr_img := touch_atime (e_now v) (dr_img s)\<rparr>) \<and>
    set es = dir_entries (m_mapChilds s) (dr_obj s) \<and> sorted_wrt (\<lambda>a b. kstr (szKey a) < kstr (szKey b)) es"
proof -
  obtain l where l: "first_leaf m (Some (m_pRootNode s)) s = Inr (Some l)" "l \<in> m_mapChilds s" "m_bLeaf (dr_obj s l)"
    "from_key G l = from_key G (m_pRootNode s)" using first_leaf_ok[OF t tree_okD(1)[OF t] assms(4)] by blast
  have "from_key G l = []" using l(4) tree_okD(6)[OF t tree_okD(1)[OF t]] by (simp add: place_ok_def)
  moreover have "card (leaves_from G (m_mapChilds s) (dr_obj s) l) \<le> m"
    using card_mono[of "m_mapChilds s" "leaves_from G (m_mapChilds s) (dr_obj s) l"] tree_okD(2)[OF t] assms(5)
    by (simp add: leaves_from_def)
  ultimately obtain es where "list_leaves m v (Some l) s = Inr es" "key_order es" "set es = dir_entries (m_mapChilds s) (dr_obj s)"
    using list_leaves_ok[OF P t l(2,3)] by auto
  thus ?thesis using assms(3) l(1) by (simp add: CDirImage_ListDir_def key_order_def)
qed

theorem list_dir_complete_witness:
  "\<exists>es s'. CDirImage_ListDir 3 sample_fs sample_dir = Inr (0, es, s') \<and> length es = 4 \<and> map sl_idx es = [51, 52, 53, 54]"
proof -
  have P: "page_ok (e_g sample_fs)" "dir_tree (e_g sample_fs) sample_shape {} {} sample_dir" "lv sample_shape (m_pRootNode sample_dir) < 3"
    "m_dwState (dr_img sample_dir) \<noteq> FStopped" "card (m_mapChilds sample_dir) \<le> 3"
    using sample_page(1) sample_dir_tree by (simp_all add: sample_fs_def sample_dir_def sample_shape_def sample_image_def)
  obtain es s' where es: "CDirImage_ListDir 3 sample_fs sample_dir = Inr (0, es, s')" 
    "set es = dir_entries (m_mapChilds sample_dir) (dr_obj sample_dir)" "sorted_wrt (\<lambda>a b. kstr (szKey a) < kstr (szKey b)) es"
    using list_dir_complete[OF P(1,2,4,3,5)] by blast
  let ?es = "[sample_slot 97 51, sample_slot 99 52, sample_slot 109 53, sample_slot 120 54]"
  have "set es = set ?es" unfolding es(2) by (rule sample_entries)
  moreover have "sorted_wrt (\<lambda>a b. kstr (szKey a) < kstr (szKey b)) ?es" by (simp add: sample_key)
  ultimately have "es = ?es" using es(3) key_order_unique unfolding key_order_def by blast
  thus ?thesis using es(1) by (simp add: sample_slot_def)
qed

section \<open>Inserting from an inner node\<close>

lemma search_behind_last:
  assumes "m_wNumKeys n \<le> length (m_vecSlots n)" "\<forall>j<m_wNumKeys n. nkey n j < kstr k" "lo \<le> hi" "hi = m_wNumKeys n"
  shows "BinSearch n k lo hi = Inl Fault_Null"
  using assms
proof (induction n k lo hi rule: BinSearch.induct)
  case (1 n k lo hi)
  note le = \<open>lo \<le> hi\<close> and hi = \<open>hi = m_wNumKeys n\<close> and len = \<open>m_wNumKeys n \<le> length (m_vecSlots n)\<close>
    and less = \<open>\<forall>j<m_wNumKeys n. nkey n j < kstr k\<close>
  have at: "cmp_at n k i = Inr (COMPARE_KEY k (szKey (m_vecSlots n ! i)))" "COMPARE_KEY k (szKey (m_vecSlots n ! i)) > 0" if "i < hi" for i
    using that less len hi by (simp_all add: cmp_at_key COMPARE_KEY_order)
  have null: "cmp_at n k hi = Inl Fault_Null" using hi by (simp add: cmp_at_def GetKey_def)
  let ?mid = "(lo + hi) div 2"
  consider "hi = lo" | "hi = lo + 1" | "lo + 1 < hi" using le by linarith
  thus ?case
  proof cases
    assume h: "lo + 1 < hi"
    hence m: "?mid < hi" "?mid + 1 \<le> hi" by auto
    have nz: "\<not> hi < lo" "hi \<noteq> lo" "hi \<noteq> lo + 1" using h by auto
    have "BinSearch n k (?mid + 1) hi = Inl Fault_Null"
      by (rule "1.IH"(2)[OF nz refl at(1)[OF m(1)] _ _ len less m(2) hi]) (use at(2)[OF m(1)] in auto)
    thus ?thesis using at[OF m(1)] nz unfolding BinSearch.simps[of n k lo hi] by (simp add: Let_def)
  next
    assume "hi = lo"
    thus ?thesis using null BinSearch.simps[of n k lo lo] by simp
  next
    assume h: "hi = lo + 1"
    thus ?thesis using null at[of lo] BinSearch.simps[of n k lo "lo + 1"] by simp
  qed
qed

text \<open>C38. Insertion from an inner node, which is what renaming does with the root, searches up to the place behind the last key. For a name that is
  greater than all keys of the node, \<open>Insert\<close> compares with a key that is a null pointer, whatever the node holds.\<close>

theorem inner_insert_null_key:
  assumes "\<not> m_bLeaf (dr_obj s this)" "keys_sorted (dr_obj s this)" "\<forall>j<m_wNumKeys (dr_obj s this). nkey (dr_obj s this) j < kstr (szKey e)"
  shows "Insert (Suc m) v this e s = Inl Fault_Null"
  using assms search_behind_last[of "dr_obj s this" "szKey e" 0 "m_wNumKeys (dr_obj s this)"]
  by (simp add: keys_sorted_def Let_def)

theorem inner_insert_null_key_witness:
  "Insert 2 sample_fs 0 (sample_slot 122 60) sample_dir = Inl Fault_Null"
proof -
  have n: "\<not> m_bLeaf (dr_obj sample_dir 0)" "m_wNumKeys (dr_obj sample_dir 0) = 1" "nkey (dr_obj sample_dir 0) 0 = [109]"
    by (simp_all add: sample_dir_def sample_key)
  have s: "keys_sorted (dr_obj sample_dir 0)" using n(2) by (simp add: keys_sorted_def) (simp add: sample_dir_def)
  have "\<forall>j<m_wNumKeys (dr_obj sample_dir 0). nkey (dr_obj sample_dir 0) j < kstr (szKey (sample_slot 122 60))"
    using n(2,3) by (simp add: sample_key)
  thus ?thesis using inner_insert_null_key[OF n(1) s, of "sample_slot 122 60" 1 sample_fs] unfolding numeral_2_eq_2 by simp
qed

end
