(* ===== verification/Spec2Isabelle.thy ===== *)
theory Spec2Isabelle
  imports Prelude PortState IfState BlkAddr BlkBitmap BlkCache ParGrp TaskSched Wire Seri Registry Config FileFaults DirView
begin

text \<open>
  \<^bold>\<open>rpc-frmwrk: a model of its state machines, its request scheduler, its serializers and its registry file system.\<close>

  \<^bold>\<open>The program.\<close> rpc-frmwrk is a framework for remote calls in C++. A proxy or a server is an interface object
  (\<^verbatim>\<open>ipc/rpcif.cpp\<close>) that owns a state machine (\<^verbatim>\<open>ipc/ifstat.cpp\<close>); it talks through a stack of ports
  (\<^verbatim>\<open>ipc/port.cpp\<close>), each with a state machine of its own (\<^verbatim>\<open>ipc/portstat.cpp\<close>) that decides which request may enter.
  Events of ports, peers and buses reach the interface through connection points (\<^verbatim>\<open>ipc/connhelp.h\<close>). A router
  (\<^verbatim>\<open>rpc/\<close>) forwards requests between hosts: each connection has groups of parallel tasks (\<^verbatim>\<open>ipc/iftasks.cpp\<close>,
  \<^verbatim>\<open>rpc/reqfwdr.cpp\<close>), and a scheduler (\<^verbatim>\<open>rpc/taskschd.cpp\<close>) shares the slots of the connection among them. The
  applications keep their persistent state in a file system inside one file (\<^verbatim>\<open>monitor/registry\<close>), with block and group
  bitmaps and a write-back cache (\<^verbatim>\<open>blkalloc.cpp\<close>) and files and directories above them (\<^verbatim>\<open>file.cpp\<close>, \<^verbatim>\<open>dir.cpp\<close>). Arguments of calls and configurations
  travel as bytes (\<^verbatim>\<open>combase/seribase.cpp\<close>, \<^verbatim>\<open>combase/config.cpp\<close>), and named objects are kept in an object registry
  (\<^verbatim>\<open>combase/registry.cpp\<close>).

  \<^bold>\<open>Theories and code.\<close>
  \<^item> \<open>Prelude\<close>: the status codes and the predicates \<^verbatim>\<open>ERROR\<close> and \<^verbatim>\<open>SUCCEEDED\<close> of \<^verbatim>\<open>include/defines.h\<close>, the type \<open>run\<close> of
    computations that may end in a fault (a null pointer, an empty container, an abort), and lemmas on lists.
  \<^item> \<open>PortState\<close>: \<^verbatim>\<open>CPortState\<close>. The record \<open>port_state\<close> has the stack of states, the semaphore and the request that waits
    for exclusion; \<open>CanContinue\<close>, \<open>PopState\<close>, \<open>SetPortState\<close>, \<open>ResumeSubmitTask\<close> and the others are its methods, and \<open>port_step\<close>
    the calls of \<^verbatim>\<open>ipc/port.cpp\<close>, where a switch of the state with a request inside is a step only if the table refuses it (\<open>switch_safe\<close>). The
    lemmas show the invariant of the stack, who is admitted and refused, that an exclusive request waits for the shared ones and runs when nothing
    overtakes it, and that waiting ends.
  \<^item> \<open>IfState\<close>: \<^verbatim>\<open>CInterfaceState\<close> and its subclasses, with the transition table, the event handlers, the opening of the port and the
    subscription to connection points. The lemmas show the invariant, recovery, stopping, and that subscriptions are all or nothing.
  \<^item> \<open>BlkAddr\<close>: the geometry of the image, on \<open>32 word\<close>, and the super block. \<open>BlkBitmap\<close>: the bitmaps of groups and blocks on
    bytes; allocation is fresh, freeing undoes it, scanning eight bytes at once finds the first free entry.
  \<^item> \<open>BlkCache\<close>: the write-back cache above the file, which is a map of byte offsets; a block lies at its wrapping 32-bit offset. For the blocks of
    the groups below 2 GiB of the file (\<open>on_disk\<close>) the locale \<open>block_store\<close> and its interpretation \<open>cache_store\<close> state what a client of the allocator sees:
    a plain store of blocks, whatever is written, merged, committed or held back by a transaction.
  \<^item> \<open>ParGrp\<close>: \<^verbatim>\<open>CIfParallelTaskGrp\<close>, \<^verbatim>\<open>CIfParallelTaskGrpRfc\<close> and \<^verbatim>\<open>CIfParallelTaskGrpRfc2\<close>, with limits, admission and the run
    loop. \<open>TaskSched\<close>: \<^verbatim>\<open>CRRTaskScheduler\<close>, which uses the groups through the locale \<open>limited\<close> (a new limit is taken
    over up to a cap) and is shown to lose no group, to serve connections in turn, and to keep the slot budget in the steps of \<open>sched_step\<close>: removing
    a list of groups and changing the number of slots are steps under the conditions \<open>removal_fits\<close> and \<open>slots_fit\<close>, without which lemmas show the budget broken.
  \<^item> \<open>Seri\<close>: the wire format of generated interfaces: the templates of \<^verbatim>\<open>CSerialBase\<close> (\<^verbatim>\<open>include/seribase.h\<close>,
    \<^verbatim>\<open>combase/seribase.cpp\<close>), directed by the signature strings that the interface compiler emits, the variant type, and the structs
    whose methods \<^verbatim>\<open>ridl/gencpp.cpp\<close> writes. What a class of objects does is the record \<open>codec\<close>, whose readers may fault; \<open>val_ok\<close>
    are the values that come back as they were sent. The locale \<open>wire_format\<close> is the contract between a serializer and its reader,
    interpreted for elements (\<open>elem\<close>); \<open>wire_map\<close>, for entries (\<open>entry\<close>), carries it to maps. \<open>Wire\<close> holds the bytes of numbers in
    network order, which \<open>Config\<close> and the file theories share.
  \<^item> \<open>Registry\<close>: \<^verbatim>\<open>CRegistry\<close> and \<^verbatim>\<open>CDirEntry\<close>. The tree of directories is a datatype, and a pointer into it is the path of its
    names. The lemmas show that every operation is the one of a specification on a map from paths to properties, and that making a
    directory with its parents is all or nothing. \<^verbatim>\<open>SetRootDir\<close>, which nothing calls, is left out.
  \<^item> \<open>Config\<close>: \<^verbatim>\<open>CConfigDb2\<close>, the properties of a configuration, its serialization with the growing of the buffer, and reading it back.
  \<^item> \<open>FileInode\<close>, \<open>FileData\<close>: \<^verbatim>\<open>CFileImage\<close>, \<^verbatim>\<open>CLinkImage\<close> and \<^verbatim>\<open>COpenFileEntry\<close> of \<^verbatim>\<open>file.cpp\<close>: the inode and its block, attributes, access
    checks; collecting the blocks of a range through the direct entries, the indirect table and the directory of tables, reading,
    writing, truncating, closing. The allocator below is the record \<open>dev\<close>, what \<open>block_store\<close> and the bitmaps promise to a client; when no block is free, the
    allocation fails with \<^verbatim>\<open>-ENOMEM\<close>. The tables are flushed in the order of the hash map, which does not matter (\<open>flush_any_order\<close>).
  \<^item> \<open>FileView\<close>, \<open>FileWrite\<close>: what a file is, independent of its tables. \<open>slots\<close> are the places that hold a block (\<open>loc\<close>), \<open>content\<close> is the byte at
    an offset, and \<open>file_ok\<close> says that no block serves two places and none is both used and free. Reading gives the content; writing
    changes the content in its range and nowhere else, but for what new blocks hold outside it, leaves the blocks of others and keeps \<open>file_ok\<close>. \<open>FileFaults\<close>: what goes wrong in extending and truncating, in
    reading holes and on a full image.
  \<^item> \<open>DirNode\<close>, \<open>DirTree\<close>: the B+ tree of a directory in \<^verbatim>\<open>dir.cpp\<close>, \<^verbatim>\<open>CBPlusNode\<close>, \<^verbatim>\<open>CFreeBNodePool\<close> and \<^verbatim>\<open>CDirImage\<close>: keys and slots,
    the bytes of a node, binary search; children, the pool of free nodes, search, listing, insertion with splitting, removal with rebalancing.
    \<open>DirView\<close>: the invariant \<open>tree_ok\<close> on levels and key ranges, under which search is exact and listing gives all entries in order.

  \<^bold>\<open>How code becomes definitions.\<close> A method with its lock held is one function from its arguments and the state record to its
  status code and the new state; early returns are branches, and what would be undefined behaviour in C++ is a fault of \<open>run\<close>. The
  \<^verbatim>\<open>back()\<close> of a vector used as a stack is the head of the list. Pointers to shared objects are object ids, with a map to the
  objects where aliasing matters (\<open>m_grps\<close> in \<open>TaskSched\<close>). Answers of code outside the model (the I/O manager, files, clocks,
  object properties, the children of a group) are arguments.

  \<^bold>\<open>Bounds and fuel.\<close> Loops over containers are structural recursion or count the length the source counts. \<open>CanContinue\<close>
  terminates by the value of its semaphore. The run loop of a group gets fuel, since its children may queue new tasks; with one
  more than the number of waiting tasks it returns when the children queue none (\<open>rfc_run_work_conserving\<close>). Walks in the tree of a directory get
  a number of rounds, for which more than its height, or the number of its nodes, is enough. Sums of
  \<^verbatim>\<open>guint32\<close> wrap as in C++ where they can overflow. Sizes and offsets of files are natural numbers with \<open>mod 2 ^ 32\<close> where the source
  can wrap; the theorems on files are for blocks of 512, 1024 and 2048 bytes (\<open>geom_ok\<close>), for which \<^verbatim>\<open>MAX_FILE_SIZE\<close> fits, and a write needs
  three free blocks for each block of its range: the data, and a table and a directory at most.

  \<^bold>\<open>Not modelled.\<close> Code whose work is to call operating system or libraries: the I/O manager, threads, timers, sockets, D-Bus,
  TLS, Kerberos, FUSE; the generators of the interface compiler; bindings and tools. Of the registry file system: formatting a whole
  image, reading and flushing whole directory trees and the methods that allocate an inode for a new entry, the checker and the front end. Of the modelled parts: statistics counters,
  searching tasks by id, and the writer for io_uring, which no build enables. Interleaving is that of whole methods, since the locks
  are held throughout; where a lock is released inside a method, the rest of it is a second step or an argument.
\<close>

end
